(* ===== verification/OcePrelude.thy ===== *)
theory OcePrelude
  imports Main "HOL-Library.Word"
begin

text \<open>
  Shared vocabulary of the development: the machine integer types of the C++ code, the
  standard library searches the code uses (\<open>std::lower_bound\<close> on a range of a vector, and the
  same search with \<open>less_equal\<close>, which the code uses as an upper bound), in-place updates of
  a range, and the facts about strictly sorted key lists on which the components rest.
\<close>

unbundle bit_operations_syntax

type_synonym u32 = "32 word"
type_synonym i32 = "32 word"
type_synonym i64 = "64 word"

named_theorems list_range_simps \<open>closed forms of the loops over vector ranges\<close>

section \<open>Narrowing to 32 bits\<close>

text \<open>The value an \<open>int\<close> takes when a wider or an overflowing result is stored in it.\<close>

definition to_int32 :: "int \<Rightarrow> int" where
  "to_int32 x = (x + 2 ^ 31) mod 2 ^ 32 - 2 ^ 31"

lemma to_int32_id: "- (2 ^ 31) \<le> x \<Longrightarrow> x < 2 ^ 31 \<Longrightarrow> to_int32 x = x"
  by (simp add: to_int32_def)

lemma to_int32_diff: "to_int32 (a - to_int32 b) = to_int32 (a - b)"
proof -
  have "a - ((b + 2 ^ 31) mod 2 ^ 32 - 2 ^ 31) + 2 ^ 31 = (a + 2 ^ 32) - (b + 2 ^ 31) mod 2 ^ 32" by simp
  then have "(a - to_int32 b + 2 ^ 31) mod 2 ^ 32 = ((a + 2 ^ 32) - (b + 2 ^ 31)) mod 2 ^ 32"
    unfolding to_int32_def by (simp only: mod_diff_right_eq)
  then show ?thesis unfolding to_int32_def [of "a - to_int32 b"] to_int32_def [of "a - b"] by (simp add: add.commute)
qed

text \<open>The four bytes of an \<open>int\<close>, least significant first.\<close>

definition int_bytes :: "int \<Rightarrow> int list" where
  "int_bytes x = [x mod 256, x div 256 mod 256, x div 65536 mod 256, x div 16777216 mod 256]"

lemma int_bytes_value: "- (2 ^ 31) \<le> x \<Longrightarrow> x < 2 ^ 31 \<Longrightarrow>
   to_int32 (x mod 256 + 256 * (x div 256 mod 256) + 65536 * (x div 65536 mod 256) + 16777216 * (x div 16777216 mod 256)) = x"
proof -
  assume r: "- (2 ^ 31) \<le> x" "x < 2 ^ 31"
  have m: "x mod (a * 256) = a * (x div a mod 256) + x mod a" for a by (rule zmod_zmult2_eq) simp
  have "x mod 4294967296 = 16777216 * (x div 16777216 mod 256) + x mod 16777216"
    using m [of 16777216] by (simp only: arith_simps)
  moreover have "x mod 16777216 = 65536 * (x div 65536 mod 256) + x mod 65536"
    using m [of 65536] by (simp only: arith_simps)
  moreover have "x mod 65536 = 256 * (x div 256 mod 256) + x mod 256" using m [of 256] by (simp only: arith_simps)
  ultimately have "x mod 256 + 256 * (x div 256 mod 256) + 65536 * (x div 65536 mod 256) + 16777216 * (x div 16777216 mod 256) =
      x mod 4294967296" by linarith
  moreover have "to_int32 (x mod 4294967296) = x"
    using r unfolding to_int32_def by (simp add: mod_simps)
  ultimately show ?thesis by (simp only:)
qed

section \<open>Binary search on a vector range\<close>

text \<open>
  The halving loop of \<open>std::lower_bound\<close>: \<open>part_point p xs i n\<close> searches the range of length
  \<open>n\<close> that starts at index \<open>i\<close> for the first element on which \<open>p\<close> fails.
\<close>

function part_point :: "('a \<Rightarrow> bool) \<Rightarrow> 'a list \<Rightarrow> nat \<Rightarrow> nat \<Rightarrow> nat" where
  "part_point p xs i n =
     (if n = 0 then i
      else let half = n div 2; mid = i + half in
        if p (xs ! mid) then part_point p xs (Suc mid) (n - half - 1)
        else part_point p xs i half)"
  by pat_completeness auto
termination
  by (relation "measure (\<lambda>(p, xs, i, n). n)") auto

declare part_point.simps [simp del]

definition lower_bound :: "('a \<Rightarrow> 'b \<Rightarrow> bool) \<Rightarrow> 'a list \<Rightarrow> nat \<Rightarrow> nat \<Rightarrow> 'b \<Rightarrow> nat" where
  "lower_bound lt xs i j v = part_point (\<lambda>y. lt y v) xs i (j - i)"

lemma part_point_bounds: "i \<le> part_point p xs i n \<and> part_point p xs i n \<le> i + n"
proof (induction p xs i n rule: part_point.induct)
  case (1 p xs i n)
  show ?case
  proof (cases "n = 0")
    case True
    then show ?thesis by (simp add: part_point.simps)
  next
    case False
    then have "n div 2 < n" by simp
    with 1 [OF False refl refl] False show ?thesis
      by (cases "p (xs ! (i + n div 2))")
         (auto simp: part_point.simps [of p xs i n] Let_def)
  qed
qed

lemma part_point_unique:
  assumes "i \<le> k" "k \<le> i + n"
    and "\<And>j. i \<le> j \<Longrightarrow> j < i + n \<Longrightarrow> p (xs ! j) \<longleftrightarrow> j < k"
  shows "part_point p xs i n = k"
  using assms
proof (induction p xs i n rule: part_point.induct)
  case (1 p xs i n)
  show ?case
  proof (cases "n = 0")
    case True
    with 1 show ?thesis by (simp add: part_point.simps)
  next
    case False
    let ?m = "i + n div 2"
    from False have m: "?m < i + n" by simp
    show ?thesis
    proof (cases "p (xs ! ?m)")
      case True
      with "1.prems" m have "?m < k" by auto
      with 1 False True m have "part_point p xs (Suc ?m) (n - n div 2 - 1) = k"
        by auto
      with False True show ?thesis by (simp add: part_point.simps [of p xs i n] Let_def)
    next
      case no: False
      with "1.prems" m have "k \<le> ?m" by auto
      with 1 False no m have "part_point p xs i (n div 2) = k" by auto
      with False no show ?thesis by (simp add: part_point.simps [of p xs i n] Let_def)
    qed
  qed
qed

lemma lower_bound_bounds:
  "i \<le> j \<Longrightarrow> i \<le> lower_bound lt xs i j v \<and> lower_bound lt xs i j v \<le> j"
  using part_point_bounds [of i "\<lambda>y. lt y v" xs "j - i"] by (simp add: lower_bound_def)

lemma lower_bound_unique:
  assumes "i \<le> k" "k \<le> j"
    and "\<And>m. i \<le> m \<Longrightarrow> m < j \<Longrightarrow> lt (xs ! m) v \<longleftrightarrow> m < k"
  shows "lower_bound lt xs i j v = k"
  unfolding lower_bound_def by (rule part_point_unique) (use assms in auto)

section \<open>Partitioned lists\<close>

text \<open>
  A range is partitioned by \<open>p\<close> when no element satisfying \<open>p\<close> follows one that does not:
  the precondition of \<open>std::lower_bound\<close>. There the search splits the list into what
  satisfies \<open>p\<close> and what does not.
\<close>

abbreviation partitioned :: "('a \<Rightarrow> bool) \<Rightarrow> 'a list \<Rightarrow> bool" where
  "partitioned p \<equiv> sorted_wrt (\<lambda>a b. p b \<longrightarrow> p a)"

lemma partitioned_takeWhile: "partitioned p xs \<Longrightarrow> takeWhile p xs = filter p xs"
  by (induction xs) (auto simp: filter_empty_conv)

lemma partitioned_dropWhile: "partitioned p xs \<Longrightarrow> dropWhile p xs = filter (\<lambda>x. \<not> p x) xs"
  by (induction xs) (auto simp: filter_id_conv)

lemma partitioned_nth:
  assumes "partitioned p xs" "i < length xs"
  shows "p (xs ! i) \<longleftrightarrow> i < length (takeWhile p xs)"
proof
  assume "p (xs ! i)"
  then have "\<And>j. j \<le> i \<Longrightarrow> p (xs ! j)"
    using assms by (metis le_eq_less_or_eq sorted_wrt_nth_less)
  then show "i < length (takeWhile p xs)"
    using assms(2) by (metis linorder_not_less nth_length_takeWhile order_le_less_trans)
next
  assume "i < length (takeWhile p xs)"
  then show "p (xs ! i)" by (metis nth_mem set_takeWhileD takeWhile_nth)
qed

lemma lower_bound_range:
  assumes "partitioned (\<lambda>y. lt y v) xs" "i \<le> j" "j \<le> length xs"
  shows "lower_bound lt xs i j v = max i (min j (length (takeWhile (\<lambda>y. lt y v) xs)))"
proof (rule lower_bound_unique)
  fix m assume "i \<le> m" "m < j"
  then show "lt (xs ! m) v \<longleftrightarrow> m < max i (min j (length (takeWhile (\<lambda>y. lt y v) xs)))"
    using partitioned_nth [OF assms(1), of m] assms(3) by auto
qed (use assms in auto)

lemma lower_bound_full:
  assumes "partitioned (\<lambda>y. lt y v) xs"
  shows "lower_bound lt xs 0 (length xs) v = length (takeWhile (\<lambda>y. lt y v) xs)"
  using lower_bound_range [where lt = lt and v = v, OF assms, of 0 "length xs"]
    length_takeWhile_le [of _ xs] by simp

lemma take_lower_bound:
  assumes "partitioned (\<lambda>y. lt y v) xs"
  shows "take (lower_bound lt xs 0 (length xs) v) xs = filter (\<lambda>y. lt y v) xs"
  using lower_bound_full [where lt = lt and v = v, OF assms] partitioned_takeWhile [OF assms]
  by (metis takeWhile_eq_take)

lemma drop_lower_bound:
  assumes "partitioned (\<lambda>y. lt y v) xs"
  shows "drop (lower_bound lt xs 0 (length xs) v) xs = filter (\<lambda>y. \<not> lt y v) xs"
  using lower_bound_full [where lt = lt and v = v, OF assms] partitioned_dropWhile [OF assms]
  by (metis dropWhile_eq_drop)

section \<open>Loops over a range of a vector\<close>

text \<open>
  \<open>erase_while p it xs\<close> is the loop \<open>while (it != end && p(*it)) it = v.erase(it)\<close>;
  \<open>map_range f b e xs\<close> updates the elements of the range \<open>[b, e)\<close> in place;
  \<open>slice b e xs\<close> is the list of its elements.
\<close>

function erase_while :: "('a \<Rightarrow> bool) \<Rightarrow> nat \<Rightarrow> 'a list \<Rightarrow> 'a list" where
  "erase_while p it xs =
     (if it < length xs \<and> p (xs ! it)
      then erase_while p it (take it xs @ drop (Suc it) xs) else xs)"
  by pat_completeness auto
termination
  by (relation "measure (\<lambda>(p, it, xs). length xs)") auto

declare erase_while.simps [simp del]

lemma erase_while_closed [list_range_simps]:
  "it \<le> length xs \<Longrightarrow> erase_while p it xs = take it xs @ dropWhile p (drop it xs)"
proof (induction p it xs rule: erase_while.induct)
  case (1 p it xs)
  show ?case
  proof (cases "it < length xs \<and> p (xs ! it)")
    case True
    then have "drop it xs = xs ! it # drop (Suc it) xs" by (simp add: Cons_nth_drop_Suc)
    moreover from True have "it \<le> length xs - Suc 0" by linarith
    ultimately show ?thesis using 1 True by (simp add: erase_while.simps [of p it xs])
  next
    case False
    then have "dropWhile p (drop it xs) = drop it xs"
      by (cases "it < length xs") (auto simp flip: Cons_nth_drop_Suc)
    with False show ?thesis by (subst erase_while.simps) (metis append_take_drop_id)
  qed
qed

definition slice :: "nat \<Rightarrow> nat \<Rightarrow> 'a list \<Rightarrow> 'a list" where
  "slice b e xs = take (e - b) (drop b xs)"

definition map_range :: "('a \<Rightarrow> 'a) \<Rightarrow> nat \<Rightarrow> nat \<Rightarrow> 'a list \<Rightarrow> 'a list" where
  "map_range f b e xs = take b xs @ map f (slice b e xs) @ drop (max b e) xs"

lemma length_map_range [simp]: "length (map_range f b e xs) = length xs"
  by (auto simp: map_range_def slice_def)

lemma nth_map_range:
  "i < length xs \<Longrightarrow> map_range f b e xs ! i = (if b \<le> i \<and> i < e then f (xs ! i) else xs ! i)"
  by (auto simp: map_range_def slice_def nth_append min_def max_def)

text \<open>An in-place update that touches no element outside the range is a plain \<open>map\<close>.\<close>

lemma map_range_all:
  assumes "\<And>i. i < length xs \<Longrightarrow> \<not> (b \<le> i \<and> i < e) \<Longrightarrow> f (xs ! i) = xs ! i"
  shows "map_range f b e xs = map f xs"
  by (rule nth_equalityI) (use assms in \<open>auto simp: nth_map_range\<close>)

lemma filter_slice_all:
  assumes "\<And>i. i < length xs \<Longrightarrow> \<not> (b \<le> i \<and> i < e) \<Longrightarrow> \<not> q (xs ! i)" "b \<le> e"
  shows "filter q (slice b e xs) = filter q xs"
proof -
  have "xs = take b xs @ slice b e xs @ drop e xs"
    using assms(2) by (simp add: slice_def) (metis append_take_drop_id drop_drop le_add_diff_inverse2)
  moreover have "filter q (take b xs) = []" "filter q (drop e xs) = []"
    using assms(1) by (auto simp: filter_empty_conv in_set_conv_nth)
  ultimately show ?thesis by (metis append_Nil append_Nil2 filter_append)
qed

end
