(* ===== verification/BuddyEntry.thy ===== *)
theory BuddyEntry
  imports OcePrelude
begin

text \<open>
  The relation records of the social graph, \<^verbatim>\<open>OceCommon/src/BuddyEntry.h\<close> and
  \<^verbatim>\<open>BuddyEntry.cpp\<close> (the operations shared with \<^verbatim>\<open>BuddyEntry/src\<close> are the same
  text there): the bit flags of a relation and their translation to and from \<^verbatim>\<open>BuddyDesc\<close>
  (\<^verbatim>\<open>OceSlice/slice/BuddyCommon.ice\<close>), the \<^verbatim>\<open>Entry\<close> with its msk comparisons, and
  \<^verbatim>\<open>EntryListHolder\<close>, the vector of one user's entries kept sorted by the other user's id.
  \<open>hview\<close> reads a holder as a map from user id to flags; every operation is shown to keep the
  strict order and to act on that map. The locale \<open>entry_store\<close> is what the relation
  server relies on.
\<close>

named_theorems desc_consts \<open>the flag constants\<close>

section \<open>Flags and descriptions\<close>

datatype BuddyDesc = NoPath | Self | Friend | Apply | Applied | Block | Blocked | BiBlock

definition MAX_INT :: u32 where "MAX_INT = 0xFFFFFFFF"
definition DESC_MASK :: u32 where [desc_consts]: "DESC_MASK = 0x1F"
definition DESC_MASK_FRIEND :: u32 where [desc_consts]: "DESC_MASK_FRIEND = 0x10"
definition DESC_MASK_APPLY :: u32 where [desc_consts]: "DESC_MASK_APPLY = 0x03"
definition DESC_MASK_BLOCK :: u32 where [desc_consts]: "DESC_MASK_BLOCK = 0x04"
definition DESC_MASK_BLOCKED :: u32 where [desc_consts]: "DESC_MASK_BLOCKED = 0x08"
definition DESC_UNKNOWN :: u32 where [desc_consts]: "DESC_UNKNOWN = 0x0"
definition DESC_FRIEND :: u32 where [desc_consts]: "DESC_FRIEND = 0x10"
definition DESC_APPLY :: u32 where [desc_consts]: "DESC_APPLY = 0x01"
definition DESC_APPLIED :: u32 where [desc_consts]: "DESC_APPLIED = 0x02"
definition DESC_BLOCK :: u32 where [desc_consts]: "DESC_BLOCK = 0x04"
definition DESC_BLOCKED :: u32 where [desc_consts]: "DESC_BLOCKED = 0x08"

fun oppositeDesc :: "BuddyDesc \<Rightarrow> BuddyDesc" where
  "oppositeDesc NoPath = NoPath"
| "oppositeDesc Friend = Friend"
| "oppositeDesc Apply = Applied"
| "oppositeDesc Applied = Apply"
| "oppositeDesc Block = Blocked"
| "oppositeDesc Blocked = Block"
| "oppositeDesc BiBlock = BiBlock"
| "oppositeDesc _ = NoPath"

definition translateDesc :: "u32 \<Rightarrow> BuddyDesc" where
  "translateDesc d =
     (let m = d AND DESC_MASK in
      if m = DESC_UNKNOWN then NoPath
      else if m = DESC_FRIEND then Friend
      else if m = DESC_APPLY then Apply
      else if m = DESC_APPLIED then Applied
      else if m = DESC_BLOCK then Block
      else if m = DESC_BLOCKED then Blocked
      else if m = (DESC_BLOCK OR DESC_BLOCKED) then BiBlock
      else NoPath)"

fun translateInt :: "BuddyDesc \<Rightarrow> u32" where
  "translateInt NoPath = DESC_UNKNOWN"
| "translateInt Friend = DESC_FRIEND"
| "translateInt Apply = DESC_APPLY"
| "translateInt Applied = DESC_APPLIED"
| "translateInt Block = DESC_BLOCK"
| "translateInt Blocked = DESC_BLOCKED"
| "translateInt BiBlock = (DESC_BLOCK OR DESC_BLOCKED)"
| "translateInt _ = DESC_UNKNOWN"

fun getMask :: "BuddyDesc \<Rightarrow> u32" where
  "getMask NoPath = DESC_MASK"
| "getMask Friend = DESC_MASK_FRIEND"
| "getMask Apply = DESC_MASK_APPLY"
| "getMask Applied = DESC_MASK_APPLY"
| "getMask Block = DESC_MASK_BLOCK"
| "getMask Blocked = DESC_MASK_BLOCKED"
| "getMask _ = DESC_MASK"

lemma oppositeDesc_involutive: "d \<noteq> Self \<Longrightarrow> oppositeDesc (oppositeDesc d) = d"
  by (cases d) auto

lemma translate_roundtrip: "d \<noteq> Self \<Longrightarrow> translateDesc (translateInt d) = d"
  by (cases d) (simp_all add: translateDesc_def desc_consts)

lemma translateDesc_consts [simp]:
  "translateDesc DESC_FRIEND = Friend" "translateDesc DESC_APPLY = Apply"
  "translateDesc DESC_APPLIED = Applied" "translateDesc DESC_BLOCK = Block"
  "translateDesc DESC_BLOCKED = Blocked"
  "translateDesc (DESC_BLOCK OR DESC_BLOCKED) = BiBlock"
  "translateDesc (DESC_BLOCKED OR DESC_BLOCK) = BiBlock"
  by (simp_all add: translateDesc_def desc_consts)

section \<open>Entries\<close>

record Entry =
  to :: u32
  desc :: u32

definition mkEntry :: "u32 \<Rightarrow> u32 \<Rightarrow> Entry" where
  "mkEntry t d = \<lparr>to = t, desc = d\<rparr>"

lemma mkEntry_sel [simp]: "to (mkEntry t d) = t" "desc (mkEntry t d) = d"
  by (simp_all add: mkEntry_def)

lemma Entry_eqI: "to (e :: Entry) = to f \<Longrightarrow> desc e = desc f \<Longrightarrow> e = f"
  by (cases e, cases f) simp

definition equal_entry :: "Entry \<Rightarrow> Entry \<Rightarrow> bool" where
  "equal_entry x y \<longleftrightarrow> to x = to y"

definition less_entry :: "Entry \<Rightarrow> Entry \<Rightarrow> bool" where
  "less_entry x y \<longleftrightarrow> to x < to y"

definition less_equal_entry :: "Entry \<Rightarrow> Entry \<Rightarrow> bool" where
  "less_equal_entry x y \<longleftrightarrow> to x \<le> to y"

definition equals_mask :: "Entry \<Rightarrow> Entry \<Rightarrow> Entry \<Rightarrow> bool" where
  "equals_mask l r msk \<longleftrightarrow>
     (to l AND to msk) = (to r AND to msk) \<and> (desc l AND desc msk) = (desc r AND desc msk)"

definition equals_to :: "Entry \<Rightarrow> Entry \<Rightarrow> bool" where
  "equals_to l r \<longleftrightarrow> to l = to r"

section \<open>The holder\<close>

record EntryListHolder =
  hfrom :: u32
  hlist :: "Entry list"

definition mkHolder :: "u32 \<Rightarrow> Entry list \<Rightarrow> EntryListHolder" where
  "mkHolder f es = \<lparr>hfrom = f, hlist = es\<rparr>"

lemma mkHolder_sel [simp]: "hfrom (mkHolder f es) = f" "hlist (mkHolder f es) = es"
  by (simp_all add: mkHolder_def)

definition holder_add :: "Entry \<Rightarrow> EntryListHolder \<Rightarrow> EntryListHolder" where
  "holder_add e h =
     (let xs = hlist h; it = lower_bound less_entry xs 0 (length xs) e in
      if it < length xs \<and> to (xs ! it) = to e
      then h\<lparr>hlist := xs[it := (xs ! it)\<lparr>desc := desc e\<rparr>]\<rparr>
      else h\<lparr>hlist := take it xs @ e # drop it xs\<rparr>)"

definition holder_remove_mask :: "Entry \<Rightarrow> Entry \<Rightarrow> EntryListHolder \<Rightarrow> EntryListHolder" where
  "holder_remove_mask key msk h =
     (let xs = hlist h;
          infoBegin = mkEntry (to key AND to msk) (desc key AND desc msk);
          itBegin = lower_bound less_entry xs 0 (length xs) infoBegin
      in h\<lparr>hlist := erase_while (\<lambda>x. equals_mask key x msk) itBegin xs\<rparr>)"

definition holder_remove :: "Entry \<Rightarrow> EntryListHolder \<Rightarrow> EntryListHolder" where
  "holder_remove key h =
     (let xs = hlist h; itBegin = lower_bound less_entry xs 0 (length xs) key
      in h\<lparr>hlist := erase_while (equals_to key) itBegin xs\<rparr>)"

definition holder_set_mask ::
  "Entry \<Rightarrow> Entry \<Rightarrow> Entry \<Rightarrow> Entry \<Rightarrow> EntryListHolder \<Rightarrow> EntryListHolder" where
  "holder_set_mask key keyMask val valueMask h =
     (if to keyMask OR to valueMask \<noteq> MAX_INT then h
      else
       (let xs = hlist h;
            infoBegin = mkEntry (to key AND to keyMask) (desc key AND desc keyMask);
            infoEnd = mkEntry (NOT (to keyMask) OR to key) (NOT (desc keyMask) OR desc key);
            itBegin = lower_bound less_entry xs 0 (length xs) infoBegin;
            itEnd = lower_bound less_equal_entry xs itBegin (length xs) infoEnd
        in h\<lparr>hlist := map_range
              (\<lambda>x. if equals_mask key x keyMask
                   then x\<lparr>desc := (desc x AND NOT (desc valueMask)) OR (desc val AND desc valueMask)\<rparr>
                   else x) itBegin itEnd xs\<rparr>))"

definition holder_set :: "Entry \<Rightarrow> Entry \<Rightarrow> Entry \<Rightarrow> EntryListHolder \<Rightarrow> EntryListHolder" where
  "holder_set key val valueMask h =
     (if to valueMask \<noteq> MAX_INT then h
      else
       (let xs = hlist h;
            itBegin = lower_bound less_entry xs 0 (length xs) key;
            itEnd = lower_bound less_equal_entry xs itBegin (length xs) key
        in h\<lparr>hlist := map_range
              (\<lambda>x. if equals_to key x
                   then x\<lparr>desc := (desc x AND NOT DESC_MASK) OR (desc val AND desc valueMask)\<rparr>
                   else x) itBegin itEnd xs\<rparr>))"

definition holder_get :: "Entry \<Rightarrow> EntryListHolder \<Rightarrow> Entry list" where
  "holder_get key h =
     (case find (\<lambda>x. equal_entry x key) (hlist h) of None \<Rightarrow> [] | Some x \<Rightarrow> [x])"

definition holder_get_mask :: "Entry \<Rightarrow> Entry \<Rightarrow> EntryListHolder \<Rightarrow> Entry list" where
  "holder_get_mask key msk h =
     (let xs = hlist h;
          infoBegin = mkEntry (to key AND to msk) (desc key AND desc msk);
          infoEnd = mkEntry (to key OR NOT (to msk)) (desc key OR NOT (desc msk));
          itBegin = lower_bound less_entry xs 0 (length xs) infoBegin
      in if itBegin = length xs then []
         else (let itEnd = lower_bound less_equal_entry xs itBegin (length xs) infoEnd
               in [x \<leftarrow> slice itBegin itEnd xs. equals_mask key x msk \<and> desc x \<noteq> MAX_INT]))"

text \<open>\<open>EntryListResultBuilder\<close> collects the ids of what it is given.\<close>

definition builder_build :: "Entry \<Rightarrow> u32 list \<Rightarrow> u32 list" where
  "builder_build e result = result @ [to e]"

definition holder_get_build ::
  "Entry \<Rightarrow> Entry \<Rightarrow> u32 list \<Rightarrow> EntryListHolder \<Rightarrow> u32 list" where
  "holder_get_build key msk builder h =
     (let xs = hlist h;
          infoBegin = mkEntry (to key AND to msk) (desc key AND desc msk);
          infoEnd = mkEntry (to key OR NOT (to msk)) (desc key OR NOT (desc msk));
          itBegin = lower_bound less_entry xs 0 (length xs) infoBegin
      in if itBegin = length xs then builder
         else (let itEnd = lower_bound less_equal_entry xs itBegin (length xs) infoEnd
               in foldl (\<lambda>b x. if equals_mask key x msk \<and> desc x \<noteq> MAX_INT
                                then builder_build x b else b) builder (slice itBegin itEnd xs)))"

definition holder_getAll :: "EntryListHolder \<Rightarrow> Entry list" where
  "holder_getAll h = hlist h"

section \<open>The holder as a map\<close>

definition eview :: "Entry list \<Rightarrow> (u32 \<rightharpoonup> u32)" where
  "eview xs = map_of (map (\<lambda>e. (to e, desc e)) xs)"

definition hview :: "EntryListHolder \<Rightarrow> (u32 \<rightharpoonup> u32)" where
  "hview h = eview (hlist h)"

definition holder_wf :: "EntryListHolder \<Rightarrow> bool" where
  "holder_wf h \<longleftrightarrow> sorted_wrt less_entry (hlist h)"

lemma eview_Nil [simp]: "eview [] = Map.empty"
  and eview_Cons [simp]: "eview (x # xs) = (eview xs)(to x \<mapsto> desc x)"
  by (simp_all add: eview_def)

lemma eview_None: "eview xs k = None \<longleftrightarrow> k \<notin> to ` set xs"
  by (simp add: eview_def map_of_eq_None_iff image_image)

lemma sorted_entries_distinct: "sorted_wrt less_entry xs \<Longrightarrow> distinct (map to xs)"
  by (induction xs) (auto simp: less_entry_def)

lemma mkEntry_collapse [simp]: "mkEntry (to e) (desc e) = e"
  by (simp add: mkEntry_def)

lemma mkEntry_eq_iff: "mkEntry k d = e \<longleftrightarrow> k = to e \<and> d = desc (e :: Entry)"
  by (auto intro: Entry_eqI)

lemma eview_Some:
  assumes "sorted_wrt less_entry xs"
  shows "eview xs k = Some d \<longleftrightarrow> mkEntry k d \<in> set xs"
proof -
  have "distinct (map fst (map (\<lambda>e. (to e, desc e)) xs))"
    using sorted_entries_distinct [OF assms] by (simp add: comp_def)
  then have "eview xs k = Some d \<longleftrightarrow> (k, d) \<in> (\<lambda>e. (to e, desc e)) ` set xs"
    by (simp add: eview_def map_of_eq_Some_iff)
  also have "\<dots> \<longleftrightarrow> mkEntry k d \<in> set xs"
    unfolding image_iff by (metis mkEntry_collapse mkEntry_sel prod.inject)
  finally show ?thesis .
qed

lemma map_eq_by_Some: "(\<And>k d. m k = Some d \<longleftrightarrow> m' k = Some d) \<Longrightarrow> m = m'"
  by (rule ext) (metis not_Some_eq)

lemma entries_partitioned:
  assumes "sorted_wrt less_entry xs"
  shows "partitioned (\<lambda>y. less_entry y e) xs" "partitioned (\<lambda>y. less_equal_entry y e) xs"
  by (rule sorted_wrt_mono_rel [OF _ assms];
      auto simp: less_entry_def less_equal_entry_def)+

lemma sorted_entries_same:
  "sorted_wrt less_entry xs \<Longrightarrow> x \<in> set xs \<Longrightarrow> y \<in> set xs \<Longrightarrow> to x = to y \<Longrightarrow> x = y"
  using sorted_entries_distinct [of xs] by (auto simp: distinct_map inj_on_def)

lemma lower_bound_entry_le [simp]: "lower_bound less_entry xs 0 (length xs) e \<le> length xs"
  using lower_bound_bounds [of 0 "length xs" less_entry xs e] by simp

lemma take_lb_entry:
  assumes "sorted_wrt less_entry xs"
  shows "take (lower_bound less_entry xs 0 (length xs) e) xs = [y \<leftarrow> xs. to y < to e]"
  using take_lower_bound [where lt = less_entry and v = e, OF entries_partitioned(1) [OF assms]]
  by (simp add: less_entry_def)

lemma drop_lb_entry:
  assumes "sorted_wrt less_entry xs"
  shows "drop (lower_bound less_entry xs 0 (length xs) e) xs = [y \<leftarrow> xs. to e \<le> to y]"
  using drop_lower_bound [where lt = less_entry and v = e, OF entries_partitioned(1) [OF assms]]
  by (simp add: less_entry_def linorder_not_less)

lemma eview_filter_split:
  assumes "sorted_wrt less_entry xs"
  shows "sorted_wrt less_entry ([y \<leftarrow> xs. to y < k] @ ys) \<longleftrightarrow>
     sorted_wrt less_entry ys \<and> (\<forall>x\<in>set xs. to x < k \<longrightarrow> (\<forall>y\<in>set ys. to x < to y))"
  using assms by (auto simp: sorted_wrt_append sorted_wrt_filter less_entry_def)

text \<open>The two branches of \<open>add\<close> build the same list.\<close>

lemma holder_add_list:
  assumes "holder_wf h"
  shows "hlist (holder_add e h) =
    [y \<leftarrow> hlist h. to y < to e] @ mkEntry (to e) (desc e) # [y \<leftarrow> hlist h. to e < to y]"
proof -
  let ?xs = "hlist h" and ?it = "lower_bound less_entry (hlist h) 0 (length (hlist h)) e"
  have srt: "sorted_wrt less_entry ?xs" using assms by (simp add: holder_wf_def)
  note tk = take_lb_entry [OF srt, of e] and dr = drop_lb_entry [OF srt, of e]
  show ?thesis
  proof (cases "?it < length ?xs \<and> to (?xs ! ?it) = to e")
    case True
    then have hd: "drop ?it ?xs = ?xs ! ?it # drop (Suc ?it) ?xs" by (simp add: Cons_nth_drop_Suc)
    have "sorted_wrt less_entry (drop ?it ?xs)" using srt by (rule sorted_wrt_drop)
    then have gt: "\<forall>y \<in> set (drop (Suc ?it) ?xs). to e < to y"
      using True unfolding hd by (simp add: less_entry_def)
    have "[y \<leftarrow> ?xs. to e < to y] = [y \<leftarrow> drop ?it ?xs. to e < to y]"
      unfolding dr by (auto intro: filter_cong)
    also have "\<dots> = drop (Suc ?it) ?xs" unfolding hd using True gt by (simp add: filter_id_conv)
    finally have up: "drop (Suc ?it) ?xs = [y \<leftarrow> ?xs. to e < to y]" by simp
    have "hlist (holder_add e h) = ?xs[?it := (?xs ! ?it)\<lparr>desc := desc e\<rparr>]"
      using True by (simp add: holder_add_def Let_def)
    also have "\<dots> = take ?it ?xs @ (?xs ! ?it)\<lparr>desc := desc e\<rparr> # drop (Suc ?it) ?xs"
      using True by (simp add: upd_conv_take_nth_drop)
    also have "(?xs ! ?it)\<lparr>desc := desc e\<rparr> = mkEntry (to e) (desc e)"
      using True by (auto intro: Entry_eqI)
    finally show ?thesis by (simp only: tk up)
  next
    case False
    have none: "to e \<noteq> to y" if y: "y \<in> set ?xs" for y
    proof
      assume "to e = to y"
      with y have mem: "y \<in> set (drop ?it ?xs)" unfolding dr by simp
      then have len: "?it < length ?xs" by (cases "?it < length ?xs") auto
      then have hd: "drop ?it ?xs = ?xs ! ?it # drop (Suc ?it) ?xs" by (simp add: Cons_nth_drop_Suc)
      have "sorted_wrt less_entry (drop ?it ?xs)" using srt by (rule sorted_wrt_drop)
      then have le: "to (?xs ! ?it) \<le> to y" using mem unfolding hd by (auto simp: less_entry_def)
      have "?xs ! ?it \<in> set (drop ?it ?xs)" unfolding hd by simp
      then have "to e \<le> to (?xs ! ?it)" unfolding dr by simp
      with le \<open>to e = to y\<close> False len show False by auto
    qed
    have "hlist (holder_add e h) = take ?it ?xs @ e # drop ?it ?xs"
      using False by (auto simp: holder_add_def Let_def)
    moreover have "[y \<leftarrow> ?xs. to e \<le> to y] = [y \<leftarrow> ?xs. to e < to y]"
      by (rule filter_cong) (use none in \<open>auto simp: le_less\<close>)
    ultimately show ?thesis by (simp add: tk dr)
  qed
qed

lemma holder_add_wf:
  assumes "holder_wf h" shows "holder_wf (holder_add e h)"
  using assms unfolding holder_wf_def holder_add_list [OF assms]
  by (auto simp: eview_filter_split sorted_wrt_filter less_entry_def)

lemma holder_add_view:
  assumes "holder_wf h" shows "hview (holder_add e h) = (hview h)(to e \<mapsto> desc e)"
proof (rule map_eq_by_Some)
  fix k d
  have "hview (holder_add e h) k = Some d \<longleftrightarrow> mkEntry k d \<in> set (hlist (holder_add e h))"
    using holder_add_wf [OF assms] by (simp add: hview_def holder_wf_def eview_Some)
  also have "\<dots> \<longleftrightarrow> ((hview h)(to e \<mapsto> desc e)) k = Some d"
    using assms unfolding holder_add_list [OF assms]
    by (auto simp: hview_def holder_wf_def eview_Some mkEntry_eq_iff)
  finally show "hview (holder_add e h) k = Some d \<longleftrightarrow> ((hview h)(to e \<mapsto> desc e)) k = Some d" .
qed

lemma holder_from [simp]:
  "hfrom (holder_add e h) = hfrom h" "hfrom (holder_remove_mask key msk h) = hfrom h"
  "hfrom (holder_remove key h) = hfrom h" "hfrom (holder_set_mask key km v vm h) = hfrom h"
  "hfrom (holder_set key v vm h) = hfrom h"
  by (simp_all add: holder_add_def holder_remove_mask_def holder_remove_def
      holder_set_mask_def holder_set_def Let_def)

section \<open>Masked operations\<close>

text \<open>An entry that matches a masked key lies in the range of ids the operations search.\<close>

lemma mask_range:
  assumes "(k AND m) = ((x :: u32) AND m)"
  shows "k AND m \<le> x" "x \<le> k OR NOT m" "x \<le> NOT m OR k"
proof -
  show "k AND m \<le> x" using assms word_and_le2 [of x m] by simp
  have "k OR NOT m = x OR NOT m"
    by (rule bit_word_eqI) (use assms in \<open>auto simp: bit_simps bit_eq_iff\<close>)
  then show "x \<le> k OR NOT m" by (simp add: le_word_or2)
  then show "x \<le> NOT m OR k" by (simp add: or.commute)
qed

lemma search_range_complete:
  assumes "sorted_wrt less_entry xs" and "i < length xs"
    and b: "b = lower_bound less_entry xs 0 (length xs) lo"
    and e: "e = lower_bound less_equal_entry xs b (length xs) hi"
    and out: "\<not> (b \<le> i \<and> i < e)"
  shows "to (xs ! i) < to lo \<or> to hi < to (xs ! i)"
proof (cases "i < b")
  case True
  then show ?thesis
    using partitioned_nth [OF entries_partitioned(1) [OF assms(1)] assms(2), of lo]
      lower_bound_full [where lt = less_entry and v = lo, OF entries_partitioned(1) [OF assms(1)]]
    by (simp add: b less_entry_def)
next
  case False
  have "b \<le> length xs" by (simp add: b)
  then have "e = max b (min (length xs) (length (takeWhile (\<lambda>y. less_equal_entry y hi) xs)))"
    unfolding e
    by (intro lower_bound_range [where lt = less_equal_entry and v = hi])
       (use entries_partitioned(2) [OF assms(1)] in auto)
  with False out have "\<not> i < length (takeWhile (\<lambda>y. less_equal_entry y hi) xs)"
    using assms(2) by auto
  then show ?thesis
    using partitioned_nth [OF entries_partitioned(2) [OF assms(1)] assms(2), of hi]
    by (simp add: less_equal_entry_def linorder_not_le)
qed

lemma search_range_order:
  "b = lower_bound less_entry xs 0 (length xs) lo \<Longrightarrow>
   b \<le> lower_bound less_equal_entry xs b (length xs) hi"
  using lower_bound_bounds [of b "length xs" less_equal_entry xs hi] by simp

text \<open>A loop that erases from the lower bound of \<open>k\<close> on removes every match of \<open>k\<close>.\<close>

lemma erase_from_lower_bound:
  assumes "sorted_wrt less_entry xs" and "\<And>y. q y \<Longrightarrow> to y = to k"
  shows "erase_while q (lower_bound less_entry xs 0 (length xs) k) xs = [y \<leftarrow> xs. \<not> q y]"
proof -
  let ?it = "lower_bound less_entry xs 0 (length xs) k"
  note tk = take_lb_entry [OF assms(1), of k] and dr = drop_lb_entry [OF assms(1), of k]
  have part: "partitioned q [y \<leftarrow> xs. to k \<le> to y]"
  proof (rule sorted_wrt_mono_rel [OF _ sorted_wrt_filter [OF assms(1)]])
    fix a b assume "a \<in> set [y \<leftarrow> xs. to k \<le> to y]" "less_entry a b"
    then have "to k < to b" by (auto simp: less_entry_def)
    then show "q b \<longrightarrow> q a" using assms(2) [of b] by auto
  qed
  have keep: "[y \<leftarrow> [y \<leftarrow> xs. to y < to k]. \<not> q y] = [y \<leftarrow> xs. to y < to k]"
    unfolding filter_id_conv using assms(2) by auto
  have "erase_while q ?it xs = [y \<leftarrow> xs. to y < to k] @ [y \<leftarrow> [y \<leftarrow> xs. to k \<le> to y]. \<not> q y]"
    by (simp only: list_range_simps lower_bound_entry_le tk dr partitioned_dropWhile [OF part])
  also have "\<dots> = [y \<leftarrow> take ?it xs. \<not> q y] @ [y \<leftarrow> drop ?it xs. \<not> q y]"
    by (simp only: tk dr keep)
  also have "\<dots> = [y \<leftarrow> xs. \<not> q y]" by (metis append_take_drop_id filter_append)
  finally show ?thesis .
qed

lemma MAX_INT_minus: "MAX_INT = - 1"
  by (simp add: MAX_INT_def)

lemma MAX_INT_bits [simp]:
  "MAX_INT AND x = x" "x AND MAX_INT = x" "MAX_INT OR x = MAX_INT" "x OR MAX_INT = MAX_INT"
  by (simp_all add: MAX_INT_minus)

lemma holder_remove_list:
  assumes "holder_wf h"
  shows "hlist (holder_remove key h) = [y \<leftarrow> hlist h. to y \<noteq> to key]"
proof -
  have "hlist (holder_remove key h) = [y \<leftarrow> hlist h. \<not> equals_to key y]"
    unfolding holder_remove_def Let_def
    by (simp, rule erase_from_lower_bound) (use assms in \<open>auto simp: holder_wf_def equals_to_def\<close>)
  then show ?thesis by (simp add: equals_to_def eq_commute [of "to key"])
qed

lemma holder_remove_mask_list:
  assumes "holder_wf h" "to msk = MAX_INT"
  shows "hlist (holder_remove_mask key msk h) =
    [y \<leftarrow> hlist h. \<not> (to y = to key \<and> (desc key AND desc msk) = (desc y AND desc msk))]"
proof -
  have "hlist (holder_remove_mask key msk h) = [y \<leftarrow> hlist h. \<not> equals_mask key y msk]"
    unfolding holder_remove_mask_def Let_def
    by (simp, rule erase_from_lower_bound)
       (use assms in \<open>auto simp: holder_wf_def equals_mask_def\<close>)
  then show ?thesis using assms(2) by (simp add: equals_mask_def eq_commute [of "to key"])
qed

lemma holder_filter_wf: "holder_wf h \<Longrightarrow> hlist h' = filter p (hlist h) \<Longrightarrow> holder_wf h'"
  by (simp add: holder_wf_def sorted_wrt_filter)

lemma holder_filter_view:
  assumes "holder_wf h" "hlist h' = filter p (hlist h)"
  shows "hview h' k = (case hview h k of None \<Rightarrow> None
     | Some d \<Rightarrow> if p (mkEntry k d) then Some d else None)"
proof -
  have wf: "sorted_wrt less_entry (hlist h)" "sorted_wrt less_entry (filter p (hlist h))"
    using assms(1) by (simp_all add: holder_wf_def sorted_wrt_filter)
  have eq: "hview h' k = Some d \<longleftrightarrow> hview h k = Some d \<and> p (mkEntry k d)" for d
    unfolding hview_def assms(2) eview_Some [OF wf(1)] eview_Some [OF wf(2)] by auto
  show ?thesis
  proof (cases "hview h' k")
    case None
    then show ?thesis using eq by (auto split: option.split)
  next
    case (Some d)
    then show ?thesis using eq [of d] by simp
  qed
qed

lemma holder_set_mask_list:
  assumes "holder_wf h" "to km OR to vm = MAX_INT"
  shows "hlist (holder_set_mask key km v vm h) = map (\<lambda>x. if equals_mask key x km
      then x\<lparr>desc := (desc x AND NOT (desc vm)) OR (desc v AND desc vm)\<rparr> else x) (hlist h)"
proof -
  have srt: "sorted_wrt less_entry (hlist h)" using assms(1) by (simp add: holder_wf_def)
  show ?thesis
    unfolding holder_set_mask_def Let_def using assms(2)
    apply simp
    apply (rule map_range_all)
    apply (drule search_range_complete [OF srt _ refl refl], assumption)
    apply (auto simp: equals_mask_def dest: mask_range)
    done
qed

lemma holder_set_list:
  assumes "holder_wf h" "to vm = MAX_INT"
  shows "hlist (holder_set key v vm h) = map (\<lambda>x. if to x = to key
      then x\<lparr>desc := (desc x AND NOT DESC_MASK) OR (desc v AND desc vm)\<rparr> else x) (hlist h)"
proof -
  have srt: "sorted_wrt less_entry (hlist h)" using assms(1) by (simp add: holder_wf_def)
  have "hlist (holder_set key v vm h) = map (\<lambda>x. if equals_to key x
      then x\<lparr>desc := (desc x AND NOT DESC_MASK) OR (desc v AND desc vm)\<rparr> else x) (hlist h)"
    unfolding holder_set_def Let_def using assms(2)
    apply simp
    apply (rule map_range_all)
    apply (drule search_range_complete [OF srt _ refl refl], assumption)
    apply (auto simp: equals_to_def)
    done
  then show ?thesis by (simp add: equals_to_def eq_commute [of "to key"])
qed

lemma holder_map_wf:
  assumes "holder_wf h" "hlist h' = map f (hlist h)" "\<And>x. to (f x) = to x"
  shows "holder_wf h'"
  using assms(1) unfolding holder_wf_def assms(2) sorted_wrt_map
  by (rule sorted_wrt_mono_rel [rotated]) (simp add: less_entry_def assms(3))

lemma holder_map_view:
  assumes "hlist h' = map f (hlist h)" "\<And>x. to (f x) = to x"
  shows "hview h' k = map_option (\<lambda>d. desc (f (mkEntry k d))) (hview h k)"
proof -
  have "map_of (map (\<lambda>e. (to e, desc e)) (map f xs)) k =
     map_option (\<lambda>d. desc (f (mkEntry k d))) (map_of (map (\<lambda>e. (to e, desc e)) xs) k)" for xs
    by (induction xs) (auto simp: assms(2))
  then show ?thesis by (simp add: hview_def eview_def assms(1))
qed

lemma holder_set_mask_wf: "holder_wf h \<Longrightarrow> holder_wf (holder_set_mask key km v vm h)"
proof (cases "to km OR to vm = MAX_INT")
  case True
  then show "holder_wf h \<Longrightarrow> ?thesis" by (rule_tac holder_map_wf [OF _ holder_set_mask_list]) auto
qed (simp add: holder_set_mask_def)

lemma holder_set_wf: "holder_wf h \<Longrightarrow> holder_wf (holder_set key v vm h)"
proof (cases "to vm = MAX_INT")
  case True
  then show "holder_wf h \<Longrightarrow> ?thesis" by (rule_tac holder_map_wf [OF _ holder_set_list]) auto
qed (simp add: holder_set_def)

lemma holder_remove_wf: "holder_wf h \<Longrightarrow> holder_wf (holder_remove key h)"
  by (rule holder_filter_wf [OF _ holder_remove_list])

lemma holder_remove_mask_wf:
  "holder_wf h \<Longrightarrow> to msk = MAX_INT \<Longrightarrow> holder_wf (holder_remove_mask key msk h)"
  by (rule holder_filter_wf [OF _ holder_remove_mask_list])

lemma holder_set_mask_view:
  assumes "holder_wf h" "to km = MAX_INT"
  shows "hview (holder_set_mask key km v vm h) k = (case hview h k of None \<Rightarrow> None
     | Some d \<Rightarrow> Some (if k = to key \<and> (desc key AND desc km) = (d AND desc km)
                 then (d AND NOT (desc vm)) OR (desc v AND desc vm) else d))"
  using holder_map_view [OF holder_set_mask_list [OF assms(1), of km vm key v], of k] assms(2)
  by (auto simp: equals_mask_def split: option.split)

lemma holder_set_view:
  assumes "holder_wf h" "to vm = MAX_INT"
  shows "hview (holder_set key v vm h) k = (case hview h k of None \<Rightarrow> None
     | Some d \<Rightarrow> Some (if k = to key then (d AND NOT DESC_MASK) OR (desc v AND desc vm) else d))"
  using holder_map_view [OF holder_set_list [OF assms, of key v], of k]
  by (auto split: option.split)

lemma holder_remove_mask_view:
  assumes "holder_wf h" "to msk = MAX_INT"
  shows "hview (holder_remove_mask key msk h) k = (case hview h k of None \<Rightarrow> None
     | Some d \<Rightarrow> if k = to key \<and> (desc key AND desc msk) = (d AND desc msk) then None else Some d)"
  using holder_filter_view [OF assms(1) holder_remove_mask_list [OF assms, of key], of k]
  by (auto split: option.split)

lemma holder_remove_view:
  "holder_wf h \<Longrightarrow> hview (holder_remove key h) k = (if k = to key then None else hview h k)"
  using holder_filter_view [OF _ holder_remove_list, of h key k]
  by (auto split: option.split)

lemma find_eview:
  "find (\<lambda>x. to x = k) xs = map_option (mkEntry k) (eview xs k)"
  by (induction xs) (auto simp: eview_def mkEntry_eq_iff)

lemma holder_get_view:
  "holder_get key h = (case hview h (to key) of None \<Rightarrow> [] | Some d \<Rightarrow> [mkEntry (to key) d])"
  using find_eview [of "to key" "hlist h"]
  by (auto simp: holder_get_def equal_entry_def hview_def split: option.split)

lemma holder_get_mask_list:
  assumes "holder_wf h"
  shows "holder_get_mask key msk h = [x \<leftarrow> hlist h. equals_mask key x msk \<and> desc x \<noteq> MAX_INT]"
proof -
  let ?xs = "hlist h"
  let ?lo = "mkEntry (to key AND to msk) (desc key AND desc msk)"
  let ?hi = "mkEntry (to key OR NOT (to msk)) (desc key OR NOT (desc msk))"
  let ?b = "lower_bound less_entry ?xs 0 (length ?xs) ?lo"
  let ?e = "lower_bound less_equal_entry ?xs ?b (length ?xs) ?hi"
  have srt: "sorted_wrt less_entry ?xs" using assms by (simp add: holder_wf_def)
  have "[x \<leftarrow> slice ?b ?e ?xs. equals_mask key x msk \<and> desc x \<noteq> MAX_INT] =
     [x \<leftarrow> ?xs. equals_mask key x msk \<and> desc x \<noteq> MAX_INT]"
  proof (rule filter_slice_all)
    fix i assume "i < length ?xs" "\<not> (?b \<le> i \<and> i < ?e)"
    from search_range_complete [OF srt this(1) refl refl this(2)]
    show "\<not> (equals_mask key (?xs ! i) msk \<and> desc (?xs ! i) \<noteq> MAX_INT)"
      by (auto simp: equals_mask_def dest: mask_range)
  qed (rule search_range_order [OF refl])
  moreover have "?b = length ?xs \<Longrightarrow> slice ?b ?e ?xs = []" by (simp add: slice_def)
  ultimately show ?thesis by (auto simp: holder_get_mask_def Let_def)
qed

lemma build_fold: "foldl (\<lambda>b x. if q x then builder_build x b else b) r xs = r @ map to (filter q xs)"
  by (induction xs arbitrary: r) (auto simp: builder_build_def)

lemma holder_get_build_list:
  assumes "holder_wf h"
  shows "holder_get_build key msk r h = r @ map to (holder_get_mask key msk h)"
  by (simp add: holder_get_build_def holder_get_mask_def Let_def build_fold)

lemma holder_get_mask_set:
  assumes "holder_wf h"
  shows "x \<in> set (holder_get_mask key msk h) \<longleftrightarrow>
    hview h (to x) = Some (desc x) \<and> equals_mask key x msk \<and> desc x \<noteq> MAX_INT"
  using assms by (simp add: holder_get_mask_list hview_def holder_wf_def eview_Some)

section \<open>What the relation server relies on\<close>

text \<open>
  The contract of a store of entries, as the relation server uses it: \<open>add\<close> writes an entry,
  \<open>rem\<close> and \<open>upd\<close> act on the entry of one user under a mask over the flags (their id mask is
  always \<open>MAX_INT\<close>), \<open>look\<close> returns the entry of one user.
\<close>

locale entry_store =
  fixes wf :: "'s \<Rightarrow> bool"
    and view :: "'s \<Rightarrow> u32 \<Rightarrow> u32 option"
    and add :: "Entry \<Rightarrow> 's \<Rightarrow> 's"
    and rem :: "Entry \<Rightarrow> Entry \<Rightarrow> 's \<Rightarrow> 's"
    and upd :: "Entry \<Rightarrow> Entry \<Rightarrow> Entry \<Rightarrow> Entry \<Rightarrow> 's \<Rightarrow> 's"
    and look :: "Entry \<Rightarrow> 's \<Rightarrow> Entry list"
  assumes wf_add: "wf s \<Longrightarrow> wf (add e s)"
    and wf_rem: "wf s \<Longrightarrow> to m = MAX_INT \<Longrightarrow> wf (rem e m s)"
    and wf_upd: "wf s \<Longrightarrow> wf (upd k km v vm s)"
    and view_add: "wf s \<Longrightarrow> view (add e s) = (view s)(to e \<mapsto> desc e)"
    and view_rem: "wf s \<Longrightarrow> to m = MAX_INT \<Longrightarrow> view (rem e m s) u =
      (case view s u of None \<Rightarrow> None
       | Some d \<Rightarrow> if u = to e \<and> (desc e AND desc m) = (d AND desc m) then None else Some d)"
    and view_upd: "wf s \<Longrightarrow> to km = MAX_INT \<Longrightarrow> view (upd k km v vm s) u =
      (case view s u of None \<Rightarrow> None
       | Some d \<Rightarrow> Some (if u = to k \<and> (desc k AND desc km) = (d AND desc km)
                   then (d AND NOT (desc vm)) OR (desc v AND desc vm) else d))"
    and look_view: "look e s = (case view s (to e) of None \<Rightarrow> [] | Some d \<Rightarrow> [mkEntry (to e) d])"
begin

lemma look_at_most_one: "length (look e s) \<le> 1"
  by (simp add: look_view split: option.split)

lemma look_empty: "look e s = [] \<longleftrightarrow> view s (to e) = None"
  by (simp add: look_view split: option.split)

lemma rem_hit:
  assumes "wf s" "view s t = Some d" "(k AND m) = (d AND m)"
  shows "view (rem (mkEntry t k) (mkEntry MAX_INT m) s) = (view s)(t := None)"
  by (rule ext) (use assms in \<open>auto simp: view_rem split: option.split\<close>)

lemma upd_hit:
  assumes "wf s" "view s t = Some d" "(k AND km) = (d AND km)" "to v' = MAX_INT"
  shows "view (upd (mkEntry t k) (mkEntry (to v') km) v vm s) =
    (view s)(t \<mapsto> (d AND NOT (desc vm)) OR (desc v AND desc vm))"
  by (rule ext) (use assms in \<open>auto simp: view_upd split: option.split\<close>)

text \<open>Withdrawing what was just added leaves no entry, whatever was there before.\<close>

lemma add_rem:
  "wf s \<Longrightarrow> view (rem (mkEntry t d) (mkEntry MAX_INT m) (add (mkEntry t d) s)) = (view s)(t := None)"
  using rem_hit [of "add (mkEntry t d) s" t d d m] by (simp add: wf_add view_add)

lemma other_unchanged:
  assumes "wf s" "u \<noteq> t"
  shows "view (add (mkEntry t d) s) u = view s u"
    "view (rem (mkEntry t k) (mkEntry MAX_INT m) s) u = view s u"
    "view (upd (mkEntry t k) (mkEntry MAX_INT m) v vm s) u = view s u"
  using assms by (simp_all add: view_add view_rem view_upd split: option.split)

end

interpretation holder: entry_store
  holder_wf hview holder_add holder_remove_mask holder_set_mask holder_get
  by unfold_locales
     (simp_all only: holder_add_wf holder_remove_mask_wf holder_set_mask_wf holder_add_view
       holder_remove_mask_view holder_set_mask_view holder_get_view)


section \<open>Properties\<close>

text \<open>C21. On a holder sorted by user id every operation keeps the order and acts on the map from user id
  to flags as its name says: \<open>add\<close> overwrites, the plain \<open>remove\<close> and \<open>set\<close> touch the
  user's entry, the masked ones (with the id mask \<open>MAX_INT\<close>) only when the flags under the mask
  match.\<close>

theorem holder_operations:
  assumes "holder_wf h"
  shows "holder_wf (holder_add e h) \<and> hview (holder_add e h) = (hview h)(to e \<mapsto> desc e) \<and>
    holder_wf (holder_remove e h) \<and> hview (holder_remove e h) = (hview h)(to e := None) \<and>
    holder_wf (holder_set_mask e m v vm h) \<and> holder_wf (holder_set e v vm h) \<and>
    (to m = MAX_INT \<longrightarrow> holder_wf (holder_remove_mask e m h) \<and>
      hview (holder_remove_mask e m h) k =
        (if k = to e \<and> map_option (\<lambda>d. d AND desc m) (hview h k) = Some (desc e AND desc m)
         then None else hview h k) \<and>
      hview (holder_set_mask e m v vm h) k =
        (if k = to e \<and> map_option (\<lambda>d. d AND desc m) (hview h k) = Some (desc e AND desc m)
         then map_option (\<lambda>d. (d AND NOT (desc vm)) OR (desc v AND desc vm)) (hview h k)
         else hview h k)) \<and>
    (to vm = MAX_INT \<longrightarrow> hview (holder_set e v vm h) k =
      (if k = to e then map_option (\<lambda>d. (d AND NOT DESC_MASK) OR (desc v AND desc vm)) (hview h k)
       else hview h k))"
proof -
  have rm: "hview (holder_remove e h) = (hview h)(to e := None)"
    by (rule ext) (simp add: holder_remove_view [OF assms])
  show ?thesis
    using rm holder_add_wf [OF assms] holder_add_view [OF assms] holder_remove_wf [OF assms]
      holder_set_mask_wf [OF assms] holder_set_wf [OF assms] holder_remove_mask_wf [OF assms]
    by (auto simp: holder_remove_mask_view [OF assms] holder_set_mask_view [OF assms]
        holder_set_view [OF assms] split: option.split)
qed

definition sample_holder :: EntryListHolder where
  "sample_holder = mkHolder 7 [mkEntry 1 DESC_FRIEND, mkEntry 3 DESC_APPLIED, mkEntry 9 DESC_BLOCK]"

lemma sample_holder_wf: "holder_wf sample_holder"
  by (simp add: holder_wf_def sample_holder_def less_entry_def)

theorem holder_operations_witness:
  "hview (holder_remove_mask (mkEntry 3 DESC_APPLIED) (mkEntry MAX_INT DESC_MASK_APPLY) sample_holder) 3 = None"
  using holder_operations [OF sample_holder_wf, of "mkEntry 3 DESC_APPLIED" "mkEntry MAX_INT DESC_MASK_APPLY" _ _ 3]
  by (simp add: sample_holder_def hview_def)

text \<open>On a holder sorted by user id the masked query returns exactly the entries that match under
  the mask, in ascending order of the user ids, the query with a builder appends the ids of those, and
  the plain query returns the entry of the user or nothing.\<close>

lemma holder_queries:
  assumes "holder_wf h"
  shows "set (holder_get_mask e m h) =
      {x. hview h (to x) = Some (desc x) \<and> equals_mask e x m \<and> desc x \<noteq> MAX_INT} \<and>
    sorted_wrt less_entry (holder_get_mask e m h) \<and>
    holder_get_build e m r h = r @ map to (holder_get_mask e m h) \<and>
    holder_get e h = (case hview h (to e) of None \<Rightarrow> [] | Some d \<Rightarrow> [mkEntry (to e) d])"
proof -
  have "sorted_wrt less_entry (holder_get_mask e m h)"
    using assms by (simp add: holder_get_mask_list holder_wf_def sorted_wrt_filter)
  then show ?thesis
    using holder_get_mask_set [OF assms, of _ e m] holder_get_build_list [OF assms] holder_get_view
    by blast
qed

lemma holder_queries_witness:
  "holder_get_build (mkEntry 0 DESC_APPLIED) (mkEntry 0 DESC_MASK_APPLY) [] sample_holder =
     map to (holder_get_mask (mkEntry 0 DESC_APPLIED) (mkEntry 0 DESC_MASK_APPLY) sample_holder)"
  using holder_queries [OF sample_holder_wf] by (metis append_Nil)

text \<open>The flags and the descriptions translate into each other without loss, except that \<open>Self\<close> has
  no flag, taking the opposite description twice is the identity, and it exchanges the flags of an
  application sent and received and of blocking and being blocked.\<close>

lemma desc_translation:
  "translateDesc (translateInt d) = (if d = Self then NoPath else d) \<and>
   oppositeDesc (oppositeDesc d) = (if d = Self then NoPath else d) \<and>
   (translateInt (oppositeDesc d) AND DESC_BLOCK = DESC_BLOCK) =
     (translateInt d AND DESC_BLOCKED = DESC_BLOCKED) \<and>
   (translateInt (oppositeDesc d) AND DESC_APPLY = DESC_APPLY) =
     (translateInt d AND DESC_APPLIED = DESC_APPLIED)"
  by (cases d) (simp_all add: translateDesc_def desc_consts)

end
