(* ===== verification/BuddyDb.thy ===== *)
theory BuddyDb
  imports BuddyEntry
begin

text \<open>
  The relation database behind the relation server and the construction of a user's holder
  from it: \<^verbatim>\<open>BuddyDatabaseHelper\<close>, \<^verbatim>\<open>EntryListHolderFactory\<close> and
  \<^verbatim>\<open>DupCleanupTask\<close> of \<^verbatim>\<open>BuddyCore/src/BuddyCoreI.cpp\<close>. A table is the list of
  its rows, reduced to the pair of user ids (the sharding of a table by \<open>id % 100\<close> and the
  columns with time and text are not modelled). The table of friends is the part of its rows with \<open>disc = 0\<close>: the
  queries read these only, and the program writes no other value. \<open>db_desc\<close> is the abstract reading of the
  tables: the flags user \<open>a\<close> has for user \<open>b\<close>; \<open>create\<close> builds exactly that.
\<close>

section \<open>Tables\<close>

record buddy_db =
  relation_block :: "(u32 \<times> u32) list"  \<comment> \<open>(host, guest)\<close>
  relation_friend :: "(u32 \<times> u32) list"  \<comment> \<open>(host, guest)\<close>
  apply_accepter :: "(u32 \<times> u32) list"  \<comment> \<open>(applicant, accepter), sharded by accepter\<close>
  apply_applicant :: "(u32 \<times> u32) list"  \<comment> \<open>(applicant, accepter), sharded by applicant\<close>

text \<open>\<open>REPLACE INTO\<close>, \<open>INSERT INTO\<close>, \<open>DELETE ... WHERE\<close> and \<open>DELETE ... LIMIT 1\<close>.\<close>

definition sql_replace :: "'r \<Rightarrow> 'r list \<Rightarrow> 'r list" where
  "sql_replace r t = [x \<leftarrow> t. x \<noteq> r] @ [r]"

definition sql_insert :: "'r \<Rightarrow> 'r list \<Rightarrow> 'r list" where
  "sql_insert r t = t @ [r]"

definition sql_delete :: "'r \<Rightarrow> 'r list \<Rightarrow> 'r list" where
  "sql_delete r t = [x \<leftarrow> t. x \<noteq> r]"

definition sql_delete_limit1 :: "'r \<Rightarrow> 'r list \<Rightarrow> 'r list" where
  "sql_delete_limit1 r t = remove1 r t"

definition insertBuddyApplyN :: "u32 \<Rightarrow> u32 \<Rightarrow> buddy_db \<Rightarrow> buddy_db" where
  "insertBuddyApplyN applicant accepter d =
     d\<lparr>apply_accepter := sql_replace (applicant, accepter) (apply_accepter d),
       apply_applicant := sql_replace (applicant, accepter) (apply_applicant d)\<rparr>"

definition deleteBuddyApplyN :: "u32 \<Rightarrow> u32 \<Rightarrow> buddy_db \<Rightarrow> buddy_db" where
  "deleteBuddyApplyN applicant accepter d =
     d\<lparr>apply_accepter := sql_delete (applicant, accepter) (apply_accepter d),
       apply_applicant := sql_delete (applicant, accepter) (apply_applicant d)\<rparr>"

definition insertRelationBi :: "u32 \<Rightarrow> u32 \<Rightarrow> buddy_db \<Rightarrow> buddy_db" where
  "insertRelationBi f t d =
     d\<lparr>relation_friend := sql_replace (t, f) (sql_replace (f, t) (relation_friend d))\<rparr>"

definition deleteRelationBi :: "u32 \<Rightarrow> u32 \<Rightarrow> buddy_db \<Rightarrow> buddy_db" where
  "deleteRelationBi f t d =
     d\<lparr>relation_friend := sql_delete (t, f) (sql_delete (f, t) (relation_friend d))\<rparr>"

definition insertBlock :: "u32 \<Rightarrow> u32 \<Rightarrow> buddy_db \<Rightarrow> buddy_db" where
  "insertBlock f t d = d\<lparr>relation_block := sql_insert (f, t) (relation_block d)\<rparr>"

definition deleteBlock :: "u32 \<Rightarrow> u32 \<Rightarrow> buddy_db \<Rightarrow> buddy_db" where
  "deleteBlock f t d = d\<lparr>relation_block := sql_delete (f, t) (relation_block d)\<rparr>"

section \<open>Building a holder from the tables\<close>

text \<open>\<open>std::set::insert\<close> on the set ordered by \<open>less_entry\<close>: the flag says whether it was new.\<close>

fun set_insert :: "Entry \<Rightarrow> Entry list \<Rightarrow> Entry list \<times> bool" where
  "set_insert e [] = ([e], True)"
| "set_insert e (x # xs) =
     (if less_entry e x then (e # x # xs, True)
      else if less_entry x e then (let (ys, b) = set_insert e xs in (x # ys, b))
      else (x # xs, False))"

text \<open>\<open>BuddyCoreResultHandler::handle\<close> for one row, and a query whose rows are handled in turn.\<close>

definition handle_row :: "u32 \<Rightarrow> Entry list \<times> Entry list \<Rightarrow> u32 \<Rightarrow> Entry list \<times> Entry list" where
  "handle_row dsc st t =
     (case set_insert (mkEntry t dsc) (fst st) of (b, new) \<Rightarrow>
        if new then (b, snd st) else (fst st, snd st @ [mkEntry t dsc]))"

definition query :: "u32 \<Rightarrow> u32 list \<Rightarrow> Entry list \<times> Entry list \<Rightarrow> Entry list \<times> Entry list" where
  "query dsc rows st = foldl (handle_row dsc) st rows"

definition set_erase :: "Entry \<Rightarrow> Entry list \<Rightarrow> Entry list" where
  "set_erase e xs = [x \<leftarrow> xs. to x \<noteq> to e]"

text \<open>
  \<open>deduplicate\<close> walks the duplicates: a block in one direction that met a block in the other
  is merged into the building set and leaves the duplicates; everything else stays.
\<close>

fun deduplicate :: "Entry list \<Rightarrow> Entry list \<Rightarrow> Entry list \<times> Entry list" where
  "deduplicate building [] = (building, [])"
| "deduplicate building (dup # ds) =
     (case find (\<lambda>x. to x = to dup) building of
        None \<Rightarrow> (let (b, r) = deduplicate building ds in (b, dup # r))
      | Some x \<Rightarrow>
          if desc dup = DESC_BLOCKED \<and> desc x = DESC_BLOCK
             \<or> desc dup = DESC_BLOCK \<and> desc x = DESC_BLOCKED
          then deduplicate
                 (fst (set_insert (mkEntry (to dup) (DESC_BLOCK OR DESC_BLOCKED)) (set_erase x building))) ds
          else (let (b, r) = deduplicate building ds in (b, dup # r)))"

definition create_building :: "u32 \<Rightarrow> buddy_db \<Rightarrow> Entry list \<times> Entry list" where
  "create_building i d =
     query DESC_APPLY [acc. (app, acc) \<leftarrow> apply_applicant d, app = i]
    (query DESC_APPLIED [app. (app, acc) \<leftarrow> apply_accepter d, acc = i]
    (query DESC_FRIEND [g. (h, g) \<leftarrow> relation_friend d, h = i]
    (query DESC_BLOCKED [h. (h, g) \<leftarrow> relation_block d, g = i]
    (query DESC_BLOCK [g. (h, g) \<leftarrow> relation_block d, h = i] ([], [])))))"

text \<open>\<open>EntryListHolderFactory::create\<close>: the holder, and the duplicates left for the cleanup task.\<close>

definition create :: "u32 \<Rightarrow> buddy_db \<Rightarrow> EntryListHolder \<times> Entry list" where
  "create i d =
     (let (building, duplicates) = create_building i d;
          (building', duplicates') = deduplicate building duplicates
      in (mkHolder i (sort_key to building'), duplicates'))"

text \<open>\<open>DupCleanupTask\<close>: removes the rows behind the duplicates, one row each.\<close>

definition cleanup_entry :: "u32 \<Rightarrow> Entry \<Rightarrow> buddy_db \<Rightarrow> buddy_db" where
  "cleanup_entry i e d =
     (if desc e = DESC_APPLIED then
        d\<lparr>apply_accepter := sql_delete_limit1 (to e, i) (apply_accepter d),
          apply_applicant := sql_delete_limit1 (to e, i) (apply_applicant d)\<rparr>
      else if desc e = DESC_APPLY then
        d\<lparr>apply_accepter := sql_delete_limit1 (i, to e) (apply_accepter d),
          apply_applicant := sql_delete_limit1 (i, to e) (apply_applicant d)\<rparr>
      else if desc e = DESC_FRIEND then
        d\<lparr>relation_friend := sql_delete_limit1 (i, to e) (relation_friend d)\<rparr>
      else d)"

definition cleanup :: "u32 \<Rightarrow> Entry list \<Rightarrow> buddy_db \<Rightarrow> buddy_db" where
  "cleanup i dups d = foldl (\<lambda>x e. cleanup_entry i e x) d dups"

section \<open>The abstract reading of the tables\<close>

definition db_desc :: "buddy_db \<Rightarrow> u32 \<Rightarrow> u32 \<Rightarrow> u32 option" where
  "db_desc d a b =
     (if (a, b) \<in> set (relation_block d) \<and> (b, a) \<in> set (relation_block d)
        then Some (DESC_BLOCK OR DESC_BLOCKED)
      else if (a, b) \<in> set (relation_block d) then Some DESC_BLOCK
      else if (b, a) \<in> set (relation_block d) then Some DESC_BLOCKED
      else if (a, b) \<in> set (relation_friend d) then Some DESC_FRIEND
      else if (b, a) \<in> set (apply_accepter d) then Some DESC_APPLIED
      else if (a, b) \<in> set (apply_applicant d) then Some DESC_APPLY
      else None)"

definition db_rel :: "buddy_db \<Rightarrow> u32 \<Rightarrow> u32 \<Rightarrow> BuddyDesc" where
  "db_rel d a b = (case db_desc d a b of None \<Rightarrow> NoPath | Some x \<Rightarrow> translateDesc x)"

lemma sql_set [simp]:
  "set (sql_replace r t) = insert r (set t)" "set (sql_insert r t) = insert r (set t)"
  "set (sql_delete r t) = set t - {r}"
  by (auto simp: sql_replace_def sql_insert_def sql_delete_def)

text \<open>The building set is strictly sorted; a row is new exactly when its id is not in it.\<close>

lemma set_insert_new: "sorted_wrt less_entry xs \<Longrightarrow> snd (set_insert e xs) \<longleftrightarrow> eview xs (to e) = None"
proof (induction e xs rule: set_insert.induct)
  case (2 e x xs)
  then show ?case by (auto simp: eview_None less_entry_def split: prod.splits)
qed simp

lemma set_insert_view:
  assumes "sorted_wrt less_entry xs"
  shows "eview (fst (set_insert e xs)) k =
     (if k = to e \<and> eview xs (to e) = None then Some (desc e) else eview xs k)"
  using assms
proof (induction e xs rule: set_insert.induct)
  case (2 e x xs)
  have "to e < to x \<Longrightarrow> eview xs (to e) = None"
    using "2.prems" by (auto simp: eview_None less_entry_def)
  then show ?case using 2 by (auto simp: less_entry_def split: prod.splits)
qed simp

lemma set_insert_set: "set (fst (set_insert e xs)) \<subseteq> insert e (set xs)"
  by (induction e xs rule: set_insert.induct) (auto split: prod.splits)

lemma set_insert_sorted: "sorted_wrt less_entry xs \<Longrightarrow> sorted_wrt less_entry (fst (set_insert e xs))"
proof (induction e xs rule: set_insert.induct)
  case (2 e x xs)
  then show ?case
    using set_insert_set [of e xs] by (auto simp: less_entry_def split: prod.splits)
qed simp

text \<open>One query: ids seen before keep their flags, their rows become duplicates.\<close>

definition query_view :: "u32 \<Rightarrow> u32 list \<Rightarrow> (u32 \<rightharpoonup> u32) \<Rightarrow> (u32 \<rightharpoonup> u32)" where
  "query_view dsc rows m = (\<lambda>k. case m k of Some x \<Rightarrow> Some x
     | None \<Rightarrow> if k \<in> set rows then Some dsc else None)"

lemma handle_row_cases:
  assumes "sorted_wrt less_entry (fst st)"
  shows "sorted_wrt less_entry (fst (handle_row dsc st t))"
    and "eview (fst (handle_row dsc st t)) = query_view dsc [t] (eview (fst st))"
    and "snd (handle_row dsc st t) =
           (if eview (fst st) t = None then snd st else snd st @ [mkEntry t dsc])"
proof -
  obtain b new where ins: "set_insert (mkEntry t dsc) (fst st) = (b, new)" by fastforce
  note n = set_insert_new [OF assms, of "mkEntry t dsc"]
    and v = set_insert_view [OF assms, of "mkEntry t dsc"]
    and o = set_insert_sorted [OF assms, of "mkEntry t dsc"]
  show "sorted_wrt less_entry (fst (handle_row dsc st t))"
    using o assms by (simp add: handle_row_def ins)
  show "eview (fst (handle_row dsc st t)) = query_view dsc [t] (eview (fst st))"
    using n v by (auto simp: handle_row_def ins query_view_def fun_eq_iff split: option.split)
  show "snd (handle_row dsc st t) =
      (if eview (fst st) t = None then snd st else snd st @ [mkEntry t dsc])"
    using n by (auto simp: handle_row_def ins)
qed

lemma query_Cons: "query dsc (t # ts) st = query dsc ts (handle_row dsc st t)"
  by (simp add: query_def)

lemma query_sorted:
  "sorted_wrt less_entry (fst st) \<Longrightarrow> sorted_wrt less_entry (fst (query dsc rows st))"
  by (induction rows arbitrary: st) (simp_all add: query_Cons handle_row_cases, simp add: query_def)

lemma query_eview:
  "sorted_wrt less_entry (fst st) \<Longrightarrow>
   eview (fst (query dsc rows st)) = query_view dsc rows (eview (fst st))"
proof (induction rows arbitrary: st)
  case Nil
  then show ?case by (auto simp: query_def query_view_def fun_eq_iff split: option.split)
next
  case (Cons t ts)
  then show ?case
    by (auto simp: query_Cons handle_row_cases query_view_def fun_eq_iff split: option.split)
qed

lemma query_dups_mono: "x \<in> set (snd st) \<Longrightarrow> x \<in> set (snd (query dsc rows st))"
  by (induction rows arbitrary: st)
     (auto simp: query_def handle_row_def split: prod.splits)

lemma query_dups_from:
  "x \<in> set (snd (query dsc rows st)) \<Longrightarrow>
   x \<in> set (snd st) \<or> desc x = dsc \<and> to x \<in> set rows"
proof (induction rows arbitrary: st)
  case (Cons t ts)
  from Cons.IH [of "handle_row dsc st t"] Cons.prems show ?case
    by (auto simp: query_Cons handle_row_def split: prod.splits if_splits)
qed (simp add: query_def)

lemma query_dups_new:
  "sorted_wrt less_entry (fst st) \<Longrightarrow> eview (fst st) k \<noteq> None \<Longrightarrow> k \<in> set rows \<Longrightarrow>
   mkEntry k dsc \<in> set (snd (query dsc rows st))"
proof (induction rows arbitrary: st)
  case (Cons t ts)
  have "eview (fst (handle_row dsc st t)) k \<noteq> None"
    using Cons.prems by (auto simp: handle_row_cases query_view_def)
  with Cons show ?case
    by (cases "k = t") (auto simp: query_Cons handle_row_cases intro: query_dups_mono)
qed simp

lemma query_dups_exact:
  "sorted_wrt less_entry (fst st) \<Longrightarrow> distinct rows \<Longrightarrow>
   snd (query dsc rows st) =
     snd st @ map (\<lambda>k. mkEntry k dsc) [k \<leftarrow> rows. eview (fst st) k \<noteq> None]"
proof (induction rows arbitrary: st)
  case (Cons t ts)
  have "[k \<leftarrow> ts. eview (fst (handle_row dsc st t)) k \<noteq> None] = [k \<leftarrow> ts. eview (fst st) k \<noteq> None]"
    by (rule filter_cong) (use Cons.prems in \<open>auto simp: handle_row_cases query_view_def split: option.split\<close>)
  with Cons show ?case by (simp add: query_Cons handle_row_cases)
qed (simp add: query_def)

section \<open>Deduplication\<close>

definition merges :: "u32 \<Rightarrow> u32 \<Rightarrow> bool" where
  "merges a b \<longleftrightarrow> a = DESC_BLOCKED \<and> b = DESC_BLOCK \<or> a = DESC_BLOCK \<and> b = DESC_BLOCKED"

lemma merges_both: "\<not> merges a (DESC_BLOCK OR DESC_BLOCKED)"
  by (simp add: merges_def desc_consts)

lemma merge_step:
  assumes "sorted_wrt less_entry b"
  shows "sorted_wrt less_entry (fst (set_insert (mkEntry (to e) m) (set_erase e b)))"
    and "eview (fst (set_insert (mkEntry (to e) m) (set_erase e b))) = (eview b)(to e \<mapsto> m)"
proof -
  have srt: "sorted_wrt less_entry (set_erase e b)"
    using assms(1) by (simp add: set_erase_def sorted_wrt_filter)
  then show "sorted_wrt less_entry (fst (set_insert (mkEntry (to e) m) (set_erase e b)))"
    by (simp add: set_insert_sorted)
  have "eview (set_erase e b) = (eview b)(to e := None)"
    by (induction b) (auto simp: set_erase_def fun_eq_iff)
  then show "eview (fst (set_insert (mkEntry (to e) m) (set_erase e b))) = (eview b)(to e \<mapsto> m)"
    using set_insert_view [OF srt, of "mkEntry (to e) m"] by (auto simp: fun_eq_iff)
qed

lemma deduplicate_Cons:
  "deduplicate b (dup # ds) =
     (if \<exists>x. eview b (to dup) = Some x \<and> merges (desc dup) x
      then deduplicate (fst (set_insert (mkEntry (to dup) (DESC_BLOCK OR DESC_BLOCKED))
             (set_erase dup b))) ds
      else (fst (deduplicate b ds), dup # snd (deduplicate b ds)))"
proof -
  have "set_erase (mkEntry (to dup) x) b = set_erase dup b" for x by (simp add: set_erase_def)
  then show ?thesis
    by (simp add: find_eview merges_def split: option.split) (auto split: prod.split)
qed

declare deduplicate.simps(2) [simp del]

lemma deduplicate_sorted:
  "sorted_wrt less_entry b \<Longrightarrow> sorted_wrt less_entry (fst (deduplicate b ds))"
  by (induction ds arbitrary: b) (simp_all add: deduplicate_Cons merge_step)

lemma deduplicate_eview:
  "sorted_wrt less_entry b \<Longrightarrow> eview (fst (deduplicate b ds)) k =
      (case eview b k of None \<Rightarrow> None
       | Some x \<Rightarrow> Some (if \<exists>e \<in> set ds. to e = k \<and> merges (desc e) x
                     then DESC_BLOCK OR DESC_BLOCKED else x))"
proof (induction ds arbitrary: b)
  case Nil
  then show ?case by (simp split: option.split)
next
  case (Cons dup ds)
  show ?case
  proof (cases "\<exists>x. eview b (to dup) = Some x \<and> merges (desc dup) x")
    case True
    then show ?thesis
      using Cons.IH [OF merge_step(1) [OF Cons.prems]] Cons.prems
      by (auto simp: deduplicate_Cons merge_step merges_both split: option.split)
  next
    case False
    then show ?thesis
      using Cons.IH [OF Cons.prems] by (auto simp: deduplicate_Cons split: option.split)
  qed
qed

lemma deduplicate_dups: "set (snd (deduplicate b ds)) \<subseteq> set ds"
  by (induction ds arbitrary: b) (auto simp: deduplicate_Cons)

section \<open>The holder built from the tables\<close>

lemma rows_set [simp]:
  "set [g. (h, g) \<leftarrow> t, h = i] = {g. (i, g) \<in> set t}"
  "set [h. (h, g) \<leftarrow> t, g = i] = {h. (h, i) \<in> set t}"
  by auto

lemma create_building_sorted: "sorted_wrt less_entry (fst (create_building i d))"
  unfolding create_building_def by (intro query_sorted) simp

lemma create_building_eview:
  "eview (fst (create_building i d)) =
     query_view DESC_APPLY [acc. (app, acc) \<leftarrow> apply_applicant d, app = i]
    (query_view DESC_APPLIED [app. (app, acc) \<leftarrow> apply_accepter d, acc = i]
    (query_view DESC_FRIEND [g. (h, g) \<leftarrow> relation_friend d, h = i]
    (query_view DESC_BLOCKED [h. (h, g) \<leftarrow> relation_block d, g = i]
    (query_view DESC_BLOCK [g. (h, g) \<leftarrow> relation_block d, h = i] Map.empty))))"
  unfolding create_building_def by (simp only: query_eview query_sorted fst_conv sorted_wrt.simps eview_Nil)

lemma create_dups_blocked:
  assumes "(i, k) \<in> set (relation_block d)" "(k, i) \<in> set (relation_block d)"
  shows "mkEntry k DESC_BLOCKED \<in> set (snd (create_building i d))"
proof -
  let ?s1 = "query DESC_BLOCK [g. (h, g) \<leftarrow> relation_block d, h = i] ([], [])"
  have srt: "sorted_wrt less_entry (fst ?s1)" by (intro query_sorted) simp
  have "eview (fst ?s1) k \<noteq> None"
    using assms(1) by (simp add: query_eview query_view_def)
  then have "mkEntry k DESC_BLOCKED \<in> set (snd (query DESC_BLOCKED [h. (h, g) \<leftarrow> relation_block d, g = i] ?s1))"
    using assms(2) by (intro query_dups_new [OF srt]) auto
  then show ?thesis
    unfolding create_building_def
    by (rule query_dups_mono [OF query_dups_mono [OF query_dups_mono]])
qed

lemma create_dups_block_from:
  assumes "e \<in> set (snd (create_building i d))"
  shows "desc e = DESC_BLOCKED \<Longrightarrow> (to e, i) \<in> set (relation_block d)"
    and "desc e = DESC_BLOCK \<Longrightarrow> (i, to e) \<in> set (relation_block d)"
  using assms unfolding create_building_def
  by (auto dest!: query_dups_from simp: desc_consts)

lemma create_eview: "eview (fst (deduplicate (fst (create_building i d)) (snd (create_building i d)))) b = db_desc d i b"
proof -
  note ds = create_dups_block_from [of _ i d]
  have mrg: "(\<exists>e \<in> set (snd (create_building i d)). to e = b \<and> merges (desc e) x) \<longleftrightarrow>
      (i, b) \<in> set (relation_block d) \<and> (b, i) \<in> set (relation_block d)"
    if x: "eview (fst (create_building i d)) b = Some x" and bl: "x = DESC_BLOCK \<or> x = DESC_BLOCKED" for x
  proof
    assume "\<exists>e \<in> set (snd (create_building i d)). to e = b \<and> merges (desc e) x"
    then show "(i, b) \<in> set (relation_block d) \<and> (b, i) \<in> set (relation_block d)"
      using x ds by (auto simp: create_building_eview query_view_def merges_def desc_consts split: option.splits if_splits)
  next
    assume r: "(i, b) \<in> set (relation_block d) \<and> (b, i) \<in> set (relation_block d)"
    then have "x = DESC_BLOCK" using x by (simp add: create_building_eview query_view_def)
    then show "\<exists>e \<in> set (snd (create_building i d)). to e = b \<and> merges (desc e) x"
      using create_dups_blocked [of i b d] r by (force simp: merges_def)
  qed
  have nomrg: "\<not> merges y x" if "x = DESC_FRIEND \<or> x = DESC_APPLIED \<or> x = DESC_APPLY" for x y
    using that by (auto simp: merges_def desc_consts)
  show ?thesis
    using mrg nomrg
    by (auto simp: deduplicate_eview [OF create_building_sorted] db_desc_def create_building_eview
        query_view_def desc_consts split: option.splits if_splits)
qed

lemma sort_key_entries: "sorted_wrt less_entry xs \<Longrightarrow> sort_key to xs = xs"
proof (induction xs)
  case (Cons x xs)
  then show ?case
    by (cases xs) (auto simp: less_entry_def)
qed simp

lemma create_fst:
  "fst (create i d) =
     mkHolder i (fst (deduplicate (fst (create_building i d)) (snd (create_building i d))))"
  using sort_key_entries [OF deduplicate_sorted [OF create_building_sorted]]
  by (auto simp: create_def split: prod.split) (metis fst_conv snd_conv)

lemma create_wf: "holder_wf (fst (create i d))"
  by (simp add: create_fst holder_wf_def deduplicate_sorted create_building_sorted)

lemma create_from: "hfrom (fst (create i d)) = i"
  by (simp add: create_fst)

lemma create_view: "hview (fst (create i d)) b = db_desc d i b"
  by (simp add: create_fst hview_def create_eview)


text \<open>Where no two kinds of rows relate the same users, nothing is left to clean up.\<close>

lemma deduplicate_merge_all:
  "sorted_wrt less_entry b \<Longrightarrow> distinct (map to ds) \<Longrightarrow>
   \<forall>e \<in> set ds. desc e = DESC_BLOCKED \<and> eview b (to e) = Some DESC_BLOCK \<Longrightarrow>
   snd (deduplicate b ds) = []"
proof (induction ds arbitrary: b)
  case (Cons dup ds)
  have "\<forall>e \<in> set ds. desc e = DESC_BLOCKED \<and>
      ((eview b)(to dup \<mapsto> DESC_BLOCK OR DESC_BLOCKED)) (to e) = Some DESC_BLOCK"
    using Cons.prems by (auto dest!: sym [of "to _" "to dup"])
  with Cons show ?case by (simp add: deduplicate_Cons merges_def merge_step)
qed simp

lemma filter_none: "(\<And>x. x \<in> set xs \<Longrightarrow> \<not> p x) \<Longrightarrow> filter p xs = []"
  by (simp add: filter_empty_conv)

lemma distinct_rows:
  assumes "distinct t"
  shows "distinct [g. (h, g) \<leftarrow> t, h = i]" "distinct [h. (h, g) \<leftarrow> t, g = i]"
proof -
  have "[g. (h, g) \<leftarrow> t, h = i] = map snd [r \<leftarrow> t. fst r = i]"
    "[h. (h, g) \<leftarrow> t, g = i] = map fst [r \<leftarrow> t. snd r = i]"
    by (induction t) auto
  then show "distinct [g. (h, g) \<leftarrow> t, h = i]" "distinct [h. (h, g) \<leftarrow> t, g = i]"
    using assms by (auto simp: distinct_map inj_on_def prod_eq_iff)
qed

lemma create_no_duplicates:
  assumes "distinct (relation_block d)" "distinct (relation_friend d)"
    "distinct (apply_accepter d)" "distinct (apply_applicant d)"
    and "\<And>k. (i, k) \<in> set (relation_friend d) \<Longrightarrow>
           (i, k) \<notin> set (relation_block d) \<and> (k, i) \<notin> set (relation_block d)"
    and "\<And>k. (k, i) \<in> set (apply_accepter d) \<Longrightarrow> (i, k) \<notin> set (relation_block d) \<and>
           (k, i) \<notin> set (relation_block d) \<and> (i, k) \<notin> set (relation_friend d)"
    and "\<And>k. (i, k) \<in> set (apply_applicant d) \<Longrightarrow> (i, k) \<notin> set (relation_block d) \<and>
           (k, i) \<notin> set (relation_block d) \<and> (i, k) \<notin> set (relation_friend d) \<and>
           (k, i) \<notin> set (apply_accepter d)"
  shows "snd (create i d) = []"
proof -
  let ?b1 = "query DESC_BLOCK [g. (h, g) \<leftarrow> relation_block d, h = i] ([], [])"
  let ?b2 = "query DESC_BLOCKED [h. (h, g) \<leftarrow> relation_block d, g = i] ?b1"
  let ?b3 = "query DESC_FRIEND [g. (h, g) \<leftarrow> relation_friend d, h = i] ?b2"
  let ?b4 = "query DESC_APPLIED [app. (app, acc) \<leftarrow> apply_accepter d, acc = i] ?b3"
  have srt: "sorted_wrt less_entry (fst ?b1)" "sorted_wrt less_entry (fst ?b2)"
    "sorted_wrt less_entry (fst ?b3)" "sorted_wrt less_entry (fst ?b4)"
    by (simp_all add: query_sorted)
  note ex = query_dups_exact [OF srt(1) distinct_rows(2) [OF assms(1)]]
    query_dups_exact [OF srt(2) distinct_rows(1) [OF assms(2)]]
    query_dups_exact [OF srt(3) distinct_rows(2) [OF assms(3)]]
    query_dups_exact [OF srt(4) distinct_rows(1) [OF assms(4)]]
  have e1: "snd ?b1 = []" using query_dups_exact [OF _ distinct_rows(1) [OF assms(1)], of "([], [])"] by simp
  have e3: "[k \<leftarrow> [g. (h, g) \<leftarrow> relation_friend d, h = i]. eview (fst ?b2) k \<noteq> None] = []"
    by (rule filter_none) (use assms(5) in \<open>auto simp: query_eview srt query_view_def\<close>)
  have e4: "[k \<leftarrow> [app. (app, acc) \<leftarrow> apply_accepter d, acc = i]. eview (fst ?b3) k \<noteq> None] = []"
    by (rule filter_none) (use assms(6) in \<open>auto simp: query_eview srt query_view_def\<close>)
  have e5: "[k \<leftarrow> [acc. (app, acc) \<leftarrow> apply_applicant d, app = i]. eview (fst ?b4) k \<noteq> None] = []"
    by (rule filter_none) (use assms(7) in \<open>auto simp: query_eview srt query_view_def\<close>)
  have dups: "snd (create_building i d) = map (\<lambda>k. mkEntry k DESC_BLOCKED)
      [k \<leftarrow> [h. (h, g) \<leftarrow> relation_block d, g = i]. eview (fst ?b1) k \<noteq> None]"
    unfolding create_building_def ex e1 e3 e4 e5 by simp
  have "snd (deduplicate (fst (create_building i d)) (snd (create_building i d))) = []"
  proof (rule deduplicate_merge_all [OF create_building_sorted])
    show "distinct (map to (snd (create_building i d)))"
      unfolding dups using distinct_rows(2) [OF assms(1)] by (simp add: comp_def)
    show "\<forall>e \<in> set (snd (create_building i d)).
        desc e = DESC_BLOCKED \<and> eview (fst (create_building i d)) (to e) = Some DESC_BLOCK"
      unfolding dups by (auto simp: query_eview create_building_eview query_view_def split: if_splits)
  qed
  then show ?thesis by (simp add: create_def Let_def split_beta)
qed


section \<open>The cleanup task\<close>

text \<open>How many duplicates of an id a query leaves: all its rows, but the one that was inserted.\<close>

lemma query_dups_count:
  "sorted_wrt less_entry (fst st) \<Longrightarrow>
   count_list (snd (query dsc rows st)) (mkEntry k dsc) = count_list (snd st) (mkEntry k dsc) +
     (if eview (fst st) k = None then count_list rows k - 1 else count_list rows k)"
proof (induction rows arbitrary: st)
  case (Cons t ts)
  have "count_list (snd (handle_row dsc st t)) (mkEntry k dsc) = count_list (snd st) (mkEntry k dsc) +
      (if t = k \<and> eview (fst st) k \<noteq> None then 1 else 0)"
    using Cons.prems by (auto simp: handle_row_cases mkEntry_eq_iff)
  moreover have "eview (fst (handle_row dsc st t)) k = None \<longleftrightarrow> t \<noteq> k \<and> eview (fst st) k = None"
    using Cons.prems by (auto simp: handle_row_cases query_view_def split: option.split)
  ultimately show ?case
    using Cons.IH [of "handle_row dsc st t"] Cons.prems by (auto simp: query_Cons handle_row_cases)
qed (simp add: query_def)

lemma query_dups_other:
  "desc e \<noteq> dsc \<Longrightarrow> count_list (snd (query dsc rows st)) e = count_list (snd st) e"
proof (induction rows arbitrary: st)
  case (Cons t ts)
  have "count_list (snd (handle_row dsc st t)) e = count_list (snd st) e"
    using Cons.prems by (auto simp: handle_row_def split: prod.split)
  with Cons show ?case by (simp add: query_Cons)
qed (simp add: query_def)

lemma deduplicate_count: "count_list (snd (deduplicate b ds)) e \<le> count_list ds e"
  by (induction ds arbitrary: b) (auto simp: deduplicate_Cons intro: le_SucI)

lemma create_snd:
  "snd (create i d) = snd (deduplicate (fst (create_building i d)) (snd (create_building i d)))"
  by (simp add: create_def Let_def split_beta)

lemma count_list_remove1: "count_list (remove1 x xs) y = count_list xs y - (if x = y then 1 else 0)"
  by (induction xs) (auto simp: count_list_0_iff)

lemma count_list_rows:
  "count_list [g. (h, g) \<leftarrow> t, h = i] k = count_list t (i, k)"
  "count_list [h. (h, g) \<leftarrow> t, g = i] k = count_list t (k, i)"
  by (induction t) auto

lemma cleanup_Cons: "cleanup i (e # es) d = cleanup i es (cleanup_entry i e d)"
  by (simp add: cleanup_def)

lemma cleanup_block: "relation_block (cleanup i es d) = relation_block d"
  by (induction es arbitrary: d) (simp_all add: cleanup_Cons cleanup_entry_def, simp add: cleanup_def)

lemma cleanup_kinds: "DESC_FRIEND \<noteq> DESC_APPLIED" "DESC_FRIEND \<noteq> DESC_APPLY" "DESC_APPLIED \<noteq> DESC_APPLY"
  by (simp_all add: desc_consts)

lemma cleanup_entry_count:
  assumes "k \<noteq> i"
  shows "count_list (relation_friend (cleanup_entry i e d)) (i, k) =
      count_list (relation_friend d) (i, k) - (if e = mkEntry k DESC_FRIEND then 1 else 0)"
    and "count_list (apply_accepter (cleanup_entry i e d)) (k, i) =
      count_list (apply_accepter d) (k, i) - (if e = mkEntry k DESC_APPLIED then 1 else 0)"
    and "count_list (apply_applicant (cleanup_entry i e d)) (i, k) =
      count_list (apply_applicant d) (i, k) - (if e = mkEntry k DESC_APPLY then 1 else 0)"
proof -
  have eq: "e = mkEntry k x \<longleftrightarrow> to e = k \<and> desc e = x" for x by (auto intro: Entry_eqI)
  note simps = cleanup_entry_def sql_delete_limit1_def count_list_remove1 eq cleanup_kinds
    cleanup_kinds [symmetric]
  consider "desc e = DESC_APPLIED" | "desc e = DESC_APPLY" | "desc e = DESC_FRIEND"
    | "desc e \<noteq> DESC_APPLIED" "desc e \<noteq> DESC_APPLY" "desc e \<noteq> DESC_FRIEND" by blast
  then show "count_list (relation_friend (cleanup_entry i e d)) (i, k) =
      count_list (relation_friend d) (i, k) - (if e = mkEntry k DESC_FRIEND then 1 else 0)"
    by cases (simp_all add: simps)
  consider "desc e = DESC_APPLIED" | "desc e = DESC_APPLY" | "desc e = DESC_FRIEND"
    | "desc e \<noteq> DESC_APPLIED" "desc e \<noteq> DESC_APPLY" "desc e \<noteq> DESC_FRIEND" by blast
  then show "count_list (apply_accepter (cleanup_entry i e d)) (k, i) =
      count_list (apply_accepter d) (k, i) - (if e = mkEntry k DESC_APPLIED then 1 else 0)"
    by cases (use assms in \<open>simp_all add: simps\<close>)
  consider "desc e = DESC_APPLIED" | "desc e = DESC_APPLY" | "desc e = DESC_FRIEND"
    | "desc e \<noteq> DESC_APPLIED" "desc e \<noteq> DESC_APPLY" "desc e \<noteq> DESC_FRIEND" by blast
  then show "count_list (apply_applicant (cleanup_entry i e d)) (i, k) =
      count_list (apply_applicant d) (i, k) - (if e = mkEntry k DESC_APPLY then 1 else 0)"
    by cases (use assms in \<open>simp_all add: simps\<close>)
qed

lemma cleanup_count:
  assumes "k \<noteq> i"
  shows "count_list (relation_friend (cleanup i es d)) (i, k) =
      count_list (relation_friend d) (i, k) - count_list es (mkEntry k DESC_FRIEND)"
    and "count_list (apply_accepter (cleanup i es d)) (k, i) =
      count_list (apply_accepter d) (k, i) - count_list es (mkEntry k DESC_APPLIED)"
    and "count_list (apply_applicant (cleanup i es d)) (i, k) =
      count_list (apply_applicant d) (i, k) - count_list es (mkEntry k DESC_APPLY)"
proof -
  have "count_list (relation_friend (cleanup i es d)) (i, k) =
        count_list (relation_friend d) (i, k) - count_list es (mkEntry k DESC_FRIEND) \<and>
      count_list (apply_accepter (cleanup i es d)) (k, i) =
        count_list (apply_accepter d) (k, i) - count_list es (mkEntry k DESC_APPLIED) \<and>
      count_list (apply_applicant (cleanup i es d)) (i, k) =
        count_list (apply_applicant d) (i, k) - count_list es (mkEntry k DESC_APPLY)"
  proof (induction es arbitrary: d)
    case (Cons e es)
    then show ?case by (simp add: cleanup_Cons cleanup_entry_count [OF assms])
  qed (simp add: cleanup_def)
  then show "count_list (relation_friend (cleanup i es d)) (i, k) =
        count_list (relation_friend d) (i, k) - count_list es (mkEntry k DESC_FRIEND)"
    and "count_list (apply_accepter (cleanup i es d)) (k, i) =
        count_list (apply_accepter d) (k, i) - count_list es (mkEntry k DESC_APPLIED)"
    and "count_list (apply_applicant (cleanup i es d)) (i, k) =
        count_list (apply_applicant d) (i, k) - count_list es (mkEntry k DESC_APPLY)" by blast+
qed

text \<open>The duplicates of each kind are fewer than the rows unless a stronger relation is there.\<close>

lemma create_building_count:
  "count_list (snd (create_building i d)) (mkEntry k DESC_FRIEND) =
     (if (i, k) \<in> set (relation_block d) \<or> (k, i) \<in> set (relation_block d)
      then count_list (relation_friend d) (i, k) else count_list (relation_friend d) (i, k) - 1)"
  "count_list (snd (create_building i d)) (mkEntry k DESC_APPLIED) =
     (if (i, k) \<in> set (relation_block d) \<or> (k, i) \<in> set (relation_block d) \<or> (i, k) \<in> set (relation_friend d)
      then count_list (apply_accepter d) (k, i) else count_list (apply_accepter d) (k, i) - 1)"
  "count_list (snd (create_building i d)) (mkEntry k DESC_APPLY) =
     (if (i, k) \<in> set (relation_block d) \<or> (k, i) \<in> set (relation_block d) \<or> (i, k) \<in> set (relation_friend d)
         \<or> (k, i) \<in> set (apply_accepter d)
      then count_list (apply_applicant d) (i, k) else count_list (apply_applicant d) (i, k) - 1)"
  unfolding create_building_def
  by (simp_all add: query_dups_count query_dups_other query_sorted query_eview count_list_rows
      query_view_def desc_consts split: option.split)

lemma cleanup_member:
  assumes "count_list t' x = count_list t x - c" "c \<le> (if p then count_list t x else count_list t x - 1)"
  shows "\<not> p \<Longrightarrow> x \<in> set t' \<longleftrightarrow> x \<in> set t"
  using assms count_list_0_iff [of t x] count_list_0_iff [of t' x] by auto

lemma cleanup_keeps_view:
  assumes "b \<noteq> i"
  shows "db_desc (cleanup i (snd (create i d)) d) i b = db_desc d i b"
proof -
  let ?d' = "cleanup i (snd (create i d)) d"
  let ?B = "(i, b) \<in> set (relation_block d) \<or> (b, i) \<in> set (relation_block d)"
  have le: "count_list (snd (create i d)) e \<le> count_list (snd (create_building i d)) e" for e
    unfolding create_snd by (rule deduplicate_count)
  note c = cleanup_count [OF assms, of "snd (create i d)" d]
  note F = cleanup_member [OF c(1) le [of "mkEntry b DESC_FRIEND", unfolded create_building_count]]
  note A = cleanup_member [OF c(2) le [of "mkEntry b DESC_APPLIED", unfolded create_building_count]]
  note P = cleanup_member [OF c(3) le [of "mkEntry b DESC_APPLY", unfolded create_building_count]]
  show ?thesis
    unfolding db_desc_def cleanup_block using F A P by auto
qed


section \<open>Properties\<close>

text \<open>C22. The holder the factory builds for a user is sorted, belongs to the user, and holds for every
  other user exactly the flags the tables say, where a block in both directions is merged and a
  block beats a friendship, a friendship an application received, and that one an application sent.\<close>

theorem create_reads_tables:
  "holder_wf (fst (create i d)) \<and> hfrom (fst (create i d)) = i \<and>
   hview (fst (create i d)) b = db_desc d i b"
  by (simp add: create_wf create_from create_view)

text \<open>The cleanup task only deletes rows that repeat or that a stronger relation hides: the user's
  flags for every other user are the same before and after, whatever the tables hold.\<close>

lemma cleanup_preserves_flags:
  assumes "b \<noteq> i"
  shows "db_desc (cleanup i (snd (create i d)) d) i b = db_desc d i b \<and>
    hview (fst (create i (cleanup i (snd (create i d)) d))) b = hview (fst (create i d)) b"
  using cleanup_keeps_view [OF assms] by (simp add: create_view)

definition messy_db :: buddy_db where
  "messy_db = \<lparr>relation_block = [(4, 1)], relation_friend = [(1, 2), (1, 2), (1, 4)],
     apply_accepter = [(2, 1), (3, 1), (3, 1)], apply_applicant = []\<rparr>"

lemma cleanup_preserves_flags_witness:
  "db_desc (cleanup 1 (snd (create 1 messy_db)) messy_db) 1 3 = Some DESC_APPLIED \<and>
   relation_friend (cleanup 1 (snd (create 1 messy_db)) messy_db) = [(1, 2)] \<and>
   apply_accepter (cleanup 1 (snd (create 1 messy_db)) messy_db) = [(3, 1)]"
proof -
  have "db_desc messy_db 1 3 = Some DESC_APPLIED" by (simp add: messy_db_def db_desc_def)
  moreover have "relation_friend (cleanup 1 (snd (create 1 messy_db)) messy_db) = [(1, 2)] \<and>
    apply_accepter (cleanup 1 (snd (create 1 messy_db)) messy_db) = [(3, 1)]"
    by code_simp
  ultimately show ?thesis using cleanup_preserves_flags [of 3 1 messy_db] by simp
qed

end
