(* ===== verification/BuddyCore.thy ===== *)
theory BuddyCore
  imports BuddyDb
begin

text \<open>
  The relation server, \<^verbatim>\<open>BuddyCore/src/BuddyCoreI.cpp\<close> and
  \<^verbatim>\<open>SyncAdapter.cpp\<close>. A request reads the acting user's holder (built from the
  database when it is not cached), decides by the relation found there, writes the database and
  then synchronises the cached holders: the acting user's own one locally, the other user's one on
  the server that is responsible for that user, and last it notifies the logic service. A server
  caches the users of its shard, so the caches of the servers together are one map. The call to
  the other server fails when \<open>remote_up\<close> says so: the request then ends with an
  exception, which is the result \<open>None\<close>, and keeps the effects made before. Text columns of
  an application, logging and the tracker are not modelled.
\<close>

section \<open>State\<close>

record OpState =
  first :: BuddyDesc
  second :: BuddyDesc

definition mkOpState :: "BuddyDesc \<Rightarrow> BuddyDesc \<Rightarrow> OpState" where
  "mkOpState x y = \<lparr>first = x, second = y\<rparr>"

lemma mkOpState_sel [simp]: "first (mkOpState x y) = x" "second (mkOpState x y) = y"
  by (simp_all add: mkOpState_def)

datatype Operation =
  ADDAPPLY | ACCEPTAPPLY | DENYAPPLY | REMOVEFRIEND | ADDBLOCK | REMOVEBLOCK | ADDFRIEND

text \<open>A notification carries the users and the \<open>RELATION\<close> that the context names.\<close>

datatype event = Notify Operation u32 u32 BuddyDesc | NotifyReload u32

datatype op =
  AddApply u32 u32 | AcceptApply u32 u32 | DenyApply u32 u32 | RemoveFriend u32 u32
| AddBlock u32 u32 | RemoveBlock u32 u32 | AddFriend u32 u32

datatype task =
  OpTask op | DupCleanupTask u32 "Entry list" | SyncUserCountGuestRequestTask u32
| MissedIdProcessTask u32

record server =
  db :: buddy_db
  cache :: "u32 \<rightharpoonup> EntryListHolder"
  tasks :: "task list"
  events :: "event list"
  user_count :: "u32 \<rightharpoonup> nat"
  remote_up :: "u32 \<Rightarrow> bool"

record sync_ctx =
  ctx_remote :: bool
  ctx_biblock :: bool

definition update_db :: "(buddy_db \<Rightarrow> buddy_db) \<Rightarrow> server \<Rightarrow> server" where
  "update_db f s = s\<lparr>db := f (db s)\<rparr>"

definition execute :: "task \<Rightarrow> server \<Rightarrow> server" where
  "execute t s = s\<lparr>tasks := tasks s @ [t]\<rparr>"

definition locateEntryListHolder :: "u32 \<Rightarrow> server \<Rightarrow> EntryListHolder \<times> server" where
  "locateEntryListHolder u s =
     (case cache s u of
        Some h \<Rightarrow> (h, s)
      | None \<Rightarrow>
          (let (h, dups) = create u (db s)
           in (h, execute (DupCleanupTask u dups) (s\<lparr>cache := (cache s)(u \<mapsto> h)\<rparr>))))"

definition findEntryListHolder :: "u32 \<Rightarrow> server \<Rightarrow> EntryListHolder option" where
  "findEntryListHolder u s = cache s u"

definition removeEntryListHolder :: "u32 \<Rightarrow> server \<Rightarrow> server" where
  "removeEntryListHolder u s = s\<lparr>cache := (cache s)(u := None)\<rparr>"

text \<open>A holder is an object: an operation on the one found changes it in the cache.\<close>

definition put_holder :: "u32 \<Rightarrow> EntryListHolder \<Rightarrow> server \<Rightarrow> server" where
  "put_holder u h s = s\<lparr>cache := (cache s)(u \<mapsto> h)\<rparr>"

definition syncUserCountGuestRequest :: "u32 \<Rightarrow> server \<Rightarrow> server" where
  "syncUserCountGuestRequest u s = execute (SyncUserCountGuestRequestTask u) s"

section \<open>The synchronisation manager\<close>

definition isLocalSync :: "sync_ctx \<Rightarrow> bool" where "isLocalSync c \<longleftrightarrow> \<not> ctx_remote c"
definition isBiblock :: "sync_ctx \<Rightarrow> bool" where "isBiblock c \<longleftrightarrow> ctx_biblock c"

definition sync_reload :: "u32 \<Rightarrow> server \<Rightarrow> server" where
  "sync_reload u s = removeEntryListHolder u s"

definition sync_syncAddFriend :: "u32 \<Rightarrow> u32 \<Rightarrow> sync_ctx \<Rightarrow> server \<Rightarrow> server" where
  "sync_syncAddFriend f t c s =
     (let (host, entry) = (if isLocalSync c then (f, mkEntry t DESC_FRIEND) else (t, mkEntry f DESC_FRIEND))
      in case findEntryListHolder host s of
           None \<Rightarrow> s
         | Some h \<Rightarrow> put_holder host (holder_add entry h) s)"

definition sync_syncAddApply :: "u32 \<Rightarrow> u32 \<Rightarrow> sync_ctx \<Rightarrow> server \<Rightarrow> server" where
  "sync_syncAddApply applicant accepter c s =
     (let (host, entry) =
        (if isLocalSync c then (applicant, mkEntry accepter DESC_APPLY)
         else (accepter, mkEntry applicant DESC_APPLIED))
      in case findEntryListHolder host s of
           None \<Rightarrow> execute (MissedIdProcessTask host) s
         | Some h \<Rightarrow>
             (let s' = put_holder host (holder_add entry h) s
              in if \<not> isLocalSync c then syncUserCountGuestRequest accepter s' else s'))"

definition sync_syncAcceptApply :: "u32 \<Rightarrow> u32 \<Rightarrow> sync_ctx \<Rightarrow> server \<Rightarrow> server" where
  "sync_syncAcceptApply applicant accepter c s =
     (let (host, key) =
        (if isLocalSync c then (accepter, mkEntry applicant DESC_APPLIED)
         else (applicant, mkEntry accepter DESC_APPLY))
      in case findEntryListHolder host s of
           None \<Rightarrow> s
         | Some h \<Rightarrow>
             (let val = key\<lparr>desc := DESC_FRIEND\<rparr>;
                  keyMask = mkEntry MAX_INT DESC_MASK_APPLY;
                  valueMask = mkEntry MAX_INT (DESC_FRIEND OR DESC_MASK_APPLY);
                  s' = put_holder host (holder_set_mask key keyMask val valueMask h) s
              in if isLocalSync c then syncUserCountGuestRequest accepter s' else s'))"

definition sync_syncDenyApply :: "u32 \<Rightarrow> u32 \<Rightarrow> sync_ctx \<Rightarrow> server \<Rightarrow> server" where
  "sync_syncDenyApply applicant accepter c s =
     (let (host, key) =
        (if isLocalSync c then (accepter, mkEntry applicant DESC_APPLIED)
         else (applicant, mkEntry accepter DESC_APPLY))
      in case findEntryListHolder host s of
           None \<Rightarrow> s
         | Some h \<Rightarrow>
             (let s' = put_holder host (holder_remove_mask key (mkEntry MAX_INT DESC_MASK_APPLY) h) s
              in if isLocalSync c then syncUserCountGuestRequest accepter s' else s'))"

definition sync_syncRemoveFriend :: "u32 \<Rightarrow> u32 \<Rightarrow> sync_ctx \<Rightarrow> server \<Rightarrow> server" where
  "sync_syncRemoveFriend f t c s =
     (let (host, key) =
        (if isLocalSync c then (f, mkEntry t DESC_FRIEND) else (t, mkEntry f DESC_FRIEND))
      in case findEntryListHolder host s of
           None \<Rightarrow> s
         | Some h \<Rightarrow>
             put_holder host (holder_remove_mask key (mkEntry MAX_INT DESC_MASK_FRIEND) h) s)"

definition sync_syncAddBlock :: "u32 \<Rightarrow> u32 \<Rightarrow> sync_ctx \<Rightarrow> server \<Rightarrow> server" where
  "sync_syncAddBlock f t c s =
     (let (host, entry) =
        (if isLocalSync c
         then (f, mkEntry t (if isBiblock c then DESC_BLOCKED OR DESC_BLOCK else DESC_BLOCK))
         else (t, mkEntry f (if isBiblock c then DESC_BLOCK OR DESC_BLOCKED else DESC_BLOCKED)))
      in case findEntryListHolder host s of
           None \<Rightarrow> s
         | Some h \<Rightarrow> syncUserCountGuestRequest host (put_holder host (holder_add entry h) s))"

definition sync_syncRemoveBlock :: "u32 \<Rightarrow> u32 \<Rightarrow> sync_ctx \<Rightarrow> server \<Rightarrow> server" where
  "sync_syncRemoveBlock f t c s =
     (if isLocalSync c then
        (case findEntryListHolder f s of
           None \<Rightarrow> s
         | Some h \<Rightarrow>
             (let key = mkEntry t DESC_BLOCK; msk = mkEntry MAX_INT DESC_MASK_BLOCK
              in put_holder f
                   (if \<not> isBiblock c then holder_remove_mask key msk h
                    else holder_set_mask key msk (key\<lparr>desc := desc key AND NOT DESC_BLOCK\<rparr>)
                           (mkEntry 0 DESC_MASK_BLOCK) h) s))
      else
        (case findEntryListHolder t s of
           None \<Rightarrow> s
         | Some h \<Rightarrow>
             (let key = mkEntry f DESC_BLOCKED; msk = mkEntry MAX_INT DESC_MASK_BLOCKED
              in put_holder t
                   (if \<not> isBiblock c then holder_remove_mask key msk h
                    else holder_set_mask key msk (key\<lparr>desc := desc key AND NOT DESC_BLOCKED\<rparr>)
                           (mkEntry 0 DESC_MASK_BLOCKED) h) s)))"

section \<open>The adapter to the managers of both users\<close>

definition context_relation :: "Operation \<Rightarrow> bool \<Rightarrow> BuddyDesc" where
  "context_relation oper biblock =
     (case oper of
        ADDAPPLY \<Rightarrow> Apply
      | ACCEPTAPPLY \<Rightarrow> Friend
      | DENYAPPLY \<Rightarrow> NoPath
      | REMOVEFRIEND \<Rightarrow> NoPath
      | ADDBLOCK \<Rightarrow> (if biblock then BiBlock else Block)
      | REMOVEBLOCK \<Rightarrow> (if biblock then Blocked else NoPath)
      | ADDFRIEND \<Rightarrow> Friend)"

definition buildContext :: "bool \<Rightarrow> bool \<Rightarrow> sync_ctx" where
  "buildContext remote biblock = \<lparr>ctx_remote = remote, ctx_biblock = biblock\<rparr>"

text \<open>
  One synchronised call: \<open>act\<close> with a local context, \<open>act\<close> with a remote context on the
  server of \<open>peer\<close>, which may be out of reach, and the notification. The flag says whether
  the call came back without an exception.
\<close>

definition sync_call ::
  "Operation \<Rightarrow> bool \<Rightarrow> (sync_ctx \<Rightarrow> server \<Rightarrow> server) \<Rightarrow> u32 \<Rightarrow> u32 \<Rightarrow> u32 \<Rightarrow> server \<Rightarrow> bool \<times> server" where
  "sync_call oper biblock act peer x y s =
     (let s' = act (buildContext False biblock) s
      in if remote_up s' peer
         then (let s'' = act (buildContext True biblock) s'
               in (True, s''\<lparr>events := events s'' @ [Notify oper x y (context_relation oper biblock)]\<rparr>))
         else (False, s'))"

definition reload :: "u32 \<Rightarrow> server \<Rightarrow> server" where
  "reload u s = (let s' = sync_reload u s in s'\<lparr>events := events s' @ [NotifyReload u]\<rparr>)"

definition syncAddFriend :: "u32 \<Rightarrow> u32 \<Rightarrow> server \<Rightarrow> bool \<times> server" where
  "syncAddFriend f t s = sync_call ADDFRIEND False (sync_syncAddFriend f t) t f t s"

definition syncAddApply :: "u32 \<Rightarrow> u32 \<Rightarrow> server \<Rightarrow> bool \<times> server" where
  "syncAddApply applicant accepter s =
     sync_call ADDAPPLY False (sync_syncAddApply applicant accepter) accepter applicant accepter s"

definition syncAcceptApply :: "u32 \<Rightarrow> u32 \<Rightarrow> server \<Rightarrow> bool \<times> server" where
  "syncAcceptApply applicant accepter s =
     sync_call ACCEPTAPPLY False (sync_syncAcceptApply applicant accepter) applicant applicant accepter s"

definition syncDenyApply :: "u32 \<Rightarrow> u32 \<Rightarrow> server \<Rightarrow> bool \<times> server" where
  "syncDenyApply applicant accepter s =
     sync_call DENYAPPLY False (sync_syncDenyApply applicant accepter) applicant applicant accepter s"

definition syncRemoveFriend :: "u32 \<Rightarrow> u32 \<Rightarrow> server \<Rightarrow> bool \<times> server" where
  "syncRemoveFriend f t s = sync_call REMOVEFRIEND False (sync_syncRemoveFriend f t) t f t s"

definition syncAddBlock :: "u32 \<Rightarrow> u32 \<Rightarrow> bool \<Rightarrow> server \<Rightarrow> bool \<times> server" where
  "syncAddBlock f t biblock s = sync_call ADDBLOCK biblock (sync_syncAddBlock f t) t f t s"

definition syncRemoveBlock :: "u32 \<Rightarrow> u32 \<Rightarrow> bool \<Rightarrow> server \<Rightarrow> bool \<times> server" where
  "syncRemoveBlock f t biblock s = sync_call REMOVEBLOCK biblock (sync_syncRemoveBlock f t) t f t s"

section \<open>The requests\<close>

definition reply :: "BuddyDesc \<Rightarrow> BuddyDesc \<Rightarrow> bool \<times> server \<Rightarrow> OpState option \<times> server" where
  "reply x y r = (if fst r then Some (mkOpState x y) else None, snd r)"

definition answer :: "BuddyDesc \<Rightarrow> BuddyDesc \<Rightarrow> server \<Rightarrow> OpState option \<times> server" where
  "answer x y s = (Some (mkOpState x y), s)"

definition addApplyWithState :: "u32 \<Rightarrow> u32 \<Rightarrow> server \<Rightarrow> OpState option \<times> server" where
  "addApplyWithState applicant accepter s0 =
     (if accepter = applicant then answer NoPath Self s0
      else
       (let (h, s) = locateEntryListHolder applicant s0
        in case holder_get (mkEntry accepter DESC_APPLY) h of
             [] \<Rightarrow> reply NoPath Apply
               (syncAddApply applicant accepter (update_db (insertBuddyApplyN applicant accepter) s))
           | [e] \<Rightarrow>
               (let rel = translateDesc (desc e)
                in case rel of
                     Applied \<Rightarrow> reply rel Friend
                       (syncAcceptApply accepter applicant
                         (update_db (insertRelationBi applicant accepter)
                           (update_db (deleteBuddyApplyN accepter applicant) s)))
                   | Block \<Rightarrow> reply rel Apply
                       (syncAddApply applicant accepter
                         (update_db (insertBuddyApplyN applicant accepter)
                           (update_db (deleteBlock applicant accepter) s)))
                   | BiBlock \<Rightarrow> reply rel Blocked
                       (syncRemoveBlock applicant accepter True
                         (update_db (deleteBlock applicant accepter) s))
                   | Apply \<Rightarrow> reply rel rel
                       (syncAddApply applicant accepter
                         (update_db (insertBuddyApplyN applicant accepter) s))
                   | Blocked \<Rightarrow> answer rel rel s
                   | Friend \<Rightarrow> answer rel rel s
                   | _ \<Rightarrow> answer rel rel s)
           | _ \<Rightarrow> answer NoPath NoPath (reload applicant s)))"

definition acceptApplyWithState :: "u32 \<Rightarrow> u32 \<Rightarrow> server \<Rightarrow> OpState option \<times> server" where
  "acceptApplyWithState applicant accepter s0 =
     (if accepter = applicant then answer NoPath Self s0
      else
       (let (h, s1) = locateEntryListHolder accepter s0;
            s = update_db (deleteBuddyApplyN applicant accepter) s1
        in case holder_get (mkEntry applicant DESC_APPLIED) h of
             [] \<Rightarrow> answer NoPath NoPath (reload accepter s)
           | [e] \<Rightarrow>
               (let rel = translateDesc (desc e)
                in case rel of
                     Applied \<Rightarrow> reply rel Friend
                       (syncAcceptApply applicant accepter
                         (update_db (insertRelationBi applicant accepter) s))
                   | _ \<Rightarrow> answer rel rel s)
           | _ \<Rightarrow> answer NoPath NoPath (reload accepter s)))"

definition denyApplyWithState :: "u32 \<Rightarrow> u32 \<Rightarrow> server \<Rightarrow> OpState option \<times> server" where
  "denyApplyWithState applicant accepter s0 =
     (if accepter = applicant then answer NoPath Self s0
      else
       (let (h, s1) = locateEntryListHolder accepter s0;
            s = update_db (deleteBuddyApplyN applicant accepter) s1
        in case holder_get (mkEntry applicant DESC_APPLIED) h of
             [] \<Rightarrow> answer NoPath NoPath (reload accepter s)
           | [e] \<Rightarrow>
               (let rel = translateDesc (desc e)
                in case rel of
                     Applied \<Rightarrow> reply rel NoPath (syncDenyApply applicant accepter s)
                   | _ \<Rightarrow> answer rel rel s)
           | _ \<Rightarrow> answer NoPath NoPath (reload accepter s)))"

definition removeFriendWithState :: "u32 \<Rightarrow> u32 \<Rightarrow> server \<Rightarrow> OpState option \<times> server" where
  "removeFriendWithState f t s0 =
     (if f = t then answer NoPath Self s0
      else
       (let (h, s) = locateEntryListHolder f s0
        in case holder_get (mkEntry t DESC_FRIEND) h of
             [] \<Rightarrow> answer NoPath NoPath (reload f s)
           | [e] \<Rightarrow>
               (let rel = translateDesc (desc e)
                in case rel of
                     Friend \<Rightarrow> reply rel NoPath
                       (syncRemoveFriend f t (update_db (deleteRelationBi f t) s))
                   | Apply \<Rightarrow> answer rel rel (reload f s)
                   | Applied \<Rightarrow> answer rel rel (reload f s)
                   | Blocked \<Rightarrow> answer rel rel (reload f s)
                   | Block \<Rightarrow> answer rel rel (reload f s)
                   | BiBlock \<Rightarrow> answer rel rel (reload f s)
                   | _ \<Rightarrow> answer rel rel s)
           | _ \<Rightarrow> answer NoPath NoPath (reload f s)))"

definition addBlockWithState :: "u32 \<Rightarrow> u32 \<Rightarrow> server \<Rightarrow> OpState option \<times> server" where
  "addBlockWithState f t s0 =
     (if f = t then answer NoPath Self s0
      else
       (let (h, s) = locateEntryListHolder f s0
        in case holder_get (mkEntry t DESC_BLOCK) h of
             [] \<Rightarrow> reply NoPath Block (syncAddBlock f t False (update_db (insertBlock f t) s))
           | [e] \<Rightarrow>
               (let rel = translateDesc (desc e);
                    finish = (\<lambda>y biblock s. reply rel y
                       (syncAddBlock f t biblock (update_db (insertBlock f t) s)))
                in case rel of
                     Apply \<Rightarrow> finish Block False (update_db (deleteBuddyApplyN f t) s)
                   | Applied \<Rightarrow> finish Block False (update_db (deleteBuddyApplyN t f) s)
                   | BiBlock \<Rightarrow> answer rel Block s
                   | Block \<Rightarrow> answer rel Block s
                   | Blocked \<Rightarrow> finish BiBlock True s
                   | Friend \<Rightarrow> finish Block False (update_db (deleteRelationBi f t) s)
                   | _ \<Rightarrow> finish Block False s)
           | _ \<Rightarrow> answer NoPath NoPath (reload f s)))"

definition removeBlockWithState :: "u32 \<Rightarrow> u32 \<Rightarrow> server \<Rightarrow> OpState option \<times> server" where
  "removeBlockWithState f t s0 =
     (if f = t then answer NoPath Self s0
      else
       (let (h, s) = locateEntryListHolder f s0
        in case holder_get (mkEntry t DESC_BLOCK) h of
             [] \<Rightarrow> answer NoPath NoPath (reload f s)
           | [e] \<Rightarrow>
               (let rel = translateDesc (desc e);
                    finish = (\<lambda>y biblock. reply rel y
                       (syncRemoveBlock f t biblock (update_db (deleteBlock f t) s)))
                in case rel of
                     Apply \<Rightarrow> answer rel rel s
                   | Applied \<Rightarrow> answer rel rel s
                   | Blocked \<Rightarrow> answer rel rel s
                   | Friend \<Rightarrow> answer rel rel s
                   | Block \<Rightarrow> finish NoPath False
                   | BiBlock \<Rightarrow> finish Blocked True
                   | _ \<Rightarrow> finish rel False)
           | _ \<Rightarrow> answer NoPath NoPath (reload f s)))"

definition addFriendWithState :: "u32 \<Rightarrow> u32 \<Rightarrow> server \<Rightarrow> OpState option \<times> server" where
  "addFriendWithState f t s0 =
     (if f = t then answer NoPath Self s0
      else
       (let (h, s) = locateEntryListHolder f s0
        in case holder_get (mkEntry t 0) h of
             e # _ \<Rightarrow> answer (translateDesc (desc e)) (translateDesc (desc e)) s
           | [] \<Rightarrow> reply NoPath Friend (syncAddFriend f t (update_db (insertRelationBi f t) s))))"

fun run_op :: "op \<Rightarrow> server \<Rightarrow> OpState option \<times> server" where
  "run_op (AddApply applicant accepter) s = addApplyWithState applicant accepter s"
| "run_op (AcceptApply applicant accepter) s = acceptApplyWithState applicant accepter s"
| "run_op (DenyApply applicant accepter) s = denyApplyWithState applicant accepter s"
| "run_op (RemoveFriend f t) s = removeFriendWithState f t s"
| "run_op (AddBlock f t) s = addBlockWithState f t s"
| "run_op (RemoveBlock f t) s = removeBlockWithState f t s"
| "run_op (AddFriend f t) s = addFriendWithState f t s"

section \<open>Queries and batches\<close>

definition getRelation :: "u32 \<Rightarrow> u32 \<Rightarrow> server \<Rightarrow> BuddyDesc \<times> server" where
  "getRelation f t s0 =
     (if f = t then (Self, s0)
      else
       (let (h, s) = locateEntryListHolder f s0
        in case holder_get (mkEntry t 0) h of
             [] \<Rightarrow> (NoPath, s)
           | e # _ \<Rightarrow> (translateDesc (desc e), s)))"

definition get_seq :: "u32 \<Rightarrow> u32 \<Rightarrow> u32 \<Rightarrow> server \<Rightarrow> u32 list \<times> server" where
  "get_seq d m u s0 =
     (let (h, s) = locateEntryListHolder u s0
      in (holder_get_build (mkEntry 0 d) (mkEntry 0 m) [] h, s))"

text \<open>The code takes \<open>begin\<close> and \<open>limit\<close> and reads neither.\<close>

definition getAppliedSeq :: "u32 \<Rightarrow> i32 \<Rightarrow> i32 \<Rightarrow> server \<Rightarrow> u32 list \<times> server" where
  "getAppliedSeq u start limit s = get_seq DESC_APPLIED DESC_MASK_APPLY u s"

definition getApplySeq :: "u32 \<Rightarrow> i32 \<Rightarrow> i32 \<Rightarrow> server \<Rightarrow> u32 list \<times> server" where
  "getApplySeq u start limit s = get_seq DESC_APPLY DESC_MASK u s"

definition getFriendSeq :: "u32 \<Rightarrow> i32 \<Rightarrow> i32 \<Rightarrow> server \<Rightarrow> u32 list \<times> server" where
  "getFriendSeq u start limit s = get_seq DESC_FRIEND DESC_MASK_FRIEND u s"

definition getBlockSeq :: "u32 \<Rightarrow> i32 \<Rightarrow> i32 \<Rightarrow> server \<Rightarrow> u32 list \<times> server" where
  "getBlockSeq u start limit s = get_seq DESC_BLOCK DESC_MASK_BLOCK u s"

definition count_of :: "u32 list \<times> server \<Rightarrow> nat \<times> server" where
  "count_of r = (length (fst r), snd r)"

definition getAppliedCount :: "u32 \<Rightarrow> server \<Rightarrow> nat \<times> server" where
  "getAppliedCount u s = count_of (getAppliedSeq u 0 (-1) s)"

definition getApplyCount :: "u32 \<Rightarrow> server \<Rightarrow> nat \<times> server" where
  "getApplyCount u s = count_of (getApplySeq u 0 (-1) s)"

definition getFriendCount :: "u32 \<Rightarrow> server \<Rightarrow> nat \<times> server" where
  "getFriendCount u s = count_of (getFriendSeq u 0 (-1) s)"

definition getBlockCount :: "u32 \<Rightarrow> server \<Rightarrow> nat \<times> server" where
  "getBlockCount u s = count_of (getBlockSeq u 0 (-1) s)"

text \<open>
  The batch queries insert into a map, which keeps the first value of a key; the batch requests
  walk a map in the order of its keys and leave out a request without its \<open>ApplyInfo\<close>.
\<close>

fun seq_batch ::
  "(u32 \<Rightarrow> server \<Rightarrow> u32 list \<times> server) \<Rightarrow> u32 list \<Rightarrow> server \<Rightarrow> (u32 \<times> u32 list) list \<times> server" where
  "seq_batch q [] s = ([], s)"
| "seq_batch q (u # us) s =
     (let (sublist, s') = q u s; (result, s'') = seq_batch q us s'
      in ((u, sublist) # result, s''))"

definition getApplySeqBatch :: "u32 list \<Rightarrow> server \<Rightarrow> (u32 \<rightharpoonup> u32 list) \<times> server" where
  "getApplySeqBatch us s = (let (r, s') = seq_batch (\<lambda>u. getApplySeq u 0 (-1)) us s in (map_of r, s'))"

definition getFriendSeqBatch :: "u32 list \<Rightarrow> server \<Rightarrow> (u32 \<rightharpoonup> u32 list) \<times> server" where
  "getFriendSeqBatch us s = (let (r, s') = seq_batch (\<lambda>u. getFriendSeq u 0 (-1)) us s in (map_of r, s'))"

definition getBlockSeqBatch :: "u32 list \<Rightarrow> server \<Rightarrow> (u32 \<rightharpoonup> u32 list) \<times> server" where
  "getBlockSeqBatch us s = (let (r, s') = seq_batch (\<lambda>u. getBlockSeq u 0 (-1)) us s in (map_of r, s'))"

definition addApplyBatch :: "(i32 \<times> u32 \<times> u32) list \<Rightarrow> i32 set \<Rightarrow> server \<Rightarrow> server" where
  "addApplyBatch applies infos s =
     foldl (\<lambda>s (i, applicant, accepter).
       if i \<notin> infos then s else execute (OpTask (AddApply applicant accepter)) s) s applies"

fun addApplyWithStateBatch ::
  "(i32 \<times> u32 \<times> u32) list \<Rightarrow> i32 set \<Rightarrow> server \<Rightarrow> (i32 \<times> OpState) list option \<times> server" where
  "addApplyWithStateBatch [] infos s = (Some [], s)"
| "addApplyWithStateBatch ((i, applicant, accepter) # applies) infos s =
     (if i \<notin> infos then addApplyWithStateBatch applies infos s
      else case addApplyWithState applicant accepter s of
             (None, s') \<Rightarrow> (None, s')
           | (Some r, s') \<Rightarrow>
               (let (rs, s'') = addApplyWithStateBatch applies infos s'
                in (map_option (\<lambda>x. (i, r) # x) rs, s'')))"

definition execute_all :: "op list \<Rightarrow> server \<Rightarrow> server" where
  "execute_all ops s = foldl (\<lambda>s x. execute (OpTask x) s) s ops"

definition acceptAllApplied :: "u32 \<Rightarrow> server \<Rightarrow> server" where
  "acceptAllApplied u s =
     (let (ids, s') = getAppliedSeq u 0 (-1) s
      in execute_all (map (\<lambda>x. AcceptApply x u) ids) s')"

definition denyAllApplied :: "u32 \<Rightarrow> server \<Rightarrow> server" where
  "denyAllApplied u s =
     (let (ids, s') = getAppliedSeq u 0 (-1) s
      in execute_all (map (\<lambda>x. DenyApply x u) ids) s')"

definition denyAllApply :: "u32 \<Rightarrow> server \<Rightarrow> server" where
  "denyAllApply u s =
     (let (ids, s') = getApplySeq u 0 (-1) s
      in execute_all (map (\<lambda>x. DenyApply u x) ids) s')"

section \<open>The tasks\<close>

definition SyncUserCount_handle :: "u32 \<Rightarrow> server \<Rightarrow> server" where
  "SyncUserCount_handle u s =
     (case findEntryListHolder u s of
        None \<Rightarrow> s
      | Some h \<Rightarrow>
          (let n = length (holder_get_mask (mkEntry 0 DESC_APPLIED) (mkEntry 0 DESC_MASK_APPLY) h)
           in s\<lparr>user_count := (user_count s)(u \<mapsto> (if n > 100 then 101 else n))\<rparr>))"

definition MissedIdProcess_handle :: "u32 \<Rightarrow> server \<Rightarrow> server" where
  "MissedIdProcess_handle u s =
     execute (SyncUserCountGuestRequestTask u) (snd (locateEntryListHolder u s))"

fun handle_task :: "task \<Rightarrow> server \<Rightarrow> server" where
  "handle_task (OpTask x) s = snd (run_op x s)"
| "handle_task (DupCleanupTask u dups) s = update_db (cleanup u dups) s"
| "handle_task (SyncUserCountGuestRequestTask u) s = SyncUserCount_handle u s"
| "handle_task (MissedIdProcessTask u) s = MissedIdProcess_handle u s"

end
