(* ===== verification/BuddyInv.thy ===== *)
theory BuddyInv
  imports BuddyCore
begin

text \<open>
  The invariant of the tables of the relation server: \<open>wf_db\<close> says that both apply tables
  agree, friendship is symmetric and two users are related in one way only. Every write of
  \<^verbatim>\<open>BuddyDatabaseHelper\<close>, from the states in which the server makes it, keeps the
  invariant and changes one pair of users (\<open>db_step\<close>).
\<close>

section \<open>The invariant of the tables\<close>

definition wf_db :: "buddy_db \<Rightarrow> bool" where
  "wf_db d \<longleftrightarrow>
     distinct (relation_block d) \<and> distinct (relation_friend d) \<and>
     distinct (apply_accepter d) \<and> distinct (apply_applicant d) \<and>
     set (apply_accepter d) = set (apply_applicant d) \<and>
     (\<forall>(a, b) \<in> set (relation_block d). a \<noteq> b \<and>
        (a, b) \<notin> set (relation_friend d) \<and> (a, b) \<notin> set (apply_applicant d) \<and>
        (b, a) \<notin> set (apply_applicant d)) \<and>
     (\<forall>(a, b) \<in> set (relation_friend d). a \<noteq> b \<and>
        (b, a) \<in> set (relation_friend d) \<and> (a, b) \<notin> set (apply_applicant d)) \<and>
     (\<forall>(a, b) \<in> set (apply_applicant d). a \<noteq> b \<and> (b, a) \<notin> set (apply_applicant d))"

text \<open>The tables as relations, and the flags as a function of them.\<close>

definition rels :: "buddy_db \<Rightarrow> (u32 \<times> u32) set \<times> (u32 \<times> u32) set \<times> (u32 \<times> u32) set" where
  "rels d = (set (relation_block d), set (relation_friend d), set (apply_applicant d))"

definition rel_desc ::
  "(u32 \<times> u32) set \<times> (u32 \<times> u32) set \<times> (u32 \<times> u32) set \<Rightarrow> u32 \<Rightarrow> u32 \<Rightarrow> u32 option" where
  "rel_desc r a b = (case r of (B, F, A) \<Rightarrow>
     if (a, b) \<in> B \<and> (b, a) \<in> B then Some (DESC_BLOCK OR DESC_BLOCKED)
     else if (a, b) \<in> B then Some DESC_BLOCK
     else if (b, a) \<in> B then Some DESC_BLOCKED
     else if (a, b) \<in> F then Some DESC_FRIEND
     else if (b, a) \<in> A then Some DESC_APPLIED
     else if (a, b) \<in> A then Some DESC_APPLY
     else None)"

definition wf_rels :: "(u32 \<times> u32) set \<times> (u32 \<times> u32) set \<times> (u32 \<times> u32) set \<Rightarrow> bool" where
  "wf_rels r \<longleftrightarrow> (case r of (B, F, A) \<Rightarrow>
     (\<forall>a b. (a, b) \<in> B \<longrightarrow> a \<noteq> b \<and> (a, b) \<notin> F \<and> (a, b) \<notin> A \<and> (b, a) \<notin> A) \<and>
     (\<forall>a b. (a, b) \<in> F \<longrightarrow> a \<noteq> b \<and> (b, a) \<in> F \<and> (a, b) \<notin> A) \<and>
     (\<forall>a b. (a, b) \<in> A \<longrightarrow> a \<noteq> b \<and> (b, a) \<notin> A))"

definition tables_ok :: "buddy_db \<Rightarrow> bool" where
  "tables_ok d \<longleftrightarrow>
     distinct (relation_block d) \<and> distinct (relation_friend d) \<and>
     distinct (apply_accepter d) \<and> distinct (apply_applicant d) \<and>
     set (apply_accepter d) = set (apply_applicant d)"

lemma ball_pair: "(\<forall>(a, b) \<in> S. P a b) \<longleftrightarrow> (\<forall>a b. (a, b) \<in> S \<longrightarrow> P a b)"
  by auto

lemma wf_db_rels: "wf_db d \<longleftrightarrow> tables_ok d \<and> wf_rels (rels d)"
  by (simp only: wf_db_def tables_ok_def wf_rels_def rels_def ball_pair prod.case conj_assoc)

lemma db_desc_rels: "tables_ok d \<Longrightarrow> db_desc d = rel_desc (rels d)"
  by (simp add: fun_eq_iff db_desc_def rel_desc_def rels_def tables_ok_def)

lemma distinct_sql [simp]:
  "distinct t \<Longrightarrow> distinct (sql_replace r t)" "distinct t \<Longrightarrow> distinct (sql_delete r t)"
  "distinct t \<Longrightarrow> r \<notin> set t \<Longrightarrow> distinct (sql_insert r t)"
  by (simp_all add: sql_replace_def sql_delete_def sql_insert_def)

lemma sql_delete_absent [simp]: "r \<notin> set t \<Longrightarrow> sql_delete r t = t"
  unfolding sql_delete_def filter_id_conv by blast

lemma op_tables_ok [simp]:
  assumes "tables_ok d"
  shows "tables_ok (insertBuddyApplyN a b d)" "tables_ok (deleteBuddyApplyN a b d)"
    "tables_ok (insertRelationBi a b d)" "tables_ok (deleteRelationBi a b d)"
    "(a, b) \<notin> set (relation_block d) \<Longrightarrow> tables_ok (insertBlock a b d)"
    "tables_ok (deleteBlock a b d)"
  using assms
  by (simp_all add: tables_ok_def insertBuddyApplyN_def deleteBuddyApplyN_def
      insertRelationBi_def deleteRelationBi_def insertBlock_def deleteBlock_def)

lemma op_rels:
  "rels (insertBuddyApplyN a b d) = (case rels d of (B, F, A) \<Rightarrow> (B, F, insert (a, b) A))"
  "rels (deleteBuddyApplyN a b d) = (case rels d of (B, F, A) \<Rightarrow> (B, F, A - {(a, b)}))"
  "rels (insertRelationBi a b d) = (case rels d of (B, F, A) \<Rightarrow> (B, insert (b, a) (insert (a, b) F), A))"
  "rels (deleteRelationBi a b d) = (case rels d of (B, F, A) \<Rightarrow> (B, F - {(a, b)} - {(b, a)}, A))"
  "rels (insertBlock a b d) = (case rels d of (B, F, A) \<Rightarrow> (insert (a, b) B, F, A))"
  "rels (deleteBlock a b d) = (case rels d of (B, F, A) \<Rightarrow> (B - {(a, b)}, F, A))"
  by (simp_all add: rels_def insertBuddyApplyN_def deleteBuddyApplyN_def
      insertRelationBi_def deleteRelationBi_def insertBlock_def deleteBlock_def)

lemma deleteBuddyApplyN_absent:
  assumes "tables_ok d" "(a, b) \<notin> set (apply_applicant d)"
  shows "deleteBuddyApplyN a b d = d"
  using assms by (simp add: deleteBuddyApplyN_def tables_ok_def)

section \<open>The abstract relation of two users\<close>

text \<open>Seven values are possible for a pair, each determines what the other user sees.\<close>

definition opp_desc :: "u32 option \<Rightarrow> u32 option" where
  "opp_desc x = (case x of None \<Rightarrow> None | Some d \<Rightarrow> Some (translateInt (oppositeDesc (translateDesc d))))"

definition flag_of :: "BuddyDesc \<Rightarrow> u32 option" where
  "flag_of r = (if r = NoPath \<or> r = Self then None else Some (translateInt r))"

lemma flag_of_simps [simp]:
  "flag_of NoPath = None" "flag_of Friend = Some DESC_FRIEND" "flag_of Apply = Some DESC_APPLY"
  "flag_of Applied = Some DESC_APPLIED" "flag_of Block = Some DESC_BLOCK"
  "flag_of Blocked = Some DESC_BLOCKED" "flag_of BiBlock = Some (DESC_BLOCK OR DESC_BLOCKED)"
  by (simp_all add: flag_of_def)

lemma desc_distinct [simp]:
  "DESC_FRIEND \<noteq> DESC_APPLY" "DESC_FRIEND \<noteq> DESC_APPLIED" "DESC_FRIEND \<noteq> DESC_BLOCK"
  "DESC_FRIEND \<noteq> DESC_BLOCKED" "DESC_APPLY \<noteq> DESC_APPLIED" "DESC_APPLY \<noteq> DESC_BLOCK"
  "DESC_APPLY \<noteq> DESC_BLOCKED" "DESC_APPLIED \<noteq> DESC_BLOCK" "DESC_APPLIED \<noteq> DESC_BLOCKED"
  "DESC_BLOCK \<noteq> DESC_BLOCKED" "DESC_APPLY \<noteq> DESC_FRIEND" "DESC_APPLIED \<noteq> DESC_FRIEND"
  "DESC_BLOCK \<noteq> DESC_FRIEND" "DESC_BLOCKED \<noteq> DESC_FRIEND" "DESC_APPLIED \<noteq> DESC_APPLY"
  "DESC_BLOCK \<noteq> DESC_APPLY" "DESC_BLOCKED \<noteq> DESC_APPLY" "DESC_BLOCK \<noteq> DESC_APPLIED"
  "DESC_BLOCKED \<noteq> DESC_APPLIED" "DESC_BLOCKED \<noteq> DESC_BLOCK"
  by (simp_all add: desc_consts)

lemma bidesc_distinct [simp]:
  "DESC_BLOCK OR DESC_BLOCKED \<noteq> DESC_FRIEND" "DESC_BLOCK OR DESC_BLOCKED \<noteq> DESC_APPLY"
  "DESC_BLOCK OR DESC_BLOCKED \<noteq> DESC_APPLIED" "DESC_BLOCK OR DESC_BLOCKED \<noteq> DESC_BLOCK"
  "DESC_BLOCK OR DESC_BLOCKED \<noteq> DESC_BLOCKED"
  "DESC_FRIEND \<noteq> DESC_BLOCK OR DESC_BLOCKED" "DESC_APPLY \<noteq> DESC_BLOCK OR DESC_BLOCKED"
  "DESC_APPLIED \<noteq> DESC_BLOCK OR DESC_BLOCKED" "DESC_BLOCK \<noteq> DESC_BLOCK OR DESC_BLOCKED"
  "DESC_BLOCKED \<noteq> DESC_BLOCK OR DESC_BLOCKED"
  by (simp_all add: desc_consts)

lemma db_desc_cases:
  "db_desc d a b \<in> {None, Some DESC_FRIEND, Some DESC_APPLY, Some DESC_APPLIED,
     Some DESC_BLOCK, Some DESC_BLOCKED, Some (DESC_BLOCK OR DESC_BLOCKED)}"
  by (simp add: db_desc_def)

lemma db_desc_flag: "db_desc d a b = flag_of (db_rel d a b)"
  using db_desc_cases [of d a b] by (auto simp: db_rel_def)

lemma db_rel_not_self [simp]: "db_rel d a b \<noteq> Self"
  using db_desc_cases [of d a b] by (auto simp: db_rel_def)

lemma flag_of_inj: "x \<noteq> Self \<Longrightarrow> y \<noteq> Self \<Longrightarrow> flag_of x = flag_of y \<longleftrightarrow> x = y"
  by (cases x; cases y) simp_all

lemma db_rel_iff: "x \<noteq> Self \<Longrightarrow> db_rel d a b = x \<longleftrightarrow> db_desc d a b = flag_of x"
  by (simp add: db_desc_flag flag_of_inj)

lemma wf_relsD:
  assumes "wf_rels (B, F, A)"
  shows "(a, b) \<in> B \<Longrightarrow> a \<noteq> b \<and> (a, b) \<notin> F \<and> (b, a) \<notin> F \<and> (a, b) \<notin> A \<and> (b, a) \<notin> A"
    and "(a, b) \<in> F \<Longrightarrow> a \<noteq> b \<and> (b, a) \<in> F \<and> (a, b) \<notin> A \<and> (b, a) \<notin> A"
    and "(a, b) \<in> A \<Longrightarrow> a \<noteq> b \<and> (b, a) \<notin> A"
  using assms unfolding wf_rels_def by blast+

lemma rel_desc_opposite:
  assumes "wf_rels r" "rel_desc r a b = flag_of x" "x \<noteq> Self"
  shows "rel_desc r b a = flag_of (oppositeDesc x)"
proof -
  obtain B F A where r: "r = (B, F, A)" by (cases r)
  note w = wf_relsD [OF assms(1) [unfolded r]]
  note ab = w [of a b] and ba = w [of b a]
  show ?thesis
  proof (cases "(a, b) \<in> B \<or> (b, a) \<in> B")
    case True
    then show ?thesis using assms(2,3) by (cases x) (simp_all add: r rel_desc_def split: if_splits)
  next
    case no: False
    show ?thesis
    proof (cases "(a, b) \<in> F")
      case True
      then show ?thesis using no ab(2) assms(2,3) by (cases x) (simp_all add: r rel_desc_def)
    next
      case False
      then have "(b, a) \<notin> F" using ba(2) by blast
      then show ?thesis using no False ab(3) ba(3) assms(2,3)
        by (cases x) (auto simp add: r rel_desc_def split: if_splits)
    qed
  qed
qed

lemma db_rel_opposite:
  assumes "wf_db d" shows "db_rel d b a = oppositeDesc (db_rel d a b)"
proof -
  have "db_desc d a b = flag_of (db_rel d a b)" by (rule db_desc_flag)
  then have "db_desc d b a = flag_of (oppositeDesc (db_rel d a b))"
    using rel_desc_opposite assms by (auto simp: wf_db_rels db_desc_rels)
  moreover have "oppositeDesc (db_rel d a b) \<noteq> Self" by (cases "db_rel d a b") auto
  ultimately show ?thesis by (simp add: db_rel_iff)
qed


section \<open>One pair of users changes\<close>

definition set_pair :: "u32 \<Rightarrow> u32 \<Rightarrow> BuddyDesc \<Rightarrow> buddy_db \<Rightarrow> buddy_db \<Rightarrow> bool" where
  "set_pair a b x d d' \<longleftrightarrow>
     (\<forall>u v. db_rel d' u v =
        (if (u, v) = (a, b) then x else if (u, v) = (b, a) then oppositeDesc x else db_rel d u v))"

lemma set_pair_id:
  assumes "wf_db d" "db_rel d a b = x" shows "set_pair a b x d d"
proof -
  have "db_rel d b a = oppositeDesc x" by (simp only: db_rel_opposite [OF assms(1), of b a] assms(2))
  with assms(2) show ?thesis by (simp add: set_pair_def)
qed

lemma set_pair_flip:
  "set_pair a b x d d' \<Longrightarrow> a \<noteq> b \<Longrightarrow> y = oppositeDesc x \<Longrightarrow> x \<noteq> Self \<Longrightarrow> set_pair b a y d d'"
  by (auto simp: set_pair_def oppositeDesc_involutive)

text \<open>
  What each write of the database does to a pair, from the states in which the server uses it:
  the flags of the relations are computed on the sets of rows.
\<close>

lemma set_pair_rels:
  assumes "tables_ok d" "tables_ok d'" "x \<noteq> Self"
    and "rel_desc (rels d') a b = flag_of x" "rel_desc (rels d') b a = flag_of (oppositeDesc x)"
    and "\<And>u v. (u, v) \<noteq> (a, b) \<Longrightarrow> (u, v) \<noteq> (b, a) \<Longrightarrow> rel_desc (rels d') u v = rel_desc (rels d) u v"
  shows "set_pair a b x d d'"
proof -
  have "oppositeDesc x \<noteq> Self" by (cases x) auto
  then have "db_rel d' a b = x" "db_rel d' b a = oppositeDesc x"
    using assms by (simp_all add: db_rel_iff db_desc_rels)
  moreover have "db_rel d' u v = db_rel d u v" if "(u, v) \<noteq> (a, b)" "(u, v) \<noteq> (b, a)" for u v
    using assms(1,2) assms(6) [OF that] by (simp add: db_rel_def db_desc_rels)
  ultimately show ?thesis unfolding set_pair_def by auto
qed

lemma rel_pair:
  assumes "wf_db d" "db_rel d a b = x" "rels d = (B, F, A)"
  shows "rel_desc (B, F, A) a b = flag_of x" "rel_desc (B, F, A) b a = flag_of (oppositeDesc x)"
proof -
  have "tables_ok d" using assms(1) by (simp add: wf_db_rels)
  note r = db_desc_rels [OF this, unfolded assms(3), symmetric]
  show "rel_desc (B, F, A) a b = flag_of x" by (simp add: r db_desc_flag assms(2))
  show "rel_desc (B, F, A) b a = flag_of (oppositeDesc x)"
    by (simp only: r db_desc_flag db_rel_opposite [OF assms(1), of b a] assms(2))
qed

lemma rel_desc_branch:
  "rel_desc (B, F, A) a b = flag_of NoPath \<Longrightarrow> (a, b) \<notin> B \<and> (b, a) \<notin> B \<and> (a, b) \<notin> F \<and> (a, b) \<notin> A \<and> (b, a) \<notin> A"
  "rel_desc (B, F, A) a b = flag_of Friend \<Longrightarrow> (a, b) \<notin> B \<and> (b, a) \<notin> B \<and> (a, b) \<in> F"
  "rel_desc (B, F, A) a b = flag_of Apply \<Longrightarrow> (a, b) \<notin> B \<and> (b, a) \<notin> B \<and> (a, b) \<notin> F \<and> (a, b) \<in> A"
  "rel_desc (B, F, A) a b = flag_of Applied \<Longrightarrow> (a, b) \<notin> B \<and> (b, a) \<notin> B \<and> (a, b) \<notin> F \<and> (b, a) \<in> A"
  "rel_desc (B, F, A) a b = flag_of Block \<Longrightarrow> (a, b) \<in> B \<and> (b, a) \<notin> B"
  "rel_desc (B, F, A) a b = flag_of Blocked \<Longrightarrow> (a, b) \<notin> B \<and> (b, a) \<in> B"
  "rel_desc (B, F, A) a b = flag_of BiBlock \<Longrightarrow> (a, b) \<in> B \<and> (b, a) \<in> B"
  by (simp_all add: rel_desc_def split: if_splits)

lemma rel_desc_members:
  assumes "wf_rels (B, F, A)"
  shows "rel_desc (B, F, A) a b = flag_of NoPath \<Longrightarrow> (a, b) \<notin> B \<and> (b, a) \<notin> B \<and> (a, b) \<notin> F \<and> (b, a) \<notin> F \<and> (a, b) \<notin> A \<and> (b, a) \<notin> A"
    and "rel_desc (B, F, A) a b = flag_of Friend \<Longrightarrow> (a, b) \<notin> B \<and> (b, a) \<notin> B \<and> (a, b) \<in> F \<and> (b, a) \<in> F \<and> (a, b) \<notin> A \<and> (b, a) \<notin> A"
    and "rel_desc (B, F, A) a b = flag_of Apply \<Longrightarrow> (a, b) \<notin> B \<and> (b, a) \<notin> B \<and> (a, b) \<notin> F \<and> (b, a) \<notin> F \<and> (a, b) \<in> A \<and> (b, a) \<notin> A"
    and "rel_desc (B, F, A) a b = flag_of Applied \<Longrightarrow> (a, b) \<notin> B \<and> (b, a) \<notin> B \<and> (a, b) \<notin> F \<and> (b, a) \<notin> F \<and> (a, b) \<notin> A \<and> (b, a) \<in> A"
    and "rel_desc (B, F, A) a b = flag_of Block \<Longrightarrow> (a, b) \<in> B \<and> (b, a) \<notin> B \<and> (a, b) \<notin> F \<and> (b, a) \<notin> F \<and> (a, b) \<notin> A \<and> (b, a) \<notin> A"
    and "rel_desc (B, F, A) a b = flag_of Blocked \<Longrightarrow> (a, b) \<notin> B \<and> (b, a) \<in> B \<and> (a, b) \<notin> F \<and> (b, a) \<notin> F \<and> (a, b) \<notin> A \<and> (b, a) \<notin> A"
    and "rel_desc (B, F, A) a b = flag_of BiBlock \<Longrightarrow> (a, b) \<in> B \<and> (b, a) \<in> B \<and> (a, b) \<notin> F \<and> (b, a) \<notin> F \<and> (a, b) \<notin> A \<and> (b, a) \<notin> A"
  using wf_relsD [OF assms, of a b] wf_relsD [OF assms, of b a]
  by (blast dest: rel_desc_branch)+

lemma wf_rels_ops:
  assumes "wf_rels (B, F, A)" "a \<noteq> b"
  shows "(a, b) \<notin> B \<and> (b, a) \<notin> B \<and> (a, b) \<notin> F \<and> (b, a) \<notin> F \<and> (b, a) \<notin> A \<Longrightarrow> wf_rels (B, F, insert (a, b) A)"
    and "wf_rels (B, F, A - {(a, b)})"
    and "(a, b) \<notin> B \<and> (b, a) \<notin> B \<and> (a, b) \<notin> A \<and> (b, a) \<notin> A \<Longrightarrow> wf_rels (B, insert (b, a) (insert (a, b) F), A)"
    and "wf_rels (B, F - {(a, b)} - {(b, a)}, A)"
    and "(a, b) \<notin> F \<and> (b, a) \<notin> F \<and> (a, b) \<notin> A \<and> (b, a) \<notin> A \<Longrightarrow> wf_rels (insert (a, b) B, F, A)"
    and "wf_rels (B - {(a, b)}, F, A)"
  using assms by (simp_all only: wf_rels_def prod.case) blast+


definition db_step :: "u32 \<Rightarrow> u32 \<Rightarrow> BuddyDesc \<Rightarrow> buddy_db \<Rightarrow> buddy_db \<Rightarrow> bool" where
  "db_step a b x d d' \<longleftrightarrow> wf_db d' \<and> set_pair a b x d d'"

lemma db_stepI:
  assumes "wf_db d" "x \<noteq> Self" "a \<noteq> b" "tables_ok d'" "rels d' = (B', F', A')" "wf_rels (B', F', A')"
    and "rel_desc (B', F', A') a b = flag_of x"
    and "\<And>u v. (u, v) \<noteq> (a, b) \<Longrightarrow> (u, v) \<noteq> (b, a) \<Longrightarrow> rel_desc (B', F', A') u v = rel_desc (rels d) u v"
  shows "db_step a b x d d'"
proof -
  have "set_pair a b x d d'"
    by (rule set_pair_rels)
       (use assms rel_desc_opposite [OF assms(6,7,2)] in \<open>simp_all add: wf_db_rels\<close>)
  with assms show ?thesis by (simp add: db_step_def wf_db_rels)
qed

lemma rel_desc_other:
  assumes "(u, v) \<noteq> (a, b)" "(u, v) \<noteq> (b, a)"
  shows "rel_desc (insert (a, b) B, F, A) u v = rel_desc (B, F, A) u v"
    "rel_desc (B - {(a, b)}, F, A) u v = rel_desc (B, F, A) u v"
    "rel_desc (B, insert (b, a) (insert (a, b) F), A) u v = rel_desc (B, F, A) u v"
    "rel_desc (B, F - {(a, b)} - {(b, a)}, A) u v = rel_desc (B, F, A) u v"
    "rel_desc (B, F, insert (a, b) A) u v = rel_desc (B, F, A) u v"
    "rel_desc (B, F, A - {(a, b)}) u v = rel_desc (B, F, A) u v"
proof -
  have ne: "(u, v) \<noteq> (a, b)" "(v, u) \<noteq> (a, b)" "(u, v) \<noteq> (b, a)" "(v, u) \<noteq> (b, a)"
    using assms by auto
  show "rel_desc (insert (a, b) B, F, A) u v = rel_desc (B, F, A) u v"
    "rel_desc (B - {(a, b)}, F, A) u v = rel_desc (B, F, A) u v"
    "rel_desc (B, insert (b, a) (insert (a, b) F), A) u v = rel_desc (B, F, A) u v"
    "rel_desc (B, F - {(a, b)} - {(b, a)}, A) u v = rel_desc (B, F, A) u v"
    "rel_desc (B, F, insert (a, b) A) u v = rel_desc (B, F, A) u v"
    "rel_desc (B, F, A - {(a, b)}) u v = rel_desc (B, F, A) u v"
    by (simp_all only: rel_desc_def prod.case insert_iff Diff_iff empty_iff ne simp_thms)
qed

lemma db_insert_apply:
  assumes "wf_db d" "a \<noteq> b" "db_rel d a b = NoPath \<or> db_rel d a b = Apply"
  shows "db_step a b Apply d (insertBuddyApplyN a b d)"
proof -
  obtain B F A where r: "rels d = (B, F, A)" by (cases "rels d")
  have w: "wf_rels (B, F, A)" using assms(1) by (simp add: wf_db_rels r)
  note rp = rel_pair [OF assms(1) refl r, of a b]
  have m: "(a, b) \<notin> B \<and> (b, a) \<notin> B \<and> (a, b) \<notin> F \<and> (b, a) \<notin> F \<and> (b, a) \<notin> A"
    using rp(1) assms(3) rel_desc_members(1,3) [OF w, of a b] by auto
  show ?thesis
    by (rule db_stepI [OF assms(1) _ assms(2) _ _ wf_rels_ops(1) [OF w assms(2) m]])
       (use assms(1,2) m in \<open>simp_all add: wf_db_rels op_rels r rel_desc_other\<close>, simp add: rel_desc_def)
qed

lemma db_delete_apply:
  assumes "wf_db d" "a \<noteq> b" "db_rel d a b = Apply"
  shows "db_step a b NoPath d (deleteBuddyApplyN a b d)"
proof -
  obtain B F A where r: "rels d = (B, F, A)" by (cases "rels d")
  have w: "wf_rels (B, F, A)" using assms(1) by (simp add: wf_db_rels r)
  note m = rel_desc_members(3) [OF w rel_pair(1) [OF assms(1,3) r]]
  show ?thesis
    by (rule db_stepI [OF assms(1) _ assms(2) _ _ wf_rels_ops(2) [OF w assms(2)]])
       (use assms(1,2) m in \<open>simp_all add: wf_db_rels op_rels r rel_desc_other\<close>, simp add: rel_desc_def)
qed

lemma db_insert_friend:
  assumes "wf_db d" "a \<noteq> b" "db_rel d a b = NoPath"
  shows "db_step a b Friend d (insertRelationBi a b d)"
proof -
  obtain B F A where r: "rels d = (B, F, A)" by (cases "rels d")
  have w: "wf_rels (B, F, A)" using assms(1) by (simp add: wf_db_rels r)
  note m = rel_desc_members(1) [OF w rel_pair(1) [OF assms(1,3) r]]
  have "(a, b) \<notin> B \<and> (b, a) \<notin> B \<and> (a, b) \<notin> A \<and> (b, a) \<notin> A" using m by blast
  note w' = wf_rels_ops(3) [OF w assms(2) this]
  show ?thesis
    by (rule db_stepI [OF assms(1) _ assms(2) _ _ w'])
       (use assms(1,2) m in \<open>simp_all add: wf_db_rels op_rels r rel_desc_other\<close>, simp add: rel_desc_def)
qed

lemma db_delete_friend:
  assumes "wf_db d" "a \<noteq> b" "db_rel d a b = Friend"
  shows "db_step a b NoPath d (deleteRelationBi a b d)"
proof -
  obtain B F A where r: "rels d = (B, F, A)" by (cases "rels d")
  have w: "wf_rels (B, F, A)" using assms(1) by (simp add: wf_db_rels r)
  note m = rel_desc_members(2) [OF w rel_pair(1) [OF assms(1,3) r]]
  show ?thesis
    by (rule db_stepI [OF assms(1) _ assms(2) _ _ wf_rels_ops(4) [OF w assms(2)]])
       (use assms(1,2) m in \<open>simp_all add: wf_db_rels op_rels r rel_desc_other\<close>, simp add: rel_desc_def)
qed

lemma db_insert_block:
  assumes "wf_db d" "a \<noteq> b"
    and "db_rel d a b = NoPath \<and> x = Block \<or> db_rel d a b = Blocked \<and> x = BiBlock"
  shows "db_step a b x d (insertBlock a b d)"
proof -
  obtain B F A where r: "rels d = (B, F, A)" by (cases "rels d")
  have w: "wf_rels (B, F, A)" using assms(1) by (simp add: wf_db_rels r)
  note rp = rel_pair [OF assms(1) refl r, of a b]
  have m: "(a, b) \<notin> F \<and> (b, a) \<notin> F \<and> (a, b) \<notin> A \<and> (b, a) \<notin> A" "(a, b) \<notin> B" "(b, a) \<in> B \<longleftrightarrow> x = BiBlock"
    using rp(1) assms(3) rel_desc_members(1,6) [OF w, of a b] by auto
  have x: "x \<noteq> Self" "x = Block \<or> x = BiBlock" using assms(3) by auto
  have nb: "(a, b) \<notin> set (relation_block d)" using m(2) r by (simp add: rels_def)
  show ?thesis
    by (rule db_stepI [OF assms(1) x(1) assms(2) _ _ wf_rels_ops(5) [OF w assms(2) m(1)]])
       (use assms(1,2) m x nb in \<open>simp_all add: wf_db_rels op_rels r rel_desc_other\<close>, auto simp: rel_desc_def)
qed

lemma db_delete_block:
  assumes "wf_db d" "a \<noteq> b"
    and "db_rel d a b = Block \<and> x = NoPath \<or> db_rel d a b = BiBlock \<and> x = Blocked"
  shows "db_step a b x d (deleteBlock a b d)"
proof -
  obtain B F A where r: "rels d = (B, F, A)" by (cases "rels d")
  have w: "wf_rels (B, F, A)" using assms(1) by (simp add: wf_db_rels r)
  note rp = rel_pair [OF assms(1) refl r, of a b]
  have m: "(a, b) \<notin> F \<and> (b, a) \<notin> F \<and> (a, b) \<notin> A \<and> (b, a) \<notin> A" "(b, a) \<in> B \<longleftrightarrow> x = Blocked"
    using rp(1) assms(3) rel_desc_members(5,7) [OF w, of a b] by auto
  have x: "x \<noteq> Self" "x = NoPath \<or> x = Blocked" using assms(3) by auto
  show ?thesis
    by (rule db_stepI [OF assms(1) x(1) assms(2) _ _ wf_rels_ops(6) [OF w assms(2)]])
       (use assms(1,2) m x in \<open>simp_all add: wf_db_rels op_rels r rel_desc_other\<close>, auto simp: rel_desc_def)
qed

lemma db_delete_apply_absent:
  assumes "wf_db d" "db_rel d b a \<noteq> Applied"
  shows "deleteBuddyApplyN a b d = d"
proof (rule deleteBuddyApplyN_absent)
  show t: "tables_ok d" using assms(1) by (simp add: wf_db_rels)
  obtain B F A where r: "rels d = (B, F, A)" by (cases "rels d")
  have w: "wf_rels (B, F, A)" using assms(1) by (simp add: wf_db_rels r)
  have "(a, b) \<notin> A"
  proof
    assume "(a, b) \<in> A"
    then have "rel_desc (B, F, A) b a = flag_of Applied"
      using wf_relsD [OF w, of a b] wf_relsD [OF w, of b a] by (auto simp: rel_desc_def)
    then show False
      using assms(2) t by (simp add: db_rel_iff db_desc_rels r)
  qed
  then show "(a, b) \<notin> set (apply_applicant d)" using r by (simp add: rels_def)
qed

lemma db_step_trans:
  "db_step a b x d d' \<Longrightarrow> db_step a b y d' d'' \<Longrightarrow> db_step a b y d d''"
  by (auto simp: db_step_def set_pair_def)

lemma db_step_flip:
  "db_step a b x d d' \<Longrightarrow> a \<noteq> b \<Longrightarrow> x \<noteq> Self \<Longrightarrow> db_step b a (oppositeDesc x) d d'"
  unfolding db_step_def by (blast intro: set_pair_flip)

lemma db_step_rel: "db_step a b x d d' \<Longrightarrow> db_rel d' a b = x"
  by (simp add: db_step_def set_pair_def)

end
