(* ===== verification/BuddyRefine.thy ===== *)
theory BuddyRefine
  imports BuddyInv
begin

text \<open>
  Correctness of the requests of the relation server: \<open>coherent\<close> says that every cached
  holder is what the tables say, \<open>spec_op\<close> is the abstract transition of a pair of users, and
  every request is shown to keep the invariants and to refine that transition.
\<close>

section \<open>Coherence of the caches\<close>

definition agrees :: "buddy_db \<Rightarrow> u32 \<Rightarrow> EntryListHolder \<Rightarrow> bool" where
  "agrees d u h \<longleftrightarrow> holder_wf h \<and> hfrom h = u \<and> (\<forall>v. hview h v = flag_of (db_rel d u v))"

definition coherent :: "buddy_db \<Rightarrow> (u32 \<rightharpoonup> EntryListHolder) \<Rightarrow> bool" where
  "coherent d c \<longleftrightarrow> (\<forall>u h. c u = Some h \<longrightarrow> agrees d u h)"

text \<open>The state in which only the entry of \<open>u\<close> for \<open>v\<close> may be out of date.\<close>

definition coherent_but :: "u32 \<Rightarrow> u32 \<Rightarrow> buddy_db \<Rightarrow> (u32 \<rightharpoonup> EntryListHolder) \<Rightarrow> bool" where
  "coherent_but u v d c \<longleftrightarrow> (\<forall>x h. c x = Some h \<longrightarrow>
     holder_wf h \<and> hfrom h = x \<and> (\<forall>y. (x, y) \<noteq> (u, v) \<longrightarrow> hview h y = flag_of (db_rel d x y)))"

definition ok :: "server \<Rightarrow> bool" where
  "ok s \<longleftrightarrow> wf_db (db s) \<and> coherent (db s) (cache s)"

text \<open>A holder operation that writes the entry for one user.\<close>

definition writes :: "(EntryListHolder \<Rightarrow> EntryListHolder) \<Rightarrow> u32 \<Rightarrow> BuddyDesc \<Rightarrow> BuddyDesc \<Rightarrow> bool" where
  "writes f v old new \<longleftrightarrow> (\<forall>h. holder_wf h \<and> hview h v = flag_of old \<longrightarrow>
     holder_wf (f h) \<and> hfrom (f h) = hfrom h \<and> hview (f h) = (hview h)(v := flag_of new))"

lemma coherent_local:
  assumes "coherent d c" "set_pair a b x d d'" "a \<noteq> b" "writes f b (db_rel d a b) x"
  shows "coherent_but b a d' (c(a := map_option f (c a)))"
  using assms unfolding coherent_but_def coherent_def agrees_def writes_def set_pair_def
  by (auto split: if_splits)

lemma coherent_remote:
  assumes "coherent_but b a d c" "a \<noteq> b" "writes f a old (db_rel d b a)"
    and "\<And>h. c b = Some h \<Longrightarrow> hview h a = flag_of old"
  shows "coherent d (c(b := map_option f (c b)))"
  using assms unfolding coherent_but_def coherent_def agrees_def writes_def
  by (auto split: if_splits)

lemma writes_add: "new \<noteq> NoPath \<Longrightarrow> new \<noteq> Self \<Longrightarrow> d = translateInt new \<Longrightarrow>
  writes (holder_add (mkEntry v d)) v old new"
  by (simp add: writes_def holder_add_wf holder_add_view flag_of_def)

lemma writes_remove:
  assumes "flag_of old = Some x" "(k AND m) = (x AND m)"
  shows "writes (holder_remove_mask (mkEntry v k) (mkEntry MAX_INT m)) v old NoPath"
  using assms by (simp add: writes_def holder_remove_mask_wf holder.rem_hit)

lemma writes_set:
  assumes "flag_of old = Some x" "(k AND m) = (x AND m)"
    "flag_of new = Some ((x AND NOT vm) OR (y AND vm))"
  shows "writes (holder_set_mask (mkEntry v k) (mkEntry MAX_INT m) (mkEntry w y) (mkEntry z vm)) v old new"
  using assms holder.upd_hit [of _ v x k m "mkEntry MAX_INT y"]
  by (simp add: writes_def holder_set_mask_wf)

lemma locate_ok:
  assumes "ok s" "locateEntryListHolder u s = (h, s')"
  shows "ok s'" "db s' = db s" "remote_up s' = remote_up s" "cache s' u = Some h"
    "hview h v = flag_of (db_rel (db s) u v)" "agrees (db s) u h"
proof -
  have new: "agrees (db s) u (fst (create u (db s)))"
    by (simp add: agrees_def create_wf create_from create_view db_desc_flag)
  show "ok s'" "db s' = db s" "remote_up s' = remote_up s" "cache s' u = Some h"
    and a: "agrees (db s) u h"
    using assms new unfolding locateEntryListHolder_def ok_def coherent_def execute_def
    by (auto split: option.splits prod.splits if_splits)
  then show "hview h v = flag_of (db_rel (db s) u v)" by (simp add: agrees_def)
qed

section \<open>The synchronised calls\<close>

text \<open>The cache after the local and after the remote part of a call.\<close>

definition on_cache :: "u32 \<Rightarrow> (EntryListHolder \<Rightarrow> EntryListHolder) \<Rightarrow> server \<Rightarrow> server \<Rightarrow> bool" where
  "on_cache u f s s' \<longleftrightarrow> db s' = db s \<and> remote_up s' = remote_up s \<and>
     cache s' = (cache s)(u := map_option f (cache s u))"

lemma put_on_cache:
  "cache s u = Some h \<Longrightarrow> on_cache u f s (put_holder u (f h) s)"
  "cache s u = None \<Longrightarrow> on_cache u f s s"
  by (auto simp: on_cache_def put_holder_def)

lemma on_cache_execute [simp]:
  "on_cache u f s (execute t s') \<longleftrightarrow> on_cache u f s s'"
  "on_cache u f s (syncUserCountGuestRequest v s') \<longleftrightarrow> on_cache u f s s'"
  by (simp_all add: on_cache_def execute_def syncUserCountGuestRequest_def)

lemma contexts [simp]:
  "isLocalSync (buildContext False bi)" "\<not> isLocalSync (buildContext True bi)"
  "isBiblock (buildContext r bi) = bi"
  by (simp_all add: isLocalSync_def isBiblock_def buildContext_def)

text \<open>
  The pattern of every synchronised call: the acting user's holder is written locally, the
  peer's one remotely; when the peer is out of reach only the peer's entry is left behind.
\<close>

lemma sync_call_correct:
  assumes "coherent d0 (cache s)" "db_step a b x d0 (db s)" "a \<noteq> b" "x \<noteq> Self"
    and "\<And>s. on_cache a f s (act (buildContext False bi) s)"
    and "\<And>s. on_cache b g s (act (buildContext True bi) s)"
    and "writes f b (db_rel d0 a b) x" "writes g a (db_rel d0 b a) (oppositeDesc x)"
    and "sync_call oper bi act b p q s = (r, s')"
  shows "r \<longleftrightarrow> remote_up s b" "db s' = db s" "remote_up s' = remote_up s"
    "r \<Longrightarrow> ok s'" "\<not> r \<Longrightarrow> coherent_but b a (db s) (cache s')"
    "r \<Longrightarrow> events s' = events (act (buildContext True bi) (act (buildContext False bi) s)) @
             [Notify oper p q (context_relation oper bi)]"
proof -
  let ?s1 = "act (buildContext False bi) s" and ?s2 = "act (buildContext True bi) (act (buildContext False bi) s)"
  note l = assms(5) [of s, unfolded on_cache_def] and m = assms(6) [of ?s1, unfolded on_cache_def]
  have step: "set_pair a b x d0 (db s)" "wf_db (db s)" using assms(2) by (simp_all add: db_step_def)
  note c1 = coherent_local [OF assms(1) step(1) assms(3,7)]
  have "db_rel (db s) b a = oppositeDesc x" using step(1) assms(3) by (simp add: set_pair_def)
  moreover have "hview h a = flag_of (db_rel d0 b a)" if "((cache s)(a := map_option f (cache s a))) b = Some h" for h
    using that assms(1,3) by (simp add: coherent_def agrees_def)
  ultimately have c2: "coherent (db s) (cache ?s2)"
    using coherent_remote [OF c1 assms(3), of g "db_rel d0 b a"] assms(8) l m by simp
  show "r \<longleftrightarrow> remote_up s b" "db s' = db s" "remote_up s' = remote_up s"
    using assms(9) l m by (auto simp: sync_call_def Let_def split: if_splits)
  show "r \<Longrightarrow> ok s'" using assms(9) l m c2 step(2)
    by (auto simp: sync_call_def Let_def ok_def split: if_splits)
  show "\<not> r \<Longrightarrow> coherent_but b a (db s) (cache s')" using assms(9) l c1
    by (auto simp: sync_call_def Let_def split: if_splits)
  show "r \<Longrightarrow> events s' = events ?s2 @ [Notify oper p q (context_relation oper bi)]"
    using assms(9) by (auto simp: sync_call_def Let_def split: if_splits)
qed


lemma on_cache_found:
  assumes "case findEntryListHolder u s of None \<Rightarrow> s' = s \<or> (\<exists>t. s' = execute t s)
     | Some h \<Rightarrow> s' = put_holder u (f h) s \<or> (\<exists>t. s' = execute t (put_holder u (f h) s))"
  shows "on_cache u f s s'"
  using assms put_on_cache [where s = s and u = u and f = f]
  by (auto simp: findEntryListHolder_def split: option.splits)

lemmas sync_defs = sync_syncAddFriend_def sync_syncAddApply_def sync_syncAcceptApply_def
  sync_syncDenyApply_def sync_syncRemoveFriend_def sync_syncAddBlock_def sync_syncRemoveBlock_def
  syncUserCountGuestRequest_def

lemma sync_local:
  "on_cache f (holder_add (mkEntry t DESC_FRIEND)) s (sync_syncAddFriend f t (buildContext False bi) s)"
  "on_cache p (holder_add (mkEntry q DESC_APPLY)) s (sync_syncAddApply p q (buildContext False bi) s)"
  "on_cache q (holder_set_mask (mkEntry p DESC_APPLIED) (mkEntry MAX_INT DESC_MASK_APPLY)
       (mkEntry p DESC_FRIEND) (mkEntry MAX_INT (DESC_FRIEND OR DESC_MASK_APPLY))) s
     (sync_syncAcceptApply p q (buildContext False bi) s)"
  "on_cache q (holder_remove_mask (mkEntry p DESC_APPLIED) (mkEntry MAX_INT DESC_MASK_APPLY)) s
     (sync_syncDenyApply p q (buildContext False bi) s)"
  "on_cache f (holder_remove_mask (mkEntry t DESC_FRIEND) (mkEntry MAX_INT DESC_MASK_FRIEND)) s
     (sync_syncRemoveFriend f t (buildContext False bi) s)"
  "on_cache f (holder_add (mkEntry t (if bi then DESC_BLOCKED OR DESC_BLOCK else DESC_BLOCK))) s
     (sync_syncAddBlock f t (buildContext False bi) s)"
  "on_cache f (if bi then holder_set_mask (mkEntry t DESC_BLOCK) (mkEntry MAX_INT DESC_MASK_BLOCK)
         (mkEntry t (DESC_BLOCK AND NOT DESC_BLOCK)) (mkEntry 0 DESC_MASK_BLOCK)
       else holder_remove_mask (mkEntry t DESC_BLOCK) (mkEntry MAX_INT DESC_MASK_BLOCK)) s
     (sync_syncRemoveBlock f t (buildContext False bi) s)"
  by (rule on_cache_found,
      auto simp: sync_defs Let_def mkEntry_def split: option.split)+

lemma sync_remote:
  "on_cache t (holder_add (mkEntry f DESC_FRIEND)) s (sync_syncAddFriend f t (buildContext True bi) s)"
  "on_cache q (holder_add (mkEntry p DESC_APPLIED)) s (sync_syncAddApply p q (buildContext True bi) s)"
  "on_cache p (holder_set_mask (mkEntry q DESC_APPLY) (mkEntry MAX_INT DESC_MASK_APPLY)
       (mkEntry q DESC_FRIEND) (mkEntry MAX_INT (DESC_FRIEND OR DESC_MASK_APPLY))) s
     (sync_syncAcceptApply p q (buildContext True bi) s)"
  "on_cache p (holder_remove_mask (mkEntry q DESC_APPLY) (mkEntry MAX_INT DESC_MASK_APPLY)) s
     (sync_syncDenyApply p q (buildContext True bi) s)"
  "on_cache t (holder_remove_mask (mkEntry f DESC_FRIEND) (mkEntry MAX_INT DESC_MASK_FRIEND)) s
     (sync_syncRemoveFriend f t (buildContext True bi) s)"
  "on_cache t (holder_add (mkEntry f (if bi then DESC_BLOCK OR DESC_BLOCKED else DESC_BLOCKED))) s
     (sync_syncAddBlock f t (buildContext True bi) s)"
  "on_cache t (if bi then holder_set_mask (mkEntry f DESC_BLOCKED) (mkEntry MAX_INT DESC_MASK_BLOCKED)
         (mkEntry f (DESC_BLOCKED AND NOT DESC_BLOCKED)) (mkEntry 0 DESC_MASK_BLOCKED)
       else holder_remove_mask (mkEntry f DESC_BLOCKED) (mkEntry MAX_INT DESC_MASK_BLOCKED)) s
     (sync_syncRemoveBlock f t (buildContext True bi) s)"
  by (rule on_cache_found,
      auto simp: sync_defs Let_def mkEntry_def split: option.split)+


section \<open>What a request achieves\<close>

text \<open>
  The relation of \<open>a\<close> to \<open>b\<close> becomes \<open>x\<close>, every other pair keeps its relation; the request
  answers \<open>st\<close> with all caches coherent, or it ends with an exception because the peer is out
  of reach, and then only the peer's cached entry for the acting user is behind.
\<close>

definition refined :: "u32 \<Rightarrow> u32 \<Rightarrow> BuddyDesc \<Rightarrow> OpState \<Rightarrow> server \<Rightarrow> OpState option \<times> server \<Rightarrow> bool" where
  "refined a b x st s res \<longleftrightarrow>
     db_step a b x (db s) (db (snd res)) \<and> remote_up (snd res) = remote_up s \<and>
     (case fst res of
        Some y \<Rightarrow> y = st \<and> ok (snd res)
      | None \<Rightarrow> \<not> remote_up s b \<and> coherent_but b a (db (snd res)) (cache (snd res)))"

lemma refined_same_db:
  "db s' = db s \<Longrightarrow> remote_up s' = remote_up s \<Longrightarrow> refined a b x st s' res \<Longrightarrow> refined a b x st s res"
  by (auto simp: refined_def split: option.splits)

lemma refined_answer:
  "ok s \<Longrightarrow> db_rel (db s) a b = x \<Longrightarrow> st = mkOpState y z \<Longrightarrow> refined a b x st s (answer y z s)"
  by (simp add: refined_def answer_def ok_def db_step_def set_pair_id)

lemma reload_ok: "ok s \<Longrightarrow> ok (reload u s)"
  by (auto simp: reload_def sync_reload_def removeEntryListHolder_def ok_def coherent_def)

lemma reload_fields [simp]: "db (reload u s) = db s" "remote_up (reload u s) = remote_up s"
  by (simp_all add: reload_def sync_reload_def removeEntryListHolder_def Let_def)

lemma refined_reload:
  "ok s \<Longrightarrow> db_rel (db s) a b = x \<Longrightarrow> st = mkOpState y z \<Longrightarrow> refined a b x st s (answer y z (reload u s))"
  by (rule refined_same_db [of "reload u s", OF reload_fields refined_answer]) (simp_all add: reload_ok)

lemma refined_sync_call:
  assumes "ok s" "db_step a b x (db s) d'" "a \<noteq> b" "x \<noteq> Self" "st = mkOpState y z"
    and "\<And>s. on_cache a f s (act (buildContext False bi) s)"
    and "\<And>s. on_cache b g s (act (buildContext True bi) s)"
    and "writes f b (db_rel (db s) a b) x"
    and "writes g a (oppositeDesc (db_rel (db s) a b)) (oppositeDesc x)"
  shows "refined a b x st s (reply y z (sync_call oper bi act b p q (s\<lparr>db := d'\<rparr>)))"
proof -
  obtain r s' where call: "sync_call oper bi act b p q (s\<lparr>db := d'\<rparr>) = (r, s')" by fastforce
  have w: "wf_db (db s)" and c: "coherent (db s) (cache (s\<lparr>db := d'\<rparr>))"
    using assms(1) by (simp_all add: ok_def)
  have st: "db_step a b x (db s) (db (s\<lparr>db := d'\<rparr>))" using assms(2) by simp
  note k = sync_call_correct [OF c st assms(3,4,6,7,8)
      assms(9) [folded db_rel_opposite [OF w, of b a]] call]
  from k assms(2,5) show ?thesis
    by (cases r) (simp_all add: refined_def reply_def call)
qed

lemma update_db_fuse: "update_db f s = s\<lparr>db := f (db s)\<rparr>"
  by (simp add: update_db_def)

lemma writes_friend_of_apply:
  "writes (holder_set_mask (mkEntry v DESC_APPLIED) (mkEntry MAX_INT DESC_MASK_APPLY)
     (mkEntry v DESC_FRIEND) (mkEntry MAX_INT (DESC_FRIEND OR DESC_MASK_APPLY))) v Applied Friend"
  "writes (holder_set_mask (mkEntry v DESC_APPLY) (mkEntry MAX_INT DESC_MASK_APPLY)
     (mkEntry v DESC_FRIEND) (mkEntry MAX_INT (DESC_FRIEND OR DESC_MASK_APPLY))) v Apply Friend"
  by (rule writes_set [OF flag_of_simps(4)]; simp add: desc_consts)
     (rule writes_set [OF flag_of_simps(3)]; simp add: desc_consts)

lemma writes_unblock:
  "writes (holder_set_mask (mkEntry v DESC_BLOCK) (mkEntry MAX_INT DESC_MASK_BLOCK)
     (mkEntry v (DESC_BLOCK AND NOT DESC_BLOCK)) (mkEntry 0 DESC_MASK_BLOCK)) v BiBlock Blocked"
  "writes (holder_set_mask (mkEntry v DESC_BLOCKED) (mkEntry MAX_INT DESC_MASK_BLOCKED)
     (mkEntry v (DESC_BLOCKED AND NOT DESC_BLOCKED)) (mkEntry 0 DESC_MASK_BLOCKED)) v BiBlock Block"
  "writes (holder_remove_mask (mkEntry v DESC_BLOCK) (mkEntry MAX_INT DESC_MASK_BLOCK)) v Block NoPath"
  "writes (holder_remove_mask (mkEntry v DESC_BLOCKED) (mkEntry MAX_INT DESC_MASK_BLOCKED)) v Blocked NoPath"
  by (rule writes_set [OF flag_of_simps(7)] writes_remove [OF flag_of_simps(5)]
      writes_remove [OF flag_of_simps(6)]; simp add: desc_consts)+

lemma writes_drop:
  "writes (holder_remove_mask (mkEntry v DESC_APPLIED) (mkEntry MAX_INT DESC_MASK_APPLY)) v Applied NoPath"
  "writes (holder_remove_mask (mkEntry v DESC_APPLY) (mkEntry MAX_INT DESC_MASK_APPLY)) v Apply NoPath"
  "writes (holder_remove_mask (mkEntry v DESC_FRIEND) (mkEntry MAX_INT DESC_MASK_FRIEND)) v Friend NoPath"
  by (rule writes_remove [OF flag_of_simps(4)] writes_remove [OF flag_of_simps(3)]
      writes_remove [OF flag_of_simps(2)]; simp add: desc_consts)+

text \<open>The seven synchronised calls after the write of the database.\<close>

lemma refined_syncs:
  assumes "ok s" "a \<noteq> b" "st = mkOpState y z"
  shows "db_step a b Friend (db s) d' \<Longrightarrow>
      refined a b Friend st s (reply y z (syncAddFriend a b (s\<lparr>db := d'\<rparr>)))"
    and "db_step a b Apply (db s) d' \<Longrightarrow>
      refined a b Apply st s (reply y z (syncAddApply a b (s\<lparr>db := d'\<rparr>)))"
    and "db_step a b Friend (db s) d' \<Longrightarrow> db_rel (db s) a b = Applied \<Longrightarrow>
      refined a b Friend st s (reply y z (syncAcceptApply b a (s\<lparr>db := d'\<rparr>)))"
    and "db_step a b NoPath (db s) d' \<Longrightarrow> db_rel (db s) a b = Applied \<Longrightarrow>
      refined a b NoPath st s (reply y z (syncDenyApply b a (s\<lparr>db := d'\<rparr>)))"
    and "db_step a b NoPath (db s) d' \<Longrightarrow> db_rel (db s) a b = Friend \<Longrightarrow>
      refined a b NoPath st s (reply y z (syncRemoveFriend a b (s\<lparr>db := d'\<rparr>)))"
    and "db_step a b Block (db s) d' \<Longrightarrow>
      refined a b Block st s (reply y z (syncAddBlock a b False (s\<lparr>db := d'\<rparr>)))"
    and "db_step a b BiBlock (db s) d' \<Longrightarrow>
      refined a b BiBlock st s (reply y z (syncAddBlock a b True (s\<lparr>db := d'\<rparr>)))"
    and "db_step a b NoPath (db s) d' \<Longrightarrow> db_rel (db s) a b = Block \<Longrightarrow>
      refined a b NoPath st s (reply y z (syncRemoveBlock a b False (s\<lparr>db := d'\<rparr>)))"
    and "db_step a b Blocked (db s) d' \<Longrightarrow> db_rel (db s) a b = BiBlock \<Longrightarrow>
      refined a b Blocked st s (reply y z (syncRemoveBlock a b True (s\<lparr>db := d'\<rparr>)))"
  unfolding syncAddFriend_def syncAddApply_def syncAcceptApply_def syncDenyApply_def
    syncRemoveFriend_def syncAddBlock_def syncRemoveBlock_def
  subgoal
    by (rule refined_sync_call [OF assms(1) _ assms(2) _ assms(3) sync_local(1) sync_remote(1)])
      (simp_all add: writes_add)
  subgoal
    by (rule refined_sync_call [OF assms(1) _ assms(2) _ assms(3) sync_local(2) sync_remote(2)])
      (simp_all add: writes_add)
  subgoal
    by (rule refined_sync_call [OF assms(1) _ assms(2) _ assms(3) sync_local(3) sync_remote(3)])
      (simp_all add: writes_friend_of_apply)
  subgoal
    by (rule refined_sync_call [OF assms(1) _ assms(2) _ assms(3) sync_local(4) sync_remote(4)])
      (simp_all add: writes_drop)
  subgoal
    by (rule refined_sync_call [OF assms(1) _ assms(2) _ assms(3) sync_local(5) sync_remote(5)])
      (simp_all add: writes_drop)
  subgoal
    by (rule refined_sync_call [OF assms(1) _ assms(2) _ assms(3) sync_local(6) sync_remote(6)])
      (simp_all add: writes_add)
  subgoal
    by (rule refined_sync_call [OF assms(1) _ assms(2) _ assms(3) sync_local(6) sync_remote(6)])
      (simp_all add: writes_add or.commute)
  subgoal
    by (rule refined_sync_call [OF assms(1) _ assms(2) _ assms(3) sync_local(7) sync_remote(7)])
      (simp_all add: writes_unblock)
  subgoal
    by (rule refined_sync_call [OF assms(1) _ assms(2) _ assms(3) sync_local(7) sync_remote(7)])
      (simp_all add: writes_unblock [simplified])
  done


section \<open>The transition of a pair\<close>

text \<open>
  The abstract state of a pair of users is the relation of the first to the second one. The users
  of a request, first the one whose holder is read:
\<close>

fun op_users :: "op \<Rightarrow> u32 \<times> u32" where
  "op_users (AddApply applicant accepter) = (applicant, accepter)"
| "op_users (AcceptApply applicant accepter) = (accepter, applicant)"
| "op_users (DenyApply applicant accepter) = (accepter, applicant)"
| "op_users (RemoveFriend f t) = (f, t)"
| "op_users (AddBlock f t) = (f, t)"
| "op_users (RemoveBlock f t) = (f, t)"
| "op_users (AddFriend f t) = (f, t)"

fun spec_op :: "op \<Rightarrow> BuddyDesc \<Rightarrow> BuddyDesc" where
  "spec_op (AddApply _ _) r =
     (case r of NoPath \<Rightarrow> Apply | Applied \<Rightarrow> Friend | Block \<Rightarrow> Apply | BiBlock \<Rightarrow> Blocked | _ \<Rightarrow> r)"
| "spec_op (AcceptApply _ _) r = (if r = Applied then Friend else r)"
| "spec_op (DenyApply _ _) r = (if r = Applied then NoPath else r)"
| "spec_op (RemoveFriend _ _) r = (if r = Friend then NoPath else r)"
| "spec_op (AddBlock _ _) r = (if r = Blocked \<or> r = BiBlock then BiBlock else Block)"
| "spec_op (RemoveBlock _ _) r = (case r of Block \<Rightarrow> NoPath | BiBlock \<Rightarrow> Blocked | _ \<Rightarrow> r)"
| "spec_op (AddFriend _ _) r = (if r = NoPath then Friend else r)"

text \<open>The second part of the answer is the new relation, except that blocking a user twice
  where both block each other answers \<open>Block\<close>.\<close>

definition spec_reply :: "op \<Rightarrow> BuddyDesc \<Rightarrow> OpState" where
  "spec_reply x r = mkOpState r
     (case x of AddBlock _ _ \<Rightarrow> if r = BiBlock then Block else spec_op x r | _ \<Rightarrow> spec_op x r)"

lemma holder_get_rel:
  "hview h b = flag_of r \<Longrightarrow> r \<noteq> Self \<Longrightarrow> holder_get (mkEntry b k) h =
     (if r = NoPath then [] else [mkEntry b (translateInt r)])"
  by (cases r) (simp_all add: holder_get_view)

lemma addApply_refined:
  assumes "ok s" "a \<noteq> b"
  shows "refined a b (spec_op (AddApply a b) (db_rel (db s) a b))
    (spec_reply (AddApply a b) (db_rel (db s) a b)) s (addApplyWithState a b s)"
proof -
  obtain h s1 where l: "locateEntryListHolder a s = (h, s1)" by fastforce
  note lo = locate_ok [OF assms(1) l]
  have w: "wf_db (db s1)" using lo(1) by (simp add: ok_def)
  note ins = db_insert_apply [OF w assms(2)] and sync = refined_syncs [OF lo(1) assms(2)]
  note g = holder_get_rel [OF lo(5) db_rel_not_self, of b]
  have frd: "db_step a b Friend (db s1) (insertRelationBi a b (deleteBuddyApplyN b a (db s1)))"
    if "db_rel (db s1) a b = Applied"
  proof -
    have "db_step b a NoPath (db s1) (deleteBuddyApplyN b a (db s1))"
      using db_delete_apply [OF w, of b a] assms(2) db_rel_opposite [OF w, of b a] that by simp
    then have *: "db_step a b NoPath (db s1) (deleteBuddyApplyN b a (db s1))"
      using db_step_flip [of b a NoPath] assms(2) by fastforce
    then show ?thesis
      using db_insert_friend [OF _ assms(2) db_step_rel [OF *]] db_step_trans by (auto simp: db_step_def)
  qed
  have app: "db_step a b Apply (db s1) (insertBuddyApplyN a b (deleteBlock a b (db s1)))"
    if "db_rel (db s1) a b = Block"
  proof -
    have *: "db_step a b NoPath (db s1) (deleteBlock a b (db s1))"
      using db_delete_block [OF w assms(2)] that by simp
    then have "db_step a b Apply (deleteBlock a b (db s1)) (insertBuddyApplyN a b (deleteBlock a b (db s1)))"
      using db_insert_apply [OF _ assms(2)] db_step_rel [OF *] by (simp add: db_step_def)
    with * show ?thesis by (rule db_step_trans)
  qed
  note blk = db_delete_block [OF w assms(2), of Blocked]
  show ?thesis
    by (rule refined_same_db [OF lo(2,3)])
       (use g lo(1,2) ins sync frd app blk assms(2) in
         \<open>cases "db_rel (db s) a b"; simp add: addApplyWithState_def l g update_db_fuse
            spec_reply_def refined_answer\<close>)
qed


text \<open>The apply row that \<open>acceptApply\<close> and \<open>denyApply\<close> delete first is there exactly
  when the relation is \<open>Applied\<close>.\<close>

lemma delete_applied:
  assumes "wf_db d" "a \<noteq> b"
  shows "db_rel d a b = Applied \<Longrightarrow> db_step a b NoPath d (deleteBuddyApplyN b a d)"
    and "db_rel d a b \<noteq> Applied \<Longrightarrow> deleteBuddyApplyN b a d = d"
proof -
  assume "db_rel d a b = Applied"
  then have "db_step b a NoPath d (deleteBuddyApplyN b a d)"
    using db_delete_apply [OF assms(1), of b a] assms(2) db_rel_opposite [OF assms(1), of b a] by simp
  then show "db_step a b NoPath d (deleteBuddyApplyN b a d)"
    using db_step_flip [of b a NoPath] assms(2) by fastforce
next
  assume "db_rel d a b \<noteq> Applied"
  then show "deleteBuddyApplyN b a d = d" by (rule db_delete_apply_absent [OF assms(1)])
qed

lemma step_friend:
  assumes "db_step a b NoPath d d'" "a \<noteq> b"
  shows "db_step a b Friend d (insertRelationBi a b d')" "db_step a b Friend d (insertRelationBi b a d')"
proof -
  have w: "wf_db d'" and r: "db_rel d' a b = NoPath"
    using assms(1) by (simp_all add: db_step_def db_step_rel [OF assms(1)])
  show "db_step a b Friend d (insertRelationBi a b d')"
    using db_step_trans [OF assms(1) db_insert_friend [OF w assms(2) r]] .
  have r': "db_rel d' b a = NoPath" using db_rel_opposite [OF w, of b a] r by simp
  have "db_step b a Friend d' (insertRelationBi b a d')"
    using db_insert_friend [OF w _ r'] assms(2) by simp
  from db_step_flip [OF this] have "db_step a b Friend d' (insertRelationBi b a d')"
    using assms(2) by fastforce
  then show "db_step a b Friend d (insertRelationBi b a d')" by (rule db_step_trans [OF assms(1)])
qed

lemma step_block:
  assumes "db_step a b NoPath d d'" "a \<noteq> b"
  shows "db_step a b Block d (insertBlock a b d')"
  using db_step_trans [OF assms(1) db_insert_block [of d' a b Block]] assms db_step_rel [OF assms(1)]
  by (simp add: db_step_def)

lemma acceptApply_refined:
  assumes "ok s" "a \<noteq> b"
  shows "refined a b (spec_op (AcceptApply b a) (db_rel (db s) a b))
    (spec_reply (AcceptApply b a) (db_rel (db s) a b)) s (acceptApplyWithState b a s)"
proof -
  obtain h s1 where l: "locateEntryListHolder a s = (h, s1)" by fastforce
  note lo = locate_ok [OF assms(1) l]
  have w: "wf_db (db s1)" using lo(1) by (simp add: ok_def)
  note sync = refined_syncs [OF lo(1) assms(2)] and del = delete_applied [OF w assms(2)]
  note g = holder_get_rel [OF lo(5) db_rel_not_self, of b]
  have frd: "db_rel (db s1) a b = Applied \<Longrightarrow>
      db_step a b Friend (db s1) (insertRelationBi b a (deleteBuddyApplyN b a (db s1)))"
    using step_friend(2) [OF del(1) assms(2)] .
  have same: "s1\<lparr>db := db s\<rparr> = s1" using lo(2) by simp
  show ?thesis
    by (rule refined_same_db [OF lo(2,3)])
       (use g lo(1,2) sync frd del(2) assms(2) in
         \<open>cases "db_rel (db s) a b"; simp add: acceptApplyWithState_def l g update_db_fuse
            spec_reply_def refined_answer refined_reload same\<close>)
qed

lemma denyApply_refined:
  assumes "ok s" "a \<noteq> b"
  shows "refined a b (spec_op (DenyApply b a) (db_rel (db s) a b))
    (spec_reply (DenyApply b a) (db_rel (db s) a b)) s (denyApplyWithState b a s)"
proof -
  obtain h s1 where l: "locateEntryListHolder a s = (h, s1)" by fastforce
  note lo = locate_ok [OF assms(1) l]
  have w: "wf_db (db s1)" using lo(1) by (simp add: ok_def)
  note sync = refined_syncs [OF lo(1) assms(2)] and del = delete_applied [OF w assms(2)]
  note g = holder_get_rel [OF lo(5) db_rel_not_self, of b]
  have same: "s1\<lparr>db := db s\<rparr> = s1" using lo(2) by simp
  show ?thesis
    by (rule refined_same_db [OF lo(2,3)])
       (use g lo(1,2) sync del assms(2) in
         \<open>cases "db_rel (db s) a b"; simp add: denyApplyWithState_def l g update_db_fuse
            spec_reply_def refined_answer refined_reload same\<close>)
qed

lemma removeFriend_refined:
  assumes "ok s" "a \<noteq> b"
  shows "refined a b (spec_op (RemoveFriend a b) (db_rel (db s) a b))
    (spec_reply (RemoveFriend a b) (db_rel (db s) a b)) s (removeFriendWithState a b s)"
proof -
  obtain h s1 where l: "locateEntryListHolder a s = (h, s1)" by fastforce
  note lo = locate_ok [OF assms(1) l]
  have w: "wf_db (db s1)" using lo(1) by (simp add: ok_def)
  note sync = refined_syncs [OF lo(1) assms(2)] and del = db_delete_friend [OF w assms(2)]
  note g = holder_get_rel [OF lo(5) db_rel_not_self, of b]
  show ?thesis
    by (rule refined_same_db [OF lo(2,3)])
       (use g lo(1,2) sync del assms(2) in
         \<open>cases "db_rel (db s) a b"; simp add: removeFriendWithState_def l g update_db_fuse
            spec_reply_def refined_answer refined_reload\<close>)
qed

lemma addBlock_refined:
  assumes "ok s" "a \<noteq> b"
  shows "refined a b (spec_op (AddBlock a b) (db_rel (db s) a b))
    (spec_reply (AddBlock a b) (db_rel (db s) a b)) s (addBlockWithState a b s)"
proof -
  obtain h s1 where l: "locateEntryListHolder a s = (h, s1)" by fastforce
  note lo = locate_ok [OF assms(1) l]
  have w: "wf_db (db s1)" using lo(1) by (simp add: ok_def)
  note sync = refined_syncs [OF lo(1) assms(2)]
  note new = db_insert_block [OF w assms(2)]
  note via = step_block [OF db_delete_apply [OF w assms(2)] assms(2)]
    step_block [OF delete_applied(1) [OF w assms(2)] assms(2)]
    step_block [OF db_delete_friend [OF w assms(2)] assms(2)]
  note g = holder_get_rel [OF lo(5) db_rel_not_self, of b]
  show ?thesis
    by (rule refined_same_db [OF lo(2,3)])
       (use g lo(1,2) sync new via assms(2) in
         \<open>cases "db_rel (db s) a b"; simp add: addBlockWithState_def l g update_db_fuse
            spec_reply_def refined_answer refined_reload\<close>)
qed

lemma removeBlock_refined:
  assumes "ok s" "a \<noteq> b"
  shows "refined a b (spec_op (RemoveBlock a b) (db_rel (db s) a b))
    (spec_reply (RemoveBlock a b) (db_rel (db s) a b)) s (removeBlockWithState a b s)"
proof -
  obtain h s1 where l: "locateEntryListHolder a s = (h, s1)" by fastforce
  note lo = locate_ok [OF assms(1) l]
  have w: "wf_db (db s1)" using lo(1) by (simp add: ok_def)
  note sync = refined_syncs [OF lo(1) assms(2)] and del = db_delete_block [OF w assms(2)]
  note g = holder_get_rel [OF lo(5) db_rel_not_self, of b]
  show ?thesis
    by (rule refined_same_db [OF lo(2,3)])
       (use g lo(1,2) sync del assms(2) in
         \<open>cases "db_rel (db s) a b"; simp add: removeBlockWithState_def l g update_db_fuse
            spec_reply_def refined_answer refined_reload\<close>)
qed

lemma addFriend_refined:
  assumes "ok s" "a \<noteq> b"
  shows "refined a b (spec_op (AddFriend a b) (db_rel (db s) a b))
    (spec_reply (AddFriend a b) (db_rel (db s) a b)) s (addFriendWithState a b s)"
proof -
  obtain h s1 where l: "locateEntryListHolder a s = (h, s1)" by fastforce
  note lo = locate_ok [OF assms(1) l]
  have w: "wf_db (db s1)" using lo(1) by (simp add: ok_def)
  note sync = refined_syncs [OF lo(1) assms(2)] and new = db_insert_friend [OF w assms(2)]
  note g = holder_get_rel [OF lo(5) db_rel_not_self, of b]
  show ?thesis
    by (rule refined_same_db [OF lo(2,3)])
       (use g lo(1,2) sync new assms(2) in
         \<open>cases "db_rel (db s) a b"; simp add: addFriendWithState_def l g update_db_fuse
            spec_reply_def refined_answer\<close>)
qed

lemma run_op_refined:
  assumes "ok s" "op_users x = (a, b)" "a \<noteq> b"
  shows "refined a b (spec_op x (db_rel (db s) a b)) (spec_reply x (db_rel (db s) a b)) s (run_op x s)"
  using assms addApply_refined [of s a b] acceptApply_refined [of s a b] denyApply_refined [of s a b]
    removeFriend_refined [of s a b] addBlock_refined [of s a b] removeBlock_refined [of s a b]
    addFriend_refined [of s a b]
  by (cases x) auto

lemma run_op_self:
  "op_users x = (a, a) \<Longrightarrow> run_op x s = (Some (mkOpState NoPath Self), s)"
  by (cases x)
     (simp_all add: addApplyWithState_def acceptApplyWithState_def denyApplyWithState_def
       removeFriendWithState_def addBlockWithState_def removeBlockWithState_def
       addFriendWithState_def answer_def)

end
