(* ===== verification/BuddyServer.thy ===== *)
theory BuddyServer
  imports BuddyRefine
begin

text \<open>
  The relation server as a state machine. A step is a client request, a query, a reload or
  eviction of a cached holder, the start of an asynchronous request, the run of any waiting task of the
  \<^verbatim>\<open>TaskManager\<close> (\<open>BuddyCore/src/BuddyCoreI.cpp\<close>), or a change of the servers in reach. In every reachable state the tables
  are well formed and all cached holders agree with them, and the machine simulates the abstract
  one in which a request changes the relation of one pair of users.

  The machine is narrower than the code in three ways. A request is one step: the code holds no lock from reading the holder to
  the synchronisation, so two requests on one pair can interleave. The caches of all servers are one map, where a holder lives on the
  server of its user. And a request that fails because the peer is out of reach is one step with the reload of the
  peer's holder that repairs it, which the code leaves to an operator; \<open>stale_holder_corrupts_tables\<close> shows what happens without.
\<close>

section \<open>Steps\<close>

text \<open>A request with the repair: after a failure the holder of the peer is reloaded.\<close>

definition repaired_op :: "op \<Rightarrow> server \<Rightarrow> server" where
  "repaired_op x s = (case run_op x s of (Some _, s') \<Rightarrow> s' | (None, s') \<Rightarrow> reload (snd (op_users x)) s')"

fun repaired_task :: "task \<Rightarrow> server \<Rightarrow> server" where
  "repaired_task (OpTask x) s = repaired_op x s"
| "repaired_task t s = handle_task t s"

inductive step :: "server \<Rightarrow> server \<Rightarrow> bool" where
  step_request: "step s (repaired_op x s)"
| step_async: "step s (execute (OpTask x) s)"
| step_query: "step s (snd (locateEntryListHolder u s))"
| step_reload: "step s (reload u s)"
| step_evict: "step s (removeEntryListHolder u s)"
| step_task: "t \<in> set (tasks s) \<Longrightarrow> step s (repaired_task t (s\<lparr>tasks := remove1 t (tasks s)\<rparr>))"
| step_outage: "step s (s\<lparr>remote_up := up\<rparr>)"

inductive_cases stepE: "step s s'"

definition start :: "buddy_db \<Rightarrow> server" where
  "start d = \<lparr>db = d, cache = Map.empty, tasks = [], events = [], user_count = Map.empty,
     remote_up = (\<lambda>_. True)\<rparr>"

inductive reachable :: "buddy_db \<Rightarrow> server \<Rightarrow> bool" for d where
  reachable_start: "reachable d (start d)"
| reachable_step: "reachable d s \<Longrightarrow> step s s' \<Longrightarrow> reachable d s'"

definition count_ok :: "server \<Rightarrow> bool" where
  "count_ok s \<longleftrightarrow> (\<forall>u n. user_count s u = Some n \<longrightarrow> n \<le> 101)"

definition task_ok :: "task \<Rightarrow> bool" where
  "task_ok t \<longleftrightarrow> (case t of DupCleanupTask u dups \<Rightarrow> dups = [] | _ \<Rightarrow> True)"

definition inv :: "server \<Rightarrow> bool" where
  "inv s \<longleftrightarrow> ok s \<and> (\<forall>t \<in> set (tasks s). task_ok t) \<and> count_ok s"

lemma wf_db_no_duplicates:
  assumes "wf_db d" shows "snd (create u d) = []"
proof (rule create_no_duplicates)
  note w = assms [unfolded wf_db_rels rels_def tables_ok_def]
  note r = wf_relsD [OF w [THEN conjunct2]]
  show "distinct (relation_block d)" "distinct (relation_friend d)"
    "distinct (apply_accepter d)" "distinct (apply_applicant d)" using w by simp_all
  have acc: "set (apply_accepter d) = set (apply_applicant d)" using w by simp
  show "(u, k) \<notin> set (relation_block d) \<and> (k, u) \<notin> set (relation_block d)"
    if "(u, k) \<in> set (relation_friend d)" for k using r(1) [of u k] r(1) [of k u] that by blast
  show "(u, k) \<notin> set (relation_block d) \<and> (k, u) \<notin> set (relation_block d) \<and>
      (u, k) \<notin> set (relation_friend d)"
    if "(k, u) \<in> set (apply_accepter d)" for k
    using r(1) [of u k] r(1) [of k u] r(2) [of u k] that unfolding acc by blast
  show "(u, k) \<notin> set (relation_block d) \<and> (k, u) \<notin> set (relation_block d) \<and>
      (u, k) \<notin> set (relation_friend d) \<and> (k, u) \<notin> set (apply_accepter d)"
    if "(u, k) \<in> set (apply_applicant d)" for k
    using r(1) [of u k] r(1) [of k u] r(2) [of u k] r(3) [of u k] that unfolding acc by blast
qed

section \<open>Tasks and counts are only added\<close>

text \<open>What a function of the server does to the waiting tasks and to the counts.\<close>

definition adds_ok :: "server \<Rightarrow> server \<Rightarrow> bool" where
  "adds_ok s s' \<longleftrightarrow> (\<exists>ts. tasks s' = tasks s @ ts \<and> (\<forall>t \<in> set ts. task_ok t)) \<and> user_count s' = user_count s"

lemma adds_ok_refl [simp]: "adds_ok s s"
  by (simp add: adds_ok_def)

lemma adds_ok_trans: "adds_ok s s' \<Longrightarrow> adds_ok s' s'' \<Longrightarrow> adds_ok s s''"
  unfolding adds_ok_def by auto

lemma adds_ok_execute: "adds_ok s s' \<Longrightarrow> task_ok t \<Longrightarrow> adds_ok s (execute t s')"
  unfolding adds_ok_def execute_def by auto

lemma adds_ok_fields [simp]:
  "adds_ok s (update_db f s') = adds_ok s s'" "adds_ok s (put_holder u h s') = adds_ok s s'"
  "adds_ok s (reload u s') = adds_ok s s'" "adds_ok s (s'\<lparr>events := es\<rparr>) = adds_ok s s'"
  "adds_ok s (removeEntryListHolder u s') = adds_ok s s'"
  by (simp_all add: adds_ok_def update_db_def put_holder_def reload_def sync_reload_def
      removeEntryListHolder_def Let_def)

lemma task_ok_simps [simp]:
  "task_ok (OpTask x)" "task_ok (SyncUserCountGuestRequestTask u)" "task_ok (MissedIdProcessTask u)"
  "task_ok (DupCleanupTask u dups) \<longleftrightarrow> dups = []"
  by (simp_all add: task_ok_def)

lemma adds_ok_locate:
  "wf_db (db s) \<Longrightarrow> adds_ok s (snd (locateEntryListHolder u s))"
  using wf_db_no_duplicates [of "db s" u]
  by (auto simp: locateEntryListHolder_def adds_ok_def execute_def split: option.split prod.split)

lemma adds_ok_located:
  "wf_db (db s) \<Longrightarrow> locateEntryListHolder u s = (h, s') \<Longrightarrow> adds_ok s s'"
  using adds_ok_locate [of s u] by simp

lemma adds_ok_sync:
  "adds_ok s (sync_syncAddFriend a b c s)" "adds_ok s (sync_syncAddApply a b c s)"
  "adds_ok s (sync_syncAcceptApply a b c s)" "adds_ok s (sync_syncDenyApply a b c s)"
  "adds_ok s (sync_syncRemoveFriend a b c s)" "adds_ok s (sync_syncAddBlock a b c s)"
  "adds_ok s (sync_syncRemoveBlock a b c s)"
  by (auto simp: sync_defs Let_def intro!: adds_ok_execute split: option.split)

lemma adds_ok_sync_call:
  assumes "\<And>c s. adds_ok s (act c s)" "adds_ok s s'"
  shows "adds_ok s (snd (sync_call oper bi act peer x y s'))"
  using assms(1) [of s' "buildContext False bi"]
    assms(1) [of "act (buildContext False bi) s'" "buildContext True bi"] assms(2)
  by (auto simp: sync_call_def Let_def intro: adds_ok_trans)

lemma adds_ok_calls:
  assumes "adds_ok s s'"
  shows "adds_ok s (snd (reply x y (syncAddFriend a b s')))" "adds_ok s (snd (reply x y (syncAddApply a b s')))"
    "adds_ok s (snd (reply x y (syncAcceptApply a b s')))" "adds_ok s (snd (reply x y (syncDenyApply a b s')))"
    "adds_ok s (snd (reply x y (syncRemoveFriend a b s')))" "adds_ok s (snd (reply x y (syncAddBlock a b bi s')))"
    "adds_ok s (snd (reply x y (syncRemoveBlock a b bi s')))" "adds_ok s (snd (answer x y s'))"
  using assms adds_ok_sync
  by (simp_all add: reply_def answer_def syncAddFriend_def syncAddApply_def syncAcceptApply_def
      syncDenyApply_def syncRemoveFriend_def syncAddBlock_def syncRemoveBlock_def adds_ok_sync_call)

lemma adds_ok_run_op:
  assumes "wf_db (db s)" shows "adds_ok s (snd (run_op x s))"
  using adds_ok_located [OF assms]
  by (cases x)
     (auto simp: addApplyWithState_def acceptApplyWithState_def denyApplyWithState_def
       removeFriendWithState_def addBlockWithState_def removeBlockWithState_def
       addFriendWithState_def Let_def adds_ok_calls
       split: prod.split list.split BuddyDesc.split) 


section \<open>The invariant\<close>

lemma ok_fields [simp]:
  "ok (execute t s) = ok s" "ok (s\<lparr>tasks := ts\<rparr>) = ok s" "ok (s\<lparr>user_count := m\<rparr>) = ok s"
  "ok (syncUserCountGuestRequest u s) = ok s"
  by (simp_all add: ok_def execute_def syncUserCountGuestRequest_def)

lemma ok_evict: "ok s \<Longrightarrow> ok (removeEntryListHolder u s)"
  by (auto simp: ok_def coherent_def removeEntryListHolder_def)

lemma inv_ok: "inv s \<Longrightarrow> ok s" "inv s \<Longrightarrow> wf_db (db s)"
  by (simp_all add: inv_def ok_def)

lemma inv_transfer:
  "inv s \<Longrightarrow> adds_ok s s' \<Longrightarrow> ok s' \<Longrightarrow> inv s'"
  by (auto simp: inv_def adds_ok_def count_ok_def)

lemma run_op_ok:
  assumes "ok s" "\<And>u. remote_up s u"
  shows "ok (snd (run_op x s))" "remote_up (snd (run_op x s)) = remote_up s"
proof -
  obtain a b where ab: "op_users x = (a, b)" by fastforce
  show "ok (snd (run_op x s))" "remote_up (snd (run_op x s)) = remote_up s"
    using run_op_refined [OF assms(1) ab] run_op_self [of x a s] ab assms
    by (cases "a = b"; auto simp: refined_def split: option.splits)+
qed

lemma coherent_reload:
  assumes "coherent_but b a (db s) (cache s)" shows "coherent (db (reload b s)) (cache (reload b s))"
  using assms
  by (auto simp: coherent_but_def coherent_def agrees_def reload_def sync_reload_def removeEntryListHolder_def Let_def)

lemma repaired_op_cases:
  obtains y s' where "run_op x s = (Some y, s')" "repaired_op x s = s'"
  | s' where "run_op x s = (None, s')" "repaired_op x s = reload (snd (op_users x)) s'"
  by (cases "run_op x s"; cases "fst (run_op x s)") (auto simp: repaired_op_def)

lemma repaired_op_db: "db (repaired_op x s) = db (snd (run_op x s))"
  by (rule repaired_op_cases [of x s]) simp_all

lemma repaired_op_ok:
  assumes "ok s" shows "ok (repaired_op x s)"
proof -
  obtain a b where ab: "op_users x = (a, b)" by fastforce
  show ?thesis
  proof (cases "a = b")
    case True
    then show ?thesis using assms run_op_self [of x a s] ab by (simp add: repaired_op_def)
  next
    case False
    note r = run_op_refined [OF assms ab False]
    have "wf_db (db (snd (run_op x s)))" using r by (simp add: refined_def db_step_def)
    then show ?thesis using r coherent_reload
      by (cases rule: repaired_op_cases [of x s]) (auto simp: refined_def ok_def ab)
  qed
qed

lemma inv_run_op: "inv s \<Longrightarrow> inv (repaired_op x s)"
proof (rule inv_transfer)
  assume i: "inv s"
  show "adds_ok s (repaired_op x s)" using adds_ok_run_op [OF inv_ok(2) [OF i], of x] by (cases rule: repaired_op_cases [of x s]) auto
  show "ok (repaired_op x s)" by (rule repaired_op_ok [OF inv_ok(1) [OF i]])
qed

lemma inv_locate:
  assumes "inv s" shows "inv (snd (locateEntryListHolder u s))"
proof -
  obtain h s' where l: "locateEntryListHolder u s = (h, s')" by fastforce
  note lo = locate_ok [OF inv_ok(1) [OF assms] l] and ad = adds_ok_located [OF inv_ok(2) [OF assms] l]
  show ?thesis using inv_transfer [OF assms ad lo(1)] by (simp add: l)
qed

lemma cleanup_Nil [simp]: "cleanup u [] d = d"
  by (simp add: cleanup_def)

lemma inv_count: "inv s \<Longrightarrow> inv (SyncUserCount_handle u s)"
  by (auto simp: SyncUserCount_handle_def inv_def count_ok_def Let_def split: option.split)

lemma inv_execute: "inv s \<Longrightarrow> task_ok t \<Longrightarrow> inv (execute t s)"
  by (auto simp: inv_def execute_def ok_def count_ok_def)

lemma inv_task: "inv s \<Longrightarrow> task_ok t \<Longrightarrow> inv (repaired_task t s)"
  by (cases t)
     (simp_all add: inv_run_op inv_count MissedIdProcess_handle_def inv_execute inv_locate update_db_def)

lemma inv_step: "inv s \<Longrightarrow> step s s' \<Longrightarrow> inv s'"
proof (erule stepE)
  assume i: "inv s"
  { fix u assume "s' = reload u s" then show ?thesis
      using i by (auto intro: inv_transfer simp: reload_ok inv_ok) }
  { fix u assume "s' = removeEntryListHolder u s" then show ?thesis
      using i by (auto intro!: inv_transfer [OF i] simp: ok_evict inv_ok) }
  { fix t assume t: "s' = repaired_task t (s\<lparr>tasks := remove1 t (tasks s)\<rparr>)" "t \<in> set (tasks s)"
    have "inv (s\<lparr>tasks := remove1 t (tasks s)\<rparr>)"
      using i by (auto simp: inv_def count_ok_def dest: notin_set_remove1 set_remove1_subset [THEN subsetD])
    moreover have "task_ok t" using t(2) i by (simp add: inv_def)
    ultimately show ?thesis unfolding t(1) by (rule inv_task) }
  { fix up assume "s' = s\<lparr>remote_up := up\<rparr>" then show ?thesis using i by (simp add: inv_def ok_def count_ok_def) }
qed (simp_all add: inv_run_op inv_execute inv_locate)

lemma inv_start: "wf_db d \<Longrightarrow> inv (start d)"
  by (simp add: inv_def start_def ok_def coherent_def count_ok_def)

lemma reachable_inv: "reachable d s \<Longrightarrow> wf_db d \<Longrightarrow> inv s"
  by (induction rule: reachable.induct) (simp_all add: inv_start inv_step)


section \<open>The abstract machine\<close>

definition abs_set :: "u32 \<Rightarrow> u32 \<Rightarrow> BuddyDesc \<Rightarrow> (u32 \<Rightarrow> u32 \<Rightarrow> BuddyDesc) \<Rightarrow> (u32 \<Rightarrow> u32 \<Rightarrow> BuddyDesc)" where
  "abs_set a b x R = (\<lambda>u v. if (u, v) = (a, b) then x
     else if (u, v) = (b, a) then oppositeDesc x else R u v)"

inductive abs_step :: "(u32 \<Rightarrow> u32 \<Rightarrow> BuddyDesc) \<Rightarrow> (u32 \<Rightarrow> u32 \<Rightarrow> BuddyDesc) \<Rightarrow> bool" where
  abs_op: "op_users x = (a, b) \<Longrightarrow> a \<noteq> b \<Longrightarrow> abs_step R (abs_set a b (spec_op x (R a b)) R)"
| abs_idle: "abs_step R R"

lemma set_pair_abs: "set_pair a b x d d' \<longleftrightarrow> db_rel d' = abs_set a b x (db_rel d)"
  by (simp add: set_pair_def abs_set_def fun_eq_iff)

lemma abs_run_op:
  assumes "ok s" shows "abs_step (db_rel (db s)) (db_rel (db (snd (run_op x s))))"
proof -
  obtain a b where ab: "op_users x = (a, b)" by fastforce
  show ?thesis
  proof (cases "a = b")
    case True
    then show ?thesis using run_op_self [of x a s] ab by (simp add: abs_idle)
  next
    case False
    from run_op_refined [OF assms ab False] show ?thesis
      using abs_op [OF ab False, of "db_rel (db s)"]
      by (simp add: refined_def db_step_def set_pair_abs)
  qed
qed

lemma db_locate [simp]: "db (snd (locateEntryListHolder u s)) = db s"
  by (simp add: locateEntryListHolder_def execute_def split: option.split prod.split)

lemma db_execute [simp]: "db (execute t s) = db s"
  by (simp add: execute_def)

lemma abs_task:
  assumes "inv s" "task_ok t"
  shows "abs_step (db_rel (db s)) (db_rel (db (repaired_task t s)))"
  using assms abs_run_op [OF inv_ok(1) [OF assms(1)]]
  by (cases t)
     (simp_all add: abs_idle repaired_op_db update_db_def SyncUserCount_handle_def MissedIdProcess_handle_def
       Let_def split: option.split)

lemma step_simulated:
  assumes "inv s" "step s s'"
  shows "abs_step (db_rel (db s)) (db_rel (db s'))"
  using assms(2)
proof cases
  case (step_task t)
  let ?s = "s\<lparr>tasks := remove1 t (tasks s)\<rparr>"
  have "inv ?s"
    using assms(1) by (auto simp: inv_def count_ok_def dest: set_remove1_subset [THEN subsetD])
  moreover have "task_ok t" using step_task(2) assms(1) by (simp add: inv_def)
  ultimately have "abs_step (db_rel (db ?s)) (db_rel (db (repaired_task t ?s)))" by (rule abs_task)
  then show ?thesis using step_task(1) by simp
qed (use assms(1) in \<open>simp_all add: abs_run_op repaired_op_db inv_ok abs_idle removeEntryListHolder_def\<close>)

section \<open>Queries\<close>

lemma translateInt_bits:
  "db_desc d u v = Some x \<Longrightarrow> x = translateInt (db_rel d u v) \<and> db_rel d u v \<noteq> NoPath"
  using db_desc_flag [of d u v] by (auto simp: flag_of_def split: if_splits)

lemma get_seq_exact:
  assumes "ok s"
  shows "sorted_wrt (<) (fst (get_seq k m u s))"
    and "set (fst (get_seq k m u s)) = {v. \<exists>x. flag_of (db_rel (db s) u v) = Some x \<and>
           (k AND m) = (x AND m) \<and> x \<noteq> MAX_INT}"
    and "ok (snd (get_seq k m u s))" "db (snd (get_seq k m u s)) = db s"
    "remote_up (snd (get_seq k m u s)) = remote_up s"
proof -
  obtain h s' where l: "locateEntryListHolder u s = (h, s')" by fastforce
  note lo = locate_ok [OF assms l]
  have wf: "holder_wf h" using lo(6) by (simp add: agrees_def)
  let ?msk = "mkEntry 0 m"
  have r: "fst (get_seq k m u s) = map to (holder_get_mask (mkEntry 0 k) ?msk h)"
    by (simp add: get_seq_def l holder_get_build_list [OF wf])
  show "sorted_wrt (<) (fst (get_seq k m u s))"
    unfolding r holder_get_mask_list [OF wf] sorted_wrt_map
    by (rule sorted_wrt_mono_rel [OF _ sorted_wrt_filter])
       (use wf in \<open>auto simp: holder_wf_def less_entry_def\<close>)
  have "v \<in> set (fst (get_seq k m u s)) \<longleftrightarrow>
      (\<exists>x. hview h v = Some x \<and> (k AND m) = (x AND m) \<and> x \<noteq> MAX_INT)" for v
  proof
    assume "v \<in> set (fst (get_seq k m u s))"
    then show "\<exists>x. hview h v = Some x \<and> (k AND m) = (x AND m) \<and> x \<noteq> MAX_INT"
      unfolding r using holder_get_mask_set [OF wf] by (auto simp: equals_mask_def)
  next
    assume "\<exists>x. hview h v = Some x \<and> (k AND m) = (x AND m) \<and> x \<noteq> MAX_INT"
    then obtain x where "hview h v = Some x" "(k AND m) = (x AND m)" "x \<noteq> MAX_INT" by blast
    then have "mkEntry v x \<in> set (holder_get_mask (mkEntry 0 k) ?msk h)"
      using holder_get_mask_set [OF wf, of "mkEntry v x"] by (simp add: equals_mask_def)
    then show "v \<in> set (fst (get_seq k m u s))" unfolding r by force
  qed
  then show "set (fst (get_seq k m u s)) = {v. \<exists>x. flag_of (db_rel (db s) u v) = Some x \<and>
           (k AND m) = (x AND m) \<and> x \<noteq> MAX_INT}"
    using lo(5) by auto
  show "ok (snd (get_seq k m u s))" "db (snd (get_seq k m u s)) = db s"
    "remote_up (snd (get_seq k m u s)) = remote_up s"
    using lo by (simp_all add: get_seq_def l)
qed

text \<open>The four masks select exactly the relations they are meant for.\<close>

lemma seq_masks:
  assumes "r \<noteq> Self"
  shows "(\<exists>x. flag_of r = Some x \<and> (DESC_APPLIED AND DESC_MASK_APPLY) = (x AND DESC_MASK_APPLY) \<and> x \<noteq> MAX_INT) \<longleftrightarrow> r = Applied"
    "(\<exists>x. flag_of r = Some x \<and> (DESC_APPLY AND DESC_MASK) = (x AND DESC_MASK) \<and> x \<noteq> MAX_INT) \<longleftrightarrow> r = Apply"
    "(\<exists>x. flag_of r = Some x \<and> (DESC_FRIEND AND DESC_MASK_FRIEND) = (x AND DESC_MASK_FRIEND) \<and> x \<noteq> MAX_INT) \<longleftrightarrow> r = Friend"
    "(\<exists>x. flag_of r = Some x \<and> (DESC_BLOCK AND DESC_MASK_BLOCK) = (x AND DESC_MASK_BLOCK) \<and> x \<noteq> MAX_INT) \<longleftrightarrow> r = Block \<or> r = BiBlock"
  using assms by (cases r; simp add: desc_consts MAX_INT_def)+

lemma seq_sets:
  assumes "ok s"
  shows "set (fst (getAppliedSeq u i j s)) = {v. db_rel (db s) u v = Applied}"
    "set (fst (getApplySeq u i j s)) = {v. db_rel (db s) u v = Apply}"
    "set (fst (getFriendSeq u i j s)) = {v. db_rel (db s) u v = Friend}"
    "set (fst (getBlockSeq u i j s)) = {v. db_rel (db s) u v = Block \<or> db_rel (db s) u v = BiBlock}"
  unfolding getAppliedSeq_def getApplySeq_def getFriendSeq_def getBlockSeq_def
    get_seq_exact(2) [OF assms] by (simp_all add: seq_masks)

lemma getRelation_exact:
  assumes "ok s" "u \<noteq> v"
  shows "fst (getRelation u v s) = db_rel (db s) u v"
proof -
  obtain h s' where l: "locateEntryListHolder u s = (h, s')" by fastforce
  note g = holder_get_rel [OF locate_ok(5) [OF assms(1) l] db_rel_not_self, of v 0]
  have "translateDesc (translateInt (db_rel (db s) u v)) = db_rel (db s) u v"
    by (simp add: translate_roundtrip)
  then show ?thesis using assms(2) g by (simp add: getRelation_def l)
qed


section \<open>Answering all applications at once\<close>

definition run_tasks :: "task list \<Rightarrow> server \<Rightarrow> server" where
  "run_tasks ts s = foldl (\<lambda>s t. handle_task t s) s ts"

lemma execute_all_fields [simp]:
  "tasks (execute_all ops s) = tasks s @ map OpTask ops" "db (execute_all ops s) = db s"
  "cache (execute_all ops s) = cache s" "remote_up (execute_all ops s) = remote_up s"
proof -
  have "execute_all ops s = s\<lparr>tasks := tasks s @ map OpTask ops\<rparr>"
    by (induction ops arbitrary: s) (simp_all add: execute_all_def execute_def)
  then show "tasks (execute_all ops s) = tasks s @ map OpTask ops" "db (execute_all ops s) = db s"
    "cache (execute_all ops s) = cache s" "remote_up (execute_all ops s) = remote_up s" by simp_all
qed

lemma op_users_rel:
  assumes "ok s" "\<And>u. remote_up s u" "op_users x = (a, b)" "a \<noteq> b"
  shows "db_rel (db (snd (run_op x s))) = abs_set a b (spec_op x (db_rel (db s) a b)) (db_rel (db s))"
  using run_op_refined [OF assms(1,3,4)] by (simp add: refined_def db_step_def set_pair_abs)

text \<open>Requests that each settle one other user, one after the other.\<close>

definition settles :: "u32 \<Rightarrow> (u32 \<Rightarrow> op) \<Rightarrow> BuddyDesc \<Rightarrow> BuddyDesc \<Rightarrow> bool" where
  "settles u f p q \<longleftrightarrow> (\<forall>s v. ok s \<longrightarrow> (\<forall>w. remote_up s w) \<longrightarrow> v \<noteq> u \<longrightarrow>
     db_rel (db (snd (run_op (f v) s))) =
       abs_set u v (if db_rel (db s) u v = p then q else db_rel (db s) u v) (db_rel (db s)))"

lemma settles_requests:
  "settles u (\<lambda>v. AcceptApply v u) Applied Friend" "settles u (\<lambda>v. DenyApply v u) Applied NoPath"
  "settles u (\<lambda>v. DenyApply u v) Apply NoPath"
proof -
  have run: "db_rel (db (snd (run_op x s))) = abs_set a b (spec_op x (db_rel (db s) a b)) (db_rel (db s))"
    if "ok s" "\<forall>w. remote_up s w" "op_users x = (a, b)" "a \<noteq> b" for x s a b
    using op_users_rel [OF that(1) _ that(3,4)] that(2) by simp
  show "settles u (\<lambda>v. AcceptApply v u) Applied Friend"
    unfolding settles_def using run [of _ "AcceptApply _ u" u] by auto
  show "settles u (\<lambda>v. DenyApply v u) Applied NoPath"
    unfolding settles_def using run [of _ "DenyApply _ u" u] by auto
  have "abs_set v u (if db_rel d v u = Applied then NoPath else db_rel d v u) (db_rel d) =
      abs_set u v (if db_rel d u v = Apply then NoPath else db_rel d u v) (db_rel d)"
    if "wf_db d" "v \<noteq> u" for d v
    using db_rel_opposite [OF that(1), of v u] that(2)
    by (cases "db_rel d u v") (auto simp: abs_set_def fun_eq_iff)
  then show "settles u (\<lambda>v. DenyApply u v) Apply NoPath"
    unfolding settles_def using run [of _ "DenyApply u _" _ u] by (simp add: ok_def)
qed

lemma settle_all:
  assumes "ok s" "\<And>v. remote_up s v" "distinct ids" "u \<notin> set ids" "settles u f p q"
  shows "ok (run_tasks (map (\<lambda>v. OpTask (f v)) ids) s)"
    and "db_rel (db (run_tasks (map (\<lambda>v. OpTask (f v)) ids) s)) u v =
      (if v \<in> set ids \<and> db_rel (db s) u v = p then q else db_rel (db s) u v)"
proof -
  have "ok (run_tasks (map (\<lambda>v. OpTask (f v)) ids) s) \<and>
    (\<forall>v. db_rel (db (run_tasks (map (\<lambda>v. OpTask (f v)) ids) s)) u v =
      (if v \<in> set ids \<and> db_rel (db s) u v = p then q else db_rel (db s) u v))"
    using assms(1-4)
  proof (induction ids arbitrary: s)
    case Nil
    then show ?case by (simp add: run_tasks_def)
  next
    case (Cons x xs)
    let ?s = "snd (run_op (f x) s)"
    have o: "ok ?s" "remote_up ?s = remote_up s" using Cons.prems by (simp_all add: run_op_ok)
    have r: "db_rel (db ?s) = abs_set u x (if db_rel (db s) u x = p then q else db_rel (db s) u x) (db_rel (db s))"
      using Cons.prems(4) by (intro assms(5) [unfolded settles_def, rule_format, OF Cons.prems(1,2)]) auto
    have "ok (run_tasks (map (\<lambda>v. OpTask (f v)) xs) ?s) \<and>
      (\<forall>v. db_rel (db (run_tasks (map (\<lambda>v. OpTask (f v)) xs) ?s)) u v =
        (if v \<in> set xs \<and> db_rel (db ?s) u v = p then q else db_rel (db ?s) u v))"
      using Cons o by simp
    then show ?case
      using Cons.prems(3,4) unfolding r by (auto simp: run_tasks_def abs_set_def)
  qed
  then show "ok (run_tasks (map (\<lambda>v. OpTask (f v)) ids) s)"
    and "db_rel (db (run_tasks (map (\<lambda>v. OpTask (f v)) ids) s)) u v =
      (if v \<in> set ids \<and> db_rel (db s) u v = p then q else db_rel (db s) u v)" by blast+
qed

lemma db_rel_self: "wf_db d \<Longrightarrow> db_rel d u u = NoPath"
  using wf_relsD [of "set (relation_block d)" "set (relation_friend d)" "set (apply_applicant d)" u u]
  by (auto simp: db_rel_def wf_db_rels db_desc_rels rels_def rel_desc_def)

lemma db_rel_some_other: "wf_db d \<Longrightarrow> db_rel d u v \<noteq> NoPath \<Longrightarrow> u \<noteq> v"
  using db_rel_self by auto

lemma get_seq_tasks:
  "wf_db (db s) \<Longrightarrow> tasks (snd (get_seq k m u s)) =
     tasks s @ (if cache s u = None then [DupCleanupTask u []] else [])"
  using wf_db_no_duplicates [of "db s" u]
  by (auto simp: get_seq_def locateEntryListHolder_def execute_def split: option.split prod.split)

lemma run_tasks_dup [simp]: "run_tasks (DupCleanupTask u [] # ts) s = run_tasks ts s"
  by (simp add: run_tasks_def update_db_def)

lemma all_of_seq:
  assumes "ok s" "\<And>v. remote_up s v" "u \<notin> set (fst (get_seq k m u s))"
    and "settles u f p q"
    and "t = execute_all (map f (fst (get_seq k m u s))) (snd (get_seq k m u s))"
  shows "db_rel (db (run_tasks (drop (length (tasks s)) (tasks t)) t)) u v =
    (if v \<in> set (fst (get_seq k m u s)) \<and> db_rel (db s) u v = p then q else db_rel (db s) u v)"
proof -
  let ?ids = "fst (get_seq k m u s)"
  note g = get_seq_exact [OF assms(1), of k m u]
  have t: "ok t" "db t = db s" "\<And>v. remote_up t v"
    using g assms(2,5) by (auto simp: ok_def)
  have d: "distinct ?ids" using g(1) strict_sorted_iff by blast
  have tasks: "run_tasks (drop (length (tasks s)) (tasks t)) t = run_tasks (map (\<lambda>v. OpTask (f v)) ?ids) t"
    using get_seq_tasks [of s k m u] assms(1,5) by (simp add: ok_def comp_def)
  show ?thesis
    unfolding tasks using settle_all(2) [of t ?ids u f p q, OF t(1,3) d assms(3,4)] t(2) by simp
qed


lemma user_count_exact:
  assumes "ok s" "cache s u = Some h"
  shows "user_count (SyncUserCount_handle u s) u =
    Some (let n = card {v. db_rel (db s) u v = Applied} in if n > 100 then 101 else n)"
proof -
  have wf: "holder_wf h" using assms by (simp add: ok_def coherent_def agrees_def)
  have r: "fst (getAppliedSeq u 0 0 s) =
      map to (holder_get_mask (mkEntry 0 DESC_APPLIED) (mkEntry 0 DESC_MASK_APPLY) h)"
    using assms(2) by (simp add: getAppliedSeq_def get_seq_def locateEntryListHolder_def
        holder_get_build_list [OF wf])
  have "distinct (fst (getAppliedSeq u 0 0 s))"
    using get_seq_exact(1) [OF assms(1)] strict_sorted_iff by (auto simp: getAppliedSeq_def)
  then have "length (fst (getAppliedSeq u 0 0 s)) = card {v. db_rel (db s) u v = Applied}"
    by (metis distinct_card seq_sets(1) [OF assms(1)])
  then show ?thesis
    using assms(2) by (simp add: r SyncUserCount_handle_def findEntryListHolder_def Let_def)
qed

section \<open>Properties\<close>

text \<open>A small database in which 1 and 2 are friends and 3 applied to 1, for the examples.\<close>

definition sample_db :: buddy_db where
  "sample_db = \<lparr>relation_block = [], relation_friend = [(1, 2), (2, 1)],
     apply_accepter = [(3, 1)], apply_applicant = [(3, 1)]\<rparr>"

lemma sample_wf [simp]: "wf_db sample_db"
  by (simp add: wf_db_def sample_db_def)

lemma sample_rel [simp]:
  "db_rel (db (start sample_db)) 1 3 = Applied" "db_rel (db (start sample_db)) 1 2 = Friend"
  by (simp_all add: start_def sample_db_def db_rel_def db_desc_def)

lemma sample_start [simp]:
  "wf_db (db (start sample_db))" "coherent (db (start sample_db)) (cache (start sample_db))"
  "remote_up (start sample_db) u" "ok (start sample_db)"
  by (simp_all add: start_def coherent_def ok_def)

text \<open>C1. Every relation request (apply, accept, deny, remove friend, block, unblock, add friend) between
  two different users, started with well-formed tables and caches that agree with them and with
  the peer's server in reach, answers, takes the pair through the abstract transition, leaves the
  relation of every other pair alone, and ends with well-formed tables and agreeing caches.\<close>

theorem request_refines_transition:
  assumes "wf_db (db s)" "coherent (db s) (cache s)" "op_users x = (a, b)" "a \<noteq> b" "remote_up s b"
  shows "fst (run_op x s) = Some (spec_reply x (db_rel (db s) a b)) \<and>
    wf_db (db (snd (run_op x s))) \<and>
    coherent (db (snd (run_op x s))) (cache (snd (run_op x s))) \<and>
    db_rel (db (snd (run_op x s))) = abs_set a b (spec_op x (db_rel (db s) a b)) (db_rel (db s))"
proof -
  have "ok s" using assms(1,2) by (simp add: ok_def)
  from run_op_refined [OF this assms(3,4)] assms(5) show ?thesis
    by (auto simp: refined_def ok_def db_step_def set_pair_abs split: option.splits)
qed

theorem request_refines_transition_witness:
  "fst (run_op (AcceptApply 3 1) (start sample_db)) = Some (mkOpState Applied Friend) \<and>
   db_rel (db (snd (run_op (AcceptApply 3 1) (start sample_db)))) 3 1 = Friend"
  using request_refines_transition [of "start sample_db" "AcceptApply 3 1" 1 3]
  by (simp add: spec_reply_def abs_set_def)

text \<open>C2. In every state the server can reach from well-formed tables and empty caches, by requests,
  queries, reloads, evictions, waiting tasks and changes of the servers in reach in any order, the
  tables are well formed, every cached holder is sorted and agrees with the tables, the cleanup
  tasks have nothing to remove and no published count exceeds 101. The restrictions are those of \<open>step\<close>, and no code enforces them: a request runs from its
  start to its end without another one in between; every user has one cached holder, whichever server the
  user is on; and a request that fails for an unreachable peer is followed by the reload of the peer's holder, without
  which the tables can be corrupted (\<open>stale_holder_corrupts_tables\<close>).\<close>

theorem reachable_states_consistent:
  assumes "reachable d s" "wf_db d"
  shows "wf_db (db s) \<and> coherent (db s) (cache s) \<and>
    (\<forall>u dups. DupCleanupTask u dups \<in> set (tasks s) \<longrightarrow> dups = []) \<and>
    (\<forall>u n. user_count s u = Some n \<longrightarrow> n \<le> 101)"
  using reachable_inv [OF assms] by (auto simp: inv_def ok_def count_ok_def task_ok_def)

theorem reachable_states_consistent_witness:
  "wf_db (db (repaired_op (RemoveFriend 1 2) ((start sample_db)\<lparr>remote_up := (\<lambda>_. False)\<rparr>)))"
  by (rule reachable_states_consistent [OF reachable_step [OF reachable_step [OF reachable_start step_outage] step_request] sample_wf,
        THEN conjunct1])

text \<open>C3. The server simulates the abstract machine: a step of the server from a reachable state (with the restrictions of the previous
  property: requests are not interleaved, a user has one cached holder, and a request that fails for an unreachable peer is
  followed by the reload of the peer's holder) either leaves all relations alone or is the transition of one pair by one request.\<close>

theorem server_simulates_relations:
  assumes "reachable d s" "wf_db d" "step s s'"
  shows "abs_step (db_rel (db s)) (db_rel (db s'))"
  by (rule step_simulated [OF reachable_inv [OF assms(1,2)] assms(3)])

theorem server_simulates_relations_witness:
  "abs_step (db_rel (db (start sample_db))) (db_rel (db (repaired_op (AddBlock 1 2) (start sample_db))))"
  using server_simulates_relations [OF reachable_start sample_wf step_request] .

text \<open>C4. What two users see of each other matches: in every reachable state (requests one at a time, one
  cached holder per user, a request that fails for an unreachable peer followed by the reload of the peer's holder) the relation of
  \<open>b\<close> to \<open>a\<close> is the opposite of that of \<open>a\<close> to \<open>b\<close>, also in the cached holders.\<close>

theorem relations_are_opposite:
  assumes "reachable d s" "wf_db d"
  shows "db_rel (db s) b a = oppositeDesc (db_rel (db s) a b) \<and>
    (\<forall>h k. cache s a = Some h \<longrightarrow> cache s b = Some k \<longrightarrow>
       hview k a = opp_desc (hview h b))"
proof -
  note i = reachable_inv [OF assms]
  have o: "db_rel (db s) b a = oppositeDesc (db_rel (db s) a b)"
    by (rule db_rel_opposite [OF inv_ok(2) [OF i]])
  have "flag_of (oppositeDesc r) = opp_desc (flag_of r)" for r
    by (cases r) (simp_all add: opp_desc_def flag_of_def)
  with o i show ?thesis by (auto simp: inv_def ok_def coherent_def agrees_def)
qed

theorem relations_are_opposite_witness:
  "db_rel (db (start sample_db)) 3 1 = oppositeDesc Applied"
  using relations_are_opposite [OF reachable_start sample_wf, of 3 1] by simp


definition cut_off :: server where
  "cut_off = (start sample_db)\<lparr>remote_up := (\<lambda>_. False)\<rparr>"

lemma cut_off_facts:
  "wf_db (db cut_off)" "coherent (db cut_off) (cache cut_off)" "\<not> remote_up cut_off u"
  "db_rel (db cut_off) 1 2 = Friend"
  using sample_start(1,2) sample_rel(2) by (simp_all add: cut_off_def)


lemma cut_off_fails: "fst (run_op (RemoveFriend 1 2) cut_off) = None"
  by code_simp



text \<open>C20. After such a failure a reload of the peer's holder makes all caches agree with the tables
  again.\<close>

theorem reload_repairs:
  assumes "wf_db (db s)" "coherent (db s) (cache s)" "op_users x = (a, b)" "a \<noteq> b"
    and "run_op x s = (None, s')"
  shows "db (reload b s') = db s' \<and> coherent (db s') (cache (reload b s'))"
proof -
  have "ok s" using assms(1,2) by (simp add: ok_def)
  from run_op_refined [OF this assms(3,4)] assms(5) have "coherent_but b a (db s') (cache s')"
    by (simp add: refined_def)
  then show ?thesis using coherent_reload [of b a s'] by simp
qed

theorem reload_repairs_witness:
  "coherent (db (snd (run_op (RemoveFriend 1 2) cut_off)))
     (cache (reload 2 (snd (run_op (RemoveFriend 1 2) cut_off))))"
proof -
  have "run_op (RemoveFriend 1 2) cut_off = (None, snd (run_op (RemoveFriend 1 2) cut_off))"
    using cut_off_fails by (metis prod.collapse)
  from reload_repairs [OF cut_off_facts(1,2) _ _ this, of 1 2] show ?thesis by simp
qed

definition left_behind :: server where
  "left_behind =
     (let s0 = (start \<lparr>relation_block = [], relation_friend = [], apply_accepter = [],
                       apply_applicant = []\<rparr>)\<lparr>remote_up := (\<lambda>u. u \<noteq> 2)\<rparr>;
          s1 = snd (getRelation 2 1 s0);
          s2 = snd (run_op (AddFriend 1 2) s1)
      in snd (run_op (AddApply 2 1) s2))"

text \<open>Without the reload a holder left behind misleads later requests: user 2's holder is cached,
  user 1 adds user 2 as a friend while the server of 2 is out of reach, and when user 2 then applies
  to user 1 the tables hold a friendship and an application of the same two users.\<close>

lemma stale_holder_corrupts_tables:
  "(1, 2) \<in> set (relation_friend (db left_behind)) \<and>
   (2, 1) \<in> set (apply_applicant (db left_behind)) \<and> \<not> wf_db (db left_behind)"
proof -
  have "(1, 2) \<in> set (relation_friend (db left_behind)) \<and> (2, 1) \<in> set (relation_friend (db left_behind)) \<and>
    (2, 1) \<in> set (apply_applicant (db left_behind))"
    by code_simp
  then show ?thesis unfolding wf_db_def by blast
qed

text \<open>C29. The list queries return strictly ascending ids, exactly those with the asked relation (the
  blocked users include those who block back), whatever \<open>begin\<close> and \<open>limit\<close> are, and
  \<open>getRelation\<close> returns the relation.\<close>

theorem queries_exact:
  assumes "wf_db (db s)" "coherent (db s) (cache s)"
  shows "set (fst (getAppliedSeq u i j s)) = {v. db_rel (db s) u v = Applied} \<and>
    set (fst (getApplySeq u i j s)) = {v. db_rel (db s) u v = Apply} \<and>
    set (fst (getFriendSeq u i j s)) = {v. db_rel (db s) u v = Friend} \<and>
    set (fst (getBlockSeq u i j s)) = {v. db_rel (db s) u v \<in> {Block, BiBlock}} \<and>
    sorted_wrt (<) (fst (getAppliedSeq u i j s)) \<and> sorted_wrt (<) (fst (getApplySeq u i j s)) \<and>
    sorted_wrt (<) (fst (getFriendSeq u i j s)) \<and> sorted_wrt (<) (fst (getBlockSeq u i j s)) \<and>
    fst (getRelation u v s) = (if u = v then Self else db_rel (db s) u v)"
proof -
  have o: "ok s" using assms by (simp add: ok_def)
  show ?thesis
    using seq_sets [OF o] get_seq_exact(1) [OF o] getRelation_exact [OF o, of u v]
    by (auto simp: getAppliedSeq_def getApplySeq_def getFriendSeq_def getBlockSeq_def getRelation_def)
qed

theorem queries_exact_witness:
  "fst (getRelation 1 3 (start sample_db)) = Applied"
  using queries_exact [of "start sample_db" 1 0 0 3] by simp

text \<open>C33. \<open>acceptAllApplied\<close>, \<open>denyAllApplied\<close> and \<open>denyAllApply\<close> settle everything: once the tasks they
  queue have run, every applicant is a friend, nobody is an applicant, or no application of the
  user is left, and no other relation of the user has changed.\<close>

theorem answer_all_settles:
  assumes "wf_db (db s)" "coherent (db s) (cache s)" "\<forall>v. remote_up s v"
    and "t1 = acceptAllApplied u s" "t2 = denyAllApplied u s" "t3 = denyAllApply u s"
  shows "db_rel (db (run_tasks (drop (length (tasks s)) (tasks t1)) t1)) u v =
      (if db_rel (db s) u v = Applied then Friend else db_rel (db s) u v) \<and>
    db_rel (db (run_tasks (drop (length (tasks s)) (tasks t2)) t2)) u v =
      (if db_rel (db s) u v = Applied then NoPath else db_rel (db s) u v) \<and>
    db_rel (db (run_tasks (drop (length (tasks s)) (tasks t3)) t3)) u v =
      (if db_rel (db s) u v = Apply then NoPath else db_rel (db s) u v)"
proof -
  have o: "ok s" using assms(1,2) by (simp add: ok_def)
  note q = seq_sets(1) [OF o, of u 0 "-1", unfolded getAppliedSeq_def]
    seq_sets(2) [OF o, of u 0 "-1", unfolded getApplySeq_def]
  have u: "u \<notin> set (fst (get_seq DESC_APPLIED DESC_MASK_APPLY u s))"
    "u \<notin> set (fst (get_seq DESC_APPLY DESC_MASK u s))"
    using q db_rel_self [OF assms(1)] by simp_all
  have up: "remote_up s w" for w using assms(3) by blast
  note a = all_of_seq [OF o up u(1) settles_requests(1), of t1 v]
    all_of_seq [OF o up u(1) settles_requests(2), of t2 v]
    all_of_seq [OF o up u(2) settles_requests(3), of t3 v]
  show ?thesis
    using a q assms(4-6)
    by (simp add: acceptAllApplied_def denyAllApplied_def denyAllApply_def getAppliedSeq_def
        getApplySeq_def split_beta)
qed

lemma sample_tasks [simp]: "tasks (start sample_db) = []"
  by (simp add: start_def)

theorem answer_all_settles_witness:
  "db_rel (db (run_tasks (tasks (acceptAllApplied 1 (start sample_db))) (acceptAllApplied 1 (start sample_db)))) 1 3
     = Friend"
  using answer_all_settles [of "start sample_db" _ 1 _ _ 3, OF _ _ _ refl refl refl] by simp

text \<open>The count published for the guest requests of a cached user is the number of users who
  applied to that user, capped at 101.\<close>

lemma user_count_capped:
  assumes "wf_db (db s)" "coherent (db s) (cache s)" "cache s u = Some h"
  shows "user_count (SyncUserCount_handle u s) u =
    Some (let n = card {v. db_rel (db s) u v = Applied} in if n > 100 then 101 else n)"
  using assms by (simp add: user_count_exact ok_def)

lemma user_count_capped_witness:
  "user_count (SyncUserCount_handle 1 (snd (locateEntryListHolder 1 (start sample_db)))) 1 =
    Some (let n = card {v. db_rel sample_db 1 v = Applied} in if n > 100 then 101 else n)"
proof -
  let ?s = "start sample_db"
  obtain h s' where l: "locateEntryListHolder 1 ?s = (h, s')" by fastforce
  note lo = locate_ok [OF sample_start(4) l]
  show ?thesis
    using user_count_capped [of s' 1 h] lo by (simp add: l ok_def) (simp add: start_def)
qed

end
