(* ===== verification/Evictor.thy ===== *)
theory Evictor
  imports OcePrelude
begin

text \<open>
  The two in-process caches of \<^verbatim>\<open>UtilCxx/src/Evictor.h\<close>. A cache is a hash map from key to entry and a
  list of keys in order of use; an entry holds the iterator of its list node. A node is
  identified here by a number, \<open>list::erase\<close> of an iterator deletes the node of that number.
  \<open>SizedEvictor\<close> drops the least recently used keys beyond its size, \<open>TimedEvictor\<close>
  those whose time stamp is too old. Both are refined to a list of key-object pairs, most recently
  used first. The locale \<open>cache\<close> states what users rely on: whatever is dropped, a cache only
  returns what was last put there.
\<close>

section \<open>Nodes\<close>

type_synonym 'k node_list = "(nat \<times> 'k) list"

definition node_erase :: "nat \<Rightarrow> 'k node_list \<Rightarrow> 'k node_list" where
  "node_erase p q = [x \<leftarrow> q. fst x \<noteq> p]"

definition map_erase :: "'k \<Rightarrow> ('k \<times> 'e) list \<Rightarrow> ('k \<times> 'e) list" where
  "map_erase k m = [x \<leftarrow> m. fst x \<noteq> k]"

lemma map_of_erase: "map_of (map_erase k m) = (map_of m)(k := None)"
  by (induction m) (auto simp: map_erase_def fun_eq_iff)

lemma map_erase_keys: "fst ` set (map_erase k m) = fst ` set m - {k}"
  by (auto simp: map_erase_def)

lemma distinct_map_erase: "distinct (map fst m) \<Longrightarrow> distinct (map fst (map_erase k m))"
  by (simp add: map_erase_def distinct_map inj_on_def)

lemma map_erase_less: "map_of m k = Some e \<Longrightarrow> length (map_erase k m) < length m"
  unfolding map_erase_def by (rule length_filter_less) (auto dest: map_of_SomeD)

lemma map_erase_le: "length (map_erase k m) \<le> length m"
  by (simp add: map_erase_def)

section \<open>The cache with a size\<close>

record 'o SEntry =
  s_obj :: 'o
  s_pos :: nat

record ('k, 'o) SizedEvictor =
  s_map :: "('k \<times> 'o SEntry) list"
  s_queue :: "'k node_list"
  s_next :: nat
  s_size :: "64 word"

definition sized_new :: "64 word \<Rightarrow> ('k, 'o) SizedEvictor" where
  "sized_new n = \<lparr>s_map = [], s_queue = [], s_next = 0, s_size = n\<rparr>"

definition sized_set_size :: "64 word \<Rightarrow> ('k, 'o) SizedEvictor \<Rightarrow> ('k, 'o) SizedEvictor" where
  "sized_set_size n s = s\<lparr>s_size := n\<rparr>"

definition sized_size :: "('k, 'o) SizedEvictor \<Rightarrow> nat" where
  "sized_size s = length (s_map s)"

text \<open>\<open>hook\<close> puts a node for the key at the front and stores its iterator in the entry.\<close>

definition sized_hook :: "'k \<Rightarrow> ('k, 'o) SizedEvictor \<Rightarrow> ('k, 'o) SizedEvictor" where
  "sized_hook k s = s\<lparr>s_queue := (s_next s, k) # s_queue s, s_next := Suc (s_next s),
     s_map := map (\<lambda>(k', e). (k', if k' = k then e\<lparr>s_pos := s_next s\<rparr> else e)) (s_map s)\<rparr>"

definition sized_locate :: "'k \<Rightarrow> 'o \<Rightarrow> ('k, 'o) SizedEvictor \<Rightarrow> 'o \<times> ('k, 'o) SizedEvictor" where
  "sized_locate k def s =
     (case map_of (s_map s) k of
        None \<Rightarrow> (def, s)
      | Some e \<Rightarrow> (s_obj e, sized_hook k (s\<lparr>s_queue := node_erase (s_pos e) (s_queue s)\<rparr>)))"

definition sized_find :: "'k \<Rightarrow> 'o \<Rightarrow> ('k, 'o) SizedEvictor \<Rightarrow> 'o" where
  "sized_find k def s = (case map_of (s_map s) k of None \<Rightarrow> def | Some e \<Rightarrow> s_obj e)"

text \<open>
  \<open>evict\<close> drops keys from the back of the list while there are too many (an empty list stops the loop
  here; it cannot be empty then).
\<close>

function sized_evict_loop :: "('k, 'o) SizedEvictor \<Rightarrow> ('k, 'o) SizedEvictor" where
  "sized_evict_loop s =
     (if length (s_map s) > unat (s_size s) \<and> s_queue s \<noteq> []
      then sized_evict_loop
             (s\<lparr>s_queue := butlast (s_queue s), s_map := map_erase (snd (last (s_queue s))) (s_map s)\<rparr>)
      else s)"
  by pat_completeness auto
termination
  by (relation "measure (\<lambda>s. length (s_queue s))") auto

declare sized_evict_loop.simps [simp del]

definition sized_evict :: "('k, 'o) SizedEvictor \<Rightarrow> ('k, 'o) SizedEvictor" where
  "sized_evict s = (if 0 < s_size s then sized_evict_loop s else s)"

definition sized_erase :: "'k \<Rightarrow> 'o SEntry \<Rightarrow> ('k, 'o) SizedEvictor \<Rightarrow> ('k, 'o) SizedEvictor" where
  "sized_erase k e s =
     s\<lparr>s_queue := node_erase (s_pos e) (s_queue s), s_map := map_erase k (s_map s)\<rparr>"

text \<open>\<open>add\<close> inserts, and where the key is taken erases the old entry and tries again.\<close>

function sized_add :: "'o \<Rightarrow> 'k \<Rightarrow> ('k, 'o) SizedEvictor \<Rightarrow> ('k, 'o) SizedEvictor" where
  "sized_add obj k s =
     (case map_of (s_map s) k of
        None \<Rightarrow> sized_evict (sized_hook k (s\<lparr>s_map := (k, \<lparr>s_obj = obj, s_pos = 0\<rparr>) # s_map s\<rparr>))
      | Some e \<Rightarrow> sized_add obj k (sized_erase k e s))"
  by pat_completeness auto
termination
  by (relation "measure (\<lambda>(obj, k, s). length (s_map s))") (auto simp: sized_erase_def map_erase_less)

declare sized_add.simps [simp del]

definition sized_remove :: "'k \<Rightarrow> ('k, 'o) SizedEvictor \<Rightarrow> 'o option \<times> ('k, 'o) SizedEvictor" where
  "sized_remove k s =
     (case map_of (s_map s) k of
        None \<Rightarrow> (None, s)
      | Some e \<Rightarrow> (Some (s_obj e), sized_erase k e s))"

definition sized_clear :: "('k, 'o) SizedEvictor \<Rightarrow> ('k, 'o) SizedEvictor" where
  "sized_clear s = s\<lparr>s_map := [], s_queue := []\<rparr>"

definition sized_has :: "'k \<Rightarrow> ('k, 'o) SizedEvictor \<Rightarrow> bool" where
  "sized_has k s \<longleftrightarrow> map_of (s_map s) k \<noteq> None"

section \<open>The invariant of the size cache\<close>

text \<open>Map and list hold the same keys, every entry points at the node of its key, node numbers are
  fresh.\<close>

definition linked :: "('k \<rightharpoonup> nat) \<Rightarrow> 'k node_list \<Rightarrow> nat \<Rightarrow> bool" where
  "linked pos q n \<longleftrightarrow> distinct (map fst q) \<and> distinct (map snd q) \<and> (\<forall>x \<in> set q. fst x < n) \<and>
     (\<forall>k p. pos k = Some p \<longleftrightarrow> (p, k) \<in> set q)"

lemma linked_empty: "linked Map.empty [] n"
  by (simp add: linked_def)

lemma linked_hook:
  "linked pos q n \<Longrightarrow> pos k = None \<Longrightarrow> linked (pos(k \<mapsto> n)) ((n, k) # q) (Suc n)"
  unfolding linked_def by force

lemma node_erase_snd:
  assumes "linked pos q n" "pos k = Some p"
  shows "node_erase p q = [x \<leftarrow> q. snd x \<noteq> k]"
proof -
  have "fst x = p \<longleftrightarrow> snd x = k" if "x \<in> set q" for x
  proof -
    have pk: "(p, k) \<in> set q" using assms by (simp add: linked_def)
    have "inj_on fst (set q)" "inj_on snd (set q)" using assms(1) by (simp_all add: linked_def distinct_map)
    then show ?thesis using that pk by (metis fst_conv snd_conv inj_onD)
  qed
  then show ?thesis unfolding node_erase_def by (intro filter_cong) auto
qed

lemma linked_erase:
  assumes "linked pos q n" "pos k = Some p"
  shows "linked (pos(k := None)) (node_erase p q) n"
  using assms(1) unfolding node_erase_snd [OF assms] linked_def
  by (auto simp: distinct_map_filter)

lemma linked_last:
  assumes "linked pos q n" "q \<noteq> []"
  shows "pos (snd (last q)) = Some (fst (last q))" "node_erase (fst (last q)) q = butlast q"
proof -
  have d: "distinct (map fst q)" and i: "\<And>k p. pos k = Some p \<longleftrightarrow> (p, k) \<in> set q"
    using assms(1) by (simp_all add: linked_def)
  show "pos (snd (last q)) = Some (fst (last q))" using assms(2) i by simp
  obtain xs x where q: "q = xs @ [x]" using assms(2) by (metis append_butlast_last_id)
  have "[y \<leftarrow> xs. fst y \<noteq> fst x] = xs" unfolding filter_id_conv using d by (simp add: q) (metis image_eqI)
  then show "node_erase (fst (last q)) q = butlast q" by (simp add: q node_erase_def)
qed

lemma linked_length:
  assumes "linked (map_option f \<circ> map_of m) q n" "distinct (map fst m)"
  shows "length m = length q"
proof -
  have "k \<in> dom (map_of m) \<longleftrightarrow> k \<in> snd ` set q" for k
  proof -
    have "map_option f (map_of m k) = Some p \<longleftrightarrow> (p, k) \<in> set q" for p
      using assms(1) by (simp add: linked_def)
    then have "(\<exists>p. map_option f (map_of m k) = Some p) \<longleftrightarrow> (\<exists>p. (p, k) \<in> set q)" by simp
    then show ?thesis by (cases "map_of m k") (force simp: image_iff)+
  qed
  then have "dom (map_of m) = snd ` set q" by blast
  then have "fst ` set m = snd ` set q" by (simp add: dom_map_of_conv_image_fst)
  moreover have "card (fst ` set m) = length m" "card (snd ` set q) = length q"
    using distinct_card [of "map fst m"] distinct_card [of "map snd q"] assms
    by (simp_all add: linked_def)
  ultimately show ?thesis by simp
qed


definition s_links :: "('k, 'o) SizedEvictor \<Rightarrow> 'k \<rightharpoonup> nat" where
  "s_links s = map_option s_pos \<circ> map_of (s_map s)"

definition sized_wf :: "('k, 'o) SizedEvictor \<Rightarrow> bool" where
  "sized_wf s \<longleftrightarrow> distinct (map fst (s_map s)) \<and> linked (s_links s) (s_queue s) (s_next s)"

text \<open>The abstract cache: the pairs of key and object in the order of the list.\<close>

definition s_view :: "('k, 'o) SizedEvictor \<Rightarrow> 'k \<rightharpoonup> 'o" where
  "s_view s k = map_option s_obj (map_of (s_map s) k)"

definition sized_abs :: "('k, 'o) SizedEvictor \<Rightarrow> ('k \<times> 'o) list" where
  "sized_abs s = map (\<lambda>(p, k). (k, the (s_view s k))) (s_queue s)"

lemma sized_wf_length: "sized_wf s \<Longrightarrow> length (s_map s) = length (s_queue s)"
  unfolding sized_wf_def s_links_def by (blast intro: linked_length)

lemma sized_abs_length: "sized_wf s \<Longrightarrow> length (sized_abs s) = sized_size s"
  by (simp add: sized_abs_def sized_size_def sized_wf_length)

lemma sized_abs_keys: "map fst (sized_abs s) = map snd (s_queue s)"
  by (simp add: sized_abs_def comp_def split_beta)

lemma s_links_view: "s_links s k = None \<longleftrightarrow> s_view s k = None"
  by (simp add: s_links_def s_view_def)

lemma sized_abs_map:
  assumes "sized_wf s" shows "map_of (sized_abs s) = s_view s"
proof
  fix k
  have q: "map_of (map (\<lambda>(p, k). (k, f k)) xs) k = (if k \<in> snd ` set xs then Some (f k) else None)"
    for f :: "'a \<Rightarrow> 'b" and xs :: "'a node_list"
    by (induction xs) auto
  have "k \<in> snd ` set (s_queue s) \<longleftrightarrow> s_links s k \<noteq> None"
    using assms by (cases "s_links s k") (force simp: sized_wf_def linked_def)+
  then show "map_of (sized_abs s) k = s_view s k"
    unfolding sized_abs_def q by (auto simp: s_links_view)
qed

text \<open>Two changes of the concrete cache, seen from outside: erasing a key and hooking one in.\<close>

lemma sized_erase_effect:
  assumes "sized_wf s" "map_of (s_map s) k = Some e"
  shows "sized_wf (sized_erase k e s)" "s_view (sized_erase k e s) = (s_view s)(k := None)"
    "sized_abs (sized_erase k e s) = [x \<leftarrow> sized_abs s. fst x \<noteq> k]"
    "s_size (sized_erase k e s) = s_size s"
proof -
  have pos: "s_links s k = Some (s_pos e)" using assms(2) by (simp add: s_links_def)
  have l: "s_links (sized_erase k e s) = (s_links s)(k := None)"
    by (auto simp: s_links_def sized_erase_def map_of_erase)
  show "sized_wf (sized_erase k e s)"
    using assms(1) linked_erase [where pos = "s_links s", OF _ pos] unfolding sized_wf_def l
    by (simp add: sized_erase_def distinct_map_erase)
  show v: "s_view (sized_erase k e s) = (s_view s)(k := None)"
    by (auto simp: s_view_def sized_erase_def map_of_erase)
  have q: "s_queue (sized_erase k e s) = [x \<leftarrow> s_queue s. snd x \<noteq> k]"
    using node_erase_snd [where pos = "s_links s", OF _ pos] assms(1) by (auto simp: sized_wf_def sized_erase_def)
  show "sized_abs (sized_erase k e s) = [x \<leftarrow> sized_abs s. fst x \<noteq> k]"
    unfolding sized_abs_def q v filter_map
    by (rule map_cong [OF filter_cong]) (auto simp: comp_def)
  show "s_size (sized_erase k e s) = s_size s" by (simp add: sized_erase_def)
qed

lemma map_of_hook:
  "map_of (map (\<lambda>(k', e). (k', if k' = k then f e else e)) m) j =
     (if j = k then map_option f (map_of m j) else map_of m j)"
  by (induction m) auto

text \<open>Hooking a key whose entry is in the map but whose node is not in the list.\<close>

lemma sized_hook_effect:
  assumes "distinct (map fst (s_map s))" "linked ((s_links s)(k := None)) (s_queue s) (s_next s)"
    "s_view s k = Some obj"
  shows "sized_wf (sized_hook k s)" "s_view (sized_hook k s) = s_view s"
    "sized_abs (sized_hook k s) = (k, obj) # sized_abs s"
proof -
  obtain e where e: "map_of (s_map s) k = Some e" using assms(3) by (auto simp: s_view_def)
  have l: "s_links (sized_hook k s) = ((s_links s)(k := None))(k \<mapsto> s_next s)"
    using e by (auto simp: s_links_def sized_hook_def map_of_hook fun_eq_iff)
  have k: "fst \<circ> (\<lambda>(k', e). (k', if k' = k then f e else e)) = fst" for f :: "'b SEntry \<Rightarrow> 'b SEntry"
    by auto
  show "sized_wf (sized_hook k s)"
    using linked_hook [OF assms(2), of k] assms(1) k unfolding sized_wf_def l
    by (simp add: sized_hook_def)
  show v: "s_view (sized_hook k s) = s_view s"
    by (auto simp: s_view_def sized_hook_def map_of_hook fun_eq_iff option.map_comp comp_def)
  show "sized_abs (sized_hook k s) = (k, obj) # sized_abs s"
    unfolding sized_abs_def v using assms(3) by (simp add: sized_hook_def)
qed


section \<open>The size cache implements a list in order of use\<close>

text \<open>The abstract operations.\<close>

definition lru_drop :: "'k \<Rightarrow> ('k \<times> 'o) list \<Rightarrow> ('k \<times> 'o) list" where
  "lru_drop k xs = [x \<leftarrow> xs. fst x \<noteq> k]"

definition lru_touch :: "'k \<Rightarrow> 'o \<Rightarrow> ('k \<times> 'o) list \<Rightarrow> ('k \<times> 'o) list" where
  "lru_touch k obj xs = (k, obj) # lru_drop k xs"

definition lru_limit :: "64 word \<Rightarrow> 'a list \<Rightarrow> 'a list" where
  "lru_limit n xs = (if 0 < n then take (unat n) xs else xs)"

lemma sized_locate_effect:
  assumes "sized_wf s" "s_view s k = Some obj"
  shows "fst (sized_locate k def s) = obj" "sized_wf (snd (sized_locate k def s))"
    "s_view (snd (sized_locate k def s)) = s_view s"
    "sized_abs (snd (sized_locate k def s)) = lru_touch k obj (sized_abs s)"
proof -
  obtain e where e: "map_of (s_map s) k = Some e" "s_obj e = obj"
    using assms(2) by (auto simp: s_view_def)
  let ?s = "s\<lparr>s_queue := node_erase (s_pos e) (s_queue s)\<rparr>"
  have pos: "s_links s k = Some (s_pos e)" using e by (simp add: s_links_def)
  have l: "linked (s_links s) (s_queue s) (s_next s)" using assms(1) by (simp add: sized_wf_def)
  have same: "s_links ?s = s_links s" "s_view ?s = s_view s" by (auto simp: s_links_def s_view_def)
  have abs: "sized_abs ?s = lru_drop k (sized_abs s)"
    unfolding sized_abs_def lru_drop_def same(2) using node_erase_snd [OF l pos]
    by (simp add: filter_map comp_def split_beta)
  have "distinct (map fst (s_map ?s))" using assms(1) by (simp add: sized_wf_def)
  moreover have "linked ((s_links ?s)(k := None)) (s_queue ?s) (s_next ?s)"
    unfolding same using linked_erase [OF l pos] by simp
  moreover have "s_view ?s k = Some obj" using assms(2) same by simp
  ultimately have h: "sized_wf (sized_hook k ?s)" "s_view (sized_hook k ?s) = s_view ?s"
    "sized_abs (sized_hook k ?s) = (k, obj) # sized_abs ?s"
    by (rule sized_hook_effect)+
  have r: "sized_locate k def s = (obj, sized_hook k ?s)" using e by (simp add: sized_locate_def)
  show "fst (sized_locate k def s) = obj" "sized_wf (snd (sized_locate k def s))"
    "s_view (snd (sized_locate k def s)) = s_view s"
    "sized_abs (snd (sized_locate k def s)) = lru_touch k obj (sized_abs s)"
    using h same abs by (simp_all add: r lru_touch_def)
qed

lemma sized_evict_loop_effect:
  assumes "sized_wf s"
  shows "sized_wf (sized_evict_loop s) \<and> sized_abs (sized_evict_loop s) = take (unat (s_size s)) (sized_abs s) \<and>
    s_size (sized_evict_loop s) = s_size s"
  using assms
proof (induction s rule: sized_evict_loop.induct)
  case (1 s)
  note wf = "1.prems"
  show ?case
  proof (cases "length (s_map s) > unat (s_size s) \<and> s_queue s \<noteq> []")
    case True
    let ?k = "snd (last (s_queue s))"
    have l: "linked (s_links s) (s_queue s) (s_next s)" using wf by (simp add: sized_wf_def)
    note last = linked_last [OF l conjunct2 [OF True]]
    obtain e where e: "map_of (s_map s) ?k = Some e" "s_pos e = fst (last (s_queue s))"
      using last(1) by (auto simp: s_links_def)
    let ?t = "s\<lparr>s_queue := butlast (s_queue s), s_map := map_erase ?k (s_map s)\<rparr>"
    have t: "?t = sized_erase ?k e s" using e last(2) by (simp add: sized_erase_def)
    note ef = sized_erase_effect [OF wf e(1), folded t]
    have "[x \<leftarrow> sized_abs s. fst x \<noteq> ?k] = butlast (sized_abs s)"
    proof -
      obtain xs x where q: "s_queue s = xs @ [x]" using True by (metis append_butlast_last_id)
      have "\<forall>y \<in> set xs. snd y \<noteq> snd x" using l by (auto simp: linked_def q) (metis image_eqI snd_conv)
      then show ?thesis by (auto simp: sized_abs_def q filter_id_conv split_beta)
    qed
    then have b: "sized_abs ?t = butlast (sized_abs s)" using ef(3) by simp
    have len: "unat (s_size s) < length (sized_abs s)"
      using True sized_abs_length [OF wf] by (simp add: sized_size_def)
    have "take (unat (s_size s)) (butlast (sized_abs s)) = take (unat (s_size s)) (sized_abs s)"
      using len by (rule take_butlast)
    then show ?thesis
      using "1.IH" [OF True ef(1)] True b ef(4) by (simp add: sized_evict_loop.simps [of s])
  next
    case False
    then have "length (sized_abs s) \<le> unat (s_size s)"
      using sized_abs_length [OF wf] sized_wf_length [OF wf] by (auto simp: sized_size_def)
    moreover have "sized_evict_loop s = s"
      using False by (subst sized_evict_loop.simps) (rule if_not_P)
    ultimately show ?thesis using wf by simp
  qed
qed

lemma sized_add_effect:
  assumes "sized_wf s"
  shows "sized_wf (sized_add obj k s) \<and> s_size (sized_add obj k s) = s_size s \<and>
    sized_abs (sized_add obj k s) = lru_limit (s_size s) (lru_touch k obj (sized_abs s))"
proof -
  have new: "sized_wf (sized_add obj k s) \<and> s_size (sized_add obj k s) = s_size s \<and>
      sized_abs (sized_add obj k s) = lru_limit (s_size s) ((k, obj) # sized_abs s)"
    if wf: "sized_wf s" and none: "map_of (s_map s) k = None" for s
  proof -
    let ?t = "s\<lparr>s_map := (k, \<lparr>s_obj = obj, s_pos = 0\<rparr>) # s_map s\<rparr>"
    have l: "(s_links ?t)(k := None) = s_links s" and v: "s_view ?t = (s_view s)(k \<mapsto> obj)"
      using none by (auto simp: s_links_def s_view_def)
    have "distinct (map fst (s_map ?t))"
      using wf none by (simp add: sized_wf_def map_of_eq_None_iff)
    moreover have "linked ((s_links ?t)(k := None)) (s_queue ?t) (s_next ?t)"
      unfolding l using wf by (simp add: sized_wf_def)
    ultimately have h: "sized_wf (sized_hook k ?t)" "sized_abs (sized_hook k ?t) = (k, obj) # sized_abs ?t"
      using v by (auto intro: sized_hook_effect)
    have "k \<notin> snd ` set (s_queue s)"
      using wf none by (force simp: sized_wf_def linked_def s_links_def)
    then have "sized_abs ?t = sized_abs s"
      unfolding sized_abs_def v by (auto simp: image_iff)
    moreover have "s_size (sized_hook k ?t) = s_size s" by (simp add: sized_hook_def)
    ultimately show ?thesis
      using h sized_evict_loop_effect [OF h(1)] none
      by (simp add: sized_add.simps [of obj k s] sized_evict_def lru_limit_def)
  qed
  show ?thesis
  proof (cases "map_of (s_map s) k")
    case None
    then have "lru_drop k (sized_abs s) = sized_abs s"
      using sized_abs_map [OF assms] unfolding lru_drop_def filter_id_conv
      by (metis map_of_eq_None_iff image_eqI s_view_def option.map_disc_iff)
    with new [OF assms None] show ?thesis by (simp add: lru_touch_def)
  next
    case (Some e)
    note ef = sized_erase_effect [OF assms Some]
    have "map_of (s_map (sized_erase k e s)) k = None" by (simp add: sized_erase_def map_of_erase)
    from new [OF ef(1) this] show ?thesis
      using Some ef(3,4) by (simp add: sized_add.simps [of obj k s] lru_touch_def lru_drop_def)
  qed
qed


section \<open>The cache with a duration\<close>

record 'o TEntry =
  t_obj :: 'o
  t_pos :: nat
  t_time :: int

record ('k, 'o) TimedEvictor =
  t_map :: "('k \<times> 'o TEntry) list"
  t_queue :: "'k node_list"
  t_next :: nat
  t_duration :: int

text \<open>\<open>expired\<close> takes an \<open>int\<close>: the 64-bit time passed to it is cut to 32 bits.\<close>

definition expired :: "int \<Rightarrow> 'o TEntry \<Rightarrow> bool" where
  "expired lastTime e \<longleftrightarrow> t_time e < to_int32 lastTime"

definition timed_new :: "int \<Rightarrow> ('k, 'o) TimedEvictor" where
  "timed_new d = \<lparr>t_map = [], t_queue = [], t_next = 0, t_duration = d\<rparr>"

definition timed_set_duration :: "int \<Rightarrow> ('k, 'o) TimedEvictor \<Rightarrow> ('k, 'o) TimedEvictor" where
  "timed_set_duration d s = s\<lparr>t_duration := d\<rparr>"

text \<open>\<open>hook\<close> also stamps the entry with the time \<open>now\<close>; \<open>add\<close> sets both itself.\<close>

definition timed_hook :: "int \<Rightarrow> 'k \<Rightarrow> ('k, 'o) TimedEvictor \<Rightarrow> ('k, 'o) TimedEvictor" where
  "timed_hook now k s = s\<lparr>t_queue := (t_next s, k) # t_queue s, t_next := Suc (t_next s),
     t_map := map (\<lambda>(k', e). (k', if k' = k then e\<lparr>t_pos := t_next s, t_time := now\<rparr> else e)) (t_map s)\<rparr>"

definition timed_locate :: "int \<Rightarrow> 'k \<Rightarrow> 'o \<Rightarrow> ('k, 'o) TimedEvictor \<Rightarrow> 'o \<times> ('k, 'o) TimedEvictor" where
  "timed_locate now k def s =
     (case map_of (t_map s) k of
        None \<Rightarrow> (def, s)
      | Some e \<Rightarrow> (t_obj e, timed_hook now k (s\<lparr>t_queue := node_erase (t_pos e) (t_queue s)\<rparr>)))"

definition timed_find :: "'k \<Rightarrow> 'o \<Rightarrow> ('k, 'o) TimedEvictor \<Rightarrow> 'o" where
  "timed_find k def s = (case map_of (t_map s) k of None \<Rightarrow> def | Some e \<Rightarrow> t_obj e)"

definition timed_erase :: "'k \<Rightarrow> 'o TEntry \<Rightarrow> ('k, 'o) TimedEvictor \<Rightarrow> ('k, 'o) TimedEvictor" where
  "timed_erase k e s =
     s\<lparr>t_queue := node_erase (t_pos e) (t_queue s), t_map := map_erase k (t_map s)\<rparr>"

function timed_evict_loop :: "int \<Rightarrow> ('k, 'o) TimedEvictor \<Rightarrow> ('k, 'o) TimedEvictor" where
  "timed_evict_loop lastTime s =
     (if t_queue s = [] then s
      else (case map_of (t_map s) (snd (last (t_queue s))) of
              None \<Rightarrow> s
            | Some e \<Rightarrow>
                if \<not> expired lastTime e then s
                else timed_evict_loop lastTime (timed_erase (snd (last (t_queue s))) e s)))"
  by pat_completeness auto
termination
  by (relation "measure (\<lambda>(l, s). length (t_map s))") (auto simp: timed_erase_def map_erase_less)

declare timed_evict_loop.simps [simp del]

definition timed_evict :: "int \<Rightarrow> ('k, 'o) TimedEvictor \<Rightarrow> ('k, 'o) TimedEvictor" where
  "timed_evict now s = (if 0 < t_duration s then timed_evict_loop (now - t_duration s) s else s)"

text \<open>\<open>add\<close> reads the clock twice: for the time stamp (\<open>now\<close>) and when it evicts (\<open>later\<close>).\<close>

function timed_add :: "int \<Rightarrow> int \<Rightarrow> 'o \<Rightarrow> 'k \<Rightarrow> ('k, 'o) TimedEvictor \<Rightarrow> ('k, 'o) TimedEvictor" where
  "timed_add now later obj k s =
     (case map_of (t_map s) k of
        None \<Rightarrow> timed_evict later
          (timed_hook now k (s\<lparr>t_map := (k, \<lparr>t_obj = obj, t_pos = 0, t_time = now\<rparr>) # t_map s\<rparr>))
      | Some e \<Rightarrow> timed_add now later obj k (timed_erase k e s))"
  by pat_completeness auto
termination
  by (relation "measure (\<lambda>(now, later, obj, k, s). length (t_map s))")
     (auto simp: timed_erase_def map_erase_less)

declare timed_add.simps [simp del]

definition timed_remove :: "'k \<Rightarrow> ('k, 'o) TimedEvictor \<Rightarrow> 'o option \<times> ('k, 'o) TimedEvictor" where
  "timed_remove k s =
     (case map_of (t_map s) k of
        None \<Rightarrow> (None, s)
      | Some e \<Rightarrow> (Some (t_obj e), timed_erase k e s))"

definition timed_clear :: "('k, 'o) TimedEvictor \<Rightarrow> ('k, 'o) TimedEvictor" where
  "timed_clear s = s\<lparr>t_map := [], t_queue := []\<rparr>"

definition timed_size :: "('k, 'o) TimedEvictor \<Rightarrow> nat" where
  "timed_size s = length (t_map s)"

definition timed_has :: "'k \<Rightarrow> ('k, 'o) TimedEvictor \<Rightarrow> bool" where
  "timed_has k s \<longleftrightarrow> map_of (t_map s) k \<noteq> None"

text \<open>Its invariant and its view; objects come with their time stamps.\<close>

definition t_links :: "('k, 'o) TimedEvictor \<Rightarrow> 'k \<rightharpoonup> nat" where
  "t_links s = map_option t_pos \<circ> map_of (t_map s)"

definition timed_wf :: "('k, 'o) TimedEvictor \<Rightarrow> bool" where
  "timed_wf s \<longleftrightarrow> distinct (map fst (t_map s)) \<and> linked (t_links s) (t_queue s) (t_next s)"

definition t_view :: "('k, 'o) TimedEvictor \<Rightarrow> 'k \<rightharpoonup> 'o \<times> int" where
  "t_view s k = map_option (\<lambda>e. (t_obj e, t_time e)) (map_of (t_map s) k)"

definition timed_abs :: "('k, 'o) TimedEvictor \<Rightarrow> ('k \<times> 'o \<times> int) list" where
  "timed_abs s = map (\<lambda>(p, k). (k, the (t_view s k))) (t_queue s)"

lemma map_of_keys:
  "map_of (map (\<lambda>(p, k). (k, f k)) xs) k = (if k \<in> snd ` set xs then Some (f k) else None)"
  by (induction xs) auto

lemma linked_member: "linked pos q n \<Longrightarrow> k \<in> snd ` set q \<longleftrightarrow> pos k \<noteq> None"
  by (cases "pos k") (force simp: linked_def)+

lemma timed_abs_map:
  assumes "timed_wf s" shows "map_of (timed_abs s) = t_view s"
proof
  fix k
  have "k \<in> snd ` set (t_queue s) \<longleftrightarrow> t_view s k \<noteq> None"
    using linked_member [of "t_links s" "t_queue s" "t_next s" k] assms
    by (simp add: timed_wf_def t_links_def t_view_def)
  then show "map_of (timed_abs s) k = t_view s k" unfolding timed_abs_def map_of_keys
    by (cases "t_view s k") auto
qed

lemma timed_erase_effect:
  assumes "timed_wf s" "map_of (t_map s) k = Some e"
  shows "timed_wf (timed_erase k e s)" "t_view (timed_erase k e s) = (t_view s)(k := None)"
    "timed_abs (timed_erase k e s) = lru_drop k (timed_abs s)"
    "t_duration (timed_erase k e s) = t_duration s"
proof -
  have pos: "t_links s k = Some (t_pos e)" using assms(2) by (simp add: t_links_def)
  have l: "t_links (timed_erase k e s) = (t_links s)(k := None)"
    by (auto simp: t_links_def timed_erase_def map_of_erase)
  show "timed_wf (timed_erase k e s)"
    using assms(1) linked_erase [where pos = "t_links s", OF _ pos] unfolding timed_wf_def l
    by (simp add: timed_erase_def distinct_map_erase)
  show v: "t_view (timed_erase k e s) = (t_view s)(k := None)"
    by (auto simp: t_view_def timed_erase_def map_of_erase)
  have q: "t_queue (timed_erase k e s) = [x \<leftarrow> t_queue s. snd x \<noteq> k]"
    using node_erase_snd [where pos = "t_links s", OF _ pos] assms(1)
    by (auto simp: timed_wf_def timed_erase_def)
  show "timed_abs (timed_erase k e s) = lru_drop k (timed_abs s)"
    unfolding timed_abs_def lru_drop_def q v filter_map
    by (rule map_cong [OF filter_cong]) (auto simp: comp_def)
  show "t_duration (timed_erase k e s) = t_duration s" by (simp add: timed_erase_def)
qed

lemma timed_hook_effect:
  assumes "distinct (map fst (t_map s))" "linked ((t_links s)(k := None)) (t_queue s) (t_next s)"
    "t_view s k = Some (obj, t)"
  shows "timed_wf (timed_hook now k s)" "t_view (timed_hook now k s) = (t_view s)(k \<mapsto> (obj, now))"
    "timed_abs (timed_hook now k s) = (k, obj, now) # map (\<lambda>(p, j). (j, the (((t_view s)(k \<mapsto> (obj, now))) j))) (t_queue s)"
proof -
  obtain e where e: "map_of (t_map s) k = Some e" "t_obj e = obj" using assms(3) by (auto simp: t_view_def)
  have l: "t_links (timed_hook now k s) = ((t_links s)(k := None))(k \<mapsto> t_next s)"
    using e by (auto simp: t_links_def timed_hook_def map_of_hook fun_eq_iff)
  have k: "fst \<circ> (\<lambda>(k', e). (k', if k' = k then f e else e)) = fst" for f :: "'b TEntry \<Rightarrow> 'b TEntry"
    by auto
  show "timed_wf (timed_hook now k s)"
    using linked_hook [OF assms(2), of k] assms(1) k unfolding timed_wf_def l
    by (simp add: timed_hook_def)
  show v: "t_view (timed_hook now k s) = (t_view s)(k \<mapsto> (obj, now))"
    using e by (auto simp: t_view_def timed_hook_def map_of_hook fun_eq_iff)
  show "timed_abs (timed_hook now k s) = (k, obj, now) # map (\<lambda>(p, j). (j, the (((t_view s)(k \<mapsto> (obj, now))) j))) (t_queue s)"
    unfolding timed_abs_def v by (simp add: timed_hook_def)
qed


text \<open>The abstract operations of the timed cache.\<close>

definition lru_expire :: "int \<Rightarrow> ('k \<times> 'o \<times> int) list \<Rightarrow> ('k \<times> 'o \<times> int) list" where
  "lru_expire l xs = rev (dropWhile (\<lambda>(k, obj, t). t < l) (rev xs))"

lemma lru_drop_view:
  "map (\<lambda>(p, j). (j, the ((v(k \<mapsto> x)) j))) [y \<leftarrow> q. snd y \<noteq> k] =
     lru_drop k (map (\<lambda>(p, j). (j, the (v j))) q)"
  unfolding lru_drop_def filter_map by (rule map_cong [OF filter_cong]) (auto simp: comp_def)

lemma timed_locate_effect:
  assumes "timed_wf s" "t_view s k = Some (obj, t)"
  shows "fst (timed_locate now k def s) = obj" "timed_wf (snd (timed_locate now k def s))"
    "timed_abs (snd (timed_locate now k def s)) = lru_touch k (obj, now) (timed_abs s)"
    "t_view (snd (timed_locate now k def s)) = (t_view s)(k \<mapsto> (obj, now))"
proof -
  obtain e where e: "map_of (t_map s) k = Some e" "t_obj e = obj"
    using assms(2) by (auto simp: t_view_def)
  let ?s = "s\<lparr>t_queue := node_erase (t_pos e) (t_queue s)\<rparr>"
  have pos: "t_links s k = Some (t_pos e)" using e by (simp add: t_links_def)
  have l: "linked (t_links s) (t_queue s) (t_next s)" using assms(1) by (simp add: timed_wf_def)
  have same: "t_links ?s = t_links s" "t_view ?s = t_view s" by (auto simp: t_links_def t_view_def)
  have "distinct (map fst (t_map ?s))" using assms(1) by (simp add: timed_wf_def)
  moreover have "linked ((t_links ?s)(k := None)) (t_queue ?s) (t_next ?s)"
    unfolding same using linked_erase [OF l pos] by simp
  moreover have "t_view ?s k = Some (obj, t)" using assms(2) same by simp
  ultimately have h: "timed_wf (timed_hook now k ?s)" "t_view (timed_hook now k ?s) = (t_view ?s)(k \<mapsto> (obj, now))"
    "timed_abs (timed_hook now k ?s) =
       (k, obj, now) # map (\<lambda>(p, j). (j, the (((t_view ?s)(k \<mapsto> (obj, now))) j))) (t_queue ?s)"
    by (rule timed_hook_effect)+
  have r: "timed_locate now k def s = (obj, timed_hook now k ?s)" using e by (simp add: timed_locate_def)
  show "fst (timed_locate now k def s) = obj" "timed_wf (snd (timed_locate now k def s))"
    "t_view (snd (timed_locate now k def s)) = (t_view s)(k \<mapsto> (obj, now))"
    using h same by (simp_all add: r)
  have "node_erase (t_pos e) (t_queue s) = [y \<leftarrow> t_queue s. snd y \<noteq> k]" by (rule node_erase_snd [OF l pos])
  then have "map (\<lambda>(p, j). (j, the (((t_view s)(k \<mapsto> (obj, now))) j))) (t_queue ?s) = lru_drop k (timed_abs s)"
    by (simp add: lru_drop_view timed_abs_def del: fun_upd_apply)
  then show "timed_abs (snd (timed_locate now k def s)) = lru_touch k (obj, now) (timed_abs s)"
    using h(3) by (simp only: r snd_conv lru_touch_def same)
qed

lemma linked_last_drop:
  assumes "linked pos q n" "q \<noteq> []"
  shows "lru_drop (snd (last q)) (map (\<lambda>(p, j). (j, f j)) q) = butlast (map (\<lambda>(p, j). (j, f j)) q)"
proof -
  obtain xs x where q: "q = xs @ [x]" using assms(2) by (metis append_butlast_last_id)
  have "\<forall>y \<in> set xs. snd y \<noteq> snd x" using assms(1) by (auto simp: linked_def q) (metis image_eqI snd_conv)
  then show ?thesis by (auto simp: lru_drop_def q filter_id_conv split_beta)
qed

lemma timed_evict_loop_effect:
  assumes "timed_wf s"
  shows "timed_wf (timed_evict_loop l s) \<and> t_duration (timed_evict_loop l s) = t_duration s \<and>
    timed_abs (timed_evict_loop l s) = lru_expire (to_int32 l) (timed_abs s)"
  using assms
proof (induction l s rule: timed_evict_loop.induct)
  case (1 l s)
  note wf = "1.prems"
  show ?case
  proof (cases "t_queue s = []")
    case True
    then show ?thesis using wf by (simp add: timed_evict_loop.simps [of l s] timed_abs_def lru_expire_def)
  next
    case False
    let ?k = "snd (last (t_queue s))"
    have li: "linked (t_links s) (t_queue s) (t_next s)" using wf by (simp add: timed_wf_def)
    obtain e where e: "map_of (t_map s) ?k = Some e"
      using linked_last(1) [OF li False] by (auto simp: t_links_def)
    have b: "timed_abs s \<noteq> []" "lru_drop ?k (timed_abs s) = butlast (timed_abs s)"
      using False linked_last_drop [OF li False] by (simp_all add: timed_abs_def)
    have last: "last (timed_abs s) = (?k, t_obj e, t_time e)"
      using False e by (simp add: timed_abs_def last_map split_beta t_view_def)
    have split: "timed_abs s = butlast (timed_abs s) @ [(?k, t_obj e, t_time e)]"
      using append_butlast_last_id [OF b(1)] last by simp
    show ?thesis
    proof (cases "expired l e")
      case True
      note ef = timed_erase_effect [OF wf e]
      have "lru_expire (to_int32 l) (timed_abs s) = lru_expire (to_int32 l) (butlast (timed_abs s))"
        using True by (subst split) (simp add: lru_expire_def expired_def)
      then show ?thesis
        using "1.IH" [OF False e _ ef(1)] True False e ef(3,4) b(2)
        by (simp add: timed_evict_loop.simps [of l s])
    next
      case no: False
      have "lru_expire (to_int32 l) (timed_abs s) = timed_abs s"
        using no by (subst split, subst (2) split) (simp add: lru_expire_def expired_def)
      then show ?thesis using no False e wf by (simp add: timed_evict_loop.simps [of l s])
    qed
  qed
qed

lemma timed_add_effect:
  assumes "timed_wf s"
  shows "timed_wf (timed_add now later obj k s) \<and> t_duration (timed_add now later obj k s) = t_duration s \<and>
    timed_abs (timed_add now later obj k s) =
      (if 0 < t_duration s then lru_expire (to_int32 (later - t_duration s)) else id)
        (lru_touch k (obj, now) (timed_abs s))"
proof -
  have new: "timed_wf (timed_add now later obj k s) \<and> t_duration (timed_add now later obj k s) = t_duration s \<and>
      timed_abs (timed_add now later obj k s) =
        (if 0 < t_duration s then lru_expire (to_int32 (later - t_duration s)) else id)
          ((k, obj, now) # timed_abs s)"
    if wf: "timed_wf s" and none: "map_of (t_map s) k = None" for s
  proof -
    let ?t = "s\<lparr>t_map := (k, \<lparr>t_obj = obj, t_pos = 0, t_time = now\<rparr>) # t_map s\<rparr>"
    have l: "(t_links ?t)(k := None) = t_links s" and v: "t_view ?t = (t_view s)(k \<mapsto> (obj, now))"
      using none by (auto simp: t_links_def t_view_def)
    have "distinct (map fst (t_map ?t))"
      using wf none by (simp add: timed_wf_def map_of_eq_None_iff)
    moreover have "linked ((t_links ?t)(k := None)) (t_queue ?t) (t_next ?t)"
      unfolding l using wf by (simp add: timed_wf_def)
    moreover have "t_view ?t k = Some (obj, now)" by (simp add: v)
    ultimately have h: "timed_wf (timed_hook now k ?t)"
      "timed_abs (timed_hook now k ?t) =
         (k, obj, now) # map (\<lambda>(p, j). (j, the (((t_view ?t)(k \<mapsto> (obj, now))) j))) (t_queue ?t)"
      by (rule timed_hook_effect)+
    have "k \<notin> snd ` set (t_queue s)"
      using linked_member [of "t_links s" "t_queue s" "t_next s" k] wf none
      by (simp add: timed_wf_def t_links_def)
    then have "map (\<lambda>(p, j). (j, the (((t_view ?t)(k \<mapsto> (obj, now))) j))) (t_queue ?t) = timed_abs s"
      unfolding v timed_abs_def by (auto simp: image_iff)
    then have "timed_abs (timed_hook now k ?t) = (k, obj, now) # timed_abs s" by (simp only: h(2))
    moreover have "t_duration (timed_hook now k ?t) = t_duration s" by (simp add: timed_hook_def)
    ultimately show ?thesis
      using h(1) timed_evict_loop_effect [OF h(1)] none
      by (simp add: timed_add.simps [of now later obj k s] timed_evict_def)
  qed
  show ?thesis
  proof (cases "map_of (t_map s) k")
    case None
    then have "lru_drop k (timed_abs s) = timed_abs s"
      using timed_abs_map [OF assms] unfolding lru_drop_def filter_id_conv
      by (metis map_of_eq_None_iff image_eqI t_view_def option.map_disc_iff)
    with new [OF assms None] show ?thesis by (simp add: lru_touch_def)
  next
    case (Some e)
    note ef = timed_erase_effect [OF assms Some]
    have "map_of (t_map (timed_erase k e s)) k = None" by (simp add: timed_erase_def map_of_erase)
    from new [OF ef(1) this] show ?thesis
      using Some ef(3,4) by (simp add: timed_add.simps [of now later obj k s] lru_touch_def)
  qed
qed


section \<open>What users of a cache rely on\<close>

datatype ('k, 'o) cache_op = CLocate 'k | CAdd 'o 'k | CRemove 'k | CClear

text \<open>The unbounded map a cache stands for.\<close>

fun map_op :: "('k, 'o) cache_op \<Rightarrow> ('k \<rightharpoonup> 'o) \<Rightarrow> ('k \<rightharpoonup> 'o)" where
  "map_op (CLocate k) m = m"
| "map_op (CAdd obj k) m = m(k \<mapsto> obj)"
| "map_op (CRemove k) m = m(k := None)"
| "map_op CClear m = Map.empty"

locale cache =
  fixes wf :: "'s \<Rightarrow> bool"
    and view :: "'s \<Rightarrow> 'k \<Rightarrow> 'o option"
    and exec :: "'t \<Rightarrow> ('k, 'o) cache_op \<Rightarrow> 's \<Rightarrow> 's"
  assumes wf_exec: "wf s \<Longrightarrow> wf (exec t c s)"
    and exec_drops: "wf s \<Longrightarrow> view (exec t c s) \<subseteq>\<^sub>m map_op c (view s)"
    and exec_keeps: "wf s \<Longrightarrow> \<nexists>obj k. c = CAdd obj k \<Longrightarrow> view (exec t c s) = map_op c (view s)"
begin

lemma map_op_mono: "m \<subseteq>\<^sub>m m' \<Longrightarrow> map_op c m \<subseteq>\<^sub>m map_op c m'"
  by (cases c) (auto simp: map_le_def dom_def)

lemma wf_run: "wf s \<Longrightarrow> wf (foldl (\<lambda>s (t, c). exec t c s) s tr)"
  by (induction tr arbitrary: s) (auto simp: wf_exec)

text \<open>However much is dropped, a cache never holds anything but what was last put there.\<close>

lemma run_below:
  "wf s \<Longrightarrow> view s \<subseteq>\<^sub>m m \<Longrightarrow>
   view (foldl (\<lambda>s (t, c). exec t c s) s tr) \<subseteq>\<^sub>m foldl (\<lambda>m (t, c). map_op c m) m tr"
proof (induction tr arbitrary: s m)
  case (Cons tc tr)
  obtain t c where tc: "tc = (t, c)" by fastforce
  have "view (exec t c s) \<subseteq>\<^sub>m map_op c m"
    using map_le_trans [OF exec_drops [OF Cons.prems(1)] map_op_mono [OF Cons.prems(2)]] .
  with Cons show ?case by (simp add: tc wf_exec)
qed simp

lemma removed_absent: "wf s \<Longrightarrow> view (exec t (CRemove k) s) k = None"
  by (simp add: exec_keeps)

end

fun sized_exec :: "unit \<Rightarrow> ('k, 'o) cache_op \<Rightarrow> ('k, 'o) SizedEvictor \<Rightarrow> ('k, 'o) SizedEvictor" where
  "sized_exec _ (CLocate k) s = snd (sized_locate k undefined s)"
| "sized_exec _ (CAdd obj k) s = sized_add obj k s"
| "sized_exec _ (CRemove k) s = snd (sized_remove k s)"
| "sized_exec _ CClear s = sized_clear s"

fun timed_exec :: "int \<times> int \<Rightarrow> ('k, 'o) cache_op \<Rightarrow> ('k, 'o) TimedEvictor \<Rightarrow> ('k, 'o) TimedEvictor" where
  "timed_exec t (CLocate k) s = snd (timed_locate (fst t) k undefined s)"
| "timed_exec t (CAdd obj k) s = timed_add (fst t) (snd t) obj k s"
| "timed_exec _ (CRemove k) s = snd (timed_remove k s)"
| "timed_exec _ CClear s = timed_clear s"

definition t_objects :: "('k, 'o) TimedEvictor \<Rightarrow> 'k \<rightharpoonup> 'o" where
  "t_objects s k = map_option fst (t_view s k)"

lemma lru_touch_map: "map_of (lru_touch k x xs) = (map_of xs)(k \<mapsto> x)"
  unfolding lru_touch_def lru_drop_def using map_of_erase [of k xs] by (simp add: map_erase_def)

lemma map_le_iff: "m \<subseteq>\<^sub>m m' \<longleftrightarrow> (\<forall>k. m k = None \<or> m k = m' k)"
  unfolding map_le_def dom_def by (metis (mono_tags, lifting) mem_Collect_eq option.distinct(1))

lemma sublist_map_le:
  assumes "distinct (map fst (xs @ ys))"
  shows "map_of xs \<subseteq>\<^sub>m map_of (xs @ ys)"
  using assms by (auto simp: map_le_def map_add_dom_app_simps dest: map_of_SomeD split: option.split)

lemma sized_distinct: "sized_wf s \<Longrightarrow> distinct (map fst (sized_abs s))"
  by (simp add: sized_abs_keys sized_wf_def linked_def)

lemma timed_distinct: "timed_wf s \<Longrightarrow> distinct (map fst (timed_abs s))"
  by (simp add: timed_abs_def comp_def split_beta timed_wf_def linked_def)

lemma lru_touch_distinct: "distinct (map fst xs) \<Longrightarrow> distinct (map fst (lru_touch k x xs))"
  by (auto simp: lru_touch_def lru_drop_def distinct_map inj_on_def)

lemma lru_limit_split: "\<exists>ys. xs = lru_limit n xs @ ys"
  by (metis append_Nil2 append_take_drop_id lru_limit_def)

lemma lru_expire_split: "\<exists>ys. xs = lru_expire l xs @ ys"
proof
  show "xs = lru_expire l xs @ rev (takeWhile (\<lambda>(k, obj, t). t < l) (rev xs))"
    unfolding lru_expire_def by (metis rev_append rev_rev_ident takeWhile_dropWhile_id)
qed

lemma sized_add_view:
  assumes "sized_wf s" shows "s_view (sized_add obj k s) \<subseteq>\<^sub>m (s_view s)(k \<mapsto> obj)"
proof -
  let ?t = "lru_touch k obj (sized_abs s)"
  note ad = sized_add_effect [OF assms, of obj k]
  obtain ys where "?t = lru_limit (s_size s) ?t @ ys" using lru_limit_split by blast
  then have "map_of (lru_limit (s_size s) ?t) \<subseteq>\<^sub>m map_of ?t"
    using sublist_map_le lru_touch_distinct [OF sized_distinct [OF assms]] by metis
  then show ?thesis
    using ad sized_abs_map [of "sized_add obj k s"] sized_abs_map [OF assms] by (simp add: lru_touch_map)
qed

lemma timed_add_view:
  assumes "timed_wf s" shows "t_objects (timed_add now later obj k s) \<subseteq>\<^sub>m (t_objects s)(k \<mapsto> obj)"
proof -
  let ?t = "lru_touch k (obj, now) (timed_abs s)"
  note ad = timed_add_effect [OF assms, of now later obj k]
  let ?l = "to_int32 (later - t_duration s)"
  obtain ys where "?t = lru_expire ?l ?t @ ys" using lru_expire_split by blast
  then have "map_of (lru_expire ?l ?t) \<subseteq>\<^sub>m map_of ?t"
    using sublist_map_le lru_touch_distinct [OF timed_distinct [OF assms]] by metis
  then have "t_view (timed_add now later obj k s) \<subseteq>\<^sub>m (t_view s)(k \<mapsto> (obj, now))"
    using ad timed_abs_map [of "timed_add now later obj k s"] timed_abs_map [OF assms]
    by (auto simp: lru_touch_map split: if_splits)
  then have "t_view (timed_add now later obj k s) j = None \<or>
      t_view (timed_add now later obj k s) j = ((t_view s)(k \<mapsto> (obj, now))) j" for j
    by (simp add: map_le_iff)
  then have "t_objects (timed_add now later obj k s) j = None \<or>
      t_objects (timed_add now later obj k s) j = ((t_objects s)(k \<mapsto> obj)) j" for j
    by (cases "t_view (timed_add now later obj k s) j") (fastforce simp: t_objects_def split: if_splits)+
  then show ?thesis by (simp add: map_le_iff)
qed

lemma sized_remove_effect:
  assumes "sized_wf s"
  shows "sized_wf (snd (sized_remove k s))" "s_view (snd (sized_remove k s)) = (s_view s)(k := None)"
    "fst (sized_remove k s) = s_view s k" "sized_abs (snd (sized_remove k s)) = lru_drop k (sized_abs s)"
proof -
  have none: "lru_drop k (sized_abs s) = sized_abs s" if "map_of (s_map s) k = None"
    using sized_abs_map [OF assms] that unfolding lru_drop_def filter_id_conv
    by (metis map_of_eq_None_iff image_eqI s_view_def option.map_disc_iff)
  have "sized_wf (snd (sized_remove k s)) \<and> s_view (snd (sized_remove k s)) = (s_view s)(k := None) \<and>
    fst (sized_remove k s) = s_view s k \<and> sized_abs (snd (sized_remove k s)) = lru_drop k (sized_abs s)"
  proof (cases "map_of (s_map s) k")
    case None
    then show ?thesis using assms none [OF None] by (auto simp: sized_remove_def s_view_def fun_eq_iff)
  next
    case (Some e)
    then show ?thesis using sized_erase_effect [OF assms Some]
      by (simp add: sized_remove_def lru_drop_def) (simp add: s_view_def)
  qed
  then show "sized_wf (snd (sized_remove k s))" "s_view (snd (sized_remove k s)) = (s_view s)(k := None)"
    "fst (sized_remove k s) = s_view s k" "sized_abs (snd (sized_remove k s)) = lru_drop k (sized_abs s)"
    by blast+
qed

lemma timed_remove_effect:
  assumes "timed_wf s"
  shows "timed_wf (snd (timed_remove k s))" "t_view (snd (timed_remove k s)) = (t_view s)(k := None)"
    "fst (timed_remove k s) = t_objects s k"
proof -
  have "timed_wf (snd (timed_remove k s)) \<and> t_view (snd (timed_remove k s)) = (t_view s)(k := None) \<and>
    fst (timed_remove k s) = t_objects s k"
  proof (cases "map_of (t_map s) k")
    case None
    then show ?thesis using assms by (auto simp: timed_remove_def t_view_def t_objects_def fun_eq_iff)
  next
    case (Some e)
    then show ?thesis using timed_erase_effect [OF assms Some]
      by (simp add: timed_remove_def t_objects_def) (simp add: t_view_def)
  qed
  then show "timed_wf (snd (timed_remove k s))" "t_view (snd (timed_remove k s)) = (t_view s)(k := None)"
    "fst (timed_remove k s) = t_objects s k" by blast+
qed

lemma sized_locate_any:
  assumes "sized_wf s"
  shows "sized_wf (snd (sized_locate k def s))" "s_view (snd (sized_locate k def s)) = s_view s"
  using assms sized_locate_effect(2,3) [OF assms, of k]
  by (cases "s_view s k"; simp add: sized_locate_def s_view_def)+

lemma timed_locate_any:
  assumes "timed_wf s"
  shows "timed_wf (snd (timed_locate now k def s))" "t_objects (snd (timed_locate now k def s)) = t_objects s"
proof -
  have "timed_wf (snd (timed_locate now k def s)) \<and> t_objects (snd (timed_locate now k def s)) = t_objects s"
  proof (cases "t_view s k")
    case None
    then show ?thesis using assms by (simp add: timed_locate_def t_view_def)
  next
    case (Some x)
    then obtain obj t where x: "t_view s k = Some (obj, t)" by (cases x) auto
    show ?thesis using timed_locate_effect [OF assms x] x by (auto simp: t_objects_def fun_eq_iff)
  qed
  then show "timed_wf (snd (timed_locate now k def s))" "t_objects (snd (timed_locate now k def s)) = t_objects s"
    by blast+
qed

interpretation sized: cache sized_wf s_view sized_exec
proof unfold_locales
  fix s :: "('k, 'o) SizedEvictor" and t and c :: "('k, 'o) cache_op" assume wf: "sized_wf s"
  show "sized_wf (sized_exec t c s)"
    using wf by (cases c) (simp_all add: sized_locate_any sized_add_effect sized_remove_effect,
      simp add: sized_clear_def sized_wf_def s_links_def linked_def)
  show keep: "s_view (sized_exec t c s) = map_op c (s_view s)" if "\<nexists>obj k. c = CAdd obj k"
    using wf that by (cases c) (simp_all add: sized_locate_any sized_remove_effect,
      simp add: sized_clear_def s_view_def fun_eq_iff)
  show "s_view (sized_exec t c s) \<subseteq>\<^sub>m map_op c (s_view s)"
    using keep sized_add_view [OF wf] by (cases c) simp_all
qed

interpretation timed: cache timed_wf t_objects timed_exec
proof unfold_locales
  fix s :: "('k, 'o) TimedEvictor" and t and c :: "('k, 'o) cache_op" assume wf: "timed_wf s"
  show "timed_wf (timed_exec t c s)"
    using wf by (cases c) (simp_all add: timed_locate_any timed_add_effect timed_remove_effect,
      simp add: timed_clear_def timed_wf_def t_links_def linked_def)
  show keep: "t_objects (timed_exec t c s) = map_op c (t_objects s)" if "\<nexists>obj k. c = CAdd obj k"
    using wf that by (cases c) (simp_all add: timed_locate_any timed_remove_effect t_objects_def fun_eq_iff,
      simp add: timed_clear_def t_view_def)
  show "t_objects (timed_exec t c s) \<subseteq>\<^sub>m map_op c (t_objects s)"
    using keep timed_add_view [OF wf] by (cases c) simp_all
qed


section \<open>Properties\<close>

lemma sized_find_view: "sized_find k def s = (case s_view s k of None \<Rightarrow> def | Some obj \<Rightarrow> obj)"
  by (simp add: sized_find_def s_view_def split: option.split)

lemma timed_find_view: "timed_find k def s = (case t_objects s k of None \<Rightarrow> def | Some obj \<Rightarrow> obj)"
  by (simp add: timed_find_def t_objects_def t_view_def split: option.split)

lemma sized_clear_effect:
  "sized_wf (sized_clear s)" "sized_abs (sized_clear s) = []" "s_size (sized_clear s) = s_size s" "\<not> sized_has k (sized_clear s)"
  by (simp_all add: sized_clear_def sized_wf_def s_links_def linked_def sized_abs_def sized_has_def)

text \<open>C25. \<open>SizedEvictor\<close> implements a list in order of use: \<open>add\<close> puts the pair in front and cuts the
  list to the size, \<open>locate\<close> of a cached key moves it to the front and returns its object,
  \<open>remove\<close> returns and drops it, \<open>clear\<close> drops everything. After an \<open>add\<close> the limit holds and the new object is found, and
  each of the four operations keeps map and list linked.\<close>

theorem sized_cache_is_lru:
  assumes "sized_wf s"
  shows "sized_wf (sized_add obj k s) \<and>
    sized_abs (sized_add obj k s) = lru_limit (s_size s) (lru_touch k obj (sized_abs s)) \<and>
    (0 < s_size s \<longrightarrow> sized_size (sized_add obj k s) \<le> unat (s_size s)) \<and>
    sized_find k def (sized_add obj k s) = obj \<and>
    fst (sized_locate k def s) = sized_find k def s \<and>
    sized_abs (snd (sized_locate k def s)) =
      (if sized_has k s then lru_touch k (sized_find k def s) (sized_abs s) else sized_abs s) \<and>
    sized_abs (snd (sized_remove k s)) = lru_drop k (sized_abs s) \<and>
    fst (sized_remove k s) = map_of (sized_abs s) k \<and>
    \<not> sized_has k (snd (sized_remove k s)) \<and>
    sized_abs (sized_clear s) = [] \<and> \<not> sized_has k (sized_clear s) \<and>
    sized_wf (snd (sized_locate k def s)) \<and> sized_wf (snd (sized_remove k s)) \<and> sized_wf (sized_clear s)"
proof -
  note ad = sized_add_effect [OF assms, of obj k]
  have len: "0 < s_size s \<longrightarrow> sized_size (sized_add obj k s) \<le> unat (s_size s)"
    using ad sized_abs_length [of "sized_add obj k s"] by (auto simp: lru_limit_def)
  have "0 < s_size s \<Longrightarrow> 0 < unat (s_size s)" by (simp add: unat_gt_0 word_gt_0)
  then have "map_of (sized_abs (sized_add obj k s)) k = Some obj"
    using ad by (cases "unat (s_size s)") (auto simp: lru_limit_def lru_touch_def)
  then have find: "sized_find k def (sized_add obj k s) = obj"
    using ad sized_abs_map [of "sized_add obj k s"] by (simp add: sized_find_view)
  have loc: "fst (sized_locate k def s) = sized_find k def s \<and>
      sized_abs (snd (sized_locate k def s)) =
        (if sized_has k s then lru_touch k (sized_find k def s) (sized_abs s) else sized_abs s)"
  proof (cases "s_view s k")
    case None
    then show ?thesis by (simp add: sized_locate_def sized_find_def sized_has_def s_view_def)
  next
    case (Some x)
    then show ?thesis using sized_locate_effect [OF assms Some]
      by (simp add: sized_find_view) (auto simp: sized_has_def s_view_def)
  qed
  have "\<not> sized_has k (snd (sized_remove k s))"
    using fun_cong [OF sized_remove_effect(2) [OF assms], of k k] by (simp add: sized_has_def s_view_def)
  moreover have "fst (sized_remove k s) = map_of (sized_abs s) k" using sized_remove_effect(3) [OF assms] sized_abs_map [OF assms] by metis
  ultimately show ?thesis
    using ad len find loc sized_remove_effect(1,4) [OF assms] sized_clear_effect(1,2) [of s] sized_clear_effect(4) [of k s]
      sized_locate_any(1) [OF assms, of k def] by (intro conjI) (assumption | simp only:)+
qed

lemma sized_new_wf [simp]: "sized_wf (sized_new n)"
  by (simp add: sized_wf_def sized_new_def s_links_def linked_def)

lemma sized_new_size [simp]: "s_size (sized_new n) = n"
  by (simp add: sized_new_def)

lemma sized_add_wf [simp]:
  "sized_wf s \<Longrightarrow> sized_wf (sized_add obj k s)" "sized_wf s \<Longrightarrow> s_size (sized_add obj k s) = s_size s"
  using sized_add_effect [of s obj k] by simp_all

definition sample_sized :: "(string, int) SizedEvictor" where
  "sample_sized = sized_add 2 ''b'' (sized_add 1 ''a'' (sized_new 2))"

lemma sample_sized_facts: "sized_wf sample_sized" "s_size sample_sized = 2"
  by (simp_all add: sample_sized_def)

theorem sized_cache_is_lru_witness:
  "sized_size (sized_add 3 ''c'' sample_sized) \<le> 2 \<and> sized_find ''c'' 0 (sized_add 3 ''c'' sample_sized) = 3"
  using sized_cache_is_lru [OF sample_sized_facts(1), of 3 "''c''" 0] by (simp add: sample_sized_facts(2))

definition time_ordered :: "('k \<times> 'o \<times> int) list \<Rightarrow> bool" where
  "time_ordered xs \<longleftrightarrow> sorted_wrt (\<lambda>x y. snd (snd y) \<le> snd (snd x)) xs"

lemma lru_expire_ordered:
  assumes "time_ordered xs" shows "lru_expire l xs = [x \<leftarrow> xs. l \<le> snd (snd x)]"
proof -
  have p: "partitioned (\<lambda>(k, obj, t). t < l) (rev xs)"
    unfolding sorted_wrt_rev using assms unfolding time_ordered_def
    by (rule sorted_wrt_mono_rel [rotated]) auto
  show ?thesis
    unfolding lru_expire_def partitioned_dropWhile [OF p] rev_filter rev_rev_ident
    by (rule filter_cong) (auto simp: linorder_not_less)
qed

lemma lru_touch_ordered:
  "time_ordered xs \<Longrightarrow> \<forall>x \<in> set xs. snd (snd x) \<le> now \<Longrightarrow> time_ordered (lru_touch k (obj, now) xs)"
  by (auto simp: time_ordered_def lru_touch_def lru_drop_def sorted_wrt_filter)


text \<open>With a clock that does not run backwards, and as long as the times fit 32 bits, \<open>TimedEvictor\<close>
  drops on \<open>add\<close> exactly the entries older than the duration, keeps the time stamps in order, and
  the new object is found.\<close>

lemma timed_cache_expires:
  assumes "timed_wf s" "time_ordered (timed_abs s)" "\<forall>x \<in> set (timed_abs s). snd (snd x) \<le> now"
    and "now \<le> later" "0 < t_duration s" "later - now \<le> t_duration s"
    and "- (2 ^ 31) \<le> later - t_duration s" "later - t_duration s < 2 ^ 31"
  shows "timed_abs (timed_add now later obj k s) =
      [x \<leftarrow> lru_touch k (obj, now) (timed_abs s). later - t_duration s \<le> snd (snd x)] \<and>
    time_ordered (timed_abs (timed_add now later obj k s)) \<and>
    timed_find k def (timed_add now later obj k s) = obj"
proof -
  let ?t = "lru_touch k (obj, now) (timed_abs s)"
  note ad = timed_add_effect [OF assms(1), of now later obj k]
  have o: "time_ordered ?t" by (rule lru_touch_ordered [OF assms(2,3)])
  have e: "timed_abs (timed_add now later obj k s) = [x \<leftarrow> ?t. later - t_duration s \<le> snd (snd x)]"
    using ad assms(5) lru_expire_ordered [OF o] to_int32_id [OF assms(7,8)] by simp
  have "time_ordered (timed_abs (timed_add now later obj k s))"
    unfolding e using o by (simp add: time_ordered_def sorted_wrt_filter)
  moreover have "map_of (timed_abs (timed_add now later obj k s)) k = Some (obj, now)"
    unfolding e using assms(6) by (simp add: lru_touch_def)
  then have "timed_find k def (timed_add now later obj k s) = obj"
    using ad timed_abs_map [of "timed_add now later obj k s"] by (simp add: timed_find_view t_objects_def)
  ultimately show ?thesis using e by blast
qed

lemma timed_new_wf [simp]: "timed_wf (timed_new d)"
  by (simp add: timed_wf_def timed_new_def t_links_def linked_def)

lemma timed_new_facts [simp]: "timed_abs (timed_new d) = []" "t_duration (timed_new d) = d"
  by (simp_all add: timed_abs_def timed_new_def)

definition sample_timed :: "(string, int) TimedEvictor" where
  "sample_timed = timed_add 100 100 1 ''a'' (timed_new 10)"

lemma sample_timed_facts:
  "timed_wf sample_timed" "t_duration sample_timed = 10" "timed_abs sample_timed = [(''a'', 1, 100)]"
  using timed_add_effect [of "timed_new 10" 100 100 "1::int" "''a''"]
  by (simp_all add: sample_timed_def lru_touch_def lru_drop_def lru_expire_def to_int32_def)

lemma timed_cache_expires_witness:
  "timed_abs (timed_add 120 120 2 ''b'' sample_timed) = [(''b'', 2, 120)]"
  using timed_cache_expires [OF sample_timed_facts(1), of 120 120 2 "''b''" 0]
  by (simp add: sample_timed_facts time_ordered_def lru_touch_def lru_drop_def)

text \<open>Once the limit passes what an \<open>int\<close> holds (year 2038), \<open>add\<close> drops nothing any more,
  however old the entries are.\<close>

lemma timed_cache_stops_expiring:
  assumes "timed_wf s" "\<forall>x \<in> set (timed_abs s). 0 \<le> snd (snd x)" "0 \<le> now"
    and "2 ^ 31 \<le> later - t_duration s" "later - t_duration s < 2 ^ 32"
  shows "timed_abs (timed_add now later obj k s) = lru_touch k (obj, now) (timed_abs s)"
proof -
  let ?l = "later - t_duration s" and ?t = "lru_touch k (obj, now) (timed_abs s)"
  have "?l + 2 ^ 31 = (?l - 2 ^ 31) + 2 ^ 32" by simp
  then have "(?l + 2 ^ 31) mod 2 ^ 32 = (?l - 2 ^ 31) mod 2 ^ 32" by (metis mod_add_self2)
  also have "\<dots> = ?l - 2 ^ 31" using assms(4,5) by (intro mod_pos_pos_trivial) simp_all
  finally have "to_int32 ?l < 0" using assms(5) by (simp add: to_int32_def)
  moreover have "\<forall>x \<in> set ?t. 0 \<le> snd (snd x)"
    using assms(2,3) by (auto simp: lru_touch_def lru_drop_def)
  ultimately have "\<forall>x \<in> set (rev ?t). \<not> (\<lambda>(k, obj, t). t < to_int32 ?l) x" by auto
  then have "dropWhile (\<lambda>(k, obj, t). t < to_int32 ?l) (rev ?t) = rev ?t"
    unfolding dropWhile_eq_self_iff by (metis list.set_sel(1))
  then have "lru_expire (to_int32 ?l) ?t = ?t" by (simp add: lru_expire_def)
  then show ?thesis using timed_add_effect [OF assms(1), of now later obj k] by simp
qed

lemma timed_cache_stops_expiring_witness:
  "timed_abs (timed_add 2147483700 2147483700 2 ''b'' sample_timed) =
     [(''b'', 2, 2147483700), (''a'', 1, 100)]"
  using timed_cache_stops_expiring [OF sample_timed_facts(1), of 2147483700 2147483700 2 "''b''"]
  by (simp add: sample_timed_facts lru_touch_def lru_drop_def)

text \<open>The answers of a cache whose content is part of a map.\<close>

lemma sized_answers:
  assumes "s_view s \<subseteq>\<^sub>m m"
  shows "if sized_has k s then m k = Some (sized_find k def s) else sized_find k def s = def"
    "fst (sized_locate k def s) = sized_find k def s" "fst (sized_remove k s) = (if sized_has k s then m k else None)"
proof -
  have "s_view s k = None \<or> m k = s_view s k" using assms unfolding map_le_iff by metis
  then show "if sized_has k s then m k = Some (sized_find k def s) else sized_find k def s = def"
    "fst (sized_locate k def s) = sized_find k def s" "fst (sized_remove k s) = (if sized_has k s then m k else None)"
    by (auto simp: sized_has_def sized_find_def sized_locate_def sized_remove_def s_view_def split: option.split)
qed

lemma timed_answers:
  assumes "t_objects s \<subseteq>\<^sub>m m"
  shows "if timed_has k s then m k = Some (timed_find k def s) else timed_find k def s = def"
    "fst (timed_locate now k def s) = timed_find k def s" "fst (timed_remove k s) = (if timed_has k s then m k else None)"
proof -
  have "t_objects s k = None \<or> m k = t_objects s k" using assms unfolding map_le_iff by metis
  then show "if timed_has k s then m k = Some (timed_find k def s) else timed_find k def s = def"
    "fst (timed_locate now k def s) = timed_find k def s" "fst (timed_remove k s) = (if timed_has k s then m k else None)"
    by (auto simp: timed_has_def timed_find_def timed_locate_def timed_remove_def t_objects_def t_view_def split: option.split)
qed

text \<open>C28. Neither cache answers with an object that is not the last one put under its key and not removed
  since: after any sequence of operations, whatever was dropped, \<open>find\<close>, \<open>locate\<close> and \<open>remove\<close> of a key that is there answer the
  object that the unbounded map of the same operations has, and of a key that is not there the default or nothing.\<close>

theorem caches_never_stale:
  assumes "s = foldl (\<lambda>s (t, c). sized_exec t c s) (sized_new n) tr" "m = foldl (\<lambda>m (t, c). map_op c m) Map.empty tr"
    and "s' = foldl (\<lambda>s (t, c). timed_exec t c s) (timed_new d) tr'" "m' = foldl (\<lambda>m (t, c). map_op c m) Map.empty tr'"
  shows "(if sized_has k s then m k = Some (sized_find k def s) else sized_find k def s = def) \<and>
    fst (sized_locate k def s) = sized_find k def s \<and>
    fst (sized_remove k s) = (if sized_has k s then m k else None) \<and>
    (if timed_has k s' then m' k = Some (timed_find k def s') else timed_find k def s' = def) \<and>
    fst (timed_locate now k def s') = timed_find k def s' \<and>
    fst (timed_remove k s') = (if timed_has k s' then m' k else None)"
proof -
  have "s_view (sized_new n) \<subseteq>\<^sub>m Map.empty" "t_objects (timed_new d) \<subseteq>\<^sub>m Map.empty"
    by (simp_all add: map_le_def dom_def s_view_def t_objects_def t_view_def sized_new_def timed_new_def)
  then have v: "s_view s \<subseteq>\<^sub>m m" "t_objects s' \<subseteq>\<^sub>m m'"
    unfolding assms using sized.run_below [OF sized_new_wf] timed.run_below [OF timed_new_wf] by blast+
  show ?thesis by (intro conjI sized_answers [OF v(1)] timed_answers [OF v(2)])
qed

text \<open>An object put anew under its key, with room for one: the old object is gone, and so is the first key.\<close>

definition sample_ops :: "(unit \<times> (string, int) cache_op) list" where
  "sample_ops = [((), CAdd 1 ''a''), ((), CAdd 2 ''b''), ((), CAdd 3 ''b''), ((), CLocate ''a'')]"

theorem caches_never_stale_witness:
  "sized_find ''b'' 0 (foldl (\<lambda>s (t, c). sized_exec t c s) (sized_new 1) sample_ops) = 3"
proof -
  let ?s = "foldl (\<lambda>s (t, c). sized_exec t c s) (sized_new 1) sample_ops"
  have "sized_has ''b'' ?s" by code_simp
  moreover have "foldl (\<lambda>m (t, c). map_op c m) Map.empty sample_ops ''b'' = Some 3" by (simp add: sample_ops_def)
  ultimately show ?thesis
    using caches_never_stale [OF refl refl refl refl, where k = "''b''" and n = 1 and tr = sample_ops and def = 0] by simp
qed

end
