(* ===== verification/FriendsCompare.thy ===== *)
theory FriendsCompare
  imports OcePrelude
begin

text \<open>
  Common friends and routes between users: \<^verbatim>\<open>buddy/BuddyFriendsCache/share/FriendsCompute.h\<close>,
  \<^verbatim>\<open>buddy/BuddySixDegrees/src/CompareFriends.h\<close> and the index data of
  \<^verbatim>\<open>buddy/BuddySixDegrees/friendindex/FriendsIndex.h\<close>. The lists of friends are sorted, and the
  comparisons leap through both lists by binary search. A leaping loop is a partial function, since it
  need not end on an unsorted list; on sorted lists it is shown to end and to find what the plain
  definition says. Reading the last element of an empty vector is undefined in the code and the
  result \<open>None\<close> here, as is the exception of a vector with a negative size.
\<close>

section \<open>Leaping by binary search\<close>

lemma lower_bound_sorted:
  fixes key :: "'a \<Rightarrow> 'b :: linorder"
  assumes "sorted (map key xs)" "i \<le> j" "j \<le> length xs"
    and k: "k = lower_bound (\<lambda>x v. key x < v) xs i j v"
  shows "i \<le> k" "k \<le> j" "\<And>m. i \<le> m \<Longrightarrow> m < k \<Longrightarrow> key (xs ! m) < v"
    "\<And>m. k \<le> m \<Longrightarrow> m < j \<Longrightarrow> v \<le> key (xs ! m)"
proof -
  let ?n = "length (takeWhile (\<lambda>y. key y < v) xs)"
  have p: "partitioned (\<lambda>y. key y < v) xs"
    using assms(1) unfolding sorted_wrt_map by (rule sorted_wrt_mono_rel [rotated]) auto
  have k': "k = max i (min j ?n)"
    unfolding k by (rule lower_bound_range [where lt = "\<lambda>x v. key x < v" and v = v, OF p assms(2,3)])
  note nth = partitioned_nth [OF p]
  show "i \<le> k" "k \<le> j" using assms(2) by (auto simp: k')
  show "\<And>m. i \<le> m \<Longrightarrow> m < k \<Longrightarrow> key (xs ! m) < v" using nth assms(3) by (auto simp: k')
  show "\<And>m. k \<le> m \<Longrightarrow> m < j \<Longrightarrow> v \<le> key (xs ! m)"
    using nth assms(3) by (auto simp: k' linorder_not_less [symmetric])
qed

definition lb :: "int list \<Rightarrow> nat \<Rightarrow> nat \<Rightarrow> int \<Rightarrow> nat" where
  "lb xs i j v = lower_bound (\<lambda>x v. x < v) xs i j v"

lemma lb_sorted:
  assumes "sorted xs" "i \<le> j" "j \<le> length xs"
  shows "i \<le> lb xs i j v" "lb xs i j v \<le> j" "\<And>m. i \<le> m \<Longrightarrow> m < lb xs i j v \<Longrightarrow> xs ! m < v"
    "\<And>m. lb xs i j v \<le> m \<Longrightarrow> m < j \<Longrightarrow> v \<le> xs ! m"
  using lower_bound_sorted [of id xs i j "lb xs i j v" v] assms by (simp_all add: lb_def)

text \<open>Looking a value up in a sorted vector by binary search.\<close>

definition lb_found :: "int list \<Rightarrow> int \<Rightarrow> bool" where
  "lb_found xs v \<longleftrightarrow> (let it = lb xs 0 (length xs) v in it \<noteq> length xs \<and> xs ! it = v)"

lemma lb_found_iff:
  assumes "sorted xs" shows "lb_found xs v \<longleftrightarrow> v \<in> set xs"
proof -
  let ?k = "lb xs 0 (length xs) v"
  note b = lb_sorted [OF assms le0 order_refl, where v = v]
  show ?thesis
  proof
    show "lb_found xs v \<Longrightarrow> v \<in> set xs" using b(2) by (auto simp: lb_found_def Let_def in_set_conv_nth nat_less_le)
    assume "v \<in> set xs"
    then obtain m where m: "m < length xs" "xs ! m = v" by (auto simp: in_set_conv_nth)
    then have le: "?k \<le> m" using b(3) [of m] by (metis le0 linorder_not_less less_irrefl)
    then have "v \<le> xs ! ?k" using m b(4) [of ?k] by simp
    moreover have "xs ! ?k \<le> xs ! m" by (rule sorted_nth_mono [OF assms le m(1)])
    ultimately show "lb_found xs v" using m le by (auto simp: lb_found_def Let_def)
  qed
qed

section \<open>Whether two users have a common friend\<close>

partial_function (option) has_loop ::
  "int list \<Rightarrow> nat \<Rightarrow> int list \<Rightarrow> nat \<Rightarrow> nat \<Rightarrow> nat \<Rightarrow> bool option" where
  "has_loop A iaEnd B ibEnd ia ib =
     (if ia = iaEnd then Some False
      else let ib' = lb B ib ibEnd (A ! ia) in
        if ib' \<noteq> ibEnd \<and> B ! ib' = A ! ia then Some True
        else if ib' = ibEnd then Some False
        else let ia' = lb A ia iaEnd (B ! ib') in
          if ia' \<noteq> iaEnd \<and> A ! ia' = B ! ib' then Some True
          else has_loop A iaEnd B ibEnd ia' ib')"

definition has_common_inner :: "int list \<Rightarrow> int list \<Rightarrow> bool option" where
  "has_common_inner A B =
     (let cut = (if last A > last B
                 then (let iaEnd = lb A 0 (length A) (last B) in
                       if iaEnd \<noteq> length A \<and> A ! iaEnd = last B then None else Some (iaEnd, length B))
                 else (let ibEnd = lb B 0 (length B) (last A) in
                       if ibEnd \<noteq> length B \<and> B ! ibEnd = last A then None else Some (length A, ibEnd)))
      in case cut of
           None \<Rightarrow> Some True
         | Some (iaEnd, ibEnd) \<Rightarrow>
             (let ia = lb A 0 iaEnd (hd B)
              in if ia = iaEnd then Some False else has_loop A iaEnd B ibEnd ia 0))"

definition hasCommonFriend :: "int list \<Rightarrow> int list \<Rightarrow> bool option" where
  "hasCommonFriend A B =
     (if A = [] \<or> B = [] then Some False
      else if hd A > last B \<or> hd B > last A then Some False
      else if hd A = last B \<or> last A = hd B then Some True
      else if hd A > hd B then has_common_inner A B else has_common_inner B A)"

definition common_at :: "int list \<Rightarrow> nat \<Rightarrow> nat \<Rightarrow> int list \<Rightarrow> nat \<Rightarrow> nat \<Rightarrow> bool" where
  "common_at A ia iaEnd B ib ibEnd \<longleftrightarrow>
     (\<exists>m n. ia \<le> m \<and> m < iaEnd \<and> ib \<le> n \<and> n < ibEnd \<and> A ! m = B ! n)"

lemma common_at_set: "common_at A 0 (length A) B 0 (length B) \<longleftrightarrow> set A \<inter> set B \<noteq> {}"
  by (fastforce simp: common_at_def in_set_conv_nth)

lemma common_at_narrow:
  assumes "\<And>m n. ia \<le> m \<Longrightarrow> m < iaEnd \<Longrightarrow> ib \<le> n \<Longrightarrow> n < ibEnd \<Longrightarrow> A ! m = B ! n \<Longrightarrow> ia' \<le> m \<and> ib' \<le> n"
    and "ia \<le> ia'" "ib \<le> ib'"
  shows "common_at A ia iaEnd B ib ibEnd \<longleftrightarrow> common_at A ia' iaEnd B ib' ibEnd"
  unfolding common_at_def using assms by (meson order_trans)

lemma has_loop_correct:
  assumes "sorted A" "sorted B" "iaEnd \<le> length A" "ibEnd \<le> length B" "ia \<le> iaEnd" "ib \<le> ibEnd"
  shows "has_loop A iaEnd B ibEnd ia ib = Some (common_at A ia iaEnd B ib ibEnd)"
  using assms(5,6)
proof (induction "iaEnd - ia" arbitrary: ia ib rule: less_induct)
  case less
  let ?ib = "lb B ib ibEnd (A ! ia)"
  note b = lb_sorted [OF assms(2) less.prems(2) assms(4), where v = "A ! ia"]
  show ?case
  proof (cases "ia = iaEnd")
    case True
    then show ?thesis by (subst has_loop.simps) (simp add: common_at_def)
  next
    case False
    then have ia: "ia < iaEnd" using less.prems by simp
    have A: "A ! ia \<le> A ! m" if "ia \<le> m" "m < iaEnd" for m
      using that assms(1,3) by (simp add: sorted_nth_mono)
    have nb: "common_at A ia iaEnd B ib ibEnd \<longleftrightarrow> common_at A ia iaEnd B ?ib ibEnd"
    proof (rule common_at_narrow)
      fix m n assume h: "ia \<le> m" "m < iaEnd" "ib \<le> n" "n < ibEnd" "A ! m = B ! n"
      then have "\<not> B ! n < A ! ia" using A [of m] by auto
      then show "ia \<le> m \<and> ?ib \<le> n" using b(3) [of n] h by (meson linorder_not_less)
    qed (use b in auto)
    show ?thesis
    proof (cases "?ib = ibEnd")
      case True
      then show ?thesis using False nb
        by (subst has_loop.simps) (simp add: Let_def common_at_def)
    next
      case ib: False
      then have ib': "?ib < ibEnd" using b(2) by simp
      show ?thesis
      proof (cases "B ! ?ib = A ! ia")
        case True
        then have "common_at A ia iaEnd B ?ib ibEnd" using ia ib' unfolding common_at_def by (metis order_refl)
        then show ?thesis using False True ib nb by (subst has_loop.simps) (simp add: Let_def)
      next
        case ne: False
        then have lt: "A ! ia < B ! ?ib" using b(4) [of ?ib] ib' by auto
        let ?ia = "lb A ia iaEnd (B ! ?ib)"
        note a = lb_sorted [OF assms(1) less.prems(1) assms(3), where v = "B ! ?ib"]
        have na: "common_at A ia iaEnd B ?ib ibEnd \<longleftrightarrow> common_at A ?ia iaEnd B ?ib ibEnd"
        proof (rule common_at_narrow)
          fix m n assume h: "ia \<le> m" "m < iaEnd" "?ib \<le> n" "n < ibEnd" "A ! m = B ! n"
          have "B ! ?ib \<le> B ! n" using h assms(2,4) by (simp add: sorted_nth_mono)
          then have "\<not> A ! m < B ! ?ib" using h by simp
          then show "?ia \<le> m \<and> ?ib \<le> n" using a(3) [of m] h by (meson linorder_not_less)
        qed (use a in auto)
        have adv: "ia < ?ia" using a(1) a(4) [of ia] lt ia by (meson linorder_not_le order_le_less)
        show ?thesis
        proof (cases "?ia \<noteq> iaEnd \<and> A ! ?ia = B ! ?ib")
          case True
          then have "common_at A ?ia iaEnd B ?ib ibEnd"
            using a(2) ib' unfolding common_at_def by (metis order_refl nat_less_le)
          then show ?thesis using False ib ne True nb na by (subst has_loop.simps) (simp add: Let_def)
        next
          case no: False
          have "has_loop A iaEnd B ibEnd ?ia ?ib = Some (common_at A ?ia iaEnd B ?ib ibEnd)"
            using adv ia a(2) b(2) by (intro less.hyps) auto
          then show ?thesis using False ib ne no nb na by (subst has_loop.simps) (auto simp: Let_def)
        qed
      qed
    qed
  qed
qed


lemma sorted_nonempty:
  assumes "sorted (xs :: int list)" "xs \<noteq> []"
  shows "\<And>m. m < length xs \<Longrightarrow> xs ! m \<le> last xs" "\<And>m. m < length xs \<Longrightarrow> hd xs \<le> xs ! m"
  using assms by (auto simp: last_conv_nth hd_conv_nth sorted_nth_mono)

lemma lb_hit_member: "lb xs 0 (length xs) v \<noteq> length xs \<Longrightarrow> sorted xs \<Longrightarrow>
  xs ! lb xs 0 (length xs) v = v \<Longrightarrow> v \<in> set xs"
  using lb_sorted(2) [of xs 0 "length xs" v] by (metis le0 order_le_less nth_mem order_refl)

lemma has_common_inner_correct:
  assumes "sorted A" "sorted B" "A \<noteq> []" "B \<noteq> []" "hd A \<le> last B" "hd B \<le> hd A"
  shows "has_common_inner A B = Some (set A \<inter> set B \<noteq> {})"
proof -
  have fin: "(let ia = lb A 0 iaEnd (hd B) in if ia = iaEnd then Some False else has_loop A iaEnd B ibEnd ia 0) =
      Some (common_at A 0 iaEnd B 0 ibEnd)"
    if e: "iaEnd \<le> length A" "ibEnd \<le> length B" for iaEnd ibEnd
  proof -
    note a = lb_sorted [OF assms(1) le0 e(1), where v = "hd B"]
    have "common_at A 0 iaEnd B 0 ibEnd \<longleftrightarrow> common_at A (lb A 0 iaEnd (hd B)) iaEnd B 0 ibEnd"
    proof (rule common_at_narrow)
      fix m n assume h: "m < iaEnd" "n < ibEnd" "A ! m = B ! n"
      then have "\<not> A ! m < hd B" using sorted_nonempty(2) [OF assms(2,4), of n] e by simp
      then show "lb A 0 iaEnd (hd B) \<le> m \<and> 0 \<le> n" using a(3) [of m] by (meson le0 linorder_not_less)
    qed simp_all
    moreover have "\<not> common_at A iaEnd iaEnd B 0 ibEnd" by (simp add: common_at_def)
    ultimately show ?thesis
      using has_loop_correct [OF assms(1,2) e a(2) le0] by (auto simp: Let_def)
  qed
  show ?thesis
  proof (cases "last A > last B")
    case True
    let ?e = "lb A 0 (length A) (last B)"
    note a = lb_sorted [OF assms(1) le0 order_refl, where v = "last B"]
    show ?thesis
    proof (cases "?e \<noteq> length A \<and> A ! ?e = last B")
      case hit: True
      then have "last B \<in> set A \<inter> set B" using lb_hit_member assms(1,4) by auto
      then show ?thesis using True hit by (auto simp: has_common_inner_def Let_def)
    next
      case no: False
      have "common_at A 0 ?e B 0 (length B) \<longleftrightarrow> common_at A 0 (length A) B 0 (length B)"
      proof
        assume "common_at A 0 (length A) B 0 (length B)"
        then obtain m n where h: "m < length A" "n < length B" "A ! m = B ! n" by (auto simp: common_at_def)
        then have le: "A ! m \<le> last B" using sorted_nonempty(1) [OF assms(2,4)] by simp
        have "m < ?e"
        proof (rule ccontr)
          assume "\<not> m < ?e"
          then have "?e \<le> m" "?e < length A" "last B \<le> A ! ?e" using h a(4) [of ?e] by auto
          moreover from this have "A ! ?e \<le> A ! m" using assms(1) h(1) by (simp add: sorted_nth_mono)
          ultimately show False using no le by auto
        qed
        with h show "common_at A 0 ?e B 0 (length B)" by (auto simp: common_at_def)
      qed (use a(2) in \<open>auto simp: common_at_def intro: order_less_le_trans\<close>)
      then show ?thesis using True no fin [OF a(2) order_refl]
        by (auto simp: has_common_inner_def Let_def common_at_set)
    qed
  next
    case False
    let ?e = "lb B 0 (length B) (last A)"
    note b = lb_sorted [OF assms(2) le0 order_refl, where v = "last A"]
    show ?thesis
    proof (cases "?e \<noteq> length B \<and> B ! ?e = last A")
      case hit: True
      then have "last A \<in> set A \<inter> set B" using lb_hit_member assms(2,3) by auto
      then show ?thesis using False hit by (auto simp: has_common_inner_def Let_def)
    next
      case no: False
      have "common_at A 0 (length A) B 0 ?e \<longleftrightarrow> common_at A 0 (length A) B 0 (length B)"
      proof
        assume "common_at A 0 (length A) B 0 (length B)"
        then obtain m n where h: "m < length A" "n < length B" "A ! m = B ! n" by (auto simp: common_at_def)
        then have le: "B ! n \<le> last A" using sorted_nonempty(1) [OF assms(1,3), of m] by simp
        have "n < ?e"
        proof (rule ccontr)
          assume "\<not> n < ?e"
          then have "?e \<le> n" "?e < length B" "last A \<le> B ! ?e" using h b(4) [of ?e] by auto
          moreover from this have "B ! ?e \<le> B ! n" using assms(2) h(2) by (simp add: sorted_nth_mono)
          ultimately show False using no le by auto
        qed
        with h show "common_at A 0 (length A) B 0 ?e" by (auto simp: common_at_def)
      qed (use b(2) in \<open>auto simp: common_at_def intro: order_less_le_trans\<close>)
      then show ?thesis using False no fin [OF order_refl b(2)]
        by (auto simp: has_common_inner_def Let_def common_at_set)
    qed
  qed
qed

lemma hasCommonFriend_correct:
  assumes "sorted A" "sorted B"
  shows "hasCommonFriend A B = Some (set A \<inter> set B \<noteq> {})"
proof (cases "A = [] \<or> B = []")
  case True
  then show ?thesis by (auto simp: hasCommonFriend_def)
next
  case False
  then have ne: "A \<noteq> []" "B \<noteq> []" by auto
  note a = sorted_nonempty [OF assms(1) ne(1)] and b = sorted_nonempty [OF assms(2) ne(2)]
  consider "hd A > last B \<or> hd B > last A" | "hd A = last B \<or> last A = hd B"
    | "hd A \<le> last B" "hd B \<le> last A" "hd A \<noteq> last B" "last A \<noteq> hd B" by force
  then show ?thesis
  proof cases
    case 1
    have "x \<notin> set B" if "x \<in> set A" for x
      using that a b 1 by (force simp: in_set_conv_nth)
    then show ?thesis using 1 ne by (auto simp: hasCommonFriend_def)
  next
    case 2
    then have "set A \<inter> set B \<noteq> {}" using ne by (metis IntI empty_iff hd_in_set last_in_set)
    moreover have "\<not> (hd A > last B \<or> hd B > last A)"
      using 2 a(1) [of 0] b(1) [of 0] ne by (auto simp: hd_conv_nth)
    ultimately show ?thesis using 2 ne by (auto simp: hasCommonFriend_def)
  next
    case 3
    then show ?thesis
      using ne has_common_inner_correct [OF assms ne] has_common_inner_correct [OF assms(2,1) ne(2,1)]
      by (auto simp: hasCommonFriend_def Int_commute)
  qed
qed


section \<open>The common friends\<close>

text \<open>The merge of \<open>_getCommonFriend\<close>, which stops at 2000 hits; a list is what an iterator has still to
  pass.\<close>

fun get_common_loop :: "int list \<Rightarrow> int list \<Rightarrow> nat \<Rightarrow> int list" where
  "get_common_loop (a # as) (b # bs) count =
     (if count < 2000
      then if a < b then get_common_loop as (b # bs) count
           else if b < a then get_common_loop (a # as) bs count
           else a # get_common_loop as bs (Suc count)
      else [])"
| "get_common_loop _ _ _ = []"

text \<open>\<open>vector<int>(n)\<close> is a vector of \<open>n\<close> zeros; a negative size throws.\<close>

definition vector_of_size :: "int \<Rightarrow> int list option" where
  "vector_of_size n = (if n < 0 then None else Some (replicate (nat n) 0))"

definition getCommonFriend :: "int list \<Rightarrow> int list \<Rightarrow> int list option" where
  "getCommonFriend A B =
     (if A = [] \<or> B = [] then Some []
      else if hd A > last B \<or> hd B > last A then Some []
      else if hd A = last B then vector_of_size (hd A)
      else if last A = hd B then vector_of_size (hd B)
      else if hd A > hd B then Some (get_common_loop A B 0) else Some (get_common_loop B A 0))"

lemma get_common_loop_correct:
  "sorted_wrt (<) A \<Longrightarrow> sorted_wrt (<) B \<Longrightarrow>
   get_common_loop A B count = take (2000 - count) [x \<leftarrow> A. x \<in> set B]"
proof (induction A B count rule: get_common_loop.induct)
  case (1 a as b bs count)
  have below: "a < b \<Longrightarrow> a \<notin> set (b # bs)" using "1.prems" by auto
  have above: "b < a \<Longrightarrow> [x \<leftarrow> a # as. x \<in> set (b # bs)] = [x \<leftarrow> a # as. x \<in> set bs]"
    using "1.prems" by (intro filter_cong) auto
  have eq: "a = b \<Longrightarrow> [x \<leftarrow> as. x \<in> set (b # bs)] = [x \<leftarrow> as. x \<in> set bs]"
    using "1.prems" by (intro filter_cong) auto
  show ?case
  proof (cases "count < 2000")
    case True
    then have suc: "2000 - count = Suc (2000 - Suc count)" by simp
    consider "a < b" | "b < a" | "a = b" by force
    then show ?thesis
    proof cases
      case 3
      then show ?thesis using 1 True eq by (simp add: suc)
    qed (use 1 True below above in auto)
  qed simp
qed simp_all

lemma sorted_filter_inter:
  assumes "sorted_wrt (<) A" "sorted_wrt (<) (B :: int list)"
  shows "[x \<leftarrow> A. x \<in> set B] = [x \<leftarrow> B. x \<in> set A]"
proof (rule strict_sorted_equal)
  show "sorted_wrt (<) [x \<leftarrow> A. x \<in> set B]" "sorted_wrt (<) [x \<leftarrow> B. x \<in> set A]"
    using assms by (simp_all add: sorted_wrt_filter)
qed auto

section \<open>Routes over a common friend\<close>

text \<open>The route list is a member that calls add to.\<close>

type_synonym routes = "int list list"

definition routListAdd :: "int \<Rightarrow> int \<Rightarrow> int \<Rightarrow> routes \<Rightarrow> routes" where
  "routListAdd id1 id2 x routList = routList @ [[id1, x, id2]]"

definition compare_hasCommonFriend :: "int \<Rightarrow> int \<Rightarrow> int list \<Rightarrow> int list \<Rightarrow> routes \<Rightarrow> routes" where
  "compare_hasCommonFriend id1 id2 A B routList =
     (if A = [] \<or> B = [] then routList
      else foldl (\<lambda>r x. if lb_found B x then routListAdd id1 id2 x r else r) routList A)"

definition klb :: "('a \<Rightarrow> int) \<Rightarrow> 'a list \<Rightarrow> nat \<Rightarrow> nat \<Rightarrow> int \<Rightarrow> nat" where
  "klb key xs i j v = lower_bound (\<lambda>x v. key x < v) xs i j v"

text \<open>
  The loop shared by the two comparisons with \<open>New\<close> in their name: over plain ids, and over index
  entries by their id. \<open>add\<close> is what is done with two entries that match.
\<close>

partial_function (option) gallop ::
  "('a \<Rightarrow> int) \<Rightarrow> ('a \<Rightarrow> 'a \<Rightarrow> 's \<Rightarrow> 's) \<Rightarrow> 'a list \<Rightarrow> nat \<Rightarrow> 'a list \<Rightarrow> nat \<Rightarrow> nat \<Rightarrow> nat \<Rightarrow> 's \<Rightarrow> 's option" where
  "gallop key add A iaEnd B ibEnd ia ib st =
     (if ia = iaEnd then Some st
      else let ib' = klb key B ib ibEnd (key (A ! ia)) in
        if ib' \<noteq> ibEnd \<and> key (B ! ib') = key (A ! ia)
        then gallop key add A iaEnd B ibEnd (Suc ia) (Suc ib') (add (A ! ia) (B ! ib') st)
        else if ib' = ibEnd then Some st
        else let ia' = klb key A ia iaEnd (key (B ! ib')) in
          if ia' \<noteq> iaEnd \<and> key (A ! ia') = key (B ! ib')
          then gallop key add A iaEnd B ibEnd (Suc ia') (Suc ib') (add (A ! ia') (B ! ib') st)
          else gallop key add A iaEnd B ibEnd ia' ib' st)"

text \<open>Both comparisons first cut the list with the larger end and handle a match there.\<close>

definition gallop_all ::
  "('a \<Rightarrow> int) \<Rightarrow> ('a \<Rightarrow> 'a \<Rightarrow> 's \<Rightarrow> 's) \<Rightarrow> 'a list \<Rightarrow> 'a list \<Rightarrow> 's \<Rightarrow> 's option" where
  "gallop_all key add A B st =
     (if A = [] \<or> B = [] then None
      else if key (last A) > key (last B)
      then (let iaEnd = klb key A 0 (length A) (key (last B));
                st' = (if iaEnd \<noteq> length A \<and> key (A ! iaEnd) = key (last B)
                       then add (A ! iaEnd) (last B) st else st)
            in gallop key add A iaEnd B (length B) 0 0 st')
      else (let ibEnd = klb key B 0 (length B) (key (last A));
                st' = (if ibEnd \<noteq> length B \<and> key (B ! ibEnd) = key (last A)
                       then add (last A) (B ! ibEnd) st else st)
            in gallop key add A (length A) B ibEnd 0 0 st'))"

definition hasCommonFriendNew :: "int \<Rightarrow> int \<Rightarrow> int list \<Rightarrow> int list \<Rightarrow> routes \<Rightarrow> routes option" where
  "hasCommonFriendNew id1 id2 newFriendsA allFriendsB routList =
     gallop_all id (\<lambda>x y r. routListAdd id1 id2 x r) newFriendsA allFriendsB routList"

section \<open>Six degrees\<close>

record IndexInfo =
  info_id :: int
  info_friends :: "int list"
  info_degree :: int

fun checkSameNode :: "int list \<Rightarrow> bool" where
  "checkSameNode [] = False"
| "checkSameNode (x # xs) = (x \<in> set xs \<or> checkSameNode xs)"

text \<open>A route is added unless it takes a way that one of the ends could shorten, or meets a node twice.\<close>

definition six_routListAdd ::
  "int \<Rightarrow> int \<Rightarrow> int list \<Rightarrow> int list \<Rightarrow> IndexInfo \<Rightarrow> IndexInfo \<Rightarrow> routes \<Rightarrow> routes" where
  "six_routListAdd id1 id2 hostFriends guestFriends data1 data2 routList =
     (if \<exists>x \<in> set (info_friends data1). lb_found guestFriends x then routList
      else if lb_found guestFriends (info_id data1) then routList
      else if lb_found hostFriends (info_id data1) then routList
      else if \<exists>x \<in> set (info_friends data2). lb_found hostFriends x then routList
      else (let rout = [id1] @ info_friends data1 @ [info_id data1] @ rev (info_friends data2) @ [id2]
            in if checkSameNode rout then routList else routList @ [rout]))"

definition comparePrivate ::
  "int \<Rightarrow> int \<Rightarrow> int list \<Rightarrow> int list \<Rightarrow> IndexInfo list \<Rightarrow> IndexInfo list \<Rightarrow> routes \<Rightarrow> routes option" where
  "comparePrivate id1 id2 hostFriends guestFriends A B routList =
     gallop_all info_id (six_routListAdd id1 id2 hostFriends guestFriends) A B routList"

definition six_hasCommonFriendNew ::
  "int \<Rightarrow> int \<Rightarrow> int list \<Rightarrow> int list \<Rightarrow> IndexInfo list \<Rightarrow> IndexInfo list \<Rightarrow> IndexInfo list \<Rightarrow>
   IndexInfo list \<Rightarrow> routes \<Rightarrow> routes option" where
  "six_hasCommonFriendNew id1 id2 hostFriends guestFriends newA newB allA allB routList =
     (if allA = [] \<or> allB = [] \<or> newA = [] \<or> newB = [] then Some routList
      else Option.bind (comparePrivate id1 id2 hostFriends guestFriends newA allB routList)
             (comparePrivate id1 id2 hostFriends guestFriends allA newB))"

definition isLoop3 :: "int \<Rightarrow> int \<Rightarrow> int \<Rightarrow> bool" where
  "isLoop3 first second third \<longleftrightarrow> first = third"

definition isLoop4 :: "int \<Rightarrow> int \<Rightarrow> int \<Rightarrow> int \<Rightarrow> bool" where
  "isLoop4 first second third fourth \<longleftrightarrow> first = third \<or> second = fourth \<or> first = fourth"

definition isOptimalPath :: "IndexInfo \<Rightarrow> IndexInfo \<Rightarrow> bool" where
  "isOptimalPath a b \<longleftrightarrow> info_id a \<noteq> info_id b \<or> (info_id a = info_id b \<and> info_degree a < info_degree a)"

lemma checkSameNode_distinct: "checkSameNode xs \<longleftrightarrow> \<not> distinct xs"
  by (induction xs) auto


section \<open>The leaping loop finds every match\<close>

definition matches :: "('a \<Rightarrow> int) \<Rightarrow> 'a list \<Rightarrow> 'a list \<Rightarrow> ('a \<times> 'a) list" where
  "matches key A B = concat (map (\<lambda>x. map (Pair x) [y \<leftarrow> B. key x = key y]) A)"

definition add_all :: "('a \<Rightarrow> 'a \<Rightarrow> 's \<Rightarrow> 's) \<Rightarrow> ('a \<times> 'a) list \<Rightarrow> 's \<Rightarrow> 's" where
  "add_all add ps st = foldl (\<lambda>s (x, y). add x y s) st ps"

lemma add_all_simps [simp]:
  "add_all add [] st = st" "add_all add ((x, y) # ps) st = add_all add ps (add x y st)"
  "add_all add (ps @ qs) st = add_all add qs (add_all add ps st)"
  by (simp_all add: add_all_def)

lemma matches_skip_left:
  "\<forall>x \<in> set A. key x \<notin> key ` set B \<Longrightarrow> matches key (A @ A') B = matches key A' B"
  by (induction A) (auto simp: matches_def filter_empty_conv)

lemma matches_skip_right:
  "\<forall>y \<in> set B. key y \<notin> key ` set A \<Longrightarrow> matches key A (B @ B') = matches key A B'"
proof (induction A)
  case (Cons a A)
  have "[y \<leftarrow> B. key a = key y] = []" using Cons.prems by (auto simp: filter_empty_conv)
  with Cons show ?case by (simp add: matches_def)
qed (simp add: matches_def)

lemma matches_Cons_eq:
  assumes "key a = key b" "\<forall>x \<in> set A. key a < key x" "\<forall>y \<in> set B. key b < key y"
  shows "matches key (a # A) (b # B) = (a, b) # matches key A B"
proof -
  have "matches key A ([b] @ B) = matches key A B"
    by (rule matches_skip_right) (use assms in auto)
  moreover have "[y \<leftarrow> B. key a = key y] = []" using assms by (auto simp: filter_empty_conv)
  ultimately show ?thesis using assms(1) by (simp add: matches_def)
qed

lemma slice_split:
  assumes "i \<le> k" "k \<le> j" shows "slice i j xs = slice i k xs @ slice k j xs"
proof -
  have "j - i = (k - i) + (j - k)" "drop k xs = drop (k - i) (drop i xs)" using assms by simp_all
  then show ?thesis by (simp only: slice_def take_add)
qed

lemma slice_Cons: "i < j \<Longrightarrow> j \<le> length xs \<Longrightarrow> slice i j xs = xs ! i # slice (Suc i) j xs"
  by (simp add: slice_def Cons_nth_drop_Suc [symmetric] Suc_diff_Suc [symmetric])

lemma slice_empty [simp]: "slice i i xs = []"
  by (simp add: slice_def)

lemma set_slice: "x \<in> set (slice i j xs) \<Longrightarrow> j \<le> length xs \<Longrightarrow> \<exists>m. i \<le> m \<and> m < j \<and> x = xs ! m"
proof -
  assume "x \<in> set (slice i j xs)" "j \<le> length xs"
  then obtain n where "n < j - i" "x = xs ! (i + n)" by (auto simp: slice_def in_set_conv_nth)
  then show ?thesis by (intro exI [of _ "i + n"]) auto
qed

lemma slice_full: "slice 0 (length xs) xs = xs"
  by (simp add: slice_def)

lemma klb_sorted:
  assumes "sorted_wrt (<) (map key xs)" "i \<le> j" "j \<le> length xs"
  shows "i \<le> klb key xs i j v" "klb key xs i j v \<le> j"
    "\<And>m. i \<le> m \<Longrightarrow> m < klb key xs i j v \<Longrightarrow> key (xs ! m) < v"
    "\<And>m. klb key xs i j v \<le> m \<Longrightarrow> m < j \<Longrightarrow> v \<le> key (xs ! m)"
  using lower_bound_sorted [of key xs i j "klb key xs i j v" v] assms strict_sorted_imp_sorted
  by (auto simp: klb_def)

lemma strict_keys:
  "sorted_wrt (<) (map key xs) \<Longrightarrow> m < n \<Longrightarrow> n < length xs \<Longrightarrow> key (xs ! m) < (key (xs ! n) :: int)"
  using sorted_wrt_nth_less [of "(<)" "map key xs" m n] by simp

text \<open>Skipping to a binary search result loses no match.\<close>

lemma matches_leap_right:
  assumes "sorted_wrt (<) (map key B)" "ib \<le> ibEnd" "ibEnd \<le> length B" "\<forall>x \<in> set A. v \<le> key x"
  shows "matches key A (slice ib ibEnd B) = matches key A (slice (klb key B ib ibEnd v) ibEnd B)"
proof -
  note b = klb_sorted [OF assms(1-3), where v = v]
  have "key y \<notin> key ` set A" if y: "y \<in> set (slice ib (klb key B ib ibEnd v) B)" for y
  proof -
    have "klb key B ib ibEnd v \<le> length B" using b(2) assms(3) by simp
    then obtain m where "ib \<le> m" "m < klb key B ib ibEnd v" "y = B ! m" using set_slice [OF y] by blast
    then have "key y < v" using b(3) by simp
    then show ?thesis using assms(4) by auto
  qed
  then show ?thesis using matches_skip_right slice_split [OF b(1,2), of B] by metis
qed

lemma matches_leap_left:
  assumes "sorted_wrt (<) (map key A)" "ia \<le> iaEnd" "iaEnd \<le> length A" "\<forall>y \<in> set B. v \<le> key y"
  shows "matches key (slice ia iaEnd A) B = matches key (slice (klb key A ia iaEnd v) iaEnd A) B"
proof -
  note a = klb_sorted [OF assms(1-3), where v = v]
  have "key x \<notin> key ` set B" if x: "x \<in> set (slice ia (klb key A ia iaEnd v) A)" for x
  proof -
    have "klb key A ia iaEnd v \<le> length A" using a(2) assms(3) by simp
    then obtain m where "ia \<le> m" "m < klb key A ia iaEnd v" "x = A ! m" using set_slice [OF x] by blast
    then have "key x < v" using a(3) by simp
    then show ?thesis using assms(4) by auto
  qed
  then show ?thesis using matches_skip_left slice_split [OF a(1,2), of A] by metis
qed

lemma slice_ge:
  assumes "sorted_wrt (<) (map key xs)" "j \<le> length xs" "x \<in> set (slice i j xs)"
  shows "key (xs ! i) \<le> (key x :: int)"
proof -
  obtain m where "i \<le> m" "m < j" "x = xs ! m" using set_slice [OF assms(3,2)] by blast
  then show ?thesis using strict_keys [OF assms(1), of i m] assms(2) by (cases "i = m") auto
qed

lemma slice_gt:
  assumes "sorted_wrt (<) (map key xs)" "j \<le> length xs" "x \<in> set (slice (Suc i) j xs)"
  shows "key (xs ! i) < (key x :: int)"
proof -
  obtain m where "Suc i \<le> m" "m < j" "x = xs ! m" using set_slice [OF assms(3,2)] by blast
  then show ?thesis using strict_keys [OF assms(1), of i m] assms(2) by simp
qed

lemma matches_hit:
  assumes "sorted_wrt (<) (map key A)" "sorted_wrt (<) (map key B)" "iaEnd \<le> length A" "ibEnd \<le> length B"
    and "ia < iaEnd" "ib < ibEnd" "key (A ! ia) = key (B ! ib)"
  shows "matches key (slice ia iaEnd A) (slice ib ibEnd B) =
    (A ! ia, B ! ib) # matches key (slice (Suc ia) iaEnd A) (slice (Suc ib) ibEnd B)"
  unfolding slice_Cons [OF assms(5,3)] slice_Cons [OF assms(6,4)]
  by (rule matches_Cons_eq [where key = key, OF assms(7)])
     (use slice_gt [OF assms(1,3)] slice_gt [OF assms(2,4)] in auto)

lemma gallop_correct:
  assumes "sorted_wrt (<) (map key A)" "sorted_wrt (<) (map key B)" "iaEnd \<le> length A" "ibEnd \<le> length B"
    and "ia \<le> iaEnd" "ib \<le> ibEnd"
  shows "gallop key add A iaEnd B ibEnd ia ib st =
    Some (add_all add (matches key (slice ia iaEnd A) (slice ib ibEnd B)) st)"
  using assms(5,6)
proof (induction "iaEnd - ia" arbitrary: ia ib st rule: less_induct)
  case less
  let ?v = "key (A ! ia)"
  let ?ib = "klb key B ib ibEnd ?v"
  note b = klb_sorted [OF assms(2) less.prems(2) assms(4), where v = ?v]
  show ?case
  proof (cases "ia = iaEnd")
    case True
    then show ?thesis by (subst gallop.simps) (simp add: matches_def)
  next
    case False
    then have ia: "ia < iaEnd" using less.prems by simp
    have mb: "matches key (slice ia iaEnd A) (slice ib ibEnd B) = matches key (slice ia iaEnd A) (slice ?ib ibEnd B)"
      by (rule matches_leap_right [OF assms(2) less.prems(2) assms(4)]) (use slice_ge [OF assms(1,3)] in auto)
    show ?thesis
    proof (cases "?ib = ibEnd")
      case True
      have "matches key (slice ia iaEnd A) [] = []" by (simp add: matches_def)
      then show ?thesis using False True mb by (subst gallop.simps) (simp add: Let_def)
    next
      case ib: False
      then have ib': "?ib < ibEnd" using b(2) by simp
      show ?thesis
      proof (cases "key (B ! ?ib) = ?v")
        case True
        have "gallop key add A iaEnd B ibEnd (Suc ia) (Suc ?ib) (add (A ! ia) (B ! ?ib) st) =
            Some (add_all add (matches key (slice (Suc ia) iaEnd A) (slice (Suc ?ib) ibEnd B)) (add (A ! ia) (B ! ?ib) st))"
          using ia ib' by (intro less.hyps) auto
        then show ?thesis
          using False ib True mb matches_hit [OF assms(1-4) ia ib' True [symmetric]]
          by (subst gallop.simps) (simp add: Let_def)
      next
        case ne: False
        then have lt: "?v < key (B ! ?ib)" using b(4) [of ?ib] ib' by auto
        let ?ia = "klb key A ia iaEnd (key (B ! ?ib))"
        note a = klb_sorted [OF assms(1) less.prems(1) assms(3), where v = "key (B ! ?ib)"]
        have ma: "matches key (slice ia iaEnd A) (slice ?ib ibEnd B) = matches key (slice ?ia iaEnd A) (slice ?ib ibEnd B)"
          by (rule matches_leap_left [OF assms(1) less.prems(1) assms(3)]) (use slice_ge [OF assms(2,4)] in auto)
        have adv: "ia < ?ia" using a(1) a(4) [of ia] lt ia by (meson linorder_not_le order_le_less)
        show ?thesis
        proof (cases "?ia \<noteq> iaEnd \<and> key (A ! ?ia) = key (B ! ?ib)")
          case True
          then have ia': "?ia < iaEnd" using a(2) by simp
          have "gallop key add A iaEnd B ibEnd (Suc ?ia) (Suc ?ib) (add (A ! ?ia) (B ! ?ib) st) =
              Some (add_all add (matches key (slice (Suc ?ia) iaEnd A) (slice (Suc ?ib) ibEnd B)) (add (A ! ?ia) (B ! ?ib) st))"
            using ia adv ia' ib' by (intro less.hyps) auto
          then show ?thesis
            using False ib ne True mb ma matches_hit [OF assms(1-4) ia' ib' conjunct2 [OF True]]
            by (subst gallop.simps) (simp add: Let_def)
        next
          case no: False
          have "gallop key add A iaEnd B ibEnd ?ia ?ib st =
              Some (add_all add (matches key (slice ?ia iaEnd A) (slice ?ib ibEnd B)) st)"
            using adv ia a(2) b(2) by (intro less.hyps) auto
          then show ?thesis using False ib ne no mb ma by (subst gallop.simps) (auto simp: Let_def)
        qed
      qed
    qed
  qed
qed


lemma matches_append_left: "matches key (A @ A') B = matches key A B @ matches key A' B"
  by (simp add: matches_def)

lemma matches_none: "\<forall>x \<in> set A. key x \<notin> key ` set B \<Longrightarrow> matches key A B = []"
  using matches_skip_left [of A key B "[]"] by (simp add: matches_def)

lemma strict_last:
  assumes "sorted_wrt (<) (map key xs)" "x \<in> set xs" shows "key x \<le> (key (last xs) :: int)"
proof -
  obtain ys y where xs: "xs = ys @ [y]" using assms(2) by (metis append_butlast_last_id empty_iff empty_set)
  then have "\<forall>z \<in> set ys. key z < key y" using assms(1) by (simp add: sorted_wrt_append)
  with assms(2) show ?thesis by (auto simp: xs)
qed

text \<open>The part of a sorted list from the lower bound of a value on matches that value at most once.\<close>

lemma upper_part:
  fixes key :: "'a \<Rightarrow> int" and v :: int and A :: "'a list"
  assumes "sorted_wrt (<) (map key A)"
  defines "e \<equiv> klb key A 0 (length A) v"
  shows "slice e (length A) A = (if e = length A then [] else A ! e # slice (Suc e) (length A) A)"
    "\<And>x. x \<in> set (slice 0 e A) \<Longrightarrow> key x < v"
    "\<And>x. x \<in> set (slice (Suc e) (length A) A) \<Longrightarrow> v < key x"
    "e \<noteq> length A \<Longrightarrow> v \<le> key (A ! e)"
proof -
  note a = klb_sorted [OF assms(1) le0 order_refl, where v = v, folded e_def]
  show "slice e (length A) A = (if e = length A then [] else A ! e # slice (Suc e) (length A) A)"
    using a(2) slice_Cons [of e "length A" A] by auto
  show "key x < v" if "x \<in> set (slice 0 e A)" for x using set_slice [OF that a(2)] a(3) by auto
  show ge: "v \<le> key (A ! e)" if "e \<noteq> length A" using that a(2) a(4) [of e] by simp
  show "v < key x" if x: "x \<in> set (slice (Suc e) (length A) A)" for x
  proof -
    have "e \<noteq> length A" using x by (auto simp: slice_def)
    then show ?thesis using slice_gt [OF assms(1) order_refl x] ge by auto
  qed
qed

lemma matches_cut_left:
  assumes "sorted_wrt (<) (map key A)" "sorted_wrt (<) (map key B)" "B \<noteq> []"
  defines "e \<equiv> klb key A 0 (length A) (key (last B))"
  shows "matches key A B = matches key (slice 0 e A) B @
    (if e \<noteq> length A \<and> key (A ! e) = key (last B) then [(A ! e, last B)] else [])"
proof -
  note u = upper_part [OF assms(1), where v = "key (last B)", folded e_def]
  have e: "e \<le> length A" unfolding e_def using klb_sorted(2) [OF assms(1) le0 order_refl] .
  have above: "matches key (slice (Suc e) (length A) A) B = []"
  proof (rule matches_none, intro ballI notI)
    fix x assume x: "x \<in> set (slice (Suc e) (length A) A)" and "key x \<in> key ` set B"
    then obtain y where "y \<in> set B" "key x = key y" by auto
    then show False using u(3) [OF x] strict_last [OF assms(2), of y] by simp
  qed
  have last: "matches key [A ! e] B = (if key (A ! e) = key (last B) then [(A ! e, last B)] else [])"
    if "e \<noteq> length A"
  proof (cases "key (A ! e) = key (last B)")
    case True
    have "[y \<leftarrow> B. key (A ! e) = key y] = [last B]"
    proof -
      obtain ys y where B: "B = ys @ [y]" using assms(3) by (metis append_butlast_last_id)
      then have "\<forall>z \<in> set ys. key z < key y" using assms(2) by (simp add: sorted_wrt_append)
      then show ?thesis using True by (auto simp: B filter_empty_conv)
    qed
    then show ?thesis using True by (simp add: matches_def)
  next
    case False
    have "key (A ! e) \<noteq> key y" if "y \<in> set B" for y
      using u(4) [OF \<open>e \<noteq> length A\<close>] False strict_last [OF assms(2) that] by auto
    then show ?thesis using False by (auto simp: matches_def filter_empty_conv)
  qed
  have "A = slice 0 e A @ slice e (length A) A" using slice_split [OF le0 e, of A] by (simp add: slice_full)
  then have "matches key A B = matches key (slice 0 e A) B @ matches key (slice e (length A) A) B"
    by (metis matches_append_left)
  then show ?thesis
    using last above u(1) matches_append_left [of key "[A ! e]" "slice (Suc e) (length A) A" B]
    by (auto simp: matches_def)
qed

lemma matches_cut_right:
  assumes "sorted_wrt (<) (map key A)" "sorted_wrt (<) (map key B)" "A \<noteq> []"
  defines "e \<equiv> klb key B 0 (length B) (key (last A))"
  shows "matches key A B = matches key A (slice 0 e B) @
    (if e \<noteq> length B \<and> key (B ! e) = key (last A) then [(last A, B ! e)] else [])"
proof -
  note u = upper_part [OF assms(2), where v = "key (last A)", folded e_def]
  have e: "e \<le> length B" unfolding e_def using klb_sorted(2) [OF assms(2) le0 order_refl] .
  obtain as a where A: "A = as @ [a]" using assms(3) by (metis append_butlast_last_id)
  have lt: "\<forall>x \<in> set as. key x < key a" using assms(1) by (simp add: A sorted_wrt_append)
  have B: "B = slice 0 e B @ slice e (length B) B" using slice_split [OF le0 e, of B] by (simp add: slice_full)
  have low: "key a \<notin> key ` set (slice 0 e B)"
  proof
    assume "key a \<in> key ` set (slice 0 e B)"
    then obtain y where "y \<in> set (slice 0 e B)" "key a = key y" by auto
    then show False using u(2) [of y] by (simp add: A)
  qed
  have up: "\<forall>y \<in> set (slice e (length B) B). key a \<le> key y" using u(1,3,4) by (fastforce simp: A split: if_splits)
  have as: "matches key as B = matches key as (slice 0 e B)"
  proof -
    have "[y \<leftarrow> slice e (length B) B. key x = key y] = []" if "x \<in> set as" for x
      using up lt that by (force simp: filter_empty_conv)
    then show ?thesis by (subst B) (auto simp: matches_def intro!: arg_cong [where f = concat])
  qed
  have "matches key [a] (slice 0 e B) = []" by (rule matches_none) (use low in auto)
  moreover have "matches key [a] B = (if e \<noteq> length B \<and> key (B ! e) = key a then [(a, B ! e)] else [])"
  proof -
    have "matches key [a] B = matches key [a] (slice e (length B) B)"
      by (subst B, rule matches_skip_right) (use low in \<open>simp, metis image_eqI\<close>)
    moreover have "[y \<leftarrow> slice (Suc e) (length B) B. key a = key y] = []"
      unfolding filter_empty_conv
    proof (intro ballI notI)
      fix y assume "y \<in> set (slice (Suc e) (length B) B)" "key a = key y"
      then show False using u(3) [of y] by (simp add: A)
    qed
    ultimately show ?thesis using u(1) by (auto simp: matches_def)
  qed
  ultimately show ?thesis using as by (simp add: A matches_append_left)
qed

lemma gallop_all_correct:
  assumes "sorted_wrt (<) (map key A)" "sorted_wrt (<) (map key B)" "A \<noteq> []" "B \<noteq> []"
  shows "\<exists>hit main. gallop_all key add A B st = Some (add_all add (hit @ main) st) \<and>
    matches key A B = main @ hit"
proof (cases "key (last A) > key (last B)")
  case True
  obtain e where e: "klb key A 0 (length A) (key (last B)) = e" by blast
  have le: "e \<le> length A" unfolding e [symmetric] by (rule klb_sorted(2) [OF assms(1) le0 order_refl])
  let ?hit = "if e \<noteq> length A \<and> key (A ! e) = key (last B) then [(A ! e, last B)] else []"
  have "gallop_all key add A B st = Some (add_all add (?hit @ matches key (slice 0 e A) B) st)"
    using assms(3,4) True by (auto simp: gallop_all_def Let_def e gallop_correct [OF assms(1,2) le] slice_full)
  with matches_cut_left [OF assms(1,2,4)] show ?thesis unfolding e by blast
next
  case False
  obtain e where e: "klb key B 0 (length B) (key (last A)) = e" by blast
  have le: "e \<le> length B" unfolding e [symmetric] by (rule klb_sorted(2) [OF assms(2) le0 order_refl])
  let ?hit = "if e \<noteq> length B \<and> key (B ! e) = key (last A) then [(last A, B ! e)] else []"
  have "gallop_all key add A B st = Some (add_all add (?hit @ matches key A (slice 0 e B)) st)"
    using assms(3,4) False
    by (auto simp: gallop_all_def Let_def e gallop_correct [OF assms(1,2) order_refl le] slice_full)
  with matches_cut_right [OF assms(1,2,3)] show ?thesis unfolding e by blast
qed


section \<open>Properties\<close>

text \<open>On sorted lists of friends \<open>hasCommonFriend\<close> ends and says whether the lists have a common
  element.\<close>

lemma has_common_friend_exact:
  assumes "sorted A" "sorted B"
  shows "hasCommonFriend A B = Some (set A \<inter> set B \<noteq> {})"
  by (rule hasCommonFriend_correct [OF assms])

lemma has_common_friend_exact_witness:
  "hasCommonFriend [3, 8, 20, 41] [1, 5, 20, 30] = Some True \<and> hasCommonFriend [3, 9] [1, 5, 10] = Some False"
  using has_common_friend_exact [of "[3, 8, 20, 41]" "[1, 5, 20, 30]"]
    has_common_friend_exact [of "[3, 9]" "[1, 5, 10]"] by simp

text \<open>On strictly ascending lists that overlap in more than an end, \<open>getCommonFriend\<close> returns the
  first 2000 common elements in ascending order, and nothing when the ranges are apart.\<close>

lemma get_common_friend_exact:
  assumes "sorted_wrt (<) A" "sorted_wrt (<) B"
    and "A = [] \<or> B = [] \<or> (hd A \<noteq> last B \<and> last A \<noteq> hd B)"
  shows "getCommonFriend A B = Some (take 2000 [x \<leftarrow> A. x \<in> set B])"
proof (cases "A = [] \<or> B = []")
  case True
  then show ?thesis by (auto simp: getCommonFriend_def)
next
  case False
  then have ne: "A \<noteq> []" "B \<noteq> []" by auto
  have srt: "sorted A" "sorted B" using assms(1,2) by (auto intro: strict_sorted_imp_sorted)
  note a = sorted_nonempty [OF srt(1) ne(1)] and b = sorted_nonempty [OF srt(2) ne(2)]
  have apart: "[x \<leftarrow> A. x \<in> set B] = []" if "hd A > last B \<or> hd B > last A"
    using that a b by (force simp: filter_empty_conv in_set_conv_nth)
  have t: "hd A \<noteq> last B" "last A \<noteq> hd B" using assms(3) ne by blast+
  show ?thesis
  proof (cases "hd A > last B \<or> hd B > last A")
    case True
    then show ?thesis using ne apart by (simp add: getCommonFriend_def)
  next
    case False
    then have "getCommonFriend A B = Some (if hd A > hd B then get_common_loop A B 0 else get_common_loop B A 0)"
      using ne t by (cases "hd B < hd A") (simp_all only: getCommonFriend_def simp_thms if_False if_True)
    then show ?thesis
      using sorted_filter_inter [OF assms(1,2)]
      by (simp only: get_common_loop_correct [OF assms(1,2)] get_common_loop_correct [OF assms(2,1)] diff_zero if_cancel)
  qed
qed

lemma get_common_friend_exact_witness:
  "getCommonFriend [1, 3, 5, 9] [2, 3, 9, 11] = Some [3, 9]"
  using get_common_friend_exact [of "[1, 3, 5, 9]" "[2, 3, 9, 11]"] by simp

text \<open>When the lists touch in one end only, \<open>getCommonFriend\<close> does not return the common friend
  but as many zeros as the friend's id says.\<close>

lemma get_common_friend_touching:
  assumes "A \<noteq> []" "B \<noteq> []" "hd A = last B" "0 < hd A" "hd B \<le> last A"
  shows "getCommonFriend A B = Some (replicate (nat (hd A)) 0)"
  using assms by (simp add: getCommonFriend_def vector_of_size_def)

lemma get_common_friend_touching_witness:
  "getCommonFriend [4, 7] [2, 4] = Some [0, 0, 0, 0] \<and> set [4, 7] \<inter> set [2, 4 :: int] = {4}"
  using get_common_friend_touching [of "[4, 7]" "[2, 4]"] by (auto simp: numeral_eq_Suc)

lemma naive_fold:
  "foldl (\<lambda>r x. if p x then routListAdd id1 id2 x r else r) r A = r @ map (\<lambda>x. [id1, x, id2]) [x \<leftarrow> A. p x]"
  by (induction A arbitrary: r) (simp_all add: routListAdd_def)

lemma add_all_routes:
  "add_all (\<lambda>x y r. routListAdd id1 id2 x r) ps st = st @ map (\<lambda>(x, y). [id1, x, id2]) ps"
  by (induction ps arbitrary: st) (auto simp: routListAdd_def)

lemma matches_ids:
  assumes "sorted_wrt (<) B" shows "matches id A B = map (\<lambda>x. (x, x)) [x \<leftarrow> A. x \<in> set B]"
proof -
  have "[y \<leftarrow> B. x = y] = (if x \<in> set B then [x] else [])" for x
    using assms by (induction B) (auto simp: filter_empty_conv)
  then show ?thesis by (induction A) (auto simp: matches_def)
qed

text \<open>C34. The leaping comparison ends on strictly ascending lists and finds the same routes over common
  friends as the plain one, at most in another order and none twice.\<close>

theorem leaping_comparison_equivalent:
  assumes "sorted_wrt (<) A" "sorted_wrt (<) B" "A \<noteq> []" "B \<noteq> []"
  shows "\<exists>r. hasCommonFriendNew id1 id2 A B [] = Some r \<and> distinct r \<and>
    set r = set (compare_hasCommonFriend id1 id2 A B []) \<and>
    length r = length (compare_hasCommonFriend id1 id2 A B [])"
proof -
  have k: "sorted_wrt (<) (map id A)" "sorted_wrt (<) (map id B)" using assms by simp_all
  obtain hit main where g: "hasCommonFriendNew id1 id2 A B [] =
      Some (map (\<lambda>(x, y). [id1, x, id2]) (hit @ main))" and m: "matches id A B = main @ hit"
    using gallop_all_correct [OF k assms(3,4), of "\<lambda>x y r. routListAdd id1 id2 x r" "[]"]
    by (auto simp: hasCommonFriendNew_def add_all_routes)
  have ms: "main @ hit = map (\<lambda>x. (x, x)) [x \<leftarrow> A. x \<in> set B]" using matches_ids [OF assms(2)] m by simp
  have srt: "sorted B" using assms(2) by (rule strict_sorted_imp_sorted)
  have c: "compare_hasCommonFriend id1 id2 A B [] = map (\<lambda>(x, y). [id1, x, id2]) (main @ hit)"
    using assms(3,4) by (simp add: compare_hasCommonFriend_def naive_fold lb_found_iff [OF srt] ms comp_def)
  have "distinct A" using assms(1) by (simp add: strict_sorted_iff)
  then have "distinct (map (\<lambda>(x, y). [id1, x, id2]) (main @ hit))"
    unfolding ms by (simp add: distinct_map comp_def inj_on_def)
  then have "distinct (map (\<lambda>(x, y). [id1, x, id2]) (hit @ main))" by auto
  then show ?thesis using g c by (auto simp: Un_commute)
qed

theorem leaping_comparison_equivalent_witness:
  "\<exists>r. hasCommonFriendNew 1 2 [3, 5, 8] [4, 5, 8, 9] [] = Some r \<and> set r = {[1, 5, 2], [1, 8, 2]}"
proof -
  have "compare_hasCommonFriend 1 2 [3, 5, 8] [4, 5, 8, 9] [] = [[1, 5, 2], [1, 8, 2]]"
    by (simp add: compare_hasCommonFriend_def naive_fold lb_found_iff)
  then show ?thesis using leaping_comparison_equivalent [of "[3, 5, 8]" "[4, 5, 8, 9]" 1 2] by auto
qed


fun is_path :: "(int \<times> int) set \<Rightarrow> int list \<Rightarrow> bool" where
  "is_path E (x # y # zs) \<longleftrightarrow> (x, y) \<in> E \<and> is_path E (y # zs)"
| "is_path E _ \<longleftrightarrow> True"

lemma is_path_join: "is_path E (xs @ [a]) \<Longrightarrow> is_path E (a # ys) \<Longrightarrow> is_path E (xs @ a # ys)"
  by (induction E xs rule: is_path.induct) (auto split: list.splits)

lemma is_path_snoc: "is_path E (xs @ [a, b]) \<longleftrightarrow> is_path E (xs @ [a]) \<and> (a, b) \<in> E"
proof (induction xs)
  case (Cons x xs)
  then show ?case by (cases xs) auto
qed simp

lemma is_path_rev: "sym E \<Longrightarrow> is_path E (rev xs) \<longleftrightarrow> is_path E xs"
proof (induction E xs rule: is_path.induct)
  case (1 E x y zs)
  then show ?case using is_path_snoc [of E "rev zs" y x] by (auto dest: symD)
qed simp_all

text \<open>An index entry of a user: the friends lead from the user to the entry's id.\<close>

definition index_of :: "(int \<times> int) set \<Rightarrow> int \<Rightarrow> IndexInfo \<Rightarrow> bool" where
  "index_of E u d \<longleftrightarrow> is_path E ([u] @ info_friends d @ [info_id d])"

definition good_route :: "(int \<times> int) set \<Rightarrow> int \<Rightarrow> int \<Rightarrow> int list \<Rightarrow> int list \<Rightarrow> int list \<Rightarrow> bool" where
  "good_route E id1 id2 host guest r \<longleftrightarrow>
     is_path E r \<and> distinct r \<and> hd r = id1 \<and> last r = id2 \<and>
     (\<exists>f x g. r = [id1] @ f @ [x] @ g @ [id2] \<and> set f \<inter> set guest = {} \<and>
        x \<notin> set host \<union> set guest \<and> set g \<inter> set host = {})"

lemma six_add_good:
  assumes "sym E" "index_of E id1 d1" "index_of E id2 d2" "info_id d1 = info_id d2"
    and "sorted host" "sorted guest" "\<forall>r \<in> set rs. good_route E id1 id2 host guest r"
  shows "\<forall>r \<in> set (six_routListAdd id1 id2 host guest d1 d2 rs). good_route E id1 id2 host guest r"
proof -
  let ?r = "[id1] @ info_friends d1 @ [info_id d1] @ rev (info_friends d2) @ [id2]"
  have "is_path E (rev ([id2] @ info_friends d2 @ [info_id d2]))"
    using assms(3) unfolding is_path_rev [OF assms(1)] index_of_def .
  then have "is_path E (info_id d1 # rev (info_friends d2) @ [id2])" using assms(4) by simp
  then have "is_path E ?r"
    using is_path_join [of E "id1 # info_friends d1" "info_id d1"] assms(2) by (simp add: index_of_def)
  then have "\<not> checkSameNode ?r \<Longrightarrow> set (info_friends d1) \<inter> set guest = {} \<Longrightarrow>
      info_id d1 \<notin> set host \<union> set guest \<Longrightarrow> set (info_friends d2) \<inter> set host = {} \<Longrightarrow>
      good_route E id1 id2 host guest ?r"
    unfolding good_route_def checkSameNode_distinct by (intro conjI exI [of _ "info_friends d1"] exI [of _ "info_id d1"] exI [of _ "rev (info_friends d2)"]) auto
  with assms(5-7) show ?thesis
    by (auto simp: six_routListAdd_def Let_def lb_found_iff)
qed

lemma matches_members: "(x, y) \<in> set (matches key A B) \<Longrightarrow> x \<in> set A \<and> y \<in> set B \<and> key x = key y"
  by (auto simp: matches_def)

lemma add_all_invariant:
  "\<forall>(x, y) \<in> set ps. \<forall>st. P st \<longrightarrow> P (add x y st) \<Longrightarrow> P st \<Longrightarrow> P (add_all add ps st)"
  by (induction ps arbitrary: st) auto

lemma comparePrivate_good:
  assumes "sym E" "\<forall>d \<in> set A. index_of E id1 d" "\<forall>d \<in> set B. index_of E id2 d"
    and "sorted host" "sorted guest"
    and "sorted_wrt (<) (map info_id A)" "sorted_wrt (<) (map info_id B)" "A \<noteq> []" "B \<noteq> []"
    and "\<forall>r \<in> set rs. good_route E id1 id2 host guest r"
  shows "\<exists>rs'. comparePrivate id1 id2 host guest A B rs = Some rs' \<and>
    (\<forall>r \<in> set rs'. good_route E id1 id2 host guest r)"
proof -
  let ?add = "six_routListAdd id1 id2 host guest"
  obtain hit main where g: "comparePrivate id1 id2 host guest A B rs = Some (add_all ?add (hit @ main) rs)"
    and m: "matches info_id A B = main @ hit"
    using gallop_all_correct [OF assms(6-9), of ?add rs] by (auto simp: comparePrivate_def)
  have "\<forall>r \<in> set (add_all ?add (hit @ main) rs). good_route E id1 id2 host guest r"
  proof (rule add_all_invariant [where P = "\<lambda>rs. \<forall>r \<in> set rs. good_route E id1 id2 host guest r"])
    show "\<forall>(x, y) \<in> set (hit @ main). \<forall>rs. (\<forall>r \<in> set rs. good_route E id1 id2 host guest r) \<longrightarrow>
        (\<forall>r \<in> set (?add x y rs). good_route E id1 id2 host guest r)"
    proof (intro ballI, clarsimp simp only: split_paired_all prod.case)
      fix x y rs r
      assume xy: "(x, y) \<in> set (hit @ main)" and rs: "\<forall>r \<in> set rs. good_route E id1 id2 host guest r"
        and r: "r \<in> set (?add x y rs)"
      have "(x, y) \<in> set (matches info_id A B)" using xy by (auto simp: m)
      from matches_members [OF this] show "good_route E id1 id2 host guest r"
        using six_add_good [OF assms(1) _ _ _ assms(4,5) rs] assms(2,3) r by blast
    qed
  qed (rule assms(10))
  with g show ?thesis by blast
qed

text \<open>C35. The six degrees comparison, on indexes sorted by id whose entries are paths of the friendship
  graph, ends and returns only simple paths from one user to the other, in which no inner node could
  be skipped because it is a friend of the opposite end already.\<close>

theorem six_degrees_routes_valid:
  assumes "sym E" "\<forall>d \<in> set allA \<union> set newA. index_of E id1 d" "\<forall>d \<in> set allB \<union> set newB. index_of E id2 d"
    and "sorted host" "sorted guest"
    and "sorted_wrt (<) (map info_id allA)" "sorted_wrt (<) (map info_id newA)"
    and "sorted_wrt (<) (map info_id allB)" "sorted_wrt (<) (map info_id newB)"
  shows "\<exists>rs. six_hasCommonFriendNew id1 id2 host guest newA newB allA allB [] = Some rs \<and>
    (\<forall>r \<in> set rs. good_route E id1 id2 host guest r)"
proof (cases "allA = [] \<or> allB = [] \<or> newA = [] \<or> newB = []")
  case True
  then show ?thesis by (simp add: six_hasCommonFriendNew_def)
next
  case False
  then obtain rs1 where 1: "comparePrivate id1 id2 host guest newA allB [] = Some rs1"
      "\<forall>r \<in> set rs1. good_route E id1 id2 host guest r"
    using comparePrivate_good [OF assms(1) _ _ assms(4,5,7,8), of id1 id2 "[]"] assms(2,3) by auto
  obtain rs2 where "comparePrivate id1 id2 host guest allA newB rs1 = Some rs2"
      "\<forall>r \<in> set rs2. good_route E id1 id2 host guest r"
    using comparePrivate_good [OF assms(1) _ _ assms(4,5,6,9) _ _ 1(2)] assms(2,3) False by auto
  then show ?thesis using False 1 by (simp add: six_hasCommonFriendNew_def)
qed

definition entry7 :: "int \<Rightarrow> IndexInfo" where
  "entry7 f = \<lparr>info_id = 7, info_friends = [f], info_degree = 2\<rparr>"

theorem six_degrees_routes_valid_witness:
  "\<exists>rs. six_hasCommonFriendNew 1 2 [3] [4] [entry7 3] [entry7 4] [entry7 3] [entry7 4] [] = Some rs \<and>
     (\<forall>r \<in> set rs. good_route {(1, 3), (3, 1), (3, 7), (7, 3), (7, 4), (4, 7), (4, 2), (2, 4)} 1 2 [3] [4] r)"
proof -
  let ?E = "{(1, 3), (3, 1), (3, 7), (7, 3), (7, 4), (4, 7), (4, 2), (2, 4 :: int)}"
  have "sym ?E" by (auto simp: sym_def)
  then show ?thesis
    using six_degrees_routes_valid [of ?E "[entry7 3]" "[entry7 3]" 1 "[entry7 4]" "[entry7 4]" 2 "[3]" "[4]"]
    by (simp add: index_of_def entry7_def)
qed

end
