(* ===== verification/Gid.thy ===== *)
theory Gid
  imports OcePrelude
begin

text \<open>
  Unified identifiers, \<^verbatim>\<open>xiaonei-commons-gid/util/c/gid.h\<close>. A 64-bit identifier carries the type
  in its upper twelve bits and the original id in its lower 44 bits; the subject types (persons, pages,
  organisations and so on) keep their original id, and the range of the id says the type. Values of
  \<open>int64_t\<close> are integers here, the shift wraps to 64 bits as the hardware does; a \<open>Type\<close> is its number,
  since \<open>ExtractType\<close> makes any number a \<open>Type\<close>.
\<close>

type_synonym Type = int

definition kNull :: Type where "kNull = 0x0"
definition kPerson :: Type where "kPerson = 0x100"
definition kPage :: Type where "kPage = 0x110"
definition kXiaoZhan :: Type where "kXiaoZhan = 0x120"
definition kXiaoZu :: Type where "kXiaoZu = 0x130"
definition kGroup :: Type where "kGroup = 0x140"
definition kMiniGroup :: Type where "kMiniGroup = 0x150"
definition kEvent :: Type where "kEvent = 0x160"
definition kApplication :: Type where "kApplication = 0x170"
definition kOrg :: Type where "kOrg = 0x180"
definition kMaxObject :: Type where "kMaxObject = 0x300"
definition kComment :: Type where "kComment = 0x300"
definition kStatus :: Type where "kStatus = 0x310"
definition kBlog :: Type where "kBlog = 0x320"
definition kPhoto :: Type where "kPhoto = 0x330"
definition kVedio :: Type where "kVedio = 0x340"
definition kAlbum :: Type where "kAlbum = 0x350"
definition kShare :: Type where "kShare = 0x360"
definition kVote :: Type where "kVote = 0x370"
definition kGossip :: Type where "kGossip = 0x380"
definition kMessage :: Type where "kMessage = 0x390"
definition kRequest :: Type where "kRequest = 0x3A0"
definition kTag :: Type where "kTag = 0x3B0"
definition kPlace :: Type where "kPlace = 0x3C0"
definition kEntryIndex :: Type where "kEntryIndex = 0x3D0"
definition kLink :: Type where "kLink = 0x3E0"
definition kAudio :: Type where "kAudio = 0x3F0"
definition kBlogTemplate :: Type where "kBlogTemplate = 0x3A1"
definition kMaxDocument :: Type where "kMaxDocument = 0x3FF"
definition kSubtypeSart :: Type where "kSubtypeSart = 0x7FF000"

lemmas type_defs = kNull_def kPerson_def kPage_def kXiaoZhan_def kXiaoZu_def kGroup_def kMiniGroup_def
  kEvent_def kApplication_def kOrg_def kMaxObject_def kComment_def kStatus_def kBlog_def kPhoto_def
  kVedio_def kAlbum_def kShare_def kVote_def kGossip_def kMessage_def kRequest_def kTag_def kPlace_def
  kEntryIndex_def kLink_def kAudio_def kBlogTemplate_def kMaxDocument_def kSubtypeSart_def

definition kUpperXValueOf :: int where "kUpperXValueOf = 0xfffffffffff"

definition ExtractType :: "int \<Rightarrow> Type" where
  "ExtractType gid =
     (if gid \<le> 0 then kNull
      else if gid \<ge> 1 \<and> gid \<le> 599999999 \<or> gid \<ge> 700000000 \<and> gid \<le> 2147483647 then kPerson
      else if gid \<ge> 670000000 \<and> gid \<le> 670999999 then kOrg
      else if gid \<ge> 671000000 \<and> gid \<le> 672999999 then kXiaoZhan
      else if gid \<ge> 680000000 \<and> gid \<le> 680999999 then kMiniGroup
      else if gid \<ge> 600000000 \<and> gid \<le> 699999999 then kPage
      else if gid < push_bit 52 1 then kNull
      else drop_bit 52 gid)"

definition ExtractX :: "int \<Rightarrow> int" where
  "ExtractX gid = gid AND kUpperXValueOf"

definition IsTypeOf :: "int \<Rightarrow> Type \<Rightarrow> bool" where
  "IsTypeOf gid type \<longleftrightarrow> type = ExtractType gid"

definition Id :: "int \<Rightarrow> Type \<Rightarrow> int" where
  "Id x type =
     (if x \<le> 0 then 0
      else if type = kPerson \<or> type = kPage \<or> type = kOrg \<or> type = kXiaoZhan \<or> type = kMiniGroup
      then (if IsTypeOf x type then x else 0)
      else if x > kUpperXValueOf then 0
      else signed_take_bit 63 (push_bit 52 type) OR x)"

definition subject_type :: "Type \<Rightarrow> bool" where
  "subject_type t \<longleftrightarrow> t \<in> {kPerson, kPage, kOrg, kXiaoZhan, kMiniGroup}"

lemma compose_number:
  assumes "0 \<le> t" "t \<le> 0x7FF" "0 \<le> x" "x \<le> kUpperXValueOf"
  shows "signed_take_bit 63 (push_bit 52 t) OR x = t * 2 ^ 52 + x"
proof -
  have "t * 2 ^ 52 < 2 ^ 63" using assms(2) by simp
  moreover have "- (2 ^ 63) \<le> t * 2 ^ 52"
    using assms(1) by simp
  ultimately have w: "signed_take_bit 63 (push_bit 52 t) = push_bit 52 t"
    unfolding push_bit_eq_mult by (rule signed_take_bit_int_eq_self [rotated])
  have x: "take_bit 52 x = x" using assms(3,4) by (simp add: take_bit_int_eq_self_iff kUpperXValueOf_def)
  have "push_bit 52 t AND x = 0"
    by (subst x [symmetric]) (rule bit_eqI, auto simp: bit_and_iff bit_push_bit_iff bit_take_bit_iff)
  then have "push_bit 52 t OR x = push_bit 52 t + x" by (simp add: disjunctive_add_eq_or)
  then show ?thesis unfolding w by (simp only: push_bit_eq_mult)
qed

lemma composed_parts:
  assumes "0 < t" "t \<le> 0x7FF" "0 < x" "x \<le> kUpperXValueOf"
  shows "ExtractType (t * 2 ^ 52 + x) = t" "ExtractX (t * 2 ^ 52 + x) = x" "2 ^ 52 \<le> t * 2 ^ 52 + x"
    "t * 2 ^ 52 + x < 2 ^ 63"
proof -
  have m: "kUpperXValueOf = mask 44" by (simp add: kUpperXValueOf_def mask_eq_exp_minus_1)
  have x52: "x < 2 ^ 52" using assms(4) by (simp add: kUpperXValueOf_def)
  show big: "2 ^ 52 \<le> t * 2 ^ 52 + x" using assms by simp
  have "drop_bit 52 (t * 2 ^ 52 + x) = t" using assms x52 by (simp add: drop_bit_eq_div)
  with big show "ExtractType (t * 2 ^ 52 + x) = t" by (simp add: ExtractType_def push_bit_eq_mult)
  have "(t * 2 ^ 52 + x) mod 2 ^ 44 = x mod 2 ^ 44"
    by (subst (1) mod_add_left_eq [symmetric]) (simp add: mod_mult_eq [symmetric])
  also have "\<dots> = x" using assms(3,4) by (simp add: kUpperXValueOf_def)
  finally show "ExtractX (t * 2 ^ 52 + x) = x"
    unfolding ExtractX_def m take_bit_eq_mask [symmetric] take_bit_eq_mod .
  show "t * 2 ^ 52 + x < 2 ^ 63" using assms by (simp add: kUpperXValueOf_def)
qed

text \<open>C39. Composing an identifier and taking it apart is a round trip: for a content type, a positive
  original id of at most 44 bits gives a positive 64-bit identifier above every subject id, from which type
  and original id come back; any other original id gives 0.\<close>

theorem gid_roundtrip:
  assumes "0 < t" "t \<le> 0x7FF" "\<not> subject_type t"
  shows "if 0 < x \<and> x \<le> kUpperXValueOf
    then 2 ^ 52 \<le> Id x t \<and> Id x t < 2 ^ 63 \<and> ExtractType (Id x t) = t \<and> ExtractX (Id x t) = x
    else Id x t = 0"
proof (cases "0 < x \<and> x \<le> kUpperXValueOf")
  case True
  then have "Id x t = t * 2 ^ 52 + x"
    using assms by (simp add: Id_def subject_type_def compose_number del: power_numeral)
  then show ?thesis using composed_parts [of t x] assms True by (simp del: power_numeral)
next
  case False
  then show ?thesis using assms by (auto simp: Id_def subject_type_def)
qed

theorem gid_roundtrip_witness:
  "ExtractType (Id 12345 kPhoto) = kPhoto \<and> ExtractX (Id 12345 kPhoto) = 12345"
  using gid_roundtrip [of kPhoto 12345] by (simp add: subject_type_def type_defs kUpperXValueOf_def)

text \<open>Identifiers are unambiguous: two pairs of original id and type (subject types included) that
  compose to the same non-zero identifier are the same pair.\<close>

lemma gid_injective:
  assumes "Id x t = Id y u" "Id x t \<noteq> 0" "0 < t" "t \<le> 0x7FF" "0 < u" "u \<le> 0x7FF"
  shows "x = y \<and> t = u"
proof -
  have type: "ExtractType (Id z v) = v" if "Id z v \<noteq> 0" "0 < v" "v \<le> 0x7FF" for z v
  proof (cases "subject_type v")
    case True
    then have "IsTypeOf z v" "Id z v = z" using that(1) by (auto simp: Id_def subject_type_def split: if_splits)
    then show ?thesis by (simp add: IsTypeOf_def)
  next
    case False
    then have "0 < z" "z \<le> kUpperXValueOf" using that(1) by (auto simp: Id_def subject_type_def split: if_splits)
    moreover from this False have "Id z v = v * 2 ^ 52 + z"
      using that by (simp add: Id_def subject_type_def compose_number del: power_numeral)
    ultimately show ?thesis using composed_parts(1) that by (simp del: power_numeral)
  qed
  have tu: "t = u" using type [of x t] type [of y u] assms by simp
  have "x = y"
  proof (cases "subject_type t")
    case True
    then show ?thesis using assms tu by (auto simp: Id_def subject_type_def split: if_splits)
  next
    case False
    then have r: "0 < x" "x \<le> kUpperXValueOf" "0 < y" "y \<le> kUpperXValueOf"
      using assms tu by (auto simp: Id_def subject_type_def split: if_splits)
    then have "t * 2 ^ 52 + x = t * 2 ^ 52 + y"
      using assms tu False by (simp add: Id_def subject_type_def compose_number del: power_numeral)
    then show ?thesis by simp
  qed
  with tu show ?thesis by simp
qed

lemma gid_injective_witness: "Id 700000007 kPerson \<noteq> 0 \<and> Id 700000007 kPerson = 700000007 \<and>
  (\<forall>y. Id 700000007 kPerson \<noteq> Id y kBlog)"
proof -
  have i: "Id 700000007 kPerson = 700000007" by (simp add: Id_def IsTypeOf_def ExtractType_def type_defs)
  have False if "Id 700000007 kPerson = Id y kBlog" for y
    using gid_injective [OF that] i by (simp add: type_defs)
  with i show ?thesis by auto
qed

end
