(* ===== verification/IpArea.thy ===== *)
theory IpArea
  imports OcePrelude "HOL-Library.Tree"
begin

text \<open>
  The area of an address: \<^verbatim>\<open>ad/gate/src/range_key.h\<close> and \<^verbatim>\<open>ad/gate/src/ip_area_cache.cpp\<close>. A range is the
  key of a \<open>std::map\<close>; single values are looked up as degenerate ranges. The comparison throws on two
  single values and on ranges that overlap without being equal, which is the result \<open>None\<close>. The map is
  the list of its entries in ascending order, searched with the comparisons the code defines; on the
  maps the cache builds, every way to search a tree of these entries gives the same answer
  (\<open>tree_search_any_shape\<close>). The result of the query of the database is an argument, \<open>None\<close> when the
  query fails or throws.
\<close>

section \<open>Ranges\<close>

record 'a RangeKey =
  rmin :: 'a
  rmax :: 'a

definition rk_range :: "'a \<Rightarrow> 'a \<Rightarrow> 'a RangeKey" where
  "rk_range mn mx = \<lparr>rmin = mn, rmax = mx\<rparr>"

definition rk_value :: "'a \<Rightarrow> 'a RangeKey" where
  "rk_value val = \<lparr>rmin = val, rmax = val\<rparr>"

definition rk_compare :: "'a :: linorder RangeKey \<Rightarrow> 'a RangeKey \<Rightarrow> int option" where
  "rk_compare a rhs =
     (if rmin rhs = rmax rhs \<and> rmin a = rmax a then None
      else if rmax rhs = rmin rhs
      then (if rmin a > rmin rhs then Some 1
            else if rmin a \<le> rmin rhs \<and> rmax a > rmin rhs then Some 0
            else Some (-1))
      else if rmin a = rmax a
      then (if rmin a \<ge> rmax rhs then Some 1
            else if rmin a < rmax rhs \<and> rmin a \<ge> rmin rhs then Some 0
            else Some (-1))
      else if rmin rhs = rmin a \<and> rmax rhs = rmax a then Some 0
      else if rmin rhs < rmin a \<and> rmax rhs \<le> rmin a then Some 1
      else if rmin rhs > rmin a \<and> rmin rhs \<ge> rmax a then Some (-1)
      else None)"

definition rk_eq :: "'a :: linorder RangeKey \<Rightarrow> 'a RangeKey \<Rightarrow> bool option" where
  "rk_eq a b = map_option (\<lambda>c. c = 0) (rk_compare a b)"

definition rk_neq :: "'a :: linorder RangeKey \<Rightarrow> 'a RangeKey \<Rightarrow> bool option" where
  "rk_neq a b = map_option (\<lambda>c. c \<noteq> 0) (rk_compare a b)"

definition rk_less :: "'a :: linorder RangeKey \<Rightarrow> 'a RangeKey \<Rightarrow> bool option" where
  "rk_less a b = map_option (\<lambda>c. c < 0) (rk_compare a b)"

definition rk_greater :: "'a :: linorder RangeKey \<Rightarrow> 'a RangeKey \<Rightarrow> bool option" where
  "rk_greater a b = map_option (\<lambda>c. c > 0) (rk_compare a b)"

definition rk_leq :: "'a :: linorder RangeKey \<Rightarrow> 'a RangeKey \<Rightarrow> bool option" where
  "rk_leq a b = map_option (\<lambda>c. c \<le> 0) (rk_compare a b)"

definition rk_geq :: "'a :: linorder RangeKey \<Rightarrow> 'a RangeKey \<Rightarrow> bool option" where
  "rk_geq a b = map_option (\<lambda>c. c \<ge> 0) (rk_compare a b)"

section \<open>The cache\<close>

type_synonym CacheMap = "(u32 RangeKey \<times> string) list"

text \<open>\<open>map::find\<close> and \<open>map::operator[]\<close>: the first entry not less than the key, and then the comparison
  the other way round.\<close>

fun map_find :: "'a :: linorder RangeKey \<Rightarrow> ('a RangeKey \<times> 'v) list \<Rightarrow> 'v option option" where
  "map_find k [] = Some None"
| "map_find k ((r, v) # xs) =
     (case rk_less r k of
        None \<Rightarrow> None
      | Some True \<Rightarrow> map_find k xs
      | Some False \<Rightarrow>
          (case rk_less k r of
             None \<Rightarrow> None
           | Some True \<Rightarrow> Some None
           | Some False \<Rightarrow> Some (Some v)))"

fun map_put :: "'a :: linorder RangeKey \<Rightarrow> 'v \<Rightarrow> ('a RangeKey \<times> 'v) list \<Rightarrow> ('a RangeKey \<times> 'v) list option" where
  "map_put k v [] = Some [(k, v)]"
| "map_put k v ((r, w) # xs) =
     (case rk_less r k of
        None \<Rightarrow> None
      | Some True \<Rightarrow> map_option ((#) (r, w)) (map_put k v xs)
      | Some False \<Rightarrow>
          (case rk_less k r of
             None \<Rightarrow> None
           | Some True \<Rightarrow> Some ((k, v) # (r, w) # xs)
           | Some False \<Rightarrow> Some ((r, v) # xs)))"

record IpRow =
  row_start :: u32
  row_end :: u32
  row_area_code :: string

record IpAreaCache =
  cacheMap :: CacheMap
  default_area :: string

definition IpAreaCache_new :: IpAreaCache where
  "IpAreaCache_new = \<lparr>cacheMap = [], default_area = ''0086000000000000''\<rparr>"

fun load_rows :: "IpRow list \<Rightarrow> CacheMap \<Rightarrow> CacheMap option" where
  "load_rows [] cache = Some cache"
| "load_rows (row # rows) cache =
     (if row_start row < row_end row
      then (case map_put (rk_range (row_start row) (row_end row)) (row_area_code row) cache of
              None \<Rightarrow> None
            | Some cache' \<Rightarrow> load_rows rows cache')
      else load_rows rows cache)"

definition Reload :: "IpRow list option \<Rightarrow> IpAreaCache \<Rightarrow> bool \<times> IpAreaCache" where
  "Reload res s =
     (case res of
        None \<Rightarrow> (False, s)
      | Some rows \<Rightarrow>
          (case load_rows rows [] of
             None \<Rightarrow> (False, s)
           | Some cache \<Rightarrow> (True, s\<lparr>cacheMap := cache\<rparr>)))"

definition GetIpArea :: "u32 \<Rightarrow> IpAreaCache \<Rightarrow> string option" where
  "GetIpArea ip s =
     (case map_find (rk_value ip) (cacheMap s) of
        None \<Rightarrow> None
      | Some (Some area) \<Rightarrow> Some area
      | Some None \<Rightarrow> Some (default_area s))"

section \<open>The comparison\<close>

definition proper :: "'a :: linorder RangeKey \<Rightarrow> bool" where
  "proper r \<longleftrightarrow> rmin r < rmax r"

definition holds :: "'a :: linorder RangeKey \<Rightarrow> 'a \<Rightarrow> bool" where
  "holds r v \<longleftrightarrow> rmin r \<le> v \<and> v < rmax r"

definition below :: "'a :: linorder RangeKey \<Rightarrow> 'a RangeKey \<Rightarrow> bool" where
  "below r s \<longleftrightarrow> rmax r \<le> rmin s"

definition compatible :: "'a :: linorder RangeKey \<Rightarrow> 'a RangeKey \<Rightarrow> bool" where
  "compatible r s \<longleftrightarrow> r = s \<or> below r s \<or> below s r"

lemma compare_proper:
  assumes "proper r" "proper s"
  shows "rk_compare r s = (if r = s then Some 0 else if below s r then Some 1 else if below r s then Some (-1) else None)"
  using assms by (cases r; cases s) (auto simp: rk_compare_def proper_def below_def)

lemma compare_value:
  assumes "proper r"
  shows "rk_compare r (rk_value v) = Some (if v < rmin r then 1 else if holds r v then 0 else -1)"
    "rk_compare (rk_value v) r = Some (if rmax r \<le> v then 1 else if holds r v then 0 else -1)"
  using assms by (auto simp: rk_compare_def rk_value_def proper_def holds_def)

lemma less_proper:
  assumes "proper r" "proper s"
  shows "rk_less r s = (if compatible r s then Some (below r s) else None)"
  using assms by (auto simp: rk_less_def compare_proper compatible_def) (auto simp: proper_def below_def)

lemma less_value:
  assumes "proper r"
  shows "rk_less r (rk_value v) = Some (rmax r \<le> v)" "rk_less (rk_value v) r = Some (v < rmin r)"
  using assms by (auto simp: rk_less_def compare_value holds_def proper_def)

section \<open>The map\<close>

definition map_ok :: "('a :: linorder RangeKey \<times> 'v) list \<Rightarrow> bool" where
  "map_ok xs \<longleftrightarrow> (\<forall>r \<in> fst ` set xs. proper r) \<and> sorted_wrt below (map fst xs)"

lemma map_ok_Cons [simp]:
  "map_ok ((r, v) # xs) \<longleftrightarrow> proper r \<and> (\<forall>s \<in> fst ` set xs. below r s) \<and> map_ok xs"
  by (auto simp: map_ok_def)

lemma below_trans: "below r s \<Longrightarrow> below s t \<Longrightarrow> proper s \<Longrightarrow> below r t"
  by (auto simp: below_def proper_def)

lemma below_irrefl: "proper r \<Longrightarrow> below r s \<Longrightarrow> proper s \<Longrightarrow> \<not> below s r \<and> r \<noteq> s"
  by (auto simp: below_def proper_def)

lemma map_ok_proper: "map_ok xs \<Longrightarrow> (r, v) \<in> set xs \<Longrightarrow> proper r"
  by (force simp: map_ok_def)

lemma map_find_value:
  "map_ok xs \<Longrightarrow> map_find (rk_value v) xs = Some (map_option snd (find (\<lambda>(r, w). holds r v) xs))"
proof (induction xs)
  case (Cons x xs)
  obtain r w where x: "x = (r, w)" by force
  have none: "find (\<lambda>(r, w). holds r v) xs = None" if "v < rmin r"
    using Cons.prems that by (force simp: x find_None_iff below_def holds_def proper_def)
  from Cons x none show ?case by (auto simp: less_value holds_def split: bool.splits)
qed simp

lemma map_put_step:
  assumes "proper r" "proper k"
  shows "map_put k v ((r, w) # xs) =
    (if \<not> compatible r k then None
     else if below r k then map_option ((#) (r, w)) (map_put k v xs)
     else if r = k then Some ((r, v) # xs)
     else Some ((k, v) # (r, w) # xs))"
proof -
  have "compatible k r = compatible r k" by (auto simp: compatible_def)
  moreover have "below k r \<longleftrightarrow> r \<noteq> k" if "compatible r k" "\<not> below r k"
    using that assms by (auto simp: compatible_def below_def proper_def)
  ultimately show ?thesis using assms by (simp add: less_proper)
qed

lemma map_put_keys:
  "map_put k v xs = Some ys \<Longrightarrow> map_ok xs \<Longrightarrow> proper k \<Longrightarrow> fst ` set ys = insert k (fst ` set xs)"
proof (induction xs arbitrary: ys)
  case (Cons x xs)
  obtain r w where x: "x = (r, w)" by force
  with Cons.prems have p: "proper r" "map_ok xs" by simp_all
  show ?case
  proof (cases "below r k")
    case True
    with Cons.prems p obtain z where "map_put k v xs = Some z" "ys = (r, w) # z"
      by (auto simp: x map_put_step simp del: map_put.simps split: if_splits)
    then show ?thesis using Cons.IH p Cons.prems(3) by (simp add: x insert_commute)
  next
    case False
    with Cons.prems p have "ys = (r, v) # xs \<and> r = k \<or> ys = (k, v) # x # xs"
      by (auto simp: x map_put_step simp del: map_put.simps split: if_splits)
    then show ?thesis by (auto simp: x)
  qed
qed simp

lemma map_put_some:
  assumes "map_ok xs" "proper k" "\<forall>r \<in> fst ` set xs. compatible r k"
  shows "\<exists>ys. map_put k v xs = Some ys \<and> map_ok ys \<and> map_of ys = (map_of xs)(k \<mapsto> v)"
  using assms
proof (induction xs)
  case (Cons x xs)
  obtain r w where x: "x = (r, w)" by force
  from Cons.prems have p: "proper r" "proper k" "compatible r k" "map_ok xs" by (simp_all add: x)
  have "\<forall>r \<in> fst ` set xs. compatible r k" using Cons.prems by simp
  then obtain ys where ys: "map_put k v xs = Some ys" "map_ok ys" "map_of ys = (map_of xs)(k \<mapsto> v)"
    using Cons.IH p by blast
  note keys = map_put_keys [OF ys(1) p(4,2)]
  consider (lt) "below r k" | (eq) "r = k" | (gt) "below k r" using p(3) by (auto simp: compatible_def)
  then show ?case
  proof cases
    case lt
    then have "map_put k v (x # xs) = Some ((r, w) # ys)" "r \<noteq> k"
      using p ys below_irrefl [of r k] by (auto simp: x map_put_step simp del: map_put.simps)
    moreover have "map_ok ((r, w) # ys)" using ys(2) lt Cons.prems(1) p keys by (auto simp: x)
    ultimately show ?thesis using ys(3) by (auto simp: x fun_eq_iff)
  next
    case eq
    then have "map_put k v (x # xs) = Some ((r, v) # xs)"
      using p below_irrefl [of r r] by (auto simp: x map_put_step simp del: map_put.simps)
    then show ?thesis using eq Cons.prems(1) by (auto simp: x fun_eq_iff)
  next
    case gt
    then have "map_put k v (x # xs) = Some ((k, v) # (r, w) # xs)"
      using p below_irrefl [of k r] by (auto simp: x map_put_step simp del: map_put.simps)
    moreover have "map_ok ((k, v) # (r, w) # xs)"
      using gt Cons.prems(1) p(1,2) by (auto simp: x intro: below_trans)
    ultimately show ?thesis by (auto simp: x fun_eq_iff simp del: map_put.simps)
  qed
qed simp

lemma map_put_none:
  assumes "map_ok xs" "proper k" "r \<in> fst ` set xs" "\<not> compatible r k"
  shows "map_put k v xs = None"
  using assms
proof (induction xs)
  case (Cons x xs)
  obtain s w where x: "x = (s, w)" by force
  from Cons.prems have p: "proper s" "proper k" "map_ok xs" by (simp_all add: x)
  have r: "proper r" using Cons.prems by (force simp: x map_ok_def)
  show ?case
  proof (cases "r = s")
    case True
    then show ?thesis using p Cons.prems by (simp add: x map_put_step del: map_put.simps)
  next
    case False
    then have rs: "r \<in> fst ` set xs" "below s r" using Cons.prems by (auto simp: x)
    then have "map_put k v xs = None" using Cons p by (auto simp: x)
    moreover have "\<not> below k s \<and> k \<noteq> s"
      using rs r p Cons.prems(4) by (auto simp: compatible_def below_def proper_def)
    ultimately show ?thesis using p by (auto simp: x map_put_step compatible_def simp del: map_put.simps)
  qed
qed simp

section \<open>Loading and looking up\<close>

abbreviation row_range :: "IpRow \<Rightarrow> u32 RangeKey" where
  "row_range row \<equiv> rk_range (row_start row) (row_end row)"

definition usable :: "IpRow list \<Rightarrow> IpRow list" where
  "usable rows = [row \<leftarrow> rows. row_start row < row_end row]"

definition rows_compatible :: "IpRow list \<Rightarrow> bool" where
  "rows_compatible rows \<longleftrightarrow>
     (\<forall>a \<in> set (usable rows). \<forall>b \<in> set (usable rows). compatible (row_range a) (row_range b))"

lemma compatible_sym: "compatible r s \<longleftrightarrow> compatible s r"
  by (auto simp: compatible_def)

lemma load_rows_correct:
  assumes "map_ok c"
  shows "case load_rows rows c of
      None \<Rightarrow> \<not> (rows_compatible rows \<and> (\<forall>a \<in> set (usable rows). \<forall>r \<in> fst ` set c. compatible r (row_range a)))
    | Some c' \<Rightarrow> rows_compatible rows \<and> (\<forall>a \<in> set (usable rows). \<forall>r \<in> fst ` set c. compatible r (row_range a)) \<and>
        map_ok c' \<and> map_of c' = map_of c ++ map_of (rev (map (\<lambda>a. (row_range a, row_area_code a)) (usable rows)))"
  using assms
proof (induction rows arbitrary: c)
  case (Cons row rows)
  show ?case
  proof (cases "row_start row < row_end row")
    case False
    then have u: "usable (row # rows) = usable rows" and l: "load_rows (row # rows) c = load_rows rows c"
      by (simp_all add: usable_def)
    show ?thesis using Cons.IH [OF Cons.prems] unfolding rows_compatible_def u l .
  next
    case True
    let ?k = "row_range row"
    have k: "proper ?k" using True by (simp add: proper_def rk_range_def)
    have u: "usable (row # rows) = row # usable rows" using True by (simp add: usable_def)
    show ?thesis
    proof (cases "\<forall>r \<in> fst ` set c. compatible r ?k")
      case False
      then have "map_put ?k (row_area_code row) c = None" using map_put_none [OF Cons.prems k] by blast
      then show ?thesis using True False by (simp add: u del: map_put.simps)
    next
      case ok: True
      from map_put_some [OF Cons.prems k ok] obtain ys
        where ys: "map_put ?k (row_area_code row) c = Some ys" "map_ok ys" "map_of ys = (map_of c)(?k \<mapsto> row_area_code row)"
        by blast
      have keys: "fst ` set ys = insert ?k (fst ` set c)" by (rule map_put_keys [OF ys(1) Cons.prems k])
      have rc: "rows_compatible (row # rows) \<and> (\<forall>a \<in> set (usable (row # rows)). \<forall>r \<in> fst ` set c. compatible r (row_range a)) \<longleftrightarrow>
        rows_compatible rows \<and> (\<forall>a \<in> set (usable rows). \<forall>r \<in> fst ` set ys. compatible r (row_range a))"
        using ok unfolding rows_compatible_def u keys by (auto simp: compatible_sym) (simp add: compatible_def)
      have "load_rows (row # rows) c = load_rows rows ys" using True ys(1) by simp
      moreover have "map_of c ++ map_of (rev (map (\<lambda>a. (row_range a, row_area_code a)) (usable (row # rows)))) =
        map_of ys ++ map_of (rev (map (\<lambda>a. (row_range a, row_area_code a)) (usable rows)))"
        unfolding u ys(3) by (simp add: map_add_assoc [symmetric])
      ultimately show ?thesis using Cons.IH [OF ys(2)] rc by (simp split: option.splits)
    qed
  qed
qed (simp add: usable_def rows_compatible_def)

lemma find_holds_map_of:
  assumes "map_ok c" "holds r v" "map_of c r = Some w"
  shows "map_option snd (find (\<lambda>(r, w). holds r v) c) = Some w"
  using assms
proof (induction c)
  case (Cons x c)
  obtain s u where x: "x = (s, u)" by force
  show ?case
  proof (cases "s = r")
    case False
    then have "map_of c r = Some w" using Cons.prems by (simp add: x)
    moreover from this have "below s r" using Cons.prems by (force simp: x dest: map_of_SomeD)
    ultimately show ?thesis using Cons by (auto simp: x holds_def below_def)
  qed (use Cons in \<open>simp add: x\<close>)
qed simp

lemma find_map_of:
  "find (\<lambda>a. holds (g a) v) ys = Some a \<Longrightarrow> holds (g a) v \<and> map_of (map (\<lambda>a. (g a, h a)) ys) (g a) = Some (h a)"
  by (induction ys) (auto split: if_splits)

definition area_of_rows :: "string \<Rightarrow> u32 \<Rightarrow> IpRow list \<Rightarrow> string" where
  "area_of_rows def ip rows =
     (case find (\<lambda>row. row_start row \<le> ip \<and> ip < row_end row) (rev rows) of
        None \<Rightarrow> def
      | Some row \<Rightarrow> row_area_code row)"

lemma map_find_rows:
  assumes "map_ok c" "map_of c = map_of (rev (map (\<lambda>a. (row_range a, row_area_code a)) (usable rows)))"
  shows "map_find (rk_value ip) c =
    Some (map_option row_area_code (find (\<lambda>row. row_start row \<le> ip \<and> ip < row_end row) (rev (usable rows))))"
proof -
  let ?h = "\<lambda>row. holds (row_range row) ip"
  have h: "?h = (\<lambda>row. row_start row \<le> ip \<and> ip < row_end row)" by (simp add: holds_def rk_range_def)
  have "map_option snd (find (\<lambda>(r, w). holds r ip) c) = map_option row_area_code (find ?h (rev (usable rows)))"
  proof (cases "find ?h (rev (usable rows))")
    case None
    have "\<not> holds r ip" if "(r, w) \<in> set c" for r w
    proof -
      have "r \<in> dom (map_of c)" using that unfolding dom_map_of_conv_image_fst by force
      then have "r \<in> row_range ` set (usable rows)"
        unfolding assms(2) dom_map_of_conv_image_fst set_rev set_map image_image fst_conv .
      then show ?thesis using None by (auto simp: find_None_iff)
    qed
    then have "find (\<lambda>(r, w). holds r ip) c = None" by (auto simp: find_None_iff)
    then show ?thesis using None by simp
  next
    case (Some a)
    then have "holds (row_range a) ip" "map_of c (row_range a) = Some (row_area_code a)"
      using find_map_of [OF Some, of row_area_code] by (simp_all add: assms(2) rev_map)
    then show ?thesis using find_holds_map_of [OF assms(1)] Some by simp
  qed
  then show ?thesis using map_find_value [OF assms(1), of ip] h by simp
qed

lemma find_usable:
  "find (\<lambda>row. row_start row \<le> ip \<and> ip < row_end row) (rev (usable rows)) =
   find (\<lambda>row. row_start row \<le> ip \<and> ip < row_end row) (rev rows)"
proof -
  have "find P [x \<leftarrow> xs. Q x] = find P xs" if "\<And>x. P x \<Longrightarrow> Q x" for P Q and xs :: "IpRow list"
    using that by (induction xs) auto
  note f = this [of "\<lambda>row. row_start row \<le> ip \<and> ip < row_end row" "\<lambda>row. row_start row < row_end row"]
  show ?thesis unfolding usable_def rev_filter by (rule f) (auto intro: order_le_less_trans)
qed

text \<open>C38. After a load of rows whose ranges are pairwise equal or disjoint, the area of every address is
  that of the last row whose half-open range holds it, and the default area when there is none; the
  lookup never throws.\<close>

theorem ip_area_exact:
  assumes "rows_compatible rows"
  shows "fst (Reload (Some rows) s) \<and>
    GetIpArea ip (snd (Reload (Some rows) s)) = Some (area_of_rows (default_area s) ip rows)"
proof -
  have "map_ok ([] :: CacheMap)" by (simp add: map_ok_def)
  from load_rows_correct [OF this, of rows] assms obtain c where c: "load_rows rows [] = Some c" "map_ok c"
    "map_of c = map_of (rev (map (\<lambda>a. (row_range a, row_area_code a)) (usable rows)))"
    by (auto split: option.splits)
  show ?thesis
    using c(1) by (simp add: Reload_def GetIpArea_def map_find_rows [OF c(2,3)] find_usable area_of_rows_def split: option.split)
qed

definition sample_rows :: "IpRow list" where
  "sample_rows = [\<lparr>row_start = 100, row_end = 200, row_area_code = ''A''\<rparr>,
     \<lparr>row_start = 10, row_end = 20, row_area_code = ''B''\<rparr>, \<lparr>row_start = 200, row_end = 300, row_area_code = ''C''\<rparr>]"

theorem ip_area_exact_witness:
  "GetIpArea 150 (snd (Reload (Some sample_rows) IpAreaCache_new)) = Some ''A'' \<and>
   GetIpArea 200 (snd (Reload (Some sample_rows) IpAreaCache_new)) = Some ''C'' \<and>
   GetIpArea 300 (snd (Reload (Some sample_rows) IpAreaCache_new)) = Some ''0086000000000000''"
proof -
  have "rows_compatible sample_rows"
    by (simp add: sample_rows_def rows_compatible_def usable_def compatible_def below_def rk_range_def)
  note e = ip_area_exact [OF this, of IpAreaCache_new, THEN conjunct2]
  show ?thesis unfolding e by (simp add: area_of_rows_def sample_rows_def IpAreaCache_new_def)
qed

text \<open>A reload succeeds exactly when the query does and the ranges are pairwise equal or disjoint;
  one that fails leaves the cache as it was.\<close>

lemma ip_area_reload_all_or_nothing:
  "(fst (Reload res s) \<longleftrightarrow> (case res of None \<Rightarrow> False | Some rows \<Rightarrow> rows_compatible rows)) \<and>
   (fst (Reload res s) \<or> snd (Reload res s) = s)"
proof (cases res)
  case (Some rows)
  have "map_ok ([] :: CacheMap)" by (simp add: map_ok_def)
  from load_rows_correct [OF this, of rows] show ?thesis by (auto simp: Some Reload_def split: option.splits)
qed (simp add: Reload_def)

section \<open>Independence of the shape of the tree\<close>

text \<open>The descent of \<open>map::lower_bound\<close> through a search tree, with the best entry so far.\<close>

fun tree_lower_bound :: "'a :: linorder RangeKey \<Rightarrow> ('a RangeKey \<times> 'v) tree \<Rightarrow> ('a RangeKey \<times> 'v) option
    \<Rightarrow> ('a RangeKey \<times> 'v) option option" where
  "tree_lower_bound k Leaf best = Some best"
| "tree_lower_bound k (Node l e r) best =
     (case rk_less (fst e) k of
        None \<Rightarrow> None
      | Some True \<Rightarrow> tree_lower_bound k r best
      | Some False \<Rightarrow> tree_lower_bound k l (Some e))"

definition tree_find :: "'a :: linorder RangeKey \<Rightarrow> ('a RangeKey \<times> 'v) tree \<Rightarrow> 'v option option" where
  "tree_find k t =
     (case tree_lower_bound k t None of
        None \<Rightarrow> None
      | Some None \<Rightarrow> Some None
      | Some (Some (r, v)) \<Rightarrow>
          (case rk_less k r of None \<Rightarrow> None | Some True \<Rightarrow> Some None | Some False \<Rightarrow> Some (Some v)))"

definition rank :: "'a :: linorder RangeKey \<Rightarrow> 'a RangeKey \<times> 'v \<Rightarrow> nat" where
  "rank k e = (case rk_less (fst e) k of Some True \<Rightarrow> 0 | None \<Rightarrow> 1 | Some False \<Rightarrow> 2)"

lemma rank_split: "rank k e = 0 \<longleftrightarrow> rk_less (fst e) k = Some True" "rank k e = 1 \<longleftrightarrow> rk_less (fst e) k = None"
  "rank k e = 2 \<longleftrightarrow> rk_less (fst e) k = Some False"
  by (auto simp: rank_def split: option.split bool.split)

lemma rank_cases [case_names less throws not_less]:
  obtains "rank k e = 0" | "rank k e = 1" | "rank k e = 2"
  using rank_split [of k e] by (metis (full_types) not_Some_eq)

lemma find_append: "find P (xs @ ys) = (case find P xs of None \<Rightarrow> find P ys | Some x \<Rightarrow> Some x)"
  by (induction xs) auto

lemma tree_lower_bound_any:
  assumes "sorted_wrt (\<lambda>x y. rank k x \<le> rank k y) (inorder t)"
  shows "tree_lower_bound k t best =
    (if \<exists>e \<in> set (inorder t). rank k e = 1 then None
     else Some (case find (\<lambda>e. rank k e = 2) (inorder t) of Some e \<Rightarrow> Some e | None \<Rightarrow> best))"
  using assms
proof (induction t arbitrary: best)
  case (Node l e r)
  have s: "sorted_wrt (\<lambda>x y. rank k x \<le> rank k y) (inorder l)" "sorted_wrt (\<lambda>x y. rank k x \<le> rank k y) (inorder r)"
    "\<forall>x \<in> set (inorder l). rank k x \<le> rank k e" "\<forall>y \<in> set (inorder r). rank k e \<le> rank k y"
    using Node.prems by (auto simp: sorted_wrt_append)
  show ?case
  proof (cases k e rule: rank_cases)
    case less
    then have "find (\<lambda>e. rank k e = 2) (inorder l) = None" "\<forall>x \<in> set (inorder l). rank k x \<noteq> 1"
      using s(3) by (auto simp: find_None_iff)
    then show ?thesis using less less [unfolded rank_split] Node.IH(2) [OF s(2)]
      by (auto simp: find_append simp del: set_inorder)
  next
    case throws
    then show ?thesis using throws [unfolded rank_split] by auto
  next
    case not_less
    then have "\<forall>y \<in> set (inorder r). rank k y \<noteq> 1" using s(4) by auto
    then show ?thesis using not_less not_less [unfolded rank_split] Node.IH(1) [OF s(1)]
      by (auto simp: find_append simp del: set_inorder split: option.splits)
  qed
qed simp

lemma map_ok_ranks:
  assumes "map_ok xs" "proper k \<or> k = rk_value v"
  shows "sorted_wrt (\<lambda>x y. rank k x \<le> rank k y) xs"
proof -
  have "rank k (r, u) \<le> rank k (s, w)" if "below r s" "proper r" "proper s" for r s u w
    using that assms(2)
    by (auto simp: rank_def less_proper less_value compatible_def below_def proper_def split: option.splits bool.splits if_splits)
  then have "rank k x \<le> rank k y" if "below (fst x) (fst y)" "x \<in> set xs" "y \<in> set xs" for x y
    using that assms(1) unfolding map_ok_def by (metis image_eqI prod.collapse)
  then show ?thesis using assms(1) unfolding map_ok_def sorted_wrt_map
    by (auto elim!: sorted_wrt_mono_rel [rotated])
qed

lemma map_find_by_rank:
  assumes "sorted_wrt (\<lambda>x y. rank k x \<le> rank k y) xs"
  shows "map_find k xs =
    (if \<exists>e \<in> set xs. rank k e = 1 then None
     else (case find (\<lambda>e. rank k e = 2) xs of
             None \<Rightarrow> Some None
           | Some (r, v) \<Rightarrow> (case rk_less k r of None \<Rightarrow> None | Some True \<Rightarrow> Some None | Some False \<Rightarrow> Some (Some v))))"
  using assms
proof (induction xs)
  case (Cons x xs)
  obtain r v where x: "x = (r, v)" by force
  show ?case
    using Cons rank_split [of k x] by (cases k x rule: rank_cases) (auto simp: x)
qed simp

text \<open>The lookup and the exceptions of the comparison do not depend on how the entries are arranged in
  a search tree: every tree over a well-formed map finds the same, for a single value and for a range.\<close>

lemma tree_search_any_shape:
  assumes "map_ok (inorder t)" "proper k \<or> k = rk_value v"
  shows "tree_find k t = map_find k (inorder t)"
  unfolding tree_find_def tree_lower_bound_any [OF map_ok_ranks [OF assms]] map_find_by_rank [OF map_ok_ranks [OF assms]]
  by (auto split: option.splits)

lemma tree_search_any_shape_witness:
  "tree_find (rk_value 5) (Node (Node Leaf (rk_range 1 4, ''a'') Leaf) (rk_range 4 (9 :: int), ''b'') Leaf) = Some (Some ''b'')"
proof -
  let ?t = "Node (Node Leaf (rk_range 1 4, ''a'') Leaf) (rk_range 4 (9 :: int), ''b'') Leaf"
  have "map_ok (inorder ?t)" by (simp add: proper_def rk_range_def below_def map_ok_def)
  from tree_search_any_shape [OF this, of "rk_value 5" 5] show ?thesis
    by (simp add: rk_less_def rk_compare_def rk_value_def rk_range_def)
qed

end
