(* ===== verification/FeedCache.thy ===== *)
theory FeedCache
  imports OcePrelude "HOL-Library.Multiset" "HOL-Library.Product_Lexorder"
begin

text \<open>
  The streams of feeds of \<^verbatim>\<open>feed/FeedItemCache/src/FeedStream.h\<close> at the type the service uses,
  \<open>FeedStream<FeedMetaData>\<close>, with the feed data and the filters of \<^verbatim>\<open>UserFeedsI.h\<close>. A stream keeps
  one vector of feeds per user in order of arrival; it is put in order of time on demand. The map of
  users is the list of its entries in ascending order of the user id. The structure of a feed has two
  gaps of padding, which the comparison by \<open>memcmp\<close> reads: they are a field of the record, with
  contents that nothing determines. The sort of the standard library is an argument, as it may
  arrange feeds of equal rank in any way.
\<close>

section \<open>Feeds\<close>

record FeedMeta =
  userid :: int
  feedid :: int
  ftype :: int
  ftime :: int
  weight :: int
  mergeid :: int

record FeedMetaData = FeedMeta +
  padding :: "u32 \<times> u32"

definition FeedMetaData_of :: "u32 \<times> u32 \<Rightarrow> FeedMeta \<Rightarrow> FeedMetaData" where
  "FeedMetaData_of pad fm =
     \<lparr>userid = userid fm, feedid = feedid fm, ftype = ftype fm, ftime = ftime fm, weight = weight fm,
      mergeid = mergeid fm, padding = pad\<rparr>"

definition createFrom :: "int \<Rightarrow> FeedMetaData \<Rightarrow> FeedMeta" where
  "createFrom uid d =
     \<lparr>userid = userid d, feedid = feedid d, ftype = ftype d, ftime = ftime d, weight = weight d,
      mergeid = mergeid d\<rparr>"

definition fd_less :: "FeedMetaData \<Rightarrow> FeedMetaData \<Rightarrow> bool" where
  "fd_less a b =
     (let t = to_int32 (ftime a - ftime b) in if t = 0 then feedid a < feedid b else t < 0)"

definition fd_equal :: "FeedMetaData \<Rightarrow> FeedMetaData \<Rightarrow> bool" where
  "fd_equal a b \<longleftrightarrow> a = b"

definition FeedMetaCompare :: "FeedMeta \<Rightarrow> FeedMeta \<Rightarrow> bool" where
  "FeedMetaCompare a b =
     (let d = to_int32 (ftime a - ftime b) in if d = 0 then feedid a > feedid b else d > 0)"

section \<open>Filters\<close>

record WeiredType =
  wtype :: u32
  version :: u32
  reversed0 :: u32
  real_type :: u32
  mini_merge :: u32
  news_merge :: u32

definition WeiredType_of :: "u32 \<Rightarrow> WeiredType" where
  "WeiredType_of v =
     (let t = v AND 0xffff; v = drop_bit 16 v;
          ver = v AND 0xff; v = drop_bit 8 v;
          res = v AND 0x3; v = drop_bit 2 v;
          rea = v AND 0x3; v = drop_bit 2 v;
          mini = v AND 0x3; v = drop_bit 2 v;
          news = v AND 0x3
      in \<lparr>wtype = t, version = ver, reversed0 = res, real_type = rea, mini_merge = mini, news_merge = news\<rparr>)"

definition weired_type :: "int \<Rightarrow> int" where
  "weired_type t = uint (wtype (WeiredType_of (word_of_int t)))"

definition TypesFilter :: "int list \<Rightarrow> FeedMetaData \<Rightarrow> bool" where
  "TypesFilter types d \<longleftrightarrow>
     types = [] \<or> ftype d \<in> set types \<or> weired_type (ftype d) \<in> set types \<or>
     weired_type (ftype d) div 100 * 100 \<in> set types"

definition FeedidPrefix :: int where "FeedidPrefix = 0"
definition UseridPrefix :: int where "UseridPrefix = 1"
definition TypePrefix :: int where "TypePrefix = 2"

text \<open>
  The constructor of \<open>IdsFilter\<close>: \<open>split\<close> is \<open>StrUtil::split\<close> at colons, \<open>castInt\<close> and \<open>castLong\<close> are
  \<open>lexical_cast\<close>, whose \<open>None\<close> is the exception that leaves the constructor. The number is stored in
  an \<open>int\<close> first.
\<close>

fun IdsFilter_of :: "(string \<Rightarrow> string list) \<Rightarrow> (string \<Rightarrow> int option) \<Rightarrow> (string \<Rightarrow> int option)
    \<Rightarrow> string list \<Rightarrow> (int \<times> int) list option" where
  "IdsFilter_of split castInt castLong [] = Some []"
| "IdsFilter_of split castInt castLong (s # ss) =
     (case split s of
        [a, b] \<Rightarrow>
          (case castInt a of
             None \<Rightarrow> None
           | Some type_id \<Rightarrow>
               (case castLong b of
                  None \<Rightarrow> None
                | Some l \<Rightarrow> map_option ((#) (type_id, to_int32 l)) (IdsFilter_of split castInt castLong ss)))
      | _ \<Rightarrow> IdsFilter_of split castInt castLong ss)"

text \<open>The call looks at each prefix of the map; the empty sets that \<open>ids[...]\<close> adds on the way hold nothing.\<close>

definition IdsFilter :: "(int \<times> int) list \<Rightarrow> FeedMetaData \<Rightarrow> bool" where
  "IdsFilter ids d =
     list_ex (\<lambda>(prefix, i).
       if prefix = FeedidPrefix then i = feedid d
       else if prefix = UseridPrefix then i = userid d
       else if prefix = TypePrefix
       then i = ftype d \<or> i = weired_type (ftype d) \<or> i = weired_type (ftype d) div 100 * 100 \<or>
            i = weired_type (ftype d) div 100
       else False) ids"

section \<open>The feeds of a user\<close>

record MutexData =
  is_order :: bool
  mdata :: "FeedMetaData list"

definition MutexData_new :: MutexData where
  "MutexData_new = \<lparr>is_order = False, mdata = []\<rparr>"

definition md_add :: "FeedMetaData \<Rightarrow> MutexData \<Rightarrow> bool \<times> MutexData" where
  "md_add feed md =
     (if mdata md \<noteq> [] \<and> fd_equal (mdata md ! (length (mdata md) - 1)) feed then (False, md)
      else (True, md\<lparr>mdata := mdata md @ [feed]\<rparr>))"

definition md_free :: "FeedMetaData \<Rightarrow> MutexData \<Rightarrow> nat \<times> MutexData" where
  "md_free upper md =
     (let count = length (takeWhile (\<lambda>d. fd_less d upper) (mdata md))
      in (count, md\<lparr>mdata := drop count (mdata md)\<rparr>))"

definition md_get_min :: "MutexData \<Rightarrow> FeedMetaData option" where
  "md_get_min md = (if mdata md = [] then None else Some (mdata md ! 0))"

definition md_check_order :: "(FeedMetaData list \<Rightarrow> FeedMetaData list) \<Rightarrow> MutexData \<Rightarrow> MutexData" where
  "md_check_order srt md = md\<lparr>mdata := srt (mdata md)\<rparr>"

section \<open>The stream\<close>

type_synonym UserMap = "(int \<times> MutexData) list"

record FeedStream =
  total_count :: int
  usermap :: UserMap

definition fs_new :: FeedStream where
  "fs_new = \<lparr>total_count = 0, usermap = []\<rparr>"

fun um_insert :: "int \<Rightarrow> MutexData \<Rightarrow> UserMap \<Rightarrow> UserMap" where
  "um_insert u md [] = [(u, md)]"
| "um_insert u md ((v, m) # um) =
     (if u < v then (u, md) # (v, m) # um
      else if u = v then (v, m) # um
      else (v, m) # um_insert u md um)"

definition um_set :: "int \<Rightarrow> MutexData \<Rightarrow> UserMap \<Rightarrow> UserMap" where
  "um_set u md um = map (\<lambda>(v, m). (v, if v = u then md else m)) um"

definition fs_check_order :: "(FeedMetaData list \<Rightarrow> FeedMetaData list) \<Rightarrow> FeedStream \<Rightarrow> FeedStream" where
  "fs_check_order srt fs = fs\<lparr>usermap := map (\<lambda>(u, md).
     (u, if \<not> is_order md then (md_check_order srt md)\<lparr>is_order := True\<rparr> else md)) (usermap fs)\<rparr>"

definition fs_add_count :: "int \<Rightarrow> FeedStream \<Rightarrow> FeedStream" where
  "fs_add_count c fs = fs\<lparr>total_count := total_count fs + c\<rparr>"

definition fs_user_count :: "FeedStream \<Rightarrow> nat" where
  "fs_user_count fs = length (usermap fs)"

definition fs_item_count :: "int \<Rightarrow> FeedStream \<Rightarrow> nat" where
  "fs_item_count u fs = (case map_of (usermap fs) u of None \<Rightarrow> 0 | Some md \<Rightarrow> length (mdata md))"

fun fs_get_min_loop :: "UserMap \<Rightarrow> FeedMetaData option \<Rightarrow> FeedMetaData option" where
  "fs_get_min_loop [] out = out"
| "fs_get_min_loop ((u, md) # um) out =
     fs_get_min_loop um
       (case out of
          None \<Rightarrow> md_get_min md
        | Some best \<Rightarrow>
            (case md_get_min md of
               None \<Rightarrow> Some best
             | Some tmp \<Rightarrow> if fd_less tmp best then Some tmp else Some best))"

definition fs_get_min :: "FeedStream \<Rightarrow> FeedMetaData option" where
  "fs_get_min fs = fs_get_min_loop (usermap fs) None"

definition fs_free :: "FeedMetaData \<Rightarrow> FeedStream \<Rightarrow> FeedStream" where
  "fs_free upper fs =
     (let count = sum_list (map (\<lambda>(u, md). fst (md_free upper md)) (usermap fs));
          fs' = fs\<lparr>usermap := map (\<lambda>(u, md). (u, snd (md_free upper md))) (usermap fs)\<rparr>
      in if count > 0 then fs'\<lparr>total_count := total_count fs' - int count\<rparr> else fs')"

definition fs_put :: "int \<Rightarrow> FeedMetaData \<Rightarrow> bool \<Rightarrow> FeedStream \<Rightarrow> bool \<times> FeedStream" where
  "fs_put uid feed addCount fs =
     (let um = (if map_of (usermap fs) uid = None then um_insert uid MutexData_new (usermap fs) else usermap fs);
          (result, md) = md_add feed (the (map_of um uid));
          fs' = fs\<lparr>usermap := um_set uid md um\<rparr>
      in (result, if result \<and> addCount then fs'\<lparr>total_count := total_count fs' + 1\<rparr> else fs'))"

definition fs_puts :: "FeedMetaData list \<Rightarrow> FeedStream \<Rightarrow> bool \<times> FeedStream" where
  "fs_puts feeds fs =
     (let um = foldl (\<lambda>um f. if map_of um (userid f) = None then um_insert (userid f) MutexData_new um else um)
                 (usermap fs) feeds;
          um' = foldl (\<lambda>um f. case map_of um (userid f) of
                   None \<Rightarrow> um
                 | Some md \<Rightarrow> um_set (userid f) (snd (md_add f md)) um) um feeds
      in (True, fs\<lparr>usermap := um'\<rparr>))"

definition fs_get :: "int \<Rightarrow> FeedStream \<Rightarrow> FeedMetaData list" where
  "fs_get uid fs = (case map_of (usermap fs) uid of None \<Rightarrow> [] | Some md \<Rightarrow> rev (mdata md))"

text \<open>
  The three list queries share their frame: the users asked for are collected in a map, so each is
  answered once and in ascending order; a vector longer than the limit that is not marked as ordered
  is sorted first (and stays sorted, without being marked).
\<close>

definition md_prepare :: "(FeedMetaData list \<Rightarrow> FeedMetaData list) \<Rightarrow> nat \<Rightarrow> MutexData \<Rightarrow> MutexData" where
  "md_prepare srt limit md =
     (if length (mdata md) > limit \<and> \<not> is_order md then md_check_order srt md else md)"

definition gets_frame :: "(FeedMetaData list \<Rightarrow> FeedMetaData list) \<Rightarrow> (MutexData \<Rightarrow> FeedMetaData list)
    \<Rightarrow> int list \<Rightarrow> nat \<Rightarrow> FeedStream \<Rightarrow> FeedMetaData list list \<times> FeedStream" where
  "gets_frame srt select uids limit fs =
     (let mds = sort (remdups uids);
          um = map (\<lambda>(u, md). (u, if u \<in> set mds then md_prepare srt limit md else md)) (usermap fs)
      in (map (\<lambda>u. case map_of um u of None \<Rightarrow> [] | Some md \<Rightarrow> select md) mds, fs\<lparr>usermap := um\<rparr>))"

definition fs_gets :: "(FeedMetaData list \<Rightarrow> FeedMetaData list) \<Rightarrow> int list \<Rightarrow> nat \<Rightarrow> FeedStream
    \<Rightarrow> FeedMetaData list list \<times> FeedStream" where
  "fs_gets srt uids limit fs =
     gets_frame srt (\<lambda>md. take (min limit (length (mdata md))) (rev (mdata md))) uids limit fs"

fun pick :: "nat \<Rightarrow> (FeedMetaData \<Rightarrow> bool) \<Rightarrow> FeedMetaData list \<Rightarrow> FeedMetaData list" where
  "pick lim p [] = []"
| "pick lim p (d # ds) =
     (if lim > 0 then (if p d then d # pick (lim - 1) p ds else pick lim p ds) else [])"

definition fs_gets_with_filter :: "(FeedMetaData list \<Rightarrow> FeedMetaData list) \<Rightarrow> int list
    \<Rightarrow> (FeedMetaData \<Rightarrow> bool) \<Rightarrow> (FeedMetaData \<Rightarrow> bool) \<Rightarrow> nat \<Rightarrow> FeedStream
    \<Rightarrow> FeedMetaData list list \<times> FeedStream" where
  "fs_gets_with_filter srt uids types ids limit fs =
     gets_frame srt (\<lambda>md. pick (min limit (length (mdata md))) (\<lambda>d. types d \<and> \<not> ids d) (rev (mdata md)))
       uids limit fs"

definition fs_gets_less_feedid_with_filter :: "(FeedMetaData list \<Rightarrow> FeedMetaData list) \<Rightarrow> int list
    \<Rightarrow> (FeedMetaData \<Rightarrow> bool) \<Rightarrow> (FeedMetaData \<Rightarrow> bool) \<Rightarrow> int \<Rightarrow> nat \<Rightarrow> FeedStream
    \<Rightarrow> FeedMetaData list list \<times> FeedStream" where
  "fs_gets_less_feedid_with_filter srt uids types ids fid limit fs =
     gets_frame srt (\<lambda>md. pick (min limit (length (mdata md)))
         (\<lambda>d. feedid d < fid \<and> types d \<and> \<not> ids d) (rev (mdata md)))
       uids limit fs"

section \<open>The rank of a feed\<close>

text \<open>The newest feed comes first, and of two of the same time the one with the larger id.\<close>

definition newest :: "'a FeedMeta_scheme \<Rightarrow> int \<times> int" where
  "newest d = (- ftime d, - feedid d)"

definition time_ok :: "'a FeedMeta_scheme \<Rightarrow> bool" where
  "time_ok d \<longleftrightarrow> 0 \<le> ftime d \<and> ftime d < 2 ^ 31"

lemma time_diff: "time_ok a \<Longrightarrow> time_ok b \<Longrightarrow> to_int32 (ftime a - ftime b) = ftime a - ftime b"
  by (rule to_int32_id) (auto simp: time_ok_def)

lemma fd_less_iff: "time_ok a \<Longrightarrow> time_ok b \<Longrightarrow> fd_less a b \<longleftrightarrow> newest b < newest a"
  by (auto simp: fd_less_def Let_def time_diff newest_def less_prod_def)

lemma FeedMetaCompare_iff: "time_ok a \<Longrightarrow> time_ok b \<Longrightarrow> FeedMetaCompare a b \<longleftrightarrow> newest a < newest b"
  by (auto simp: FeedMetaCompare_def Let_def time_diff newest_def less_prod_def)

lemma newest_createFrom [simp]: "newest (createFrom u d) = newest d" "time_ok (createFrom u d) = time_ok d"
  by (simp_all add: newest_def time_ok_def createFrom_def)

section \<open>The first elements of a union\<close>

text \<open>\<open>covers n r w\<close>: within any larger list, \<open>r\<close> may stand for \<open>w\<close> as far as the first \<open>n\<close> in order go.\<close>

definition covers :: "nat \<Rightarrow> 'a :: linorder list \<Rightarrow> 'a list \<Rightarrow> bool" where
  "covers n r w \<longleftrightarrow> (\<forall>ys. take n (sort (r @ ys)) = take n (sort (w @ ys)))"

lemma sort_mset: "mset xs = mset ys \<Longrightarrow> sort xs = sort ys"
  by (metis sorted_list_of_multiset_mset)

lemma covers_mset: "mset r = mset w \<Longrightarrow> covers n r w"
  unfolding covers_def by (metis mset_append sort_mset)

lemma sort_split:
  assumes "sorted t" "\<forall>x \<in> set t. \<forall>y \<in> set u. x \<le> y"
  shows "sort (t @ u) = t @ sort u"
proof (rule properties_for_sort)
  show "mset (t @ sort u) = mset (t @ u)" by simp
qed (use assms in \<open>simp add: sorted_append\<close>)

lemma in_set_take_nth: "x \<in> set (take n zs) \<Longrightarrow> \<exists>i. i < n \<and> i < length zs \<and> x = zs ! i"
  by (auto simp: in_set_conv_nth)

lemma covers_take: "covers n (take n (sort xs)) xs"
  unfolding covers_def
proof
  fix ys
  let ?t = "take n (sort xs)" and ?r = "drop n (sort xs)"
  let ?z = "sort (?t @ ys)"
  have "mset xs = mset ?t + mset ?r" by (metis append_take_drop_id mset_append mset_sort)
  then have "mset (xs @ ys) = mset (?z @ ?r)" by (simp add: ac_simps)
  then have s: "sort (xs @ ys) = sort (?z @ ?r)" by (rule sort_mset)
  show "take n ?z = take n (sort (xs @ ys))"
  proof (cases "length xs \<le> n")
    case True
    then show ?thesis using s by (simp add: sorted_sort_id)
  next
    case False
    then have len: "length ?t = n" by simp
    have below: "x \<le> y" if x: "x \<in> set (take n ?z)" and y: "y \<in> set ?r" for x y
    proof -
      have tr: "\<forall>x \<in> set ?t. \<forall>y \<in> set ?r. x \<le> y"
        using sorted_append [of ?t ?r] sorted_sort [of xs] by (simp add: append_take_drop_id)
      obtain i where i: "i < n" "i < length ?z" "x = ?z ! i"
        using in_set_take_nth [OF x] by blast
      show ?thesis
      proof (rule ccontr)
        assume "\<not> x \<le> y"
        then have yx: "y < x" by simp
        have "\<forall>z \<in> set ?t. z < x" using tr y yx by (meson order_le_less_trans)
        then have "length [z \<leftarrow> ?z. z < x] \<ge> n"
          using len by (simp add: filter_sort)
        moreover have "length [z \<leftarrow> ?z. z < x] \<le> i"
        proof -
          have "[z \<leftarrow> drop i ?z. z < x] = []"
            using i by (auto simp: filter_empty_conv in_set_conv_nth not_less sorted_nth_mono)
          then have "[z \<leftarrow> ?z. z < x] = [z \<leftarrow> take i ?z. z < x]"
            by (metis append_Nil2 append_take_drop_id filter_append)
          then show ?thesis by (metis (no_types, lifting) length_filter_le length_take min.bounded_iff)
        qed
        ultimately show False using i by simp
      qed
    qed
    let ?a = "take n ?z" and ?b = "drop n ?z"
    have zb: "\<forall>x \<in> set ?a. \<forall>y \<in> set ?b. x \<le> y"
      using sorted_append [of ?a ?b] sorted_sort [of "?t @ ys"] by (simp add: append_take_drop_id)
    have "sort (?z @ ?r) = sort (?a @ (?b @ ?r))" by (metis append_assoc append_take_drop_id)
    also have "\<dots> = ?a @ sort (?b @ ?r)"
      using zb below by (intro sort_split) (auto simp: sorted_wrt_take)
    finally have "take n (sort (xs @ ys)) = take n (?a @ sort (?b @ ?r))" using s by simp
    then show ?thesis using len by simp
  qed
qed

lemma covers_take_of:
  assumes "mset w = mset xs" "sorted w" "n \<le> m"
  shows "covers n (take m w) xs"
proof -
  have w: "sort xs = w" using assms(1,2) by (metis sort_mset sorted_sort_id)
  have "covers n (take m w) w"
    unfolding covers_def
  proof
    fix ys
    have "take n (sort (take m w @ ys)) = take n (take m (sort (take m w @ ys)))" using assms(3) by (simp add: min_def)
    also have "take m (sort (take m w @ ys)) = take m (sort (w @ ys))"
      using covers_take [of m w] assms(2) by (simp add: covers_def sorted_sort_id)
    finally show "take n (sort (take m w @ ys)) = take n (sort (w @ ys))" using assms(3) by (simp add: min_def)
  qed
  moreover have "covers n w xs" using assms(1) by (rule covers_mset)
  ultimately show ?thesis by (simp add: covers_def)
qed

lemma covers_append:
  assumes "covers n r w" "covers n r' w'" shows "covers n (r @ r') (w @ w')"
proof -
  have "take n (sort ((r @ r') @ ys)) = take n (sort (r' @ (w @ ys)))" for ys
    using assms(1) sort_mset [of "r' @ w @ ys" "w @ r' @ ys"] by (simp add: covers_def)
  then show ?thesis
    using assms(2) sort_mset [of "w' @ w @ ys" "w @ w' @ ys" for ys] by (simp add: covers_def)
qed

lemma covers_concat: "list_all2 (covers n) rs ws \<Longrightarrow> covers n (concat rs) (concat ws)"
  by (induction rule: list_all2_induct) (simp_all add: covers_append covers_mset)

lemma covers_slice:
  assumes "covers n r w" "b + l \<le> n"
  shows "take l (drop b (sort r)) = take l (drop b (sort w))"
proof -
  have "take (b + l) (take n (sort r)) = take (b + l) (take n (sort w))"
    using assms(1) by (metis append_Nil2 covers_def)
  then show ?thesis using assms(2) by (simp add: take_drop min_def add.commute)
qed

section \<open>Streams\<close>

definition map_wf :: "UserMap \<Rightarrow> bool" where
  "map_wf um \<longleftrightarrow> sorted_wrt (<) (map fst um)"

definition stream :: "FeedStream \<Rightarrow> int \<Rightarrow> FeedMetaData list" where
  "stream fs u = (case map_of (usermap fs) u of None \<Rightarrow> [] | Some md \<Rightarrow> mdata md)"

definition items :: "UserMap \<Rightarrow> nat" where
  "items um = sum_list (map (\<lambda>(u, md). length (mdata md)) um)"

lemma items_simps [simp]: "items [] = 0" "items ((u, md) # um) = length (mdata md) + items um"
  by (simp_all add: items_def)

lemma map_wf_distinct: "map_wf um \<Longrightarrow> distinct (map fst um)"
  unfolding map_wf_def by (simp add: strict_sorted_iff)

lemma um_insert_keys: "set (map fst (um_insert u md um)) = insert u (set (map fst um))"
  by (induction u md um rule: um_insert.induct) auto

lemma um_insert_wf: "map_wf um \<Longrightarrow> map_wf (um_insert u md um)"
proof (induction u md um rule: um_insert.induct)
  case (2 u md v m um)
  have "set (map fst (um_insert u md um)) = insert u (set (map fst um))" by (rule um_insert_keys)
  with 2 show ?case unfolding map_wf_def by (auto simp del: set_map)
qed (simp add: map_wf_def)

lemma um_insert_map_of:
  "map_wf um \<Longrightarrow> map_of um u = None \<Longrightarrow> map_of (um_insert u md um) = (map_of um)(u \<mapsto> md)"
  by (induction u md um rule: um_insert.induct) (auto simp: map_wf_def fun_eq_iff split: if_splits)

lemma um_insert_items: "map_of um u = None \<Longrightarrow> items (um_insert u MutexData_new um) = items um"
  by (induction u MutexData_new um rule: um_insert.induct)
     (auto simp: MutexData_new_def split: if_splits)

lemma um_set_keys [simp]: "map fst (um_set u md um) = map fst um"
  by (auto simp: um_set_def)

lemma um_set_map_of: "map_of (um_set u md um) = (\<lambda>v. if v = u \<and> map_of um u \<noteq> None then Some md else map_of um v)"
  by (induction um) (auto simp: um_set_def fun_eq_iff)

lemma um_set_items:
  assumes "distinct (map fst um)" "map_of um u = Some md"
  shows "items (um_set u md' um) + length (mdata md) = items um + length (mdata md')"
  using assms
proof (induction um)
  case (Cons x um)
  have "map (\<lambda>(v, m). (v, if v = u then md' else m)) um = um" if "u \<notin> fst ` set um"
    using that by (intro map_idI) force
  with Cons show ?case by (cases x) (auto simp: um_set_def)
qed simp

subsection \<open>Adding a feed\<close>

lemma fs_put_effect:
  assumes "map_wf (usermap fs)" "fs_put uid feed c fs = (r, fs')"
  shows "map_wf (usermap fs')" "items (usermap fs') = items (usermap fs) + (if r then 1 else 0)"
    "total_count fs' = total_count fs + (if r \<and> c then 1 else 0)"
    "stream fs' = (stream fs)(uid := (if r then stream fs uid @ [feed] else stream fs uid))"
    "r \<longleftrightarrow> \<not> (stream fs uid \<noteq> [] \<and> last (stream fs uid) = feed)"
proof -
  define um where "um = (if map_of (usermap fs) uid = None then um_insert uid MutexData_new (usermap fs) else usermap fs)"
  have wf: "map_wf um" using assms(1) by (simp add: um_def um_insert_wf)
  have it: "items um = items (usermap fs)" by (simp add: um_def um_insert_items)
  obtain md where md: "map_of um uid = Some md" "mdata md = stream fs uid"
    using assms(1) by (cases "map_of (usermap fs) uid") (auto simp: um_def um_insert_map_of stream_def MutexData_new_def)
  have other: "map_of um v = map_of (usermap fs) v" if "v \<noteq> uid" for v
    using assms(1) that by (simp add: um_def um_insert_map_of)
  obtain md' where add: "md_add feed md = (r, md')" and fs': "usermap fs' = um_set uid md' um"
      "total_count fs' = total_count fs + (if r \<and> c then 1 else 0)"
    using assms(2) md(1) unfolding fs_put_def um_def [symmetric] by (auto simp: Let_def split: prod.splits if_splits)
  show "map_wf (usermap fs')" using wf by (simp add: fs' map_wf_def)
  show "total_count fs' = total_count fs + (if r \<and> c then 1 else 0)" by (rule fs'(2))
  have len: "mdata md' = (if r then stream fs uid @ [feed] else stream fs uid)"
    and r: "r \<longleftrightarrow> \<not> (stream fs uid \<noteq> [] \<and> last (stream fs uid) = feed)"
    using add md(2) by (auto simp: md_add_def fd_equal_def last_conv_nth split: if_splits)
  then show "r \<longleftrightarrow> \<not> (stream fs uid \<noteq> [] \<and> last (stream fs uid) = feed)" by blast
  show "items (usermap fs') = items (usermap fs) + (if r then 1 else 0)"
    using um_set_items [OF map_wf_distinct [OF wf] md(1), of md'] it by (simp add: fs' len md(2) split: if_splits)
  show "stream fs' = (stream fs)(uid := (if r then stream fs uid @ [feed] else stream fs uid))"
    using md len other by (auto simp: fun_eq_iff stream_def fs' um_set_map_of)
qed

subsection \<open>Evicting feeds\<close>

lemma md_free_parts: "mdata md = takeWhile (\<lambda>d. fd_less d b) (mdata md) @ mdata (snd (md_free b md))"
  "length (mdata md) = fst (md_free b md) + length (mdata (snd (md_free b md)))"
  "is_order (snd (md_free b md)) = is_order md"
  by (simp_all add: md_free_def Let_def takeWhile_eq_take [symmetric] flip: dropWhile_eq_drop)
     (metis length_append takeWhile_dropWhile_id)

lemma items_map:
  assumes "\<And>md. c md + length (mdata (f md)) = length (mdata md)"
  shows "sum_list (map (\<lambda>(u, md). c md) um) + items (map (\<lambda>(u, md). (u, f md)) um) = items um"
proof (induction um)
  case (Cons x um)
  then show ?case using assms [of "snd x"] by (cases x) simp
qed simp

lemma free_items:
  "sum_list (map (\<lambda>(u, md). fst (md_free b md)) um) + items (map (\<lambda>(u, md). (u, snd (md_free b md))) um) = items um"
  by (rule items_map) (simp add: md_free_parts(2) [symmetric])

lemma fs_free_effect:
  "map fst (usermap (fs_free b fs)) = map fst (usermap fs)"
  "total_count (fs_free b fs) - int (items (usermap (fs_free b fs))) = total_count fs - int (items (usermap fs))"
  "stream (fs_free b fs) u = dropWhile (\<lambda>d. fd_less d b) (stream fs u)"
proof -
  let ?um = "map (\<lambda>(u, md). (u, snd (md_free b md))) (usermap fs)"
  let ?c = "sum_list (map (\<lambda>(u, md). fst (md_free b md)) (usermap fs))"
  have um: "usermap (fs_free b fs) = ?um" "total_count (fs_free b fs) = total_count fs - int ?c"
    by (simp_all add: fs_free_def Let_def)
  show "map fst (usermap (fs_free b fs)) = map fst (usermap fs)" by (simp add: um comp_def case_prod_beta)
  from free_items [of b "usermap fs"]
  show "total_count (fs_free b fs) - int (items (usermap (fs_free b fs))) = total_count fs - int (items (usermap fs))"
    by (simp add: um)
  have "map_of ?um u = map_option (\<lambda>md. snd (md_free b md)) (map_of (usermap fs) u)" by (simp add: map_of_map)
  then show "stream (fs_free b fs) u = dropWhile (\<lambda>d. fd_less d b) (stream fs u)"
    by (auto simp: stream_def um md_free_def Let_def dropWhile_eq_drop split: option.split)
qed

lemma get_min_loop_some: "out \<noteq> None \<Longrightarrow> fs_get_min_loop um out \<noteq> None"
  by (induction um out rule: fs_get_min_loop.induct) (auto split: option.splits)

lemma get_min_loop_source:
  "fs_get_min_loop um out = Some d \<Longrightarrow> out = Some d \<or> (\<exists>u md. (u, md) \<in> set um \<and> md_get_min md = Some d)"
  by (induction um out rule: fs_get_min_loop.induct) (fastforce split: option.splits if_splits)+

lemma get_min_loop_none: "fs_get_min_loop um None = None \<longleftrightarrow> items um = 0"
proof (induction um)
  case (Cons x um)
  show ?case
  proof (cases "mdata (snd x) = []")
    case True
    then show ?thesis using Cons by (cases x) (simp add: md_get_min_def)
  next
    case False
    then show ?thesis using get_min_loop_some by (cases x) (auto simp: md_get_min_def)
  qed
qed simp

lemma fs_get_min_none: "fs_get_min fs = None \<longleftrightarrow> items (usermap fs) = 0"
  by (simp add: fs_get_min_def get_min_loop_none)

lemma fs_get_min_some:
  "fs_get_min fs = Some d \<Longrightarrow> \<exists>u md. (u, md) \<in> set (usermap fs) \<and> mdata md \<noteq> [] \<and> hd (mdata md) = d"
  unfolding fs_get_min_def
  by (drule get_min_loop_source) (fastforce simp: md_get_min_def split: if_splits dest: hd_conv_nth)

text \<open>Without the time running over, the feed found is the oldest first feed of all streams.\<close>

lemma get_min_loop_least:
  assumes "fs_get_min_loop um out = Some d" "\<forall>(u, md) \<in> set um. \<forall>x \<in> set (mdata md). time_ok x"
    "\<forall>x. out = Some x \<longrightarrow> time_ok x"
  shows "(\<forall>x. out = Some x \<longrightarrow> newest x \<le> newest d) \<and>
    (\<forall>(u, md) \<in> set um. mdata md \<noteq> [] \<longrightarrow> newest (hd (mdata md)) \<le> newest d)"
  using assms
proof (induction um out rule: fs_get_min_loop.induct)
  case (2 u md um out)
  let ?next = "case out of None \<Rightarrow> md_get_min md | Some best \<Rightarrow>
    (case md_get_min md of None \<Rightarrow> Some best | Some tmp \<Rightarrow> if fd_less tmp best then Some tmp else Some best)"
  have hd: "md_get_min md = (if mdata md = [] then None else Some (hd (mdata md)))"
    by (simp add: md_get_min_def hd_conv_nth)
  have ok: "mdata md \<noteq> [] \<Longrightarrow> time_ok (hd (mdata md))" "\<forall>x. ?next = Some x \<longrightarrow> time_ok x"
    using "2.prems"(2,3) by (auto simp: hd split: option.splits if_splits)
  have ih: "(\<forall>x. ?next = Some x \<longrightarrow> newest x \<le> newest d) \<and>
    (\<forall>(u, md) \<in> set um. mdata md \<noteq> [] \<longrightarrow> newest (hd (mdata md)) \<le> newest d)"
    using "2.IH" "2.prems" ok(2) by simp
  have "out = Some x \<Longrightarrow> newest x \<le> newest d" "mdata md \<noteq> [] \<Longrightarrow> newest (hd (mdata md)) \<le> newest d" for x
    using ih ok(1) "2.prems"(3) by (auto simp: hd fd_less_iff split: option.splits if_splits intro: order_trans)
  then show ?case using ih by auto
qed simp

lemma bump_is_later: "fd_less d (d\<lparr>ftime := to_int32 (ftime d + 3600)\<rparr>)"
  by (simp add: fd_less_def Let_def to_int32_diff to_int32_id)

lemma fs_free_progress:
  assumes "fs_get_min fs = Some d"
  shows "items (usermap (fs_free (d\<lparr>ftime := to_int32 (ftime d + 3600)\<rparr>) fs)) < items (usermap fs)"
proof -
  define b where "b = d\<lparr>ftime := to_int32 (ftime d + 3600)\<rparr>"
  obtain u md where md: "(u, md) \<in> set (usermap fs)" "mdata md \<noteq> []" "hd (mdata md) = d"
    using fs_get_min_some [OF assms] by blast
  have "fst (md_free b md) > 0"
    using md(2,3) bump_is_later [of d] by (cases "mdata md") (auto simp: md_free_def b_def)
  then have "\<not> (\<forall>x \<in> set (map (\<lambda>(u, md). fst (md_free b md)) (usermap fs)). x = 0)" using md(1) by force
  then have "sum_list (map (\<lambda>(u, md). fst (md_free b md)) (usermap fs)) \<noteq> 0" unfolding sum_list_eq_0_iff .
  with free_items [of b "usermap fs"]
  have "items (map (\<lambda>(u, md). (u, snd (md_free b md))) (usermap fs)) < items (usermap fs)" by linarith
  moreover have "usermap (fs_free b fs) = map (\<lambda>(u, md). (u, snd (md_free b md))) (usermap fs)"
    by (simp add: fs_free_def Let_def)
  ultimately show ?thesis unfolding b_def by simp
qed

subsection \<open>Lists of feeds\<close>

text \<open>What \<open>std::sort\<close> promises: a permutation, in order where the comparison is an order.\<close>

definition sorter :: "(FeedMetaData list \<Rightarrow> FeedMetaData list) \<Rightarrow> bool" where
  "sorter srt \<longleftrightarrow> (\<forall>xs. mset (srt xs) = mset xs) \<and>
     (\<forall>xs. (\<forall>x \<in> set xs. time_ok x) \<longrightarrow> sorted_wrt (\<lambda>a b. \<not> fd_less b a) (srt xs))"

definition md_ok :: "MutexData \<Rightarrow> bool" where
  "md_ok md \<longleftrightarrow> (\<forall>x \<in> set (mdata md). time_ok x) \<and>
     (is_order md \<longrightarrow> sorted_wrt (\<lambda>a b. \<not> fd_less b a) (mdata md))"

lemma sorter_simps:
  assumes "sorter srt"
  shows "mset (srt xs) = mset xs" "set (srt xs) = set xs" "length (srt xs) = length xs"
proof -
  show m: "mset (srt xs) = mset xs" using assms by (simp add: sorter_def)
  show "set (srt xs) = set xs" "length (srt xs) = length xs"
    using m by (auto dest: mset_eq_setD mset_eq_length)
qed

lemma ordered_rev_newest:
  assumes "\<forall>x \<in> set ds. time_ok x" "sorted_wrt (\<lambda>a b. \<not> fd_less b a) ds"
  shows "sorted (map newest (rev ds))"
proof -
  have "sorted_wrt (\<lambda>a b. newest b \<le> newest a) ds"
    using assms(2) by (rule sorted_wrt_mono_rel [rotated]) (use assms(1) in \<open>auto simp: fd_less_iff not_less\<close>)
  then show ?thesis by (simp add: sorted_wrt_map sorted_wrt_rev)
qed

lemma pick_eq: "pick lim p ds = take lim (filter p ds)"
  by (induction lim p ds rule: pick.induct) (auto simp: take_Cons')

lemma prepare_simps:
  assumes "sorter srt"
  shows "mset (mdata (md_prepare srt limit md)) = mset (mdata md)"
    "length (mdata (md_prepare srt limit md)) = length (mdata md)"
    "is_order (md_prepare srt limit md) = is_order md"
    "md_ok md \<Longrightarrow> md_ok (md_prepare srt limit md)"
  using sorter_simps [OF assms] assms by (auto simp: md_prepare_def md_check_order_def md_ok_def sorter_def)

lemma mset_filter_cong: "mset xs = mset ys \<Longrightarrow> mset (filter p xs) = mset (filter p ys)"
  by simp

lemma sorted_map_filter: "sorted (map f xs) \<Longrightarrow> sorted (map f (filter p xs))"
  by (rule sorted_filter)

lemma mset_take_subseteq: "mset (take n xs) \<subseteq># mset xs"
  by (metis append_take_drop_id mset_append mset_subset_eq_add_left)

lemma pick_covers:
  fixes p :: "FeedMetaData \<Rightarrow> bool" and limit :: nat
  assumes "sorter srt" "md_ok md"
  defines "ds \<equiv> mdata (md_prepare srt limit md)"
  shows "covers limit (map newest (pick (min limit (length ds)) p (rev ds))) (map newest (filter p (mdata md)))"
    "mset (pick (min limit (length ds)) p (rev ds)) \<subseteq># mset (filter p (mdata md))"
proof -
  note prep = prepare_simps [OF assms(1), where limit = limit and md = md]
  have m: "mset (filter p (rev ds)) = mset (filter p (mdata md))"
    unfolding ds_def by (simp add: prep)
  have short: "pick (min limit (length ds)) p (rev ds) = take limit (filter p (rev ds))"
    using length_filter_le [of p "rev ds"] by (simp add: pick_eq min_def)
  show "mset (pick (min limit (length ds)) p (rev ds)) \<subseteq># mset (filter p (mdata md))"
    unfolding short m [symmetric] by (rule mset_take_subseteq)
  show "covers limit (map newest (pick (min limit (length ds)) p (rev ds))) (map newest (filter p (mdata md)))"
  proof (cases "length (mdata md) > limit")
    case False
    then have "take limit (filter p (rev ds)) = filter p (rev ds)"
      using length_filter_le [of p "rev ds"] prep(2) by (simp add: ds_def)
    then show ?thesis unfolding short using m by (metis covers_mset mset_map)
  next
    case True
    then have "sorted_wrt (\<lambda>a b. \<not> fd_less b a) ds" "\<forall>x \<in> set ds. time_ok x"
      using assms(1,2) by (auto simp: ds_def md_prepare_def md_check_order_def md_ok_def sorter_def sorter_simps(2))
    then have "sorted (map newest (filter p (rev ds)))" by (intro sorted_map_filter ordered_rev_newest)
    then have "covers limit (take limit (map newest (filter p (rev ds)))) (map newest (filter p (mdata md)))"
      using m by (intro covers_take_of) (metis mset_map, assumption, rule order_refl)
    then show ?thesis unfolding short by (simp add: take_map)
  qed
qed

definition fs_ok :: "FeedStream \<Rightarrow> bool" where
  "fs_ok fs \<longleftrightarrow> map_wf (usermap fs) \<and> (\<forall>md \<in> snd ` set (usermap fs). md_ok md)"

lemma gets_frame_result:
  "fst (gets_frame srt sel uids limit fs) = map (\<lambda>u. case map_of (usermap fs) u of
     None \<Rightarrow> [] | Some md \<Rightarrow> sel (md_prepare srt limit md)) (sort (remdups uids))"
proof -
  have "map_of (map (\<lambda>(u, md). (u, if u \<in> set (sort (remdups uids)) then md_prepare srt limit md else md)) um) u =
      map_option (md_prepare srt limit) (map_of um u)" if "u \<in> set uids" for u um
    using that by (induction um) auto
  then show ?thesis by (auto simp: gets_frame_def Let_def split: option.split)
qed

lemma gets_frame_state:
  assumes "sorter srt" "fs' = snd (gets_frame srt sel uids limit fs)"
  shows "total_count fs' = total_count fs" "map fst (usermap fs') = map fst (usermap fs)"
    "items (usermap fs') = items (usermap fs)" "mset (stream fs' u) = mset (stream fs u)" "fs_ok fs \<Longrightarrow> fs_ok fs'"
proof -
  let ?f = "\<lambda>(u, md). (u, if u \<in> set uids then md_prepare srt limit md else md)"
  have um: "usermap fs' = map ?f (usermap fs)" by (simp add: assms(2) gets_frame_def Let_def)
  show "total_count fs' = total_count fs" by (simp add: assms(2) gets_frame_def Let_def)
  show keys: "map fst (usermap fs') = map fst (usermap fs)" by (auto simp: um)
  have "items (map ?f xs) = items xs" for xs by (induction xs) (auto simp: prepare_simps(2) [OF assms(1)])
  then show "items (usermap fs') = items (usermap fs)" by (simp add: um)
  have "map_of (map ?f xs) u = map_option (\<lambda>md. if u \<in> set uids then md_prepare srt limit md else md) (map_of xs u)" for xs
    by (induction xs) auto
  then show "mset (stream fs' u) = mset (stream fs u)"
    by (auto simp: stream_def um prepare_simps(1) [OF assms(1)] split: option.split)
  show "fs_ok fs \<Longrightarrow> fs_ok fs'"
    using keys by (auto simp: fs_ok_def map_wf_def um prepare_simps(4) [OF assms(1)] simp del: map_map)
qed

end
