(* ===== verification/FeedServer.thy ===== *)
theory FeedServer
  imports FeedCache
begin

text \<open>
  The feed service \<^verbatim>\<open>feed/FeedItemCache/src/UserFeedsI.cpp\<close> over the streams: the requests, the
  selection of a segment of the newest feeds, the timer that evicts old feeds, and the threads that
  load the history (\<^verbatim>\<open>feed/FeedItemCache/persistence/PersistenceHelper.h\<close>). What the service takes from the
  C++ and boost libraries is an argument, the record \<open>Lib\<close>: \<open>sort\<close> and \<open>nth_element\<close> with the comparisons
  the code passes, the splitting at colons and the two casts. Reading past the end of a vector, or an
  iterator before its begin, is the error \<open>Undefined\<close>; an exception of a cast is \<open>BadCast\<close>. The loop of
  the timer and the loop of a loading thread may run forever, so they are partial functions.
\<close>

section \<open>Requests\<close>

record Lib =
  sort_data :: "FeedMetaData list \<Rightarrow> FeedMetaData list"
  nth_meta :: "nat \<Rightarrow> FeedMeta list \<Rightarrow> FeedMeta list"
  sort_meta :: "FeedMeta list \<Rightarrow> FeedMeta list"
  lib_split :: "string \<Rightarrow> string list"
  cast_int :: "string \<Rightarrow> int option"
  cast_long :: "string \<Rightarrow> int option"

datatype feed_error = Undefined | BadCast

type_synonym feed_result = "feed_error + FeedMeta list"

record UserFeeds =
  fs :: FeedStream
  climit :: int

definition ITEM_COUNT_LIMIT :: int where "ITEM_COUNT_LIMIT = 300000000"

definition UserFeeds_new :: UserFeeds where
  "UserFeeds_new = \<lparr>fs = fs_new, climit = ITEM_COUNT_LIMIT\<rparr>"

text \<open>The conversion of an \<open>int\<close> to \<open>size_t\<close>.\<close>

definition to_size :: "int \<Rightarrow> nat" where
  "to_size x = nat (x mod 2 ^ 64)"

definition getSegment :: "Lib \<Rightarrow> FeedMetaData list list \<Rightarrow> int list \<Rightarrow> int \<Rightarrow> int \<Rightarrow> feed_result" where
  "getSegment L data userids begin limit =
     (if length data < length userids then Inl Undefined
      else let seq = concat (map (\<lambda>(uid, v). map (createFrom uid) v) (zip userids data)) in
        if begin \<ge> int (length seq) then Inr []
        else let limit = (if to_int32 (begin + limit) > int (length seq) then int (length seq) - begin else limit);
                 end = to_int32 (begin + limit) in
          if begin < 0 \<or> end < begin \<or> end < 1 then Inl Undefined
          else let b = nat begin; e = nat end;
                   seq = nth_meta L (e - 1) seq;
                   seq = (if limit > 1 then nth_meta L b (take (e - 1) seq) @ drop (e - 1) seq else seq);
                   seq = take b seq @ sort_meta L (slice b e seq) @ drop e seq
            in Inr (slice b e seq))"

definition uf_put :: "u32 \<times> u32 \<Rightarrow> FeedMeta \<Rightarrow> UserFeeds \<Rightarrow> UserFeeds" where
  "uf_put pad fm s =
     (if 0 \<ge> userid fm then s
      else s\<lparr>fs := snd (fs_put (userid fm) (FeedMetaData_of pad fm) True (fs s))\<rparr>)"

text \<open>The answer to a query: the segment of what the streams return.\<close>

definition answer :: "Lib \<Rightarrow> int list \<Rightarrow> int \<Rightarrow> int \<Rightarrow> FeedMetaData list list \<times> FeedStream \<Rightarrow> UserFeeds
    \<Rightarrow> feed_result \<times> UserFeeds" where
  "answer L userids begin limit r s = (getSegment L (fst r) userids begin limit, s\<lparr>fs := snd r\<rparr>)"

definition uf_get :: "Lib \<Rightarrow> int list \<Rightarrow> int \<Rightarrow> int \<Rightarrow> UserFeeds \<Rightarrow> feed_result \<times> UserFeeds" where
  "uf_get L userids begin limit s =
     answer L userids begin limit (fs_gets (sort_data L) userids (to_size (to_int32 (begin + limit))) (fs s)) s"

definition make_filter :: "Lib \<Rightarrow> string list \<Rightarrow> (int \<times> int) list option" where
  "make_filter L = IdsFilter_of (lib_split L) (cast_int L) (cast_long L)"

definition uf_filtered :: "Lib \<Rightarrow> int list \<Rightarrow> int \<Rightarrow> int \<Rightarrow> int list \<Rightarrow> string list \<Rightarrow> UserFeeds
    \<Rightarrow> feed_result \<times> UserFeeds" where
  "uf_filtered L userids begin limit types flt s =
     (case make_filter L flt of
        None \<Rightarrow> (Inl BadCast, s)
      | Some ids \<Rightarrow>
          answer L userids begin limit
            (fs_gets_with_filter (sort_data L) userids (TypesFilter types) (IdsFilter ids)
               (to_size (to_int32 (begin + limit))) (fs s)) s)"

definition uf_getByTypes :: "Lib \<Rightarrow> int list \<Rightarrow> int \<Rightarrow> int \<Rightarrow> int list \<Rightarrow> UserFeeds \<Rightarrow> feed_result \<times> UserFeeds" where
  "uf_getByTypes L userids begin limit types s =
     (if types = [] then uf_get L userids begin limit s
      else uf_filtered L userids begin limit types [] s)"

definition uf_getWithFilter :: "Lib \<Rightarrow> int list \<Rightarrow> int \<Rightarrow> int \<Rightarrow> string list \<Rightarrow> UserFeeds \<Rightarrow> feed_result \<times> UserFeeds" where
  "uf_getWithFilter L userids begin limit flt s =
     (if flt = [] then uf_get L userids begin limit s
      else uf_filtered L userids begin limit [] flt s)"

definition uf_getByTypesWithFilter :: "Lib \<Rightarrow> int list \<Rightarrow> int \<Rightarrow> int \<Rightarrow> int list \<Rightarrow> string list \<Rightarrow> UserFeeds
    \<Rightarrow> feed_result \<times> UserFeeds" where
  "uf_getByTypesWithFilter L userids begin limit types flt s =
     (if flt = [] \<and> types = [] then uf_get L userids begin limit s
      else uf_filtered L userids begin limit types flt s)"

definition uf_getLessThanFeedid :: "Lib \<Rightarrow> int list \<Rightarrow> int \<Rightarrow> int \<Rightarrow> int list \<Rightarrow> string list \<Rightarrow> UserFeeds
    \<Rightarrow> feed_result \<times> UserFeeds" where
  "uf_getLessThanFeedid L userids fid limit types flt s =
     (case make_filter L flt of
        None \<Rightarrow> (Inl BadCast, s)
      | Some ids \<Rightarrow>
          answer L userids 0 limit
            (fs_gets_less_feedid_with_filter (sort_data L) userids (TypesFilter types) (IdsFilter ids)
               fid (to_size limit) (fs s)) s)"

definition uf_setLimit :: "int \<Rightarrow> UserFeeds \<Rightarrow> UserFeeds" where
  "uf_setLimit limit s = s\<lparr>climit := limit\<rparr>"

definition uf_getTotalCount :: "UserFeeds \<Rightarrow> int" where
  "uf_getTotalCount s = total_count (fs s)"

definition uf_getUserCount :: "int \<Rightarrow> UserFeeds \<Rightarrow> nat" where
  "uf_getUserCount u s = fs_item_count u (fs s)"

definition uf_check_order :: "Lib \<Rightarrow> UserFeeds \<Rightarrow> UserFeeds" where
  "uf_check_order L s = s\<lparr>fs := fs_check_order (sort_data L) (fs s)\<rparr>"

definition put_without_add_count :: "u32 \<times> u32 \<Rightarrow> FeedMeta \<Rightarrow> FeedStream \<Rightarrow> bool \<times> FeedStream" where
  "put_without_add_count pad fm = fs_put (userid fm) (FeedMetaData_of pad fm) False"

definition puts_without_add_count :: "FeedMetaData list \<Rightarrow> FeedStream \<Rightarrow> bool \<times> FeedStream" where
  "puts_without_add_count feeds = fs_puts feeds"

definition add_item_count :: "int \<Rightarrow> FeedStream \<Rightarrow> FeedStream" where
  "add_item_count c = fs_add_count c"

section \<open>The timer\<close>

partial_function (option) runTimerTask :: "int \<Rightarrow> FeedStream \<Rightarrow> FeedStream option" where
  "runTimerTask limit s =
     (if total_count s > limit
      then (case fs_get_min s of
              Some d \<Rightarrow> runTimerTask limit (fs_free (d\<lparr>ftime := to_int32 (ftime d + 60 * 60)\<rparr>) s)
            | None \<Rightarrow> runTimerTask limit s)
      else Some s)"

section \<open>Loading the history\<close>

text \<open>Feeds of one window, grouped by the remainder of the user id as \<open>FeedItemInfo\<close> does.\<close>

definition FEEDSTREAM_MUTEX_NUM :: int where "FEEDSTREAM_MUTEX_NUM = 1000"
definition DB_TABLE_COUNT :: int where "DB_TABLE_COUNT = 100"

definition c_rem :: "int \<Rightarrow> int \<Rightarrow> int" where
  "c_rem a b = (if a < 0 then - (- a mod b) else a mod b)"

fun item_insert :: "int \<Rightarrow> FeedMeta \<Rightarrow> (int \<times> FeedMeta list) list \<Rightarrow> (int \<times> FeedMeta list) list" where
  "item_insert k meta [] = [(k, [meta])]"
| "item_insert k meta ((k', metas) # gs) =
     (if k < k' then (k, [meta]) # (k', metas) # gs
      else if k = k' then (k', metas @ [meta]) # gs
      else (k', metas) # item_insert k meta gs)"

definition item_put :: "FeedMeta \<Rightarrow> (int \<times> FeedMeta list) list \<Rightarrow> (int \<times> FeedMeta list) list" where
  "item_put meta = item_insert (c_rem (userid meta) FEEDSTREAM_MUTEX_NUM) meta"

text \<open>\<open>tables\<close> gives the rows of a table, or \<open>None\<close> when the query throws.\<close>

definition PersistenceHelper_read :: "(int \<Rightarrow> FeedMeta list option) \<Rightarrow> int \<Rightarrow> int \<Rightarrow> int \<Rightarrow> (int \<times> FeedMeta list) list" where
  "PersistenceHelper_read tables index begin end =
     (case tables (c_rem index DB_TABLE_COUNT) of
        None \<Rightarrow> []
      | Some rows \<Rightarrow> foldl (\<lambda>gs m. item_put m gs) [] [m \<leftarrow> rows. ftime m < begin \<and> ftime m \<ge> end])"

text \<open>The feeds put one after the other, and how many were new. \<open>pad i\<close> is the padding of the \<open>i\<close>-th
  feed that the thread constructs.\<close>

fun load_feeds :: "(nat \<Rightarrow> u32 \<times> u32) \<Rightarrow> nat \<Rightarrow> FeedMeta list \<Rightarrow> FeedStream \<Rightarrow> nat \<times> FeedStream" where
  "load_feeds pad i [] s = (0, s)"
| "load_feeds pad i (m # ms) s =
     (let (r, s) = put_without_add_count (pad i) m s;
          (count, s) = load_feeds pad (Suc i) ms s
      in (if r then Suc count else count, s))"

partial_function (option) BuildUserMapThread_run :: "(int \<Rightarrow> FeedMeta list option) \<Rightarrow> (nat \<Rightarrow> u32 \<times> u32)
    \<Rightarrow> int \<Rightarrow> int \<Rightarrow> int \<Rightarrow> int \<Rightarrow> nat \<Rightarrow> FeedStream \<Rightarrow> FeedStream option" where
  "BuildUserMapThread_run tables pad history interval index begin i s =
     (if begin \<ge> history
      then let end = to_int32 (begin - interval);
               metas = concat (map snd (PersistenceHelper_read tables index begin end));
               (count, s) = load_feeds pad i metas s
        in BuildUserMapThread_run tables pad history interval index end (i + length metas)
             (add_item_count (int count) s)
      else Some s)"

section \<open>The segment\<close>

definition orders :: "(FeedMeta list \<Rightarrow> FeedMeta list) \<Rightarrow> bool" where
  "orders srt \<longleftrightarrow> (\<forall>xs. mset (srt xs) = mset xs) \<and>
     (\<forall>xs. (\<forall>x \<in> set xs. time_ok x) \<longrightarrow> sorted_wrt (\<lambda>a b. \<not> FeedMetaCompare b a) (srt xs))"

definition selects :: "(nat \<Rightarrow> FeedMeta list \<Rightarrow> FeedMeta list) \<Rightarrow> bool" where
  "selects nthe \<longleftrightarrow> (\<forall>n xs. mset (nthe n xs) = mset xs) \<and>
     (\<forall>n xs. (\<forall>x \<in> set xs. time_ok x) \<longrightarrow> n < length xs \<longrightarrow>
        (\<forall>i j. i < n \<longrightarrow> n \<le> j \<longrightarrow> j < length xs \<longrightarrow> \<not> FeedMetaCompare (nthe n xs ! j) (nthe n xs ! i)) \<and>
        (\<forall>j. n < j \<longrightarrow> j < length xs \<longrightarrow> \<not> FeedMetaCompare (nthe n xs ! j) (nthe n xs ! n)))"

lemma in_set_drop_nth: "x \<in> set (drop n zs) \<Longrightarrow> \<exists>j. n \<le> j \<and> j < length zs \<and> x = zs ! j"
proof -
  assume "x \<in> set (drop n zs)"
  then obtain i where "i < length (drop n zs)" "x = drop n zs ! i" by (auto simp only: in_set_conv_nth)
  then show ?thesis by (intro exI [of _ "n + i"]) simp
qed

text \<open>What the C++ standard promises of the algorithms.\<close>

definition lib_ok :: "'a Lib_scheme \<Rightarrow> bool" where
  "lib_ok L \<longleftrightarrow> sorter (sort_data L) \<and> orders (sort_meta L) \<and> selects (nth_meta L)"

abbreviation ranked :: "FeedMeta list \<Rightarrow> FeedMeta list \<Rightarrow> bool" where
  "ranked xs ys \<equiv> \<forall>x \<in> set xs. \<forall>y \<in> set ys. newest x \<le> newest y"

lemma orders_sorted: "orders srt \<Longrightarrow> \<forall>x \<in> set xs. time_ok x \<Longrightarrow> sorted (map newest (srt xs))"
proof -
  assume o: "orders srt" and ok: "\<forall>x \<in> set xs. time_ok x"
  then have m: "mset (srt xs) = mset xs" and s: "sorted_wrt (\<lambda>a b. \<not> FeedMetaCompare b a) (srt xs)"
    by (simp_all add: orders_def)
  have "\<forall>x \<in> set (srt xs). time_ok x" using ok mset_eq_setD [OF m] by simp
  with s show ?thesis unfolding sorted_wrt_map
    by (elim sorted_wrt_mono_rel [rotated]) (simp add: FeedMetaCompare_iff not_less)
qed

lemma selects_split:
  assumes "selects nthe" "\<forall>x \<in> set xs. time_ok x" "n < length xs"
  obtains a m b where "nthe n xs = a @ m # b" "length a = n" "mset (a @ m # b) = mset xs"
    "ranked a (m # b)" "ranked [m] b"
proof -
  let ?y = "nthe n xs"
  have m: "mset ?y = mset xs" using assms(1) by (simp add: selects_def)
  have len: "length ?y = length xs" and ok: "\<forall>x \<in> set ?y. time_ok x"
    using mset_eq_length [OF m] mset_eq_setD [OF m] assms(2) by auto
  have lo: "newest (?y ! i) \<le> newest (?y ! j)" if "i < n" "n \<le> j" "j < length xs" for i j
  proof -
    have "\<not> FeedMetaCompare (?y ! j) (?y ! i)" using assms that unfolding selects_def by blast
    moreover have "time_ok (?y ! j)" "time_ok (?y ! i)" using that ok len by simp_all
    ultimately show ?thesis by (simp add: FeedMetaCompare_iff not_less)
  qed
  have mid: "newest (?y ! n) \<le> newest (?y ! j)" if "n < j" "j < length xs" for j
  proof -
    have "\<not> FeedMetaCompare (?y ! j) (?y ! n)" using assms that unfolding selects_def by blast
    moreover have "time_ok (?y ! j)" "time_ok (?y ! n)" using that ok len by simp_all
    ultimately show ?thesis by (simp add: FeedMetaCompare_iff not_less)
  qed
  have split: "?y = take n ?y @ ?y ! n # drop (Suc n) ?y" using assms(3) len by (simp add: id_take_nth_drop)
  have hi: "x \<in> set (drop (Suc n) ?y) \<Longrightarrow> \<exists>j. n < j \<and> j < length xs \<and> x = ?y ! j" for x
    using in_set_drop_nth [of x "Suc n" ?y] len by (metis Suc_le_lessD)
  show thesis
  proof (rule that [OF split])
    show "length (take n ?y) = n" using assms(3) len by simp
    show "mset (take n ?y @ ?y ! n # drop (Suc n) ?y) = mset xs" using m split by simp
    show "ranked (take n ?y) (?y ! n # drop (Suc n) ?y)"
      using lo hi assms(3) by (auto dest!: in_set_take_nth) (use lo in \<open>force dest!: hi\<close>)
    show "ranked [?y ! n] (drop (Suc n) ?y)" using mid by (auto dest!: hi)
  qed
qed

text \<open>The two selections and the sort leave a segment of an order of all feeds.\<close>

lemma sorted_three:
  assumes "ranked a c" "ranked a b" "ranked b c" "sorted (map newest b)"
  shows "map newest b = take (length b) (drop (length a) (sort (map newest (a @ b @ c))))"
proof -
  have "sort (map newest (a @ b @ c)) = sort (map newest a) @ map newest b @ sort (map newest c)"
  proof (rule properties_for_sort)
    show "sorted (sort (map newest a) @ map newest b @ sort (map newest c))"
      using assms by (auto simp: sorted_append)
  qed simp
  then show ?thesis by simp
qed

lemma slice_middle: "length a = i \<Longrightarrow> length a + length b = j \<Longrightarrow> slice i j (a @ b @ c) = b"
  by (auto simp: slice_def)

lemma segment_cut:
  assumes "lib_ok L" "\<forall>x \<in> set xs. time_ok x" "b < e" "e \<le> length xs"
  defines "s1 \<equiv> nth_meta L (e - 1) xs"
  defines "s2 \<equiv> (if e - b > 1 then nth_meta L b (take (e - 1) s1) @ drop (e - 1) s1 else s1)"
  defines "r \<equiv> slice b e (take b s2 @ sort_meta L (slice b e s2) @ drop e s2)"
  shows "map newest r = take (e - b) (drop b (sort (map newest xs))) \<and> mset r \<subseteq># mset xs"
proof -
  have lib: "orders (sort_meta L)" "selects (nth_meta L)" using assms(1) by (simp_all add: lib_ok_def)
  have "e - 1 < length xs" using assms(3,4) by simp
  from selects_split [OF lib(2) assms(2) this] obtain a m c where one:
    "s1 = a @ m # c" "length a = e - 1" "mset (a @ m # c) = mset xs" "ranked a (m # c)" "ranked [m] c"
    unfolding s1_def by metis
  have oka: "\<forall>x \<in> set (a @ m # c). time_ok x" using assms(2) mset_eq_setD [OF one(3)] by simp
  have len: "length (a @ m # c) = length xs" using mset_eq_length [OF one(3)] .
  obtain a1 a2 where two: "s2 = a1 @ (a2 @ [m]) @ c" "length a1 = b" "mset (a1 @ a2) = mset a" "ranked a1 (a2 @ [m])"
  proof (cases "e - b > 1")
    case True
    then have bl: "b < length a" using one(2) by simp
    have ok: "\<forall>x \<in> set a. time_ok x" using oka by simp
    from selects_split [OF lib(2) ok bl] obtain p q t where
      sp: "nth_meta L b a = p @ q # t" "length p = b" "mset (p @ q # t) = mset a" "ranked p (q # t)" by metis
    have "set p \<subseteq> set a" using mset_eq_setD [OF sp(3)] by auto
    with one(4) sp have "ranked p ((q # t) @ [m])" by auto
    then show thesis using that [of p "q # t"] sp one True by (simp add: s2_def)
  next
    case False
    then show thesis using that [of a "[]"] one assms(3) by (simp add: s2_def)
  qed
  have l2: "length (a2 @ [m]) = e - b" using mset_eq_length [OF two(3)] one(2) two(2) assms(3) by simp
  let ?s = "sort_meta L (a2 @ [m])"
  have ms: "mset ?s = mset (a2 @ [m])" using lib(1) by (simp add: orders_def)
  have sets: "set ?s = set (a2 @ [m])" and ls: "length ?s = e - b"
    using mset_eq_setD [OF ms] mset_eq_length [OF ms] l2 by auto
  have cut: "slice b e s2 = a2 @ [m]"
    unfolding two(1) by (rule slice_middle) (use two(2) l2 assms(3) in simp_all)
  have e: "e = length (a1 @ a2 @ [m])" using two(2) l2 assms(3) by simp
  have "take b s2 = a1" "drop e s2 = c" unfolding e two(1) two(2) [symmetric] by simp_all
  then have r: "r = ?s" unfolding r_def cut using two(2) ls assms(3) by (simp add: slice_middle)
  have sub: "set a1 \<subseteq> set a" "set a2 \<subseteq> set a" using mset_eq_setD [OF two(3)] by auto
  have "sorted (map newest ?s)" using oka sub by (intro orders_sorted [OF lib(1)]) auto
  moreover have "ranked a1 c" "ranked a1 ?s" "ranked ?s c" using one(4,5) two(4) sub sets by auto
  ultimately have "map newest ?s = take (length ?s) (drop (length a1) (sort (map newest (a1 @ ?s @ c))))"
    by (intro sorted_three)
  moreover have all: "mset (a1 @ ?s @ c) = mset xs" using one(3) ms by (simp add: ac_simps flip: two(3))
  then have "sort (map newest (a1 @ ?s @ c)) = sort (map newest xs)" by (intro sort_mset) (metis mset_map)
  ultimately show ?thesis using r ls two(2) all by (metis mset_append mset_subset_eq_add_left union_commute union_assoc)
qed

lemma segment_seq:
  "length data = length userids \<Longrightarrow>
   concat (map (\<lambda>(uid, v). map (createFrom uid) v) (zip userids data)) = map (createFrom 0) (concat data)"
proof (induction data userids rule: list_induct2)
  case (Cons v data uid userids)
  have "createFrom uid = createFrom 0" by (simp add: createFrom_def fun_eq_iff)
  with Cons show ?case by simp
qed simp

lemma getSegment_correct:
  assumes "lib_ok L" "length data = length userids" "\<forall>x \<in> set (concat data). time_ok x"
    and "0 \<le> begin" "1 \<le> limit" "begin + limit < 2 ^ 31"
  shows "\<exists>r. getSegment L data userids begin limit = Inr r \<and>
    map newest r = take (nat limit) (drop (nat begin) (sort (map newest (concat data)))) \<and>
    mset r \<subseteq># mset (map (createFrom 0) (concat data))"
proof -
  define xs where "xs = map (createFrom 0) (concat data)"
  have seq: "concat (map (\<lambda>(uid, v). map (createFrom uid) v) (zip userids data)) = xs"
    using assms(2) by (simp add: segment_seq xs_def)
  have ok: "\<forall>x \<in> set xs. time_ok x" using assms(3) by (auto simp: xs_def)
  have keys: "map newest xs = map newest (concat data)" by (simp add: xs_def comp_def)
  note w = to_int32_id [of "begin + limit"]
  show ?thesis
  proof (cases "begin \<ge> int (length xs)")
    case True
    then have "length (sort (map newest (concat data))) \<le> nat begin" using keys by (metis length_map length_sort nat_int nat_mono)
    then show ?thesis using True assms(2) seq by (simp add: getSegment_def Let_def)
  next
    case False
    define b where "b = nat begin"
    define e where "e = (if begin + limit > int (length xs) then length xs else nat (begin + limit))"
    define lim where "lim = (if begin + limit > int (length xs) then int (length xs) - begin else limit)"
    have be: "b < e" "e \<le> length xs" and sum: "begin + lim = int e" "lim > 1 \<longleftrightarrow> e - b > 1"
      using False assms(4,5) by (auto simp: b_def e_def lim_def)
    have wrap: "to_int32 (begin + limit) = begin + limit" using assms(4-6) w by simp
    have "int e \<le> begin + limit" using assms(4,5) by (auto simp: e_def)
    then have we: "to_int32 (begin + lim) = int e" unfolding sum(1) using assms(6) by (intro to_int32_id) auto
    note cut = segment_cut [OF assms(1) ok be]
    let ?s1 = "nth_meta L (e - 1) xs"
    let ?s2 = "if e - b > 1 then nth_meta L b (take (e - 1) ?s1) @ drop (e - 1) ?s1 else ?s1"
    let ?r = "slice b e (take b ?s2 @ sort_meta L (slice b e ?s2) @ drop e ?s2)"
    have "\<not> (begin < 0 \<or> int e < begin \<or> int e < 1)" using be assms(4) by (auto simp: b_def)
    then have g: "getSegment L data userids begin limit = Inr ?r"
      unfolding getSegment_def Let_def seq wrap lim_def [symmetric] we nat_int b_def [symmetric] sum(2)
      using False assms(2) by (simp only: if_False less_irrefl simp_thms)
    have "take (e - b) (drop b (sort (map newest xs))) = take (nat limit) (drop b (sort (map newest xs)))"
    proof (cases "begin + limit > int (length xs)")
      case True
      then have "length xs - b \<le> nat limit" "e = length xs" using assms(4) by (auto simp: e_def b_def)
      then show ?thesis by simp
    next
      case le: False
      then have "e - b = nat limit" using assms(4,5) by (simp add: e_def b_def nat_add_distrib)
      then show ?thesis by simp
    qed
    moreover obtain r where "getSegment L data userids begin limit = Inr r"
      "map newest r = take (e - b) (drop b (sort (map newest xs)))" "mset r \<subseteq># mset xs"
      using g cut by blast
    ultimately show ?thesis unfolding keys [symmetric] b_def [symmetric] xs_def [symmetric] by simp
  qed
qed

section \<open>Queries\<close>

lemma gets_as_filter: "fs_gets srt uids limit s = fs_gets_with_filter srt uids (TypesFilter []) (IdsFilter []) limit s"
  by (simp add: fs_gets_def fs_gets_with_filter_def pick_eq TypesFilter_def IdsFilter_def)

lemma get_as_filtered: "uf_get L userids begin limit s = uf_filtered L userids begin limit [] [] s"
  by (simp add: uf_get_def uf_filtered_def make_filter_def gets_as_filter)

lemma concat_perm: "mset xs = mset ys \<Longrightarrow> mset (concat (map f xs)) = mset (concat (map f ys))"
proof -
  have "mset (concat (map f zs)) = (\<Sum>x\<in>#mset zs. mset (f x))" for zs by (induction zs) auto
  then show "mset xs = mset ys \<Longrightarrow> mset (concat (map f xs)) = mset (concat (map f ys))" by simp
qed

definition feeds_of :: "(FeedMetaData \<Rightarrow> bool) \<Rightarrow> FeedStream \<Rightarrow> int list \<Rightarrow> FeedMetaData list" where
  "feeds_of p s userids = concat (map (\<lambda>u. filter p (stream s u)) userids)"

lemma answer_frame:
  assumes "lib_ok L" "fs_ok (fs s)" "distinct userids" "0 \<le> begin" "1 \<le> limit" "begin + limit < 2 ^ 31"
    and n: "n = nat (begin + limit)"
    and r: "r = gets_frame (sort_data L) (\<lambda>md. pick (min n (length (mdata md))) p (rev (mdata md))) userids n (fs s)"
  shows "\<exists>seg. answer L userids begin limit r s = (Inr seg, s\<lparr>fs := snd r\<rparr>) \<and>
    map newest seg = take (nat limit) (drop (nat begin) (sort (map newest (feeds_of p (fs s) userids)))) \<and>
    mset seg \<subseteq># mset (map (createFrom 0) (feeds_of p (fs s) userids))"
proof -
  have srt: "sorter (sort_data L)" using assms(1) by (simp add: lib_ok_def)
  let ?us = "sort userids"
  have us: "sort (remdups userids) = ?us" using assms(3) by (simp add: distinct_remdups_id)
  let ?top = "\<lambda>u. case map_of (usermap (fs s)) u of None \<Rightarrow> []
    | Some md \<Rightarrow> pick (min n (length (mdata (md_prepare (sort_data L) n md)))) p (rev (mdata (md_prepare (sort_data L) n md)))"
  let ?all = "\<lambda>u. filter p (stream (fs s) u)"
  have data: "fst r = map ?top ?us" by (simp add: r gets_frame_result us)
  have each: "covers n (map newest (?top u)) (map newest (?all u)) \<and> mset (?top u) \<subseteq># mset (?all u)" for u
  proof (cases "map_of (usermap (fs s)) u")
    case (Some md)
    then have "md_ok md" using assms(2) by (force simp: fs_ok_def dest: map_of_SomeD)
    from pick_covers [OF srt this, of n p] show ?thesis using Some by (simp add: stream_def)
  qed (simp add: stream_def covers_mset)
  have "covers n (concat (map (\<lambda>u. map newest (?top u)) us)) (concat (map (\<lambda>u. map newest (?all u)) us))" for us
    using each by (intro covers_concat) (simp add: list_all2_conv_all_nth)
  then have cov: "covers n (map newest (concat (fst r))) (map newest (concat (map ?all ?us)))"
    by (simp add: data map_concat comp_def)
  have sub: "mset (concat (map ?top us)) \<subseteq># mset (concat (map ?all us))" for us
    using each by (induction us) (auto intro: subset_mset.add_mono)
  have perm: "mset (concat (map ?all ?us)) = mset (feeds_of p (fs s) userids)"
    unfolding feeds_of_def by (rule concat_perm) simp
  have incl: "mset (concat (fst r)) \<subseteq># mset (feeds_of p (fs s) userids)" using sub [of ?us] by (simp add: data perm)
  have "time_ok x" if "x \<in> set (stream (fs s) u)" for x u
  proof (cases "map_of (usermap (fs s)) u")
    case (Some md)
    then have "md_ok md" using assms(2) by (force simp: fs_ok_def dest: map_of_SomeD)
    then show ?thesis using that Some by (simp add: stream_def md_ok_def)
  qed (use that in \<open>simp add: stream_def\<close>)
  then have "\<forall>x \<in> set (feeds_of p (fs s) userids). time_ok x" by (auto simp: feeds_of_def)
  then have ok: "\<forall>x \<in> set (concat (fst r)). time_ok x" using set_mset_mono [OF incl] by auto
  have len: "length (fst r) = length userids" by (simp add: data)
  obtain seg where seg: "getSegment L (fst r) userids begin limit = Inr seg"
    "map newest seg = take (nat limit) (drop (nat begin) (sort (map newest (concat (fst r)))))"
    "mset seg \<subseteq># mset (map (createFrom 0) (concat (fst r)))"
    using getSegment_correct [OF assms(1) len ok assms(4-6)] by blast
  have "sort (map newest (concat (map ?all ?us))) = sort (map newest (feeds_of p (fs s) userids))"
    using perm by (intro sort_mset) (metis mset_map)
  then have "map newest seg = take (nat limit) (drop (nat begin) (sort (map newest (feeds_of p (fs s) userids))))"
    using covers_slice [OF cov, of "nat begin" "nat limit"] seg(2) assms(4,5) n by (simp add: nat_add_distrib)
  moreover have "mset seg \<subseteq># mset (map (createFrom 0) (feeds_of p (fs s) userids))"
    using seg(3) image_mset_subseteq_mono [OF incl, of "createFrom 0"] by (metis mset_map subset_mset.order_trans)
  ultimately show ?thesis using seg(1) by (simp add: answer_def)
qed

text \<open>C5. A query for distinct users, with filters that parse, a \<open>begin\<close> that is not negative, a positive
  \<open>limit\<close> and a sum of the two that fits an int, is answered with exactly the segment asked for of all
  matching feeds of these users, newest first, in a state in which every stream that is marked as ordered
  is ordered (\<open>fs_ok\<close>): the feeds returned are among them, and their times and ids are those at the positions
  \<open>begin\<close> to \<open>begin + limit\<close>. The query keeps \<open>fs_ok\<close>; a feed that arrives late does not, and then an older
  feed can be shown in the place of a newer one (\<open>late_feed_hides_newer\<close>), until the reordering restores it.
  It holds for every \<open>sort\<close> and \<open>nth_element\<close> that keep what the C++ standard promises, although each stream
  gives only its first feeds and is sorted only when it is longer than the segment.\<close>

theorem feed_query_newest:
  assumes "lib_ok L" "fs_ok (fs s)" "distinct userids" "0 \<le> begin" "1 \<le> limit" "begin + limit < 2 ^ 31"
    and "make_filter L flt = Some ids"
    and feeds_def: "feeds = feeds_of (\<lambda>d. TypesFilter types d \<and> \<not> IdsFilter ids d) (fs s) userids"
  shows "\<exists>seg s'. uf_getByTypesWithFilter L userids begin limit types flt s = (Inr seg, s') \<and>
    map newest seg = take (nat limit) (drop (nat begin) (sort (map newest feeds))) \<and>
    mset seg \<subseteq># mset (map (createFrom 0) feeds) \<and> fs_ok (fs s') \<and>
    (\<forall>u. mset (stream (fs s') u) = mset (stream (fs s) u))"
proof -
  let ?p = "\<lambda>d. TypesFilter types d \<and> \<not> IdsFilter ids d"
  have n: "to_size (to_int32 (begin + limit)) = nat (begin + limit)"
    using assms(4-6) to_int32_id [of "begin + limit"] by (simp add: to_size_def)
  have one: "uf_getByTypesWithFilter L userids begin limit types flt s = uf_filtered L userids begin limit types flt s"
    by (auto simp: uf_getByTypesWithFilter_def get_as_filtered)
  define r where "r = gets_frame (sort_data L) (\<lambda>md. pick (min (nat (begin + limit)) (length (mdata md))) ?p (rev (mdata md)))
    userids (nat (begin + limit)) (fs s)"
  have ans: "uf_getByTypesWithFilter L userids begin limit types flt s = answer L userids begin limit r s"
    unfolding one by (simp add: uf_filtered_def assms(7) fs_gets_with_filter_def n r_def)
  have "sorter (sort_data L)" using assms(1) by (simp add: lib_ok_def)
  note state = gets_frame_state [OF this arg_cong [OF r_def, of snd]]
  from answer_frame [OF assms(1-6) refl r_def] obtain seg where
    "answer L userids begin limit r s = (Inr seg, s\<lparr>fs := snd r\<rparr>)"
    "map newest seg = take (nat limit) (drop (nat begin) (sort (map newest feeds)))"
    "mset seg \<subseteq># mset (map (createFrom 0) feeds)" unfolding feeds_def by blast
  then show ?thesis using ans state(4) state(5) [OF assms(2)]
    by (intro exI [of _ seg] exI [of _ "s\<lparr>fs := snd r\<rparr>"]) simp
qed

text \<open>Insertion sort as an instance of the library, for concrete runs.\<close>

fun insert_by :: "('a \<Rightarrow> 'a \<Rightarrow> bool) \<Rightarrow> 'a \<Rightarrow> 'a list \<Rightarrow> 'a list" where
  "insert_by lt x [] = [x]"
| "insert_by lt x (y # ys) = (if lt y x then y # insert_by lt x ys else x # y # ys)"

definition sort_by :: "('a \<Rightarrow> 'a \<Rightarrow> bool) \<Rightarrow> 'a list \<Rightarrow> 'a list" where
  "sort_by lt xs = foldr (insert_by lt) xs []"

lemma insert_by_mset [simp]: "mset (insert_by lt x xs) = add_mset x (mset xs)"
  by (induction lt x xs rule: insert_by.induct) auto

lemma sort_by_mset [simp]: "mset (sort_by lt xs) = mset xs"
  by (induction xs) (auto simp: sort_by_def)

lemma sort_by_sorted:
  fixes k :: "'a \<Rightarrow> 'b :: linorder"
  assumes "\<And>a b. P a \<Longrightarrow> P b \<Longrightarrow> lt a b \<longleftrightarrow> k a < k b" "\<forall>x \<in> set xs. P x"
  shows "sorted (map k (sort_by lt xs))"
  using assms(2)
proof (induction xs)
  case (Cons x xs)
  have ins: "sorted (map k ys) \<Longrightarrow> P x \<Longrightarrow> \<forall>y \<in> set ys. P y \<Longrightarrow> sorted (map k (insert_by lt x ys))" for ys
  proof (induction ys)
    case (Cons y ys)
    have "set (insert_by lt x ys) = insert x (set ys)"
      using insert_by_mset [of lt x ys] by (metis set_mset_add_mset_insert set_mset_mset)
    with Cons show ?case using assms(1) by (auto simp: not_less)
  qed simp
  have "set (sort_by lt xs) = set xs" using sort_by_mset by (metis set_mset_mset)
  with Cons ins [of "sort_by lt xs"] show ?case by (simp add: sort_by_def)
qed (simp add: sort_by_def)

definition list_lib :: Lib where
  "list_lib = \<lparr>sort_data = sort_by fd_less, nth_meta = (\<lambda>n. sort_by FeedMetaCompare),
     sort_meta = sort_by FeedMetaCompare, lib_split = (\<lambda>s. [takeWhile (\<lambda>c. c \<noteq> CHR '':'') s,
       tl (dropWhile (\<lambda>c. c \<noteq> CHR '':'') s)]),
     cast_int = (\<lambda>s. if s = ''0'' then Some 0 else if s = ''1'' then Some 1 else None),
     cast_long = (\<lambda>s. if s = ''4294967298'' then Some 4294967298 else if s = ''2'' then Some 2 else None)\<rparr>"

lemma sort_by_perm:
  assumes "\<And>a b. P a \<Longrightarrow> P b \<Longrightarrow> lt a b \<longleftrightarrow> (k a :: 'b :: linorder) < k b" "\<forall>x \<in> set xs. P x"
  shows "sorted_wrt (\<lambda>a b. \<not> lt b a) (sort_by lt xs)"
proof -
  have "set (sort_by lt xs) = set xs" using sort_by_mset by (metis set_mset_mset)
  moreover have "sorted (map k (sort_by lt xs))" by (rule sort_by_sorted [of P lt k]) (use assms in auto)
  ultimately show ?thesis using assms unfolding sorted_wrt_map
    by (elim sorted_wrt_mono_rel [rotated]) (simp add: not_less)
qed

lemma list_lib_ok: "lib_ok list_lib"
proof -
  have "sorter (sort_by fd_less)"
    unfolding sorter_def
    by (auto intro!: sort_by_perm [where P = time_ok and k = "\<lambda>d. (ftime d, feedid d)"]
        simp: fd_less_iff newest_def less_prod_def)
  moreover have o: "sorted_wrt (\<lambda>a b. \<not> FeedMetaCompare b a) (sort_by FeedMetaCompare xs)"
    if "\<forall>x \<in> set xs. time_ok x" for xs
    using that by (rule sort_by_perm [where k = newest, rotated]) (rule FeedMetaCompare_iff)
  then have "orders (sort_by FeedMetaCompare)" by (simp add: orders_def)
  moreover have "selects (\<lambda>n. sort_by FeedMetaCompare)"
  proof -
    have "length (sort_by FeedMetaCompare xs) = length xs" for xs by (metis size_mset sort_by_mset)
    then show ?thesis using o unfolding selects_def
      by (simp add: sorted_wrt_iff_nth_less)
  qed
  ultimately show ?thesis by (simp add: lib_ok_def list_lib_def)
qed

definition sample_feed :: "int \<Rightarrow> int \<Rightarrow> int \<Rightarrow> FeedMetaData" where
  "sample_feed u i t = \<lparr>userid = u, feedid = i, ftype = 502, ftime = t, weight = 0, mergeid = 0, padding = (0, 0)\<rparr>"

definition sample_feeds :: UserFeeds where
  "sample_feeds = \<lparr>fs = \<lparr>total_count = 4, usermap =
     [(1, \<lparr>is_order = False, mdata = [sample_feed 1 11 50, sample_feed 1 10 40]\<rparr>),
      (2, \<lparr>is_order = True, mdata = [sample_feed 2 20 30, sample_feed 2 21 60]\<rparr>)]\<rparr>, climit = 100\<rparr>"

lemma sample_feeds_ok: "fs_ok (fs sample_feeds)"
  by (simp add: fs_ok_def map_wf_def md_ok_def sample_feeds_def sample_feed_def time_ok_def fd_less_def Let_def to_int32_def)

theorem feed_query_newest_witness:
  "\<exists>seg s'. uf_getByTypesWithFilter list_lib [2, 1] 1 2 [500] [''0:2''] sample_feeds = (Inr seg, s') \<and>
     map newest seg = [(-50, -11), (-40, -10)]"
proof -
  have flt: "make_filter list_lib [''0:2''] = Some [(0, 2)]"
    by (simp add: make_filter_def list_lib_def to_int32_def)
  have p: "TypesFilter [500] (sample_feed u i t) \<and> \<not> IdsFilter [(0, 2)] (sample_feed u i t) \<longleftrightarrow> i \<noteq> 2" for u i t
    by (simp add: TypesFilter_def IdsFilter_def weired_type_def WeiredType_of_def sample_feed_def FeedidPrefix_def)
  have "sort (map newest (feeds_of (\<lambda>d. TypesFilter [500] d \<and> \<not> IdsFilter [(0, 2)] d) (fs sample_feeds) [2, 1])) =
      [(-60, -21), (-50, -11), (-40, -10), (-30, -20)]"
    by (simp add: feeds_of_def stream_def sample_feeds_def p) (simp add: newest_def sample_feed_def less_prod_def less_eq_prod_def)
  then have "\<exists>seg s'. uf_getByTypesWithFilter list_lib [2, 1] 1 2 [500] [''0:2''] sample_feeds = (Inr seg, s') \<and>
      map newest seg = take (nat 2) (drop (nat 1) [(-60, -21), (-50, -11), (-40, -10), (-30, -20)])"
    using feed_query_newest [OF list_lib_ok sample_feeds_ok, of "[2, 1]" 1 2 "[''0:2'']" "[(0, 2)]", OF _ _ _ _ flt refl,
        of "[500]"] by force
  then show ?thesis by (simp add: numeral_2_eq_2)
qed

text \<open>The special queries are the general one: without types, without filters or without both it
  gives the same answer and leaves the same state, although the code takes other paths.\<close>

lemma feed_queries_agree:
  "uf_get L userids begin limit s = uf_getByTypesWithFilter L userids begin limit [] [] s \<and>
   uf_getByTypes L userids begin limit types s = uf_getByTypesWithFilter L userids begin limit types [] s \<and>
   uf_getWithFilter L userids begin limit flt s = uf_getByTypesWithFilter L userids begin limit [] flt s \<and>
   uf_filtered L userids begin limit types flt s = uf_getByTypesWithFilter L userids begin limit types flt s"
  by (auto simp: uf_getByTypes_def uf_getWithFilter_def uf_getByTypesWithFilter_def get_as_filtered)

text \<open>A query that names a user twice reads past the end of the collected vectors: the streams answer
  once per user, the segment reads one vector per name.\<close>

lemma feed_query_duplicate_user:
  assumes "\<not> distinct userids" "make_filter L flt \<noteq> None"
  shows "fst (uf_getByTypesWithFilter L userids begin limit types flt s) = Inl Undefined"
proof -
  have len: "length (sort (remdups userids)) < length userids"
    using assms(1) by (metis length_remdups_eq length_remdups_leq length_sort order_le_less remdups_id_iff_distinct)
  then have "fst (uf_filtered L userids begin limit types flt s) = Inl Undefined"
    using assms(2) by (auto simp: uf_filtered_def answer_def fs_gets_with_filter_def gets_frame_result getSegment_def)
  then show ?thesis by (auto simp: uf_getByTypesWithFilter_def get_as_filtered)
qed

lemma feed_query_duplicate_user_witness:
  "fst (uf_getByTypesWithFilter list_lib [1, 2, 1] 0 10 [] [] sample_feeds) = Inl Undefined"
  using feed_query_duplicate_user [of "[1, 2, 1]" list_lib "[]" 0 10 "[]" sample_feeds] by (simp add: make_filter_def)

text \<open>A stream that was put in order is marked so for good: a feed that arrives late, with an older
  time, is then returned as the newest one.\<close>

lemma late_feed_hides_newer:
  "map feedid (projr (fst (uf_get list_lib [2] 0 1
     (uf_put (0, 0) \<lparr>userid = 2, feedid = 5, ftype = 502, ftime = 10, weight = 0, mergeid = 0\<rparr>
       (uf_check_order list_lib sample_feeds))))) = [5] \<and>
   map feedid (projr (fst (uf_get list_lib [2] 0 1 (uf_check_order list_lib sample_feeds)))) = [21]"
  by code_simp

text \<open>The ids of a filter pass through an \<open>int\<close>: the filter for the feed 4294967298 lets that feed pass
  and drops the feed 2.\<close>

lemma filter_id_truncated:
  "map_option (\<lambda>ids. (IdsFilter ids (sample_feed 1 4294967298 0), IdsFilter ids (sample_feed 1 2 0)))
     (make_filter list_lib [''0:4294967298'']) = Some (False, True)"
  by code_simp

end
