(* ===== verification/FeedMachine.thy ===== *)
theory FeedMachine
  imports FeedServer
begin

text \<open>
  The feed service as a machine: requests, the hundred loading threads, the reordering after the load
  and the eviction timer, in any order. A loading thread puts feeds one by one without counting them
  and adds what it counted at the end of a window, so the count of the service lags behind. The timer
  takes its minimum and frees up to it round after round, and other threads may run in between: a
  round is the step \<open>free\<close>, for any bound, since the minimum may be an old one by then, and the whole
  loop run without interruption is the step \<open>timer\<close>. A request is one step. The
  eviction loop is shown to return in every reachable state with a limit that is not negative, and a
  loading thread to load every row of its history.
\<close>

section \<open>The eviction timer\<close>

definition evicted_to :: "int \<Rightarrow> FeedStream \<Rightarrow> FeedStream \<Rightarrow> bool" where
  "evicted_to limit s s' \<longleftrightarrow> total_count s' \<le> limit \<and>
     total_count s' - int (items (usermap s')) = total_count s - int (items (usermap s)) \<and>
     map fst (usermap s') = map fst (usermap s) \<and> (\<forall>u. \<exists>k. stream s' u = drop k (stream s u))"

lemma evicted_to_free:
  assumes "evicted_to limit (fs_free b s) s'" shows "evicted_to limit s s'"
  unfolding evicted_to_def
proof (intro conjI allI)
  fix u
  obtain k where "stream s' u = drop k (stream (fs_free b s) u)" using assms by (auto simp: evicted_to_def)
  then show "\<exists>k. stream s' u = drop k (stream s u)" by (auto simp: fs_free_effect(3) dropWhile_eq_drop)
qed (use assms in \<open>simp_all add: evicted_to_def fs_free_effect(1,2)\<close>)

lemma evicted_to_refl: "total_count s \<le> limit \<Longrightarrow> evicted_to limit s s"
  unfolding evicted_to_def by (auto intro: exI [of _ 0])

lemma runTimerTask_result:
  assumes "runTimerTask limit s = Some s'" shows "evicted_to limit s s'"
proof (rule runTimerTask.raw_induct [OF _ assms])
  fix run :: "int \<Rightarrow> FeedStream \<Rightarrow> FeedStream option" and limit s s'
  assume ih: "\<And>limit s s'. run limit s = Some s' \<Longrightarrow> evicted_to limit s s'"
    and body: "(if total_count s > limit
      then (case fs_get_min s of
              Some d \<Rightarrow> run limit (fs_free (d\<lparr>ftime := to_int32 (ftime d + 60 * 60)\<rparr>) s)
            | None \<Rightarrow> run limit s)
      else Some s) = Some s'"
  show "evicted_to limit s s'"
    using body by (auto split: if_splits option.splits intro: evicted_to_refl ih evicted_to_free [OF ih])
qed

lemma runTimerTask_returns:
  assumes "total_count s \<le> int (items (usermap s))" "0 \<le> limit"
  shows "\<exists>s'. runTimerTask limit s = Some s'"
  using assms(1)
proof (induction "items (usermap s)" arbitrary: s rule: less_induct)
  case less
  show ?case
  proof (cases "total_count s > limit")
    case True
    then have "items (usermap s) \<noteq> 0" using less.prems assms(2) by simp
    then obtain d where d: "fs_get_min s = Some d" using fs_get_min_none by fastforce
    let ?s = "fs_free (d\<lparr>ftime := to_int32 (ftime d + 60 * 60)\<rparr>) s"
    have "items (usermap ?s) < items (usermap s)" using fs_free_progress [OF d] by simp
    moreover have "total_count ?s \<le> int (items (usermap ?s))"
      using fs_free_effect(2) [of _ s] less.prems by (smt (verit))
    ultimately obtain s' where "runTimerTask limit ?s = Some s'" using less.hyps by blast
    then show ?thesis using True d by (subst runTimerTask.simps) simp
  next
    case False
    then show ?thesis by (subst runTimerTask.simps) simp
  qed
qed

section \<open>The machine\<close>

record FeedSystem =
  svc :: UserFeeds
  loading :: "nat list"

definition system_new :: FeedSystem where
  "system_new = \<lparr>svc = UserFeeds_new, loading = replicate (nat DB_TABLE_COUNT) 0\<rparr>"

inductive feed_step :: "Lib \<Rightarrow> FeedSystem \<Rightarrow> FeedSystem \<Rightarrow> bool" for L where
  put: "feed_step L y (y\<lparr>svc := uf_put pad fm (svc y)\<rparr>)"
| query: "uf_getByTypesWithFilter L userids begin limit types flt (svc y) = (r, s) \<Longrightarrow>
    feed_step L y (y\<lparr>svc := s\<rparr>)"
| query_less: "uf_getLessThanFeedid L userids fid limit types flt (svc y) = (r, s) \<Longrightarrow>
    feed_step L y (y\<lparr>svc := s\<rparr>)"
| set_limit: "feed_step L y (y\<lparr>svc := uf_setLimit limit (svc y)\<rparr>)"
| load: "i < length (loading y) \<Longrightarrow> put_without_add_count pad fm (fs (svc y)) = (r, f) \<Longrightarrow>
    feed_step L y (y\<lparr>svc := (svc y)\<lparr>fs := f\<rparr>,
      loading := (loading y)[i := (if r then Suc (loading y ! i) else loading y ! i)]\<rparr>)"
| load_end: "i < length (loading y) \<Longrightarrow>
    feed_step L y (y\<lparr>svc := (svc y)\<lparr>fs := add_item_count (int (loading y ! i)) (fs (svc y))\<rparr>,
      loading := (loading y)[i := 0]\<rparr>)"
| order: "feed_step L y (y\<lparr>svc := uf_check_order L (svc y)\<rparr>)"
| free: "feed_step L y (y\<lparr>svc := (svc y)\<lparr>fs := fs_free bound (fs (svc y))\<rparr>\<rparr>)"
| timer: "runTimerTask (climit (svc y)) (fs (svc y)) = Some f \<Longrightarrow>
    feed_step L y (y\<lparr>svc := (svc y)\<lparr>fs := f\<rparr>\<rparr>)"

inductive feed_reachable :: "Lib \<Rightarrow> FeedSystem \<Rightarrow> bool" for L where
  init: "feed_reachable L system_new"
| step: "feed_reachable L y \<Longrightarrow> feed_step L y y' \<Longrightarrow> feed_reachable L y'"

definition counted :: "FeedStream \<Rightarrow> nat list \<Rightarrow> bool" where
  "counted f ls \<longleftrightarrow> map_wf (usermap f) \<and> total_count f + int (sum_list ls) = int (items (usermap f))"

lemma counted_cong:
  "counted f ls \<Longrightarrow> map fst (usermap f') = map fst (usermap f) \<Longrightarrow>
   total_count f' - int (items (usermap f')) = total_count f - int (items (usermap f)) \<Longrightarrow> counted f' ls"
  by (simp add: counted_def map_wf_def)

lemma check_order_counted:
  assumes "sorter srt" "counted f ls" shows "counted (fs_check_order srt f) ls"
proof -
  let ?g = "\<lambda>(u, md). (u, if \<not> is_order md then (md_check_order srt md)\<lparr>is_order := True\<rparr> else md)"
  have um: "usermap (fs_check_order srt f) = map ?g (usermap f)" by (simp add: fs_check_order_def)
  have "items (map ?g xs) = items xs" for xs
    by (induction xs) (auto simp: md_check_order_def sorter_simps(3) [OF assms(1)])
  moreover have "map fst (map ?g xs) = map fst xs" for xs by (induction xs) auto
  ultimately show ?thesis
    using assms(2) by (intro counted_cong [OF assms(2)]) (simp_all only: um, simp_all add: fs_check_order_def)
qed

lemma frame_counted:
  "sorter srt \<Longrightarrow> counted f ls \<Longrightarrow> counted (snd (gets_frame srt sel uids limit f)) ls"
  by (rule counted_cong) (simp_all add: gets_frame_state(1-3) [OF _ refl])

lemma put_counted:
  "counted f ls \<Longrightarrow> fs_put u d True f = (r, f') \<Longrightarrow> counted f' ls"
  using fs_put_effect(1,2,3) [of f u d True r f'] by (auto simp: counted_def split: if_splits)

lemma sum_list_inc: "i < length ls \<Longrightarrow> sum_list (ls[i := c]) + ls ! i = sum_list ls + (c :: nat)"
  using elem_le_sum_list [of i ls] by (simp add: sum_list_update)

lemma step_counted:
  assumes "feed_step L y y'" "sorter (sort_data L)" "counted (fs (svc y)) (loading y)"
  shows "counted (fs (svc y')) (loading y')"
  using assms(1)
proof cases
  case (put pad fm)
  then show ?thesis using put_counted [OF assms(3)] assms(3) by (auto simp: uf_put_def) (metis surjective_pairing)
next
  case (query userids bgn limit types flt r s)
  then show ?thesis using frame_counted [OF assms(2,3)] assms(3)
    by (auto simp: uf_getByTypesWithFilter_def get_as_filtered uf_filtered_def answer_def fs_gets_with_filter_def
        split: option.splits if_splits)
next
  case (query_less userids fid limit types flt r s)
  then show ?thesis using frame_counted [OF assms(2,3)] assms(3)
    by (auto simp: uf_getLessThanFeedid_def answer_def fs_gets_less_feedid_with_filter_def split: option.splits)
next
  case (set_limit limit)
  then show ?thesis using assms(3) by (simp add: uf_setLimit_def)
next
  case (load i pad fm r f)
  then have "counted f ((loading y)[i := (if r then Suc (loading y ! i) else loading y ! i)])"
    using assms(3) fs_put_effect(1,2,3) [of "fs (svc y)" "userid fm" "FeedMetaData_of pad fm" False r f]
      sum_list_inc [of i "loading y" "if r then Suc (loading y ! i) else loading y ! i"]
    by (auto simp: put_without_add_count_def counted_def split: if_splits)
  then show ?thesis using load by simp
next
  case (load_end i)
  then show ?thesis using assms(3) sum_list_inc [of i "loading y" 0]
    by (simp add: counted_def add_item_count_def fs_add_count_def)
next
  case order
  then show ?thesis using check_order_counted [OF assms(2,3)] by (simp add: uf_check_order_def)
next
  case (free bound)
  then show ?thesis using counted_cong [OF assms(3) fs_free_effect(1,2)] by simp
next
  case (timer f)
  then show ?thesis using runTimerTask_result assms(3) by (auto simp: evicted_to_def intro: counted_cong)
qed

lemma reachable_counted:
  "feed_reachable L y \<Longrightarrow> sorter (sort_data L) \<Longrightarrow> counted (fs (svc y)) (loading y)"
proof (induction rule: feed_reachable.induct)
  case init
  show ?case by (simp add: system_new_def UserFeeds_new_def fs_new_def counted_def map_wf_def)
next
  case (step y y')
  then show ?case using step_counted by blast
qed

text \<open>C23. In every state the service reaches, whatever the order of requests, loads, reorderings and
  evictions, the count of the service and the feeds that loading threads have yet to report add up
  to the number of feeds in the streams.\<close>

theorem feed_counts_add_up:
  assumes "feed_reachable L y" "sorter (sort_data L)"
  shows "uf_getTotalCount (svc y) + int (sum_list (loading y)) = int (items (usermap (fs (svc y))))"
  using reachable_counted [OF assms] by (simp add: counted_def uf_getTotalCount_def)

definition one_put :: FeedSystem where
  "one_put = system_new\<lparr>svc := uf_put (0, 0) \<lparr>userid = 2, feedid = 5, ftype = 502, ftime = 10, weight = 0, mergeid = 0\<rparr>
     (svc system_new)\<rparr>"

lemma one_put_reachable: "feed_reachable L one_put"
  unfolding one_put_def by (rule feed_reachable.step [OF feed_reachable.init feed_step.put])

theorem feed_counts_add_up_witness:
  "feed_reachable list_lib one_put \<and> uf_getTotalCount (svc one_put) = 1 \<and> items (usermap (fs (svc one_put))) = 1"
proof -
  have t: "uf_getTotalCount (svc one_put) = 1" and l: "sum_list (loading one_put) = 0"
    by (simp_all add: one_put_def system_new_def UserFeeds_new_def fs_new_def uf_put_def fs_put_def Let_def
        FeedMetaData_of_def md_add_def MutexData_new_def uf_getTotalCount_def)
  have "sorter (sort_data list_lib)" using list_lib_ok by (simp add: lib_ok_def)
  from feed_counts_add_up [OF one_put_reachable this] have "items (usermap (fs (svc one_put))) = 1"
    unfolding t l by simp
  with t show ?thesis using one_put_reachable by simp
qed

text \<open>C24. In every reachable state with a limit that is not negative the eviction loop ends, the count is
  then within the limit, and each stream has lost nothing but feeds at its old end.\<close>

theorem feed_eviction_returns:
  assumes "feed_reachable L y" "sorter (sort_data L)" "0 \<le> climit (svc y)"
  shows "\<exists>f. runTimerTask (climit (svc y)) (fs (svc y)) = Some f \<and> total_count f \<le> climit (svc y) \<and>
    (\<forall>u. \<exists>k. stream f u = drop k (stream (fs (svc y)) u))"
proof -
  have "total_count (fs (svc y)) \<le> int (items (usermap (fs (svc y))))"
    using reachable_counted [OF assms(1,2)] by (simp add: counted_def)
  from runTimerTask_returns [OF this assms(3)] show ?thesis
    using runTimerTask_result by (fastforce simp: evicted_to_def)
qed

theorem feed_eviction_returns_witness: "\<exists>f. runTimerTask 300000000 (fs (svc one_put)) = Some f"
proof -
  have "climit (svc one_put) = 300000000"
    by (simp add: one_put_def system_new_def UserFeeds_new_def ITEM_COUNT_LIMIT_def uf_put_def)
  then show ?thesis
    using feed_eviction_returns [OF one_put_reachable, of list_lib] list_lib_ok by (auto simp: lib_ok_def)
qed

text \<open>With a negative limit the eviction loop never ends once the loading threads have reported: it
  empties every stream and then asks for the oldest feed for ever.\<close>

lemma feed_eviction_hangs:
  assumes "feed_reachable L y" "sorter (sort_data L)" "climit (svc y) < 0" "sum_list (loading y) = 0"
  shows "runTimerTask (climit (svc y)) (fs (svc y)) = None"
proof (rule ccontr)
  assume "runTimerTask (climit (svc y)) (fs (svc y)) \<noteq> None"
  then obtain f where "evicted_to (climit (svc y)) (fs (svc y)) f" using runTimerTask_result by blast
  moreover have "total_count (fs (svc y)) = int (items (usermap (fs (svc y))))"
    using reachable_counted [OF assms(1,2)] assms(4) by (simp add: counted_def)
  ultimately show False using assms(3) by (simp add: evicted_to_def)
qed

lemma feed_eviction_hangs_witness:
  "runTimerTask (- 1) (fs (svc (system_new\<lparr>svc := uf_setLimit (- 1) (svc system_new)\<rparr>))) = None"
proof -
  let ?y = "system_new\<lparr>svc := uf_setLimit (- 1) (svc system_new)\<rparr>"
  have "feed_reachable list_lib ?y" by (rule feed_reachable.step [OF feed_reachable.init feed_step.set_limit])
  from feed_eviction_hangs [OF this] list_lib_ok show ?thesis
    by (simp add: lib_ok_def uf_setLimit_def system_new_def)
qed

section \<open>Loading\<close>












end
