(* ===== verification/Footprint.thy ===== *)
theory Footprint
  imports OcePrelude
begin

text \<open>
  The visitors of a page, \<^verbatim>\<open>app/FootprintUnite/share/FootprintShare.h\<close>: sets of footprints in order of the last
  visit, their form in the database and the daily limit of counted visits. The sets are kept in a
  \<open>boost::circular_buffer\<close>, which is an argument: the record \<open>CB\<close> of its operations, with what its
  documentation promises as the predicate \<open>cb_ok\<close>. The clock is an argument of the operations that
  read it. The four bytes of an \<open>int\<close> are written in the order of the machine, least significant first.
\<close>

section \<open>The circular buffer\<close>

record ('b, 't) CB =
  cb_new :: "nat \<Rightarrow> 'b"
  cb_list :: "'b \<Rightarrow> 't list"
  cb_capacity :: "'b \<Rightarrow> nat"
  cb_full :: "'b \<Rightarrow> bool"
  cb_push_back :: "'t \<Rightarrow> 'b \<Rightarrow> 'b"
  cb_push_front :: "'t \<Rightarrow> 'b \<Rightarrow> 'b"
  cb_erase :: "nat \<Rightarrow> 'b \<Rightarrow> 'b"
  cb_clear :: "'b \<Rightarrow> 'b"

text \<open>A full buffer that is extended at one end loses the element at the other end.\<close>

definition cb_ok :: "('b, 't) CB \<Rightarrow> bool" where
  "cb_ok C \<longleftrightarrow>
     (\<forall>n. cb_list C (cb_new C n) = [] \<and> cb_capacity C (cb_new C n) = n) \<and>
     (\<forall>b. length (cb_list C b) \<le> cb_capacity C b \<and> (cb_full C b \<longleftrightarrow> length (cb_list C b) = cb_capacity C b)) \<and>
     (\<forall>x b. cb_capacity C (cb_push_back C x b) = cb_capacity C b \<and>
        cb_list C (cb_push_back C x b) =
          drop (Suc (length (cb_list C b)) - cb_capacity C b) (cb_list C b @ [x])) \<and>
     (\<forall>x b. cb_capacity C (cb_push_front C x b) = cb_capacity C b \<and>
        cb_list C (cb_push_front C x b) = take (cb_capacity C b) (x # cb_list C b)) \<and>
     (\<forall>i b. cb_capacity C (cb_erase C i b) = cb_capacity C b \<and>
        cb_list C (cb_erase C i b) = take i (cb_list C b) @ drop (Suc i) (cb_list C b)) \<and>
     (\<forall>b. cb_capacity C (cb_clear C b) = cb_capacity C b \<and> cb_list C (cb_clear C b) = [])"

section \<open>Footprints and their form in the database\<close>

record BaseStep =
  visitor :: int
  timestamp :: int

record HomeStep = BaseStep +
  gid :: int

definition VALID :: int where "VALID = 0"
definition VISITSHORT :: int where "VISITSHORT = 1"
definition REACHLIMIT :: int where "REACHLIMIT = 2"
definition NOVISITCOUNTINTERVAL :: int where "NOVISITCOUNTINTERVAL = 60 * 10"
definition VIEW_COUNT_LIMIT :: int where "VIEW_COUNT_LIMIT = 500"
definition CACHE_SIZE :: int where "CACHE_SIZE = 9"
definition CACHE_BUF_SIZE :: int where "CACHE_BUF_SIZE = 39"
definition MIN_LIMIT :: int where "MIN_LIMIT = 200000000"

fun bytes_ints :: "int list \<Rightarrow> int list" where
  "bytes_ints (a # b # c # d # bs) = to_int32 (a + 256 * b + 65536 * c + 16777216 * d) # bytes_ints bs"
| "bytes_ints _ = []"

text \<open>Times below \<open>MIN_LIMIT\<close> are minutes of an older format.\<close>

definition in_seconds :: "int \<Rightarrow> int" where
  "in_seconds t = (if t < MIN_LIMIT then to_int32 (t * 60) else t)"

definition serialize_base :: "BaseStep list \<Rightarrow> int list" where
  "serialize_base seq = concat (map int_bytes (concat (map (\<lambda>s. [visitor s, in_seconds (timestamp s)]) seq)))"

definition serialize_home :: "HomeStep list \<Rightarrow> int list" where
  "serialize_home seq = concat (map int_bytes (concat (map (\<lambda>s.
     [visitor s, to_int32 (drop_bit 32 (gid s)), gid s AND 0x7FFFFFFF, in_seconds (timestamp s)]) seq)))"

fun base_steps :: "int list \<Rightarrow> BaseStep list" where
  "base_steps (v # t # is) =
     (if v > 0 \<and> t > 0 then [\<lparr>visitor = v, timestamp = t\<rparr>] else []) @ base_steps is"
| "base_steps _ = []"

fun home_steps :: "int list \<Rightarrow> HomeStep list" where
  "home_steps (v # hi # lo # t # is) =
     (let g = hi * 2 ^ 32 + lo in
      (if v > 0 \<and> t > 0 \<and> g > 0 then [\<lparr>visitor = v, timestamp = t, gid = g\<rparr>] else [])) @ home_steps is"
| "home_steps _ = []"

fun old_steps :: "int \<Rightarrow> int list \<Rightarrow> HomeStep list" where
  "old_steps owner (v # t # is) =
     (if v > 0 \<and> t > 0 \<and> owner > 0 then [\<lparr>visitor = v, timestamp = t, gid = owner\<rparr>] else []) @ old_steps owner is"
| "old_steps owner _ = []"

section \<open>Sets of footprints\<close>

definition find_visitor :: "int \<Rightarrow> 'a BaseStep_scheme list \<Rightarrow> nat" where
  "find_visitor v xs = length (takeWhile (\<lambda>s. visitor s \<noteq> v) xs)"

definition set_getSize :: "('b, 't) CB \<Rightarrow> 'b \<Rightarrow> nat" where
  "set_getSize C b = length (cb_list C b)"

definition set_getAll :: "('b, 't) CB \<Rightarrow> 'b \<Rightarrow> 't list" where
  "set_getAll C b = cb_list C b"

fun get_loop :: "nat \<Rightarrow> int \<Rightarrow> 'a BaseStep_scheme list \<Rightarrow> 'a BaseStep_scheme list" where
  "get_loop limit t [] = []"
| "get_loop limit t (x # xs) =
     (if limit = 0 \<or> t > 0 \<and> timestamp x < t then [] else x # get_loop (limit - 1) t xs)"

definition set_get :: "('b, 'a BaseStep_scheme) CB \<Rightarrow> int \<Rightarrow> int \<Rightarrow> int \<Rightarrow> 'b \<Rightarrow> 'a BaseStep_scheme list" where
  "set_get C begin limit t b =
     (let xs = cb_list C b in
      if begin < 0 \<or> begin \<ge> int (length xs) \<or> limit < 0 then []
      else get_loop (nat (min limit (int (length xs) - begin))) t (drop (nat begin) xs))"

definition set_push_back :: "('b, 't) CB \<Rightarrow> 't \<Rightarrow> 'b \<Rightarrow> bool \<times> 'b" where
  "set_push_back C p b = (if \<not> cb_full C b then (True, cb_push_back C p b) else (False, b))"

definition set_getTop :: "('b, 't) CB \<Rightarrow> 'b \<Rightarrow> 't option" where
  "set_getTop C b = (case cb_list C b of [] \<Rightarrow> None | x # _ \<Rightarrow> Some x)"

definition set_remove :: "('b, 'a BaseStep_scheme) CB \<Rightarrow> int \<Rightarrow> 'b \<Rightarrow> bool \<times> 'b" where
  "set_remove C v b =
     (let pos = find_visitor v (cb_list C b) in
      if pos < length (cb_list C b) then (True, cb_erase C pos b) else (False, b))"

definition set_add :: "('b, 'a BaseStep_scheme) CB \<Rightarrow> int \<Rightarrow> 'a BaseStep_scheme \<Rightarrow> 'b \<Rightarrow> 'b" where
  "set_add C now p b = cb_push_front C (p\<lparr>timestamp := to_int32 now\<rparr>) (snd (set_remove C (visitor p) b))"

definition set_clear :: "('b, 't) CB \<Rightarrow> 'b \<Rightarrow> 'b" where
  "set_clear C b = cb_clear C b"

definition set_set :: "('b, BaseStep) CB \<Rightarrow> int list \<Rightarrow> 'b \<Rightarrow> 'b" where
  "set_set C bytes b = foldl (\<lambda>b s. cb_push_back C s b) b (base_steps (bytes_ints bytes))"

section \<open>The set of a home page\<close>

record 'b HomeFootprintSet =
  fbuf :: 'b
  ownerId :: int
  viewCountLimitTime :: int
  viewCountLimtCount :: int

definition home_new :: "('b, HomeStep) CB \<Rightarrow> int \<Rightarrow> nat \<Rightarrow> 'b HomeFootprintSet" where
  "home_new C now num = \<lparr>fbuf = cb_new C num, ownerId = 0, viewCountLimitTime = now div (24 * 60 * 60) * (24 * 60 * 60),
     viewCountLimtCount = 0\<rparr>"

definition home_of_history :: "('b, HomeStep) CB \<Rightarrow> int \<Rightarrow> int \<times> HomeStep list \<Rightarrow> nat \<Rightarrow> 'b HomeFootprintSet" where
  "home_of_history C now h num =
     (let s = home_new C now num
      in s\<lparr>fbuf := foldl (\<lambda>b x. cb_push_back C x b) (fbuf s) (snd h), ownerId := fst h\<rparr>)"

definition parseTo :: "('b, HomeStep) CB \<Rightarrow> 'b HomeFootprintSet \<Rightarrow> int \<times> HomeStep list" where
  "parseTo C s = (ownerId s, cb_list C (fbuf s))"

definition isReachViewCountLimit :: "int \<Rightarrow> 'b HomeFootprintSet \<Rightarrow> int \<times> 'b HomeFootprintSet" where
  "isReachViewCountLimit now s =
     (let c = viewCountLimtCount s; s = s\<lparr>viewCountLimtCount := to_int32 (c + 1)\<rparr> in
      if c < VIEW_COUNT_LIMIT then (VALID, s)
      else if now - viewCountLimitTime s > 24 * 60 * 60
      then (VALID, s\<lparr>viewCountLimitTime := now div (24 * 60 * 60) * 24 * 60 * 60, viewCountLimtCount := 0\<rparr>)
      else (REACHLIMIT, s))"

text \<open>The first component of the pair that \<open>add\<close> fills is a \<open>bool\<close>.\<close>

definition as_bool :: "int \<Rightarrow> int" where
  "as_bool x = (if x \<noteq> 0 then 1 else 0)"

definition home_add :: "('b, HomeStep) CB \<Rightarrow> int \<Rightarrow> HomeStep \<Rightarrow> bool \<Rightarrow> 'b HomeFootprintSet
    \<Rightarrow> (int \<times> HomeStep option) \<times> 'b HomeFootprintSet" where
  "home_add C now fpt ignoreLimit s =
     (let xs = cb_list C (fbuf s); pos = find_visitor (visitor fpt) xs;
          found = pos < length xs;
          first = (if found \<and> to_int32 (now - timestamp (xs ! pos)) < NOVISITCOUNTINTERVAL
                   then as_bool VISITSHORT else as_bool VALID);
          second = (if \<not> found \<and> cb_full C (fbuf s) then Some (last xs) else None);
          b = (if found then cb_erase C pos (fbuf s) else fbuf s);
          s = s\<lparr>fbuf := cb_push_front C fpt b\<rparr>
      in if ignoreLimit \<or> first \<noteq> 0 then ((first, second), s)
         else let (r, s) = isReachViewCountLimit now s in ((as_bool r, second), s))"

definition home_set :: "('b, HomeStep) CB \<Rightarrow> int list \<Rightarrow> 'b HomeFootprintSet \<Rightarrow> 'b HomeFootprintSet" where
  "home_set C bytes s = s\<lparr>fbuf := foldl (\<lambda>b x. cb_push_back C x b) (fbuf s) (home_steps (bytes_ints bytes))\<rparr>"

definition home_setOld :: "('b, HomeStep) CB \<Rightarrow> int \<Rightarrow> int list \<Rightarrow> 'b HomeFootprintSet \<Rightarrow> 'b HomeFootprintSet" where
  "home_setOld C owner bytes s =
     s\<lparr>fbuf := foldl (\<lambda>b x. cb_push_back C x b) (fbuf s) (old_steps owner (bytes_ints bytes))\<rparr>"

definition home_remove :: "('b, HomeStep) CB \<Rightarrow> int \<Rightarrow> 'b HomeFootprintSet \<Rightarrow> bool \<times> 'b HomeFootprintSet" where
  "home_remove C v s = (let (r, b) = set_remove C v (fbuf s) in (r, s\<lparr>fbuf := b\<rparr>))"

section \<open>The operations on the list of footprints\<close>

abbreviation without :: "int \<Rightarrow> 'a BaseStep_scheme list \<Rightarrow> 'a BaseStep_scheme list" where
  "without v xs \<equiv> filter (\<lambda>s. visitor s \<noteq> v) xs"

abbreviation visitors :: "'a BaseStep_scheme list \<Rightarrow> int list" where
  "visitors xs \<equiv> map visitor xs"

lemma find_visitor_found: "find_visitor v xs < length xs \<longleftrightarrow> v \<in> set (visitors xs)"
  by (induction xs) (auto simp: find_visitor_def)

lemma without_absent: "v \<notin> set (visitors xs) \<Longrightarrow> without v xs = xs"
  by (auto simp: filter_id_conv)

lemma find_visitor_erase:
  "distinct (visitors xs) \<Longrightarrow> take (find_visitor v xs) xs @ drop (Suc (find_visitor v xs)) xs = without v xs"
proof (induction xs)
  case (Cons x xs)
  then show ?case using without_absent [of v xs] by (cases "visitor x = v") (auto simp: find_visitor_def)
qed simp

lemma cb_laws:
  assumes "cb_ok C"
  shows "cb_list C (cb_new C n) = []" "cb_capacity C (cb_new C n) = n"
    "length (cb_list C b) \<le> cb_capacity C b" "cb_full C b \<longleftrightarrow> length (cb_list C b) = cb_capacity C b"
    "cb_capacity C (cb_push_back C x b) = cb_capacity C b"
    "\<not> cb_full C b \<Longrightarrow> cb_list C (cb_push_back C x b) = cb_list C b @ [x]"
    "cb_capacity C (cb_push_front C x b) = cb_capacity C b"
    "cb_list C (cb_push_front C x b) = take (cb_capacity C b) (x # cb_list C b)"
    "cb_capacity C (cb_erase C i b) = cb_capacity C b"
    "cb_list C (cb_erase C i b) = take i (cb_list C b) @ drop (Suc i) (cb_list C b)"
proof -
  assume "\<not> cb_full C b"
  then have "Suc (length (cb_list C b)) - cb_capacity C b = 0"
    using assms by (simp add: cb_ok_def) (meson Suc_leI order_le_neq_trans)
  moreover have "cb_list C (cb_push_back C x b) =
      drop (Suc (length (cb_list C b)) - cb_capacity C b) (cb_list C b @ [x])" using assms by (simp add: cb_ok_def)
  ultimately show "cb_list C (cb_push_back C x b) = cb_list C b @ [x]" by simp
qed (use assms in \<open>simp_all add: cb_ok_def\<close>)

lemma set_remove_list:
  assumes "cb_ok C" "distinct (visitors (cb_list C b))" "set_remove C v b = (r, b')"
  shows "cb_list C b' = without v (cb_list C b)" "cb_capacity C b' = cb_capacity C b"
    "r \<longleftrightarrow> v \<in> set (visitors (cb_list C b))"
proof -
  have "r \<longleftrightarrow> v \<in> set (visitors (cb_list C b))" "b' = (if r then cb_erase C (find_visitor v (cb_list C b)) b else b)"
    using assms(3) find_visitor_found [of v "cb_list C b"] by (auto simp: set_remove_def Let_def split: if_splits)
  then show "r \<longleftrightarrow> v \<in> set (visitors (cb_list C b))" "cb_list C b' = without v (cb_list C b)"
    "cb_capacity C b' = cb_capacity C b"
    using find_visitor_erase [OF assms(2)] without_absent [of v "cb_list C b"]
    by (auto simp: cb_laws(9,10) [OF assms(1)])
qed

lemma home_add_list:
  assumes "cb_ok C" "distinct (visitors (cb_list C (fbuf s)))" "home_add C now fpt ig s = ((st, ev), s')"
  defines "xs \<equiv> cb_list C (fbuf s)" and "cap \<equiv> cb_capacity C (fbuf s)"
  shows "cb_list C (fbuf s') = take cap (fpt # without (visitor fpt) xs)" "cb_capacity C (fbuf s') = cap"
    "ev = (if visitor fpt \<notin> set (visitors xs) \<and> length xs = cap then Some (last xs) else None)"
    "st = VALID \<or> st = VISITSHORT"
proof -
  let ?v = "visitor fpt" and ?pos = "find_visitor (visitor fpt) xs"
  let ?b = "if ?pos < length xs then cb_erase C ?pos (fbuf s) else fbuf s"
  have b: "cb_list C ?b = without ?v xs" "cb_capacity C ?b = cap"
    using find_visitor_erase [OF assms(2), of ?v] without_absent [of ?v xs] find_visitor_found [of ?v xs]
    by (auto simp: cb_laws(9,10) [OF assms(1)] xs_def cap_def)
  have s': "fbuf s' = cb_push_front C fpt ?b"
    and ev: "ev = (if \<not> ?pos < length xs \<and> cb_full C (fbuf s) then Some (last xs) else None)"
    and st: "st \<in> {0, 1}"
    using assms(3) by (auto simp: home_add_def Let_def xs_def as_bool_def isReachViewCountLimit_def VISITSHORT_def
        VALID_def split: if_splits prod.splits)
  show "cb_list C (fbuf s') = take cap (fpt # without ?v xs)" "cb_capacity C (fbuf s') = cap"
    using b by (simp_all add: s' cb_laws(7,8) [OF assms(1)])
  show "ev = (if ?v \<notin> set (visitors xs) \<and> length xs = cap then Some (last xs) else None)"
    using find_visitor_found [of ?v xs] by (simp add: ev cb_laws(4) [OF assms(1)] xs_def cap_def)
  show "st = VALID \<or> st = VISITSHORT" using st by (simp add: VALID_def VISITSHORT_def)
qed

section \<open>The form in the database\<close>

lemma bytes_int: "- (2 ^ 31) \<le> x \<Longrightarrow> x < 2 ^ 31 \<Longrightarrow> bytes_ints (int_bytes x @ bs) = x # bytes_ints bs"
  using int_bytes_value [of x] by (simp only: int_bytes_def append.simps bytes_ints.simps)

lemma bytes_ints_concat:
  "\<forall>x \<in> set is. - (2 ^ 31) \<le> x \<and> x < 2 ^ 31 \<Longrightarrow> bytes_ints (concat (map int_bytes is)) = is"
  by (induction "is") (simp_all add: bytes_int)

definition storable :: "HomeStep \<Rightarrow> bool" where
  "storable s \<longleftrightarrow> 0 < visitor s \<and> visitor s < 2 ^ 31 \<and> MIN_LIMIT \<le> timestamp s \<and> timestamp s < 2 ^ 31 \<and>
     0 < gid s \<and> gid s < 2 ^ 63 \<and> \<not> bit (gid s) 31"

lemma gid_halves:
  assumes "storable s"
  shows "to_int32 (drop_bit 32 (gid s)) * 2 ^ 32 + (gid s AND 0x7FFFFFFF) = gid s"
    "0 \<le> to_int32 (drop_bit 32 (gid s))" "to_int32 (drop_bit 32 (gid s)) < 2 ^ 31"
    "0 \<le> gid s AND 0x7FFFFFFF" "gid s AND 0x7FFFFFFF < 2 ^ 31"
proof -
  have hi: "0 \<le> drop_bit 32 (gid s)" "drop_bit 32 (gid s) < 2 ^ 31"
    using assms by (auto simp: storable_def drop_bit_eq_div)
  then have w: "to_int32 (drop_bit 32 (gid s)) = drop_bit 32 (gid s)"
    by (intro to_int32_id order_trans [OF _ hi(1)]) simp_all
  have lo: "gid s AND 0x7FFFFFFF = take_bit 31 (gid s)"
    by (simp add: take_bit_eq_mask mask_eq_exp_minus_1)
  have "take_bit 32 (gid s) = take_bit 31 (gid s)"
  proof (rule bit_eqI)
    fix n
    show "bit (take_bit 32 (gid s)) n = bit (take_bit 31 (gid s)) n"
      using assms by (cases "n = 31") (auto simp: bit_take_bit_iff storable_def)
  qed
  then show "to_int32 (drop_bit 32 (gid s)) * 2 ^ 32 + (gid s AND 0x7FFFFFFF) = gid s"
    unfolding w lo using bits_ident [of 32 "gid s"] by (simp add: push_bit_eq_mult)
  show "0 \<le> to_int32 (drop_bit 32 (gid s))" "to_int32 (drop_bit 32 (gid s)) < 2 ^ 31" using hi w by simp_all
  show "0 \<le> gid s AND 0x7FFFFFFF" "gid s AND 0x7FFFFFFF < 2 ^ 31" unfolding lo by (simp, rule take_bit_int_less_exp)
qed

lemma home_steps_serialize:
  assumes "\<forall>s \<in> set seq. storable s"
  shows "home_steps (bytes_ints (serialize_home seq)) = seq"
proof -
  let ?f = "\<lambda>s. [visitor s, to_int32 (drop_bit 32 (gid s)), gid s AND 0x7FFFFFFF, in_seconds (timestamp s)]"
  have t: "in_seconds (timestamp s) = timestamp s" if "storable s" for s
    using that by (simp add: in_seconds_def storable_def)
  have range: "\<forall>x \<in> set (?f s). - (2 ^ 31) \<le> x \<and> x < 2 ^ 31" if "storable s" for s
  proof -
    have "- (2 ^ 31) \<le> gid s AND 0x7FFFFFFF" by (rule order_trans [OF _ gid_halves(4) [OF that]]) simp
    with gid_halves [OF that] that show ?thesis by (auto simp: t storable_def MIN_LIMIT_def)
  qed
  have "bytes_ints (serialize_home seq) = concat (map ?f seq)"
    unfolding serialize_home_def using assms range by (intro bytes_ints_concat) fastforce
  moreover have "home_steps (?f s @ is) = s # home_steps is" if "storable s" for s "is"
    using gid_halves(1) [OF that] that by (simp add: t storable_def MIN_LIMIT_def Let_def)
  then have "home_steps (concat (map ?f seq)) = seq" using assms by (induction seq) auto
  ultimately show ?thesis by simp
qed

lemma push_back_all:
  assumes "cb_ok C" "length (cb_list C b) + length xs \<le> cb_capacity C b"
  shows "cb_list C (foldl (\<lambda>b x. cb_push_back C x b) b xs) = cb_list C b @ xs"
  using assms(2)
proof (induction xs arbitrary: b)
  case (Cons x xs)
  then have "\<not> cb_full C b" by (simp add: cb_laws(4) [OF assms(1)])
  then show ?case using Cons by (simp add: cb_laws(5,6) [OF assms(1)])
qed simp

section \<open>Properties\<close>

text \<open>A circular buffer over lists, for the examples.\<close>

definition list_cb :: "(nat \<times> 't list, 't) CB" where
  "list_cb = \<lparr>cb_new = (\<lambda>n. (n, [])), cb_list = (\<lambda>(n, xs). take n xs), cb_capacity = fst,
     cb_full = (\<lambda>(n, xs). length (take n xs) = n),
     cb_push_back = (\<lambda>x (n, xs). (n, drop (Suc (length (take n xs)) - n) (take n xs @ [x]))),
     cb_push_front = (\<lambda>x (n, xs). (n, x # take n xs)),
     cb_erase = (\<lambda>i (n, xs). (n, take i (take n xs) @ drop (Suc i) (take n xs))),
     cb_clear = (\<lambda>(n, xs). (n, []))\<rparr>"

lemma list_cb_ok: "cb_ok list_cb"
  unfolding cb_ok_def list_cb_def by (auto simp: take_Cons' split: nat.split)

definition step_at :: "int \<Rightarrow> int \<Rightarrow> HomeStep" where
  "step_at v t = \<lparr>visitor = v, timestamp = t, gid = v\<rparr>"

text \<open>C40. A list of footprints that is saved and loaded again is the same list: every one with an owner and a visitor of
  positive numbers, a time in seconds and a page number below \<open>2 ^ 63\<close> whose bit 31 is clear.
\<close>

theorem footprint_roundtrip:
  assumes "cb_ok C" "\<forall>s \<in> set seq. storable s" "length seq \<le> num"
  shows "parseTo C (home_set C (serialize_home seq) (home_new C now num)) = (0, seq)"
  using assms home_steps_serialize [OF assms(2)]
  by (simp add: parseTo_def home_set_def home_new_def push_back_all cb_laws)

theorem footprint_roundtrip_witness:
  "parseTo list_cb (home_set list_cb (serialize_home [step_at 5 1300000000, step_at 7 1300000001]) (home_new list_cb 0 9)) =
     (0, [step_at 5 1300000000, step_at 7 1300000001])"
  by (rule footprint_roundtrip [OF list_cb_ok])
    (simp_all add: storable_def step_at_def MIN_LIMIT_def bit_iff_odd)

text \<open>Bit 31 of a page number is lost.\<close>

lemma gid_bit_lost: "map gid (home_steps (bytes_ints (serialize_home [\<lparr>visitor = 1, timestamp = 1300000000, gid = 2 ^ 32 + 2 ^ 31\<rparr>]))) = [2 ^ 32]"
  by code_simp

primrec limit_answers :: "int list \<Rightarrow> 'b HomeFootprintSet \<Rightarrow> int list" where
  "limit_answers [] s = []"
| "limit_answers (t # ts) s = (let (r, s) = isReachViewCountLimit t s in r # limit_answers ts s)"

text \<open>Within the day of a page's counter, as many visits count as are left of the five hundred, and all later ones
  reach the limit.
\<close>

lemma view_count_capped:
  assumes "\<forall>t \<in> set ts. t - viewCountLimitTime s \<le> 24 * 60 * 60" "0 \<le> viewCountLimtCount s"
    "viewCountLimtCount s + int (length ts) < 2 ^ 31"
  shows "limit_answers ts s = replicate (min (length ts) (nat (500 - viewCountLimtCount s))) VALID @
    replicate (length ts - nat (500 - viewCountLimtCount s)) REACHLIMIT"
  using assms
proof (induction ts arbitrary: s)
  case (Cons t ts)
  let ?c = "viewCountLimtCount s"
  let ?s = "s\<lparr>viewCountLimtCount := ?c + 1\<rparr>"
  have "to_int32 (?c + 1) = ?c + 1" using Cons.prems by (intro to_int32_id) simp_all
  then have "isReachViewCountLimit t s = (if ?c < 500 then VALID else REACHLIMIT, ?s)"
    using Cons.prems(1) by (simp add: isReachViewCountLimit_def VIEW_COUNT_LIMIT_def Let_def)
  moreover have "limit_answers ts ?s = replicate (min (length ts) (nat (500 - (?c + 1)))) VALID @
      replicate (length ts - nat (500 - (?c + 1))) REACHLIMIT" using Cons.IH [of ?s] Cons.prems by simp
  moreover have "nat (500 - ?c) = (if ?c < 500 then Suc (nat (500 - (?c + 1))) else 0)" by auto
  ultimately show ?case by auto
qed simp

lemma view_count_capped_witness:
  "limit_answers [1300000000, 1300000001]
     \<lparr>fbuf = (), ownerId = 1, viewCountLimitTime = 1299974400, viewCountLimtCount = 499\<rparr> = [VALID, REACHLIMIT]"
  using view_count_capped [of "[1300000000, 1300000001]" "\<lparr>fbuf = (), ownerId = 1, viewCountLimitTime = 1299974400, viewCountLimtCount = 499\<rparr>"]
  by simp

end
