(* ===== verification/HomeFootprint.thy ===== *)
theory HomeFootprint
  imports Footprint
begin

text \<open>
  The server of the visitors of home pages, \<^verbatim>\<open>app/FootprintUnite/HomeFootprint/HomeFootprintCacheI.{h,cpp}\<close>.
  The nine newest footprints of a page are its head, the next thirty-nine its body. A request changes
  the head at once and leaves the change of the body to the evictor thread, in the queue
  \<open>to_be_evictor\<close> of the owner (1 adds a footprint, 2 removes one, 3 fills the head from the body). Save
  threads write heads and bodies to the database; the object caches load them on demand. Owners are
  keys of every map of the state, so that the threads of different owners do not meet. What a request
  meets in its surroundings (the clock, and whether a query on a table succeeds) is the record \<open>Env\<close>.
\<close>

section \<open>State\<close>

record Env =
  now :: int
  head_read :: bool
  body_read :: bool
  count_read :: bool
  count_default :: int

record 'b HFC =
  FS :: "int \<Rightarrow> 'b HomeFootprintSet option"
  SFS :: "int \<Rightarrow> 'b HomeFootprintSet option"
  UVC :: "int \<Rightarrow> int option"
  head_rows :: "int \<Rightarrow> int list option"
  body_rows :: "int \<Rightarrow> int list option"
  count_rows :: "int \<Rightarrow> int list"
  to_be_evictor :: "int \<Rightarrow> (HomeStep option \<times> int) list"
  fptnSet :: "int set"
  fptnBufSet :: "int set"
  owners :: "int set"
  load_tasks :: "int set"
  replica_counts :: "int \<Rightarrow> int option"
  batch_updates :: "int list"
  limit_notices :: "int list"

section \<open>Loading from the database\<close>

definition FootprintFactory_create :: "('b, HomeStep) CB \<Rightarrow> Env \<Rightarrow> int \<Rightarrow> 'b HFC \<Rightarrow> 'b HomeFootprintSet option" where
  "FootprintFactory_create C E uid \<sigma> =
     (if head_read E
      then let obj = home_new C (now E) (nat CACHE_SIZE)
           in Some (case head_rows \<sigma> uid of None \<Rightarrow> obj | Some bytes \<Rightarrow> home_set C bytes obj)
      else None)"

definition FootprintBufFactory_create :: "('b, HomeStep) CB \<Rightarrow> Env \<Rightarrow> int \<Rightarrow> 'b HFC \<Rightarrow> 'b HomeFootprintSet option" where
  "FootprintBufFactory_create C E uid \<sigma> =
     (if body_read E
      then let obj = home_new C (now E) (nat CACHE_BUF_SIZE)
           in Some (case body_rows \<sigma> uid of None \<Rightarrow> obj | Some bytes \<Rightarrow> home_set C bytes obj)
      else None)"

text \<open>Several counts of one user are deleted and one row is inserted, which has no count.\<close>

definition UserVisitCountFactory_create :: "Env \<Rightarrow> int \<Rightarrow> 'b HFC \<Rightarrow> int option \<times> 'b HFC" where
  "UserVisitCountFactory_create E uid \<sigma> =
     (if \<not> count_read E then (None, \<sigma>)
      else case count_rows \<sigma> uid of
        [] \<Rightarrow> (None, \<sigma>\<lparr>count_rows := (count_rows \<sigma>)(uid := [count_default E]),
                   replica_counts := (replica_counts \<sigma>)(uid := Some 0)\<rparr>)
      | [c] \<Rightarrow> (Some c, \<sigma>)
      | c # d # cs \<Rightarrow> (Some c, \<sigma>\<lparr>count_rows := (count_rows \<sigma>)(uid := [count_default E]),
                          replica_counts := (replica_counts \<sigma>)(uid := Some (last (d # cs)))\<rparr>))"

definition getFootprintSet :: "('b, HomeStep) CB \<Rightarrow> Env \<Rightarrow> int \<Rightarrow> 'b HFC \<Rightarrow> 'b HomeFootprintSet option \<times> 'b HFC" where
  "getFootprintSet C E uid \<sigma> =
     (case FS \<sigma> uid of
        Some p \<Rightarrow> (Some p, \<sigma>)
      | None \<Rightarrow> let r = FootprintFactory_create C E uid \<sigma> in (r, \<sigma>\<lparr>FS := (FS \<sigma>)(uid := r)\<rparr>))"

definition getFootprintBufSet :: "('b, HomeStep) CB \<Rightarrow> Env \<Rightarrow> int \<Rightarrow> 'b HFC \<Rightarrow> 'b HomeFootprintSet option \<times> 'b HFC" where
  "getFootprintBufSet C E uid \<sigma> =
     (case SFS \<sigma> uid of
        Some p \<Rightarrow> (Some p, \<sigma>)
      | None \<Rightarrow> let r = FootprintBufFactory_create C E uid \<sigma> in (r, \<sigma>\<lparr>SFS := (SFS \<sigma>)(uid := r)\<rparr>))"

definition locateUserVisitCount :: "Env \<Rightarrow> int \<Rightarrow> 'b HFC \<Rightarrow> int option \<times> 'b HFC" where
  "locateUserVisitCount E uid \<sigma> =
     (case UVC \<sigma> uid of
        Some c \<Rightarrow> (Some c, \<sigma>)
      | None \<Rightarrow> let (r, \<sigma>) = UserVisitCountFactory_create E uid \<sigma> in (r, \<sigma>\<lparr>UVC := (UVC \<sigma>)(uid := r)\<rparr>))"

text \<open>The task that loads a body puts it into the cache, whatever is there.\<close>

definition LoadBufSetTask_handle :: "('b, HomeStep) CB \<Rightarrow> Env \<Rightarrow> int \<Rightarrow> 'b HFC \<Rightarrow> 'b HFC" where
  "LoadBufSetTask_handle C E uid \<sigma> =
     (let \<sigma> = \<sigma>\<lparr>load_tasks := load_tasks \<sigma> - {uid}\<rparr> in
      case FootprintBufFactory_create C E uid \<sigma> of None \<Rightarrow> \<sigma> | Some p \<Rightarrow> \<sigma>\<lparr>SFS := (SFS \<sigma>)(uid := Some p)\<rparr>)"

section \<open>Visit counts\<close>

definition getUserVisitCount :: "Env \<Rightarrow> int \<Rightarrow> 'b HFC \<Rightarrow> int \<times> 'b HFC" where
  "getUserVisitCount E uid \<sigma> =
     (let (p, \<sigma>) = locateUserVisitCount E uid \<sigma> in
      case p of
        None \<Rightarrow> (0, \<sigma>)
      | Some c \<Rightarrow> if c \<le> 0 then (0, \<sigma>\<lparr>owners := insert uid (owners \<sigma>)\<rparr>) else (c, \<sigma>))"

definition incUserVisitCount :: "Env \<Rightarrow> int \<Rightarrow> 'b HFC \<Rightarrow> 'b HFC" where
  "incUserVisitCount E uid \<sigma> =
     (let (p, \<sigma>) = locateUserVisitCount E uid \<sigma> in
      case p of
        None \<Rightarrow> \<sigma>\<lparr>batch_updates := batch_updates \<sigma> @ [uid]\<rparr>
      | Some c \<Rightarrow> \<sigma>\<lparr>UVC := (UVC \<sigma>)(uid := Some (to_int32 (c + 1)))\<rparr>)"

primrec incUserVisitCountBatch :: "Env \<Rightarrow> int list \<Rightarrow> int \<Rightarrow> 'b HFC \<Rightarrow> 'b HFC" where
  "incUserVisitCountBatch E [] count \<sigma> = \<sigma>"
| "incUserVisitCountBatch E (uid # ids) count \<sigma> =
     (let (p, \<sigma>) = locateUserVisitCount E uid \<sigma> in
      incUserVisitCountBatch E ids count
        (case p of None \<Rightarrow> \<sigma> | Some c \<Rightarrow> \<sigma>\<lparr>UVC := (UVC \<sigma>)(uid := Some (to_int32 (c + count)))\<rparr>))"

definition setUserVisitCount :: "int \<Rightarrow> int \<Rightarrow> 'b HFC \<Rightarrow> 'b HFC" where
  "setUserVisitCount uid count \<sigma> =
     (if count < 0 then \<sigma>
      else let \<sigma> = \<sigma>\<lparr>count_rows := (count_rows \<sigma>)(uid := map (\<lambda>_. count) (count_rows \<sigma> uid)),
                      replica_counts := (replica_counts \<sigma>)(uid := Some count)\<rparr>
           in case UVC \<sigma> uid of None \<Rightarrow> \<sigma> | Some _ \<Rightarrow> \<sigma>\<lparr>UVC := (UVC \<sigma>)(uid := Some count)\<rparr>)"

section \<open>Requests\<close>

definition evictor_put :: "int \<Rightarrow> HomeStep option \<Rightarrow> int \<Rightarrow> 'b HFC \<Rightarrow> 'b HFC" where
  "evictor_put owner step state \<sigma> =
     \<sigma>\<lparr>to_be_evictor := (to_be_evictor \<sigma>)(owner := to_be_evictor \<sigma> owner @ [(step, state)])\<rparr>"

definition save_put :: "int \<Rightarrow> 'b HFC \<Rightarrow> 'b HFC" where
  "save_put owner \<sigma> = \<sigma>\<lparr>fptnSet := insert owner (fptnSet \<sigma>)\<rparr>"

definition saveBuf_put :: "int \<Rightarrow> 'b HFC \<Rightarrow> 'b HFC" where
  "saveBuf_put owner \<sigma> = \<sigma>\<lparr>fptnBufSet := insert owner (fptnBufSet \<sigma>)\<rparr>"

definition visit :: "('b, HomeStep) CB \<Rightarrow> Env \<Rightarrow> int \<Rightarrow> HomeStep \<Rightarrow> bool \<Rightarrow> 'b HFC \<Rightarrow> 'b HFC" where
  "visit C E owner fpt nowriteviewcount \<sigma> =
     (let (p, \<sigma>) = getFootprintSet C E owner \<sigma> in
      case p of
        None \<Rightarrow> \<sigma>
      | Some p \<Rightarrow>
          let (state, p) = home_add C (now E) fpt False p;
              \<sigma> = \<sigma>\<lparr>FS := (FS \<sigma>)(owner := Some p)\<rparr>;
              \<sigma> = (case snd state of None \<Rightarrow> \<sigma> | Some x \<Rightarrow> evictor_put owner (Some x) 1 \<sigma>);
              \<sigma> = evictor_put owner (Some fpt) 2 \<sigma>;
              \<sigma> = save_put owner \<sigma>
          in if fst state = VALID
             then if nowriteviewcount then \<sigma>
                  else incUserVisitCount E owner (\<sigma>\<lparr>owners := insert owner (owners \<sigma>)\<rparr>)
             else if fst state = REACHLIMIT then \<sigma>\<lparr>limit_notices := limit_notices \<sigma> @ [owner]\<rparr>
             else \<sigma>)"

definition visitBatch :: "('b, HomeStep) CB \<Rightarrow> Env \<Rightarrow> (int \<times> HomeStep) list \<Rightarrow> 'b HFC \<Rightarrow> 'b HFC" where
  "visitBatch C E fpts \<sigma> = foldl (\<lambda>\<sigma> (owner, fpt). visit C E owner fpt False \<sigma>) \<sigma> fpts"

definition remove :: "('b, HomeStep) CB \<Rightarrow> Env \<Rightarrow> int \<Rightarrow> HomeStep \<Rightarrow> 'b HFC \<Rightarrow> 'b HFC" where
  "remove C E owner fpt \<sigma> =
     (let (p, \<sigma>) = getFootprintSet C E owner \<sigma> in
      case p of
        None \<Rightarrow> \<sigma>
      | Some p \<Rightarrow>
          let (found, p) = home_remove C (visitor fpt) p; \<sigma> = \<sigma>\<lparr>FS := (FS \<sigma>)(owner := Some p)\<rparr>
          in if found then save_put owner (evictor_put owner None 3 \<sigma>)
             else evictor_put owner (Some fpt) 2 \<sigma>)"

definition getSize :: "('b, HomeStep) CB \<Rightarrow> Env \<Rightarrow> int \<Rightarrow> 'b HFC \<Rightarrow> int \<times> 'b HFC" where
  "getSize C E uid \<sigma> =
     (let (p, \<sigma>) = getFootprintSet C E uid \<sigma> in
      case p of
        None \<Rightarrow> (0, \<sigma>)
      | Some p \<Rightarrow>
          let (p2, \<sigma>) = getFootprintBufSet C E uid \<sigma> in
          case p2 of
            None \<Rightarrow> (int (set_getSize C (fbuf p)), \<sigma>)
          | Some p2 \<Rightarrow> (int (set_getSize C (fbuf p)) + int (set_getSize C (fbuf p2)), \<sigma>))"

definition getAll_body :: "('b, HomeStep) CB \<Rightarrow> int \<Rightarrow> int \<Rightarrow> int \<Rightarrow> int \<Rightarrow> 'b HFC \<Rightarrow> HomeStep list \<times> 'b HFC" where
  "getAll_body C uid begin nLimit tLimit \<sigma> =
     (if to_int32 (begin + nLimit) > CACHE_SIZE
      then case SFS \<sigma> uid of
             Some p2 \<Rightarrow> (if begin \<ge> CACHE_SIZE then set_get C (begin - CACHE_SIZE) nLimit tLimit (fbuf p2)
                        else set_get C 0 (to_int32 (nLimit + begin) - CACHE_SIZE) tLimit (fbuf p2), \<sigma>)
           | None \<Rightarrow> ([], \<sigma>\<lparr>load_tasks := insert uid (load_tasks \<sigma>)\<rparr>)
      else ([], \<sigma>))"

definition getAll :: "('b, HomeStep) CB \<Rightarrow> Env \<Rightarrow> int \<Rightarrow> int \<Rightarrow> int \<Rightarrow> int \<Rightarrow> 'b HFC
    \<Rightarrow> (HomeStep list \<times> int) \<times> 'b HFC" where
  "getAll C E uid begin nLimit tLimit \<sigma> =
     (let (p, \<sigma>) = getFootprintSet C E uid \<sigma>;
          steps = (if begin < CACHE_SIZE
                   then case p of Some p \<Rightarrow> set_get C begin nLimit tLimit (fbuf p) | None \<Rightarrow> []
                   else []);
          (vec, \<sigma>) = getAll_body C uid begin nLimit tLimit \<sigma>;
          (visitcount, \<sigma>) = getUserVisitCount E uid \<sigma>
      in ((steps @ vec, visitcount), \<sigma>))"

definition visitAndGet :: "('b, HomeStep) CB \<Rightarrow> Env \<Rightarrow> int \<Rightarrow> HomeStep \<Rightarrow> bool \<Rightarrow> int \<Rightarrow> int \<Rightarrow> int \<Rightarrow> 'b HFC
    \<Rightarrow> (HomeStep list \<times> int) \<times> 'b HFC" where
  "visitAndGet C E owner fpt nowrite begin nLimit tLimit \<sigma> =
     getAll C E owner begin nLimit tLimit (visit C E owner fpt nowrite \<sigma>)"

definition getHomeFootprintObj :: "('b, HomeStep) CB \<Rightarrow> Env \<Rightarrow> int \<Rightarrow> 'b HFC \<Rightarrow> (int \<times> HomeStep list) option \<times> 'b HFC" where
  "getHomeFootprintObj C E uid \<sigma> =
     (let (p, \<sigma>) = getFootprintSet C E uid \<sigma> in (map_option (parseTo C) p, \<sigma>))"

section \<open>The evictor thread\<close>

text \<open>
  One entry of an owner's queue, with the body the thread holds. An exception, which a null handle
  raises when it is dereferenced, is the answer \<open>False\<close>.
\<close>

definition evict_fill :: "('b, HomeStep) CB \<Rightarrow> Env \<Rightarrow> int \<Rightarrow> 'b HomeFootprintSet \<Rightarrow> 'b HFC \<Rightarrow> bool \<times> 'b HFC" where
  "evict_fill C E owner p2 \<sigma> =
     (let (p1, \<sigma>) = getFootprintSet C E owner \<sigma> in
      case set_getTop C (fbuf p2) of
        None \<Rightarrow> (True, \<sigma>)
      | Some t \<Rightarrow>
        (case p1 of
           None \<Rightarrow> (False, \<sigma>)
         | Some p1 \<Rightarrow>
             let (pushed, b) = set_push_back C t (fbuf p1) in
             if pushed
             then (True, save_put owner (\<sigma>\<lparr>FS := (FS \<sigma>)(owner := Some (p1\<lparr>fbuf := b\<rparr>)),
                     SFS := (SFS \<sigma>)(owner := Some (snd (home_remove C (visitor t) p2)))\<rparr>))
             else (True, \<sigma>)))"

definition evict_entry :: "('b, HomeStep) CB \<Rightarrow> Env \<Rightarrow> int \<Rightarrow> HomeStep option \<times> int \<Rightarrow> 'b HFC \<Rightarrow> bool \<times> 'b HFC" where
  "evict_entry C E owner e \<sigma> =
     (case SFS \<sigma> owner of
        None \<Rightarrow> (True, \<sigma>)
      | Some p2 \<Rightarrow>
        if snd e = 1 then
          (case fst e of
             None \<Rightarrow> (False, \<sigma>)
           | Some x \<Rightarrow> (True, \<sigma>\<lparr>SFS := (SFS \<sigma>)(owner := Some (snd (home_add C (now E) x True p2)))\<rparr>))
        else if snd e = 2 then
          (case fst e of
             None \<Rightarrow> (False, \<sigma>)
           | Some x \<Rightarrow> (True, \<sigma>\<lparr>SFS := (SFS \<sigma>)(owner := Some (snd (home_remove C (visitor x) p2)))\<rparr>))
        else if snd e = 3 then evict_fill C E owner p2 \<sigma>
        else (True, \<sigma>))"

primrec evict_entries :: "('b, HomeStep) CB \<Rightarrow> Env \<Rightarrow> int \<Rightarrow> (HomeStep option \<times> int) list \<Rightarrow> 'b HFC \<Rightarrow> bool \<times> 'b HFC" where
  "evict_entries C E owner [] \<sigma> = (True, \<sigma>)"
| "evict_entries C E owner (e # es) \<sigma> =
     (let (ok, \<sigma>) = evict_entry C E owner e \<sigma> in
      if ok then evict_entries C E owner es \<sigma> else (False, \<sigma>))"

text \<open>
  The thread takes the queues of its owners and works them off in the order of the owners. The queue
  of an owner whose body cannot be loaded is skipped, and an exception ends the round.
\<close>

primrec evict_owners :: "('b, HomeStep) CB \<Rightarrow> Env \<Rightarrow> (int \<times> (HomeStep option \<times> int) list) list \<Rightarrow> 'b HFC \<Rightarrow> 'b HFC" where
  "evict_owners C E [] \<sigma> = \<sigma>"
| "evict_owners C E (oq # rest) \<sigma> =
     (let (p2, \<sigma>) = getFootprintBufSet C E (fst oq) \<sigma> in
      case p2 of
        None \<Rightarrow> evict_owners C E rest \<sigma>
      | Some _ \<Rightarrow>
          let (ok, \<sigma>) = evict_entries C E (fst oq) (snd oq) \<sigma> in
          if ok then evict_owners C E rest (saveBuf_put (fst oq) \<sigma>) else \<sigma>)"

definition evictor_run :: "('b, HomeStep) CB \<Rightarrow> Env \<Rightarrow> int list \<Rightarrow> 'b HFC \<Rightarrow> 'b HFC" where
  "evictor_run C E os \<sigma> =
     evict_owners C E (map (\<lambda>uid. (uid, to_be_evictor \<sigma> uid)) os)
       (\<sigma>\<lparr>to_be_evictor := (\<lambda>uid. if uid \<in> set os then [] else to_be_evictor \<sigma> uid)\<rparr>)"

section \<open>The save threads\<close>

text \<open>Serializing converts the times of the steps in place.\<close>

definition converted :: "('b, HomeStep) CB \<Rightarrow> 'b HomeFootprintSet \<Rightarrow> 'b HomeFootprintSet" where
  "converted C p = p\<lparr>fbuf := foldl (\<lambda>b x. cb_push_back C x b) (cb_new C (cb_capacity C (fbuf p)))
     (map (\<lambda>s. s\<lparr>timestamp := in_seconds (timestamp s)\<rparr>) (cb_list C (fbuf p)))\<rparr>"

definition save_head :: "('b, HomeStep) CB \<Rightarrow> Env \<Rightarrow> int \<Rightarrow> 'b HFC \<Rightarrow> 'b HFC" where
  "save_head C E owner \<sigma> =
     (let \<sigma> = \<sigma>\<lparr>fptnSet := fptnSet \<sigma> - {owner}\<rparr>;
          (res, \<sigma>) = getAll C E owner 0 CACHE_SIZE 0 \<sigma>;
          \<sigma> = \<sigma>\<lparr>FS := (FS \<sigma>)(owner := map_option (converted C) (FS \<sigma> owner))\<rparr>
      in \<sigma>\<lparr>head_rows := (head_rows \<sigma>)(owner := Some (serialize_home (fst res)))\<rparr>)"

definition save_body :: "('b, HomeStep) CB \<Rightarrow> Env \<Rightarrow> int \<Rightarrow> 'b HFC \<Rightarrow> 'b HFC" where
  "save_body C E owner \<sigma> =
     (let \<sigma> = \<sigma>\<lparr>fptnBufSet := fptnBufSet \<sigma> - {owner}\<rparr>;
          (res, \<sigma>) = getAll C E owner CACHE_SIZE CACHE_BUF_SIZE 0 \<sigma>;
          \<sigma> = \<sigma>\<lparr>SFS := (SFS \<sigma>)(owner := map_option (converted C) (SFS \<sigma> owner))\<rparr>
      in \<sigma>\<lparr>body_rows := (body_rows \<sigma>)(owner := Some (serialize_home (fst res)))\<rparr>)"

text \<open>The object caches may drop an object at any time.\<close>

definition drop_head :: "int \<Rightarrow> 'b HFC \<Rightarrow> 'b HFC" where
  "drop_head owner \<sigma> = \<sigma>\<lparr>FS := (FS \<sigma>)(owner := None)\<rparr>"

definition drop_body :: "int \<Rightarrow> 'b HFC \<Rightarrow> 'b HFC" where
  "drop_body owner \<sigma> = \<sigma>\<lparr>SFS := (SFS \<sigma>)(owner := None)\<rparr>"

end
