(* ===== verification/RecentVisitors.thy ===== *)
theory RecentVisitors
  imports HomeFootprint
begin

text \<open>
  What the server of home footprints promises. The specification of a page is one list, newest first;
  the two caches, the queue of the evictor thread, the save flags and the rows of the database
  implement it. The list of a page is read off the state by running the queue to its end.
\<close>

section \<open>The specification\<close>

datatype Request = Visit HomeStep | Remove int

text \<open>
  A page has room for forty-eight footprints. A visitor outside the nine newest makes room for the new
  footprint before the old one is searched, so that only forty-seven of the old ones are looked at.
\<close>

definition spec_visit :: "HomeStep \<Rightarrow> HomeStep list \<Rightarrow> HomeStep list" where
  "spec_visit x L =
     x # without (visitor x) (if visitor x \<in> set (visitors (take 9 L)) then L else take 47 L)"

fun spec_step :: "HomeStep list \<Rightarrow> Request \<Rightarrow> HomeStep list" where
  "spec_step L (Visit x) = spec_visit x L"
| "spec_step L (Remove v) = without v L"

section \<open>Running the queue on lists\<close>

fun fill_lists :: "HomeStep list \<times> HomeStep list \<Rightarrow> HomeStep list \<times> HomeStep list" where
  "fill_lists (h, []) = (h, [])"
| "fill_lists (h, t # ts) = (if length h < 9 then (h @ [t], ts) else (h, t # ts))"

fun q_step :: "HomeStep list \<times> HomeStep list \<Rightarrow> HomeStep option \<times> int \<Rightarrow> HomeStep list \<times> HomeStep list" where
  "q_step (h, b) (e, n) =
     (if n = 3 then fill_lists (h, b)
      else case e of
        None \<Rightarrow> (h, b)
      | Some x \<Rightarrow> (h, if n = 1 then take 39 (x # without (visitor x) b) else if n = 2 then without (visitor x) b else b))"

abbreviation run :: "(HomeStep option \<times> int) list \<Rightarrow> HomeStep list \<times> HomeStep list \<Rightarrow> HomeStep list \<times> HomeStep list" where
  "run q p \<equiv> foldl q_step p q"

fun good :: "HomeStep list \<times> HomeStep list \<Rightarrow> bool" where
  "good (h, b) \<longleftrightarrow> distinct (visitors (h @ b)) \<and> length h \<le> 9 \<and> length b \<le> 39 \<and> (b \<noteq> [] \<longrightarrow> length h = 9)"

definition no_fill :: "(HomeStep option \<times> int) list \<Rightarrow> bool" where
  "no_fill q \<longleftrightarrow> (\<forall>e \<in> set q. snd e \<noteq> 3)"

lemma run_no_fill: "no_fill q \<Longrightarrow> run q (h', b) = (h', snd (run q (h, b)))"
proof (induction q arbitrary: b)
  case (Cons e q)
  then show ?case by (cases e) (simp add: no_fill_def split: option.split)
qed simp

lemma distinct_without: "distinct (visitors xs) \<Longrightarrow> distinct (visitors (without v xs))"
  by (induction xs) auto

lemma distinct_take_visitors: "distinct (visitors xs) \<Longrightarrow> distinct (visitors (take n xs))"
  by (metis take_map distinct_take)

lemma length_without:
  "distinct (visitors xs) \<Longrightarrow> v \<in> set (visitors xs) \<Longrightarrow> Suc (length (without v xs)) = length xs"
proof (induction xs)
  case (Cons x xs)
  then show ?case by (cases "visitor x = v") (auto simp: without_absent)
qed simp

lemma visitors_take: "set (visitors (take n xs)) \<subseteq> set (visitors xs)"
  by (auto dest: in_set_takeD)

lemma distinct_step: "distinct (visitors b) \<Longrightarrow> distinct (visitors (snd (q_step (h, b) e)))"
proof -
  assume d: "distinct (visitors b)"
  then have "distinct (visitors (take 39 (x # without (visitor x) b)))" for x
    by (intro distinct_take_visitors) (auto simp: distinct_without)
  then show ?thesis
    using d by (cases e; cases b) (auto split: option.splits simp: distinct_without simp del: take_Cons_numeral)
qed

definition ev_entries :: "HomeStep list \<Rightarrow> HomeStep \<Rightarrow> (HomeStep option \<times> int) list" where
  "ev_entries h x = (if visitor x \<notin> set (visitors h) \<and> length h = 9 then [(Some (last h), 1)] else []) @ [(Some x, 2)]"

lemma visit_lists:
  fixes x :: HomeStep
  assumes "good (h, b)"
  defines "h' \<equiv> take 9 (x # without (visitor x) h)"
  shows "good (run (ev_entries h x) (h', b))"
    "fst (run (ev_entries h x) (h', b)) @ snd (run (ev_entries h x) (h', b)) = spec_visit x (h @ b)"
proof -
  let ?v = "visitor x" and ?r = "run (ev_entries h x) (h', b)"
  have d: "distinct (visitors h)" "distinct (visitors b)" "set (visitors h) \<inter> set (visitors b) = {}"
    and l: "length h \<le> 9" "length b \<le> 39" "b \<noteq> [] \<Longrightarrow> length h = 9" using assms by auto
  have "good ?r \<and> fst ?r @ snd ?r = spec_visit x (h @ b)"
  proof (cases "?v \<notin> set (visitors h) \<and> length h = 9")
    case True
    then obtain g y where h: "h = g @ [y]" "length g = 8" by (cases h rule: rev_cases) auto
    have v: "without ?v h = h" using True by (simp add: without_absent)
    have h': "h' = x # g" using h v by (simp add: h'_def)
    have y: "without (visitor y) b = b" using d(3) h by (intro without_absent) auto
    have r: "?r = (x # g, without ?v (take 39 (y # b)))" using True y by (simp add: ev_entries_def h' h(1))
    have t: "take 9 (h @ b) = h" "take 47 (h @ b) = g @ take 39 (y # b)" using h by simp_all
    have vg: "?v \<notin> set (visitors g)" "?v \<noteq> visitor y" using True h by auto
    have "distinct (visitors (without ?v (take 47 (h @ b))))"
      using assms(1) by (intro distinct_without distinct_take_visitors) simp
    then have "distinct (visitors (g @ without ?v (take 39 (y # b))))"
      using without_absent [OF vg(1)] by (simp only: t filter_append)
    moreover have "length (without ?v (take 39 (y # b))) \<le> 39"
      by (rule order_trans [OF length_filter_le]) simp
    ultimately have "good ?r" unfolding r using vg h(2) by (auto simp del: take_Cons_numeral)
    moreover have "spec_visit x (h @ b) = x # g @ without ?v (take 39 (y # b))"
      unfolding spec_visit_def t using True without_absent [OF vg(1)] by (simp del: take_Cons_numeral)
    ultimately show ?thesis by (simp add: r)
  next
    case False
    have len: "length (without ?v h) < 9"
    proof (cases "?v \<in> set (visitors h)")
      case True
      then have "length (without ?v h) < length h" by (auto simp: length_filter_less)
      then show ?thesis using l by simp
    next
      case False
      with \<open>\<not> (?v \<notin> set (visitors h) \<and> length h = 9)\<close> l show ?thesis by (simp add: without_absent)
    qed
    have r: "?r = (x # without ?v h, without ?v b)" using False len by (auto simp: ev_entries_def h'_def)
    have spec: "spec_visit x (h @ b) = x # without ?v (h @ b)"
    proof (cases "?v \<in> set (visitors h)")
      case True
      then have "?v \<in> set (visitors (take 9 (h @ b)))" using l by auto
      then show ?thesis by (simp add: spec_visit_def)
    next
      case f: False
      with False l have "b = []" "take 47 h = h" by auto
      then show ?thesis using f by (auto simp: spec_visit_def dest: in_set_takeD)
    qed
    have "b = [] \<or> length (without ?v h) = 8 \<or> without ?v b = []"
    proof (cases "b = []")
      case b: False
      then have "?v \<in> set (visitors h)" "length h = 9" using False l by auto
      then have "length (without ?v h) = 8"
        using length_without [OF d(1)] by force
      then show ?thesis by simp
    qed simp
    moreover have "distinct (visitors (x # without ?v h @ without ?v b))" using d by (auto intro: distinct_without)
    moreover have "length (without ?v b) \<le> 39" using l(2) length_filter_le order_trans by blast
    ultimately have "good ?r" using len by (auto simp: r)
    then show ?thesis by (simp add: r spec)
  qed
  then show "good ?r" "fst ?r @ snd ?r = spec_visit x (h @ b)" by simp_all
qed

lemma remove_lists:
  assumes "good (h, b)"
  shows "v \<in> set (visitors h) \<Longrightarrow> good (q_step (without v h, b) (None, 3)) \<and>
      fst (q_step (without v h, b) (None, 3)) @ snd (q_step (without v h, b) (None, 3)) = without v (h @ b)"
    and "v \<notin> set (visitors h) \<Longrightarrow> good (h, without v b) \<and> h @ without v b = without v (h @ b)"
proof -
  have d: "distinct (visitors h)" "distinct (visitors b)" "set (visitors h) \<inter> set (visitors b) = {}"
    and l: "length h \<le> 9" "length b \<le> 39" "b \<noteq> [] \<Longrightarrow> length h = 9" using assms by auto
  have dd: "distinct (visitors (without v h @ b))" using d by (auto intro: distinct_without)
  show "good (q_step (without v h, b) (None, 3)) \<and>
      fst (q_step (without v h, b) (None, 3)) @ snd (q_step (without v h, b) (None, 3)) = without v (h @ b)"
    if v: "v \<in> set (visitors h)"
  proof -
    have "without v b = b" using v d(3) by (intro without_absent) auto
    moreover have "Suc (length (without v h)) = length h" by (rule length_without [OF d(1) v])
    ultimately show ?thesis using dd l by (cases b) auto
  qed
  show "good (h, without v b) \<and> h @ without v b = without v (h @ b)" if v: "v \<notin> set (visitors h)"
  proof -
    have "distinct (visitors (without v (h @ b)))" using assms by (intro distinct_without) simp
    moreover have "length (without v b) \<le> 39" using l(2) length_filter_le order_trans by blast
    ultimately show ?thesis using l without_absent [OF v] by (cases "b = []") auto
  qed
qed

section \<open>Cached objects and their rows\<close>

text \<open>
  A cell is a cached object, its row and whether the object waits to be saved. The list of a cell is
  what a reader of the cache gets, after a load where the object is not cached.
\<close>

type_synonym 'b cell = "'b HomeFootprintSet option \<times> int list option \<times> bool"

definition row_steps :: "int list option \<Rightarrow> HomeStep list" where
  "row_steps r = (case r of None \<Rightarrow> [] | Some bytes \<Rightarrow> home_steps (bytes_ints bytes))"

fun cell_list :: "('b, HomeStep) CB \<Rightarrow> 'b cell \<Rightarrow> HomeStep list" where
  "cell_list C (None, r, d) = row_steps r"
| "cell_list C (Some p, r, d) = cb_list C (fbuf p)"

fun cell_ok :: "('b, HomeStep) CB \<Rightarrow> nat \<Rightarrow> 'b cell \<Rightarrow> bool" where
  "cell_ok C n (None, r, d) \<longleftrightarrow> \<not> d"
| "cell_ok C n (Some p, r, d) \<longleftrightarrow> cb_capacity C (fbuf p) = n \<and> (\<not> d \<longrightarrow> cb_list C (fbuf p) = row_steps r)"

definition head_cell :: "'b HFC \<Rightarrow> int \<Rightarrow> 'b cell" where
  "head_cell \<sigma> uid = (FS \<sigma> uid, head_rows \<sigma> uid, uid \<in> fptnSet \<sigma>)"

definition body_cell :: "'b HFC \<Rightarrow> int \<Rightarrow> 'b cell" where
  "body_cell \<sigma> uid = (SFS \<sigma> uid, body_rows \<sigma> uid, uid \<in> fptnBufSet \<sigma>)"

type_synonym 'b view = "'b cell \<times> 'b cell \<times> (HomeStep option \<times> int) list"

definition view :: "'b HFC \<Rightarrow> int \<Rightarrow> 'b view" where
  "view \<sigma> uid = (head_cell \<sigma> uid, body_cell \<sigma> uid, to_be_evictor \<sigma> uid)"

lemmas view_defs = view_def head_cell_def body_cell_def

lemma sizes: "nat CACHE_SIZE = 9" "nat CACHE_BUF_SIZE = 39"
  by (simp_all add: CACHE_SIZE_def CACHE_BUF_SIZE_def)

lemma push_back_capacity:
  "cb_ok C \<Longrightarrow> cb_capacity C (foldl (\<lambda>b x. cb_push_back C x b) b xs) = cb_capacity C b"
  by (induction xs arbitrary: b) (simp_all add: cb_laws)

lemma load_list:
  fixes t :: int
  assumes "cb_ok C" "length (row_steps r) \<le> n"
  defines "s \<equiv> (case r of None \<Rightarrow> home_new C t n | Some bytes \<Rightarrow> home_set C bytes (home_new C t n))"
  shows "cb_list C (fbuf s) = row_steps r" "cb_capacity C (fbuf s) = n"
  using assms(2) unfolding s_def
  by (cases r; simp add: home_new_def home_set_def row_steps_def push_back_capacity push_back_all cb_laws assms(1))+

lemma converted_list:
  assumes "cb_ok C" "\<forall>x \<in> set (cb_list C (fbuf p)). storable x"
  shows "cb_list C (fbuf (converted C p)) = cb_list C (fbuf p)"
    "cb_capacity C (fbuf (converted C p)) = cb_capacity C (fbuf p)"
proof -
  have "map (\<lambda>s. s\<lparr>timestamp := in_seconds (timestamp s)\<rparr>) (cb_list C (fbuf p)) = cb_list C (fbuf p)"
    using assms(2) by (intro map_idI) (fastforce simp: in_seconds_def storable_def)
  then show "cb_list C (fbuf (converted C p)) = cb_list C (fbuf p)"
    "cb_capacity C (fbuf (converted C p)) = cb_capacity C (fbuf p)"
    using assms(1) by (simp_all add: converted_def push_back_capacity push_back_all cb_laws)
qed

lemma get_head:
  assumes "cb_ok C" "cell_ok C 9 (head_cell \<sigma> uid)" "length (cell_list C (head_cell \<sigma> uid)) \<le> 9"
    "FS \<sigma> uid \<noteq> None \<or> head_read E"
  obtains p where "getFootprintSet C E uid \<sigma> = (Some p, \<sigma>\<lparr>FS := (FS \<sigma>)(uid := Some p)\<rparr>)"
    "cb_list C (fbuf p) = cell_list C (head_cell \<sigma> uid)" "cb_capacity C (fbuf p) = 9"
    "cell_ok C 9 (Some p, head_rows \<sigma> uid, uid \<in> fptnSet \<sigma>)"
proof (cases "FS \<sigma> uid")
  case None
  let ?r = "head_rows \<sigma> uid" and ?n = "home_new C (now E) (nat CACHE_SIZE)"
  let ?p = "case ?r of None \<Rightarrow> ?n | Some bytes \<Rightarrow> home_set C bytes ?n"
  have "getFootprintSet C E uid \<sigma> = (Some ?p, \<sigma>\<lparr>FS := (FS \<sigma>)(uid := Some ?p)\<rparr>)"
    using None assms(4) by (simp add: getFootprintSet_def FootprintFactory_create_def Let_def)
  moreover have "cb_list C (fbuf ?p) = row_steps ?r" "cb_capacity C (fbuf ?p) = 9"
    using load_list [OF assms(1), of ?r "nat CACHE_SIZE" "now E"] None assms(3) by (simp_all add: head_cell_def sizes)
  ultimately show thesis using that [of ?p] None by (simp add: head_cell_def)
next
  case (Some p)
  then have "\<sigma> = \<sigma>\<lparr>FS := (FS \<sigma>)(uid := Some p)\<rparr>" by (simp add: fun_upd_idem)
  then show thesis using that [of p] Some assms(2) by (simp add: getFootprintSet_def head_cell_def)
qed

lemma get_body:
  assumes "cb_ok C" "cell_ok C 39 (body_cell \<sigma> uid)" "length (cell_list C (body_cell \<sigma> uid)) \<le> 39"
    "SFS \<sigma> uid \<noteq> None \<or> body_read E"
  obtains p where "getFootprintBufSet C E uid \<sigma> = (Some p, \<sigma>\<lparr>SFS := (SFS \<sigma>)(uid := Some p)\<rparr>)"
    "cb_list C (fbuf p) = cell_list C (body_cell \<sigma> uid)" "cb_capacity C (fbuf p) = 39"
    "cell_ok C 39 (Some p, body_rows \<sigma> uid, uid \<in> fptnBufSet \<sigma>)"
proof (cases "SFS \<sigma> uid")
  case None
  let ?r = "body_rows \<sigma> uid" and ?n = "home_new C (now E) (nat CACHE_BUF_SIZE)"
  let ?p = "case ?r of None \<Rightarrow> ?n | Some bytes \<Rightarrow> home_set C bytes ?n"
  have "getFootprintBufSet C E uid \<sigma> = (Some ?p, \<sigma>\<lparr>SFS := (SFS \<sigma>)(uid := Some ?p)\<rparr>)"
    using None assms(4) by (simp add: getFootprintBufSet_def FootprintBufFactory_create_def Let_def)
  moreover have "cb_list C (fbuf ?p) = row_steps ?r" "cb_capacity C (fbuf ?p) = 39"
    using load_list [OF assms(1), of ?r "nat CACHE_BUF_SIZE" "now E"] None assms(3) by (simp_all add: body_cell_def sizes)
  ultimately show thesis using that [of ?p] None by (simp add: body_cell_def)
next
  case (Some p)
  then have "\<sigma> = \<sigma>\<lparr>SFS := (SFS \<sigma>)(uid := Some p)\<rparr>" by (simp add: fun_upd_idem)
  then show thesis using that [of p] Some assms(2) by (simp add: getFootprintBufSet_def body_cell_def)
qed

section \<open>The invariant of an owner\<close>

definition lists_inv :: "HomeStep list \<Rightarrow> HomeStep list \<Rightarrow> (HomeStep option \<times> int) list \<Rightarrow> bool" where
  "lists_inv h b q \<longleftrightarrow> (\<forall>x \<in> set h. storable x) \<and> (\<forall>x \<in> set b. storable x) \<and>
     (\<forall>x. (Some x, 1) \<in> set q \<longrightarrow> storable x) \<and> (\<forall>e \<in> set q. snd e \<in> {1, 2} \<longrightarrow> fst e \<noteq> None) \<and> length h \<le> 9 \<and> length b \<le> 39 \<and>
     distinct (visitors h) \<and> distinct (visitors b) \<and> good (run q (h, b))"

lemma lists_invD:
  assumes "lists_inv h b q"
  shows "\<forall>x \<in> set h. storable x" "\<forall>x \<in> set b. storable x" "\<forall>x. (Some x, 1) \<in> set q \<longrightarrow> storable x"
    "\<forall>e \<in> set q. snd e \<in> {1, 2} \<longrightarrow> fst e \<noteq> None" "length h \<le> 9" "length b \<le> 39"
    "distinct (visitors h)" "distinct (visitors b)" "good (run q (h, b))"
  using assms unfolding lists_inv_def by blast+

fun view_inv :: "('b, HomeStep) CB \<Rightarrow> 'b view \<Rightarrow> bool" where
  "view_inv C (hc, bc, q) \<longleftrightarrow> cell_ok C 9 hc \<and> cell_ok C 39 bc \<and> lists_inv (cell_list C hc) (cell_list C bc) q"

fun recent :: "('b, HomeStep) CB \<Rightarrow> 'b view \<Rightarrow> HomeStep list" where
  "recent C (hc, bc, q) = (let (h, b) = run q (cell_list C hc, cell_list C bc) in h @ b)"

lemma view_counts [simp]:
  "view (incUserVisitCount E uid \<sigma>) = view \<sigma>" "view (snd (getUserVisitCount E uid \<sigma>)) = view \<sigma>"
  "view (\<sigma>\<lparr>owners := X\<rparr>) = view \<sigma>" "view (\<sigma>\<lparr>limit_notices := Y\<rparr>) = view \<sigma>" "view (\<sigma>\<lparr>load_tasks := X\<rparr>) = view \<sigma>"
  by (auto simp: view_defs fun_eq_iff incUserVisitCount_def getUserVisitCount_def locateUserVisitCount_def
      UserVisitCountFactory_create_def Let_def split: option.splits list.splits prod.splits if_splits)

lemma visit_view:
  assumes "cb_ok C" "view_inv C (view \<sigma> uid)" "FS \<sigma> uid \<noteq> None \<or> head_read E"
  obtains p where "view (visit C E uid x nw \<sigma>) = (view \<sigma>)(uid := ((Some p, head_rows \<sigma> uid, True), body_cell \<sigma> uid,
      to_be_evictor \<sigma> uid @ ev_entries (cell_list C (head_cell \<sigma> uid)) x))"
    "cb_list C (fbuf p) = take 9 (x # without (visitor x) (cell_list C (head_cell \<sigma> uid)))" "cb_capacity C (fbuf p) = 9"
proof -
  let ?h = "cell_list C (head_cell \<sigma> uid)"
  have inv: "cell_ok C 9 (head_cell \<sigma> uid)" "length ?h \<le> 9" "distinct (visitors ?h)"
    using assms(2) by (simp_all add: view_def lists_inv_def)
  obtain p where p: "getFootprintSet C E uid \<sigma> = (Some p, \<sigma>\<lparr>FS := (FS \<sigma>)(uid := Some p)\<rparr>)"
    "cb_list C (fbuf p) = ?h" "cb_capacity C (fbuf p) = 9"
    using get_head [OF assms(1) inv(1,2) assms(3)] by metis
  obtain st ev p' where a: "home_add C (now E) x False p = ((st, ev), p')" by (metis prod.exhaust)
  have p': "cb_list C (fbuf p') = take 9 (x # without (visitor x) ?h)" "cb_capacity C (fbuf p') = 9"
    and ev: "ev = (if visitor x \<notin> set (visitors ?h) \<and> length ?h = 9 then Some (last ?h) else None)"
    using home_add_list [OF assms(1) _ a] inv(3) p by simp_all
  have "view (visit C E uid x nw \<sigma>) = (view \<sigma>)(uid := ((Some p', head_rows \<sigma> uid, True), body_cell \<sigma> uid,
      to_be_evictor \<sigma> uid @ ev_entries ?h x))"
    unfolding visit_def p(1) by (simp add: a Let_def)
      (auto simp: view_defs fun_eq_iff evictor_put_def save_put_def ev_entries_def ev head_cell_def)
  with p' show thesis using that by blast
qed

lemma remove_view:
  assumes "cb_ok C" "view_inv C (view \<sigma> uid)" "FS \<sigma> uid \<noteq> None \<or> head_read E"
  defines "h \<equiv> cell_list C (head_cell \<sigma> uid)"
  obtains p where "view (remove C E uid x \<sigma>) = (view \<sigma>)(uid := if visitor x \<in> set (visitors h)
      then ((Some p, head_rows \<sigma> uid, True), body_cell \<sigma> uid, to_be_evictor \<sigma> uid @ [(None, 3)])
      else ((Some p, head_rows \<sigma> uid, uid \<in> fptnSet \<sigma>), body_cell \<sigma> uid, to_be_evictor \<sigma> uid @ [(Some x, 2)]))"
    "cb_list C (fbuf p) = without (visitor x) h" "cb_capacity C (fbuf p) = 9"
    "visitor x \<notin> set (visitors h) \<Longrightarrow> cell_ok C 9 (Some p, head_rows \<sigma> uid, uid \<in> fptnSet \<sigma>)"
proof -
  have inv: "cell_ok C 9 (head_cell \<sigma> uid)" "length h \<le> 9" "distinct (visitors h)"
    using assms(2) by (simp_all add: view_def lists_inv_def h_def)
  obtain p where p: "getFootprintSet C E uid \<sigma> = (Some p, \<sigma>\<lparr>FS := (FS \<sigma>)(uid := Some p)\<rparr>)"
    "cb_list C (fbuf p) = h" "cb_capacity C (fbuf p) = 9" "cell_ok C 9 (Some p, head_rows \<sigma> uid, uid \<in> fptnSet \<sigma>)"
    using get_head [OF assms(1) inv(1) _ assms(3)] inv(2) unfolding h_def by metis
  obtain f b where a: "set_remove C (visitor x) (fbuf p) = (f, b)" by (metis prod.exhaust)
  note r = set_remove_list [OF assms(1) _ a, unfolded p, OF inv(3)]
  have "view (remove C E uid x \<sigma>) = (view \<sigma>)(uid := if visitor x \<in> set (visitors h)
      then ((Some (p\<lparr>fbuf := b\<rparr>), head_rows \<sigma> uid, True), body_cell \<sigma> uid, to_be_evictor \<sigma> uid @ [(None, 3)])
      else ((Some (p\<lparr>fbuf := b\<rparr>), head_rows \<sigma> uid, uid \<in> fptnSet \<sigma>), body_cell \<sigma> uid, to_be_evictor \<sigma> uid @ [(Some x, 2)]))"
    unfolding remove_def p(1) using r(3)
    by (auto simp: home_remove_def a view_defs fun_eq_iff evictor_put_def save_put_def)
  then show thesis using that [of "p\<lparr>fbuf := b\<rparr>"] r p(2,4) by (simp add: without_absent)
qed

section \<open>A round of the evictor thread\<close>

lemma evict_entry_view:
  assumes "cb_ok C" "view \<sigma> uid = (hc, (Some p2, r, d), q)" "cb_capacity C (fbuf p2) = 39"
    "distinct (visitors (cb_list C (fbuf p2)))" "cell_ok C 9 hc" "length (cell_list C hc) \<le> 9"
    "FS \<sigma> uid \<noteq> None \<or> head_read E" "snd e \<in> {1, 2} \<longrightarrow> fst e \<noteq> None"
  obtains \<sigma>' hc' p2' where "evict_entry C E uid e \<sigma> = (True, \<sigma>')"
    "view \<sigma>' = (view \<sigma>)(uid := (hc', (Some p2', r, d), q))"
    "(cell_list C hc', cb_list C (fbuf p2')) = q_step (cell_list C hc, cb_list C (fbuf p2)) e"
    "cb_capacity C (fbuf p2') = 39" "cell_ok C 9 hc'" "FS \<sigma>' uid \<noteq> None \<or> head_read E"
proof -
  have v: "hc = head_cell \<sigma> uid" "SFS \<sigma> uid = Some p2" "r = body_rows \<sigma> uid" "d = (uid \<in> fptnBufSet \<sigma>)"
    "q = to_be_evictor \<sigma> uid" using assms(2) by (auto simp: view_defs)
  obtain x n where e: "e = (x, n)" by (cases e)
  consider y where "x = Some y" "n = 1" | y where "x = Some y" "n = 2" | "n = 3" | "n \<notin> {1, 2, 3}"
    using assms(8) e by auto
  then show thesis
  proof cases
    case 1
    obtain st ev p' where a: "home_add C (now E) y True p2 = ((st, ev), p')" by (metis prod.exhaust)
    note h = home_add_list [OF assms(1,4) a, unfolded assms(3)]
    have "view (\<sigma>\<lparr>SFS := (SFS \<sigma>)(uid := Some p')\<rparr>) = (view \<sigma>)(uid := (hc, (Some p', r, d), q))"
      by (auto simp: view_defs fun_eq_iff v)
    then show thesis using 1 h assms(5,7) that [of "\<sigma>\<lparr>SFS := (SFS \<sigma>)(uid := Some p')\<rparr>" hc p']
      by (simp add: e evict_entry_def v(2) a del: take_Cons_numeral)
  next
    case 2
    obtain f b where a: "set_remove C (visitor y) (fbuf p2) = (f, b)" by (metis prod.exhaust)
    note h = set_remove_list [OF assms(1,4) a, unfolded assms(3)]
    let ?p = "p2\<lparr>fbuf := b\<rparr>"
    have "view (\<sigma>\<lparr>SFS := (SFS \<sigma>)(uid := Some ?p)\<rparr>) = (view \<sigma>)(uid := (hc, (Some ?p, r, d), q))"
      by (auto simp: view_defs fun_eq_iff v)
    then show thesis using 2 h assms(5,7) that [of "\<sigma>\<lparr>SFS := (SFS \<sigma>)(uid := Some ?p)\<rparr>" hc ?p]
      by (simp add: e evict_entry_def v(2) home_remove_def a)
  next
    case 3
    obtain p where p: "getFootprintSet C E uid \<sigma> = (Some p, \<sigma>\<lparr>FS := (FS \<sigma>)(uid := Some p)\<rparr>)"
      "cb_list C (fbuf p) = cell_list C hc" "cb_capacity C (fbuf p) = 9"
      "cell_ok C 9 (Some p, head_rows \<sigma> uid, uid \<in> fptnSet \<sigma>)"
      using get_head [of C \<sigma> uid E] assms(1,5,6,7) v(1) by metis
    let ?s = "\<sigma>\<lparr>FS := (FS \<sigma>)(uid := Some p)\<rparr>"
    have vs: "view ?s = (view \<sigma>)(uid := ((Some p, head_rows \<sigma> uid, uid \<in> fptnSet \<sigma>), (Some p2, r, d), q))"
      by (auto simp: view_defs fun_eq_iff v)
    show thesis
    proof (cases "cb_list C (fbuf p2) = [] \<or> length (cell_list C hc) = 9")
      case True
      then have "fill_lists (cell_list C hc, cb_list C (fbuf p2)) = (cell_list C hc, cb_list C (fbuf p2))"
        by (cases "cb_list C (fbuf p2)") auto
      moreover have "evict_entry C E uid e \<sigma> = (True, ?s)"
        using True p(1-3) 3 v(2) assms(1) by (auto simp: e evict_entry_def evict_fill_def set_getTop_def set_push_back_def cb_laws split: list.split)
      ultimately show thesis using that [OF _ vs] p 3 assms(3) by (simp add: e)
    next
      case False
      then obtain t ts where t: "cb_list C (fbuf p2) = t # ts" and l: "length (cell_list C hc) < 9"
        using assms(6) by (cases "cb_list C (fbuf p2)") auto
      have f: "\<not> cb_full C (fbuf p)" using l p assms(1) by (simp add: cb_laws)
      obtain f b where a: "set_remove C (visitor t) (fbuf p2) = (f, b)" by (metis prod.exhaust)
      note h = set_remove_list [OF assms(1,4) a, unfolded assms(3)]
      have ts: "without (visitor t) (cb_list C (fbuf p2)) = ts" using assms(4) by (auto simp: t without_absent)
      let ?p1 = "p\<lparr>fbuf := cb_push_back C t (fbuf p)\<rparr>" and ?p2 = "p2\<lparr>fbuf := b\<rparr>"
      let ?s = "save_put uid (\<sigma>\<lparr>FS := (FS \<sigma>)(uid := Some ?p1), SFS := (SFS \<sigma>)(uid := Some ?p2)\<rparr>)"
      have "evict_entry C E uid e \<sigma> = (True, ?s)"
        using p(1) 3 v(2) f by (simp add: e evict_entry_def evict_fill_def set_getTop_def set_push_back_def t a home_remove_def)
      moreover have "view ?s = (view \<sigma>)(uid := ((Some ?p1, head_rows \<sigma> uid, True), (Some ?p2, r, d), q))"
        by (auto simp: view_defs fun_eq_iff v save_put_def)
      ultimately show thesis using that h p 3 f l assms(1) ts
        by (auto simp: e t cb_laws save_put_def)
    qed
  next
    case 4
    then have "evict_entry C E uid e \<sigma> = (True, \<sigma>)"
      "q_step (cell_list C hc, cb_list C (fbuf p2)) e = (cell_list C hc, cb_list C (fbuf p2))"
      using v(2) by (simp_all add: e evict_entry_def split: option.split)
    moreover have "view \<sigma> = (view \<sigma>)(uid := (hc, (Some p2, r, d), q))" using assms(2) by (simp add: fun_upd_idem)
    ultimately show thesis using that [of \<sigma> hc p2] assms(3,5,7) by simp
  qed
qed

lemma q_step_head: "length (fst p) \<le> 9 \<Longrightarrow> length (fst (q_step p e)) \<le> 9"
  by (cases p; cases "snd p"; cases e) (auto split: option.split)

lemma evict_entries_view:
  assumes "cb_ok C" "view \<sigma> uid = (hc, (Some p2, r, d), q)" "cb_capacity C (fbuf p2) = 39"
    "distinct (visitors (cb_list C (fbuf p2)))" "cell_ok C 9 hc" "length (cell_list C hc) \<le> 9"
    "FS \<sigma> uid \<noteq> None \<or> head_read E" "\<forall>e \<in> set es. snd e \<in> {1, 2} \<longrightarrow> fst e \<noteq> None"
  shows "\<exists>\<sigma>' hc' p2'. evict_entries C E uid es \<sigma> = (True, \<sigma>') \<and>
    view \<sigma>' = (view \<sigma>)(uid := (hc', (Some p2', r, d), q)) \<and>
    (cell_list C hc', cb_list C (fbuf p2')) = run es (cell_list C hc, cb_list C (fbuf p2)) \<and>
    cb_capacity C (fbuf p2') = 39 \<and> cell_ok C 9 hc'"
  using assms(2-8)
proof (induction es arbitrary: \<sigma> hc p2)
  case Nil
  then have "view \<sigma> = (view \<sigma>)(uid := (hc, (Some p2, r, d), q))" by (simp add: fun_upd_idem)
  with Nil show ?case by (intro exI [of _ \<sigma>] exI [of _ hc] exI [of _ p2]) simp
next
  case (Cons e es)
  have "snd e \<in> {1, 2} \<longrightarrow> fst e \<noteq> None" using Cons.prems(7) by simp
  then obtain \<sigma>1 hc1 p1 where e: "evict_entry C E uid e \<sigma> = (True, \<sigma>1)"
    "view \<sigma>1 = (view \<sigma>)(uid := (hc1, (Some p1, r, d), q))"
    "(cell_list C hc1, cb_list C (fbuf p1)) = q_step (cell_list C hc, cb_list C (fbuf p2)) e"
    "cb_capacity C (fbuf p1) = 39" "cell_ok C 9 hc1" "FS \<sigma>1 uid \<noteq> None \<or> head_read E"
    by (rule evict_entry_view [OF assms(1) Cons.prems(1-6)])
  have d1: "distinct (visitors (cb_list C (fbuf p1)))" and l1: "length (cell_list C hc1) \<le> 9"
    using distinct_step [OF Cons.prems(3), of "cell_list C hc" e] q_step_head [of "(cell_list C hc, cb_list C (fbuf p2))" e]
      Cons.prems(5) by (simp_all add: e(3) [symmetric])
  have v1: "view \<sigma>1 uid = (hc1, (Some p1, r, d), q)" and w: "\<forall>e \<in> set es. snd e \<in> {1, 2} \<longrightarrow> fst e \<noteq> None"
    using e(2) Cons.prems(7) by simp_all
  then obtain \<sigma>' hc' p2' where "evict_entries C E uid es \<sigma>1 = (True, \<sigma>')"
    "view \<sigma>' = (view \<sigma>1)(uid := (hc', (Some p2', r, d), q))"
    "(cell_list C hc', cb_list C (fbuf p2')) = run es (cell_list C hc1, cb_list C (fbuf p1))"
    "cb_capacity C (fbuf p2') = 39" "cell_ok C 9 hc'"
    using Cons.IH [OF v1 e(4) d1 e(5) l1 e(6) w] by blast
  then show ?case by (intro exI [of _ \<sigma>'] exI [of _ hc'] exI [of _ p2']) (simp add: e(1,2) e(3) [symmetric])
qed

lemma evict_storable:
  "\<forall>x \<in> set (fst p) \<union> set (snd p). storable x \<Longrightarrow> \<forall>x. (Some x, 1) \<in> set q \<longrightarrow> storable x \<Longrightarrow>
   \<forall>x \<in> set (fst (run q p)) \<union> set (snd (run q p)). storable x"
proof (induction q arbitrary: p)
  case (Cons e q)
  have "\<forall>x \<in> set (fst (q_step p e)) \<union> set (snd (q_step p e)). storable x"
    using Cons.prems by (cases p; cases "snd p"; cases e)
      (auto split: option.splits simp del: take_Cons_numeral dest!: in_set_takeD)
  then show ?case using Cons.IH [of "q_step p e"] Cons.prems(2) by simp
qed simp

lemma evictor_round:
  assumes "cb_ok C" "view_inv C (view \<sigma> uid)" "FS \<sigma> uid \<noteq> None \<or> head_read E" "SFS \<sigma> uid \<noteq> None \<or> body_read E"
  obtains v where "view (evictor_run C E [uid] \<sigma>) = (view \<sigma>)(uid := v)" "view_inv C v" "recent C v = recent C (view \<sigma> uid)"
    "snd (snd v) = []"
proof -
  let ?h = "cell_list C (head_cell \<sigma> uid)" and ?b = "cell_list C (body_cell \<sigma> uid)" and ?q = "to_be_evictor \<sigma> uid"
  let ?s = "\<sigma>\<lparr>to_be_evictor := (\<lambda>i. if i \<in> set [uid] then [] else to_be_evictor \<sigma> i)\<rparr>"
  have inv: "cell_ok C 9 (head_cell \<sigma> uid)" "cell_ok C 39 (body_cell \<sigma> uid)" "lists_inv ?h ?b ?q"
    using assms(2) by (simp_all add: view_def)
  have s: "head_cell ?s uid = head_cell \<sigma> uid" "body_cell ?s uid = body_cell \<sigma> uid" "SFS ?s = SFS \<sigma>"
    by (simp_all add: head_cell_def body_cell_def)
  have lb: "length ?b \<le> 39" using inv(3) by (simp add: lists_inv_def)
  obtain p where p: "getFootprintBufSet C E uid ?s = (Some p, ?s\<lparr>SFS := (SFS \<sigma>)(uid := Some p)\<rparr>)"
    "cb_list C (fbuf p) = ?b" "cb_capacity C (fbuf p) = 39"
    by (rule get_body [OF assms(1), of ?s uid E, unfolded s, OF inv(2) lb assms(4)])
  let ?s1 = "?s\<lparr>SFS := (SFS \<sigma>)(uid := Some p)\<rparr>" and ?r = "body_rows \<sigma> uid" and ?d = "uid \<in> fptnBufSet \<sigma>"
  have v1: "view ?s1 = (view \<sigma>)(uid := (head_cell \<sigma> uid, (Some p, ?r, ?d), []))"
    by (auto simp: view_defs fun_eq_iff)
  obtain \<sigma>' hc' p2' where e: "evict_entries C E uid ?q ?s1 = (True, \<sigma>')"
    "view \<sigma>' = (view ?s1)(uid := (hc', (Some p2', ?r, ?d), []))"
    "(cell_list C hc', cb_list C (fbuf p2')) = run ?q (?h, ?b)" "cb_capacity C (fbuf p2') = 39" "cell_ok C 9 hc'"
    using evict_entries_view [OF assms(1), of ?s1 uid "head_cell \<sigma> uid" p ?r ?d "[]" E ?q] p inv assms(3) v1
    unfolding lists_inv_def by auto
  let ?v = "(hc', (Some p2', ?r, True), [])"
  have "view (saveBuf_put uid \<sigma>') = (view \<sigma>')(uid := (let (h, b, q) = view \<sigma>' uid in (h, (fst b, fst (snd b), True), q)))"
    by (auto simp: view_defs fun_eq_iff saveBuf_put_def)
  then have "view (saveBuf_put uid \<sigma>') = (view \<sigma>)(uid := ?v)" using e(2) v1 by simp
  moreover have "evictor_run C E [uid] \<sigma> = saveBuf_put uid \<sigma>'"
    using p(1) e(1) by (simp add: evictor_run_def)
  moreover have g: "good (cell_list C hc', cb_list C (fbuf p2'))" unfolding e(3) using inv(3) by (simp add: lists_inv_def)
  have "\<forall>x \<in> set (cell_list C hc') \<union> set (cb_list C (fbuf p2')). storable x"
  proof -
    have "\<forall>x \<in> set (fst (?h, ?b)) \<union> set (snd (?h, ?b)). storable x" "\<forall>x. (Some x, 1) \<in> set ?q \<longrightarrow> storable x"
      using lists_invD [OF inv(3)] by (simp_all only: fst_conv snd_conv ball_Un)
    from evict_storable [OF this] show ?thesis by (simp only: e(3) [symmetric] fst_conv snd_conv)
  qed
  with g e(4,5) have "view_inv C ?v" by (simp add: lists_inv_def)
  moreover have "recent C ?v = recent C (view \<sigma> uid)" by (simp add: view_def e(3) [symmetric])
  ultimately show thesis using that by simp
qed

section \<open>Requests, saving and loading\<close>

lemma visit_lists_inv:
  assumes "lists_inv h b q" "no_fill q" "storable x"
  defines "h' \<equiv> take 9 (x # without (visitor x) h)" and "q' \<equiv> q @ ev_entries h x"
  shows "lists_inv h' b q'"
    "fst (run q' (h', b)) @ snd (run q' (h', b)) = spec_visit x (fst (run q (h, b)) @ snd (run q (h, b)))"
proof -
  note I = lists_invD [OF assms(1)]
  obtain B where r: "run q (h, b) = (h, B)" "run q (h', b) = (h', B)"
    using run_no_fill [OF assms(2), of _ b h] by blast
  have g: "good (h, B)" using I(9) unfolding r .
  have r': "run q' (h', b) = run (ev_entries h x) (h', B)" unfolding q'_def by (simp add: r)
  show "fst (run q' (h', b)) @ snd (run q' (h', b)) = spec_visit x (fst (run q (h, b)) @ snd (run q (h, b)))"
    using visit_lists(2) [OF g, of x, folded h'_def] by (simp only: r' r(1) fst_conv snd_conv)
  have "good (run q' (h', b))" using visit_lists(1) [OF g, of x, folded h'_def] by (simp only: r')
  moreover have "length h = 9 \<Longrightarrow> storable (last h)" using I(1) by (cases h rule: rev_cases) auto
  then have "\<forall>y. (Some y, 1) \<in> set q' \<longrightarrow> storable y" "\<forall>e \<in> set q'. snd e \<in> {1, 2} \<longrightarrow> fst e \<noteq> None"
    using I(3,4) by (auto simp: ev_entries_def q'_def)
  moreover have "\<forall>y \<in> set h'. storable y" "length h' \<le> 9"
    using I(1) assms(3) by (auto simp: h'_def dest: in_set_takeD)
  moreover have "distinct (visitors h')"
    using distinct_without [OF I(7)] unfolding h'_def by (intro distinct_take_visitors) auto
  ultimately show "lists_inv h' b q'" using I(2,6,8) unfolding lists_inv_def by blast
qed

lemma remove_lists_inv:
  fixes x :: HomeStep
  assumes "lists_inv h b q" "no_fill q"
  defines "h' \<equiv> without (visitor x) h"
    and "q' \<equiv> q @ [if visitor x \<in> set (visitors h) then (None, 3) else (Some x, 2)]"
  shows "lists_inv h' b q'"
    "fst (run q' (h', b)) @ snd (run q' (h', b)) = without (visitor x) (fst (run q (h, b)) @ snd (run q (h, b)))"
proof -
  note I = lists_invD [OF assms(1)]
  obtain B where r: "run q (h, b) = (h, B)" "run q (h', b) = (h', B)"
    using run_no_fill [OF assms(2), of _ b h] by blast
  have g: "good (h, B)" using I(9) unfolding r .
  have "good (run q' (h', b)) \<and> fst (run q' (h', b)) @ snd (run q' (h', b)) = without (visitor x) (h @ B)"
  proof (cases "visitor x \<in> set (visitors h)")
    case True
    then show ?thesis using remove_lists(1) [OF g True] by (simp add: q'_def r(2) h'_def [symmetric])
  next
    case False
    then have "h' = h" by (simp add: h'_def without_absent)
    then show ?thesis using remove_lists(2) [OF g False] False r(2) by (simp add: q'_def)
  qed
  then have *: "good (run q' (h', b))" "fst (run q' (h', b)) @ snd (run q' (h', b)) = without (visitor x) (h @ B)"
    by simp_all
  then show "fst (run q' (h', b)) @ snd (run q' (h', b)) = without (visitor x) (fst (run q (h, b)) @ snd (run q (h, b)))"
    unfolding r by simp
  have "\<forall>y. (Some y, 1) \<in> set q' \<longrightarrow> storable y" "\<forall>e \<in> set q'. snd e \<in> {1, 2} \<longrightarrow> fst e \<noteq> None"
    using I(3,4) by (auto simp: q'_def split: if_splits)
  moreover have "\<forall>y \<in> set h'. storable y" "length h' \<le> 9" "distinct (visitors h')"
    using I(1,5) distinct_without [OF I(7)] order_trans [OF length_filter_le] unfolding h'_def by auto
  ultimately show "lists_inv h' b q'" using *(1) I(2,6,8) unfolding lists_inv_def by blast
qed

lemma visit_inv:
  assumes "cb_ok C" "view_inv C (view \<sigma> uid)" "FS \<sigma> uid \<noteq> None \<or> head_read E"
    "no_fill (to_be_evictor \<sigma> uid)" "storable x"
  obtains v where "view (visit C E uid x nw \<sigma>) = (view \<sigma>)(uid := v)" "view_inv C v"
    "recent C v = spec_visit x (recent C (view \<sigma> uid))"
proof -
  have inv: "cell_ok C 39 (body_cell \<sigma> uid)"
    "lists_inv (cell_list C (head_cell \<sigma> uid)) (cell_list C (body_cell \<sigma> uid)) (to_be_evictor \<sigma> uid)"
    using assms(2) by (simp_all add: view_def)
  obtain p where v: "view (visit C E uid x nw \<sigma>) = (view \<sigma>)(uid := ((Some p, head_rows \<sigma> uid, True), body_cell \<sigma> uid,
      to_be_evictor \<sigma> uid @ ev_entries (cell_list C (head_cell \<sigma> uid)) x))"
    and p: "cb_list C (fbuf p) = take 9 (x # without (visitor x) (cell_list C (head_cell \<sigma> uid)))" "cb_capacity C (fbuf p) = 9"
    by (rule visit_view [OF assms(1-3)])
  show thesis
  proof (rule that [OF v])
    show "view_inv C ((Some p, head_rows \<sigma> uid, True), body_cell \<sigma> uid,
        to_be_evictor \<sigma> uid @ ev_entries (cell_list C (head_cell \<sigma> uid)) x)"
      using visit_lists_inv(1) [OF inv(2) assms(4,5)] inv(1) p by simp
    show "recent C ((Some p, head_rows \<sigma> uid, True), body_cell \<sigma> uid,
        to_be_evictor \<sigma> uid @ ev_entries (cell_list C (head_cell \<sigma> uid)) x) = spec_visit x (recent C (view \<sigma> uid))"
      using visit_lists_inv(2) [OF inv(2) assms(4,5)]
      by (simp only: recent.simps cell_list.simps p(1) view_def Let_def split_beta)
  qed
qed

lemma remove_inv:
  assumes "cb_ok C" "view_inv C (view \<sigma> uid)" "FS \<sigma> uid \<noteq> None \<or> head_read E" "no_fill (to_be_evictor \<sigma> uid)"
  obtains v where "view (remove C E uid x \<sigma>) = (view \<sigma>)(uid := v)" "view_inv C v"
    "recent C v = without (visitor x) (recent C (view \<sigma> uid))"
proof -
  let ?h = "cell_list C (head_cell \<sigma> uid)"
  let ?d = "visitor x \<in> set (visitors ?h) \<or> uid \<in> fptnSet \<sigma>"
    and ?q = "to_be_evictor \<sigma> uid @ [if visitor x \<in> set (visitors ?h) then (None, 3) else (Some x, 2)]"
  have inv: "cell_ok C 39 (body_cell \<sigma> uid)" "lists_inv ?h (cell_list C (body_cell \<sigma> uid)) (to_be_evictor \<sigma> uid)"
    using assms(2) by (simp_all add: view_def)
  obtain p where v: "view (remove C E uid x \<sigma>) = (view \<sigma>)(uid := ((Some p, head_rows \<sigma> uid, ?d), body_cell \<sigma> uid, ?q))"
    and p: "cb_list C (fbuf p) = without (visitor x) ?h" "cell_ok C 9 (Some p, head_rows \<sigma> uid, ?d)"
    by (rule remove_view [OF assms(1-3), of x]) (auto split: if_splits)
  show thesis
  proof (rule that [OF v])
    show "view_inv C ((Some p, head_rows \<sigma> uid, ?d), body_cell \<sigma> uid, ?q)"
      using remove_lists_inv(1) [OF inv(2) assms(4), of x] inv(1) p
      by (simp only: view_inv.simps cell_list.simps simp_thms)
    show "recent C ((Some p, head_rows \<sigma> uid, ?d), body_cell \<sigma> uid, ?q) = without (visitor x) (recent C (view \<sigma> uid))"
      using remove_lists_inv(2) [OF inv(2) assms(4), of x]
      by (simp only: recent.simps cell_list.simps p(1) view_def Let_def split_beta)
  qed
qed

text \<open>The other steps of the server keep the list of every owner.\<close>

definition keeps :: "('b, HomeStep) CB \<Rightarrow> int \<Rightarrow> 'b HFC \<Rightarrow> 'b HFC \<Rightarrow> bool" where
  "keeps C uid \<sigma> \<sigma>' \<longleftrightarrow> (\<exists>v. view \<sigma>' = (view \<sigma>)(uid := v) \<and> view_inv C v \<and> recent C v = recent C (view \<sigma> uid))"

lemma keepsI:
  assumes "view_inv C (view \<sigma> uid)" "view \<sigma>' = (view \<sigma>)(uid := (hc, bc, to_be_evictor \<sigma> uid))" "cell_ok C 9 hc" "cell_ok C 39 bc"
    "cell_list C hc = cell_list C (head_cell \<sigma> uid)" "cell_list C bc = cell_list C (body_cell \<sigma> uid)"
  shows "keeps C uid \<sigma> \<sigma>'"
  unfolding keeps_def using assms by (intro exI [of _ "(hc, bc, to_be_evictor \<sigma> uid)"]) (simp add: view_def)

lemma keeps_refl: "view_inv C (view \<sigma> uid) \<Longrightarrow> view \<sigma>' = view \<sigma> \<Longrightarrow> keeps C uid \<sigma> \<sigma>'"
  unfolding keeps_def by (intro exI [of _ "view \<sigma> uid"]) simp

lemma keeps_inv: "keeps C uid \<sigma> \<sigma>' \<Longrightarrow> view_inv C (view \<sigma>' uid)"
  by (auto simp: keeps_def)

lemma keeps_trans:
  assumes "keeps C uid \<sigma> \<sigma>'" "keeps C uid \<sigma>' \<sigma>''"
  shows "keeps C uid \<sigma> \<sigma>''"
proof -
  obtain v v' where "view \<sigma>' = (view \<sigma>)(uid := v)" "recent C v = recent C (view \<sigma> uid)"
    "view \<sigma>'' = (view \<sigma>')(uid := v')" "view_inv C v'" "recent C v' = recent C (view \<sigma>' uid)"
    using assms unfolding keeps_def by blast
  then show ?thesis unfolding keeps_def by (intro exI [of _ v']) simp
qed

lemma getFootprintSet_none:
  "FS \<sigma> uid = None \<Longrightarrow> \<not> head_read E \<Longrightarrow> getFootprintSet C E uid \<sigma> = (None, \<sigma>)"
  by (simp add: getFootprintSet_def FootprintFactory_create_def fun_upd_idem)

lemma getFootprintBufSet_none:
  "SFS \<sigma> uid = None \<Longrightarrow> \<not> body_read E \<Longrightarrow> getFootprintBufSet C E uid \<sigma> = (None, \<sigma>)"
  by (simp add: getFootprintBufSet_def FootprintBufFactory_create_def fun_upd_idem)

lemma view_invD:
  assumes "view_inv C (view \<sigma> uid)"
  shows "cell_ok C 9 (head_cell \<sigma> uid)" "cell_ok C 39 (body_cell \<sigma> uid)"
    "lists_inv (cell_list C (head_cell \<sigma> uid)) (cell_list C (body_cell \<sigma> uid)) (to_be_evictor \<sigma> uid)"
  using assms by (simp_all add: view_def)

lemma load_head_keeps:
  assumes "cb_ok C" "view_inv C (view \<sigma> uid)"
  shows "keeps C uid \<sigma> (snd (getFootprintSet C E uid \<sigma>))"
proof (cases "FS \<sigma> uid \<noteq> None \<or> head_read E")
  case True
  note I = view_invD [OF assms(2)]
  obtain p where p: "getFootprintSet C E uid \<sigma> = (Some p, \<sigma>\<lparr>FS := (FS \<sigma>)(uid := Some p)\<rparr>)"
    "cb_list C (fbuf p) = cell_list C (head_cell \<sigma> uid)" "cell_ok C 9 (Some p, head_rows \<sigma> uid, uid \<in> fptnSet \<sigma>)"
    by (rule get_head [OF assms(1) I(1) lists_invD(5) [OF I(3)] True])
  have "view (\<sigma>\<lparr>FS := (FS \<sigma>)(uid := Some p)\<rparr>) =
      (view \<sigma>)(uid := ((Some p, head_rows \<sigma> uid, uid \<in> fptnSet \<sigma>), body_cell \<sigma> uid, to_be_evictor \<sigma> uid))"
    by (auto simp: view_defs fun_eq_iff)
  from keepsI [OF assms(2) this] show ?thesis using p I(2) by simp
next
  case False
  then show ?thesis using assms(2) by (simp add: getFootprintSet_none keeps_refl)
qed

lemma load_body_keeps:
  assumes "cb_ok C" "view_inv C (view \<sigma> uid)"
  shows "keeps C uid \<sigma> (snd (getFootprintBufSet C E uid \<sigma>))"
proof (cases "SFS \<sigma> uid \<noteq> None \<or> body_read E")
  case True
  note I = view_invD [OF assms(2)]
  obtain p where p: "getFootprintBufSet C E uid \<sigma> = (Some p, \<sigma>\<lparr>SFS := (SFS \<sigma>)(uid := Some p)\<rparr>)"
    "cb_list C (fbuf p) = cell_list C (body_cell \<sigma> uid)" "cell_ok C 39 (Some p, body_rows \<sigma> uid, uid \<in> fptnBufSet \<sigma>)"
    by (rule get_body [OF assms(1) I(2) lists_invD(6) [OF I(3)] True])
  have "view (\<sigma>\<lparr>SFS := (SFS \<sigma>)(uid := Some p)\<rparr>) =
      (view \<sigma>)(uid := (head_cell \<sigma> uid, (Some p, body_rows \<sigma> uid, uid \<in> fptnBufSet \<sigma>), to_be_evictor \<sigma> uid))"
    by (auto simp: view_defs fun_eq_iff)
  from keepsI [OF assms(2) this] show ?thesis using p I(1) by simp
next
  case False
  then show ?thesis using assms(2) by (simp add: getFootprintBufSet_none keeps_refl)
qed

lemma view_getAll:
  "view (snd (getAll C E uid begin n t \<sigma>)) = view (snd (getFootprintSet C E uid \<sigma>))"
proof -
  have "view (snd (getAll_body C uid begin n t \<sigma>)) = view \<sigma>" for \<sigma> :: "'a HFC"
    by (auto simp: getAll_body_def split: option.split)
  then show ?thesis by (simp add: getAll_def split_beta Let_def)
qed

lemma getSize_keeps:
  assumes "cb_ok C" "view_inv C (view \<sigma> uid)"
  shows "keeps C uid \<sigma> (snd (getSize C E uid \<sigma>))"
proof -
  let ?s = "snd (getFootprintSet C E uid \<sigma>)"
  have k: "keeps C uid \<sigma> ?s" by (rule load_head_keeps [OF assms])
  have "keeps C uid \<sigma> (snd (getFootprintBufSet C E uid ?s))"
    by (rule keeps_trans [OF k load_body_keeps [OF assms(1) keeps_inv [OF k]]])
  with k show ?thesis by (auto simp: getSize_def split_beta Let_def split: option.split)
qed

lemma drop_keeps:
  assumes "view_inv C (view \<sigma> uid)"
  shows "uid \<notin> fptnSet \<sigma> \<Longrightarrow> keeps C uid \<sigma> (drop_head uid \<sigma>)"
    and "uid \<notin> fptnBufSet \<sigma> \<Longrightarrow> keeps C uid \<sigma> (drop_body uid \<sigma>)"
proof -
  note I = view_invD [OF assms]
  show "keeps C uid \<sigma> (drop_head uid \<sigma>)" if "uid \<notin> fptnSet \<sigma>"
  proof (rule keepsI [OF assms])
    show "view (drop_head uid \<sigma>) = (view \<sigma>)(uid := ((None, head_rows \<sigma> uid, False), body_cell \<sigma> uid, to_be_evictor \<sigma> uid))"
      using that by (auto simp: view_defs fun_eq_iff drop_head_def)
  qed (use I that in \<open>cases "FS \<sigma> uid"; simp add: head_cell_def\<close>)+
  show "keeps C uid \<sigma> (drop_body uid \<sigma>)" if "uid \<notin> fptnBufSet \<sigma>"
  proof (rule keepsI [OF assms])
    show "view (drop_body uid \<sigma>) = (view \<sigma>)(uid := (head_cell \<sigma> uid, (None, body_rows \<sigma> uid, False), to_be_evictor \<sigma> uid))"
      using that by (auto simp: view_defs fun_eq_iff drop_body_def)
  qed (use I that in \<open>cases "SFS \<sigma> uid"; simp add: body_cell_def\<close>)+
qed

text \<open>The task that loads a body is harmless when the cached body does not wait to be saved.\<close>

lemma load_task_keeps:
  assumes "cb_ok C" "view_inv C (view \<sigma> uid)" "uid \<notin> fptnBufSet \<sigma>"
  shows "keeps C uid \<sigma> (LoadBufSetTask_handle C E uid \<sigma>)"
proof (cases "body_read E")
  case True
  have k: "keeps C uid \<sigma> (drop_body uid \<sigma>)" by (rule drop_keeps(2) [OF assms(2,3)])
  have "view (LoadBufSetTask_handle C E uid \<sigma>) = view (snd (getFootprintBufSet C E uid (drop_body uid \<sigma>)))"
    using True by (auto simp: LoadBufSetTask_handle_def getFootprintBufSet_def drop_body_def FootprintBufFactory_create_def
        Let_def view_defs fun_eq_iff)
  then show ?thesis using keeps_trans [OF k load_body_keeps [OF assms(1) keeps_inv [OF k], of E]] by (simp add: keeps_def)
next
  case False
  then show ?thesis
    using assms(2) by (intro keeps_refl) (simp_all add: LoadBufSetTask_handle_def FootprintBufFactory_create_def)
qed

end
