(* ===== verification/FootprintMachine.thy ===== *)
theory FootprintMachine
  imports RecentVisitors
begin

text \<open>
  The runs of the server of home footprints: requests, rounds of the evictor thread, saves, loads and
  evictions of the object caches in any order, and what a page shows after them.
\<close>

section \<open>Answers\<close>

lemma get_loop_all: "t \<le> 0 \<Longrightarrow> get_loop n t xs = take n xs"
  by (induction xs arbitrary: n) (auto simp: take_Cons' split: nat.split)

lemma set_get_all:
  assumes "t \<le> 0" "0 \<le> begin" "0 \<le> n"
  shows "set_get C begin n t b = take (nat n) (drop (nat begin) (cb_list C b))"
proof (cases "begin < int (length (cb_list C b))")
  case True
  then have "take (nat (min n (int (length (cb_list C b)) - begin))) (drop (nat begin) (cb_list C b)) =
      take (nat n) (drop (nat begin) (cb_list C b))"
    using assms by (cases "n \<le> int (length (cb_list C b)) - begin") (auto simp: nat_diff_distrib)
  then show ?thesis using True assms by (simp add: set_get_def Let_def get_loop_all)
qed (use assms in \<open>simp add: set_get_def Let_def\<close>)

lemma getAll_lists:
  assumes "good (h, b)" "0 \<le> begin" "0 \<le> n"
  shows "take n (drop begin (h @ b)) =
    (if begin < 9 then take n (drop begin h) else []) @
    (if begin + n > 9 then if begin \<ge> 9 then take n (drop (begin - 9) b) else take (n + begin - 9) b else [])"
  using assms by (cases "b = []") (auto simp: not_less)

lemma getAll_answer:
  assumes "cb_ok C" "view_inv C (view \<sigma> uid)" "to_be_evictor \<sigma> uid = []" "FS \<sigma> uid \<noteq> None \<or> head_read E"
    "t \<le> 0" "0 \<le> begin" "0 \<le> n" "begin + n < 2 ^ 31" "begin + n \<le> 9 \<or> SFS \<sigma> uid \<noteq> None"
  shows "fst (fst (getAll C E uid begin n t \<sigma>)) = take (nat n) (drop (nat begin) (recent C (view \<sigma> uid)))"
proof -
  let ?h = "cell_list C (head_cell \<sigma> uid)" and ?b = "cell_list C (body_cell \<sigma> uid)"
  note I = view_invD [OF assms(2)]
  obtain p where p: "getFootprintSet C E uid \<sigma> = (Some p, \<sigma>\<lparr>FS := (FS \<sigma>)(uid := Some p)\<rparr>)" "cb_list C (fbuf p) = ?h"
    by (rule get_head [OF assms(1) I(1) lists_invD(5) [OF I(3)] assms(4)])
  have w: "to_int32 (begin + n) = begin + n" "to_int32 (n + begin) = n + begin"
    using assms(6-8) by (simp_all add: to_int32_id)
  have "fst (getAll_body C uid begin n t (\<sigma>\<lparr>FS := (FS \<sigma>)(uid := Some p)\<rparr>)) =
      (if begin + n > 9 then if begin \<ge> 9 then take (nat n) (drop (nat (begin - 9)) ?b) else take (nat (n + begin - 9)) ?b else [])"
    using assms(5-7,9) by (auto simp: getAll_body_def w CACHE_SIZE_def set_get_all body_cell_def)
  then have "fst (fst (getAll C E uid begin n t \<sigma>)) = (if begin < 9 then take (nat n) (drop (nat begin) ?h) else []) @
      (if begin + n > 9 then if begin \<ge> 9 then take (nat n) (drop (nat (begin - 9)) ?b) else take (nat (n + begin - 9)) ?b else [])"
    using assms(5-7) p by (simp add: getAll_def split_beta Let_def CACHE_SIZE_def set_get_all)
  moreover have "good (?h, ?b)" "recent C (view \<sigma> uid) = ?h @ ?b"
    using lists_invD(9) [OF I(3)] assms(3) by (simp_all add: view_def)
  moreover have "nat (begin - 9) = nat begin - 9" "nat (n + begin - 9) = nat n + nat begin - 9"
    "nat begin < 9 \<longleftrightarrow> begin < 9" "nat begin \<ge> 9 \<longleftrightarrow> begin \<ge> 9" "nat begin + nat n > 9 \<longleftrightarrow> begin + n > 9"
    using assms(6,7) by auto
  ultimately show ?thesis using getAll_lists [of ?h ?b "nat begin" "nat n"] by (simp only: zero_le)
qed

lemma load_tasks_count: "load_tasks (snd (getUserVisitCount E uid \<sigma>)) = load_tasks \<sigma>"
  by (auto simp: getUserVisitCount_def locateUserVisitCount_def UserVisitCountFactory_create_def Let_def
      split: option.splits list.splits prod.splits if_splits)

text \<open>With the body not in the cache, the head alone answers, and the body is ordered when the range goes beyond it.\<close>

lemma getAll_uncached:
  assumes "cb_ok C" "view_inv C (view \<sigma> uid)" "to_be_evictor \<sigma> uid = []" "FS \<sigma> uid \<noteq> None \<or> head_read E"
    "t \<le> 0" "0 \<le> begin" "0 \<le> n" "begin + n < 2 ^ 31" "SFS \<sigma> uid = None"
  shows "fst (fst (getAll C E uid begin n t \<sigma>)) = take (nat n) (drop (nat begin) (take 9 (recent C (view \<sigma> uid)))) \<and>
    (begin + n > 9 \<longrightarrow> uid \<in> load_tasks (snd (getAll C E uid begin n t \<sigma>)))"
proof
  let ?h = "cell_list C (head_cell \<sigma> uid)" and ?b = "cell_list C (body_cell \<sigma> uid)"
  note I = view_invD [OF assms(2)]
  obtain p where p: "getFootprintSet C E uid \<sigma> = (Some p, \<sigma>\<lparr>FS := (FS \<sigma>)(uid := Some p)\<rparr>)" "cb_list C (fbuf p) = ?h"
    by (rule get_head [OF assms(1) I(1) lists_invD(5) [OF I(3)] assms(4)])
  let ?s = "\<sigma>\<lparr>FS := (FS \<sigma>)(uid := Some p)\<rparr>"
  have w: "to_int32 (begin + n) = begin + n" using assms(6-8) by (simp add: to_int32_id)
  have body: "getAll_body C uid begin n t ?s = ([], if begin + n > 9 then ?s\<lparr>load_tasks := insert uid (load_tasks ?s)\<rparr> else ?s)"
    using assms(9) by (simp add: getAll_body_def w CACHE_SIZE_def)
  have "good (?h, ?b)" "recent C (view \<sigma> uid) = ?h @ ?b" "length ?h \<le> 9"
    using lists_invD(5,9) [OF I(3)] assms(3) by (simp_all add: view_def)
  then have "take 9 (recent C (view \<sigma> uid)) = ?h" by (cases "?b = []") auto
  then show "fst (fst (getAll C E uid begin n t \<sigma>)) = take (nat n) (drop (nat begin) (take 9 (recent C (view \<sigma> uid))))"
    using assms(5-7) p body \<open>length ?h \<le> 9\<close> by (simp add: getAll_def split_beta Let_def CACHE_SIZE_def set_get_all)
  show "begin + n > 9 \<longrightarrow> uid \<in> load_tasks (snd (getAll C E uid begin n t \<sigma>))"
    using p body by (simp add: getAll_def split_beta Let_def load_tasks_count)
qed

section \<open>Saving\<close>

lemma save_head_keeps:
  assumes "cb_ok C" "view_inv C (view \<sigma> uid)" "uid \<in> fptnSet \<sigma>"
  shows "keeps C uid \<sigma> (save_head C E uid \<sigma>)"
proof -
  note I = view_invD [OF assms(2)]
  obtain p where f: "FS \<sigma> uid = Some p" using I(1) assms(3) by (cases "FS \<sigma> uid") (auto simp: head_cell_def)
  let ?h = "cb_list C (fbuf p)" and ?s = "\<sigma>\<lparr>fptnSet := fptnSet \<sigma> - {uid}\<rparr>"
  have h: "cell_list C (head_cell \<sigma> uid) = ?h" "cb_capacity C (fbuf p) = 9" using I(1) f by (simp_all add: head_cell_def)
  have l: "length ?h \<le> 9" "\<forall>x \<in> set ?h. storable x" using lists_invD(1,5) [OF I(3)] h by simp_all
  have g: "getFootprintSet C E uid ?s = (Some p, ?s)" using f by (simp add: getFootprintSet_def)
  have "fst (fst (getAll C E uid 0 CACHE_SIZE 0 ?s)) = ?h"
    using l(1) by (simp add: getAll_def g getAll_body_def split_beta Let_def CACHE_SIZE_def to_int32_def set_get_all)
  moreover have v: "view (snd (getAll C E uid 0 CACHE_SIZE 0 ?s)) = view ?s" by (simp add: view_getAll g)
  moreover have "FS (snd (getAll C E uid 0 CACHE_SIZE 0 ?s)) uid = Some p"
    using fun_cong [OF v, of uid] f by (simp add: view_defs)
  ultimately have "view (save_head C E uid \<sigma>) = (view \<sigma>)(uid :=
      ((Some (converted C p), Some (serialize_home ?h), False), body_cell \<sigma> uid, to_be_evictor \<sigma> uid))"
    by (auto simp: save_head_def split_beta Let_def view_defs fun_eq_iff)
  from keepsI [OF assms(2) this] show ?thesis
    using converted_list [OF assms(1) l(2)] home_steps_serialize [OF l(2)] h I(2) by (simp add: row_steps_def)
qed

lemma save_body_keeps:
  assumes "cb_ok C" "view_inv C (view \<sigma> uid)" "uid \<in> fptnBufSet \<sigma>"
  shows "keeps C uid \<sigma> (save_body C E uid \<sigma>)"
proof -
  let ?t = "snd (getFootprintSet C E uid \<sigma>)"
  have k: "keeps C uid \<sigma> ?t" by (rule load_head_keeps [OF assms(1,2)])
  note I = view_invD [OF keeps_inv [OF k]]
  have same: "SFS ?t = SFS \<sigma>" "body_rows ?t = body_rows \<sigma>" "fptnBufSet ?t = fptnBufSet \<sigma>"
    "to_be_evictor ?t = to_be_evictor \<sigma>" by (auto simp: getFootprintSet_def Let_def split: option.split)
  obtain p where f: "SFS \<sigma> uid = Some p" using I(2) assms(3) same by (cases "SFS \<sigma> uid") (auto simp: body_cell_def)
  let ?b = "cb_list C (fbuf p)" and ?s = "\<sigma>\<lparr>fptnBufSet := fptnBufSet \<sigma> - {uid}\<rparr>"
  have b: "cell_list C (body_cell ?t uid) = ?b" "cb_capacity C (fbuf p) = 39"
    using I(2) f same by (simp_all add: body_cell_def)
  have l: "length ?b \<le> 39" "\<forall>x \<in> set ?b. storable x" using lists_invD(2,6) [OF I(3)] b by simp_all
  have g: "getFootprintSet C E uid ?s = (fst (getFootprintSet C E uid \<sigma>), ?t\<lparr>fptnBufSet := fptnBufSet \<sigma> - {uid}\<rparr>)"
    by (auto simp: getFootprintSet_def FootprintFactory_create_def Let_def split: option.split)
  let ?r = "getAll C E uid CACHE_SIZE CACHE_BUF_SIZE 0 ?s"
  have "fst (fst ?r) = ?b"
    using l(1) f same by (simp add: getAll_def g getAll_body_def split_beta Let_def CACHE_SIZE_def CACHE_BUF_SIZE_def
        to_int32_def set_get_all)
  moreover have v: "view (snd ?r) = view (?t\<lparr>fptnBufSet := fptnBufSet \<sigma> - {uid}\<rparr>)" by (simp add: view_getAll g)
  moreover have "SFS (snd ?r) uid = Some p" using fun_cong [OF v, of uid] f same by (simp add: view_defs)
  ultimately have "view (save_body C E uid \<sigma>) = (view ?t)(uid :=
      (head_cell ?t uid, (Some (converted C p), Some (serialize_home ?b), False), to_be_evictor ?t uid))"
    using same by (auto simp: save_body_def split_beta Let_def view_defs fun_eq_iff)
  from keepsI [OF keeps_inv [OF k] this] have "keeps C uid ?t (save_body C E uid \<sigma>)"
    using converted_list [OF assms(1) l(2)] home_steps_serialize [OF l(2)] b I(1) by (simp add: row_steps_def)
  then show ?thesis by (rule keeps_trans [OF k])
qed

section \<open>Runs\<close>

definition hfc_init :: "'b HFC" where
  "hfc_init = \<lparr>FS = (\<lambda>_. None), SFS = (\<lambda>_. None), UVC = (\<lambda>_. None), head_rows = (\<lambda>_. None), body_rows = (\<lambda>_. None),
     count_rows = (\<lambda>_. []), to_be_evictor = (\<lambda>_. []), fptnSet = {}, fptnBufSet = {}, owners = {}, load_tasks = {},
     replica_counts = (\<lambda>_. None), batch_updates = [], limit_notices = []\<rparr>"

text \<open>
  Runs from an empty database, with the requests each owner has been served, restricted in four ways
  that no code enforces. A request is one step, and so is a round of the evictor thread. A visit to a
  page and a removal from it come when no fill of the page is pending. An object leaves the cache, or is
  loaded over, only when it does not wait to be saved. A round of the evictor thread finds the sets of
  its owner in the cache or in the database. Without the second restriction a visitor can be shown twice
  (\<open>pending_fills_duplicate\<close>), without the third the body can be saved empty
  (\<open>evicted_body_saved_empty\<close>). \<open>getAll\<close>, \<open>getSize\<close> and the rounds of other pages are not restricted.
\<close>

inductive hfc_reach :: "('b, HomeStep) CB \<Rightarrow> 'b HFC \<Rightarrow> (int \<Rightarrow> Request list) \<Rightarrow> bool" for C where
  reach_start: "hfc_reach C hfc_init (\<lambda>_. [])"
| reach_visit: "\<lbrakk>hfc_reach C \<sigma> lg; no_fill (to_be_evictor \<sigma> uid); storable x\<rbrakk>
    \<Longrightarrow> hfc_reach C (visit C E uid x nw \<sigma>)
          (if FS \<sigma> uid \<noteq> None \<or> head_read E then lg(uid := lg uid @ [Visit x]) else lg)"
| reach_remove: "\<lbrakk>hfc_reach C \<sigma> lg; no_fill (to_be_evictor \<sigma> uid)\<rbrakk>
    \<Longrightarrow> hfc_reach C (remove C E uid x \<sigma>)
          (if FS \<sigma> uid \<noteq> None \<or> head_read E then lg(uid := lg uid @ [Remove (visitor x)]) else lg)"
| reach_evict: "\<lbrakk>hfc_reach C \<sigma> lg; FS \<sigma> uid \<noteq> None \<or> head_read E; SFS \<sigma> uid \<noteq> None \<or> body_read E\<rbrakk>
    \<Longrightarrow> hfc_reach C (evictor_run C E [uid] \<sigma>) lg"
| reach_getAll: "hfc_reach C \<sigma> lg \<Longrightarrow> hfc_reach C (snd (getAll C E uid begin n t \<sigma>)) lg"
| reach_getSize: "hfc_reach C \<sigma> lg \<Longrightarrow> hfc_reach C (snd (getSize C E uid \<sigma>)) lg"
| reach_save_head: "hfc_reach C \<sigma> lg \<Longrightarrow> uid \<in> fptnSet \<sigma> \<Longrightarrow> hfc_reach C (save_head C E uid \<sigma>) lg"
| reach_save_body: "hfc_reach C \<sigma> lg \<Longrightarrow> uid \<in> fptnBufSet \<sigma> \<Longrightarrow> hfc_reach C (save_body C E uid \<sigma>) lg"
| reach_drop_head: "hfc_reach C \<sigma> lg \<Longrightarrow> uid \<notin> fptnSet \<sigma> \<Longrightarrow> hfc_reach C (drop_head uid \<sigma>) lg"
| reach_drop_body: "hfc_reach C \<sigma> lg \<Longrightarrow> uid \<notin> fptnBufSet \<sigma> \<Longrightarrow> hfc_reach C (drop_body uid \<sigma>) lg"
| reach_load: "hfc_reach C \<sigma> lg \<Longrightarrow> uid \<notin> fptnBufSet \<sigma> \<Longrightarrow> hfc_reach C (LoadBufSetTask_handle C E uid \<sigma>) lg"

definition agrees :: "('b, HomeStep) CB \<Rightarrow> 'b HFC \<Rightarrow> (int \<Rightarrow> Request list) \<Rightarrow> bool" where
  "agrees C \<sigma> lg \<longleftrightarrow> (\<forall>uid. view_inv C (view \<sigma> uid) \<and> recent C (view \<sigma> uid) = foldl spec_step [] (lg uid))"

lemma agrees_keeps: "agrees C \<sigma> lg \<Longrightarrow> keeps C uid \<sigma> \<sigma>' \<Longrightarrow> agrees C \<sigma>' lg"
  unfolding keeps_def by (auto simp: agrees_def)

lemma agrees_request:
  "agrees C \<sigma> lg \<Longrightarrow> view \<sigma>' = (view \<sigma>)(uid := v) \<Longrightarrow> view_inv C v \<Longrightarrow>
   recent C v = spec_step (recent C (view \<sigma> uid)) r \<Longrightarrow> agrees C \<sigma>' (lg(uid := lg uid @ [r]))"
  by (auto simp: agrees_def)

lemma agrees_visit:
  assumes "cb_ok C" "agrees C \<sigma> lg" "no_fill (to_be_evictor \<sigma> uid)" "storable x"
  shows "agrees C (visit C E uid x nw \<sigma>)
    (if FS \<sigma> uid \<noteq> None \<or> head_read E then lg(uid := lg uid @ [Visit x]) else lg)"
proof (cases "FS \<sigma> uid \<noteq> None \<or> head_read E")
  case True
  have "view_inv C (view \<sigma> uid)" using assms(2) by (simp add: agrees_def)
  then obtain v where "view (visit C E uid x nw \<sigma>) = (view \<sigma>)(uid := v)" "view_inv C v"
    "recent C v = spec_visit x (recent C (view \<sigma> uid))" by (rule visit_inv [OF assms(1) _ True assms(3,4)])
  then show ?thesis using True agrees_request [OF assms(2), of _ uid v "Visit x"] by simp
next
  case False
  then have "visit C E uid x nw \<sigma> = \<sigma>" by (simp add: visit_def getFootprintSet_none)
  with False assms(2) show ?thesis by auto
qed

lemma agrees_remove:
  assumes "cb_ok C" "agrees C \<sigma> lg" "no_fill (to_be_evictor \<sigma> uid)"
  shows "agrees C (remove C E uid x \<sigma>)
    (if FS \<sigma> uid \<noteq> None \<or> head_read E then lg(uid := lg uid @ [Remove (visitor x)]) else lg)"
proof (cases "FS \<sigma> uid \<noteq> None \<or> head_read E")
  case True
  have "view_inv C (view \<sigma> uid)" using assms(2) by (simp add: agrees_def)
  then obtain v where "view (remove C E uid x \<sigma>) = (view \<sigma>)(uid := v)" "view_inv C v"
    "recent C v = without (visitor x) (recent C (view \<sigma> uid))" by (rule remove_inv [OF assms(1) _ True assms(3)])
  then show ?thesis using True agrees_request [OF assms(2), of _ uid v "Remove (visitor x)"] by simp
next
  case False
  then have "remove C E uid x \<sigma> = \<sigma>" by (simp add: remove_def getFootprintSet_none)
  with False assms(2) show ?thesis by auto
qed

lemma reach_agrees:
  assumes "cb_ok C" "hfc_reach C \<sigma> lg"
  shows "agrees C \<sigma> lg"
  using assms(2)
proof (induction rule: hfc_reach.induct)
  case reach_start
  show ?case by (simp add: agrees_def view_defs hfc_init_def row_steps_def lists_inv_def)
next
  case (reach_visit \<sigma> lg uid x E nw)
  show ?case by (rule agrees_visit [OF assms(1) reach_visit.IH reach_visit.hyps(2,3)])
next
  case (reach_remove \<sigma> lg uid E x)
  show ?case by (rule agrees_remove [OF assms(1) reach_remove.IH reach_remove.hyps(2)])
next
  case (reach_evict \<sigma> lg uid E)
  then have inv: "view_inv C (view \<sigma> uid)" by (simp add: agrees_def)
  obtain v where "view (evictor_run C E [uid] \<sigma>) = (view \<sigma>)(uid := v)" "view_inv C v" "recent C v = recent C (view \<sigma> uid)"
    by (rule evictor_round [OF assms(1) inv reach_evict.hyps(2,3)])
  then have "keeps C uid \<sigma> (evictor_run C E [uid] \<sigma>)" unfolding keeps_def by blast
  then show ?case by (rule agrees_keeps [OF reach_evict.IH])
next
  case (reach_getAll \<sigma> lg E uid k n t)
  then have "view_inv C (view \<sigma> uid)" by (simp add: agrees_def)
  then have "keeps C uid \<sigma> (snd (getAll C E uid k n t \<sigma>))"
    using load_head_keeps [OF assms(1), of \<sigma> uid E] by (simp add: keeps_def view_getAll)
  then show ?case by (rule agrees_keeps [OF reach_getAll.IH])
next
  case (reach_getSize \<sigma> lg E uid)
  then show ?case using agrees_keeps getSize_keeps [OF assms(1)] by (metis agrees_def)
next
  case (reach_save_head \<sigma> lg uid E)
  then show ?case using agrees_keeps save_head_keeps [OF assms(1)] by (metis agrees_def)
next
  case (reach_save_body \<sigma> lg uid E)
  then show ?case using agrees_keeps save_body_keeps [OF assms(1)] by (metis agrees_def)
next
  case (reach_drop_head \<sigma> lg uid)
  then show ?case using agrees_keeps drop_keeps(1) by (metis agrees_def)
next
  case (reach_drop_body \<sigma> lg uid)
  then show ?case using agrees_keeps drop_keeps(2) by (metis agrees_def)
next
  case (reach_load \<sigma> lg uid E)
  then show ?case using agrees_keeps load_task_keeps [OF assms(1)] by (metis agrees_def)
qed

section \<open>The specification and the complete history\<close>

fun full_step :: "HomeStep list \<Rightarrow> Request \<Rightarrow> HomeStep list" where
  "full_step F (Visit x) = x # without (visitor x) F"
| "full_step F (Remove v) = without v F"

lemma length_without_ge: "distinct (visitors xs) \<Longrightarrow> length xs \<le> Suc (length (without v xs))"
  using length_without [of xs v] without_absent [of v xs] by (cases "v \<in> set (visitors xs)") auto

lemma spec_distinct: "distinct (visitors L) \<Longrightarrow> distinct (visitors (spec_step L r))"
  by (cases r) (auto simp: spec_visit_def intro!: distinct_without distinct_take_visitors)

lemma spec_length: "distinct (visitors L) \<Longrightarrow> length L \<le> 48 \<Longrightarrow> length (spec_step L r) \<le> 48"
proof (cases r)
  case (Visit x)
  assume d: "distinct (visitors L)" "length L \<le> 48"
  show ?thesis
  proof (cases "visitor x \<in> set (visitors (take 9 L))")
    case True
    then have "visitor x \<in> set (visitors L)" using visitors_take by blast
    then show ?thesis using True length_without [OF d(1), of "visitor x"] d(2) Visit by (simp add: spec_visit_def)
  next
    case False
    have "length (without (visitor x) (take 47 L)) \<le> 47" by (rule order_trans [OF length_filter_le]) simp
    then show ?thesis using False Visit by (simp add: spec_visit_def)
  qed
next
  case (Remove v)
  assume "length L \<le> 48"
  then have "length (without v L) \<le> 48" by (rule order_trans [OF length_filter_le])
  then show ?thesis using Remove by simp
qed

lemma prefix_without: "L = take n F \<Longrightarrow> \<exists>m. without v L = take m (without v F)"
proof -
  assume "L = take n F"
  then have "without v F = without v L @ without v (drop n F)" by (metis append_take_drop_id filter_append)
  then show ?thesis by (intro exI [of _ "length (without v L)"]) simp
qed

lemma spec_prefix: "\<exists>n. foldl spec_step [] rs = take n (foldl full_step [] rs)"
proof (induction rs rule: rev_induct)
  case (snoc r rs)
  then obtain n where n: "foldl spec_step [] rs = take n (foldl full_step [] rs)" by blast
  show ?case
  proof (cases r)
    case (Visit x)
    obtain k where k: "(if visitor x \<in> set (visitors (take 9 (foldl spec_step [] rs))) then foldl spec_step [] rs
        else take 47 (foldl spec_step [] rs)) = take k (foldl full_step [] rs)"
      unfolding n by (metis take_take)
    obtain m where "without (visitor x) (take k (foldl full_step [] rs)) =
        take m (without (visitor x) (foldl full_step [] rs))" using prefix_without by blast
    then show ?thesis using Visit k by (intro exI [of _ "Suc m"]) (simp add: spec_visit_def)
  next
    case (Remove v)
    then show ?thesis using prefix_without [OF n] by simp
  qed
qed simp

lemma spec_keeps_47:
  assumes "\<forall>r \<in> set rs. \<exists>x. r = Visit x"
  defines "L \<equiv> foldl spec_step [] rs" and "F \<equiv> foldl full_step [] rs"
  shows "distinct (visitors L) \<and> length L \<le> 48 \<and> (L = F \<or> 47 \<le> length L)"
  unfolding L_def F_def using assms(1)
proof (induction rs rule: rev_induct)
  case (snoc r rs)
  let ?L = "foldl spec_step [] rs" and ?F = "foldl full_step [] rs"
  obtain x where r: "r = Visit x" using snoc.prems by auto
  have IH: "distinct (visitors ?L)" "length ?L \<le> 48" "?L = ?F \<or> 47 \<le> length ?L" using snoc by auto
  let ?K = "if visitor x \<in> set (visitors (take 9 ?L)) then ?L else take 47 ?L"
  have s: "spec_step ?L r = x # without (visitor x) ?K" by (simp add: r spec_visit_def)
  have "?K = ?F \<or> 47 \<le> length ?K" using IH(2,3) by (auto simp: min_def)
  moreover have "length ?K \<le> Suc (length (without (visitor x) ?K))"
    using IH(1) by (intro length_without_ge) (auto intro: distinct_take_visitors)
  ultimately have "spec_step ?L r = full_step ?F r \<or> 47 \<le> length (spec_step ?L r)"
    unfolding s by (auto simp: r)
  then show ?case using spec_distinct [OF IH(1)] spec_length [OF IH(1,2)] by simp
qed simp

section \<open>Properties\<close>

definition env_at :: "int \<Rightarrow> Env" where
  "env_at t = \<lparr>now = t, head_read = True, body_read = True, count_read = True, count_default = 0\<rparr>"

text \<open>C6. In the runs of \<open>hfc_reach\<close> the requests, rounds of the evictor thread, saves, loads and cache evictions
  implement one list of the page: the two caches, the queue and the rows together hold the list that the
  specification computes from the requests. The runs are the restricted ones: atomic requests and rounds of the
  evictor, visits and removals only while no fill of the page is pending, loads and cache evictions only
  of what does not wait to be saved. The code enforces none of this, and outside these runs the claim is false:
  \<open>pending_fills_duplicate\<close> and \<open>evicted_body_saved_empty\<close> are the counterexamples.\<close>

theorem footprints_refine:
  assumes "cb_ok C" "hfc_reach C \<sigma> lg"
  shows "recent C (view \<sigma> uid) = foldl spec_step [] (lg uid)"
  using reach_agrees [OF assms] by (simp add: agrees_def)

definition demo_run :: "(nat \<times> HomeStep list) HFC" where
  "demo_run = visit list_cb (env_at 1300000000) 1 (step_at 5 1300000000) False hfc_init"

lemma demo_reach: "hfc_reach list_cb demo_run ((\<lambda>_. [])(1 := [Visit (step_at 5 1300000000)]))"
  using reach_visit [OF reach_start, of 1 "step_at 5 1300000000" list_cb "env_at 1300000000" False]
  by (simp add: demo_run_def hfc_init_def no_fill_def storable_def step_at_def env_at_def MIN_LIMIT_def bit_iff_odd)

theorem footprints_refine_witness:
  "cb_ok list_cb \<and> hfc_reach list_cb demo_run ((\<lambda>_. [])(1 := [Visit (step_at 5 1300000000)])) \<and>
   recent list_cb (view demo_run 1) = [step_at 5 1300000000]"
  using footprints_refine [OF list_cb_ok demo_reach, of 1] list_cb_ok demo_reach by (simp add: spec_visit_def)

text \<open>C37. In the restricted runs of C6, when nothing of a page is pending, \<open>getAll\<close> without a limit of time answers
  exactly the asked range of the page's list, taken from two caches, when the body is in the cache or the range
  stays within the nine of the head. When the body is not in the cache it answers the range of the
  first nine of the list alone, and orders the body to be loaded if the range goes beyond them. The head has to be
  in the cache or readable, and \<open>begin\<close> and the limit are not negative with a sum that fits an int.\<close>

theorem footprint_page_exact:
  assumes "cb_ok C" "hfc_reach C \<sigma> lg" "to_be_evictor \<sigma> uid = []" "FS \<sigma> uid \<noteq> None \<or> head_read E"
    "0 \<le> first" "0 \<le> n" "first + n < 2 ^ 31"
  shows "fst (fst (getAll C E uid first n 0 \<sigma>)) = take (nat n) (drop (nat first)
      (if first + n \<le> 9 \<or> SFS \<sigma> uid \<noteq> None then foldl spec_step [] (lg uid) else take 9 (foldl spec_step [] (lg uid)))) \<and>
    (first + n > 9 \<and> SFS \<sigma> uid = None \<longrightarrow> uid \<in> load_tasks (snd (getAll C E uid first n 0 \<sigma>)))"
proof -
  have r: "view_inv C (view \<sigma> uid)" "recent C (view \<sigma> uid) = foldl spec_step [] (lg uid)"
    using reach_agrees [OF assms(1,2)] by (simp_all add: agrees_def)
  show ?thesis
    using getAll_answer [OF assms(1) r(1) assms(3,4) _ assms(5-7), of 0]
      getAll_uncached [OF assms(1) r(1) assms(3,4) _ assms(5-7), of 0] by (auto simp: r(2))
qed

lemma demo_round: "hfc_reach list_cb (evictor_run list_cb (env_at 1300000000) [1] demo_run)
    ((\<lambda>_. [])(1 := [Visit (step_at 5 1300000000)]))"
  by (rule reach_evict [OF demo_reach]) (simp_all add: env_at_def)

lemma demo_round_quiet:
  "to_be_evictor (evictor_run list_cb (env_at 1300000000) [1] demo_run) 1 = []"
  "SFS (evictor_run list_cb (env_at 1300000000) [1] demo_run) 1 \<noteq> None"
  by code_simp+

theorem footprint_page_exact_witness:
  "fst (fst (getAll list_cb (env_at 1300000000) 1 0 20 0 (evictor_run list_cb (env_at 1300000000) [1] demo_run))) =
     [step_at 5 1300000000]"
  using footprint_page_exact [OF list_cb_ok demo_round demo_round_quiet(1), of "env_at 1300000000" 0 20] demo_round_quiet(2)
  by (simp add: spec_visit_def env_at_def)

text \<open>In every run the head of a page holds at most nine footprints and its body at most thirty-nine, in the cache or
  in the database, and once its queue is worked off no visitor is shown twice and the body is used only behind a full head.
\<close>

lemma footprint_caches_bounded:
  assumes "cb_ok C" "hfc_reach C \<sigma> lg"
  shows "length (cell_list C (head_cell \<sigma> uid)) \<le> 9 \<and> length (cell_list C (body_cell \<sigma> uid)) \<le> 39 \<and>
    distinct (visitors (recent C (view \<sigma> uid))) \<and>
    (to_be_evictor \<sigma> uid = [] \<and> cell_list C (body_cell \<sigma> uid) \<noteq> [] \<longrightarrow> length (cell_list C (head_cell \<sigma> uid)) = 9)"
proof (intro conjI impI)
  have inv: "view_inv C (view \<sigma> uid)" using reach_agrees [OF assms] by (simp add: agrees_def)
  note I = lists_invD [OF view_invD(3) [OF inv]]
  show "length (cell_list C (head_cell \<sigma> uid)) \<le> 9" "length (cell_list C (body_cell \<sigma> uid)) \<le> 39" by (fact I)+
  show "distinct (visitors (recent C (view \<sigma> uid)))"
    using I(9) by (cases "run (to_be_evictor \<sigma> uid) (cell_list C (head_cell \<sigma> uid), cell_list C (body_cell \<sigma> uid))")
      (simp add: view_def)
  show "length (cell_list C (head_cell \<sigma> uid)) = 9"
    if "to_be_evictor \<sigma> uid = [] \<and> cell_list C (body_cell \<sigma> uid) \<noteq> []" using I(9) that by simp
qed

lemma footprint_caches_bounded_witness:
  "length (cell_list list_cb (head_cell demo_run 1)) \<le> 9 \<and> distinct (visitors (recent list_cb (view demo_run 1)))"
  using footprint_caches_bounded [OF list_cb_ok demo_reach, of 1] by blast

text \<open>The list of a page is always a first part of its complete history, in which every visitor stands at the place of
  the last visit; while nothing is removed from the page, it has at least the forty-seven newest visitors.
\<close>

lemma newest_visitors_kept:
  assumes "cb_ok C" "hfc_reach C \<sigma> lg"
  shows "\<exists>n. recent C (view \<sigma> uid) = take n (foldl full_step [] (lg uid)) \<and>
    ((\<forall>r \<in> set (lg uid). \<exists>x. r = Visit x) \<longrightarrow> 47 \<le> n)"
proof -
  let ?F = "foldl full_step [] (lg uid)"
  have r: "recent C (view \<sigma> uid) = foldl spec_step [] (lg uid)" using reach_agrees [OF assms] by (simp add: agrees_def)
  obtain n where n: "recent C (view \<sigma> uid) = take n ?F" using spec_prefix [of "lg uid"] r by auto
  show ?thesis
  proof (cases "\<forall>r \<in> set (lg uid). \<exists>x. r = Visit x")
    case True
    then have "take n ?F = ?F \<or> 47 \<le> length (take n ?F)" using spec_keeps_47 [of "lg uid"] n r by simp
    then show ?thesis
    proof
      assume "take n ?F = ?F"
      then show ?thesis using n by (intro exI [of _ "max 47 (length ?F)"]) simp
    qed (use n in auto)
  qed (use n in blast)
qed

lemma newest_visitors_kept_witness:
  "\<exists>n. recent list_cb (view demo_run 1) = take n [step_at 5 1300000000] \<and> 47 \<le> n"
  using newest_visitors_kept [OF list_cb_ok demo_reach, of 1] by simp

section \<open>Where the server falls short\<close>

text \<open>The notice that a page has reached its limit of counted visits is never sent.\<close>

lemma limit_notices_kept:
  "limit_notices (snd (getFootprintSet C E uid \<sigma>)) = limit_notices \<sigma>"
  "limit_notices (incUserVisitCount E uid \<sigma>) = limit_notices \<sigma>"
  "limit_notices (evictor_put uid x n \<sigma>) = limit_notices \<sigma>" "limit_notices (save_put uid \<sigma>) = limit_notices \<sigma>"
  by (auto simp: getFootprintSet_def incUserVisitCount_def locateUserVisitCount_def UserVisitCountFactory_create_def
      evictor_put_def save_put_def Let_def split: option.splits prod.splits list.splits if_splits)

lemma limit_never_notified: "limit_notices (visit C E uid x nw \<sigma>) = limit_notices \<sigma>"
proof -
  obtain p \<sigma>' where g: "getFootprintSet C E uid \<sigma> = (p, \<sigma>')" by fastforce
  have "limit_notices \<sigma>' = limit_notices \<sigma>" using limit_notices_kept(1) [of C E uid \<sigma>] g by simp
  moreover have "fst (fst (home_add C t x ig p)) \<noteq> REACHLIMIT" for t ig p
    by (auto simp: home_add_def Let_def as_bool_def REACHLIMIT_def VALID_def VISITSHORT_def split: prod.split)
  ultimately show ?thesis
    by (simp add: visit_def g split_beta Let_def limit_notices_kept split: option.split)
qed

text \<open>A body that has left the cache before it is saved is overwritten in the database by an empty list.\<close>

lemma evicted_body_saved_empty: "SFS \<sigma> uid = None \<Longrightarrow> row_steps (body_rows (save_body C E uid \<sigma>) uid) = []"
  by (auto simp: save_body_def getAll_def getAll_body_def getFootprintSet_def CACHE_SIZE_def Let_def split_beta
      serialize_home_def row_steps_def split: option.split)

text \<open>Two removes and a visit of the first one of the body, before the head is filled again, show this visitor twice.\<close>

definition full_page :: "(nat \<times> HomeStep list) HFC" where
  "full_page = hfc_init\<lparr>
     FS := [1 \<mapsto> \<lparr>fbuf = (9, map (\<lambda>v. step_at v 1300000000) [2 .. 10]), ownerId = 1, viewCountLimitTime = 1299974400, viewCountLimtCount = 9\<rparr>],
     SFS := [1 \<mapsto> \<lparr>fbuf = (39, [step_at 11 1300000000]), ownerId = 1, viewCountLimitTime = 1299974400, viewCountLimtCount = 0\<rparr>]\<rparr>"

lemma pending_fills_duplicate:
  "visitors (recent list_cb (view (visit list_cb (env_at 1300000000) 1 (step_at 11 1300000000) True
     (remove list_cb (env_at 1300000000) 1 (step_at 3 0) (remove list_cb (env_at 1300000000) 1 (step_at 2 0) full_page))) 1)) =
   [11, 4, 5, 6, 7, 8, 9, 10, 11]"
  by code_simp

end
