(* ===== verification/StdMap.thy ===== *)
theory StdMap
  imports OcePrelude "HOL-Library.List_Lexorder" "HOL-Library.Char_ord"
begin

text \<open>
  The ordered containers of the C++ library: a \<open>std::map\<close> as the list of its entries in ascending order of
  the keys, a \<open>std::set\<close> as the ascending list of its elements. Strings are compared by their bytes. The locale
  \<open>std_map\<close> is the contract of a map; it is interpreted on the lists.
\<close>

type_synonym ('k, 'v) stdmap = "('k \<times> 'v) list"

fun m_put :: "'k::linorder \<Rightarrow> 'v \<Rightarrow> ('k, 'v) stdmap \<Rightarrow> ('k, 'v) stdmap" where
  "m_put k v [] = [(k, v)]"
| "m_put k v (e # m) =
     (if k < fst e then (k, v) # e # m else if k = fst e then (k, v) # m else e # m_put k v m)"

definition m_find :: "('k, 'v) stdmap \<Rightarrow> 'k \<Rightarrow> 'v option" where
  "m_find m k = map_of m k"

definition m_erase :: "'k \<Rightarrow> ('k, 'v) stdmap \<Rightarrow> ('k, 'v) stdmap" where
  "m_erase k m = filter (\<lambda>e. fst e \<noteq> k) m"

definition m_wf :: "('k::linorder, 'v) stdmap \<Rightarrow> bool" where
  "m_wf m \<longleftrightarrow> sorted_wrt (<) (map fst m)"

fun s_insert :: "'a::linorder \<Rightarrow> 'a list \<Rightarrow> 'a list" where
  "s_insert x [] = [x]"
| "s_insert x (y # ys) = (if x < y then x # y # ys else if x = y then y # ys else y # s_insert x ys)"

definition s_erase :: "'a \<Rightarrow> 'a list \<Rightarrow> 'a list" where
  "s_erase x xs = filter (\<lambda>y. y \<noteq> x) xs"

definition s_inserts :: "'a::linorder list \<Rightarrow> 'a list \<Rightarrow> 'a list" where
  "s_inserts xs s = foldl (\<lambda>s x. s_insert x s) s xs"

abbreviation s_wf :: "'a::linorder list \<Rightarrow> bool" where
  "s_wf \<equiv> sorted_wrt (<)"

section \<open>Maps\<close>

lemma m_put_keys: "set (map fst (m_put k v m)) = insert k (set (map fst m))"
  by (induction k v m rule: m_put.induct) auto

lemma m_put_wf: "m_wf m \<Longrightarrow> m_wf (m_put k v m)"
proof (induction k v m rule: m_put.induct)
  case (2 k v e m)
  then show ?case using m_put_keys [of k v m] by (auto simp: m_wf_def)
qed (simp add: m_wf_def)

lemma m_put_find: "m_wf m \<Longrightarrow> m_find (m_put k v m) = (m_find m)(k \<mapsto> v)"
proof (induction k v m rule: m_put.induct)
  case (2 k v e m)
  then show ?case by (cases e) (auto simp: m_wf_def m_find_def fun_eq_iff)
qed (simp add: m_find_def fun_eq_iff)

lemma m_erase_wf: "m_wf m \<Longrightarrow> m_wf (m_erase k m)"
  unfolding m_wf_def m_erase_def sorted_wrt_map by (rule sorted_wrt_filter)

lemma m_erase_find: "m_find (m_erase k m) = (m_find m)(k := None)"
  by (induction m) (auto simp: m_erase_def m_find_def fun_eq_iff)

lemma m_wf_distinct: "m_wf m \<Longrightarrow> distinct (map fst m)"
  by (simp add: m_wf_def strict_sorted_iff)

lemma m_find_in: "m_wf m \<Longrightarrow> m_find m k = Some v \<longleftrightarrow> (k, v) \<in> set m"
  using m_wf_distinct [of m] by (simp add: m_find_def)

lemma m_find_dom: "m_find m k = None \<longleftrightarrow> k \<notin> fst ` set m"
  by (simp add: m_find_def map_of_eq_None_iff)

lemma m_find_map: "m_find (map (\<lambda>e. (fst e, f (snd e))) m) k = map_option f (m_find m k)"
  by (induction m) (simp_all add: m_find_def)

text \<open>Two ordered lists with the same entries are the same list.\<close>

lemma m_wf_unique: "m_wf m \<Longrightarrow> m_wf n \<Longrightarrow> m_find m = m_find n \<Longrightarrow> m = n"
proof -
  assume a: "m_wf m" "m_wf n" "m_find m = m_find n"
  then have s: "set m = set n" by (auto simp: m_find_in [symmetric])
  moreover have "map fst m = map fst n"
    using a(1,2) arg_cong [OF s, of "image fst"] by (intro sorted_distinct_set_unique) (auto simp: m_wf_def strict_sorted_iff)
  ultimately show "m = n" using m_wf_distinct [OF a(1)] by (intro map_inj_on [of fst]) (auto simp: distinct_map)
qed

locale std_map =
  fixes wf :: "'m \<Rightarrow> bool" and find :: "'m \<Rightarrow> 'k \<Rightarrow> 'v option"
    and put :: "'k \<Rightarrow> 'v \<Rightarrow> 'm \<Rightarrow> 'm" and erase :: "'k \<Rightarrow> 'm \<Rightarrow> 'm"
  assumes wf_put: "wf m \<Longrightarrow> wf (put k v m)"
    and wf_erase: "wf m \<Longrightarrow> wf (erase k m)"
    and find_put: "wf m \<Longrightarrow> find (put k v m) = (find m)(k \<mapsto> v)"
    and find_erase: "wf m \<Longrightarrow> find (erase k m) = (find m)(k := None)"
begin

lemma move:
  "wf m \<Longrightarrow> find m old = Some v \<Longrightarrow> old \<noteq> new \<Longrightarrow>
   find (erase old (put new v m)) = (find m)(old := None, new \<mapsto> v) \<and> wf (erase old (put new v m))"
  by (simp add: wf_put wf_erase find_put find_erase fun_upd_twist)

lemma erase_all:
  "wf m \<Longrightarrow> wf (foldr erase ks m) \<and> find (foldr erase ks m) = (\<lambda>k. if k \<in> set ks then None else find m k)"
  by (induction ks) (auto simp: wf_erase find_erase fun_eq_iff)

lemma put_all:
  "wf m \<Longrightarrow> wf (foldl (\<lambda>m e. put (fst e) (snd e) m) m es) \<and>
   find (foldl (\<lambda>m e. put (fst e) (snd e) m) m es) = find m ++ map_of (rev es)"
proof (induction es arbitrary: m)
  case (Cons e es)
  then show ?case using wf_put find_put by (cases e) (auto simp: map_add_def fun_eq_iff split: option.split)
qed simp

end

interpretation lm: std_map m_wf m_find m_put m_erase
  by unfold_locales (simp_all add: m_put_wf m_erase_wf m_put_find m_erase_find)

section \<open>Sets\<close>

lemma s_insert_set [simp]: "set (s_insert x s) = insert x (set s)"
  by (induction x s rule: s_insert.induct) auto

lemma s_insert_wf [simp]: "s_wf s \<Longrightarrow> s_wf (s_insert x s)"
  by (induction x s rule: s_insert.induct) auto

lemma s_erase_set [simp]: "set (s_erase x s) = set s - {x}"
  by (auto simp: s_erase_def)

lemma s_erase_wf [simp]: "s_wf s \<Longrightarrow> s_wf (s_erase x s)"
  unfolding s_erase_def by (rule sorted_wrt_filter)

lemma s_inserts_set [simp]: "set (s_inserts xs s) = set s \<union> set xs"
  unfolding s_inserts_def by (induction xs arbitrary: s) auto

lemma s_inserts_wf [simp]: "s_wf s \<Longrightarrow> s_wf (s_inserts xs s)"
  unfolding s_inserts_def by (induction xs arbitrary: s) auto

lemma s_wf_unique: "s_wf s \<Longrightarrow> s_wf t \<Longrightarrow> set s = set t \<Longrightarrow> s = t"
  by (intro sorted_distinct_set_unique) (auto simp: strict_sorted_iff)

lemma s_inserts_id: "s_wf s \<Longrightarrow> s_inserts s [] = s"
  by (rule s_wf_unique) simp_all

end
