(* ===== verification/GroupData.thy ===== *)
theory GroupData
  imports StdMap "HOL-Library.Monad_Syntax"
begin

text \<open>
  The data of the friend groups of one user and their packed form,
  \<^verbatim>\<open>BuddyGroup/src/BuddyGroupWrapper.h\<close>, \<^verbatim>\<open>BuddyGroup/src/BinString.{h,cpp}\<close> and the check of names at the
  head of \<^verbatim>\<open>BuddyGroup/src/BuddyGroupI.cpp\<close>. Compression is an argument, the record \<open>Gzip\<close>, of which the code
  only needs that uncompressing undoes compressing. A write past the end of a buffer, a length that overflows and
  a read before the start of a string are the value \<open>None\<close>.
\<close>

section \<open>Names\<close>

abbreviation byte :: "char \<Rightarrow> int" where
  "byte c \<equiv> of_char c"

text \<open>The scan runs from the last character to the first and has no end of its own.\<close>

fun utf8_scan :: "nat \<Rightarrow> char list \<Rightarrow> bool option" where
  "utf8_scan c [] = None"
| "utf8_scan c (ch # before) =
     (if byte ch AND 0x80 \<noteq> 0x80 \<and> c = 0 then Some True
      else if byte ch AND 0xc0 = 0x80 then utf8_scan (c + 1) before
      else Some (if c = 1 then byte ch AND 0xe0 = 0xc0
                 else if c = 2 then byte ch AND 0xf0 = 0xe0
                 else if c = 3 then byte ch AND 0xf8 = 0xf0
                 else False))"

definition isUtf8 :: "string \<Rightarrow> bool option" where
  "isUtf8 str = utf8_scan 0 (rev str)"

section \<open>Buffers\<close>

record Gzip =
  gzip_compress :: "int list \<Rightarrow> int list"
  gzip_uncompress :: "int list \<Rightarrow> int list"

definition gz_ok :: "Gzip \<Rightarrow> bool" where
  "gz_ok Z \<longleftrightarrow> (\<forall>s. gzip_uncompress Z (gzip_compress Z s) = s)"

text \<open>The bytes written, the capacity the object believes in, and the size of the allocation.\<close>

record BinString =
  m_pBuffer :: "int list"
  m_nBufferCapacity :: int
  m_alloc :: int

definition DEFAULT_SIZE :: int where "DEFAULT_SIZE = 64"

definition bs_new :: BinString where
  "bs_new = \<lparr>m_pBuffer = [], m_nBufferCapacity = DEFAULT_SIZE, m_alloc = DEFAULT_SIZE\<rparr>"

definition bs_of :: "int list \<Rightarrow> BinString" where
  "bs_of buf = (if buf \<noteq> [] then \<lparr>m_pBuffer = buf, m_nBufferCapacity = int (length buf), m_alloc = int (length buf)\<rparr>
     else \<lparr>m_pBuffer = [], m_nBufferCapacity = 1, m_alloc = 1\<rparr>)"

definition getBufferLen :: "BinString \<Rightarrow> int" where
  "getBufferLen b = int (length (m_pBuffer b))"

text \<open>Lengths are signed: a sum past \<open>2 ^ 31\<close> has no value.\<close>

definition int_val :: "int \<Rightarrow> int option" where
  "int_val i = (if i < 2 ^ 31 then Some i else None)"

definition addBuffer :: "int \<Rightarrow> BinString \<Rightarrow> BinString option" where
  "addBuffer len b =
     do { ncapacity \<leftarrow> int_val (if len < DEFAULT_SIZE then getBufferLen b + DEFAULT_SIZE else getBufferLen b + len);
          Some (b\<lparr>m_nBufferCapacity := ncapacity, m_alloc := ncapacity\<rparr>) }"

definition bs_write :: "int list \<Rightarrow> BinString \<Rightarrow> BinString option" where
  "bs_write xs b =
     do { n \<leftarrow> int_val (getBufferLen b + int (length xs));
          b \<leftarrow> (if n > m_nBufferCapacity b then addBuffer (int (length xs)) b else Some b);
          if n \<le> m_alloc b then Some (b\<lparr>m_pBuffer := m_pBuffer b @ xs\<rparr>) else None }"

definition bs_addInt :: "int \<Rightarrow> BinString \<Rightarrow> BinString option" where
  "bs_addInt v b = bs_write (int_bytes v) b"

definition bs_addStr :: "string \<Rightarrow> BinString \<Rightarrow> BinString option" where
  "bs_addStr str b =
     do { b \<leftarrow> bs_addInt (int (length str)) b;
          if str = [] then Some b else bs_write (map byte str) b }"

definition bs_addBin :: "BinString \<Rightarrow> BinString \<Rightarrow> BinString option" where
  "bs_addBin bstr b = (if getBufferLen bstr = 0 then Some b else bs_write (m_pBuffer bstr) b)"

text \<open>Compressing replaces the buffer by one of the exact size and leaves the capacity as it was.\<close>

definition bs_compress :: "Gzip \<Rightarrow> BinString \<Rightarrow> BinString option" where
  "bs_compress Z b =
     (let desStr = gzip_compress Z (m_pBuffer b)
      in do { n \<leftarrow> int_val (int (length desStr)); Some (b\<lparr>m_pBuffer := desStr, m_alloc := n\<rparr>) })"

definition bs_unCompress :: "Gzip \<Rightarrow> BinString \<Rightarrow> int list" where
  "bs_unCompress Z b = gzip_uncompress Z (m_pBuffer b)"

definition bs_ok :: "BinString \<Rightarrow> bool" where
  "bs_ok b \<longleftrightarrow> m_nBufferCapacity b = m_alloc b \<and> getBufferLen b \<le> m_alloc b \<and> getBufferLen b < 2 ^ 31"

lemma bs_write_ok:
  assumes "bs_ok b" "bs_write xs b = Some b'"
  shows "bs_ok b' \<and> m_pBuffer b' = m_pBuffer b @ xs"
  using assms by (auto simp: bs_write_def bs_ok_def addBuffer_def getBufferLen_def int_val_def DEFAULT_SIZE_def
      bind_eq_Some_conv split: if_splits)

lemma bs_write_some:
  assumes "bs_ok b" "getBufferLen b + int (length xs) + DEFAULT_SIZE < 2 ^ 31"
  shows "\<exists>b'. bs_write xs b = Some b'"
  using assms by (auto simp: bs_write_def bs_ok_def addBuffer_def getBufferLen_def int_val_def DEFAULT_SIZE_def)

section \<open>Groups\<close>

record BuddyGroup =
  groupId :: int
  buddyIds :: "int list"

record GroupMapWrapper =
  gvalue :: "(string, BuddyGroup) stdmap"
  idmap :: "(int, string) stdmap"

definition w_empty :: GroupMapWrapper where
  "w_empty = \<lparr>gvalue = [], idmap = []\<rparr>"

primrec ser_ids :: "int list \<Rightarrow> BinString \<Rightarrow> BinString option" where
  "ser_ids [] b = Some b"
| "ser_ids (i # is) b = do { b \<leftarrow> bs_addInt i b; ser_ids is b }"

primrec ser_groups :: "(string, BuddyGroup) stdmap \<Rightarrow> BinString \<Rightarrow> BinString option" where
  "ser_groups [] b = Some b"
| "ser_groups (e # es) b =
     do { b \<leftarrow> bs_addStr (fst e) b;
          b \<leftarrow> bs_addInt (groupId (snd e)) b;
          b \<leftarrow> bs_addInt (int (length (buddyIds (snd e)))) b;
          b \<leftarrow> ser_ids (buddyIds (snd e)) b;
          ser_groups es b }"

primrec ser_idmap :: "(int, string) stdmap \<Rightarrow> BinString \<Rightarrow> BinString option" where
  "ser_idmap [] b = Some b"
| "ser_idmap (e # es) b = do { b \<leftarrow> bs_addInt (fst e) b; b \<leftarrow> bs_addStr (snd e) b; ser_idmap es b }"

definition serialize :: "Gzip \<Rightarrow> GroupMapWrapper \<Rightarrow> BinString option" where
  "serialize Z w =
     do { b \<leftarrow> bs_addInt (int (length (gvalue w))) bs_new;
          b \<leftarrow> ser_groups (gvalue w) b;
          b \<leftarrow> bs_addInt (int (length (idmap w))) b;
          b \<leftarrow> ser_idmap (idmap w) b;
          bs_compress Z b }"

text \<open>Reading stops, with what has been read so far, where the data are too short.\<close>

fun get_int :: "int list \<Rightarrow> (int \<times> int list) option" where
  "get_int (a # b # c # d # p) = Some (to_int32 (a + 256 * b + 65536 * c + 16777216 * d), p)"
| "get_int _ = None"

definition get_str :: "int list \<Rightarrow> (string \<times> int list) option" where
  "get_str p =
     do { (strlen, p) \<leftarrow> get_int p;
          if strlen < 0 \<or> strlen > int (length p) then None
          else Some (map char_of (take (nat strlen) p), drop (nat strlen) p) }"

primrec get_ids :: "nat \<Rightarrow> int list \<Rightarrow> int list \<Rightarrow> (int list \<times> int list) option" where
  "get_ids 0 p s = Some (s, p)"
| "get_ids (Suc k) p s = do { (i, p) \<leftarrow> get_int p; get_ids k p (s_insert i s) }"

definition get_group :: "int list \<Rightarrow> ((string \<times> BuddyGroup) \<times> int list) option" where
  "get_group p =
     do { (groupname, p) \<leftarrow> get_str p;
          (gid, p) \<leftarrow> get_int p;
          (size, p) \<leftarrow> get_int p;
          (ids, p) \<leftarrow> get_ids (nat size) p [];
          Some ((groupname, \<lparr>groupId = gid, buddyIds = ids\<rparr>), p) }"

primrec get_groups :: "nat \<Rightarrow> int list \<Rightarrow> (string, BuddyGroup) stdmap \<Rightarrow> (string, BuddyGroup) stdmap \<times> int list option" where
  "get_groups 0 p v = (v, Some p)"
| "get_groups (Suc k) p v =
     (case get_group p of None \<Rightarrow> (v, None) | Some (e, p) \<Rightarrow> get_groups k p (m_put (fst e) (snd e) v))"

primrec get_idmap :: "nat \<Rightarrow> int list \<Rightarrow> (int, string) stdmap \<Rightarrow> (int, string) stdmap" where
  "get_idmap 0 p m = m"
| "get_idmap (Suc k) p m =
     (case do { (gid, p) \<leftarrow> get_int p; (name, p) \<leftarrow> get_str p; Some ((gid, name), p) } of
        None \<Rightarrow> m
      | Some (e, p) \<Rightarrow> get_idmap k p (m_put (fst e) (snd e) m))"

definition unSerialize :: "Gzip \<Rightarrow> BinString \<Rightarrow> GroupMapWrapper" where
  "unSerialize Z bp =
     (case get_int (bs_unCompress Z bp) of
        None \<Rightarrow> w_empty
      | Some (mapsize, p) \<Rightarrow>
          let (v, rest) = get_groups (nat mapsize) p [] in
          \<lparr>gvalue = v, idmap =
             (case Option.bind rest get_int of None \<Rightarrow> [] | Some (mapidsize, p) \<Rightarrow> get_idmap (nat mapidsize) p [])\<rparr>)"

section \<open>The packed form\<close>

definition enc_str :: "string \<Rightarrow> int list" where
  "enc_str s = int_bytes (int (length s)) @ map byte s"

definition enc_group :: "string \<times> BuddyGroup \<Rightarrow> int list" where
  "enc_group e = enc_str (fst e) @ int_bytes (groupId (snd e)) @ int_bytes (int (length (buddyIds (snd e)))) @
     concat (map int_bytes (buddyIds (snd e)))"

definition enc_id :: "int \<times> string \<Rightarrow> int list" where
  "enc_id e = int_bytes (fst e) @ enc_str (snd e)"

definition enc :: "GroupMapWrapper \<Rightarrow> int list" where
  "enc w = int_bytes (int (length (gvalue w))) @ concat (map enc_group (gvalue w)) @
     int_bytes (int (length (idmap w))) @ concat (map enc_id (idmap w))"

text \<open>A step of writing that appends the given bytes, and that succeeds while they leave room.\<close>

definition appends :: "(BinString \<Rightarrow> BinString option) \<Rightarrow> int list \<Rightarrow> bool" where
  "appends f xs \<longleftrightarrow> (\<forall>b. bs_ok b \<longrightarrow>
     (\<forall>b'. f b = Some b' \<longrightarrow> bs_ok b' \<and> m_pBuffer b' = m_pBuffer b @ xs) \<and>
     (getBufferLen b + int (length xs) + DEFAULT_SIZE < 2 ^ 31 \<longrightarrow> (\<exists>b'. f b = Some b')))"

lemma appends_writes: "appends f xs \<Longrightarrow> bs_ok b \<Longrightarrow> f b = Some b' \<Longrightarrow> bs_ok b' \<and> m_pBuffer b' = m_pBuffer b @ xs"
  unfolding appends_def by blast

lemma appends_room:
  "appends f xs \<Longrightarrow> bs_ok b \<Longrightarrow> getBufferLen b + int (length xs) + DEFAULT_SIZE < 2 ^ 31 \<Longrightarrow> \<exists>b'. f b = Some b'"
  unfolding appends_def by blast

lemma appends_bind:
  assumes "appends f xs" "appends g ys"
  shows "appends (\<lambda>b. do { b \<leftarrow> f b; g b }) (xs @ ys)"
  unfolding appends_def
proof (intro allI impI conjI)
  fix b b'
  assume b: "bs_ok b" and r: "do { b \<leftarrow> f b; g b } = Some b'"
  then obtain c where c: "f b = Some c" "g c = Some b'" by (auto simp: bind_eq_Some_conv)
  have "bs_ok c \<and> m_pBuffer c = m_pBuffer b @ xs" by (rule appends_writes [OF assms(1) b c(1)])
  moreover from this have "bs_ok b' \<and> m_pBuffer b' = m_pBuffer c @ ys" using appends_writes [OF assms(2) _ c(2)] by simp
  ultimately show "bs_ok b'" "m_pBuffer b' = m_pBuffer b @ xs @ ys" by simp_all
next
  fix b
  assume b: "bs_ok b" and l: "getBufferLen b + int (length (xs @ ys)) + DEFAULT_SIZE < 2 ^ 31"
  then have "getBufferLen b + int (length xs) + DEFAULT_SIZE < 2 ^ 31" by simp
  then obtain c where f: "f b = Some c" using appends_room [OF assms(1) b] by blast
  then have c: "bs_ok c" "m_pBuffer c = m_pBuffer b @ xs" using appends_writes [OF assms(1) b] by simp_all
  moreover have "getBufferLen c + int (length ys) + DEFAULT_SIZE < 2 ^ 31" using l c(2) by (simp add: getBufferLen_def)
  ultimately show "\<exists>b'. do { b \<leftarrow> f b; g b } = Some b'" using appends_room [OF assms(2) c(1)] f by simp
qed

lemma appends_write: "appends (bs_write xs) xs"
  unfolding appends_def using bs_write_ok bs_write_some by blast

lemma appends_nil: "appends Some []"
  by (simp add: appends_def)

lemma appends_int: "appends (bs_addInt i) (int_bytes i)"
  using appends_write [of "int_bytes i"] by (simp add: bs_addInt_def [abs_def])

lemma appends_str: "appends (bs_addStr s) (enc_str s)"
proof (cases "s = []")
  case True
  then show ?thesis using appends_int [of 0] by (simp add: bs_addStr_def [abs_def] enc_str_def)
next
  case False
  then show ?thesis
    using appends_bind [OF appends_int [of "int (length s)"] appends_write [of "map byte s"]]
    by (simp add: bs_addStr_def [abs_def] enc_str_def)
qed

lemma appends_ids: "appends (ser_ids is) (concat (map int_bytes is))"
proof (induction "is")
  case (Cons i "is")
  then show ?case using appends_bind [OF appends_int [of i]] by simp
qed (simp add: appends_nil)

lemma appends_groups: "appends (ser_groups es) (concat (map enc_group es))"
proof (induction es)
  case (Cons e es)
  let ?g = "snd e"
  show ?case
    using appends_bind [OF appends_str [of "fst e"] appends_bind [OF appends_int [of "groupId ?g"]
          appends_bind [OF appends_int [of "int (length (buddyIds ?g))"] appends_bind [OF appends_ids [of "buddyIds ?g"] Cons]]]]
    by (simp add: enc_group_def)
qed (simp add: appends_nil)

lemma appends_idmap: "appends (ser_idmap es) (concat (map enc_id es))"
proof (induction es)
  case (Cons e es)
  show ?case using appends_bind [OF appends_int [of "fst e"] appends_bind [OF appends_str [of "snd e"] Cons]]
    by (simp add: enc_id_def)
qed (simp add: appends_nil)

definition pack :: "GroupMapWrapper \<Rightarrow> BinString \<Rightarrow> BinString option" where
  "pack w b = do { b \<leftarrow> bs_addInt (int (length (gvalue w))) b; b \<leftarrow> ser_groups (gvalue w) b;
      b \<leftarrow> bs_addInt (int (length (idmap w))) b; ser_idmap (idmap w) b }"

lemma appends_pack: "appends (pack w) (enc w)"
  using appends_bind [OF appends_int appends_bind [OF appends_groups appends_bind [OF appends_int appends_idmap]]]
  by (simp add: enc_def pack_def [abs_def])

lemma serialize_pack: "serialize Z w = do { b \<leftarrow> pack w bs_new; bs_compress Z b }"
  by (simp add: serialize_def pack_def)

lemma bs_new_ok: "bs_ok bs_new"
  by (simp add: bs_ok_def bs_new_def getBufferLen_def DEFAULT_SIZE_def)

text \<open>Data that have room in a buffer, before and after compression.\<close>

definition fits :: "Gzip \<Rightarrow> GroupMapWrapper \<Rightarrow> bool" where
  "fits Z w \<longleftrightarrow> int (length (enc w)) + DEFAULT_SIZE < 2 ^ 31 \<and> int (length (gzip_compress Z (enc w))) < 2 ^ 31"

lemma serialize_enc:
  assumes "serialize Z w = Some b"
  shows "m_pBuffer b = gzip_compress Z (enc w) \<and> int (length (enc w)) < 2 ^ 31"
proof -
  obtain c where c: "pack w bs_new = Some c" "bs_compress Z c = Some b"
    using assms unfolding serialize_pack by (auto simp: bind_eq_Some_conv)
  have "bs_ok c \<and> m_pBuffer c = enc w"
    using appends_writes [OF appends_pack bs_new_ok c(1)] by (simp add: bs_new_def)
  with c(2) show ?thesis by (auto simp: bs_compress_def bs_ok_def getBufferLen_def bind_eq_Some_conv Let_def)
qed

lemma serialize_some:
  assumes "fits Z w"
  shows "\<exists>b. serialize Z w = Some b"
proof -
  have "getBufferLen bs_new + int (length (enc w)) + DEFAULT_SIZE < 2 ^ 31"
    using assms by (simp add: fits_def getBufferLen_def bs_new_def)
  then obtain c where c: "pack w bs_new = Some c" using appends_room [OF appends_pack bs_new_ok] by blast
  then have "m_pBuffer c = enc w" using appends_writes [OF appends_pack bs_new_ok] by (simp add: bs_new_def)
  with c assms show ?thesis unfolding serialize_pack by (simp add: bs_compress_def int_val_def fits_def Let_def)
qed

abbreviation int32 :: "int \<Rightarrow> bool" where
  "int32 i \<equiv> - (2 ^ 31) \<le> i \<and> i < 2 ^ 31"

lemma get_int_enc: "int32 i \<Longrightarrow> get_int (int_bytes i @ p) = Some (i, p)"
  using int_bytes_value [of i] by (simp only: int_bytes_def append.simps get_int.simps)

lemma get_str_enc:
  assumes "int (length s) < 2 ^ 31"
  shows "get_str (enc_str s @ p) = Some (s, p)"
proof -
  have "get_int (enc_str s @ p) = Some (int (length s), map byte s @ p)"
    unfolding enc_str_def append.assoc by (rule get_int_enc) (use assms in simp)
  then show ?thesis by (simp add: get_str_def map_idI)
qed

lemma get_ids_enc: "\<forall>i \<in> set is. int32 i \<Longrightarrow>
   get_ids (length is) (concat (map int_bytes is) @ p) s = Some (s_inserts is s, p)"
proof (induction "is" arbitrary: s)
  case (Cons i "is")
  have "get_int (int_bytes i @ concat (map int_bytes is) @ p) = Some (i, concat (map int_bytes is) @ p)"
    by (rule get_int_enc) (use Cons.prems in simp)
  with Cons show ?case by (simp add: s_inserts_def)
qed (simp add: s_inserts_def)

text \<open>Data in order, whose numbers fit an \<open>int\<close>.\<close>

definition group_ok :: "string \<times> BuddyGroup \<Rightarrow> bool" where
  "group_ok e \<longleftrightarrow> int32 (groupId (snd e)) \<and> (\<forall>i \<in> set (buddyIds (snd e)). int32 i) \<and> s_wf (buddyIds (snd e))"

definition w_wf :: "GroupMapWrapper \<Rightarrow> bool" where
  "w_wf w \<longleftrightarrow> m_wf (gvalue w) \<and> m_wf (idmap w) \<and> (\<forall>e \<in> set (gvalue w). group_ok e) \<and> (\<forall>e \<in> set (idmap w). int32 (fst e))"

lemma length_int_bytes [simp]: "length (int_bytes i) = 4"
  by (simp add: int_bytes_def)

lemma length_concat_ge: "x \<in> set xs \<Longrightarrow> length (f x) \<le> length (concat (map f xs))"
  by (induction xs) auto

lemma length_concat_count: "(\<And>x. x \<in> set xs \<Longrightarrow> 1 \<le> length (f x)) \<Longrightarrow> length xs \<le> length (concat (map f xs))"
  by (induction xs) (force simp: add_mono)+

lemma get_group_enc:
  assumes "group_ok e" "int (length (enc_group e)) < 2 ^ 31"
  shows "get_group (enc_group e @ p) = Some (e, p)"
proof -
  let ?is = "buddyIds (snd e)"
  have "length ?is \<le> length (concat (map int_bytes ?is))" by (rule length_concat_count) simp
  then have l: "int (length (fst e)) < 2 ^ 31" "int32 (int (length ?is))"
    using assms(2) by (auto simp: enc_group_def enc_str_def)
  have "get_str (enc_group e @ p) = Some (fst e, int_bytes (groupId (snd e)) @ int_bytes (int (length ?is)) @
      concat (map int_bytes ?is) @ p)"
    unfolding enc_group_def append.assoc by (rule get_str_enc [OF l(1)])
  moreover have "get_int (int_bytes (groupId (snd e)) @ int_bytes (int (length ?is)) @ concat (map int_bytes ?is) @ p) =
      Some (groupId (snd e), int_bytes (int (length ?is)) @ concat (map int_bytes ?is) @ p)"
    by (rule get_int_enc) (use assms(1) in \<open>simp add: group_ok_def\<close>)
  moreover have "get_int (int_bytes (int (length ?is)) @ concat (map int_bytes ?is) @ p) =
      Some (int (length ?is), concat (map int_bytes ?is) @ p)" by (rule get_int_enc [OF l(2)])
  moreover have "get_ids (length ?is) (concat (map int_bytes ?is) @ p) [] = Some (?is, p)"
    using get_ids_enc [of ?is p "[]"] assms(1) by (simp add: group_ok_def s_inserts_id)
  ultimately show ?thesis by (simp add: get_group_def) (metis BuddyGroup.surjective old.unit.exhaust prod.collapse)
qed

lemma get_groups_enc:
  "\<forall>e \<in> set es. group_ok e \<and> int (length (enc_group e)) < 2 ^ 31 \<Longrightarrow>
   get_groups (length es) (concat (map enc_group es) @ p) v = (foldl (\<lambda>m e. m_put (fst e) (snd e) m) v es, Some p)"
  by (induction es arbitrary: v) (simp_all add: get_group_enc)

lemma get_idmap_enc:
  "\<forall>e \<in> set es. int32 (fst e) \<and> int (length (snd e)) < 2 ^ 31 \<Longrightarrow>
   get_idmap (length es) (concat (map enc_id es) @ p) m = foldl (\<lambda>m e. m_put (fst e) (snd e) m) m es"
proof (induction es arbitrary: m)
  case (Cons e es)
  have "get_int (enc_id e @ q) = Some (fst e, enc_str (snd e) @ q)" for q
    unfolding enc_id_def append.assoc by (rule get_int_enc) (use Cons.prems in simp)
  moreover have "get_str (enc_str (snd e) @ q) = Some (snd e, q)" for q by (rule get_str_enc) (use Cons.prems in simp)
  ultimately show ?case using Cons by simp
qed simp

lemma puts_id: "m_wf m \<Longrightarrow> foldl (\<lambda>m e. m_put (fst e) (snd e) m) [] m = m"
proof (rule m_wf_unique)
  assume w: "m_wf m"
  have e: "m_wf []" by (simp add: m_wf_def)
  show "m_wf (foldl (\<lambda>m e. m_put (fst e) (snd e) m) [] m)" using lm.put_all [OF e] by blast
  have "m_find (foldl (\<lambda>m e. m_put (fst e) (snd e) m) [] m) = map_of (rev m)"
    using lm.put_all [OF e, of m] by (simp add: m_find_def [abs_def] map_add_def)
  moreover have "map_of (rev m) = map_of m"
    using m_wf_distinct [OF w] by (intro map_of_eqI) (auto simp: rev_map [symmetric])
  ultimately show "m_find (foldl (\<lambda>m e. m_put (fst e) (snd e) m) [] m) = m_find m" by (simp add: m_find_def [abs_def])
qed

lemma unSerialize_enc:
  assumes "gz_ok Z" "w_wf w" "serialize Z w = Some b"
  shows "unSerialize Z b = w"
proof -
  let ?g = "concat (map enc_group (gvalue w))" and ?i = "concat (map enc_id (idmap w))"
  have L: "int (length (enc w)) < 2 ^ 31" and m: "m_pBuffer b = gzip_compress Z (enc w)"
    using serialize_enc [OF assms(3)] by simp_all
  then have lg: "int (length (enc_group e)) < 2 ^ 31" if "e \<in> set (gvalue w)" for e
    using length_concat_ge [OF that, of enc_group] by (simp add: enc_def)
  have "length (snd e) \<le> length (enc_id e)" for e by (simp add: enc_id_def enc_str_def)
  then have li: "int (length (snd e)) < 2 ^ 31" if "e \<in> set (idmap w)" for e
    using length_concat_ge [OF that, of enc_id] L le_trans by (fastforce simp: enc_def)
  have "length (gvalue w) \<le> length ?g" "length (idmap w) \<le> length ?i"
    by (rule length_concat_count, simp add: enc_group_def enc_id_def enc_str_def)+
  then have n: "int32 (int (length (gvalue w)))" "int32 (int (length (idmap w)))" using L by (simp_all add: enc_def)
  have "get_int (enc w) = Some (int (length (gvalue w)), ?g @ int_bytes (int (length (idmap w))) @ ?i)"
    unfolding enc_def by (rule get_int_enc [OF n(1)])
  moreover have "get_groups (length (gvalue w)) (?g @ int_bytes (int (length (idmap w))) @ ?i) [] =
      (gvalue w, Some (int_bytes (int (length (idmap w))) @ ?i))"
    using get_groups_enc [of "gvalue w"] assms(2) lg by (simp add: w_wf_def puts_id)
  moreover have "get_int (int_bytes (int (length (idmap w))) @ ?i) = Some (int (length (idmap w)), ?i)"
    by (rule get_int_enc [OF n(2)])
  moreover have "get_idmap (length (idmap w)) (?i @ []) [] = idmap w"
    using get_idmap_enc [of "idmap w" "[]" "[]"] assms(2) li by (simp add: w_wf_def puts_id)
  moreover have "bs_unCompress Z b = enc w" using assms(1) m by (simp add: bs_unCompress_def gz_ok_def)
  ultimately show ?thesis by (simp add: unSerialize_def)
qed

section \<open>The check of names\<close>

abbreviation cont :: "char \<Rightarrow> bool" where
  "cont c \<equiv> byte c AND 0xc0 = 0x80"

text \<open>The bytes of one character: a plain byte, or a lead byte and the one to three continuation bytes it announces.\<close>

definition utf8_char :: "string \<Rightarrow> bool" where
  "utf8_char t \<longleftrightarrow> t \<noteq> [] \<and> list_all cont (tl t) \<and>
     (case length t of
        Suc 0 \<Rightarrow> byte (hd t) AND 0x80 \<noteq> 0x80
      | Suc (Suc 0) \<Rightarrow> byte (hd t) AND 0xe0 = 0xc0
      | Suc (Suc (Suc 0)) \<Rightarrow> byte (hd t) AND 0xf0 = 0xe0
      | Suc (Suc (Suc (Suc 0))) \<Rightarrow> byte (hd t) AND 0xf8 = 0xf0
      | _ \<Rightarrow> False)"

lemma and_mask: "x AND a = b \<Longrightarrow> x AND (a AND m) = b AND m" for x :: int
  by (simp add: and.assoc [symmetric])

lemma cont_high: "cont c \<Longrightarrow> byte c AND 0x80 = 0x80"
  using and_mask [of "byte c" "0xc0" "0x80" "0x80"] by simp

lemma lead_not_cont:
  "byte c AND 0x80 \<noteq> 0x80 \<Longrightarrow> \<not> cont c" "byte c AND 0xe0 = 0xc0 \<Longrightarrow> \<not> cont c"
  "byte c AND 0xf0 = 0xe0 \<Longrightarrow> \<not> cont c" "byte c AND 0xf8 = 0xf0 \<Longrightarrow> \<not> cont c"
  using cont_high [of c] and_mask [of "byte c" "0xe0" "0xc0" "0xc0"] and_mask [of "byte c" "0xf0" "0xe0" "0xc0"]
    and_mask [of "byte c" "0xf8" "0xf0" "0xc0"] by auto

lemma utf8_scan_cont: "list_all cont cs \<Longrightarrow> utf8_scan c (cs @ xs) = utf8_scan (c + length cs) xs"
  by (induction cs arbitrary: c) (auto simp: cont_high)

lemma utf8_char_lead: "utf8_char t \<Longrightarrow> \<not> cont (hd t)"
  using lead_not_cont [of "hd t"] by (auto simp: utf8_char_def split: nat.splits)

lemma utf8_char_suffix:
  assumes "\<not> cont ch" "list_all cont cs"
  shows "(\<exists>a t. b @ ch # cs = a @ t \<and> utf8_char t) \<longleftrightarrow> utf8_char (ch # cs)"
proof
  assume "\<exists>a t. b @ ch # cs = a @ t \<and> utf8_char t"
  then obtain a t where t: "b @ ch # cs = a @ t" "utf8_char t" by blast
  obtain h u where u: "t = h # u" "\<not> cont h" "list_all cont u"
    using t(2) utf8_char_lead [OF t(2)] by (cases t) (auto simp: utf8_char_def)
  have "takeWhile cont (rev cs @ ch # rev b) = rev cs" if "list_all cont cs" "\<not> cont ch" for ch cs b
    using that by (induction cs rule: rev_induct) auto
  from this [OF assms(2,1)] this [OF u(3,2)]
  have "takeWhile cont (rev (b @ ch # cs)) = rev cs" "takeWhile cont (rev (a @ t)) = rev u" using u(1) by simp_all
  then have "cs = u" using t(1) by simp
  then have "ch # cs = t" using t(1) u(1) by simp
  then show "utf8_char (ch # cs)" using t(2) by simp
qed blast

lemma utf8_scan_lead:
  assumes "\<not> cont ch" "list_all cont cs"
  shows "utf8_scan (length cs) (ch # xs) = Some (utf8_char (ch # cs))"
  using assms by (auto simp: utf8_char_def split: nat.split)

text \<open>The check looks at the last character of a name only: it accepts a name that ends with the bytes of one
  character, and it has no answer (it reads before the name) when the name is empty or all its bytes are continuation bytes.
\<close>

lemma utf8_check_exact:
  "isUtf8 s = (if list_all cont s then None else Some (\<exists>a t. s = a @ t \<and> utf8_char t))"
proof (cases "list_all cont s")
  case True
  then have "utf8_scan 0 (rev s @ []) = utf8_scan (0 + length (rev s)) []"
    by (intro utf8_scan_cont) (simp add: list_all_iff)
  with True show ?thesis by (simp add: isUtf8_def)
next
  case False
  let ?c = "rev (takeWhile cont (rev s))"
  have "dropWhile cont (rev s) \<noteq> []" using False by (auto simp: dropWhile_eq_Nil_conv list_all_iff)
  then obtain ch r where d: "dropWhile cont (rev s) = ch # r" by (cases "dropWhile cont (rev s)") auto
  have ch: "\<not> cont ch" using hd_dropWhile [of cont "rev s"] d by simp
  have c: "list_all cont ?c" by (auto simp: list_all_iff dest: set_takeWhileD)
  have "rev s = rev ?c @ ch # r" using takeWhile_dropWhile_id [of cont "rev s"] d by simp
  then have s: "s = rev r @ ch # ?c" by (metis append.assoc append_Cons append_Nil rev.simps(2) rev_append rev_rev_ident)
  have "isUtf8 s = utf8_scan 0 (rev ?c @ ch # r)" using \<open>rev s = _\<close> by (simp add: isUtf8_def)
  also have "\<dots> = utf8_scan (length ?c) (ch # r)"
    using utf8_scan_cont [of "rev ?c" 0 "ch # r"] c by (simp add: list_all_iff)
  also have "\<dots> = Some (utf8_char (ch # ?c))" by (rule utf8_scan_lead [OF ch c])
  also have "utf8_char (ch # ?c) \<longleftrightarrow> (\<exists>a t. s = a @ t \<and> utf8_char t)"
    using utf8_char_suffix [OF ch c, of "rev r"] s by metis
  finally show ?thesis using False by simp
qed

section \<open>Packing and unpacking\<close>

definition no_gzip :: Gzip where
  "no_gzip = \<lparr>gzip_compress = (\<lambda>s. s), gzip_uncompress = (\<lambda>s. s)\<rparr>"

text \<open>C27. Packing never writes past the end of a buffer, and unpacking gives back the same groups, for all ordered data
  whose numbers fit an \<open>int\<close> and whose packed form leaves one block of room below \<open>2 ^ 31\<close> bytes.
\<close>

theorem group_data_roundtrip:
  assumes "gz_ok Z" "w_wf w" "fits Z w"
  shows "\<exists>b. serialize Z w = Some b \<and> unSerialize Z b = w"
  using serialize_some [OF assms(3)] unSerialize_enc [OF assms(1,2)] by blast

definition two_groups :: GroupMapWrapper where
  "two_groups = \<lparr>gvalue = [(''home'', \<lparr>groupId = 2, buddyIds = [7, 9]\<rparr>), (''work'', \<lparr>groupId = 1, buddyIds = []\<rparr>)],
     idmap = [(1, ''work''), (2, ''home'')]\<rparr>"

theorem group_data_roundtrip_witness: "\<exists>b. serialize no_gzip two_groups = Some b \<and> unSerialize no_gzip b = two_groups"
proof (rule group_data_roundtrip)
  show "gz_ok no_gzip" by (simp add: gz_ok_def no_gzip_def)
  show "w_wf two_groups" "fits no_gzip two_groups" by code_simp+
qed

text \<open>A buffer that has been compressed has less room than it believes.\<close>

lemma compressed_buffer_overflows:
  "do { b \<leftarrow> bs_addInt 1 bs_new; b \<leftarrow> bs_compress no_gzip b; bs_addInt 2 b } = None"
  by code_simp

end
