(* ===== verification/GroupServer.thy ===== *)
theory GroupServer
  imports GroupData BuddyEntry
begin

text \<open>
  The server of the friend groups, \<^verbatim>\<open>BuddyGroup/src/BuddyGroupI.cpp\<close>: its two tables, the object cache that keeps the
  packed groups of a user, and every operation of \<^verbatim>\<open>BuddyGroupManagerI\<close>. A statement of the database succeeds, compares
  names exactly and hands out consecutive ids to the rows of one insert. An operation that reads before the start
  of a name or overflows a buffer has the result \<open>None\<close>. The database is one: the reading and the
  writing connection see the same tables. An operation runs to its end before the next one of the same user
  starts: most hold a lock on the cached object from unpacking to packing, but \<open>addGroup\<close> writes its row and \<open>load\<close> builds the new
  object before any lock, so that two requests can interleave there, which is not modelled.
\<close>

section \<open>Tables\<close>

text \<open>Rows \<open>(groupid, host, name)\<close> and \<open>(host, guest, groupid)\<close>; the ids count per table, and a user's table is found by its number.\<close>

record GroupDB =
  relation_group :: "(int \<times> int \<times> string) list"
  relation_group_item :: "(int \<times> int \<times> int) list"
  next_groupid :: "int \<Rightarrow> int"

definition getTableNo :: "int \<Rightarrow> int" where
  "getTableNo host = (if 0 \<le> host then host mod 100 else - ((- host) mod 100))"

primrec number_rows :: "int \<Rightarrow> int \<Rightarrow> string list \<Rightarrow> (int \<times> int \<times> string) list" where
  "number_rows g h [] = []"
| "number_rows g h (n # ns) = (g, h, n) # number_rows (g + 1) h ns"

definition db_insert_groups :: "int \<Rightarrow> string list \<Rightarrow> GroupDB \<Rightarrow> int \<times> GroupDB" where
  "db_insert_groups h ns db =
     (let t = getTableNo h; g = next_groupid db t
      in (to_int32 g, db\<lparr>relation_group := relation_group db @ number_rows g h ns,
            next_groupid := (next_groupid db)(t := g + int (length ns))\<rparr>))"

definition db_insert_items :: "(int \<times> int \<times> int) list \<Rightarrow> GroupDB \<Rightarrow> GroupDB" where
  "db_insert_items rs db = db\<lparr>relation_group_item := relation_group_item db @ rs\<rparr>"

definition db_delete_groups :: "int \<Rightarrow> string list \<Rightarrow> GroupDB \<Rightarrow> GroupDB" where
  "db_delete_groups h ns db =
     db\<lparr>relation_group := filter (\<lambda>(g, h', n). \<not> (h' = h \<and> n \<in> set ns)) (relation_group db)\<rparr>"

definition db_rename_group :: "int \<Rightarrow> string \<Rightarrow> string \<Rightarrow> GroupDB \<Rightarrow> GroupDB" where
  "db_rename_group h old new db =
     db\<lparr>relation_group := map (\<lambda>(g, h', n). (g, h', if h' = h \<and> n = old then new else n)) (relation_group db)\<rparr>"

definition db_delete_items :: "int \<Rightarrow> int list \<Rightarrow> GroupDB \<Rightarrow> GroupDB" where
  "db_delete_items h gs db =
     db\<lparr>relation_group_item := filter (\<lambda>(h', b, g). \<not> (h' = h \<and> g \<in> set gs)) (relation_group_item db)\<rparr>"

definition db_delete_guest :: "int \<Rightarrow> int \<Rightarrow> int list \<Rightarrow> GroupDB \<Rightarrow> GroupDB" where
  "db_delete_guest h b gs db =
     db\<lparr>relation_group_item := filter (\<lambda>(h', b', g). \<not> (h' = h \<and> b' = b \<and> g \<in> set gs)) (relation_group_item db)\<rparr>"

text \<open>The left join of the two tables: one row per guest of a group, and one with guest 0 for a group without.\<close>

definition db_select :: "int \<Rightarrow> GroupDB \<Rightarrow> (int \<times> string \<times> int) list" where
  "db_select h db =
     concat (map (\<lambda>(g, h', n).
         let guests = map (\<lambda>(_, b, _). b) (filter (\<lambda>(h'', b, g'). h'' = h' \<and> g' = g) (relation_group_item db))
         in map (\<lambda>b. (g, n, b)) (if guests = [] then [0] else guests))
       (filter (\<lambda>(g, h', n). h' = h) (relation_group db)))"

section \<open>The cached object\<close>

record BGServer =
  gdb :: GroupDB
  bg_cache :: "int \<Rightarrow> BinString option"
  bg_tasks :: "(int \<times> (int, string) stdmap) list"
  bg_notices :: "(int \<times> (int, string list) stdmap) list"
  notifyIm :: bool

text \<open>Changes the tables only.\<close>

definition on_db :: "(GroupDB \<Rightarrow> GroupDB) \<Rightarrow> BGServer \<Rightarrow> BGServer" where
  "on_db f s = s\<lparr>gdb := f (gdb s)\<rparr>"

definition create_row :: "int \<times> string \<times> int \<Rightarrow> GroupMapWrapper \<times> (int, string) stdmap \<Rightarrow>
    (GroupMapWrapper \<times> (int, string) stdmap) option" where
  "create_row r acc =
     (let (gid, groupName, guest) = r; (res, illegalGroups) = acc
      in do { ok \<leftarrow> isUtf8 groupName;
              if \<not> ok \<or> groupName = [] then Some (res, m_put gid groupName illegalGroups)
              else Some (case m_find (gvalue res) groupName of
                  None \<Rightarrow>
                    res\<lparr>gvalue := m_put groupName \<lparr>groupId = gid, buddyIds = (if guest \<noteq> 0 then [guest] else [])\<rparr> (gvalue res),
                      idmap := m_put gid groupName (idmap res)\<rparr>
                | Some g \<Rightarrow>
                    if guest \<noteq> 0 then res\<lparr>gvalue := m_put groupName (g\<lparr>buddyIds := s_insert guest (buddyIds g)\<rparr>) (gvalue res)\<rparr>
                    else res,
                illegalGroups) })"

primrec create_rows :: "(int \<times> string \<times> int) list \<Rightarrow> GroupMapWrapper \<times> (int, string) stdmap \<Rightarrow>
    (GroupMapWrapper \<times> (int, string) stdmap) option" where
  "create_rows [] acc = Some acc"
| "create_rows (r # rs) acc = do { acc \<leftarrow> create_row r acc; create_rows rs acc }"

definition create :: "Gzip \<Rightarrow> int \<Rightarrow> BGServer \<Rightarrow> (BinString \<times> BGServer) option" where
  "create Z host s =
     do { (res, illegalGroups) \<leftarrow> create_rows (db_select host (gdb s)) (w_empty, []);
          let s = (if illegalGroups \<noteq> [] then s\<lparr>bg_tasks := bg_tasks s @ [(host, illegalGroups)]\<rparr> else s);
          b \<leftarrow> serialize Z res;
          Some (b, s) }"

text \<open>The task rows are removed by name, their items by id.\<close>

definition CleanIllegalDataTask_handle :: "int \<Rightarrow> (int, string) stdmap \<Rightarrow> BGServer \<Rightarrow> BGServer" where
  "CleanIllegalDataTask_handle host groups s =
     (if groups = [] then s
      else on_db (db_delete_items host (map fst groups)) (on_db (db_delete_groups host (map snd groups)) s))"

definition locateObject :: "Gzip \<Rightarrow> int \<Rightarrow> BGServer \<Rightarrow> BGServer option" where
  "locateObject Z h s =
     (case bg_cache s h of
        Some _ \<Rightarrow> Some s
      | None \<Rightarrow> do { (b, s) \<leftarrow> create Z h s; Some (s\<lparr>bg_cache := (bg_cache s)(h \<mapsto> b)\<rparr>) })"

text \<open>What the constructor of the wrapper unpacks from the cached object, and packing it back.\<close>

definition getBP :: "Gzip \<Rightarrow> int \<Rightarrow> BGServer \<Rightarrow> GroupMapWrapper" where
  "getBP Z h s = (case bg_cache s h of Some b \<Rightarrow> unSerialize Z b | None \<Rightarrow> w_empty)"

definition setBP :: "Gzip \<Rightarrow> int \<Rightarrow> GroupMapWrapper \<Rightarrow> BGServer \<Rightarrow> BGServer option" where
  "setBP Z h w s = do { b \<leftarrow> serialize Z w; Some (s\<lparr>bg_cache := (bg_cache s)(h \<mapsto> b)\<rparr>) }"

text \<open>The names of the groups that hold a guest.\<close>

definition groups_with :: "int \<Rightarrow> GroupMapWrapper \<Rightarrow> string list" where
  "groups_with guest w = map fst (filter (\<lambda>e. guest \<in> set (buddyIds (snd e))) (gvalue w))"

definition getBuddyGroups' :: "Gzip \<Rightarrow> int \<Rightarrow> int \<Rightarrow> BGServer \<Rightarrow> string list" where
  "getBuddyGroups' Z h guest s = groups_with guest (getBP Z h s)"

definition changeBuddyGroupNotify :: "int \<Rightarrow> (int, string list) stdmap \<Rightarrow> BGServer \<Rightarrow> BGServer" where
  "changeBuddyGroupNotify h items s = s\<lparr>bg_notices := bg_notices s @ [(h, items)]\<rparr>"

definition notify_im :: "Gzip \<Rightarrow> int \<Rightarrow> int list \<Rightarrow> BGServer \<Rightarrow> BGServer" where
  "notify_im Z h bs s =
     (if notifyIm s \<and> bs \<noteq> []
      then changeBuddyGroupNotify h (foldl (\<lambda>m b. m_put b (getBuddyGroups' Z h b s) m) [] bs) s else s)"

section \<open>Adding and renaming groups\<close>

definition addGroup :: "Gzip \<Rightarrow> int \<Rightarrow> string \<Rightarrow> BGServer \<Rightarrow> BGServer option" where
  "addGroup Z host groupName s =
     do { ok \<leftarrow> isUtf8 groupName;
          if \<not> ok \<or> groupName = [] then Some s
          else do {
            let (gid, db) = db_insert_groups host [groupName] (gdb s);
            s \<leftarrow> locateObject Z host (s\<lparr>gdb := db\<rparr>);
            let w = getBP Z host s;
            setBP Z host (w\<lparr>gvalue := m_put groupName \<lparr>groupId = gid, buddyIds = []\<rparr> (gvalue w),
              idmap := m_put gid groupName (idmap w)\<rparr>) s } }"

text \<open>The wrapper of \<open>_removeGroup\<close> is its own and is dropped at its end: only the tables change. Its caller has located
  the object, so that its own call of \<open>locateObject\<close> finds it in the cache; so does the one of \<open>_cleanGroup\<close> below.\<close>

definition removeGroup' :: "Gzip \<Rightarrow> int \<Rightarrow> string \<Rightarrow> BGServer \<Rightarrow> BGServer" where
  "removeGroup' Z host groupName s =
     (let gid = (case m_find (gvalue (getBP Z host s)) groupName of
                   Some g \<Rightarrow> if buddyIds g \<noteq> [] then groupId g else -1
                 | None \<Rightarrow> -1);
          s = on_db (db_delete_groups host [groupName]) s
      in if gid = -1 then s else on_db (db_delete_items host [gid]) s)"

text \<open>Moves the buddies into the group that has the new name already, or changes the name.\<close>

definition rename_to :: "Gzip \<Rightarrow> int \<Rightarrow> string \<Rightarrow> string \<Rightarrow> GroupMapWrapper \<Rightarrow> BGServer \<Rightarrow> GroupMapWrapper \<times> BGServer" where
  "rename_to Z host oldName newName w s =
     (case m_find (gvalue w) newName of
        Some n \<Rightarrow>
          (case m_find (gvalue w) oldName of
             None \<Rightarrow> (w, s)
           | Some old \<Rightarrow>
               let n' = n\<lparr>buddyIds := s_inserts (buddyIds old) (buddyIds n)\<rparr>;
                   s = removeGroup' Z host oldName s;
                   s = (if buddyIds old \<noteq> [] then on_db (db_insert_items (map (\<lambda>b. (host, b, groupId n)) (buddyIds old))) s else s)
               in (w\<lparr>gvalue := m_erase oldName (m_put newName n' (gvalue w))\<rparr>, s))
      | None \<Rightarrow>
          let s = on_db (db_rename_group host oldName newName) s
          in (case m_find (gvalue w) oldName of
                None \<Rightarrow> (w, s)
              | Some g \<Rightarrow> (w\<lparr>gvalue := m_erase oldName (m_put newName g (gvalue w)),
                             idmap := m_put (groupId g) newName (idmap w)\<rparr>, s)))"

definition buddies_of :: "string \<Rightarrow> GroupMapWrapper \<Rightarrow> int list" where
  "buddies_of n w = (case m_find (gvalue w) n of Some g \<Rightarrow> buddyIds g | None \<Rightarrow> [])"

definition renameGroup :: "Gzip \<Rightarrow> int \<Rightarrow> string \<Rightarrow> string \<Rightarrow> BGServer \<Rightarrow> BGServer option" where
  "renameGroup Z host oldName newName s =
     do { ok \<leftarrow> isUtf8 oldName;
          ok \<leftarrow> (if ok then isUtf8 newName else Some False);
          if \<not> ok \<or> oldName = newName then Some s
          else do {
            s \<leftarrow> locateObject Z host s;
            let (w, s) = rename_to Z host oldName newName (getBP Z host s) s;
            setBP Z host w (notify_im Z host (buddies_of newName w) s) } }"

text \<open>The name the map of ids gives to an id; without one it is empty.\<close>

definition name_of :: "int \<Rightarrow> GroupMapWrapper \<Rightarrow> string" where
  "name_of gid w = (case m_find (idmap w) gid of Some n \<Rightarrow> n | None \<Rightarrow> [])"

definition renameGroupWithGid :: "Gzip \<Rightarrow> int \<Rightarrow> int \<Rightarrow> string \<Rightarrow> BGServer \<Rightarrow> BGServer option" where
  "renameGroupWithGid Z host gid newName s =
     do { ok \<leftarrow> isUtf8 newName;
          if \<not> ok then Some s
          else do {
            s \<leftarrow> locateObject Z host s;
            let oldName = name_of gid (getBP Z host s);
            if oldName = newName then Some s
            else do {
              let (w, s) = rename_to Z host oldName newName (getBP Z host s) s;
              setBP Z host w (notify_im Z host (buddies_of newName w) s) } } }"

section \<open>Removing and cleaning groups\<close>

definition removeGroupForce :: "Gzip \<Rightarrow> int \<Rightarrow> string \<Rightarrow> BGServer \<Rightarrow> BGServer option" where
  "removeGroupForce Z host groupName s =
     do { ok \<leftarrow> isUtf8 groupName;
          if \<not> ok then Some s
          else do {
            s \<leftarrow> locateObject Z host (s\<lparr>bg_cache := (bg_cache s)(host := None)\<rparr>);
            let w = getBP Z host s;
            let bs = buddies_of groupName w;
            let gid = (case m_find (gvalue w) groupName of Some g \<Rightarrow> groupId g | None \<Rightarrow> -1);
            if m_find (idmap w) gid = None then Some s
            else do {
              let s = on_db (db_delete_groups host [groupName]) s;
              let w = w\<lparr>gvalue := m_erase groupName (gvalue w), idmap := m_erase gid (idmap w)\<rparr>;
              if gid = -1 then setBP Z host w s
              else setBP Z host w (notify_im Z host bs (on_db (db_delete_items host [gid]) s)) } } }"

definition removeGroup :: "Gzip \<Rightarrow> int \<Rightarrow> string \<Rightarrow> BGServer \<Rightarrow> BGServer option" where
  "removeGroup Z host groupName s =
     do { ok \<leftarrow> isUtf8 groupName;
          if \<not> ok then Some s
          else do {
            s \<leftarrow> locateObject Z host s;
            let w = getBP Z host s;
            let bs = buddies_of groupName w;
            let gid = (case m_find (gvalue w) groupName of Some g \<Rightarrow> groupId g | None \<Rightarrow> -1);
            if m_find (idmap w) gid = None then removeGroupForce Z host groupName s
            else do {
              let s = on_db (db_delete_groups host [groupName]) s;
              let w = w\<lparr>gvalue := m_erase groupName (gvalue w), idmap := m_erase gid (idmap w)\<rparr>;
              if gid = -1 then setBP Z host w s
              else setBP Z host w (notify_im Z host bs (on_db (db_delete_items host [gid]) s)) } } }"

definition removeGroupWithGid :: "Gzip \<Rightarrow> int \<Rightarrow> int \<Rightarrow> BGServer \<Rightarrow> BGServer option" where
  "removeGroupWithGid Z host gid s =
     do { s \<leftarrow> locateObject Z host s;
          let w = getBP Z host s;
          case m_find (idmap w) gid of
            None \<Rightarrow> Some s
          | Some groupName \<Rightarrow> do {
              let bs = buddies_of groupName w;
              let s = on_db (db_delete_groups host [groupName]) s;
              let w = w\<lparr>gvalue := m_erase groupName (gvalue w), idmap := m_erase gid (idmap w)\<rparr>;
              setBP Z host w (notify_im Z host bs (on_db (db_delete_items host [gid]) s)) } }"

definition clear_buddies :: "string \<Rightarrow> GroupMapWrapper \<Rightarrow> GroupMapWrapper" where
  "clear_buddies n w = (case m_find (gvalue w) n of
       Some g \<Rightarrow> w\<lparr>gvalue := m_put n (g\<lparr>buddyIds := []\<rparr>) (gvalue w)\<rparr> | None \<Rightarrow> w)"

definition cleanGroup :: "Gzip \<Rightarrow> int \<Rightarrow> string \<Rightarrow> BGServer \<Rightarrow> BGServer option" where
  "cleanGroup Z host groupName s =
     do { ok \<leftarrow> isUtf8 groupName;
          if \<not> ok then Some s
          else do {
            s \<leftarrow> locateObject Z host s;
            let w = getBP Z host s;
            case m_find (gvalue w) groupName of
              None \<Rightarrow> setBP Z host w s
            | Some g \<Rightarrow>
                if buddyIds g = [] then Some s
                else do {
                  let s = (if 0 \<le> groupId g then on_db (db_delete_items host [groupId g]) s else s);
                  setBP Z host (clear_buddies groupName w) (notify_im Z host (buddyIds g) s) } } }"

definition cleanGroupWithGid :: "Gzip \<Rightarrow> int \<Rightarrow> int \<Rightarrow> BGServer \<Rightarrow> BGServer option" where
  "cleanGroupWithGid Z host gid s =
     do { s \<leftarrow> locateObject Z host s;
          let w = getBP Z host s;
          case m_find (idmap w) gid of
            None \<Rightarrow> Some s
          | Some groupName \<Rightarrow>
              if m_find (gvalue w) groupName \<noteq> None \<and> buddies_of groupName w = [] then Some s
              else do {
                let s = (if 0 \<le> gid then on_db (db_delete_items host [gid]) s else s);
                setBP Z host (clear_buddies groupName w) (notify_im Z host (buddies_of groupName w) s) } }"

definition cleanGroup' :: "Gzip \<Rightarrow> int \<Rightarrow> string \<Rightarrow> BGServer \<Rightarrow> BGServer option" where
  "cleanGroup' Z host groupName s =
     do { ok \<leftarrow> isUtf8 groupName;
          if \<not> ok then Some s
          else do {
            let w = getBP Z host s;
            case m_find (gvalue w) groupName of
              None \<Rightarrow> setBP Z host w s
            | Some g \<Rightarrow>
                if buddyIds g = [] then Some s
                else setBP Z host (clear_buddies groupName w)
                       (if 0 \<le> groupId g then on_db (db_delete_items host [groupId g]) s else s) } }"

end
