(* ===== verification/GroupMembers.thy ===== *)
theory GroupMembers
  imports GroupServer
begin

text \<open>
  The operations of \<^verbatim>\<open>BuddyGroup/src/BuddyGroupI.cpp\<close> on the members of groups, the change of all groups of one buddy by
  a merge of two ordered sequences, and the queries. The relation server that \<open>changeBuddyGroups\<close> asks is an
  argument: the description it answers.
\<close>

section \<open>Adding and setting buddies\<close>

text \<open>A new group for some buddies. Its id does not enter the map of ids.\<close>

definition add_new_group :: "int \<Rightarrow> string \<Rightarrow> int list \<Rightarrow> GroupMapWrapper \<Rightarrow> BGServer \<Rightarrow> GroupMapWrapper \<times> BGServer" where
  "add_new_group host groupName bs w s =
     (let (gid, db) = db_insert_groups host [groupName] (gdb s);
          s = s\<lparr>gdb := db_insert_items (map (\<lambda>b. (host, b, gid)) bs) db\<rparr>
      in (w\<lparr>gvalue := m_put groupName \<lparr>groupId = gid, buddyIds = s_inserts bs []\<rparr> (gvalue w)\<rparr>, s))"

definition put_buddies :: "string \<Rightarrow> BuddyGroup \<Rightarrow> int list \<Rightarrow> GroupMapWrapper \<Rightarrow> GroupMapWrapper" where
  "put_buddies n g bs w = w\<lparr>gvalue := m_put n (g\<lparr>buddyIds := s_inserts bs (buddyIds g)\<rparr>) (gvalue w)\<rparr>"

definition add_to_named :: "Gzip \<Rightarrow> int \<Rightarrow> string \<Rightarrow> int \<Rightarrow> BGServer \<Rightarrow> BGServer option" where
  "add_to_named Z host groupName buddy s =
     (let w = getBP Z host s
      in case m_find (gvalue w) groupName of
           Some g \<Rightarrow>
             if buddy \<in> set (buddyIds g) then Some s
             else setBP Z host (put_buddies groupName g [buddy] w)
                    (notify_im Z host [buddy] (on_db (db_insert_items [(host, buddy, groupId g)]) s))
         | None \<Rightarrow>
             let (w, s) = add_new_group host groupName [buddy] w s
             in setBP Z host w (notify_im Z host [buddy] s))"

definition addBuddyToGroup :: "Gzip \<Rightarrow> int \<Rightarrow> string \<Rightarrow> int \<Rightarrow> BGServer \<Rightarrow> BGServer option" where
  "addBuddyToGroup Z host groupName buddy s =
     do { ok \<leftarrow> isUtf8 groupName;
          if \<not> ok then Some s
          else do { s \<leftarrow> locateObject Z host s; add_to_named Z host groupName buddy s } }"

definition addBuddyToGroupWithGid :: "Gzip \<Rightarrow> int \<Rightarrow> int \<Rightarrow> int \<Rightarrow> BGServer \<Rightarrow> BGServer option" where
  "addBuddyToGroupWithGid Z host gid buddy s =
     do { s \<leftarrow> locateObject Z host s;
          case m_find (idmap (getBP Z host s)) gid of
            None \<Rightarrow> Some s
          | Some groupName \<Rightarrow> add_to_named Z host groupName buddy s }"

text \<open>The buddies not in the set yet, each once, in the order of the request; the set grows on the way.\<close>

primrec insert_ids :: "int list \<Rightarrow> int list \<Rightarrow> int list" where
  "insert_ids [] ids = []"
| "insert_ids (b # bs) ids = (if b \<in> set ids then insert_ids bs ids else b # insert_ids bs (s_insert b ids))"

definition add_known :: "int \<Rightarrow> string \<Rightarrow> BuddyGroup \<Rightarrow> int list \<Rightarrow> GroupMapWrapper \<Rightarrow> BGServer \<Rightarrow> GroupMapWrapper \<times> BGServer" where
  "add_known host groupName g buddies w s =
     (let insertIds = insert_ids buddies (buddyIds g)
      in (put_buddies groupName g insertIds w,
          if insertIds \<noteq> [] then on_db (db_insert_items (map (\<lambda>b. (host, b, groupId g)) insertIds)) s else s))"

definition addBuddiesToGroup :: "Gzip \<Rightarrow> int \<Rightarrow> string \<Rightarrow> int list \<Rightarrow> BGServer \<Rightarrow> BGServer option" where
  "addBuddiesToGroup Z host groupName buddies s =
     do { ok \<leftarrow> isUtf8 groupName;
          if \<not> ok \<or> buddies = [] then Some s
          else do {
            s \<leftarrow> locateObject Z host s;
            let w = getBP Z host s;
            let (w, s) = (case m_find (gvalue w) groupName of
                Some g \<Rightarrow> add_known host groupName g buddies w s
              | None \<Rightarrow> add_new_group host groupName buddies w s);
            setBP Z host w (notify_im Z host buddies s) } }"

definition addBuddiesToGroupWithGid :: "Gzip \<Rightarrow> int \<Rightarrow> int \<Rightarrow> int list \<Rightarrow> BGServer \<Rightarrow> BGServer option" where
  "addBuddiesToGroupWithGid Z host gid buddies s =
     (if buddies = [] then Some s
      else do {
        s \<leftarrow> locateObject Z host s;
        let w = getBP Z host s;
        let (w, s) = (case m_find (idmap w) gid of
            None \<Rightarrow> (w, s)
          | Some groupName \<Rightarrow>
              (case m_find (gvalue w) groupName of
                 Some g \<Rightarrow> add_known host groupName g buddies w s
               | None \<Rightarrow> (w, s)));
        setBP Z host w (notify_im Z host buddies s) })"

definition setBuddiesToGroup :: "Gzip \<Rightarrow> int \<Rightarrow> string \<Rightarrow> int list \<Rightarrow> BGServer \<Rightarrow> BGServer option" where
  "setBuddiesToGroup Z host groupName buddies s =
     do { ok \<leftarrow> isUtf8 groupName;
          if \<not> ok then Some s
          else do {
            s \<leftarrow> locateObject Z host s;
            s \<leftarrow> cleanGroup' Z host groupName s;
            if buddies = [] then Some s
            else do {
              let w = getBP Z host s;
              let (w, s) = (case m_find (gvalue w) groupName of
                  Some g \<Rightarrow> (put_buddies groupName g buddies w,
                             on_db (db_insert_items (map (\<lambda>b. (host, b, groupId g)) buddies)) s)
                | None \<Rightarrow> add_new_group host groupName buddies w s);
              setBP Z host w (notify_im Z host buddies s) } } }"

text \<open>Here the wrapper is unpacked before the group is cleaned, and packed again at the end.\<close>

definition setBuddiesToGroupWithGid :: "Gzip \<Rightarrow> int \<Rightarrow> int \<Rightarrow> int list \<Rightarrow> BGServer \<Rightarrow> BGServer option" where
  "setBuddiesToGroupWithGid Z host gid buddies s =
     do { s \<leftarrow> locateObject Z host s;
          let w = getBP Z host s;
          let groupName = name_of gid w;
          s \<leftarrow> cleanGroup' Z host groupName s;
          if buddies = [] then Some s
          else do {
            let (w, s) = (case m_find (gvalue w) groupName of
                Some g \<Rightarrow> (put_buddies groupName g buddies w,
                           on_db (db_insert_items (map (\<lambda>b. (host, b, groupId g)) buddies)) s)
              | None \<Rightarrow> (w, s));
            setBP Z host w (notify_im Z host buddies s) } }"

section \<open>Removing buddies\<close>

definition erase_buddy :: "int \<Rightarrow> BuddyGroup \<Rightarrow> BuddyGroup" where
  "erase_buddy b g = g\<lparr>buddyIds := s_erase b (buddyIds g)\<rparr>"

definition remove_from_named :: "Gzip \<Rightarrow> int \<Rightarrow> string \<Rightarrow> int \<Rightarrow> BGServer \<Rightarrow> BGServer option" where
  "remove_from_named Z host groupName buddy s =
     (let w = getBP Z host s;
          (w, s) = (case m_find (gvalue w) groupName of
              Some g \<Rightarrow> (w\<lparr>gvalue := m_put groupName (erase_buddy buddy g) (gvalue w)\<rparr>,
                         on_db (db_delete_guest host buddy [groupId g]) s)
            | None \<Rightarrow> (w, s))
      in setBP Z host w (notify_im Z host [buddy] s))"

definition removeBuddyFromGroup :: "Gzip \<Rightarrow> int \<Rightarrow> string \<Rightarrow> int \<Rightarrow> BGServer \<Rightarrow> BGServer option" where
  "removeBuddyFromGroup Z host groupName buddy s =
     do { ok \<leftarrow> isUtf8 groupName;
          if \<not> ok then Some s
          else do { s \<leftarrow> locateObject Z host s; remove_from_named Z host groupName buddy s } }"

definition removeBuddyFromGroupWithGid :: "Gzip \<Rightarrow> int \<Rightarrow> int \<Rightarrow> int \<Rightarrow> BGServer \<Rightarrow> BGServer option" where
  "removeBuddyFromGroupWithGid Z host gid buddy s =
     do { s \<leftarrow> locateObject Z host s; remove_from_named Z host (name_of gid (getBP Z host s)) buddy s }"

text \<open>The loop over all groups: one statement for each.\<close>

primrec remove_buddy_loop :: "int \<Rightarrow> int \<Rightarrow> (string, BuddyGroup) stdmap \<Rightarrow> BGServer \<Rightarrow> (string, BuddyGroup) stdmap \<times> BGServer" where
  "remove_buddy_loop host b [] s = ([], s)"
| "remove_buddy_loop host b (e # es) s =
     (let (es', s') = remove_buddy_loop host b es (on_db (db_delete_guest host b [groupId (snd e)]) s)
      in ((fst e, erase_buddy b (snd e)) # es', s'))"

definition removeBuddy :: "Gzip \<Rightarrow> int \<Rightarrow> int \<Rightarrow> BGServer \<Rightarrow> BGServer option" where
  "removeBuddy Z host buddy s =
     do { s \<leftarrow> locateObject Z host s;
          let w = getBP Z host s;
          let (v, s) = remove_buddy_loop host buddy (gvalue w) s;
          setBP Z host (w\<lparr>gvalue := v\<rparr>) s }"

section \<open>Changing the groups of a buddy\<close>

record ChangePlan =
  p_value :: "(string, BuddyGroup) stdmap"
  addToGroupItem :: "int list"
  deleteGroupId :: "int list"
  p_addGroup :: "string list"
  p_removeGroup :: "string list"

definition plan_leave :: "int \<Rightarrow> string \<times> BuddyGroup \<Rightarrow> ChangePlan \<Rightarrow> ChangePlan" where
  "plan_leave buddy e p =
     (if buddy \<in> set (buddyIds (snd e))
      then let g = erase_buddy buddy (snd e)
           in p\<lparr>p_value := (fst e, g) # p_value p, deleteGroupId := groupId g # deleteGroupId p,
                p_removeGroup := (if buddyIds g = [] then fst e # p_removeGroup p else p_removeGroup p)\<rparr>
      else p\<lparr>p_value := e # p_value p\<rparr>)"

definition plan_join :: "int \<Rightarrow> string \<times> BuddyGroup \<Rightarrow> ChangePlan \<Rightarrow> ChangePlan" where
  "plan_join buddy e p =
     (let g = snd e
      in p\<lparr>p_value := (fst e, g\<lparr>buddyIds := s_insert buddy (buddyIds g)\<rparr>) # p_value p,
           addToGroupItem := (if buddy \<in> set (buddyIds g) then addToGroupItem p else groupId g # addToGroupItem p)\<rparr>)"

text \<open>The three loops over the requested names \<open>it1\<close> and the groups \<open>it2\<close>; \<open>V\<close> is the whole map.\<close>

fun change_scan :: "(string, BuddyGroup) stdmap \<Rightarrow> int \<Rightarrow> string list \<Rightarrow> (string, BuddyGroup) stdmap \<Rightarrow> ChangePlan" where
  "change_scan V buddy [] [] = \<lparr>p_value = [], addToGroupItem = [], deleteGroupId = [], p_addGroup = [], p_removeGroup = []\<rparr>"
| "change_scan V buddy (it1 # names) [] =
     (let p = change_scan V buddy names []
      in if m_find V it1 = None then p\<lparr>p_addGroup := it1 # p_addGroup p\<rparr> else p)"
| "change_scan V buddy [] (it2 # groups) = plan_leave buddy it2 (change_scan V buddy [] groups)"
| "change_scan V buddy (it1 # names) (it2 # groups) =
     (if it1 < fst it2 then let p = change_scan V buddy names (it2 # groups) in p\<lparr>p_addGroup := it1 # p_addGroup p\<rparr>
      else if it1 > fst it2 then plan_leave buddy it2 (change_scan V buddy (it1 # names) groups)
      else plan_join buddy it2 (change_scan V buddy names groups))"

text \<open>The groups made for new names: consecutive ids from the first.\<close>

primrec put_new_groups :: "int \<Rightarrow> int \<Rightarrow> string list \<Rightarrow> (string, BuddyGroup) stdmap \<Rightarrow> (string, BuddyGroup) stdmap" where
  "put_new_groups gid buddy [] v = v"
| "put_new_groups gid buddy (n # ns) v =
     put_new_groups (gid + 1) buddy ns (m_put n \<lparr>groupId = gid, buddyIds = [buddy]\<rparr> v)"

text \<open>The part after the names are checked; the flag tells whether anything changed.\<close>

definition change_groups :: "Gzip \<Rightarrow> bool \<Rightarrow> int \<Rightarrow> int \<Rightarrow> string list \<Rightarrow> BGServer \<Rightarrow> (bool \<times> BGServer) option" where
  "change_groups Z from host buddy nameSeq s =
     (let w = getBP Z host s;
          p = change_scan (gvalue w) buddy (s_inserts nameSeq []) (gvalue w);
          item = (\<lambda>g. (host, buddy, g))
      in if addToGroupItem p = [] \<and> deleteGroupId p = [] \<and> p_addGroup p = [] then Some (False, s)
         else
           let s = (if addToGroupItem p \<noteq> [] then on_db (db_insert_items (map item (addToGroupItem p))) s else s);
               s = (if deleteGroupId p \<noteq> [] then on_db (db_delete_guest host buddy (deleteGroupId p)) s else s);
               (v, s) =
                 (if p_addGroup p \<noteq> []
                  then let (gid, db) = db_insert_groups host (p_addGroup p) (gdb s); s = s\<lparr>gdb := db\<rparr>
                       in if gid \<noteq> -1
                          then (put_new_groups gid buddy (p_addGroup p) (p_value p),
                                on_db (db_insert_items (map (item \<circ> fst) (number_rows gid host (p_addGroup p)))) s)
                          else (p_value p, s)
                  else (p_value p, s));
               v = foldl (\<lambda>m n. m_erase n m) v (p_removeGroup p);
               s = (if p_removeGroup p \<noteq> [] then on_db (db_delete_groups host (p_removeGroup p)) s else s);
               s = (if notifyIm s \<and> from then changeBuddyGroupNotify host [(buddy, nameSeq)] s else s)
           in do { s \<leftarrow> setBP Z host (w\<lparr>gvalue := v\<rparr>) s; Some (True, s) })"

primrec all_utf8 :: "string list \<Rightarrow> bool option" where
  "all_utf8 [] = Some True"
| "all_utf8 (n # ns) = do { ok \<leftarrow> isUtf8 n; if ok then all_utf8 ns else Some False }"

fun desc_int :: "BuddyDesc \<Rightarrow> int" where
  "desc_int NoPath = 0" | "desc_int Self = 1" | "desc_int Friend = 2" | "desc_int Apply = 3"
| "desc_int Applied = 4" | "desc_int Block = 5" | "desc_int Blocked = 6" | "desc_int BiBlock = 7"

definition changeBuddyGroupsForWeb :: "Gzip \<Rightarrow> bool \<Rightarrow> int \<Rightarrow> int \<Rightarrow> string list \<Rightarrow> BGServer \<Rightarrow> BGServer option" where
  "changeBuddyGroupsForWeb Z from host buddy nameSeq s =
     do { ok \<leftarrow> all_utf8 nameSeq;
          if \<not> ok then Some s
          else do { s \<leftarrow> locateObject Z host s; (_, s) \<leftarrow> change_groups Z from host buddy nameSeq s; Some s } }"

text \<open>The requests by ids check the ids and go on with no names: the loop does not collect them.\<close>

definition changeBuddyGroupsForWebWithGid :: "Gzip \<Rightarrow> bool \<Rightarrow> int \<Rightarrow> int \<Rightarrow> int list \<Rightarrow> BGServer \<Rightarrow> BGServer option" where
  "changeBuddyGroupsForWebWithGid Z from host buddy groupIdSeq s =
     do { s \<leftarrow> locateObject Z host s;
          if list_ex (\<lambda>i. m_find (idmap (getBP Z host s)) i = None) groupIdSeq then Some s
          else do { (_, s) \<leftarrow> change_groups Z from host buddy [] s; Some s } }"

definition changeBuddyGroups :: "Gzip \<Rightarrow> BuddyDesc \<Rightarrow> bool \<Rightarrow> int \<Rightarrow> int \<Rightarrow> string list \<Rightarrow> BGServer \<Rightarrow> (int \<times> BGServer) option" where
  "changeBuddyGroups Z rel from host buddy nameSeq s =
     do { ok \<leftarrow> all_utf8 nameSeq;
          if \<not> ok then Some (-1, s)
          else if rel \<noteq> Friend then Some (desc_int rel, s)
          else do {
            s \<leftarrow> locateObject Z host s;
            (changed, s) \<leftarrow> change_groups Z from host buddy nameSeq s;
            Some (if changed then desc_int rel else -1, s) } }"

definition changeBuddyGroupsWithGid :: "Gzip \<Rightarrow> BuddyDesc \<Rightarrow> bool \<Rightarrow> int \<Rightarrow> int \<Rightarrow> int list \<Rightarrow> BGServer \<Rightarrow> (int \<times> BGServer) option" where
  "changeBuddyGroupsWithGid Z rel from host buddy groupIdSeq s =
     do { s \<leftarrow> locateObject Z host s;
          if list_ex (\<lambda>i. m_find (idmap (getBP Z host s)) i = None) groupIdSeq then Some (-1, s)
          else if rel \<noteq> Friend then Some (desc_int rel, s)
          else do {
            (changed, s) \<leftarrow> change_groups Z from host buddy [] s;
            Some (if changed then desc_int rel else -1, s) } }"

section \<open>Queries\<close>

text \<open>A query locates the object and reads the wrapper: the answer and the server, which may have loaded the object.\<close>

definition query :: "Gzip \<Rightarrow> int \<Rightarrow> (GroupMapWrapper \<Rightarrow> 'a) \<Rightarrow> BGServer \<Rightarrow> ('a \<times> BGServer) option" where
  "query Z host f s = do { s \<leftarrow> locateObject Z host s; Some (f (getBP Z host s), s) }"

primrec buddied_loop :: "int list \<Rightarrow> string \<Rightarrow> (int, string list) stdmap \<Rightarrow> (int, string list) stdmap" where
  "buddied_loop [] n res = res"
| "buddied_loop (i # is) n res =
     buddied_loop is n (m_put i ((case m_find res i of Some ns \<Rightarrow> ns | None \<Rightarrow> []) @ [n]) res)"

definition getBuddiedGroupsMap :: "GroupMapWrapper \<Rightarrow> (int, string list) stdmap" where
  "getBuddiedGroupsMap w = foldl (\<lambda>res e. buddied_loop (buddyIds (snd e)) (fst e) res) [] (gvalue w)"

text \<open>\<open>map::insert\<close> keeps an entry that is there.\<close>

definition m_insert :: "'k::linorder \<Rightarrow> 'v \<Rightarrow> ('k, 'v) stdmap \<Rightarrow> ('k, 'v) stdmap" where
  "m_insert k v m = (case m_find m k of None \<Rightarrow> m_put k v m | Some _ \<Rightarrow> m)"

primrec buddy_groups_loop :: "int list \<Rightarrow> int \<Rightarrow> string \<Rightarrow> (int, (int, string) stdmap) stdmap \<Rightarrow> (int, (int, string) stdmap) stdmap" where
  "buddy_groups_loop [] gid n res = res"
| "buddy_groups_loop (i # is) gid n res =
     buddy_groups_loop is gid n (m_put i (m_insert gid n (case m_find res i of Some m \<Rightarrow> m | None \<Rightarrow> [])) res)"

definition getBuddyGroupsMap :: "GroupMapWrapper \<Rightarrow> (int, (int, string) stdmap) stdmap" where
  "getBuddyGroupsMap w = foldl (\<lambda>res e. buddy_groups_loop (buddyIds (snd e)) (groupId (snd e)) (fst e) res) [] (gvalue w)"

definition getGroupList :: "GroupMapWrapper \<Rightarrow> string list" where
  "getGroupList w = map fst (gvalue w)"

definition getGroupListData :: "GroupMapWrapper \<Rightarrow> (int, string) stdmap" where
  "getGroupListData w = foldl (\<lambda>res e. m_insert (groupId (snd e)) (fst e) res) [] (gvalue w)"

text \<open>The loop over the set with its running index; the sum of the bounds is an \<open>int\<close>.\<close>

primrec page_loop :: "int \<Rightarrow> int \<Rightarrow> int \<Rightarrow> int list \<Rightarrow> int list" where
  "page_loop bgn lim index [] = []"
| "page_loop bgn lim index (b # bs) =
     (if index < bgn then page_loop bgn lim (index + 1) bs
      else if index \<ge> to_int32 (bgn + lim) \<and> lim \<ge> 0 then []
      else b # page_loop bgn lim (index + 1) bs)"

definition getBuddyList :: "string \<Rightarrow> int \<Rightarrow> int \<Rightarrow> GroupMapWrapper \<Rightarrow> int list" where
  "getBuddyList groupName bgn lim w =
     (case m_find (gvalue w) groupName of
        Some g \<Rightarrow> page_loop (if bgn < 0 then 0 else bgn) lim 0 (buddyIds g)
      | None \<Rightarrow> [])"

definition getBuddyListWithGid :: "int \<Rightarrow> int \<Rightarrow> int \<Rightarrow> GroupMapWrapper \<Rightarrow> int list" where
  "getBuddyListWithGid gid bgn lim w =
     (case m_find (idmap w) gid of None \<Rightarrow> [] | Some groupName \<Rightarrow> getBuddyList groupName bgn lim w)"

definition getBuddyGroups :: "int \<Rightarrow> GroupMapWrapper \<Rightarrow> string list" where
  "getBuddyGroups guest w = groups_with guest w"

definition getBuddyGroupsData :: "int \<Rightarrow> GroupMapWrapper \<Rightarrow> (int, string) stdmap" where
  "getBuddyGroupsData guest w =
     foldl (\<lambda>res e. if guest \<in> set (buddyIds (snd e)) then m_insert (groupId (snd e)) (fst e) res else res) [] (gvalue w)"

definition getCountByGroup :: "string \<Rightarrow> GroupMapWrapper \<Rightarrow> int" where
  "getCountByGroup groupName w =
     (case m_find (gvalue w) groupName of Some g \<Rightarrow> int (length (buddyIds g)) | None \<Rightarrow> 0)"

definition getCountByGroupId :: "int \<Rightarrow> GroupMapWrapper \<Rightarrow> int" where
  "getCountByGroupId gid w =
     (case m_find (idmap w) gid of None \<Rightarrow> -1 | Some groupName \<Rightarrow> getCountByGroup groupName w)"

definition getAllGroupsBuddyCount :: "GroupMapWrapper \<Rightarrow> (string, int) stdmap" where
  "getAllGroupsBuddyCount w = foldl (\<lambda>m e. m_put (fst e) (int (length (buddyIds (snd e)))) m) [] (gvalue w)"

definition getAllGroupsBuddyCountData :: "GroupMapWrapper \<Rightarrow> (int, int) stdmap" where
  "getAllGroupsBuddyCountData w =
     foldl (\<lambda>m e. m_put (groupId (snd e)) (int (length (buddyIds (snd e)))) m) [] (gvalue w)"

definition load_groups :: "Gzip \<Rightarrow> int \<Rightarrow> BGServer \<Rightarrow> BGServer option" where
  "load_groups Z host s = do { (b, s) \<leftarrow> create Z host s; Some (s\<lparr>bg_cache := (bg_cache s)(host \<mapsto> b)\<rparr>) }"

definition saveLoad :: "Gzip \<Rightarrow> int \<Rightarrow> BGServer \<Rightarrow> BGServer option" where
  "saveLoad Z host s =
     do { s \<leftarrow> locateObject Z host s; (b, s) \<leftarrow> create Z host s; Some (s\<lparr>bg_cache := (bg_cache s)(host \<mapsto> b)\<rparr>) }"

end
