(* ===== verification/GroupInv.thy ===== *)
theory GroupInv
  imports GroupMembers
begin

text \<open>
  When the tables and the unpacked groups of a user agree, and how every update of the two together keeps them in
  agreement and changes the groups as seen from outside: a map from names to sets of buddies.
\<close>

section \<open>The rows of a user\<close>

definition rows :: "int \<Rightarrow> GroupDB \<Rightarrow> (int \<times> string) set" where
  "rows h db = {(g, n). (g, h, n) \<in> set (relation_group db)}"

definition items :: "int \<Rightarrow> GroupDB \<Rightarrow> (int \<times> int) set" where
  "items h db = {(b, g). (h, b, g) \<in> set (relation_group_item db)}"

abbreviation next_gid :: "int \<Rightarrow> GroupDB \<Rightarrow> int" where
  "next_gid h db \<equiv> next_groupid db (getTableNo h)"

abbreviation members :: "int \<Rightarrow> GroupDB \<Rightarrow> int \<Rightarrow> int set" where
  "members h db g \<equiv> {b. (b, g) \<in> items h db}"

named_theorems group_db_simps \<open>the rows after a statement\<close>

lemma number_rows_set: "(g', h', n) \<in> set (number_rows g h ns) \<longleftrightarrow> h' = h \<and> (g', n) \<in> set (zip [g..g + int (length ns) - 1] ns)"
proof (induction ns arbitrary: g)
  case (Cons a ns)
  have "[g..g + int (length (a # ns)) - 1] = g # [g + 1..(g + 1) + int (length ns) - 1]" by (simp add: upto_rec1 add.commute)
  with Cons [of "g + 1"] show ?case by auto
qed simp

lemma rows_db [group_db_simps]:
  "rows h (db_insert_items rs db) = rows h db"
  "rows h (db_delete_items h' gs db) = rows h db"
  "rows h (db_delete_guest h' b gs db) = rows h db"
  "rows h (db_delete_groups h' ns db) = (if h' = h then {r \<in> rows h db. snd r \<notin> set ns} else rows h db)"
  "rows h (db_rename_group h' old new db) = (if h' = h then (\<lambda>(g, n). (g, if n = old then new else n)) ` rows h db else rows h db)"
  by (auto simp: rows_def db_insert_items_def db_delete_items_def db_delete_guest_def db_delete_groups_def db_rename_group_def image_iff)
     (force split: if_splits)+

lemma rows_insert [group_db_simps]:
  "rows h (snd (db_insert_groups h' ns db)) =
     (if h' = h then rows h db \<union> {(g, n). (g, h, n) \<in> set (number_rows (next_gid h db) h ns)} else rows h db)"
  by (auto simp: rows_def db_insert_groups_def Let_def number_rows_set)

lemma items_db [group_db_simps]:
  "items h (db_insert_items rs db) = items h db \<union> {(b, g). (h, b, g) \<in> set rs}"
  "items h (db_delete_items h' gs db) = (if h' = h then {i \<in> items h db. snd i \<notin> set gs} else items h db)"
  "items h (db_delete_guest h' b gs db) = (if h' = h then {i \<in> items h db. \<not> (fst i = b \<and> snd i \<in> set gs)} else items h db)"
  "items h (db_delete_groups h' ns db) = items h db"
  "items h (db_rename_group h' old new db) = items h db"
  "items h (snd (db_insert_groups h' ns db)) = items h db"
  by (auto simp: items_def db_insert_items_def db_delete_items_def db_delete_guest_def db_delete_groups_def
      db_rename_group_def db_insert_groups_def Let_def)

lemma next_db [group_db_simps]:
  "next_groupid (db_insert_items rs db) = next_groupid db"
  "next_groupid (db_delete_items h' gs db) = next_groupid db"
  "next_groupid (db_delete_guest h' b gs db) = next_groupid db"
  "next_groupid (db_delete_groups h' ns db) = next_groupid db"
  "next_groupid (db_rename_group h' old new db) = next_groupid db"
  "next_groupid (snd (db_insert_groups h' ns db)) = (next_groupid db)(getTableNo h' := next_gid h' db + int (length ns))"
  by (simp_all add: db_insert_items_def db_delete_items_def db_delete_guest_def db_delete_groups_def
      db_rename_group_def db_insert_groups_def Let_def)

text \<open>A statement for one user leaves the rows of the others, and ids are never handed out twice.\<close>

definition other_users :: "int \<Rightarrow> GroupDB \<Rightarrow> GroupDB \<Rightarrow> bool" where
  "other_users h db db' \<longleftrightarrow>
     (\<forall>h'. h' \<noteq> h \<longrightarrow> rows h' db' = rows h' db \<and> items h' db' = items h' db) \<and>
     (\<forall>t. next_groupid db t \<le> next_groupid db' t)"

lemma other_users_refl [intro, simp]: "other_users h db db"
  by (simp add: other_users_def)

lemma other_users_trans: "other_users h a b \<Longrightarrow> other_users h b c \<Longrightarrow> other_users h a c"
  by (auto simp: other_users_def intro: order_trans)

lemma other_users_db [intro, simp]:
  "\<forall>r \<in> set rs. fst r = h \<Longrightarrow> other_users h db (db_insert_items rs db)"
  "other_users h db (db_delete_items h gs db)"
  "other_users h db (db_delete_guest h b gs db)"
  "other_users h db (db_delete_groups h ns db)"
  "other_users h db (db_rename_group h old new db)"
  "other_users h db (snd (db_insert_groups h ns db))"
  by (auto simp: other_users_def group_db_simps)

section \<open>Agreement\<close>

definition legal :: "string \<Rightarrow> bool" where
  "legal n \<longleftrightarrow> isUtf8 n = Some True \<and> n \<noteq> []"

definition legal_buddy :: "int \<Rightarrow> bool" where
  "legal_buddy b \<longleftrightarrow> b \<noteq> 0 \<and> int32 b"

text \<open>The rows of a user: legal names, one id per name and one name per id, ids and guests that fit.\<close>

definition db_ok :: "int \<Rightarrow> GroupDB \<Rightarrow> bool" where
  "db_ok h db \<longleftrightarrow>
     (\<forall>g n. (g, n) \<in> rows h db \<longrightarrow> 1 \<le> g \<and> g < next_gid h db \<and> legal n) \<and>
     (\<forall>g n g' n'. (g, n) \<in> rows h db \<longrightarrow> (g', n') \<in> rows h db \<longrightarrow> (g = g' \<longleftrightarrow> n = n')) \<and>
     (\<forall>b g. (b, g) \<in> items h db \<longrightarrow> legal_buddy b \<and> g < next_gid h db)"

lemma db_okI:
  assumes "\<And>g n. (g, n) \<in> rows h db \<Longrightarrow> 1 \<le> g \<and> g < next_gid h db \<and> legal n"
    and "\<And>g n g' n'. (g, n) \<in> rows h db \<Longrightarrow> (g', n') \<in> rows h db \<Longrightarrow> g = g' \<longleftrightarrow> n = n'"
    and "\<And>b g. (b, g) \<in> items h db \<Longrightarrow> legal_buddy b \<and> g < next_gid h db"
  shows "db_ok h db"
  using assms unfolding db_ok_def by blast

lemma db_ok_row: "db_ok h db \<Longrightarrow> (g, n) \<in> rows h db \<Longrightarrow> 1 \<le> g \<and> g < next_gid h db \<and> legal n"
  by (simp add: db_ok_def)

lemma db_ok_one: "db_ok h db \<Longrightarrow> (g, n) \<in> rows h db \<Longrightarrow> (g', n') \<in> rows h db \<Longrightarrow> g = g' \<longleftrightarrow> n = n'"
  by (simp add: db_ok_def)

lemma db_ok_item: "db_ok h db \<Longrightarrow> (b, g) \<in> items h db \<Longrightarrow> legal_buddy b \<and> g < next_gid h db"
  by (simp add: db_ok_def)

definition ids_fit :: "GroupDB \<Rightarrow> bool" where
  "ids_fit db \<longleftrightarrow> list_all (\<lambda>t. 1 \<le> next_groupid db t \<and> next_groupid db t \<le> 2 ^ 31) [-99..99]"

lemma getTableNo_range: "getTableNo h \<in> {-99..99}"
proof -
  have "0 \<le> x mod 100 \<and> x mod 100 < 100" for x :: int by simp
  from this [of h] this [of "- h"] show ?thesis unfolding getTableNo_def atLeastAtMost_iff by (smt (verit))
qed

lemma ids_fit_gid: "ids_fit db \<Longrightarrow> 1 \<le> next_gid h db" "ids_fit db \<Longrightarrow> next_gid h db \<le> 2 ^ 31"
  unfolding ids_fit_def list_all_iff set_upto using getTableNo_range by blast+

definition agree :: "int \<Rightarrow> (string, BuddyGroup) stdmap \<Rightarrow> GroupDB \<Rightarrow> bool" where
  "agree h v db \<longleftrightarrow>
     (\<forall>n g. m_find v n = Some g \<longrightarrow> (groupId g, n) \<in> rows h db \<and> s_wf (buddyIds g) \<and> set (buddyIds g) = members h db (groupId g)) \<and>
     (\<forall>g n. (g, n) \<in> rows h db \<longrightarrow> m_find v n \<noteq> None)"

definition ids_wf :: "(int, string) stdmap \<Rightarrow> bool" where
  "ids_wf m \<longleftrightarrow> m_wf m \<and> (\<forall>i \<in> fst ` set m. 1 \<le> i \<and> i < 2 ^ 31)"

definition coh :: "int \<Rightarrow> GroupMapWrapper \<Rightarrow> GroupDB \<Rightarrow> bool" where
  "coh h w db \<longleftrightarrow> db_ok h db \<and> m_wf (gvalue w) \<and> ids_wf (idmap w) \<and> agree h (gvalue w) db"

lemma coh_db: "coh h w db \<Longrightarrow> db_ok h db"
  by (simp add: coh_def)

lemma coh_value: "coh h w db \<Longrightarrow> m_wf (gvalue w)"
  by (simp add: coh_def)

lemma coh_agree: "coh h w db \<Longrightarrow> agree h (gvalue w) db"
  by (simp add: coh_def)

lemma coh_not_found: "coh h w db \<Longrightarrow> m_find (gvalue w) n = None \<Longrightarrow> (x, n) \<notin> rows h db"
  unfolding coh_def agree_def by metis

lemma coh_wf:
  assumes "coh h w db" "ids_fit db"
  shows "w_wf w"
proof -
  have "group_ok e" if "e \<in> set (gvalue w)" for e
  proof -
    have "m_find (gvalue w) (fst e) = Some (snd e)" using assms(1) that by (simp add: coh_def m_find_in)
    then have "(groupId (snd e), fst e) \<in> rows h db" "s_wf (buddyIds (snd e))"
      "set (buddyIds (snd e)) = members h db (groupId (snd e))" using assms(1) by (auto simp: coh_def agree_def)
    moreover have "next_gid h db \<le> 2 ^ 31" by (rule ids_fit_gid(2) [OF assms(2)])
    moreover have "db_ok h db" using assms(1) by (simp add: coh_def)
    ultimately show ?thesis
      using db_ok_row [of h db "groupId (snd e)" "fst e"] db_ok_item [of h db _ "groupId (snd e)"]
      by (auto simp: group_ok_def legal_buddy_def)
  qed
  then show ?thesis using assms(1) by (force simp: w_wf_def coh_def ids_wf_def)
qed

text \<open>The groups of a user as the outside sees them.\<close>

type_synonym groups = "string \<rightharpoonup> int set"

definition wabs :: "GroupMapWrapper \<Rightarrow> groups" where
  "wabs w n = map_option (set \<circ> buddyIds) (m_find (gvalue w) n)"

definition gid_of :: "int \<Rightarrow> GroupDB \<Rightarrow> string \<Rightarrow> int option" where
  "gid_of h db = map_of (map (\<lambda>(g, h', n). (n, g)) (filter (\<lambda>(g, h', n). h' = h) (relation_group db)))"

definition dbabs :: "int \<Rightarrow> GroupDB \<Rightarrow> groups" where
  "dbabs h db n = map_option (members h db) (gid_of h db n)"

lemma gid_of_rows:
  assumes "db_ok h db"
  shows "gid_of h db n = Some g \<longleftrightarrow> (g, n) \<in> rows h db"
proof
  assume "gid_of h db n = Some g"
  then show "(g, n) \<in> rows h db" unfolding gid_of_def by (auto dest!: map_of_SomeD simp: rows_def)
next
  assume r: "(g, n) \<in> rows h db"
  then have "n \<in> fst ` set (map (\<lambda>(g, h', n). (n, g)) (filter (\<lambda>(g, h', n). h' = h) (relation_group db)))"
    by (force simp: rows_def)
  then have "gid_of h db n \<noteq> None" unfolding gid_of_def by (simp only: map_of_eq_None_iff not_not)
  then obtain g' where g': "gid_of h db n = Some g'" by blast
  then have "(g', n) \<in> rows h db" unfolding gid_of_def by (auto dest!: map_of_SomeD simp: rows_def)
  with r g' db_ok_one [OF assms] show "gid_of h db n = Some g" by simp
qed

lemma coh_abs:
  assumes "coh h w db"
  shows "dbabs h db = wabs w"
proof
  fix n
  have o: "db_ok h db" using assms by (simp add: coh_def)
  show "dbabs h db n = wabs w n"
  proof (cases "m_find (gvalue w) n")
    case None
    then have "(g, n) \<notin> rows h db" for g by (rule coh_not_found [OF assms])
    then have "gid_of h db n = None" using gid_of_rows [OF o] by (cases "gid_of h db n") auto
    with None show ?thesis by (simp add: dbabs_def wabs_def)
  next
    case (Some g)
    then have "(groupId g, n) \<in> rows h db" "set (buddyIds g) = members h db (groupId g)" using assms by (auto simp: coh_def agree_def)
    moreover from this have "gid_of h db n = Some (groupId g)" using gid_of_rows [OF o] by simp
    ultimately show ?thesis using Some by (simp add: dbabs_def wabs_def)
  qed
qed

lemma db_ok_others: "db_ok h db \<Longrightarrow> other_users h' db db' \<Longrightarrow> h \<noteq> h' \<Longrightarrow> db_ok h db'"
  unfolding db_ok_def other_users_def by (metis order_less_le_trans)

lemma coh_others: "coh h w db \<Longrightarrow> other_users h' db db' \<Longrightarrow> h \<noteq> h' \<Longrightarrow> coh h w db'"
  using db_ok_others [of h db h' db'] by (simp add: coh_def agree_def other_users_def)

lemma dbabs_others:
  assumes "db_ok h db" "other_users h' db db'" "h \<noteq> h'"
  shows "dbabs h db' = dbabs h db"
proof
  fix n
  have e: "rows h db' = rows h db" "items h db' = items h db" using assms(2,3) by (simp_all add: other_users_def)
  have "gid_of h db' n = Some g \<longleftrightarrow> gid_of h db n = Some g" for g
    using gid_of_rows [OF assms(1)] gid_of_rows [OF db_ok_others [OF assms]] e(1) by simp
  then have "gid_of h db' n = gid_of h db n" by (metis not_None_eq)
  with e(2) show "dbabs h db' n = dbabs h db n" by (simp add: dbabs_def)
qed

section \<open>Updates of one group\<close>

lemma wabs_put [simp]: "m_wf (gvalue w) \<Longrightarrow> wabs (w\<lparr>gvalue := m_put n g (gvalue w)\<rparr>) = (wabs w)(n \<mapsto> set (buddyIds g))"
  by (simp add: wabs_def m_put_find fun_eq_iff)

lemma wabs_erase [simp]: "wabs (w\<lparr>gvalue := m_erase n v\<rparr>) = (wabs (w\<lparr>gvalue := v\<rparr>))(n := None)"
  by (simp add: wabs_def m_erase_find fun_eq_iff)

lemma wabs_idmap [simp]: "wabs (w\<lparr>idmap := m\<rparr>) = wabs w"
  by (simp add: wabs_def fun_eq_iff)

lemma coh_idmap: "coh h w db \<Longrightarrow> ids_wf m \<Longrightarrow> coh h (w\<lparr>idmap := m\<rparr>) db"
  by (simp add: coh_def)

lemma ids_wf_put: "ids_wf m \<Longrightarrow> 1 \<le> i \<Longrightarrow> i < 2 ^ 31 \<Longrightarrow> ids_wf (m_put i n m)"
  using m_put_keys [of i n m] by (auto simp: ids_wf_def m_put_wf)

lemma ids_wf_erase: "ids_wf m \<Longrightarrow> ids_wf (m_erase i m)"
  unfolding ids_wf_def using m_erase_wf [of m i] by (auto simp: m_erase_def)

lemma agree_put:
  assumes "agree h v db" "m_wf v" "db_ok h db'"
    and "rows h db' = insert (groupId g, n) (rows h db)"
    and "\<And>x. x \<noteq> groupId g \<Longrightarrow> members h db' x = members h db x"
    and "s_wf (buddyIds g)" "set (buddyIds g) = members h db' (groupId g)"
  shows "agree h (m_put n g v) db'"
proof -
  have "groupId g' \<noteq> groupId g" if "n' \<noteq> n" "m_find v n' = Some g'" for n' g'
  proof -
    have "(groupId g', n') \<in> rows h db'" "(groupId g, n) \<in> rows h db'" using assms(1,4) that by (auto simp: agree_def)
    with db_ok_one [OF assms(3)] that(1) show ?thesis by blast
  qed
  with assms show ?thesis by (auto simp: agree_def m_put_find)
qed

lemma agree_erase:
  assumes "agree h v db" "rows h db' = {r \<in> rows h db. snd r \<noteq> n}"
    and "\<And>x n'. (x, n') \<in> rows h db' \<Longrightarrow> members h db' x = members h db x"
  shows "agree h (m_erase n v) db'"
  unfolding agree_def
proof (intro conjI allI impI)
  fix n' g assume "m_find (m_erase n v) n' = Some g"
  then have f: "n' \<noteq> n" "m_find v n' = Some g" by (auto simp: m_erase_find split: if_splits)
  then show "s_wf (buddyIds g)" and r: "(groupId g, n') \<in> rows h db'" using assms(1,2) by (auto simp: agree_def)
  show "set (buddyIds g) = members h db' (groupId g)" using assms(3) [OF r] assms(1) f(2) by (simp add: agree_def)
next
  fix x n' assume "(x, n') \<in> rows h db'"
  then show "m_find (m_erase n v) n' \<noteq> None" using assms(1,2) by (auto simp: agree_def m_erase_find)
qed

lemma db_ok_sub:
  assumes "db_ok h db" "rows h db' \<subseteq> rows h db" "items h db' \<subseteq> items h db" "next_groupid db' = next_groupid db"
  shows "db_ok h db'"
proof (rule db_okI)
  fix g n assume "(g, n) \<in> rows h db'"
  then show "1 \<le> g \<and> g < next_gid h db' \<and> legal n" using db_ok_row [OF assms(1)] assms(2,4) by auto
next
  fix g n g' n' assume "(g, n) \<in> rows h db'" "(g', n') \<in> rows h db'"
  then show "g = g' \<longleftrightarrow> n = n'" using db_ok_one [OF assms(1), of g n g' n'] assms(2) by blast
next
  fix b g assume "(b, g) \<in> items h db'"
  then show "legal_buddy b \<and> g < next_gid h db'" using db_ok_item [OF assms(1)] assms(3,4) by auto
qed

lemma db_ok_items:
  "db_ok h db \<Longrightarrow> (\<And>b g. (h, b, g) \<in> set rs \<Longrightarrow> legal_buddy b \<and> g < next_gid h db) \<Longrightarrow> db_ok h (db_insert_items rs db)"
  by (rule db_okI) (use db_ok_row [of h db] db_ok_one [of h db] db_ok_item [of h db] in \<open>auto simp: group_db_simps\<close>)

text \<open>What is known of a group that is found.\<close>

lemma coh_found:
  assumes "coh h w db" "m_find (gvalue w) n = Some g"
  shows "(groupId g, n) \<in> rows h db" "s_wf (buddyIds g)" "set (buddyIds g) = members h db (groupId g)"
    "1 \<le> groupId g" "groupId g < next_gid h db" "legal n" "\<forall>b \<in> set (buddyIds g). legal_buddy b"
proof -
  show r: "(groupId g, n) \<in> rows h db" and "s_wf (buddyIds g)" and m: "set (buddyIds g) = members h db (groupId g)"
    using assms by (auto simp: coh_def agree_def)
  show "1 \<le> groupId g" "groupId g < next_gid h db" "legal n" using db_ok_row [OF coh_db [OF assms(1)] r] by simp_all
  show "\<forall>b \<in> set (buddyIds g). legal_buddy b" using db_ok_item [OF coh_db [OF assms(1)]] m by blast
qed

lemma coh_same_id:
  "coh h w db \<Longrightarrow> m_find (gvalue w) n = Some g \<Longrightarrow> m_find (gvalue w) n' = Some g' \<Longrightarrow> groupId g = groupId g' \<longleftrightarrow> n = n'"
  using db_ok_one [OF coh_db coh_found(1) coh_found(1)] by blast

lemma coh_join:
  assumes "coh h w db" "m_find (gvalue w) n = Some g" "\<forall>b \<in> set bs. legal_buddy b"
  shows "coh h (put_buddies n g bs w) (db_insert_items (map (\<lambda>b. (h, b, groupId g)) bs) db)"
    "wabs (put_buddies n g bs w) = (wabs w)(n \<mapsto> set (buddyIds g) \<union> set bs)"
proof -
  let ?db = "db_insert_items (map (\<lambda>b. (h, b, groupId g)) bs) db"
  note f = coh_found [OF assms(1,2)]
  have o: "db_ok h ?db" by (rule db_ok_items [OF coh_db [OF assms(1)]]) (use assms(3) f(5) in auto)
  have "agree h (m_put n (g\<lparr>buddyIds := s_inserts bs (buddyIds g)\<rparr>) (gvalue w)) ?db"
    by (rule agree_put [OF coh_agree coh_value o]) (use assms(1) f(1-3) in \<open>auto simp: group_db_simps\<close>)
  with assms o show "coh h (put_buddies n g bs w) ?db" by (simp add: coh_def put_buddies_def m_put_wf)
  show "wabs (put_buddies n g bs w) = (wabs w)(n \<mapsto> set (buddyIds g) \<union> set bs)"
    using assms(1) by (simp add: coh_def put_buddies_def)
qed

lemma coh_leave:
  assumes "coh h w db" "m_find (gvalue w) n = Some g"
  shows "coh h (w\<lparr>gvalue := m_put n (erase_buddy b g) (gvalue w)\<rparr>) (db_delete_guest h b [groupId g] db)"
    "wabs (w\<lparr>gvalue := m_put n (erase_buddy b g) (gvalue w)\<rparr>) = (wabs w)(n \<mapsto> set (buddyIds g) - {b})"
proof -
  let ?db = "db_delete_guest h b [groupId g] db"
  note f = coh_found [OF assms]
  have o: "db_ok h ?db" by (rule db_ok_sub [OF coh_db [OF assms(1)]]) (auto simp: group_db_simps)
  have "agree h (m_put n (erase_buddy b g) (gvalue w)) ?db"
    by (rule agree_put [OF coh_agree coh_value o]) (use assms(1) f(1-3) in \<open>auto simp: group_db_simps erase_buddy_def\<close>)
  with assms o show "coh h (w\<lparr>gvalue := m_put n (erase_buddy b g) (gvalue w)\<rparr>) ?db" by (simp add: coh_def m_put_wf)
  show "wabs (w\<lparr>gvalue := m_put n (erase_buddy b g) (gvalue w)\<rparr>) = (wabs w)(n \<mapsto> set (buddyIds g) - {b})"
    using assms(1) by (simp add: coh_def erase_buddy_def)
qed

lemma coh_clear:
  assumes "coh h w db" "m_find (gvalue w) n = Some g"
  shows "coh h (clear_buddies n w) (db_delete_items h [groupId g] db)" "wabs (clear_buddies n w) = (wabs w)(n \<mapsto> {})"
proof -
  let ?db = "db_delete_items h [groupId g] db"
  note f = coh_found [OF assms]
  have o: "db_ok h ?db" by (rule db_ok_sub [OF coh_db [OF assms(1)]]) (auto simp: group_db_simps)
  have "agree h (m_put n (g\<lparr>buddyIds := []\<rparr>) (gvalue w)) ?db"
    by (rule agree_put [OF coh_agree coh_value o]) (use assms(1) f(1-3) in \<open>auto simp: group_db_simps\<close>)
  with assms o show "coh h (clear_buddies n w) ?db" by (simp add: coh_def clear_buddies_def m_put_wf)
  show "wabs (clear_buddies n w) = (wabs w)(n \<mapsto> {})" using assms by (simp add: coh_def clear_buddies_def)
qed

text \<open>Deleting a group, with its items or, when it has none, without.\<close>

lemma coh_delete:
  assumes "coh h w db" "m_find (gvalue w) n = Some g"
    and "db' = db_delete_items h [groupId g] (db_delete_groups h [n] db) \<or> db' = db_delete_groups h [n] db"
  shows "coh h (w\<lparr>gvalue := m_erase n (gvalue w)\<rparr>) db'"
proof -
  note f = coh_found [OF assms(1,2)]
  have o: "db_ok h db'" by (rule db_ok_sub [OF coh_db [OF assms(1)]]) (use assms(3) in \<open>auto simp: group_db_simps\<close>)
  have r: "rows h db' = {r \<in> rows h db. snd r \<noteq> n}" using assms(3) by (auto simp: group_db_simps)
  have "agree h (m_erase n (gvalue w)) db'"
  proof (rule agree_erase [OF _ r])
    show "agree h (gvalue w) db" using assms(1) by (simp add: coh_def)
    fix x n' assume "(x, n') \<in> rows h db'"
    with r db_ok_one [OF coh_db [OF assms(1)] f(1)] have "x \<noteq> groupId g" by auto
    with assms(3) show "members h db' x = members h db x" by (auto simp: group_db_simps)
  qed
  with assms o show ?thesis by (simp add: coh_def m_erase_wf)
qed

lemma coh_rename:
  assumes "coh h w db" "m_find (gvalue w) old = Some g" "m_find (gvalue w) new = None" "legal new"
  shows "coh h (w\<lparr>gvalue := m_erase old (m_put new g (gvalue w))\<rparr>) (db_rename_group h old new db)"
proof -
  let ?db = "db_rename_group h old new db"
  note f = coh_found [OF assms(1,2)]
  have u: "(x, old) \<in> rows h db \<longleftrightarrow> x = groupId g" for x using f(1) db_ok_one [OF coh_db [OF assms(1)] f(1)] by auto
  have n: "(x, new) \<notin> rows h db" for x by (rule coh_not_found [OF assms(1,3)])
  have r: "rows h ?db = insert (groupId g, new) {r \<in> rows h db. snd r \<noteq> old}"
  proof (intro set_eqI, clarify)
    fix x m
    have "(x, m) \<in> rows h ?db \<longleftrightarrow> (\<exists>n'. (x, n') \<in> rows h db \<and> m = (if n' = old then new else n'))"
      by (auto simp add: group_db_simps image_iff Bex_def)
    also have "\<dots> \<longleftrightarrow> (m = new \<and> (x, old) \<in> rows h db) \<or> (m \<noteq> old \<and> (x, m) \<in> rows h db)"
    proof
      assume "(m = new \<and> (x, old) \<in> rows h db) \<or> (m \<noteq> old \<and> (x, m) \<in> rows h db)"
      then show "\<exists>n'. (x, n') \<in> rows h db \<and> m = (if n' = old then new else n')"
        by (intro exI [of _ "if (x, old) \<in> rows h db \<and> m = new then old else m"]) auto
    qed (auto split: if_splits)
    finally show "(x, m) \<in> rows h ?db \<longleftrightarrow> (x, m) \<in> insert (groupId g, new) {r \<in> rows h db. snd r \<noteq> old}"
      unfolding u by auto
  qed
  have one: "(x, m) \<in> rows h db \<Longrightarrow> (x', m') \<in> rows h db \<Longrightarrow> x = x' \<longleftrightarrow> m = m'" for x m x' m'
    by (rule db_ok_one [OF coh_db [OF assms(1)]])
  have o: "db_ok h ?db"
  proof (rule db_okI)
    fix x m assume "(x, m) \<in> rows h ?db"
    then show "1 \<le> x \<and> x < next_gid h ?db \<and> legal m"
      using db_ok_row [OF coh_db [OF assms(1)], of x m] assms(4) f(4,5) unfolding r next_db by auto
  next
    fix x m x' m' assume "(x, m) \<in> rows h ?db" "(x', m') \<in> rows h ?db"
    then show "x = x' \<longleftrightarrow> m = m'" using one [of x m x' m'] one [OF f(1), of x m] one [OF f(1), of x' m'] n unfolding r by auto
  next
    fix b x assume "(b, x) \<in> items h ?db"
    then show "legal_buddy b \<and> x < next_gid h ?db" using db_ok_item [OF coh_db [OF assms(1)]] by (simp add: group_db_simps)
  qed
  have e: "m_find (m_erase old (m_put new g (gvalue w))) = (m_find (gvalue w))(old := None, new \<mapsto> g)"
    using lm.move [OF coh_value [OF assms(1)] assms(2), of new] assms(2,3) by fastforce
  have "agree h (m_erase old (m_put new g (gvalue w))) ?db"
    using coh_agree [OF assms(1)] f(1-3) unfolding agree_def e r by (simp add: group_db_simps) blast
  with assms o show ?thesis by (simp add: coh_def m_erase_wf m_put_wf)
qed

lemma first_id: "ids_fit db \<Longrightarrow> next_gid h db < 2 ^ 31 \<Longrightarrow> fst (db_insert_groups h ns db) = next_gid h db"
proof -
  assume "ids_fit db" "next_gid h db < 2 ^ 31"
  moreover from this have "1 \<le> next_gid h db" by (simp add: ids_fit_gid)
  ultimately show ?thesis by (simp add: db_insert_groups_def Let_def to_int32_id)
qed

text \<open>One new group: its row, and some items for it.\<close>

definition with_group :: "int \<Rightarrow> string \<Rightarrow> int list \<Rightarrow> GroupDB \<Rightarrow> GroupDB" where
  "with_group h n bs db = db_insert_items (map (\<lambda>b. (h, b, next_gid h db)) bs) (snd (db_insert_groups h [n] db))"

lemma with_group_db:
  "rows h (with_group h n bs db) = insert (next_gid h db, n) (rows h db)"
  "items h (with_group h n bs db) = items h db \<union> {(b, g). b \<in> set bs \<and> g = next_gid h db}"
  "next_groupid (with_group h n bs db) = (next_groupid db)(getTableNo h := next_gid h db + 1)"
  "other_users h db (with_group h n bs db)"
proof -
  have "other_users h (snd (db_insert_groups h [n] db)) (with_group h n bs db)"
    unfolding with_group_def by (rule other_users_db) simp
  then show "other_users h db (with_group h n bs db)" by (rule other_users_trans [rotated]) simp
qed (auto simp: with_group_def group_db_simps)

lemma with_group_ok:
  assumes "db_ok h db" "ids_fit db" "\<And>x. (x, n) \<notin> rows h db" "legal n" "\<forall>b \<in> set bs. legal_buddy b"
  shows "db_ok h (with_group h n bs db)"
proof (rule db_okI)
  fix x m assume "(x, m) \<in> rows h (with_group h n bs db)"
  then show "1 \<le> x \<and> x < next_gid h (with_group h n bs db) \<and> legal m"
    using db_ok_row [OF assms(1), of x m] ids_fit_gid(1) [OF assms(2), of h] assms(4) unfolding with_group_db by auto
next
  fix x m x' m' assume "(x, m) \<in> rows h (with_group h n bs db)" "(x', m') \<in> rows h (with_group h n bs db)"
  then show "x = x' \<longleftrightarrow> m = m'"
    using db_ok_one [OF assms(1), of x m x' m'] db_ok_row [OF assms(1)] assms(3) unfolding with_group_db(1) by blast
next
  fix b x assume "(b, x) \<in> items h (with_group h n bs db)"
  then show "legal_buddy b \<and> x < next_gid h (with_group h n bs db)"
    using db_ok_item [OF assms(1), of b x] assms(5) unfolding with_group_db by auto
qed

lemma with_group_members: "db_ok h db \<Longrightarrow> members h (with_group h n bs db) (next_gid h db) = set bs"
  using db_ok_item [of h db _ "next_gid h db"] by (auto simp: with_group_db)

lemma coh_new:
  assumes "coh h w db" "m_find (gvalue w) n = None" "legal n" "\<forall>b \<in> set bs. legal_buddy b" "ids_fit db"
  shows "coh h (w\<lparr>gvalue := m_put n \<lparr>groupId = next_gid h db, buddyIds = s_inserts bs []\<rparr> (gvalue w)\<rparr>) (with_group h n bs db)"
proof -
  let ?g = "\<lparr>groupId = next_gid h db, buddyIds = s_inserts bs []\<rparr>" and ?db = "with_group h n bs db"
  have o: "db_ok h ?db"
    by (rule with_group_ok [OF coh_db [OF assms(1)] assms(5) coh_not_found [OF assms(1,2)] assms(3,4)])
  have "agree h (m_put n ?g (gvalue w)) ?db"
    by (rule agree_put [OF coh_agree [OF assms(1)] coh_value [OF assms(1)] o])
       (use with_group_members [OF coh_db [OF assms(1)]] in \<open>simp_all add: with_group_db\<close>)
  with assms o show ?thesis by (simp add: coh_def m_put_wf)
qed

lemma dbabs_new:
  assumes "db_ok h db" "ids_fit db" "\<And>x. (x, n) \<notin> rows h db" "legal n" "\<forall>b \<in> set bs. legal_buddy b"
  shows "dbabs h (with_group h n bs db) = (dbabs h db)(n \<mapsto> set bs)"
proof
  fix m
  let ?db = "with_group h n bs db"
  have o: "db_ok h ?db" by (rule with_group_ok [OF assms])
  show "dbabs h ?db m = ((dbabs h db)(n \<mapsto> set bs)) m"
  proof (cases "m = n")
    case True
    have "gid_of h ?db n = Some (next_gid h db)" by (simp add: gid_of_rows [OF o] with_group_db)
    with True with_group_members [OF assms(1)] show ?thesis by (simp add: dbabs_def)
  next
    case False
    have "gid_of h ?db m = Some x \<longleftrightarrow> gid_of h db m = Some x" for x
      using False by (simp add: gid_of_rows [OF o] gid_of_rows [OF assms(1)] with_group_db)
    then have "gid_of h ?db m = gid_of h db m" by (metis not_None_eq)
    moreover have "members h ?db x = members h db x" if "gid_of h db m = Some x" for x
      using db_ok_row [OF assms(1)] that by (force simp: gid_of_rows [OF assms(1)] with_group_db)
    ultimately show ?thesis using False by (cases "gid_of h db m") (simp_all add: dbabs_def)
  qed
qed

end
