(* ===== verification/GroupLoad.thy ===== *)
theory GroupLoad
  imports GroupInv
begin

text \<open>
  Loading the groups of a user from the tables gives data that agree with them, and the merge of
  \<open>changeBuddyGroups\<close>: what its loops collect, and that the statements built from it keep the agreement.
\<close>

section \<open>Loading\<close>

text \<open>What the loop over the rows has built from the rows \<open>P\<close> seen so far.\<close>

definition built :: "(int \<times> string \<times> int) set \<Rightarrow> GroupMapWrapper \<Rightarrow> bool" where
  "built P w \<longleftrightarrow> m_wf (gvalue w) \<and> m_wf (idmap w) \<and>
     (\<forall>n G. m_find (gvalue w) n = Some G \<longrightarrow> (\<exists>u. (groupId G, n, u) \<in> P) \<and> s_wf (buddyIds G) \<and>
        set (buddyIds G) = {u. u \<noteq> 0 \<and> (groupId G, n, u) \<in> P}) \<and>
     (\<forall>g n u. (g, n, u) \<in> P \<longrightarrow> m_find (gvalue w) n \<noteq> None) \<and>
     (\<forall>i n. m_find (idmap w) i = Some n \<longleftrightarrow> (\<exists>u. (i, n, u) \<in> P))"

definition one_to_one :: "(int \<times> string \<times> int) set \<Rightarrow> bool" where
  "one_to_one P \<longleftrightarrow> (\<forall>g n u g' n' u'. (g, n, u) \<in> P \<longrightarrow> (g', n', u') \<in> P \<longrightarrow> (g = g' \<longleftrightarrow> n = n'))"

lemma built_group:
  assumes "built P w" "m_find (gvalue w) n = Some G"
  shows "\<exists>u. (groupId G, n, u) \<in> P" "s_wf (buddyIds G)" "set (buddyIds G) = {u. u \<noteq> 0 \<and> (groupId G, n, u) \<in> P}"
  using assms unfolding built_def by simp_all

lemma built_new:
  assumes b: "built P w" and f: "one_to_one (insert (g, n, u) P)" and no: "m_find (gvalue w) n = None"
  shows "built (insert (g, n, u) P) (w\<lparr>gvalue := m_put n \<lparr>groupId = g, buddyIds = (if u \<noteq> 0 then [u] else [])\<rparr> (gvalue w),
     idmap := m_put g n (idmap w)\<rparr>)"
proof -
  have wf: "m_wf (gvalue w)" "m_wf (idmap w)" using b by (simp_all add: built_def)
  have np: "(x, n, v) \<notin> P" for x v using b no unfolding built_def by blast
  have ng: "(g, m, v) \<notin> P" for m v
  proof
    assume p: "(g, m, v) \<in> P"
    with f have "n = m" unfolding one_to_one_def by blast
    with p np show False by blast
  qed
  from b np ng show ?thesis
    unfolding built_def by (simp add: m_put_wf m_put_find wf) blast
qed

lemma built_more:
  assumes b: "built P w" and f: "one_to_one (insert (g, n, u) P)" and s: "m_find (gvalue w) n = Some G"
  shows "built (insert (g, n, u) P) (if u \<noteq> 0 then w\<lparr>gvalue := m_put n (G\<lparr>buddyIds := s_insert u (buddyIds G)\<rparr>) (gvalue w)\<rparr> else w)"
proof -
  have wf: "m_wf (gvalue w)" "m_wf (idmap w)" using b by (simp_all add: built_def)
  obtain v where v: "(groupId G, n, v) \<in> P" using built_group(1) [OF b s] by blast
  then have g: "g = groupId G" using f unfolding one_to_one_def by blast
  have other: "groupId G' \<noteq> g" if "m_find (gvalue w) m = Some G'" "m \<noteq> n" for m G'
  proof -
    from built_group(1) [OF b that(1)] obtain v' where "(groupId G', m, v') \<in> P" by blast
    then show ?thesis using f that(2) unfolding one_to_one_def by blast
  qed
  have i: "(\<exists>z. (x, m, z) \<in> insert (g, n, u) P) \<longleftrightarrow> (\<exists>z. (x, m, z) \<in> P)" for x m using v g by blast
  have e: "{z. z \<noteq> 0 \<and> (groupId G', m, z) \<in> insert (g, n, u) P} = {z. z \<noteq> 0 \<and> (groupId G', m, z) \<in> P}"
    if "m_find (gvalue w) m = Some G'" "m \<noteq> n" for m G' using that by blast
  have e0: "{z. z \<noteq> 0 \<and> (groupId G, n, z) \<in> insert (g, n, u) P} = (if u \<noteq> 0 then insert u else id) {z. z \<noteq> 0 \<and> (groupId G, n, z) \<in> P}"
    using g by auto
  let ?G = "if u \<noteq> 0 then G\<lparr>buddyIds := s_insert u (buddyIds G)\<rparr> else G"
  let ?w = "if u \<noteq> 0 then w\<lparr>gvalue := m_put n (G\<lparr>buddyIds := s_insert u (buddyIds G)\<rparr>) (gvalue w)\<rparr> else w"
  have find: "m_find (gvalue ?w) = (m_find (gvalue w))(n \<mapsto> ?G)" using wf s by (simp add: m_put_find fun_upd_idem)
  have G': "groupId ?G = groupId G" by simp
  have "(\<exists>z. (groupId H, m, z) \<in> insert (g, n, u) P) \<and> s_wf (buddyIds H) \<and>
      set (buddyIds H) = {z. z \<noteq> 0 \<and> (groupId H, m, z) \<in> insert (g, n, u) P}"
    if "m_find (gvalue ?w) m = Some H" for m H
  proof (cases "m = n")
    case True
    with that have H: "H = ?G" by (simp add: find)
    have "s_wf (buddyIds ?G)" "set (buddyIds ?G) = (if u \<noteq> 0 then insert u else id) {z. z \<noteq> 0 \<and> (groupId G, n, z) \<in> P}"
      using built_group(2,3) [OF b s] by simp_all
    then show ?thesis unfolding H G' True e0 using v by blast
  next
    case ne: False
    with that have H: "m_find (gvalue w) m = Some H" by (simp add: find)
    from built_group [OF b this] e [OF this ne] i show ?thesis by simp
  qed
  moreover have "m_find (gvalue ?w) m \<noteq> None" if "(x, m, z) \<in> insert (g, n, u) P" for x m z
  proof (cases "m = n")
    case False
    with that have "(x, m, z) \<in> P" by simp
    then have "m_find (gvalue w) m \<noteq> None" using b unfolding built_def by metis
    with False show ?thesis unfolding find by simp
  qed (simp add: find)
  moreover have "m_find (idmap ?w) x = Some m \<longleftrightarrow> (\<exists>z. (x, m, z) \<in> insert (g, n, u) P)" for x m
    using b i unfolding built_def by simp
  moreover have "m_wf (gvalue ?w)" "m_wf (idmap ?w)" using wf by (simp_all add: m_put_wf)
  ultimately show ?thesis unfolding built_def by blast
qed

lemma create_rows_built:
  "built P w \<Longrightarrow> one_to_one (P \<union> set rs) \<Longrightarrow> \<forall>(g, n, u) \<in> set rs. legal n \<Longrightarrow>
   \<exists>w'. create_rows rs (w, []) = Some (w', []) \<and> built (P \<union> set rs) w'"
proof (induction rs arbitrary: P w)
  case (Cons r rs)
  obtain g n u where r: "r = (g, n, u)" by (cases r) auto
  have l: "isUtf8 n = Some True" "n \<noteq> []" using Cons.prems(3) by (auto simp: r legal_def)
  have f: "one_to_one (insert (g, n, u) P)" using Cons.prems(2) unfolding r one_to_one_def by (simp add: subset_iff)
  obtain w1 where w1: "create_row r (w, []) = Some (w1, [])" "built (insert r P) w1"
  proof (cases "m_find (gvalue w) n")
    case None
    then show thesis using built_new [OF Cons.prems(1) f] l that by (simp add: r create_row_def)
  next
    case (Some G)
    then show thesis using built_more [OF Cons.prems(1) f Some] l that by (simp add: r create_row_def)
  qed
  have "one_to_one (insert r P \<union> set rs)" using Cons.prems(2) by simp
  then obtain w' where "create_rows rs (w1, []) = Some (w', [])" "built (insert r P \<union> set rs) w'"
    using Cons.IH [OF w1(2)] Cons.prems(3) by auto
  with w1(1) show ?case by simp
qed simp

lemma db_select_set:
  "(g, n, u) \<in> set (db_select h db) \<longleftrightarrow> (g, n) \<in> rows h db \<and> (if members h db g = {} then u = 0 else u \<in> members h db g)"
proof -
  let ?gs = "\<lambda>g. map (\<lambda>(_, b, _). b) (filter (\<lambda>(h'', b, g'). h'' = h \<and> g' = g) (relation_group_item db))"
  have s: "set (?gs g) = members h db g" for g by (force simp: items_def)
  have "(g, n, u) \<in> set (db_select h db) \<longleftrightarrow> (g, n) \<in> rows h db \<and> u \<in> set (if ?gs g = [] then [0] else ?gs g)"
    by (fastforce simp: db_select_def rows_def Let_def)
  moreover have "?gs g = [] \<longleftrightarrow> members h db g = {}" using s [of g] by (metis set_empty)
  ultimately show ?thesis using s [of g] by (simp split: if_split)
qed

text \<open>A load finds every group, and every id.\<close>

lemma create_coh:
  assumes "db_ok h (gdb s)" "ids_fit (gdb s)" "create Z h s = Some (b, s')" "gz_ok Z"
  shows "s' = s" "coh h (unSerialize Z b) (gdb s)"
    "\<And>n g. m_find (gvalue (unSerialize Z b)) n = Some g \<Longrightarrow> m_find (idmap (unSerialize Z b)) (groupId g) = Some n"
proof -
  let ?P = "set (db_select h (gdb s))"
  have "one_to_one ({} \<union> ?P)" using db_ok_one [OF assms(1)] by (auto simp: one_to_one_def db_select_set)
  moreover have "built {} w_empty" by (simp add: built_def w_empty_def m_wf_def m_find_def)
  moreover have "\<forall>(g, n, u) \<in> ?P. legal n" using db_ok_row [OF assms(1)] by (auto simp: db_select_set)
  ultimately obtain w where w: "create_rows (db_select h (gdb s)) (w_empty, []) = Some (w, [])" "built ?P w"
    using create_rows_built [of "{}" w_empty "db_select h (gdb s)"] by auto
  have c: "coh h w (gdb s)" unfolding coh_def
  proof (intro conjI)
    show "agree h (gvalue w) (gdb s)" unfolding agree_def
    proof (intro conjI allI impI)
      fix n G assume G: "m_find (gvalue w) n = Some G"
      then obtain u where "(groupId G, n, u) \<in> ?P" using built_group(1) [OF w(2)] by blast
      then show r: "(groupId G, n) \<in> rows h (gdb s)" by (simp add: db_select_set)
      show "s_wf (buddyIds G)" by (rule built_group(2) [OF w(2) G])
      have "set (buddyIds G) = {u. u \<noteq> 0 \<and> (groupId G, n, u) \<in> ?P}" by (rule built_group(3) [OF w(2) G])
      also have "\<dots> = members h (gdb s) (groupId G)"
        using r db_ok_item [OF assms(1)] by (auto simp: db_select_set legal_buddy_def split: if_splits)
      finally show "set (buddyIds G) = members h (gdb s) (groupId G)" .
    next
      fix g n assume "(g, n) \<in> rows h (gdb s)"
      then have "\<exists>u. (g, n, u) \<in> ?P" by (auto simp: db_select_set)
      then show "m_find (gvalue w) n \<noteq> None" using w(2) unfolding built_def by blast
    qed
    have "1 \<le> i \<and> i < 2 ^ 31" if i: "i \<in> fst ` set (idmap w)" for i
    proof -
      obtain n where "m_find (idmap w) i = Some n" using i m_find_dom [of "idmap w" i] by auto
      then obtain u where "(i, n, u) \<in> ?P" using w(2) unfolding built_def by blast
      then have "1 \<le> i \<and> i < next_gid h (gdb s)" using db_ok_row [OF assms(1)] by (auto simp: db_select_set)
      then show ?thesis using ids_fit_gid(2) [OF assms(2), of h] by simp
    qed
    then show "ids_wf (idmap w)" using w(2) by (simp add: ids_wf_def built_def)
  qed (use w(2) assms(1) in \<open>simp_all add: built_def\<close>)
  have r: "serialize Z w = Some b" "s' = s" using assms(3) w(1) by (auto simp: create_def bind_eq_Some_conv)
  then show "s' = s" by simp
  have u: "unSerialize Z b = w" by (rule unSerialize_enc [OF assms(4) coh_wf [OF c assms(2)] r(1)])
  with c show "coh h (unSerialize Z b) (gdb s)" by simp
  fix n g assume "m_find (gvalue (unSerialize Z b)) n = Some g"
  then obtain v where "(groupId g, n, v) \<in> ?P" using built_group(1) [OF w(2)] unfolding u by blast
  then show "m_find (idmap (unSerialize Z b)) (groupId g) = Some n" using w(2) unfolding u built_def by blast
qed

end
