(* ===== verification/GroupChange.thy ===== *)
theory GroupChange
  imports GroupLoad
begin

text \<open>
  The change of all groups of one buddy: what the merge of the requested names with the groups collects, and that
  the statements built from it keep tables and data in agreement.
\<close>

section \<open>The merge\<close>

definition changed_entry :: "int \<Rightarrow> string set \<Rightarrow> string \<times> BuddyGroup \<Rightarrow> string \<times> BuddyGroup" where
  "changed_entry b N e =
     (fst e, if fst e \<in> N then (snd e)\<lparr>buddyIds := s_insert b (buddyIds (snd e))\<rparr> else erase_buddy b (snd e))"

definition scan_result :: "int \<Rightarrow> string set \<Rightarrow> string list \<Rightarrow> (string, BuddyGroup) stdmap \<Rightarrow> ChangePlan" where
  "scan_result b N names v =
     \<lparr>p_value = map (changed_entry b N) v,
      addToGroupItem = map (groupId \<circ> snd) (filter (\<lambda>e. fst e \<in> N \<and> b \<notin> set (buddyIds (snd e))) v),
      deleteGroupId = map (groupId \<circ> snd) (filter (\<lambda>e. fst e \<notin> N \<and> b \<in> set (buddyIds (snd e))) v),
      p_addGroup = filter (\<lambda>n. n \<notin> fst ` set v) names,
      p_removeGroup = map fst (filter (\<lambda>e. fst e \<notin> N \<and> b \<in> set (buddyIds (snd e)) \<and> s_erase b (buddyIds (snd e)) = []) v)\<rparr>"

lemma erase_absent: "b \<notin> set (buddyIds g) \<Longrightarrow> erase_buddy b g = g"
  by (cases g) (auto simp: erase_buddy_def s_erase_def filter_id_conv)

lemma scan_result_leave:
  assumes "fst e \<notin> N" "fst e \<notin> set names"
  shows "plan_leave b e (scan_result b N names v) = scan_result b N names (e # v)"
proof -
  have "filter (\<lambda>n. n \<notin> fst ` set (e # v)) names = filter (\<lambda>n. n \<notin> fst ` set v) names"
    by (rule filter_cong) (use assms(2) in auto)
  with assms(1) show ?thesis
    by (simp add: plan_leave_def scan_result_def changed_entry_def erase_absent Let_def) (simp add: erase_buddy_def)
qed

lemma scan_result_join:
  assumes "fst e \<in> N" "fst e \<notin> set names"
  shows "plan_join b e (scan_result b N names v) = scan_result b N (fst e # names) (e # v)"
proof -
  have "filter (\<lambda>n. n \<notin> fst ` set (e # v)) names = filter (\<lambda>n. n \<notin> fst ` set v) names"
    by (rule filter_cong) (use assms(2) in auto)
  with assms(1) show ?thesis by (simp add: plan_join_def scan_result_def changed_entry_def Let_def)
qed

lemma change_scan_result:
  "s_wf names \<Longrightarrow> m_wf v \<Longrightarrow> \<forall>n \<in> set names. m_find V n = None \<longleftrightarrow> n \<notin> fst ` set v \<Longrightarrow>
   \<forall>n \<in> fst ` set v. n \<in> N \<longleftrightarrow> n \<in> set names \<Longrightarrow> change_scan V b names v = scan_result b N names v"
proof (induction V b names v rule: change_scan.induct)
  case (1 V b)
  show ?case by (simp add: scan_result_def)
next
  case (2 V b n names)
  then show ?case by (simp add: scan_result_def)
next
  case (3 V b e groups)
  then show ?case by (simp add: scan_result_leave m_wf_def)
next
  case (4 V b n names e groups)
  have gt: "\<forall>x \<in> fst ` set groups. fst e < x" and wf: "m_wf groups" using 4(5) by (auto simp: m_wf_def)
  have nt: "\<forall>x \<in> set names. n < x" and nwf: "s_wf names" using 4(4) by auto
  consider "n < fst e" | "n > fst e" | "n = fst e" by fastforce
  then show ?case
  proof cases
    case 1
    then have no: "n \<notin> fst ` set (e # groups)" using gt by fastforce
    have "change_scan V b names (e # groups) = scan_result b N names (e # groups)"
      by (rule 4(1) [OF 1 nwf 4(5)]) (use 4(6,7) no in auto)
    with 1 no show ?thesis by (simp add: Let_def scan_result_def)
  next
    case 2
    then have ne: "fst e \<notin> set (n # names)" using nt by auto
    have "change_scan V b (n # names) groups = scan_result b N (n # names) groups"
      by (rule 4(2)) (use 2 4(4,6,7) wf ne in auto)
    with 2 ne 4(7) show ?thesis by (simp add: scan_result_leave)
  next
    case 3
    then have ne: "fst e \<notin> set names" "n \<notin> fst ` set groups" using nt gt by auto
    have N: "\<forall>m \<in> fst ` set groups. m \<in> N \<longleftrightarrow> m \<in> set names"
    proof
      fix m assume m: "m \<in> fst ` set groups"
      then have "m \<noteq> n" "m \<in> fst ` set (e # groups)" using ne by auto
      with 4(7) show "m \<in> N \<longleftrightarrow> m \<in> set names" by (metis set_ConsD list.set_intros(2))
    qed
    have "change_scan V b names groups = scan_result b N names groups"
      by (rule 4(3) [OF _ _ nwf wf _ N]) (use 3 4(6) ne in auto)
    with 3 ne 4(7) show ?thesis by (simp add: scan_result_join)
  qed
qed

section \<open>The statements\<close>

definition change_spec :: "int \<Rightarrow> string set \<Rightarrow> groups \<Rightarrow> groups" where
  "change_spec b N m n =
     (if n \<in> N then Some (insert b (case m n of Some B \<Rightarrow> B | None \<Rightarrow> {}))
      else case m n of Some B \<Rightarrow> if B = {b} then None else Some (B - {b}) | None \<Rightarrow> None)"

lemma number_rows_nth: "(g', h', n) \<in> set (number_rows g h ns) \<longleftrightarrow> h' = h \<and> (\<exists>i < length ns. g' = g + int i \<and> n = ns ! i)"
proof (induction ns arbitrary: g)
  case (Cons a ns)
  show ?case by (auto simp: Cons less_Suc_eq_0_disj)
qed simp

lemma put_new_groups_wf: "m_wf v \<Longrightarrow> m_wf (put_new_groups g b ns v)"
  by (induction ns arbitrary: g v) (simp_all add: m_put_wf)

lemma put_new_groups_find:
  "m_wf v \<Longrightarrow> distinct ns \<Longrightarrow> m_find (put_new_groups g b ns v) n = Some G \<longleftrightarrow>
     (if n \<in> set ns then \<exists>x. (x, h, n) \<in> set (number_rows g h ns) \<and> G = \<lparr>groupId = x, buddyIds = [b]\<rparr> else m_find v n = Some G)"
proof (induction ns arbitrary: g v)
  case (Cons a ns)
  have "(x, h, n) \<notin> set (number_rows g' h ns)" if "n \<notin> set ns" for x g' using that by (auto simp: number_rows_nth)
  with Cons show ?case by (auto simp: m_put_wf m_put_find)
qed simp

lemma erase_all_find: "m_wf v \<Longrightarrow> m_wf (foldl (\<lambda>m n. m_erase n m) v ns) \<and>
   m_find (foldl (\<lambda>m n. m_erase n m) v ns) = (\<lambda>n. if n \<in> set ns then None else m_find v n)"
  using lm.erase_all [of v "rev ns"] by (simp add: foldr_conv_fold fold_rev [symmetric] foldl_conv_fold)

lemma changed_find: "m_find (map (changed_entry b N) v) n = map_option (\<lambda>g. snd (changed_entry b N (n, g))) (m_find v n)"
  by (induction v) (auto simp: m_find_def changed_entry_def)

lemma changed_wf: "m_wf v \<Longrightarrow> m_wf (map (changed_entry b N) v)"
  by (simp add: m_wf_def changed_entry_def comp_def)

text \<open>The data and the tables after all statements of a change.\<close>

definition after_change :: "int \<Rightarrow> int \<Rightarrow> ChangePlan \<Rightarrow> GroupDB \<Rightarrow> (string, BuddyGroup) stdmap \<times> GroupDB" where
  "after_change h b p db =
     (let (gid, db3) = db_insert_groups h (p_addGroup p)
            (db_delete_guest h b (deleteGroupId p) (db_insert_items (map (\<lambda>g. (h, b, g)) (addToGroupItem p)) db))
      in (foldl (\<lambda>m n. m_erase n m) (put_new_groups gid b (p_addGroup p) (p_value p)) (p_removeGroup p),
          db_delete_groups h (p_removeGroup p)
            (db_insert_items (map ((\<lambda>g. (h, b, g)) \<circ> fst) (number_rows gid h (p_addGroup p))) db3)))"

text \<open>A change whose plan comes from the merge, on data in agreement with the tables.\<close>

definition change_run :: "int \<Rightarrow> int \<Rightarrow> string list \<Rightarrow> GroupMapWrapper \<Rightarrow> GroupDB \<Rightarrow> ChangePlan \<Rightarrow>
    (string, BuddyGroup) stdmap \<Rightarrow> GroupDB \<Rightarrow> bool" where
  "change_run h b names w db p v' db' \<longleftrightarrow>
     coh h w db \<and> ids_fit db \<and> (p_addGroup p \<noteq> [] \<longrightarrow> next_gid h db < 2 ^ 31) \<and> legal_buddy b \<and> s_wf names \<and> (\<forall>n \<in> set names. legal n) \<and>
     p = scan_result b (set names) names (gvalue w) \<and> after_change h b p db = (v', db')"

definition new_rows :: "int \<Rightarrow> GroupDB \<Rightarrow> ChangePlan \<Rightarrow> (int \<times> string) set" where
  "new_rows h db p = {(x, n). (x, h, n) \<in> set (number_rows (next_gid h db) h (p_addGroup p))}"

lemma change_runD:
  assumes "change_run h b names w db p v' db'"
  shows "coh h w db" "ids_fit db" "p_addGroup p \<noteq> [] \<longrightarrow> next_gid h db < 2 ^ 31" "legal_buddy b" "s_wf names" "\<forall>n \<in> set names. legal n"
    "p = scan_result b (set names) names (gvalue w)" "after_change h b p db = (v', db')"
  by (use assms [unfolded change_run_def] in blast)+

lemma change_gid: "ids_fit db \<Longrightarrow> next_gid h db < 2 ^ 31 \<Longrightarrow>
   fst (db_insert_groups h ns (db_delete_guest h b gs (db_insert_items rs db))) = next_gid h db"
  using first_id [of "db_delete_guest h b gs (db_insert_items rs db)" h ns] by (simp add: group_db_simps ids_fit_def)

lemma change_result:
  assumes "change_run h b names w db p v' db'"
  shows "v' = foldl (\<lambda>m n. m_erase n m) (put_new_groups (next_gid h db) b (p_addGroup p) (p_value p)) (p_removeGroup p)"
    "db' = db_delete_groups h (p_removeGroup p)
     (db_insert_items (map ((\<lambda>g. (h, b, g)) \<circ> fst) (number_rows (next_gid h db) h (p_addGroup p)))
       (snd (db_insert_groups h (p_addGroup p)
         (db_delete_guest h b (deleteGroupId p) (db_insert_items (map (\<lambda>g. (h, b, g)) (addToGroupItem p)) db)))))"
  using change_runD(8) [OF assms] change_gid [OF change_runD(2) [OF assms]] change_runD(3) [OF assms]
  by (cases "p_addGroup p = []", auto simp: after_change_def split_def Let_def)+

lemma change_add:
  assumes "change_run h b names w db p v' db'"
  shows "n \<in> set (p_addGroup p) \<longleftrightarrow> n \<in> set names \<and> m_find (gvalue w) n = None" "distinct (p_addGroup p)"
  using change_runD(5,7) [OF assms] by (auto simp: scan_result_def m_find_dom strict_sorted_iff)

lemma change_remove:
  assumes "change_run h b names w db p v' db'"
  shows "n \<in> set (p_removeGroup p) \<longleftrightarrow> n \<notin> set names \<and> (\<exists>g. m_find (gvalue w) n = Some g \<and> set (buddyIds g) = {b})"
proof -
  have "b \<in> set xs \<and> s_erase b xs = [] \<longleftrightarrow> set xs = {b}" for xs :: "int list"
    by (auto simp: s_erase_def filter_empty_conv)
  moreover have "n \<in> set (map fst (filter Q (gvalue w))) \<longleftrightarrow> (\<exists>g. m_find (gvalue w) n = Some g \<and> Q (n, g))" for Q
    unfolding m_find_in [OF coh_value [OF change_runD(1) [OF assms]]] by force
  ultimately show ?thesis unfolding change_runD(7) [OF assms] by (simp add: scan_result_def) blast
qed

lemma new_rows_nth: "(x, n) \<in> new_rows h db p \<longleftrightarrow> (\<exists>i < length (p_addGroup p). x = next_gid h db + int i \<and> n = p_addGroup p ! i)"
  by (simp add: new_rows_def number_rows_nth)

lemma new_rows_range:
  "(x, n) \<in> new_rows h db p \<Longrightarrow> next_gid h db \<le> x \<and> x < next_gid h db + int (length (p_addGroup p)) \<and> n \<in> set (p_addGroup p)"
  by (auto simp: new_rows_nth)

lemma new_rows_all: "n \<in> set (p_addGroup p) \<Longrightarrow> \<exists>x. (x, n) \<in> new_rows h db p"
  unfolding new_rows_nth in_set_conv_nth by blast

lemma new_rows_one:
  "distinct (p_addGroup p) \<Longrightarrow> (x, n) \<in> new_rows h db p \<Longrightarrow> (x', n') \<in> new_rows h db p \<Longrightarrow> x = x' \<longleftrightarrow> n = n'"
  by (auto simp: new_rows_nth nth_eq_iff_index_eq)

lemma change_rows:
  assumes "change_run h b names w db p v' db'"
  shows "rows h db' = {r \<in> rows h db. snd r \<notin> set (p_removeGroup p)} \<union> new_rows h db p"
    "next_gid h db' = next_gid h db + int (length (p_addGroup p))"
proof -
  have "n \<notin> set (p_removeGroup p)" if "(x, n) \<in> new_rows h db p" for x n
    using new_rows_range [OF that] by (auto simp: change_add [OF assms] change_remove [OF assms])
  then show "rows h db' = {r \<in> rows h db. snd r \<notin> set (p_removeGroup p)} \<union> new_rows h db p"
    unfolding change_result(2) [OF assms] by (auto simp: group_db_simps new_rows_def)
  show "next_gid h db' = next_gid h db + int (length (p_addGroup p))"
    unfolding change_result(2) [OF assms] by (simp add: group_db_simps)
qed

lemma change_items:
  assumes "change_run h b names w db p v' db'"
  shows "(c, x) \<in> items h db' \<longleftrightarrow>
     ((c, x) \<in> items h db \<or> c = b \<and> x \<in> set (addToGroupItem p)) \<and> \<not> (c = b \<and> x \<in> set (deleteGroupId p)) \<or>
     c = b \<and> (\<exists>n. (x, n) \<in> new_rows h db p)"
proof -
  have "(\<exists>r \<in> set (number_rows g h ns). x = fst r) \<longleftrightarrow> (\<exists>n. (x, h, n) \<in> set (number_rows g h ns))" for g and ns :: "string list"
    by (metis fst_conv number_rows_nth prod_cases3)
  then show ?thesis
    unfolding change_result(2) [OF assms] new_rows_def by (auto simp: group_db_simps image_iff)
qed

text \<open>The ids in the plan are those of groups that are there.\<close>

lemma change_ids:
  assumes "change_run h b names w db p v' db'" "m_find (gvalue w) n = Some g"
  shows "groupId g \<in> set (addToGroupItem p) \<longleftrightarrow> n \<in> set names \<and> b \<notin> set (buddyIds g)"
    "groupId g \<in> set (deleteGroupId p) \<longleftrightarrow> n \<notin> set names \<and> b \<in> set (buddyIds g)"
proof -
  note c = change_runD(1) [OF assms(1)]
  have e: "m = n \<and> g' = g" if "(m, g') \<in> set (gvalue w)" "groupId g' = groupId g" for m g'
  proof -
    have "m_find (gvalue w) m = Some g'" using that(1) m_find_in [OF coh_value [OF c]] by simp
    moreover from this have "m = n" using coh_same_id [OF c _ assms(2)] that(2) by simp
    ultimately show ?thesis using assms(2) by simp
  qed
  have i: "(n, g) \<in> set (gvalue w)" using assms(2) m_find_in [OF coh_value [OF c]] by simp
  have "groupId g \<in> set (map (groupId \<circ> snd) (filter Q (gvalue w))) \<longleftrightarrow> Q (n, g)" for Q
  proof
    assume "groupId g \<in> set (map (groupId \<circ> snd) (filter Q (gvalue w)))"
    then obtain m g' where "(m, g') \<in> set (gvalue w)" "Q (m, g')" "groupId g' = groupId g" by auto
    with e show "Q (n, g)" by blast
  qed (use i in force)
  then show "groupId g \<in> set (addToGroupItem p) \<longleftrightarrow> n \<in> set names \<and> b \<notin> set (buddyIds g)"
    "groupId g \<in> set (deleteGroupId p) \<longleftrightarrow> n \<notin> set names \<and> b \<in> set (buddyIds g)"
    unfolding change_runD(7) [OF assms(1)] scan_result_def by simp_all
qed

lemma change_add_ids:
  assumes "change_run h b names w db p v' db'" "x \<in> set (addToGroupItem p) \<or> x \<in> set (deleteGroupId p)"
  shows "x < next_gid h db"
proof -
  obtain n g where "(n, g) \<in> set (gvalue w)" "x = groupId g"
    using assms(2) unfolding change_runD(7) [OF assms(1)] scan_result_def by force
  then show ?thesis
    using coh_found(5) [OF change_runD(1) [OF assms(1)]] m_find_in [OF coh_value [OF change_runD(1) [OF assms(1)]]] by blast
qed

lemma change_find:
  assumes "change_run h b names w db p v' db'"
  shows "m_wf v'" "m_find v' n = Some G \<longleftrightarrow> n \<notin> set (p_removeGroup p) \<and>
    (if n \<in> set (p_addGroup p) then \<exists>x. (x, n) \<in> new_rows h db p \<and> G = \<lparr>groupId = x, buddyIds = [b]\<rparr>
     else \<exists>g. m_find (gvalue w) n = Some g \<and> G = snd (changed_entry b (set names) (n, g)))"
proof -
  have pv: "p_value p = map (changed_entry b (set names)) (gvalue w)"
    unfolding change_runD(7) [OF assms] by (simp add: scan_result_def)
  have wf: "m_wf (p_value p)" unfolding pv by (rule changed_wf [OF coh_value [OF change_runD(1) [OF assms]]])
  note e = erase_all_find [OF put_new_groups_wf [OF wf, of "next_gid h db" b "p_addGroup p"], of "p_removeGroup p"]
  show "m_wf v'" using e unfolding change_result(1) [OF assms] by blast
  have "m_find (p_value p) n = Some G \<longleftrightarrow> (\<exists>g. m_find (gvalue w) n = Some g \<and> G = snd (changed_entry b (set names) (n, g)))"
    unfolding pv changed_find by auto
  then show "m_find v' n = Some G \<longleftrightarrow> n \<notin> set (p_removeGroup p) \<and>
    (if n \<in> set (p_addGroup p) then \<exists>x. (x, n) \<in> new_rows h db p \<and> G = \<lparr>groupId = x, buddyIds = [b]\<rparr>
     else \<exists>g. m_find (gvalue w) n = Some g \<and> G = snd (changed_entry b (set names) (n, g)))"
    using e put_new_groups_find [OF wf change_add(2) [OF assms], of "next_gid h db" b n G h]
    unfolding change_result(1) [OF assms] new_rows_def by simp
qed

lemma change_db_ok:
  assumes r: "change_run h b names w db p v' db'"
  shows "db_ok h db'"
proof -
  note o = coh_db [OF change_runD(1) [OF r]]
  have old_new: "x \<noteq> x'" "n \<noteq> n'" if "(x, n) \<in> rows h db" "(x', n') \<in> new_rows h db p" for x n x' n'
  proof -
    show "x \<noteq> x'" using db_ok_row [OF o that(1)] new_rows_range [OF that(2)] by simp
    have "m_find (gvalue w) n' = None" using new_rows_range [OF that(2)] change_add(1) [OF r] by blast
    then show "n \<noteq> n'" using coh_not_found [OF change_runD(1) [OF r], of n' x] that(1) by blast
  qed
  show ?thesis
  proof (rule db_okI)
    fix x n assume "(x, n) \<in> rows h db'"
    then consider "(x, n) \<in> rows h db" | "(x, n) \<in> new_rows h db p" unfolding change_rows(1) [OF r] by blast
    then show "1 \<le> x \<and> x < next_gid h db' \<and> legal n"
    proof cases
      case 1
      then show ?thesis using db_ok_row [OF o 1] change_rows(2) [OF r] by simp
    next
      case 2
      then have "legal n" using new_rows_range [OF 2] change_add(1) [OF r] change_runD(6) [OF r] by blast
      moreover have "1 \<le> next_gid h db" by (rule ids_fit_gid(1) [OF change_runD(2) [OF r]])
      ultimately show ?thesis using new_rows_range [OF 2] change_rows(2) [OF r] by simp
    qed
  next
    fix x n x' n' assume "(x, n) \<in> rows h db'" "(x', n') \<in> rows h db'"
    then show "x = x' \<longleftrightarrow> n = n'"
      unfolding change_rows(1) [OF r]
      using db_ok_one [OF o, of x n x' n'] new_rows_one [OF change_add(2) [OF r], where x = x and n = n and x' = x' and n' = n'] old_new [of x n x' n'] old_new [of x' n' x n]
      by blast
  next
    fix c x assume "(c, x) \<in> items h db'"
    then consider "(c, x) \<in> items h db" | "c = b" "x \<in> set (addToGroupItem p)" | n where "c = b" "(x, n) \<in> new_rows h db p"
      unfolding change_items [OF r] by blast
    then show "legal_buddy c \<and> x < next_gid h db'"
    proof cases
      case 1
      then show ?thesis using db_ok_item [OF o 1] change_rows(2) [OF r] by simp
    next
      case 2
      then show ?thesis using change_add_ids [OF r] change_runD(4) [OF r] change_rows(2) [OF r] by fastforce
    next
      case 3
      then show ?thesis using new_rows_range [OF 3(2)] change_runD(4) [OF r] change_rows(2) [OF r] by simp
    qed
  qed
qed

lemma change_members_old:
  assumes r: "change_run h b names w db p v' db'" and g: "m_find (gvalue w) n = Some g"
  shows "members h db' (groupId g) = set (buddyIds (snd (changed_entry b (set names) (n, g))))"
proof -
  have "(groupId g, m) \<notin> new_rows h db p" for m
    using coh_found(5) [OF change_runD(1) [OF r] g] new_rows_range [of "groupId g" m] by fastforce
  moreover have "set (buddyIds g) = members h db (groupId g)" by (rule coh_found(3) [OF change_runD(1) [OF r] g])
  ultimately show ?thesis
    using change_ids [OF r g] by (auto simp: change_items [OF r] changed_entry_def erase_buddy_def)
qed

lemma change_members_new:
  assumes r: "change_run h b names w db p v' db'" and n: "(x, n) \<in> new_rows h db p"
  shows "members h db' x = {b}"
proof -
  have ge: "next_gid h db \<le> x" using new_rows_range [OF n] by blast
  have "(c, x) \<notin> items h db" for c using db_ok_item [OF coh_db [OF change_runD(1) [OF r]], of c x] ge by auto
  moreover have "x \<notin> set (addToGroupItem p)" using change_add_ids [OF r, of x] ge by auto
  ultimately show ?thesis using n by (auto simp: change_items [OF r])
qed

lemma change_coh:
  assumes r: "change_run h b names w db p v' db'"
  shows "coh h (w\<lparr>gvalue := v'\<rparr>) db'"
proof -
  note c = change_runD(1) [OF r]
  have "agree h v' db'" unfolding agree_def
  proof (intro conjI allI impI)
    fix n G assume "m_find v' n = Some G"
    then have nr: "n \<notin> set (p_removeGroup p)"
      and G: "if n \<in> set (p_addGroup p) then \<exists>x. (x, n) \<in> new_rows h db p \<and> G = \<lparr>groupId = x, buddyIds = [b]\<rparr>
        else \<exists>g. m_find (gvalue w) n = Some g \<and> G = snd (changed_entry b (set names) (n, g))"
      using change_find(2) [OF r] by blast+
    have "(groupId G, n) \<in> rows h db' \<and> s_wf (buddyIds G) \<and> set (buddyIds G) = members h db' (groupId G)"
    proof (cases "n \<in> set (p_addGroup p)")
      case True
      then obtain x where x: "(x, n) \<in> new_rows h db p" "G = \<lparr>groupId = x, buddyIds = [b]\<rparr>" using G by auto
      then show ?thesis using change_members_new [OF r x(1)] by (simp add: change_rows(1) [OF r])
    next
      case False
      then obtain g where g: "m_find (gvalue w) n = Some g" "G = snd (changed_entry b (set names) (n, g))" using G by auto
      have i: "groupId G = groupId g" using g(2) by (simp add: changed_entry_def erase_buddy_def)
      have "s_wf (buddyIds G)" using coh_found(2) [OF c g(1)] g(2) by (simp add: changed_entry_def erase_buddy_def)
      then show ?thesis
        using coh_found(1) [OF c g(1)] nr change_members_old [OF r g(1)] unfolding i g(2) [symmetric] by (simp add: change_rows(1) [OF r])
    qed
    then show "(groupId G, n) \<in> rows h db'" "s_wf (buddyIds G)" "set (buddyIds G) = members h db' (groupId G)" by simp_all
  next
    fix x n assume "(x, n) \<in> rows h db'"
    then consider "(x, n) \<in> rows h db" "n \<notin> set (p_removeGroup p)" | "(x, n) \<in> new_rows h db p"
      unfolding change_rows(1) [OF r] by auto
    then have "\<exists>G. m_find v' n = Some G"
    proof cases
      case 1
      then obtain g where "m_find (gvalue w) n = Some g" using coh_not_found [OF c] by blast
      then show ?thesis using 1(2) change_add(1) [OF r, of n] unfolding change_find(2) [OF r] by auto
    next
      case 2
      then have "n \<in> set (p_addGroup p)" using new_rows_range [OF 2] by blast
      moreover from this have "n \<notin> set (p_removeGroup p)" using change_add(1) [OF r] change_remove [OF r] by auto
      ultimately show ?thesis using 2 unfolding change_find(2) [OF r] by auto
    qed
    then show "m_find v' n \<noteq> None" by blast
  qed
  then show ?thesis using change_db_ok [OF r] change_find(1) [OF r] c by (simp add: coh_def)
qed

lemma change_abs:
  assumes r: "change_run h b names w db p v' db'"
  shows "wabs (w\<lparr>gvalue := v'\<rparr>) = change_spec b (set names) (wabs w)"
proof
  fix n
  show "wabs (w\<lparr>gvalue := v'\<rparr>) n = change_spec b (set names) (wabs w) n"
  proof (cases "m_find (gvalue w) n")
    case None
    show ?thesis
    proof (cases "n \<in> set names")
      case True
      then have a: "n \<in> set (p_addGroup p)" using change_add(1) [OF r] None by blast
      then obtain x where x: "(x, n) \<in> new_rows h db p" using new_rows_all by blast
      have "n \<notin> set (p_removeGroup p)" using change_remove [OF r] True by blast
      with a x have "m_find v' n = Some \<lparr>groupId = x, buddyIds = [b]\<rparr>" unfolding change_find(2) [OF r] by auto
      with None True show ?thesis by (simp add: wabs_def change_spec_def)
    next
      case False
      have "m_find v' n \<noteq> Some G" for G using change_find(2) [OF r, of n G] change_add(1) [OF r, of n] False None by simp
      then have "m_find v' n = None" by blast
      with None False show ?thesis by (simp add: wabs_def change_spec_def)
    qed
  next
    case (Some g)
    have na: "n \<notin> set (p_addGroup p)" using change_add(1) [OF r] Some by simp
    show ?thesis
    proof (cases "n \<in> set (p_removeGroup p)")
      case True
      have "m_find v' n \<noteq> Some G" for G using change_find(2) [OF r, of n G] True by simp
      then have "m_find v' n = None" by blast
      with True Some change_remove [OF r, of n] show ?thesis by (simp add: wabs_def change_spec_def)
    next
      case False
      then have "m_find v' n = Some (snd (changed_entry b (set names) (n, g)))"
        using na Some unfolding change_find(2) [OF r] by simp
      with False Some change_remove [OF r, of n] show ?thesis
        by (auto simp: wabs_def change_spec_def changed_entry_def erase_buddy_def)
    qed
  qed
qed

text \<open>When the merge collects nothing, the request asks for nothing new.\<close>

lemma change_nothing:
  assumes "coh h w db" "addToGroupItem p = []" "deleteGroupId p = []" "p_addGroup p = []"
    and p: "p = scan_result b (set names) names (gvalue w)"
  shows "change_spec b (set names) (wabs w) = wabs w"
proof
  fix n
  have n1: "n \<notin> set names \<or> m_find (gvalue w) n \<noteq> None"
    using assms(4) by (auto simp: p scan_result_def filter_empty_conv m_find_dom)
  have "\<not> (n \<in> set names \<and> b \<notin> set (buddyIds g)) \<and> \<not> (n \<notin> set names \<and> b \<in> set (buddyIds g))"
    if "m_find (gvalue w) n = Some g" for g
  proof -
    have "(n, g) \<in> set (gvalue w)" using that m_find_in [OF coh_value [OF assms(1)]] by simp
    then show ?thesis using assms(2,3) by (force simp: p scan_result_def filter_empty_conv)
  qed
  with n1 show "change_spec b (set names) (wabs w) n = wabs w n"
    by (auto simp: change_spec_def wabs_def insert_absorb split: option.split)
qed

end
