(* ===== verification/GroupRefine.thy ===== *)
theory GroupRefine
  imports GroupChange
begin

text \<open>
  The server of the friend groups refines one map from names to sets of buddies per user. Every operation by name
  changes that map as its specification says, keeps tables and cache in agreement, and touches no other user.
\<close>

section \<open>The invariant of the server\<close>

definition ginv :: "Gzip \<Rightarrow> BGServer \<Rightarrow> bool" where
  "ginv Z s \<longleftrightarrow> ids_fit (gdb s) \<and> bg_tasks s = [] \<and> (\<forall>h. db_ok h (gdb s)) \<and>
     (\<forall>h b. bg_cache s h = Some b \<longrightarrow> coh h (unSerialize Z b) (gdb s))"

definition gabs :: "BGServer \<Rightarrow> int \<Rightarrow> groups" where
  "gabs s h = dbabs h (gdb s)"

text \<open>The server after an operation that changes the groups of one user by a function.\<close>

definition does :: "Gzip \<Rightarrow> int \<Rightarrow> (groups \<Rightarrow> groups) \<Rightarrow> BGServer \<Rightarrow> BGServer \<Rightarrow> bool" where
  "does Z h f s s' \<longleftrightarrow> ginv Z s' \<and> gabs s' = (gabs s)(h := f (gabs s h))"

lemma doesI: "ginv Z s' \<Longrightarrow> gabs s' = (gabs s)(h := m) \<Longrightarrow> f (gabs s h) = m \<Longrightarrow> does Z h f s s'"
  by (simp add: does_def)

lemma does_nothing: "ginv Z s' \<Longrightarrow> gabs s' = gabs s \<Longrightarrow> f (gabs s h) = gabs s h \<Longrightarrow> does Z h f s s'"
  by (simp add: does_def)

lemma on_db_simps [simp]:
  "gdb (on_db f s) = f (gdb s)" "bg_cache (on_db f s) = bg_cache s" "bg_tasks (on_db f s) = bg_tasks s"
  "notifyIm (on_db f s) = notifyIm s" "getBP Z h (on_db f s) = getBP Z h s"
  by (simp_all add: on_db_def getBP_def)

lemma notify_simps [simp]:
  "gdb (notify_im Z h bs s) = gdb s" "bg_cache (notify_im Z h bs s) = bg_cache s" "bg_tasks (notify_im Z h bs s) = bg_tasks s"
  by (simp_all add: notify_im_def changeBuddyGroupNotify_def)

lemma ginvD:
  assumes "ginv Z s"
  shows "ids_fit (gdb s)" "db_ok h (gdb s)" "bg_cache s h = Some b \<Longrightarrow> coh h (unSerialize Z b) (gdb s)"
  using assms by (simp_all add: ginv_def)

text \<open>Locating the object changes nothing that can be seen; a fresh object knows every id.\<close>

definition knows_ids :: "GroupMapWrapper \<Rightarrow> bool" where
  "knows_ids w \<longleftrightarrow> (\<forall>n g. m_find (gvalue w) n = Some g \<longrightarrow> m_find (idmap w) (groupId g) = Some n)"

lemma located_ok:
  assumes "ginv Z s" "gz_ok Z" "locateObject Z h s = Some s'"
  shows "ginv Z s'" "gdb s' = gdb s" "gabs s' = gabs s" "coh h (getBP Z h s') (gdb s')"
    "bg_cache s h = None \<Longrightarrow> knows_ids (getBP Z h s')"
proof -
  have "ginv Z s' \<and> gdb s' = gdb s \<and> coh h (getBP Z h s') (gdb s') \<and> (bg_cache s h = None \<longrightarrow> knows_ids (getBP Z h s'))"
  proof (cases "bg_cache s h")
    case None
    then obtain b where b: "create Z h s = Some (b, s)" "s' = s\<lparr>bg_cache := (bg_cache s)(h \<mapsto> b)\<rparr>"
      using assms(3) create_coh(1) [OF ginvD(2) [OF assms(1)] ginvD(1) [OF assms(1)] _ assms(2)]
      by (auto simp: locateObject_def bind_eq_Some_conv)
    note c = create_coh(2,3) [OF ginvD(2) [OF assms(1)] ginvD(1) [OF assms(1)] b(1) assms(2)]
    show ?thesis using assms(1) c b(2) by (auto simp: ginv_def getBP_def knows_ids_def)
  next
    case (Some b)
    then show ?thesis using assms(3) ginvD(3) [OF assms(1) Some] assms(1) by (simp add: locateObject_def getBP_def)
  qed
  then show "ginv Z s'" "gdb s' = gdb s" "coh h (getBP Z h s') (gdb s')"
    "bg_cache s h = None \<Longrightarrow> knows_ids (getBP Z h s')" by blast+
  then show "gabs s' = gabs s" by (simp add: gabs_def fun_eq_iff)
qed

lemma gabs_wabs: "coh h (getBP Z h s) (gdb s) \<Longrightarrow> gabs s h = wabs (getBP Z h s)"
  by (simp add: gabs_def coh_abs)

text \<open>Writing back data that agree with the tables.\<close>

lemma setBP_ok:
  assumes "ginv Z s" "gz_ok Z" "setBP Z h w s2 = Some s'" "bg_cache s2 = bg_cache s" "bg_tasks s2 = bg_tasks s"
    and "other_users h (gdb s) (gdb s2)" "ids_fit (gdb s')" "coh h w (gdb s2)"
  shows "ginv Z s'" "gabs s' = (gabs s)(h := wabs w)" "getBP Z h s' = w" "gdb s' = gdb s2"
proof -
  obtain b where b: "serialize Z w = Some b" "s' = s2\<lparr>bg_cache := (bg_cache s2)(h \<mapsto> b)\<rparr>"
    using assms(3) by (auto simp: setBP_def bind_eq_Some_conv)
  have f: "ids_fit (gdb s2)" using assms(7) b(2) by simp
  have u: "unSerialize Z b = w" by (rule unSerialize_enc [OF assms(2) coh_wf [OF assms(8) f] b(1)])
  then show "getBP Z h s' = w" by (simp add: getBP_def b(2))
  show "gdb s' = gdb s2" by (simp add: b(2))
  have "db_ok h' (gdb s2)" for h'
    using coh_db [OF assms(8)] db_ok_others [OF ginvD(2) [OF assms(1)] assms(6), of h'] by (cases "h' = h") simp_all
  moreover have "coh h' (unSerialize Z c) (gdb s2)" if "((bg_cache s2)(h \<mapsto> b)) h' = Some c" for h' c
    using that coh_others [OF ginvD(3) [OF assms(1)] assms(6), of h'] assms(4,8) u by (cases "h' = h") simp_all
  ultimately show "ginv Z s'" using assms(1,5) f by (simp add: ginv_def b(2))
  show "gabs s' = (gabs s)(h := wabs w)"
    using coh_abs [OF assms(8)] dbabs_others [OF ginvD(2) [OF assms(1)] assms(6)] by (auto simp: gabs_def b(2) fun_eq_iff)
qed

section \<open>The specification\<close>

datatype GReq =
    AddGroup int string
  | RenameGroup int string string
  | RemoveGroup int string
  | RemoveGroupForce int string
  | CleanGroup int string
  | AddBuddy int string int
  | AddBuddies int string "int list"
  | SetBuddies int string "int list"
  | RemoveFromGroup int string int
  | RemoveBuddy int int
  | ChangeGroups BuddyDesc bool int int "string list"
  | ChangeForWeb bool int int "string list"
  | Load int
  | SaveLoad int
  | Query int
  | Evict int

definition g_exec :: "Gzip \<Rightarrow> GReq \<Rightarrow> BGServer \<Rightarrow> BGServer option" where
  "g_exec Z r s =
     (case r of
        AddGroup h n \<Rightarrow> addGroup Z h n s
      | RenameGroup h old new \<Rightarrow> renameGroup Z h old new s
      | RemoveGroup h n \<Rightarrow> removeGroup Z h n s
      | RemoveGroupForce h n \<Rightarrow> removeGroupForce Z h n s
      | CleanGroup h n \<Rightarrow> cleanGroup Z h n s
      | AddBuddy h n b \<Rightarrow> addBuddyToGroup Z h n b s
      | AddBuddies h n bs \<Rightarrow> addBuddiesToGroup Z h n bs s
      | SetBuddies h n bs \<Rightarrow> setBuddiesToGroup Z h n bs s
      | RemoveFromGroup h n b \<Rightarrow> removeBuddyFromGroup Z h n b s
      | RemoveBuddy h b \<Rightarrow> removeBuddy Z h b s
      | ChangeGroups rel from h b ns \<Rightarrow> map_option snd (changeBuddyGroups Z rel from h b ns s)
      | ChangeForWeb from h b ns \<Rightarrow> changeBuddyGroupsForWeb Z from h b ns s
      | Load h \<Rightarrow> load_groups Z h s
      | SaveLoad h \<Rightarrow> saveLoad Z h s
      | Query h \<Rightarrow> locateObject Z h s
      | Evict h \<Rightarrow> Some (s\<lparr>bg_cache := (bg_cache s)(h := None)\<rparr>))"

fun g_host :: "GReq \<Rightarrow> int" where
  "g_host (AddGroup h n) = h"
| "g_host (RenameGroup h old new) = h"
| "g_host (RemoveGroup h n) = h"
| "g_host (RemoveGroupForce h n) = h"
| "g_host (CleanGroup h n) = h"
| "g_host (AddBuddy h n b) = h"
| "g_host (AddBuddies h n bs) = h"
| "g_host (SetBuddies h n bs) = h"
| "g_host (RemoveFromGroup h n b) = h"
| "g_host (RemoveBuddy h b) = h"
| "g_host (ChangeGroups rel from h b ns) = h"
| "g_host (ChangeForWeb from h b ns) = h"
| "g_host (Load h) = h"
| "g_host (SaveLoad h) = h"
| "g_host (Query h) = h"
| "g_host (Evict h) = h"

abbreviation group_or_empty :: "groups \<Rightarrow> string \<Rightarrow> int set" where
  "group_or_empty m n \<equiv> (case m n of Some B \<Rightarrow> B | None \<Rightarrow> {})"

definition rename_spec :: "string \<Rightarrow> string \<Rightarrow> groups \<Rightarrow> groups" where
  "rename_spec old new m =
     (case m old of None \<Rightarrow> m | Some B \<Rightarrow> if old = new then m else m(old := None, new \<mapsto> B \<union> group_or_empty m new))"

definition clean_spec :: "string \<Rightarrow> groups \<Rightarrow> groups" where
  "clean_spec n m = (case m n of None \<Rightarrow> m | Some _ \<Rightarrow> m(n \<mapsto> {}))"

definition add_spec :: "string \<Rightarrow> int list \<Rightarrow> groups \<Rightarrow> groups" where
  "add_spec n bs m = (if bs = [] then m else m(n \<mapsto> group_or_empty m n \<union> set bs))"

definition set_spec :: "string \<Rightarrow> int list \<Rightarrow> groups \<Rightarrow> groups" where
  "set_spec n bs m = (if bs = [] then clean_spec n m else m(n \<mapsto> set bs))"

definition leave_spec :: "string \<Rightarrow> int \<Rightarrow> groups \<Rightarrow> groups" where
  "leave_spec n b m = (case m n of None \<Rightarrow> m | Some B \<Rightarrow> m(n \<mapsto> B - {b}))"

definition leave_all_spec :: "int \<Rightarrow> groups \<Rightarrow> groups" where
  "leave_all_spec b m = (\<lambda>n. map_option (\<lambda>B. B - {b}) (m n))"

fun g_change :: "GReq \<Rightarrow> groups \<Rightarrow> groups" where
  "g_change (AddGroup h n) m = m(n \<mapsto> {})"
| "g_change (RenameGroup h old new) m = rename_spec old new m"
| "g_change (RemoveGroup h n) m = m(n := None)"
| "g_change (RemoveGroupForce h n) m = m(n := None)"
| "g_change (CleanGroup h n) m = clean_spec n m"
| "g_change (AddBuddy h n b) m = add_spec n [b] m"
| "g_change (AddBuddies h n bs) m = add_spec n bs m"
| "g_change (SetBuddies h n bs) m = set_spec n bs m"
| "g_change (RemoveFromGroup h n b) m = leave_spec n b m"
| "g_change (RemoveBuddy h b) m = leave_all_spec b m"
| "g_change (ChangeGroups rel from h b ns) m = (if rel = Friend then change_spec b (set ns) m else m)"
| "g_change (ChangeForWeb from h b ns) m = change_spec b (set ns) m"
| "g_change (Load h) m = m"
| "g_change (SaveLoad h) m = m"
| "g_change (Query h) m = m"
| "g_change (Evict h) m = m"

text \<open>The names a request checks; with one that is not legal it changes nothing.\<close>

fun g_names :: "GReq \<Rightarrow> string list" where
  "g_names (AddGroup h n) = [n]"
| "g_names (RenameGroup h old new) = [old, new]"
| "g_names (RemoveGroup h n) = [n]"
| "g_names (RemoveGroupForce h n) = [n]"
| "g_names (CleanGroup h n) = [n]"
| "g_names (AddBuddy h n b) = [n]"
| "g_names (AddBuddies h n bs) = [n]"
| "g_names (SetBuddies h n bs) = [n]"
| "g_names (RemoveFromGroup h n b) = [n]"
| "g_names (ChangeGroups rel from h b ns) = ns"
| "g_names (ChangeForWeb from h b ns) = ns"
| "g_names _ = []"

definition g_spec :: "GReq \<Rightarrow> groups \<Rightarrow> groups" where
  "g_spec r m = (if list_all legal (g_names r) then g_change r m else m)"

text \<open>
  What a run requires of its requests: a group is added under a name that is not in use, and buddies are numbers other than 0, which
  the join of the tables uses for a group without buddies. Names may be anything.
\<close>

fun g_ok :: "GReq \<Rightarrow> groups \<Rightarrow> bool" where
  "g_ok (AddGroup h n) m \<longleftrightarrow> m n = None"
| "g_ok (AddBuddy h n b) m \<longleftrightarrow> legal_buddy b"
| "g_ok (AddBuddies h n bs) m \<longleftrightarrow> (\<forall>b \<in> set bs. legal_buddy b)"
| "g_ok (SetBuddies h n bs) m \<longleftrightarrow> (\<forall>b \<in> set bs. legal_buddy b)"
| "g_ok (ChangeGroups rel from h b ns) m \<longleftrightarrow> legal_buddy b"
| "g_ok (ChangeForWeb from h b ns) m \<longleftrightarrow> legal_buddy b"
| "g_ok _ m \<longleftrightarrow> True"

section \<open>Every operation\<close>

lemma wrote:
  assumes "ginv Z s" "gz_ok Z" "locateObject Z h s = Some s1" "setBP Z h w s2 = Some s'" "bg_cache s2 = bg_cache s1"
    "bg_tasks s2 = bg_tasks s1" "other_users h (gdb s1) (gdb s2)" "ids_fit (gdb s')" "coh h w (gdb s2)"
    and "f (wabs (getBP Z h s1)) = wabs w"
  shows "does Z h f s s'"
proof (rule doesI)
  note l = located_ok [OF assms(1-3)]
  note w = setBP_ok [OF l(1) assms(2,4-9)]
  show "ginv Z s'" by (rule w(1))
  show "gabs s' = (gabs s)(h := wabs w)" using w(2) l(3) by simp
  show "f (gabs s h) = wabs w" using gabs_wabs [OF l(4)] l(3) assms(10) by simp
qed

lemma kept:
  assumes "ginv Z s" "gz_ok Z" "locateObject Z h s = Some s'" "f (wabs (getBP Z h s')) = wabs (getBP Z h s')"
  shows "does Z h f s s'"
  using located_ok [OF assms(1-3)] gabs_wabs [of h Z s'] assms(4) by (intro does_nothing) simp_all

lemma legal_utf8: "legal n \<Longrightarrow> isUtf8 n = Some True"
  by (simp add: legal_def)

lemma wabs_found: "m_find (gvalue w) n = Some g \<Longrightarrow> wabs w n = Some (set (buddyIds g))"
  by (simp add: wabs_def)

lemma wabs_not_found: "m_find (gvalue w) n = None \<Longrightarrow> wabs w n = None"
  by (simp add: wabs_def)

lemma locate_gdb: "locateObject Z h s = Some s' \<Longrightarrow> gdb s' = gdb s"
  by (auto simp: locateObject_def create_def bind_eq_Some_conv Let_def split: option.splits if_splits)

lemma setBP_gdb: "setBP Z h w s = Some s' \<Longrightarrow> gdb s' = gdb s"
  by (auto simp: setBP_def bind_eq_Some_conv)

lemma m_put_same: "m_wf v \<Longrightarrow> m_find v n = Some g \<Longrightarrow> m_put n g v = v"
  by (rule m_wf_unique) (simp_all add: m_put_wf m_put_find fun_upd_idem)

lemma ids_fit_with: "ids_fit (with_group h n bs db) \<Longrightarrow> next_gid h db < 2 ^ 31"
  using ids_fit_gid(2) [of "with_group h n bs db" h] by (simp add: with_group_db)

lemma gabs_none: "ginv Z s \<Longrightarrow> gabs s h n = None \<Longrightarrow> (x, n) \<notin> rows h (gdb s)"
  using gid_of_rows [OF ginvD(2), of Z s h n x] by (auto simp: gabs_def dbabs_def)

lemma addGroup_does:
  assumes "ginv Z s" "gz_ok Z" "addGroup Z h n s = Some s'" "ids_fit (gdb s')" "legal n" "gabs s h n = None"
  shows "does Z h (\<lambda>m. m(n \<mapsto> {})) s s'"
proof -
  let ?db = "with_group h n [] (gdb s)" and ?gid = "next_gid h (gdb s)"
  let ?s = "s\<lparr>gdb := ?db\<rparr>"
  have o: "db_ok h (gdb s)" and f: "ids_fit (gdb s)" using ginvD [OF assms(1)] by simp_all
  obtain gid db where i: "db_insert_groups h [n] (gdb s) = (gid, db)" by fastforce
  have db: "db = ?db" using i by (simp add: with_group_def db_insert_items_def)
  obtain s1 where l: "locateObject Z h ?s = Some s1" and p0: "setBP Z h ((getBP Z h s1)\<lparr>gvalue :=
      m_put n \<lparr>groupId = gid, buddyIds = []\<rparr> (gvalue (getBP Z h s1)), idmap := m_put gid n (idmap (getBP Z h s1))\<rparr>) s1 = Some s'"
    using assms(3,5) i db by (auto simp: addGroup_def legal_def bind_eq_Some_conv Let_def)
  have d: "gdb s' = ?db" "gdb s1 = ?db" using locate_gdb [OF l] setBP_gdb [OF p0] by simp_all
  have lt: "?gid < 2 ^ 31" using assms(4) d by (intro ids_fit_with [of h n "[]"]) simp
  have gid: "gid = ?gid" using first_id [OF f lt, of "[n]"] i by simp
  have ge: "1 \<le> ?gid" by (rule ids_fit_gid(1) [OF f])
  note p = p0 [unfolded gid]
  have n: "(x, n) \<notin> rows h (gdb s)" for x by (rule gabs_none [OF assms(1,6)])
  show ?thesis
  proof (cases "bg_cache s h")
    case (Some b)
    let ?w = "unSerialize Z b"
    have s1: "s1 = ?s" using l Some by (simp add: locateObject_def)
    have w: "getBP Z h s1 = ?w" using Some by (simp add: s1 getBP_def)
    have c: "coh h ?w (gdb s)" by (rule ginvD(3) [OF assms(1) Some])
    have no: "m_find (gvalue ?w) n = None"
    proof (cases "m_find (gvalue ?w) n")
      case (Some g)
      then show ?thesis using coh_found(1) [OF c Some] n by simp
    qed simp
    let ?v = "m_put n \<lparr>groupId = ?gid, buddyIds = []\<rparr> (gvalue ?w)"
    have "coh h (?w\<lparr>gvalue := ?v\<rparr>) (gdb s1)" using coh_new [OF c no assms(5), of "[]"] f d(2) by (simp add: s_inserts_def)
    moreover have "ids_wf (m_put ?gid n (idmap ?w))" using ids_wf_put [OF _ ge lt] c by (simp add: coh_def)
    ultimately have "coh h (?w\<lparr>gvalue := ?v, idmap := m_put ?gid n (idmap ?w)\<rparr>) (gdb s1)" by (rule coh_idmap)
    then have r: "ginv Z s'" "gabs s' = (gabs s)(h := (wabs ?w)(n \<mapsto> {}))"
      using setBP_ok [OF assms(1,2) p [unfolded w]] assms(4) coh_value [OF c] d(2) by (simp_all add: s1 with_group_db)
    show ?thesis by (rule doesI [OF r]) (simp add: gabs_def coh_abs [OF c])
  next
    case None
    have g1: "ginv Z ?s"
    proof -
      have "db_ok h' ?db" for h'
        using with_group_ok [OF o f n assms(5), of "[]"] db_ok_others [OF ginvD(2) [OF assms(1)] with_group_db(4), of h']
        by (cases "h' = h") simp_all
      moreover have "coh h' (unSerialize Z b) ?db" if "bg_cache s h' = Some b" for h' b
        using coh_others [OF ginvD(3) [OF assms(1) that] with_group_db(4)] that None by force
      ultimately show ?thesis using assms(1,4) d by (simp add: ginv_def)
    qed
    note L = located_ok [OF g1 assms(2) l]
    let ?w = "getBP Z h s1"
    have row: "(?gid, n) \<in> rows h (gdb s1)" by (simp add: d(2) with_group_db)
    then obtain g where g: "m_find (gvalue ?w) n = Some g" using coh_not_found [OF L(4)] by blast
    have "groupId g = ?gid" using db_ok_one [OF coh_db [OF L(4)] coh_found(1) [OF L(4) g] row] by simp
    moreover from this have "buddyIds g = []"
      using coh_found(3) [OF L(4) g] with_group_members [OF o, of n "[]"] by (simp add: d(2))
    ultimately have e: "\<lparr>groupId = ?gid, buddyIds = []\<rparr> = g" by simp
    have v: "m_put n \<lparr>groupId = ?gid, buddyIds = []\<rparr> (gvalue ?w) = gvalue ?w"
      unfolding e by (rule m_put_same [OF coh_value [OF L(4)] g])
    have "coh h (?w\<lparr>idmap := m_put ?gid n (idmap ?w)\<rparr>) (gdb s1)"
      using L(4) ids_wf_put [OF _ ge lt] by (intro coh_idmap) (simp_all add: coh_def)
    then have "ginv Z s'" "gabs s' = (gabs s1)(h := wabs ?w)"
      using setBP_ok [OF L(1) assms(2) p] v assms(4) by simp_all
    moreover have "gabs s1 = (gabs s)(h := (gabs s h)(n \<mapsto> {}))"
      using dbabs_new [OF o f n assms(5), of "[]"] dbabs_others [OF ginvD(2) [OF assms(1)] with_group_db(4)]
      unfolding L(3) by (auto simp: gabs_def fun_eq_iff)
    ultimately show ?thesis using gabs_wabs [OF L(4)] by (intro doesI) simp_all
  qed
qed

lemma cleanGroup_does:
  assumes "ginv Z s" "gz_ok Z" "cleanGroup Z h n s = Some s'" "ids_fit (gdb s')" "legal n"
  shows "does Z h (clean_spec n) s s'"
proof -
  obtain s1 where l: "locateObject Z h s = Some s1"
    using assms(3,5) by (auto simp: cleanGroup_def legal_utf8 bind_eq_Some_conv)
  let ?w = "getBP Z h s1"
  note L = located_ok [OF assms(1,2) l]
  show ?thesis
  proof (cases "m_find (gvalue ?w) n")
    case None
    then have "setBP Z h ?w s1 = Some s'" using assms(3) l by (simp add: cleanGroup_def legal_utf8 assms(5))
    then show ?thesis
      by (rule wrote [OF assms(1,2) l]) (use assms(4) L wabs_not_found [OF None] in \<open>simp_all add: clean_spec_def\<close>)
  next
    case (Some g)
    show ?thesis
    proof (cases "buddyIds g = []")
      case True
      then have e: "s' = s1" using assms(3) l Some by (simp add: cleanGroup_def legal_utf8 assms(5))
      show ?thesis unfolding e
        by (rule kept [OF assms(1,2) l]) (use wabs_found [OF Some] True in \<open>simp add: clean_spec_def fun_upd_idem\<close>)
    next
      case False
      then have "setBP Z h (clear_buddies n ?w) (notify_im Z h (buddyIds g) (on_db (db_delete_items h [groupId g]) s1)) = Some s'"
        using assms(3) l Some coh_found(4) [OF L(4) Some] by (simp add: cleanGroup_def legal_utf8 assms(5))
      then show ?thesis
        by (rule wrote [OF assms(1,2) l])
           (use assms(4) coh_clear [OF L(4) Some] wabs_found [OF Some] in \<open>simp_all add: clean_spec_def\<close>)
    qed
  qed
qed

lemma m_put_erase: "m_wf v \<Longrightarrow> a \<noteq> k \<Longrightarrow> m_erase a (m_put k x v) = m_put k x (m_erase a v)"
  by (rule m_wf_unique) (simp_all add: m_put_wf m_erase_wf m_put_find m_erase_find fun_upd_twist)

text \<open>Renaming: a move, or a union with the group that has the name.\<close>

lemma rename_to_ok:
  assumes "coh h (getBP Z h s) (gdb s)" "legal new" "old \<noteq> new" "rename_to Z h old new (getBP Z h s) s = (w', s')"
    and f: "ids_fit (gdb s)"
  shows "coh h w' (gdb s')" "wabs w' = rename_spec old new (wabs (getBP Z h s))" "other_users h (gdb s) (gdb s')"
    "bg_cache s' = bg_cache s" "bg_tasks s' = bg_tasks s"
proof -
  let ?w = "getBP Z h s"
  have m: "m_wf (gvalue ?w)" by (rule coh_value [OF assms(1)])
  have "coh h w' (gdb s') \<and> wabs w' = rename_spec old new (wabs ?w) \<and> other_users h (gdb s) (gdb s') \<and>
      bg_cache s' = bg_cache s \<and> bg_tasks s' = bg_tasks s"
  proof (cases "m_find (gvalue ?w) old")
    case None
    have "rows h (db_rename_group h old new (gdb s)) = rows h (gdb s)"
      using coh_not_found [OF assms(1) None] by (force simp: group_db_simps image_iff)
    then have "coh h ?w (db_rename_group h old new (gdb s))"
      using assms(1) by (simp add: coh_def db_ok_def agree_def group_db_simps)
    then show ?thesis
      using assms None by (auto simp: rename_to_def rename_spec_def wabs_def Let_def split: option.splits)
  next
    case (Some go)
    show ?thesis
    proof (cases "m_find (gvalue ?w) new")
      case None
      let ?v = "m_erase old (m_put new go (gvalue ?w))"
      have r: "w' = ?w\<lparr>gvalue := ?v, idmap := m_put (groupId go) new (idmap ?w)\<rparr>"
        "s' = on_db (db_rename_group h old new) s"
        using assms(4) Some None by (simp_all add: rename_to_def Let_def)
      have "coh h (?w\<lparr>gvalue := ?v\<rparr>) (db_rename_group h old new (gdb s))" by (rule coh_rename [OF assms(1) Some None assms(2)])
      moreover have "groupId go < 2 ^ 31" using coh_found(5) [OF assms(1) Some] ids_fit_gid(2) [OF f, of h] by simp
      then have "ids_wf (m_put (groupId go) new (idmap ?w))"
        using ids_wf_put coh_found(4) [OF assms(1) Some] assms(1) by (simp add: coh_def)
      ultimately have "coh h w' (gdb s')" unfolding r using coh_idmap by force
      moreover have "wabs w' = rename_spec old new (wabs ?w)"
        using m Some None assms(3) unfolding r
        by (auto simp: rename_spec_def wabs_def m_erase_find m_put_find fun_eq_iff)
      ultimately show ?thesis by (simp add: r)
    next
      case (Some gn)
      let ?w1 = "?w\<lparr>gvalue := m_erase old (gvalue ?w)\<rparr>"
      let ?s1 = "removeGroup' Z h old s" and ?add = "db_insert_items (map (\<lambda>b. (h, b, groupId gn)) (buddyIds go))"
      have s1: "gdb ?s1 = db_delete_items h [groupId go] (db_delete_groups h [old] (gdb s)) \<or> gdb ?s1 = db_delete_groups h [old] (gdb s)"
        and k: "bg_cache ?s1 = bg_cache s" "bg_tasks ?s1 = bg_tasks s"
        by (auto simp: removeGroup'_def \<open>m_find (gvalue ?w) old = Some go\<close> Let_def)
      have o1: "other_users h (gdb s) (gdb ?s1)" using s1 other_users_trans [OF other_users_db(4) other_users_db(2)] by auto
      have c1: "coh h ?w1 (gdb ?s1)" by (rule coh_delete [OF assms(1) \<open>m_find (gvalue ?w) old = Some go\<close> s1])
      have g1: "m_find (gvalue ?w1) new = Some gn" using Some assms(3) by (simp add: m_erase_find)
      have b: "\<forall>b \<in> set (buddyIds go). legal_buddy b" by (rule coh_found(7) [OF assms(1) \<open>m_find (gvalue ?w) old = Some go\<close>])
      have r: "w' = put_buddies new gn (buddyIds go) ?w1" "gdb s' = ?add (gdb ?s1)" "bg_cache s' = bg_cache s" "bg_tasks s' = bg_tasks s"
        using assms(4) \<open>m_find (gvalue ?w) old = Some go\<close> Some k
        by (auto simp: rename_to_def Let_def put_buddies_def m_put_erase [OF m assms(3)] db_insert_items_def)
      have "wabs w' = rename_spec old new (wabs ?w)"
        unfolding r coh_join(2) [OF c1 g1 b] using \<open>m_find (gvalue ?w) old = Some go\<close> Some assms(3)
        by (auto simp: rename_spec_def wabs_def m_erase_find fun_eq_iff)
      moreover have "other_users h (gdb s) (gdb s')" unfolding r by (rule other_users_trans [OF o1 other_users_db(1)]) simp
      ultimately show ?thesis using coh_join(1) [OF c1 g1 b] r by simp
    qed
  qed
  then show "coh h w' (gdb s')" "wabs w' = rename_spec old new (wabs ?w)" "other_users h (gdb s) (gdb s')"
    "bg_cache s' = bg_cache s" "bg_tasks s' = bg_tasks s" by blast+
qed

lemma renameGroup_does:
  assumes "ginv Z s" "gz_ok Z" "renameGroup Z h old new s = Some s'" "ids_fit (gdb s')" "legal old" "legal new"
  shows "does Z h (rename_spec old new) s s'"
proof (cases "old = new")
  case True
  then have "s' = s" using assms(3,5,6) by (simp add: renameGroup_def legal_utf8)
  then show ?thesis using assms(1) True by (intro does_nothing) (simp_all add: rename_spec_def split: option.split)
next
  case False
  obtain s1 where l: "locateObject Z h s = Some s1"
    using assms(3,5,6) False by (auto simp: renameGroup_def legal_utf8 bind_eq_Some_conv)
  obtain w s2 where r: "rename_to Z h old new (getBP Z h s1) s1 = (w, s2)" by fastforce
  have p: "setBP Z h w (notify_im Z h (buddies_of new w) s2) = Some s'"
    using assms(3) l r False by (simp add: renameGroup_def legal_utf8 assms(5,6))
  note L = located_ok [OF assms(1,2) l]
  note R = rename_to_ok [OF L(4) assms(6) False r ginvD(1) [OF L(1)]]
  show ?thesis by (rule wrote [OF assms(1,2) l p]) (simp_all add: R assms(4))
qed

lemma coh_remove:
  assumes "coh h w db" "m_find (gvalue w) n = Some g"
  shows "coh h (w\<lparr>gvalue := m_erase n (gvalue w), idmap := m_erase i (idmap w)\<rparr>) (db_delete_items h [groupId g] (db_delete_groups h [n] db))"
    "other_users h db (db_delete_items h [groupId g] (db_delete_groups h [n] db))"
proof -
  have "ids_wf (m_erase i (idmap w))" using assms(1) by (simp add: coh_def ids_wf_erase)
  with coh_idmap [OF coh_delete [OF assms]] show "coh h (w\<lparr>gvalue := m_erase n (gvalue w), idmap := m_erase i (idmap w)\<rparr>)
      (db_delete_items h [groupId g] (db_delete_groups h [n] db))" by simp
  show "other_users h db (db_delete_items h [groupId g] (db_delete_groups h [n] db))"
    by (rule other_users_trans [OF other_users_db(4) other_users_db(2)])
qed

lemma coh_no_minus_one: "coh h w db \<Longrightarrow> m_find (idmap w) (-1) = None"
  by (auto simp: coh_def ids_wf_def m_find_dom)

text \<open>The steps of a removal once the object is located.\<close>

lemma remove_located:
  assumes "ginv Z s" "gz_ok Z" "locateObject Z h s = Some s1" "m_find (gvalue (getBP Z h s1)) n = Some g" "ids_fit (gdb s')"
    and "setBP Z h ((getBP Z h s1)\<lparr>gvalue := m_erase n (gvalue (getBP Z h s1)), idmap := m_erase i (idmap (getBP Z h s1))\<rparr>)
      (notify_im Z h bs (on_db (db_delete_items h [groupId g]) (on_db (db_delete_groups h [n]) s1))) = Some s'"
  shows "does Z h (\<lambda>m. m(n := None)) s s'"
proof -
  note L = located_ok [OF assms(1-3)]
  show ?thesis
    by (rule wrote [OF assms(1-3,6)]) (use coh_remove [OF L(4) assms(4)] assms(5) in \<open>simp_all add: wabs_def fun_eq_iff m_erase_find\<close>)
qed

lemma gabs_cache [simp]: "gabs (s\<lparr>bg_cache := c\<rparr>) = gabs s"
  by (simp add: gabs_def fun_eq_iff)

lemma evicted_ok: "ginv Z s \<Longrightarrow> ginv Z (s\<lparr>bg_cache := (bg_cache s)(h := None)\<rparr>)"
  by (auto simp: ginv_def split: if_splits)

lemma removeGroupForce_does:
  assumes "ginv Z s" "gz_ok Z" "removeGroupForce Z h n s = Some s'" "ids_fit (gdb s')" "legal n"
  shows "does Z h (\<lambda>m. m(n := None)) s s'"
proof -
  let ?s = "s\<lparr>bg_cache := (bg_cache s)(h := None)\<rparr>"
  have i: "ginv Z ?s" by (rule evicted_ok [OF assms(1)])
  obtain s1 where l: "locateObject Z h ?s = Some s1"
    using assms(3,5) by (auto simp: removeGroupForce_def legal_utf8 bind_eq_Some_conv)
  note L = located_ok [OF i assms(2) l]
  let ?w = "getBP Z h s1"
  have "does Z h (\<lambda>m. m(n := None)) ?s s'"
  proof (cases "m_find (gvalue ?w) n")
    case None
    then have "s' = s1" using assms(3) l coh_no_minus_one [OF L(4)] by (simp add: removeGroupForce_def legal_utf8 assms(5) Let_def)
    then show ?thesis using kept [OF i assms(2), of h s' "\<lambda>m. m(n := None)"] l wabs_not_found [OF None] by (simp add: fun_upd_idem)
  next
    case (Some g)
    have "m_find (idmap ?w) (groupId g) = Some n" using L(5) Some by (simp add: knows_ids_def)
    moreover have "groupId g \<noteq> -1" using coh_found(4) [OF L(4) Some] by simp
    ultimately show ?thesis
      using assms(3) l Some
      by (intro remove_located [OF i assms(2) l Some assms(4), of "groupId g" "buddies_of n ?w"])
         (simp add: removeGroupForce_def legal_utf8 assms(5) Let_def)
  qed
  then show ?thesis by (simp add: does_def)
qed

lemma removeGroup_does:
  assumes "ginv Z s" "gz_ok Z" "removeGroup Z h n s = Some s'" "ids_fit (gdb s')" "legal n"
  shows "does Z h (\<lambda>m. m(n := None)) s s'"
proof -
  obtain s1 where l: "locateObject Z h s = Some s1"
    using assms(3,5) by (auto simp: removeGroup_def legal_utf8 bind_eq_Some_conv)
  note L = located_ok [OF assms(1,2) l]
  let ?w = "getBP Z h s1" and ?gid = "case m_find (gvalue (getBP Z h s1)) n of Some g \<Rightarrow> groupId g | None \<Rightarrow> -1"
  show ?thesis
  proof (cases "m_find (idmap ?w) ?gid")
    case None
    then have "removeGroupForce Z h n s1 = Some s'"
      using assms(3) l by (simp add: removeGroup_def legal_utf8 assms(5) Let_def)
    then have "does Z h (\<lambda>m. m(n := None)) s1 s'" by (rule removeGroupForce_does [OF L(1) assms(2) _ assms(4,5)])
    then show ?thesis by (simp add: does_def L(3))
  next
    case (Some m)
    then obtain g where g: "m_find (gvalue ?w) n = Some g"
      using coh_no_minus_one [OF L(4)] by (cases "m_find (gvalue ?w) n") auto
    have "groupId g \<noteq> -1" using coh_found(4) [OF L(4) g] by simp
    then show ?thesis
      using assms(3) l g Some
      by (intro remove_located [OF assms(1,2) l g assms(4), of "groupId g" "buddies_of n ?w"])
         (simp add: removeGroup_def legal_utf8 assms(5) Let_def)
  qed
qed

text \<open>Adding buddies to a group that is there, and to one that is not.\<close>

lemma add_new_group_ok:
  assumes "coh h w (gdb s)" "ids_fit (gdb s)" "ids_fit (gdb s')" "m_find (gvalue w) n = None" "legal n" "\<forall>b \<in> set bs. legal_buddy b"
    and "add_new_group h n bs w s = (w', s')"
  shows "coh h w' (gdb s')" "wabs w' = (wabs w)(n \<mapsto> set bs)" "other_users h (gdb s) (gdb s')"
    "bg_cache s' = bg_cache s" "bg_tasks s' = bg_tasks s"
proof -
  have k: "bg_cache s' = bg_cache s" "bg_tasks s' = bg_tasks s"
    and "next_groupid (gdb s') = (next_groupid (gdb s))(getTableNo h := next_gid h (gdb s) + 1)"
    using assms(7) next_db(6) [of h "[n]" "gdb s"] by (auto simp: add_new_group_def Let_def next_db(1) split: prod.splits)
  with ids_fit_gid(2) [OF assms(3), of h] have "next_gid h (gdb s) + 1 \<le> 2 ^ 31" by simp
  then have "fst (db_insert_groups h [n] (gdb s)) = next_gid h (gdb s)" by (intro first_id [OF assms(2)]) simp
  then have r: "w' = w\<lparr>gvalue := m_put n \<lparr>groupId = next_gid h (gdb s), buddyIds = s_inserts bs []\<rparr> (gvalue w)\<rparr>"
    "gdb s' = with_group h n bs (gdb s)"
    using assms(7) by (auto simp: add_new_group_def with_group_def Let_def split: prod.splits)
  show "coh h w' (gdb s')" unfolding r by (rule coh_new [OF assms(1,4-6,2)])
  show "wabs w' = (wabs w)(n \<mapsto> set bs)" unfolding r using coh_value [OF assms(1)] by simp
  show "other_users h (gdb s) (gdb s')" unfolding r by (rule with_group_db(4))
  show "bg_cache s' = bg_cache s" "bg_tasks s' = bg_tasks s" by (rule k)+
qed

lemma other_users_items: "other_users h db (db_insert_items (map (\<lambda>b. (h, b, g)) bs) db)"
  by (rule other_users_db(1)) simp

lemma addBuddyToGroup_does:
  assumes "ginv Z s" "gz_ok Z" "addBuddyToGroup Z h n b s = Some s'" "ids_fit (gdb s')" "legal n" "legal_buddy b"
  shows "does Z h (add_spec n [b]) s s'"
proof -
  obtain s1 where l: "locateObject Z h s = Some s1" and a: "add_to_named Z h n b s1 = Some s'"
    using assms(3,5) by (auto simp: addBuddyToGroup_def legal_utf8 bind_eq_Some_conv)
  note L = located_ok [OF assms(1,2) l]
  let ?w = "getBP Z h s1"
  show ?thesis
  proof (cases "m_find (gvalue ?w) n")
    case None
    obtain w s2 where r: "add_new_group h n [b] ?w s1 = (w, s2)" by fastforce
    then have p: "setBP Z h w (notify_im Z h [b] s2) = Some s'" using a None by (simp add: add_to_named_def)
    have "ids_fit (gdb s2)" using setBP_gdb [OF p] assms(4) by simp
    note N = add_new_group_ok [OF L(4) ginvD(1) [OF L(1)] this None assms(5) _ r]
    show ?thesis by (rule wrote [OF assms(1,2) l p]) (use N assms(4,6) wabs_not_found [OF None] in \<open>simp_all add: add_spec_def\<close>)
  next
    case (Some g)
    show ?thesis
    proof (cases "b \<in> set (buddyIds g)")
      case True
      then have e: "s' = s1" using a Some by (simp add: add_to_named_def)
      show ?thesis unfolding e
        by (rule kept [OF assms(1,2) l]) (use wabs_found [OF Some] True in \<open>simp add: add_spec_def fun_upd_idem insert_absorb\<close>)
    next
      case False
      then have p: "setBP Z h (put_buddies n g [b] ?w) (notify_im Z h [b] (on_db (db_insert_items [(h, b, groupId g)]) s1)) = Some s'"
        using a Some by (simp add: add_to_named_def)
      show ?thesis
        by (rule wrote [OF assms(1,2) l p])
           (use coh_join [OF L(4) Some, of "[b]"] assms(4,6) wabs_found [OF Some] other_users_items [of h _ "groupId g" "[b]"]
             in \<open>simp_all add: add_spec_def\<close>)
    qed
  qed
qed

lemma insert_ids_set: "set (insert_ids bs ids) \<subseteq> set bs" "set ids \<union> set (insert_ids bs ids) = set ids \<union> set bs"
  by (induction bs arbitrary: ids) (auto, metis UnE UnI1 UnI2 insertCI insertE s_insert_set)+

lemma addBuddiesToGroup_does:
  assumes "ginv Z s" "gz_ok Z" "addBuddiesToGroup Z h n bs s = Some s'" "ids_fit (gdb s')" "legal n" "\<forall>b \<in> set bs. legal_buddy b"
  shows "does Z h (add_spec n bs) s s'"
proof (cases "bs = []")
  case True
  then have "s' = s" using assms(3,5) by (simp add: addBuddiesToGroup_def legal_utf8)
  then show ?thesis using assms(1) True by (intro does_nothing) (simp_all add: add_spec_def)
next
  case ne: False
  obtain s1 where l: "locateObject Z h s = Some s1"
    using assms(3,5) ne by (auto simp: addBuddiesToGroup_def legal_utf8 bind_eq_Some_conv)
  note L = located_ok [OF assms(1,2) l]
  let ?w = "getBP Z h s1"
  show ?thesis
  proof (cases "m_find (gvalue ?w) n")
    case None
    obtain w s2 where r: "add_new_group h n bs ?w s1 = (w, s2)" by fastforce
    then have p: "setBP Z h w (notify_im Z h bs s2) = Some s'"
      using assms(3) l None ne by (simp add: addBuddiesToGroup_def legal_utf8 assms(5) Let_def)
    have "ids_fit (gdb s2)" using setBP_gdb [OF p] assms(4) by simp
    note N = add_new_group_ok [OF L(4) ginvD(1) [OF L(1)] this None assms(5,6) r]
    show ?thesis by (rule wrote [OF assms(1,2) l p]) (use N assms(4) ne wabs_not_found [OF None] in \<open>simp_all add: add_spec_def\<close>)
  next
    case (Some g)
    let ?new = "insert_ids bs (buddyIds g)"
    let ?s = "if ?new \<noteq> [] then on_db (db_insert_items (map (\<lambda>b. (h, b, groupId g)) ?new)) s1 else s1"
    have p: "setBP Z h (put_buddies n g ?new ?w) (notify_im Z h bs ?s) = Some s'"
      using assms(3) l Some ne by (simp add: addBuddiesToGroup_def add_known_def legal_utf8 assms(5) Let_def)
    have d: "gdb ?s = db_insert_items (map (\<lambda>b. (h, b, groupId g)) ?new) (gdb s1)" by (simp add: db_insert_items_def)
    have "\<forall>b \<in> set ?new. legal_buddy b" using insert_ids_set(1) assms(6) by blast
    note J = coh_join [OF L(4) Some this]
    show ?thesis
      by (rule wrote [OF assms(1,2) l p])
         (use J insert_ids_set(2) [of "buddyIds g" bs] assms(4) ne wabs_found [OF Some] d other_users_items
           in \<open>simp_all add: add_spec_def\<close>)
  qed
qed

text \<open>Setting the buddies of a group: cleaning it, then adding.\<close>

lemma cleanGroup'_ok:
  assumes "ginv Z s" "gz_ok Z" "cleanGroup' Z h n s = Some s'" "legal n" "coh h (getBP Z h s) (gdb s)"
  shows "ginv Z s'" "gabs s' = (gabs s)(h := clean_spec n (gabs s h))" "coh h (getBP Z h s') (gdb s')" "next_groupid (gdb s') = next_groupid (gdb s)"
proof -
  let ?w = "getBP Z h s"
  have f: "ids_fit (gdb s)" by (rule ginvD(1) [OF assms(1)])
  have "ginv Z s' \<and> gabs s' = (gabs s)(h := clean_spec n (gabs s h)) \<and> coh h (getBP Z h s') (gdb s') \<and> next_groupid (gdb s') = next_groupid (gdb s)"
  proof (cases "m_find (gvalue ?w) n")
    case None
    then have p: "setBP Z h ?w s = Some s'" using assms(3,4) by (simp add: cleanGroup'_def legal_utf8)
    have "ids_fit (gdb s')" using setBP_gdb [OF p] f by simp
    then show ?thesis
      using setBP_ok [OF assms(1,2) p _ _ _ _ assms(5)] gabs_wabs [OF assms(5)] wabs_not_found [OF None] assms(5) by (simp add: clean_spec_def)
  next
    case (Some g)
    show ?thesis
    proof (cases "buddyIds g = []")
      case True
      then have "s' = s" using assms(3,4) Some by (simp add: cleanGroup'_def legal_utf8)
      then show ?thesis
        using assms(1,5) gabs_wabs [OF assms(5)] wabs_found [OF Some] True by (simp add: clean_spec_def fun_upd_idem)
    next
      case False
      let ?s = "on_db (db_delete_items h [groupId g]) s"
      have p: "setBP Z h (clear_buddies n ?w) ?s = Some s'"
        using assms(3,4) Some False coh_found(4) [OF assms(5) Some] by (simp add: cleanGroup'_def legal_utf8)
      note C = coh_clear [OF assms(5) Some]
      have g: "gdb s' = gdb ?s" by (rule setBP_gdb [OF p])
      then have "ids_fit (gdb s')" using f by (simp add: ids_fit_def next_db)
      then show ?thesis
        using setBP_ok [OF assms(1,2) p] C gabs_wabs [OF assms(5)] wabs_found [OF Some] g
        by (simp add: clean_spec_def next_db)
    qed
  qed
  then show "ginv Z s'" "gabs s' = (gabs s)(h := clean_spec n (gabs s h))" "coh h (getBP Z h s') (gdb s')"
    "next_groupid (gdb s') = next_groupid (gdb s)" by blast+
qed

lemma clean_spec_at: "clean_spec n m n = None \<or> clean_spec n m n = Some {}"
  by (simp add: clean_spec_def split: option.split)

lemma setBuddiesToGroup_does:
  assumes "ginv Z s" "gz_ok Z" "setBuddiesToGroup Z h n bs s = Some s'" "ids_fit (gdb s')" "legal n" "\<forall>b \<in> set bs. legal_buddy b"
  shows "does Z h (set_spec n bs) s s'"
proof -
  obtain s0 s1 where l: "locateObject Z h s = Some s0" and c: "cleanGroup' Z h n s0 = Some s1"
    using assms(3,5) by (auto simp: setBuddiesToGroup_def legal_utf8 bind_eq_Some_conv)
  note L = located_ok [OF assms(1,2) l]
  note C = cleanGroup'_ok [OF L(1) assms(2) c assms(5) L(4)]
  let ?w = "getBP Z h s1"
  show ?thesis
  proof (cases "bs = []")
    case True
    then have "s' = s1" using assms(3,5) l c by (simp add: setBuddiesToGroup_def legal_utf8)
    then show ?thesis using C True by (simp add: does_def set_spec_def L(3))
  next
    case ne: False
    have W: "gabs s1 h = wabs ?w" by (rule gabs_wabs [OF C(3)])
    have "\<exists>w. ginv Z s' \<and> gabs s' = (gabs s1)(h := w) \<and> w = (gabs s1 h)(n \<mapsto> set bs)"
    proof (cases "m_find (gvalue ?w) n")
      case None
      obtain w s2 where r: "add_new_group h n bs ?w s1 = (w, s2)" by fastforce
      then have p: "setBP Z h w (notify_im Z h bs s2) = Some s'"
        using assms(3) l c None ne by (simp add: setBuddiesToGroup_def legal_utf8 assms(5) Let_def)
      have "ids_fit (gdb s2)" using setBP_gdb [OF p] assms(4) by simp
      note N = add_new_group_ok [OF C(3) ginvD(1) [OF C(1)] this None assms(5,6) r]
      show ?thesis using setBP_ok [OF C(1) assms(2) p] N assms(4) W by simp
    next
      case (Some g)
      let ?s = "on_db (db_insert_items (map (\<lambda>b. (h, b, groupId g)) bs)) s1"
      have p: "setBP Z h (put_buddies n g bs ?w) (notify_im Z h bs ?s) = Some s'"
        using assms(3) l c Some ne by (simp add: setBuddiesToGroup_def legal_utf8 assms(5) Let_def)
      have e: "set (buddyIds g) = {}"
        using W wabs_found [OF Some] C(2) clean_spec_at [of n "gabs s0 h"] by simp
      show ?thesis using setBP_ok [OF C(1) assms(2) p] coh_join [OF C(3) Some assms(6)] assms(4) W e other_users_items by simp
    qed
    moreover have "(gabs s1 h)(n \<mapsto> set bs) = (gabs s h)(n \<mapsto> set bs)"
      using C(2) by (auto simp: clean_spec_def L(3) split: option.split)
    ultimately show ?thesis using C(2) ne by (auto simp: does_def set_spec_def L(3))
  qed
qed

lemma removeBuddyFromGroup_does:
  assumes "ginv Z s" "gz_ok Z" "removeBuddyFromGroup Z h n b s = Some s'" "ids_fit (gdb s')" "legal n"
  shows "does Z h (leave_spec n b) s s'"
proof -
  obtain s1 where l: "locateObject Z h s = Some s1" and a: "remove_from_named Z h n b s1 = Some s'"
    using assms(3,5) by (auto simp: removeBuddyFromGroup_def legal_utf8 bind_eq_Some_conv)
  note L = located_ok [OF assms(1,2) l]
  let ?w = "getBP Z h s1"
  show ?thesis
  proof (cases "m_find (gvalue ?w) n")
    case None
    then have p: "setBP Z h ?w (notify_im Z h [b] s1) = Some s'" using a by (simp add: remove_from_named_def)
    show ?thesis
      by (rule wrote [OF assms(1,2) l p]) (use L(4) assms(4) wabs_not_found [OF None] in \<open>simp_all add: leave_spec_def\<close>)
  next
    case (Some g)
    then have p: "setBP Z h (?w\<lparr>gvalue := m_put n (erase_buddy b g) (gvalue ?w)\<rparr>)
        (notify_im Z h [b] (on_db (db_delete_guest h b [groupId g]) s1)) = Some s'"
      using a by (simp add: remove_from_named_def Let_def)
    show ?thesis
      by (rule wrote [OF assms(1,2) l p])
         (use coh_leave [OF L(4) Some] assms(4) wabs_found [OF Some] in \<open>simp_all add: leave_spec_def\<close>)
  qed
qed

text \<open>The loop over all groups is one statement for all their ids.\<close>

lemma remove_buddy_loop_eq:
  "remove_buddy_loop h b v s = (map (\<lambda>e. (fst e, erase_buddy b (snd e))) v, on_db (db_delete_guest h b (map (groupId \<circ> snd) v)) s)"
proof (induction v arbitrary: s)
  case Nil
  show ?case by (simp add: on_db_def db_delete_guest_def split_def)
next
  case (Cons e v)
  have "db_delete_guest h b gs (db_delete_guest h b [g] db) = db_delete_guest h b (g # gs) db" for g gs db
  proof -
    have "filter (\<lambda>(h', b', x). \<not> (h' = h \<and> b' = b \<and> x \<in> set gs)) (filter (\<lambda>(h', b', x). \<not> (h' = h \<and> b' = b \<and> x \<in> set [g])) rs) =
        filter (\<lambda>(h', b', x). \<not> (h' = h \<and> b' = b \<and> x \<in> set (g # gs))) rs" for rs
      unfolding filter_filter by (rule filter_cong) auto
    then show ?thesis by (simp add: db_delete_guest_def)
  qed
  then show ?case by (simp add: Cons on_db_def)
qed

lemma erase_buddy_set: "set (buddyIds (erase_buddy b g)) = set (buddyIds g) - {b}"
  by (simp add: erase_buddy_def)

lemma removeBuddy_does:
  assumes "ginv Z s" "gz_ok Z" "removeBuddy Z h b s = Some s'" "ids_fit (gdb s')"
  shows "does Z h (leave_all_spec b) s s'"
proof -
  obtain s1 where l: "locateObject Z h s = Some s1" using assms(3) by (auto simp: removeBuddy_def bind_eq_Some_conv)
  note L = located_ok [OF assms(1,2) l]
  let ?w = "getBP Z h s1"
  let ?v = "map (\<lambda>e. (fst e, erase_buddy b (snd e))) (gvalue ?w)" and ?gs = "map (groupId \<circ> snd) (gvalue ?w)"
  let ?db = "db_delete_guest h b ?gs (gdb s1)"
  have p: "setBP Z h (?w\<lparr>gvalue := ?v\<rparr>) (on_db (db_delete_guest h b ?gs) s1) = Some s'"
    using assms(3) l by (simp add: removeBuddy_def remove_buddy_loop_eq Let_def)
  have find: "m_find ?v n = map_option (erase_buddy b) (m_find (gvalue ?w) n)" for n
    by (rule m_find_map)
  have o: "db_ok h ?db" by (rule db_ok_sub [OF coh_db [OF L(4)]]) (auto simp: group_db_simps)
  have "agree h ?v ?db" unfolding agree_def
  proof (intro conjI allI impI)
    fix n G assume "m_find ?v n = Some G"
    then obtain g where g: "m_find (gvalue ?w) n = Some g" "G = erase_buddy b g" by (auto simp: find)
    have "groupId g \<in> set ?gs" using g(1) m_find_in [OF coh_value [OF L(4)]] by force
    then show "(groupId G, n) \<in> rows h ?db" "s_wf (buddyIds G)" "set (buddyIds G) = members h ?db (groupId G)"
      using coh_found(1-3) [OF L(4) g(1)] g(2) by (auto simp: erase_buddy_def group_db_simps)
  next
    fix x n assume "(x, n) \<in> rows h ?db"
    then show "m_find ?v n \<noteq> None" using coh_not_found [OF L(4), of n x] by (auto simp: find group_db_simps)
  qed
  then have c: "coh h (?w\<lparr>gvalue := ?v\<rparr>) ?db" using L(4) o by (simp add: coh_def m_wf_def comp_def)
  have "leave_all_spec b (wabs ?w) = wabs (?w\<lparr>gvalue := ?v\<rparr>)"
    by (rule ext) (simp add: leave_all_spec_def wabs_def find option.map_comp comp_def erase_buddy_set)
  then show ?thesis by (intro wrote [OF assms(1,2) l p]) (use c assms(4) in simp_all)
qed

text \<open>The change of all groups of a buddy.\<close>

lemma on_db_empty:
  "on_db (db_insert_items []) s = s" "on_db (db_delete_guest h b []) s = s" "on_db (db_delete_groups h []) s = s"
  by (simp_all add: on_db_def db_insert_items_def db_delete_guest_def db_delete_groups_def split_def)

lemma gid_not_minus_one: "ids_fit (gdb s) \<Longrightarrow> fst (db_insert_groups h ns (gdb s)) \<noteq> -1"
proof -
  assume "ids_fit (gdb s)"
  then have n: "1 \<le> next_gid h (gdb s)" "next_gid h (gdb s) \<le> 2 ^ 31" by (simp_all only: ids_fit_gid)
  show ?thesis
  proof (cases "next_gid h (gdb s) = 2 ^ 31")
    case True
    then show ?thesis by (simp add: db_insert_groups_def to_int32_def)
  next
    case False
    with n show ?thesis by (simp add: db_insert_groups_def to_int32_id Let_def)
  qed
qed

text \<open>The stage that adds the new groups, without its tests for nothing to do.\<close>

lemma add_stage:
  assumes "ids_fit (gdb s)"
  shows "(if ns \<noteq> [] then let (gid, db) = db_insert_groups h ns (gdb s); s = s\<lparr>gdb := db\<rparr>
       in if gid \<noteq> -1 then (put_new_groups gid b ns v, on_db (db_insert_items (map f (number_rows gid h ns))) s) else (v, s)
     else (v, s)) =
     (let (gid, db) = db_insert_groups h ns (gdb s)
      in (put_new_groups gid b ns v, s\<lparr>gdb := db_insert_items (map f (number_rows gid h ns)) db\<rparr>))"
proof (cases "ns = []")
  case True
  then show ?thesis by (simp add: db_insert_groups_def db_insert_items_def Let_def)
next
  case False
  then show ?thesis using gid_not_minus_one [OF assms, of h ns] by (auto simp: on_db_def Let_def split_def)
qed

lemma change_groups_writes:
  assumes "ids_fit (gdb s)" "p = change_scan (gvalue (getBP Z h s)) b (s_inserts ns []) (gvalue (getBP Z h s))"
    and "\<not> (addToGroupItem p = [] \<and> deleteGroupId p = [] \<and> p_addGroup p = [])" "after_change h b p (gdb s) = (v', db')"
    and "change_groups Z from h b ns s = Some (ch, s')"
  shows "\<exists>s2. setBP Z h ((getBP Z h s)\<lparr>gvalue := v'\<rparr>) s2 = Some s' \<and> gdb s2 = db' \<and> bg_cache s2 = bg_cache s \<and> bg_tasks s2 = bg_tasks s"
proof -
  let ?s1 = "on_db (db_delete_guest h b (deleteGroupId p)) (on_db (db_insert_items (map (\<lambda>g. (h, b, g)) (addToGroupItem p))) s)"
  obtain gid db where i: "db_insert_groups h (p_addGroup p) (gdb ?s1) = (gid, db)" by fastforce
  let ?s2 = "on_db (db_delete_groups h (p_removeGroup p))
     (?s1\<lparr>gdb := db_insert_items (map ((\<lambda>g. (h, b, g)) \<circ> fst) (number_rows gid h (p_addGroup p))) db\<rparr>)"
  let ?s3 = "if notifyIm ?s2 \<and> from then changeBuddyGroupNotify h [(b, ns)] ?s2 else ?s2"
  have f: "ids_fit (gdb ?s1)" using assms(1) by (simp add: ids_fit_def next_db)
  have a: "(if addToGroupItem p \<noteq> [] then on_db (db_insert_items (map (\<lambda>g. (h, b, g)) (addToGroupItem p))) s else s) =
      on_db (db_insert_items (map (\<lambda>g. (h, b, g)) (addToGroupItem p))) s" by (simp add: on_db_empty)
  have d: "(if deleteGroupId p \<noteq> [] then on_db (db_delete_guest h b (deleteGroupId p)) t else t) =
      on_db (db_delete_guest h b (deleteGroupId p)) t" for t by (simp add: on_db_empty)
  have r: "(if p_removeGroup p \<noteq> [] then on_db (db_delete_groups h (p_removeGroup p)) t else t) =
      on_db (db_delete_groups h (p_removeGroup p)) t" for t by (simp add: on_db_empty)
  note st = add_stage [OF f, of "p_addGroup p" h b "p_value p" "(\<lambda>g. (h, b, g)) \<circ> fst", unfolded i Let_def prod.case]
  have e: "v' = foldl (\<lambda>m n. m_erase n m) (put_new_groups gid b (p_addGroup p) (p_value p)) (p_removeGroup p)" "db' = gdb ?s2"
    using assms(4) i by (auto simp: after_change_def)
  have "setBP Z h ((getBP Z h s)\<lparr>gvalue := v'\<rparr>) ?s3 = Some s'"
    using assms(5) unfolding change_groups_def Let_def assms(2) [symmetric] a d r if_not_P [OF assms(3)]
      i prod.case st e(1) by (auto simp: bind_eq_Some_conv)
  moreover have "gdb ?s3 = db' \<and> bg_cache ?s3 = bg_cache s \<and> bg_tasks ?s3 = bg_tasks s"
    by (simp add: e changeBuddyGroupNotify_def on_db_def)
  ultimately show ?thesis by blast
qed

lemma other_users_change:
  "other_users h db (db_delete_groups h ns (db_insert_items (map ((\<lambda>g. (h, b, g)) \<circ> fst) (number_rows g h ms))
     (snd (db_insert_groups h ks (db_delete_guest h b gs (db_insert_items (map (\<lambda>g. (h, b, g)) is) db))))))"
  by (rule other_users_trans [OF other_users_db(1) other_users_trans [OF other_users_db(3)
      other_users_trans [OF other_users_db(6) other_users_trans [OF other_users_db(1) other_users_db(4)]]]]) auto

lemma change_groups_ok:
  assumes "ginv Z s" "gz_ok Z" "coh h (getBP Z h s) (gdb s)" "legal_buddy b" "\<forall>n \<in> set ns. legal n"
    and "change_groups Z from h b ns s = Some (ch, s')" "ids_fit (gdb s')"
  shows "ginv Z s'" "gabs s' = (gabs s)(h := change_spec b (set ns) (gabs s h))"
proof -
  let ?w = "getBP Z h s" and ?names = "s_inserts ns []"
  let ?p = "scan_result b (set ?names) ?names (gvalue ?w)"
  have p: "change_scan (gvalue ?w) b ?names (gvalue ?w) = ?p"
    by (rule change_scan_result [OF _ coh_value [OF assms(3)]])
       (use m_find_dom [of "gvalue ?w"] in \<open>auto simp: image_iff\<close>)
  have W: "gabs s h = wabs ?w" by (rule gabs_wabs [OF assms(3)])
  have "ginv Z s' \<and> gabs s' = (gabs s)(h := change_spec b (set ns) (gabs s h))"
  proof (cases "addToGroupItem ?p = [] \<and> deleteGroupId ?p = [] \<and> p_addGroup ?p = []")
    case True
    then have "s' = s" using assms(6) unfolding change_groups_def Let_def p by simp
    moreover have "change_spec b (set ns) (wabs ?w) = wabs ?w"
      using change_nothing [OF assms(3) _ _ _ refl, of b ?names] True by simp
    ultimately show ?thesis using assms(1) W by (simp add: fun_upd_idem)
  next
    case False
    obtain v' db' where a: "after_change h b ?p (gdb s) = (v', db')" by fastforce
    obtain s2 where s2: "setBP Z h (?w\<lparr>gvalue := v'\<rparr>) s2 = Some s'" "gdb s2 = db'" "bg_cache s2 = bg_cache s" "bg_tasks s2 = bg_tasks s"
      using change_groups_writes [OF ginvD(1) [OF assms(1)] p [symmetric] False a assms(6)] by blast
    have n: "next_gid h db' = next_gid h (gdb s) + int (length (p_addGroup ?p))" and u: "other_users h (gdb s) db'"
      using a other_users_change by (auto simp: after_change_def split_def Let_def group_db_simps)
    have "next_gid h db' \<le> 2 ^ 31" using ids_fit_gid(2) [OF assms(7), of h] setBP_gdb [OF s2(1)] s2(2) by simp
    moreover have "1 \<le> int (length (p_addGroup ?p))" if "p_addGroup ?p \<noteq> []" using that by (cases "p_addGroup ?p") auto
    ultimately have "p_addGroup ?p \<noteq> [] \<longrightarrow> next_gid h (gdb s) < 2 ^ 31" using n by linarith
    then have r: "change_run h b ?names ?w (gdb s) ?p v' db'"
      using assms(3-5) a ginvD(1) [OF assms(1)] by (simp add: change_run_def)
    show ?thesis
      using setBP_ok [OF assms(1,2) s2(1,3,4)] change_coh [OF r] change_abs [OF r] u s2(2) assms(7) W by simp
  qed
  then show "ginv Z s'" "gabs s' = (gabs s)(h := change_spec b (set ns) (gabs s h))" by blast+
qed

lemma all_utf8_legal: "\<forall>n \<in> set ns. legal n \<Longrightarrow> all_utf8 ns = Some True"
  by (induction ns) (simp_all add: legal_utf8)

lemma change_located:
  assumes "ginv Z s" "gz_ok Z" "locateObject Z h s = Some s1" "legal_buddy b" "\<forall>n \<in> set ns. legal n"
    and "change_groups Z from h b ns s1 = Some (ch, s')" "ids_fit (gdb s')"
  shows "does Z h (change_spec b (set ns)) s s'"
proof -
  note L = located_ok [OF assms(1-3)]
  show ?thesis using change_groups_ok [OF L(1) assms(2) L(4) assms(4-7)] by (simp add: does_def L(3))
qed

lemma changeBuddyGroupsForWeb_does:
  assumes "ginv Z s" "gz_ok Z" "changeBuddyGroupsForWeb Z from h b ns s = Some s'" "ids_fit (gdb s')"
    and "legal_buddy b" "\<forall>n \<in> set ns. legal n"
  shows "does Z h (change_spec b (set ns)) s s'"
proof -
  obtain s1 ch where "locateObject Z h s = Some s1" "change_groups Z from h b ns s1 = Some (ch, s')"
    using assms(3) by (auto simp: changeBuddyGroupsForWeb_def all_utf8_legal [OF assms(6)] bind_eq_Some_conv)
  then show ?thesis using change_located assms by blast
qed

lemma changeBuddyGroups_does:
  assumes "ginv Z s" "gz_ok Z" "changeBuddyGroups Z rel from h b ns s = Some (r, s')" "ids_fit (gdb s')"
    and "legal_buddy b" "\<forall>n \<in> set ns. legal n"
  shows "does Z h (if rel = Friend then change_spec b (set ns) else id) s s'"
proof (cases "rel = Friend")
  case True
  obtain s1 ch where "locateObject Z h s = Some s1" "change_groups Z from h b ns s1 = Some (ch, s')"
    using assms(3) True by (auto simp: changeBuddyGroups_def all_utf8_legal [OF assms(6)] bind_eq_Some_conv)
  then show ?thesis using change_located assms True by auto
next
  case False
  then have "s' = s" using assms(3) by (simp add: changeBuddyGroups_def all_utf8_legal [OF assms(6)])
  then show ?thesis using assms(1) False by (intro does_nothing) simp_all
qed

lemma query_does:
  assumes "ginv Z s" "gz_ok Z" "locateObject Z h s = Some s'"
  shows "does Z h (\<lambda>m. m) s s'"
  using kept [OF assms] by simp

lemma load_groups_does:
  assumes "ginv Z s" "gz_ok Z" "load_groups Z h s = Some s'"
  shows "does Z h (\<lambda>m. m) s s'"
proof -
  have "locateObject Z h (s\<lparr>bg_cache := (bg_cache s)(h := None)\<rparr>) = Some s'"
    using assms(3) by (auto simp: load_groups_def locateObject_def create_def bind_eq_Some_conv Let_def split: if_splits)
  from query_does [OF evicted_ok [OF assms(1)] assms(2) this] show ?thesis by (simp add: does_def)
qed

lemma saveLoad_does:
  assumes "ginv Z s" "gz_ok Z" "saveLoad Z h s = Some s'"
  shows "does Z h (\<lambda>m. m) s s'"
proof -
  obtain s1 where l: "locateObject Z h s = Some s1" "load_groups Z h s1 = Some s'"
    using assms(3) by (auto simp: saveLoad_def load_groups_def bind_eq_Some_conv)
  from query_does [OF assms(1,2) l(1)] have "ginv Z s1" "gabs s1 = gabs s" by (simp_all add: does_def)
  with load_groups_does [OF _ assms(2) l(2)] show ?thesis by (simp add: does_def)
qed

section \<open>Refused requests\<close>

lemma not_legal: "\<not> legal n \<Longrightarrow> isUtf8 n = None \<or> isUtf8 n = Some False"
  by (cases "n = []"; cases "isUtf8 n") (auto simp: legal_def isUtf8_def)

lemma not_all_legal: "\<not> list_all legal ns \<Longrightarrow> all_utf8 ns = None \<or> all_utf8 ns = Some False"
proof (induction ns)
  case (Cons n ns)
  then show ?case using not_legal [of n] by (cases "legal n") (auto simp: legal_utf8)
qed simp

lemma refused:
  assumes "g_exec Z r s = Some s'" "\<not> list_all legal (g_names r)"
  shows "s' = s"
proof (cases r)
  case (ChangeGroups rel frm h b ns)
  then show ?thesis using assms not_all_legal [of ns] by (auto simp: g_exec_def changeBuddyGroups_def)
next
  case (ChangeForWeb frm h b ns)
  then show ?thesis using assms not_all_legal [of ns] by (auto simp: g_exec_def changeBuddyGroupsForWeb_def)
next
  case (RenameGroup h old new)
  then show ?thesis using assms not_legal [of old] not_legal [of new]
    by (cases "legal old") (auto simp: g_exec_def renameGroup_def legal_utf8)
qed (use assms in \<open>auto simp: g_exec_def addGroup_def removeGroup_def removeGroupForce_def cleanGroup_def addBuddyToGroup_def
    addBuddiesToGroup_def setBuddiesToGroup_def removeBuddyFromGroup_def dest!: not_legal\<close>)

section \<open>Requests by id\<close>

text \<open>
  The requests by id that do what the request by name does, when the map of ids of the object gives the id a name and the group of this
  name has the id. (Setting buddies by id and changing by ids do not, see \<open>set_by_id_keeps_old\<close> and \<open>change_by_ids_clears\<close>.)
\<close>

definition id_known :: "int \<Rightarrow> string \<Rightarrow> GroupMapWrapper \<Rightarrow> bool" where
  "id_known i n w \<longleftrightarrow> m_find (idmap w) i = Some n \<and> (case m_find (gvalue w) n of None \<Rightarrow> False | Some g \<Rightarrow> groupId g = i)"

lemma by_id_as_by_name:
  assumes "locateObject Z h s = Some t" "id_known i n (getBP Z h t)" "i \<noteq> -1" "isUtf8 n = Some True"
  shows "n \<noteq> new \<Longrightarrow> renameGroupWithGid Z h i new s = renameGroup Z h n new s"
    "isUtf8 n = Some True \<Longrightarrow> renameGroupWithGid Z h i n s = Some t"
    "removeGroupWithGid Z h i s = removeGroup Z h n s"
    "cleanGroupWithGid Z h i s = cleanGroup Z h n s"
    "addBuddyToGroupWithGid Z h i b s = addBuddyToGroup Z h n b s"
    "addBuddiesToGroupWithGid Z h i bs s = addBuddiesToGroup Z h n bs s"
    "removeBuddyFromGroupWithGid Z h i b s = removeBuddyFromGroup Z h n b s"
proof -
  obtain g where g: "m_find (idmap (getBP Z h t)) i = Some n" "m_find (gvalue (getBP Z h t)) n = Some g" "groupId g = i"
    using assms(2) by (auto simp: id_known_def split: option.splits)
  note d = assms(1) g assms(3,4) Let_def name_of_def buddies_of_def
  show "isUtf8 n = Some True \<Longrightarrow> renameGroupWithGid Z h i n s = Some t" by (simp add: d renameGroupWithGid_def)
  show "n \<noteq> new \<Longrightarrow> renameGroupWithGid Z h i new s = renameGroup Z h n new s"
    by (cases "isUtf8 new") (simp_all add: d renameGroupWithGid_def renameGroup_def)
  show "removeGroupWithGid Z h i s = removeGroup Z h n s" by (simp add: d removeGroupWithGid_def removeGroup_def)
  show "cleanGroupWithGid Z h i s = cleanGroup Z h n s" by (simp add: d cleanGroupWithGid_def cleanGroup_def)
  show "addBuddyToGroupWithGid Z h i b s = addBuddyToGroup Z h n b s" by (simp add: d addBuddyToGroupWithGid_def addBuddyToGroup_def)
  show "addBuddiesToGroupWithGid Z h i bs s = addBuddiesToGroup Z h n bs s"
    by (simp add: d addBuddiesToGroupWithGid_def addBuddiesToGroup_def)
  show "removeBuddyFromGroupWithGid Z h i b s = removeBuddyFromGroup Z h n b s"
    by (simp add: d removeBuddyFromGroupWithGid_def removeBuddyFromGroup_def)
qed

text \<open>The handler by id of a request.\<close>

definition g_exec_gid :: "Gzip \<Rightarrow> int \<Rightarrow> GReq \<Rightarrow> BGServer \<Rightarrow> BGServer option" where
  "g_exec_gid Z i r s =
     (case r of
        RenameGroup h n new \<Rightarrow> renameGroupWithGid Z h i new s
      | RemoveGroup h n \<Rightarrow> removeGroupWithGid Z h i s
      | CleanGroup h n \<Rightarrow> cleanGroupWithGid Z h i s
      | AddBuddy h n b \<Rightarrow> addBuddyToGroupWithGid Z h i b s
      | AddBuddies h n bs \<Rightarrow> addBuddiesToGroupWithGid Z h i bs s
      | RemoveFromGroup h n b \<Rightarrow> removeBuddyFromGroupWithGid Z h i b s
      | _ \<Rightarrow> None)"

lemma exec_gid:
  assumes "ginv Z s" "gz_ok Z" "locateObject Z (g_host r) s = Some t" "id_known i (hd (g_names r)) (getBP Z (g_host r) t)"
  shows "g_exec_gid Z i r s = None \<or> g_exec_gid Z i r s = g_exec Z r s \<or>
    (\<exists>h n. r = RenameGroup h n n \<and> legal n \<and> g_exec_gid Z i r s = Some t)"
proof -
  note c = located_ok(4) [OF assms(1-3)]
  obtain g where "m_find (gvalue (getBP Z (g_host r) t)) (hd (g_names r)) = Some g" "groupId g = i"
    using assms(4) by (auto simp: id_known_def split: option.splits)
  then have l: "legal (hd (g_names r))" "1 \<le> i" using coh_found(4,6) [OF c] by auto
  then have n: "i \<noteq> -1" "isUtf8 (hd (g_names r)) = Some True" by (simp_all add: legal_utf8)
  note B = by_id_as_by_name [OF assms(3,4) n]
  show ?thesis
  proof (cases r)
    case (RenameGroup h old new)
    then show ?thesis using B(1) [of new] B(2) [OF n(2)] l(1) by (cases "old = new") (simp_all add: g_exec_gid_def g_exec_def)
  qed (use B in \<open>simp_all add: g_exec_gid_def g_exec_def\<close>)
qed

section \<open>Runs\<close>

text \<open>
  One request of a run: it has a result, the run allows it, and the ids of the tables still fit. A request by a known id counts as the
  request by name.
\<close>

inductive g_step :: "Gzip \<Rightarrow> GReq \<Rightarrow> BGServer \<Rightarrow> BGServer \<Rightarrow> bool" for Z where
  g_step: "g_exec Z r s = Some s' \<Longrightarrow> g_ok r (gabs s (g_host r)) \<Longrightarrow> ids_fit (gdb s') \<Longrightarrow> g_step Z r s s'"
| g_step_gid: "g_exec_gid Z i r s = Some s' \<Longrightarrow> locateObject Z (g_host r) s = Some t \<Longrightarrow>
    id_known i (hd (g_names r)) (getBP Z (g_host r) t) \<Longrightarrow> g_ok r (gabs s (g_host r)) \<Longrightarrow> ids_fit (gdb s') \<Longrightarrow> g_step Z r s s'"

inductive g_run :: "Gzip \<Rightarrow> BGServer \<Rightarrow> GReq list \<Rightarrow> BGServer \<Rightarrow> bool" for Z s where
  g_start: "g_run Z s [] s"
| g_more: "g_run Z s rs s1 \<Longrightarrow> g_step Z r s1 s2 \<Longrightarrow> g_run Z s (rs @ [r]) s2"

inductive_cases g_stepE: "g_step Z r s s'"

lemma exec_does:
  assumes x: "g_exec Z r s = Some s'" and ok: "g_ok r (gabs s (g_host r))" and f: "ids_fit (gdb s')" and n: "list_all legal (g_names r)"
    and "ginv Z s" "gz_ok Z"
  shows "does Z (g_host r) (g_change r) s s'"
proof -
  show ?thesis
  proof (cases r)
    case (AddGroup h n)
    then show ?thesis using addGroup_does [OF assms(5,6) _ f] x ok n by (simp add: g_exec_def does_def list_all_iff)
  next
    case (RenameGroup h old new)
    then show ?thesis using renameGroup_does [OF assms(5,6) _ f] x ok n by (simp add: g_exec_def does_def list_all_iff)
  next
    case (RemoveGroup h n)
    then show ?thesis using removeGroup_does [OF assms(5,6) _ f] x ok n by (simp add: g_exec_def does_def list_all_iff)
  next
    case (RemoveGroupForce h n)
    then show ?thesis using removeGroupForce_does [OF assms(5,6) _ f] x ok n by (simp add: g_exec_def does_def list_all_iff)
  next
    case (CleanGroup h n)
    then show ?thesis using cleanGroup_does [OF assms(5,6) _ f] x ok n by (simp add: g_exec_def does_def list_all_iff)
  next
    case (AddBuddy h n b)
    then show ?thesis using addBuddyToGroup_does [OF assms(5,6) _ f] x ok n by (simp add: g_exec_def does_def list_all_iff)
  next
    case (AddBuddies h n bs)
    then show ?thesis using addBuddiesToGroup_does [OF assms(5,6) _ f] x ok n by (simp add: g_exec_def does_def list_all_iff)
  next
    case (SetBuddies h n bs)
    then show ?thesis using setBuddiesToGroup_does [OF assms(5,6) _ f] x ok n by (simp add: g_exec_def does_def list_all_iff)
  next
    case (RemoveFromGroup h n b)
    then show ?thesis using removeBuddyFromGroup_does [OF assms(5,6) _ f] x ok n by (simp add: g_exec_def does_def list_all_iff)
  next
    case (RemoveBuddy h b)
    then show ?thesis using removeBuddy_does [OF assms(5,6) _ f] x by (simp add: g_exec_def does_def)
  next
    case (ChangeGroups rel frm h b ns)
    then obtain v where "changeBuddyGroups Z rel frm h b ns s = Some (v, s')" using x by (auto simp: g_exec_def)
    then show ?thesis
      using changeBuddyGroups_does [OF assms(5,6) _ f] ok n ChangeGroups by (fastforce simp: does_def list_all_iff)
  next
    case (ChangeForWeb frm h b ns)
    then show ?thesis using changeBuddyGroupsForWeb_does [OF assms(5,6) _ f] x ok n by (simp add: g_exec_def does_def list_all_iff)
  next
    case (Load h)
    then show ?thesis using load_groups_does [OF assms(5,6)] x by (simp add: g_exec_def does_def)
  next
    case (SaveLoad h)
    then show ?thesis using saveLoad_does [OF assms(5,6)] x by (simp add: g_exec_def does_def)
  next
    case (Query h)
    then show ?thesis using query_does [OF assms(5,6)] x by (simp add: g_exec_def does_def)
  next
    case (Evict h)
    then have "s' = s\<lparr>bg_cache := (bg_cache s)(h := None)\<rparr>" using x by (simp add: g_exec_def)
    then show ?thesis using Evict evicted_ok [OF assms(5)] by (simp add: does_def)
  qed
qed

lemma allowed_does:
  assumes x: "g_exec Z r s = Some s'" and ok: "g_ok r (gabs s (g_host r))" and f: "ids_fit (gdb s')" and "ginv Z s" "gz_ok Z"
  shows "does Z (g_host r) (g_spec r) s s'"
proof (cases "list_all legal (g_names r)")
  case True
  then show ?thesis using exec_does [OF x ok f True assms(4,5)] by (simp add: g_spec_def [abs_def])
next
  case False
  then show ?thesis using refused [OF x False] assms(4) by (intro does_nothing) (simp_all add: g_spec_def)
qed

lemma step_does:
  assumes "g_step Z r s s'" "ginv Z s" "gz_ok Z"
  shows "does Z (g_host r) (g_spec r) s s'"
  using assms(1)
proof cases
  case g_step
  then show ?thesis using allowed_does assms(2,3) by blast
next
  case (g_step_gid i t)
  then consider "g_exec Z r s = Some s'" | h n where "r = RenameGroup h n n" "legal n" "s' = t"
    using exec_gid [OF assms(2,3) g_step_gid(2,3)] by auto
  then show ?thesis
  proof cases
    case 1
    then show ?thesis using allowed_does g_step_gid assms(2,3) by blast
  next
    case 2
    then show ?thesis using query_does [OF assms(2,3) g_step_gid(2)]
      by (simp add: does_def g_spec_def rename_spec_def split: option.split)
  qed
qed

text \<open>Tables in order and nothing in the cache.\<close>

definition g_initial :: "BGServer \<Rightarrow> bool" where
  "g_initial s \<longleftrightarrow> ids_fit (gdb s) \<and> (\<forall>h. db_ok h (gdb s)) \<and> bg_cache s = Map.empty \<and> bg_tasks s = []"

lemma run_does:
  "g_run Z s rs s' \<Longrightarrow> g_initial s \<Longrightarrow> gz_ok Z \<Longrightarrow>
   ginv Z s' \<and> gabs s' = (\<lambda>h. foldl (\<lambda>m r. if g_host r = h then g_spec r m else m) (gabs s h) rs)"
proof (induction rule: g_run.induct)
  case g_start
  then show ?case by (simp add: g_initial_def ginv_def fun_eq_iff)
next
  case (g_more rs s1 r s2)
  then have "does Z (g_host r) (g_spec r) s1 s2" using step_does by blast
  moreover have "gabs s1 = (\<lambda>h. foldl (\<lambda>m r. if g_host r = h then g_spec r m else m) (gabs s h) rs)" using g_more by blast
  ultimately show ?case by (simp add: does_def) (rule ext, simp)
qed

end
