(* ===== verification/GroupAnswers.thy ===== *)
theory GroupAnswers
  imports GroupRefine
begin

text \<open>
  The answers of the queries in terms of the groups as the outside sees them, the requests by id against the
  requests by name, and the properties of the server of friend groups.
\<close>

section \<open>Answers\<close>

lemma m_insert_wf: "m_wf m \<Longrightarrow> m_wf (m_insert k v m)"
  by (simp add: m_insert_def m_put_wf split: option.split)

lemma m_insert_find: "m_wf m \<Longrightarrow> m_find (m_insert k v m) x = (if x = k \<and> m_find m k = None then Some v else m_find m x)"
  by (auto simp: m_insert_def m_put_find split: option.split)

text \<open>A loop over the groups that enters at most one value per key.\<close>

lemma insert_loop:
  assumes "m_wf r" "\<forall>e \<in> set es. \<forall>e' \<in> set es. k e = k e' \<longrightarrow> v e = v e'" "\<forall>e \<in> set es. m_find r (k e) \<in> {None, Some (v e)}"
  shows "m_wf (foldl (\<lambda>m e. m_insert (k e) (v e) m) r es) \<and>
    (\<forall>x y. m_find (foldl (\<lambda>m e. m_insert (k e) (v e) m) r es) x = Some y \<longleftrightarrow> m_find r x = Some y \<or> (\<exists>e \<in> set es. k e = x \<and> v e = y))"
  using assms
proof (induction es arbitrary: r)
  case (Cons e es)
  have w: "m_wf (m_insert (k e) (v e) r)" by (rule m_insert_wf [OF Cons.prems(1)])
  have f: "m_find (m_insert (k e) (v e) r) x = Some y \<longleftrightarrow> m_find r x = Some y \<or> k e = x \<and> v e = y" for x y
    using Cons.prems(3) by (auto simp: m_insert_find [OF Cons.prems(1)])
  have "m_find (m_insert (k e) (v e) r) (k e') \<in> {None, Some (v e')}" if "e' \<in> set es" for e'
  proof -
    have "k e' = k e \<longrightarrow> v e' = v e" "m_find r (k e') \<in> {None, Some (v e')}" using Cons.prems(2,3) that by (metis list.set_intros)+
    then show ?thesis by (auto simp: m_insert_find [OF Cons.prems(1)])
  qed
  then have p: "\<forall>e' \<in> set es. m_find (m_insert (k e) (v e) r) (k e') \<in> {None, Some (v e')}" by blast
  have "\<forall>e \<in> set es. \<forall>e' \<in> set es. k e = k e' \<longrightarrow> v e = v e'" using Cons.prems(2) by (metis list.set_intros(2))
  note IH = Cons.IH [OF w this p]
  show ?case unfolding foldl_Cons using IH unfolding f list.set bex_simps by blast
qed simp

lemma put_loop:
  assumes "m_wf r" "\<forall>e \<in> set es. \<forall>e' \<in> set es. k e = k e' \<longrightarrow> v e = v e'"
  shows "m_wf (foldl (\<lambda>m e. m_put (k e) (v e) m) r es) \<and>
    (\<forall>x y. m_find (foldl (\<lambda>m e. m_put (k e) (v e) m) r es) x = Some y \<longleftrightarrow>
       (if x \<in> k ` set es then \<exists>e \<in> set es. k e = x \<and> v e = y else m_find r x = Some y))"
  using assms
proof (induction es arbitrary: r)
  case (Cons e es)
  have w: "m_wf (m_put (k e) (v e) r)" by (rule m_put_wf [OF Cons.prems(1)])
  have k: "\<forall>e \<in> set es. \<forall>e' \<in> set es. k e = k e' \<longrightarrow> v e = v e'" and "\<forall>e' \<in> set es. k e' = k e \<longrightarrow> v e' = v e"
    using Cons.prems(2) by (metis list.set_intros)+
  note IH = Cons.IH [OF w k]
  show ?case
  proof (intro conjI allI)
    show "m_wf (foldl (\<lambda>m e. m_put (k e) (v e) m) r (e # es))" using IH by simp
    fix x y
    have "m_find (foldl (\<lambda>m e. m_put (k e) (v e) m) r (e # es)) x = Some y \<longleftrightarrow>
        (if x \<in> k ` set es then \<exists>e \<in> set es. k e = x \<and> v e = y else if x = k e then v e = y else m_find r x = Some y)"
      using IH by (simp add: m_put_find [OF Cons.prems(1)])
    also have "\<dots> \<longleftrightarrow> (if x \<in> k ` set (e # es) then \<exists>e \<in> set (e # es). k e = x \<and> v e = y else m_find r x = Some y)"
      using \<open>\<forall>e' \<in> set es. k e' = k e \<longrightarrow> v e' = v e\<close> by auto
    finally show "m_find (foldl (\<lambda>m e. m_put (k e) (v e) m) r (e # es)) x = Some y \<longleftrightarrow>
        (if x \<in> k ` set (e # es) then \<exists>e \<in> set (e # es). k e = x \<and> v e = y else m_find r x = Some y)" .
  qed
qed simp

lemma m_nil [simp]: "m_wf []" "m_find [] x = None"
  by (simp_all add: m_wf_def m_find_def)

lemma insert_loop_nil:
  assumes "\<forall>e \<in> set es. \<forall>e' \<in> set es. k e = k e' \<longrightarrow> v e = v e'"
  shows "m_find (foldl (\<lambda>m e. m_insert (k e) (v e) m) [] es) x = Some y \<longleftrightarrow> (\<exists>e \<in> set es. k e = x \<and> v e = y)"
proof -
  have "\<forall>e \<in> set es. m_find [] (k e) \<in> {None, Some (v e)}" by simp
  from conjunct2 [OF insert_loop [OF m_nil(1) assms this], rule_format, of x y] show ?thesis by simp
qed

lemma put_loop_nil:
  assumes "\<forall>e \<in> set es. \<forall>e' \<in> set es. k e = k e' \<longrightarrow> v e = v e'"
  shows "m_find (foldl (\<lambda>m e. m_put (k e) (v e) m) [] es) x = Some y \<longleftrightarrow> (\<exists>e \<in> set es. k e = x \<and> v e = y)"
  using conjunct2 [OF put_loop [OF m_nil(1) assms], rule_format, of x y] by (auto split: if_splits)

lemma groups_with_set: "m_wf (gvalue w) \<Longrightarrow> set (groups_with b w) = {n. \<exists>B. wabs w n = Some B \<and> b \<in> B}"
  by (force simp: groups_with_def wabs_def m_find_in)

lemma sorted_names: "m_wf (gvalue w) \<Longrightarrow> s_wf (map fst (filter P (gvalue w)))"
  unfolding m_wf_def sorted_wrt_map by (rule sorted_wrt_filter)

lemma page_loop_skip: "0 \<le> i \<Longrightarrow> i \<le> bgn \<Longrightarrow> page_loop bgn lim i bs = page_loop bgn lim bgn (drop (nat (bgn - i)) bs)"
proof (induction bs arbitrary: i)
  case (Cons b bs)
  show ?case
  proof (cases "i = bgn")
    case False
    then have "nat (bgn - i) = Suc (nat (bgn - (i + 1)))" using Cons.prems by simp
    with False Cons show ?thesis by simp
  qed simp
qed simp

lemma page_loop_take:
  "bgn \<le> i \<Longrightarrow> to_int32 (bgn + lim) = bgn + lim \<Longrightarrow>
   page_loop bgn lim i bs = (if lim < 0 then bs else take (nat (bgn + lim - i)) bs)"
proof (induction bs arbitrary: i)
  case (Cons b bs)
  show ?case
  proof (cases "0 \<le> lim \<and> i < bgn + lim")
    case True
    then have "nat (bgn + lim - i) = Suc (nat (bgn + lim - (i + 1)))"
      by (subst Suc_nat_eq_nat_zadd1) (auto simp: algebra_simps)
    with True Cons show ?thesis by simp
  next
    case False
    with Cons show ?thesis by auto
  qed
qed simp

text \<open>A page of the list of buddies.\<close>

definition page :: "int \<Rightarrow> int \<Rightarrow> 'a list \<Rightarrow> 'a list" where
  "page bgn lim xs = (let ys = drop (nat bgn) xs in if lim < 0 then ys else take (nat lim) ys)"

lemma page_loop_page: "to_int32 (max 0 bgn + lim) = max 0 bgn + lim \<Longrightarrow>
   page_loop (if bgn < 0 then 0 else bgn) lim 0 bs = page bgn lim bs"
  using page_loop_skip [of 0 "max 0 bgn" lim bs] page_loop_take [of "max 0 bgn" "max 0 bgn" lim "drop (nat (max 0 bgn)) bs"]
  by (auto simp: page_def max_def)

lemma getBuddyList_page:
  assumes "to_int32 (max 0 bgn + lim) = max 0 bgn + lim" "m_find (gvalue w) n = Some g"
  shows "getBuddyList n bgn lim w = page bgn lim (buddyIds g)"
  using assms page_loop_page by (simp add: getBuddyList_def)

lemma buddied_loop_ok:
  "m_wf r \<Longrightarrow> s_wf is \<Longrightarrow> m_wf (buddied_loop is n r) \<and>
   m_find (buddied_loop is n r) = (\<lambda>i. if i \<in> set is then Some ((case m_find r i of Some ns \<Rightarrow> ns | None \<Rightarrow> []) @ [n]) else m_find r i)"
proof (induction "is" arbitrary: r)
  case (Cons i "is")
  then have "i \<notin> set is" by auto
  with Cons show ?case by (auto simp: m_put_wf m_put_find fun_eq_iff)
qed (simp add: fun_eq_iff)

lemma buddied_fold:
  "m_wf r \<Longrightarrow> \<forall>e \<in> set es. s_wf (buddyIds (snd e)) \<Longrightarrow>
   m_find (foldl (\<lambda>r e. buddied_loop (buddyIds (snd e)) (fst e) r) r es) b =
     (let ns = (case m_find r b of Some ns \<Rightarrow> ns | None \<Rightarrow> []) @ map fst (filter (\<lambda>e. b \<in> set (buddyIds (snd e))) es)
      in if ns = [] \<and> m_find r b = None then None else Some ns)"
proof (induction es arbitrary: r)
  case (Cons e es)
  let ?r = "buddied_loop (buddyIds (snd e)) (fst e) r"
  have b: "m_wf ?r" "m_find ?r b = (if b \<in> set (buddyIds (snd e)) then Some ((case m_find r b of Some ns \<Rightarrow> ns | None \<Rightarrow> []) @ [fst e]) else m_find r b)"
    using buddied_loop_ok [of r "buddyIds (snd e)" "fst e"] Cons.prems by simp_all
  show ?case using Cons.IH [OF b(1)] Cons.prems b(2) by (auto simp: Let_def)
qed (simp add: Let_def split: option.split)

lemma getBuddiedGroupsMap_exact:
  assumes "m_wf (gvalue w)" "\<forall>e \<in> set (gvalue w). s_wf (buddyIds (snd e))"
  shows "m_find (getBuddiedGroupsMap w) b = (if groups_with b w = [] then None else Some (groups_with b w))"
  using buddied_fold [of "[]" "gvalue w" b] assms(2) by (simp add: getBuddiedGroupsMap_def groups_with_def m_wf_def m_find_def Let_def)

text \<open>Every group of agreeing data, with its id, its name and its members.\<close>

lemma coh_entries:
  assumes "coh h w db"
  shows "e \<in> set (gvalue w) \<longleftrightarrow> m_find (gvalue w) (fst e) = Some (snd e)"
    "e \<in> set (gvalue w) \<Longrightarrow> e' \<in> set (gvalue w) \<Longrightarrow> groupId (snd e) = groupId (snd e') \<Longrightarrow> e = e'"
    "e \<in> set (gvalue w) \<Longrightarrow> s_wf (buddyIds (snd e))"
    "(x, n) \<in> rows h db \<longleftrightarrow> (\<exists>e \<in> set (gvalue w). groupId (snd e) = x \<and> fst e = n)"
proof -
  show i: "e \<in> set (gvalue w) \<longleftrightarrow> m_find (gvalue w) (fst e) = Some (snd e)" for e
    using m_find_in [OF coh_value [OF assms], of "fst e" "snd e"] by simp
  show "e = e'" if "e \<in> set (gvalue w)" "e' \<in> set (gvalue w)" "groupId (snd e) = groupId (snd e')" for e'
    using that coh_same_id [OF assms, of "fst e" "snd e" "fst e'" "snd e'"] i by (metis option.inject prod_eqI)
  show "e \<in> set (gvalue w) \<Longrightarrow> s_wf (buddyIds (snd e))" using coh_found(2) [OF assms] i by blast
  show "(x, n) \<in> rows h db \<longleftrightarrow> (\<exists>e \<in> set (gvalue w). groupId (snd e) = x \<and> fst e = n)"
  proof
    assume r: "(x, n) \<in> rows h db"
    then obtain g where g: "m_find (gvalue w) n = Some g" using coh_not_found [OF assms] by blast
    then have "groupId g = x" using db_ok_one [OF coh_db [OF assms] coh_found(1) [OF assms g] r] by simp
    then show "\<exists>e \<in> set (gvalue w). groupId (snd e) = x \<and> fst e = n" using i [of "(n, g)"] g by force
  next
    assume "\<exists>e \<in> set (gvalue w). groupId (snd e) = x \<and> fst e = n"
    then show "(x, n) \<in> rows h db" using i coh_found(1) [OF assms] by blast
  qed
qed

lemma getGroupListData_exact:
  assumes "coh h w db"
  shows "m_find (getGroupListData w) x = Some n \<longleftrightarrow> (x, n) \<in> rows h db"
proof -
  have "\<forall>e \<in> set (gvalue w). \<forall>e' \<in> set (gvalue w). groupId (snd e) = groupId (snd e') \<longrightarrow> fst e = fst e'"
    using coh_entries(2) [OF assms] by blast
  then have "m_find (foldl (\<lambda>m e. m_insert (groupId (snd e)) (fst e) m) [] (gvalue w)) x = Some n \<longleftrightarrow>
      (\<exists>e \<in> set (gvalue w). groupId (snd e) = x \<and> fst e = n)"
    by (rule insert_loop_nil)
  then show ?thesis unfolding getGroupListData_def coh_entries(4) [OF assms] .
qed

lemma getBuddyGroupsData_exact:
  assumes "coh h w db"
  shows "m_find (getBuddyGroupsData b w) x = Some n \<longleftrightarrow> (x, n) \<in> rows h db \<and> (b, x) \<in> items h db"
proof -
  let ?es = "filter (\<lambda>e. b \<in> set (buddyIds (snd e))) (gvalue w)"
  have e: "foldl (\<lambda>m e. if P e then f e m else m) r es = foldl (\<lambda>m e. f e m) r (filter P es)" for P f r and es :: "(string \<times> BuddyGroup) list"
    by (induction es arbitrary: r) simp_all
  have "\<forall>e \<in> set ?es. \<forall>e' \<in> set ?es. groupId (snd e) = groupId (snd e') \<longrightarrow> fst e = fst e'"
    using coh_entries(2) [OF assms] by (simp only: set_filter mem_Collect_eq) blast
  then have "m_find (getBuddyGroupsData b w) x = Some n \<longleftrightarrow> (\<exists>e \<in> set ?es. groupId (snd e) = x \<and> fst e = n)"
    unfolding getBuddyGroupsData_def e by (rule insert_loop_nil)
  moreover have "b \<in> set (buddyIds (snd e)) \<longleftrightarrow> (b, groupId (snd e)) \<in> items h db" if "e \<in> set (gvalue w)" for e
    using coh_found(3) [OF assms, of "fst e" "snd e"] coh_entries(1) [OF assms] that by auto
  ultimately show ?thesis unfolding coh_entries(4) [OF assms] set_filter by blast
qed

lemma counts_exact:
  assumes "coh h w db"
  shows "getCountByGroup n w = (case wabs w n of Some B \<Rightarrow> int (card B) | None \<Rightarrow> 0)"
    "m_find (getAllGroupsBuddyCount w) n = map_option (\<lambda>B. int (card B)) (wabs w n)"
proof -
  have c: "int (length (buddyIds g)) = int (card (set (buddyIds g)))" if "m_find (gvalue w) n = Some g" for g n
    using coh_found(2) [OF assms that] by (simp add: distinct_card strict_sorted_iff)
  then show "getCountByGroup n w = (case wabs w n of Some B \<Rightarrow> int (card B) | None \<Rightarrow> 0)"
    by (simp add: getCountByGroup_def wabs_def split: option.split)
  have "\<forall>e \<in> set (gvalue w). \<forall>e' \<in> set (gvalue w). fst e = fst e' \<longrightarrow> int (length (buddyIds (snd e))) = int (length (buddyIds (snd e')))"
    using coh_entries(1) [OF assms] by (metis option.inject)
  then have p: "m_find (getAllGroupsBuddyCount w) n = Some y \<longleftrightarrow> (\<exists>e \<in> set (gvalue w). fst e = n \<and> int (length (buddyIds (snd e))) = y)" for y
    unfolding getAllGroupsBuddyCount_def by (rule put_loop_nil)
  show "m_find (getAllGroupsBuddyCount w) n = map_option (\<lambda>B. int (card B)) (wabs w n)"
  proof (cases "m_find (gvalue w) n")
    case None
    then have "m_find (getAllGroupsBuddyCount w) n \<noteq> Some y" for y using p [of y] coh_entries(1) [OF assms] by auto
    with None show ?thesis by (simp add: wabs_def) (meson not_Some_eq)
  next
    case (Some g)
    then have "(n, g) \<in> set (gvalue w)" using coh_entries(1) [OF assms, of "(n, g)"] by simp
    then have "m_find (getAllGroupsBuddyCount w) n = Some (int (length (buddyIds g)))" using p by force
    with Some c [OF Some] show ?thesis by (simp add: wabs_def)
  qed
qed

lemma countData_exact:
  assumes "coh h w db"
  shows "m_find (getAllGroupsBuddyCountData w) x = Some k \<longleftrightarrow> (\<exists>n. (x, n) \<in> rows h db) \<and> k = int (card (members h db x))"
proof -
  have c: "int (length (buddyIds (snd e))) = int (card (members h db (groupId (snd e))))" if "e \<in> set (gvalue w)" for e
    using coh_found(2,3) [OF assms, of "fst e" "snd e"] that coh_entries(1) [OF assms]
    by (metis distinct_card strict_sorted_iff)
  have "\<forall>e \<in> set (gvalue w). \<forall>e' \<in> set (gvalue w). groupId (snd e) = groupId (snd e') \<longrightarrow>
      int (length (buddyIds (snd e))) = int (length (buddyIds (snd e')))"
    using coh_entries(2) [OF assms] by blast
  then have "m_find (getAllGroupsBuddyCountData w) x = Some k \<longleftrightarrow> (\<exists>e \<in> set (gvalue w). groupId (snd e) = x \<and> int (length (buddyIds (snd e))) = k)"
    unfolding getAllGroupsBuddyCountData_def by (rule put_loop_nil)
  also have "\<dots> \<longleftrightarrow> (\<exists>e \<in> set (gvalue w). groupId (snd e) = x) \<and> k = int (card (members h db x))" using c by auto
  finally show ?thesis unfolding coh_entries(4) [OF assms] by auto
qed

lemma buddy_groups_loop_ok:
  "m_wf r \<Longrightarrow> s_wf is \<Longrightarrow> m_wf (buddy_groups_loop is g n r) \<and>
   m_find (buddy_groups_loop is g n r) =
     (\<lambda>i. if i \<in> set is then Some (m_insert g n (case m_find r i of Some m \<Rightarrow> m | None \<Rightarrow> [])) else m_find r i)"
proof (induction "is" arbitrary: r)
  case (Cons i "is")
  then have "i \<notin> set is" by auto
  with Cons show ?case by (auto simp: m_put_wf m_put_find fun_eq_iff)
qed (simp add: fun_eq_iff)

lemma buddy_groups_fold:
  "m_wf r \<Longrightarrow> \<forall>e \<in> set es. s_wf (buddyIds (snd e)) \<Longrightarrow>
   m_find (foldl (\<lambda>r e. buddy_groups_loop (buddyIds (snd e)) (groupId (snd e)) (fst e) r) r es) b =
     (if m_find r b = None \<and> (\<forall>e \<in> set es. b \<notin> set (buddyIds (snd e))) then None
      else Some (foldl (\<lambda>m e. if b \<in> set (buddyIds (snd e)) then m_insert (groupId (snd e)) (fst e) m else m)
        (case m_find r b of Some m \<Rightarrow> m | None \<Rightarrow> []) es))"
proof (induction es arbitrary: r)
  case (Cons e es)
  let ?r = "buddy_groups_loop (buddyIds (snd e)) (groupId (snd e)) (fst e) r"
  have b: "m_wf ?r" "m_find ?r b = (if b \<in> set (buddyIds (snd e))
      then Some (m_insert (groupId (snd e)) (fst e) (case m_find r b of Some m \<Rightarrow> m | None \<Rightarrow> [])) else m_find r b)"
    using buddy_groups_loop_ok [of r "buddyIds (snd e)" "groupId (snd e)" "fst e"] Cons.prems by simp_all
  show ?case using Cons.IH [OF b(1)] Cons.prems(2) b(2) by auto
qed (simp split: option.split)

lemma getBuddyGroupsMap_exact:
  assumes "\<forall>e \<in> set (gvalue w). s_wf (buddyIds (snd e))"
  shows "m_find (getBuddyGroupsMap w) b = (if groups_with b w = [] then None else Some (getBuddyGroupsData b w))"
  using buddy_groups_fold [OF m_nil(1) assms, of b]
  by (simp add: getBuddyGroupsMap_def getBuddyGroupsData_def groups_with_def filter_empty_conv)

end
