(* ===== verification/GroupTheorems.thy ===== *)
theory GroupTheorems
  imports GroupAnswers
begin

text \<open>
  The properties of the server of the friend groups, with a run of it played on concrete requests.
\<close>

section \<open>Playing a run\<close>

definition g_okb :: "GReq \<Rightarrow> BGServer \<Rightarrow> bool" where
  "g_okb r s \<longleftrightarrow> (case r of AddGroup h n \<Rightarrow> gid_of h (gdb s) n = None | _ \<Rightarrow> g_ok r Map.empty)"

lemma g_okb_ok: "g_okb r s \<Longrightarrow> g_ok r (gabs s (g_host r))"
  by (cases r) (simp_all add: g_okb_def gabs_def dbabs_def)

primrec g_play :: "Gzip \<Rightarrow> GReq list \<Rightarrow> BGServer \<Rightarrow> BGServer option" where
  "g_play Z [] s = Some s"
| "g_play Z (r # rs) s =
     (if g_okb r s
      then case g_exec Z r s of None \<Rightarrow> None | Some s' \<Rightarrow> if ids_fit (gdb s') then g_play Z rs s' else None
      else None)"

lemma g_run_Cons: "g_step Z r s s1 \<Longrightarrow> g_run Z s1 rs s' \<Longrightarrow> g_run Z s (r # rs) s'"
proof -
  assume r: "g_run Z s1 rs s'" and s: "g_step Z r s s1"
  from r show ?thesis
  proof (induction rule: g_run.induct)
    case g_start
    show ?case using g_more [OF g_run.g_start s] by simp
  next
    case (g_more rs s1 r' s2)
    then show ?case using g_run.g_more by fastforce
  qed
qed

lemma g_play_run: "g_play Z rs s = Some s' \<Longrightarrow> g_run Z s rs s'"
proof (induction rs arbitrary: s)
  case (Cons r rs)
  then show ?case
    by (auto split: if_splits option.splits intro!: g_run_Cons g_step.intros g_okb_ok)
qed (simp add: g_run.g_start)

definition empty_server :: BGServer where
  "empty_server = \<lparr>gdb = \<lparr>relation_group = [], relation_group_item = [], next_groupid = (\<lambda>_. 1)\<rparr>, bg_cache = Map.empty,
     bg_tasks = [], bg_notices = [], notifyIm = True\<rparr>"

lemma empty_initial: "g_initial empty_server"
  by (simp add: g_initial_def empty_server_def ids_fit_def list_all_iff db_ok_def rows_def items_def)

lemma no_gzip_ok: "gz_ok no_gzip"
  by (simp add: gz_ok_def no_gzip_def)

definition demo_requests :: "GReq list" where
  "demo_requests = [AddGroup 5 ''work'', AddGroup 5 [CHR 0xC0], AddBuddies 5 ''home'' [7, 9, 7], ChangeGroups Friend True 5 9 [''work'', ''club''],
     Evict 5, RenameGroup 5 ''club'' ''work'', RemoveFromGroup 5 ''home'' 7, Query 5]"

definition demo_final :: BGServer where
  "demo_final = (case g_play no_gzip demo_requests empty_server of Some s \<Rightarrow> s | None \<Rightarrow> empty_server)"

lemma demo_played: "case g_play no_gzip demo_requests empty_server of None \<Rightarrow> False | Some s \<Rightarrow> True"
  by code_simp

lemma demo_run: "g_run no_gzip empty_server demo_requests demo_final"
  using demo_played by (intro g_play_run) (simp add: demo_final_def split: option.splits)

section \<open>Properties\<close>

text \<open>C7. The groups of every user, as the tables hold them after a run of requests, are those the specification
  computes from the requests of that user, whatever objects were loaded and evicted on the way; and a cached object
  holds the same groups. The requests, loads and evictions of a run are atomic and come one at a
  time (the code holds no lock over a load or over the whole of \<open>addGroup\<close>): all requests by name, with any names (one with an
  illegal name changes nothing), and the requests that rename, remove, clean, add and take out by an id that the cached object knows
  rightly. A group is added under a name that is not in use, buddies are not 0, and the ids of the tables stay below \<open>2 ^ 31\<close>. Setting
  and changing by ids are left out, because they do not keep table and object in step.
\<close>

theorem groups_refine:
  assumes "g_initial s" "gz_ok Z" "g_run Z s rs s'"
  shows "gabs s' h = foldl (\<lambda>m r. if g_host r = h then g_spec r m else m) (gabs s h) rs \<and>
    (\<forall>b. bg_cache s' h = Some b \<longrightarrow> wabs (unSerialize Z b) = gabs s' h)"
proof -
  have r: "ginv Z s'" "gabs s' = (\<lambda>h. foldl (\<lambda>m r. if g_host r = h then g_spec r m else m) (gabs s h) rs)"
    using run_does [OF assms(3,1,2)] by blast+
  moreover have "\<forall>b. bg_cache s' h = Some b \<longrightarrow> wabs (unSerialize Z b) = gabs s' h"
    using ginvD(3) [OF r(1)] coh_abs by (metis gabs_def)
  ultimately show ?thesis by simp
qed

theorem groups_refine_witness:
  "gabs demo_final 5 = foldl (\<lambda>m r. if g_host r = 5 then g_spec r m else m) (gabs empty_server 5) demo_requests"
  using groups_refine [OF empty_initial no_gzip_ok demo_run] by blast

text \<open>C31. After a run of requests (those of the refinement above, with whatever names) the data of a cached object are well formed: names in
  order and legal, because the handlers refuse others, ids that are
  positive and different for different groups, members in order, and numbers that fit their packed form; and no load has
  found a row to clean.
\<close>

theorem groups_wellformed:
  assumes "g_initial s" "gz_ok Z" "g_run Z s rs s'" "bg_cache s' h = Some b" "w = unSerialize Z b"
  shows "w_wf w \<and> bg_tasks s' = [] \<and>
    (\<forall>n g. m_find (gvalue w) n = Some g \<longrightarrow> legal n \<and> 1 \<le> groupId g \<and> (\<forall>c \<in> set (buddyIds g). legal_buddy c)) \<and>
    (\<forall>n g n' g'. m_find (gvalue w) n = Some g \<longrightarrow> m_find (gvalue w) n' = Some g' \<longrightarrow> groupId g = groupId g' \<longrightarrow> n = n')"
proof -
  have i: "ginv Z s'" using run_does [OF assms(3,1,2)] by blast
  note c = ginvD(3) [OF i assms(4), folded assms(5)]
  have "w_wf w" by (rule coh_wf [OF c ginvD(1) [OF i]])
  moreover have "bg_tasks s' = []" using i by (simp add: ginv_def)
  ultimately show ?thesis using coh_found(4,6,7) [OF c] coh_same_id [OF c] by blast
qed

lemma demo_cached: "bg_cache demo_final 5 \<noteq> None"
proof -
  have "case g_play no_gzip demo_requests empty_server of None \<Rightarrow> False | Some s \<Rightarrow> \<not> Option.is_none (bg_cache s 5)" by code_simp
  then show ?thesis by (simp add: demo_final_def Option.is_none_def split: option.splits)
qed

lemma demo_group:
  "m_find (idmap (getBP no_gzip 5 demo_final)) 1 = Some ''work'' \<and>
   m_find (gvalue (getBP no_gzip 5 demo_final)) ''work'' = Some \<lparr>groupId = 1, buddyIds = [9]\<rparr>"
  by code_simp

theorem groups_wellformed_witness: "w_wf (unSerialize no_gzip (the (bg_cache demo_final 5)))"
  using groups_wellformed [OF empty_initial no_gzip_ok demo_run _ refl, of 5 "the (bg_cache demo_final 5)"] demo_cached by auto

text \<open>C30. After a run of requests, the requests that rename, remove, clean, add to or take out of a group by its id do what those by its name do,
  and the queries for the members and the count by id answer the same, if the map of ids of the object gives the id the
  name and the group of that name has the id. (Renaming a group to its own name by id loads the object, by name nothing.) The requests
  that set the buddies of a group and change all groups of a buddy by ids do not have this property.
\<close>

theorem gid_requests_equivalent:
  assumes "g_initial s0" "gz_ok Z" "g_run Z s0 rs s" "locateObject Z h s = Some t" "w = getBP Z h t"
    and "m_find (idmap w) i = Some n" "m_find (gvalue w) n = Some g" "groupId g = i"
  shows "(n \<noteq> new \<longrightarrow> renameGroupWithGid Z h i new s = renameGroup Z h n new s) \<and>
    removeGroupWithGid Z h i s = removeGroup Z h n s \<and>
    cleanGroupWithGid Z h i s = cleanGroup Z h n s \<and>
    addBuddyToGroupWithGid Z h i b s = addBuddyToGroup Z h n b s \<and>
    addBuddiesToGroupWithGid Z h i bs s = addBuddiesToGroup Z h n bs s \<and>
    removeBuddyFromGroupWithGid Z h i b s = removeBuddyFromGroup Z h n b s \<and>
    getBuddyListWithGid i bgn lim w = getBuddyList n bgn lim w \<and>
    getCountByGroupId i w = getCountByGroup n w"
proof -
  have "ginv Z s" using run_does [OF assms(3,1,2)] by blast
  note c = located_ok(4) [OF this assms(2,4), folded assms(5)]
  have k: "id_known i n (getBP Z h t)" using assms(5-8) by (simp add: id_known_def)
  have "i \<noteq> -1" "isUtf8 n = Some True" using coh_found(4,6) [OF c assms(7)] assms(8) by (simp_all add: legal_utf8)
  from by_id_as_by_name [OF assms(4) k this] assms(6-8) show ?thesis
    by (simp add: getBuddyListWithGid_def getCountByGroupId_def)
qed

theorem gid_requests_equivalent_witness: "removeGroupWithGid no_gzip 5 1 demo_final = removeGroup no_gzip 5 ''work'' demo_final"
proof -
  have l: "locateObject no_gzip 5 demo_final = Some demo_final" using demo_cached by (auto simp: locateObject_def)
  from gid_requests_equivalent [OF empty_initial no_gzip_ok demo_run l refl, of 1 "''work''" "\<lparr>groupId = 1, buddyIds = [9]\<rparr>"] demo_group
  show ?thesis by simp
qed

text \<open>C26. After a run of requests (those of the refinement above) the queries answer from the groups as the specification has them: names and
  members in ascending order, counts as numbers of members, pages of members (when the end of the page does not
  overflow), and ids as in the tables.
\<close>

theorem group_answers_exact:
  assumes "g_initial s" "gz_ok Z" "g_run Z s rs s'" "locateObject Z h s' = Some t" "w = getBP Z h t"
  shows "s_wf (getGroupList w) \<and> set (getGroupList w) = dom (gabs s' h) \<and>
    s_wf (getBuddyGroups b w) \<and> set (getBuddyGroups b w) = {n. \<exists>B. gabs s' h n = Some B \<and> b \<in> B} \<and>
    m_find (getBuddiedGroupsMap w) b = (if getBuddyGroups b w = [] then None else Some (getBuddyGroups b w)) \<and>
    m_find (getBuddyGroupsMap w) b = (if getBuddyGroups b w = [] then None else Some (getBuddyGroupsData b w)) \<and>
    (m_find (getBuddyGroupsData b w) x = Some n \<longleftrightarrow> gid_of h (gdb s') n = Some x \<and> (b, x) \<in> items h (gdb s')) \<and>
    (m_find (getGroupListData w) x = Some n \<longleftrightarrow> gid_of h (gdb s') n = Some x) \<and>
    getCountByGroup n w = (case gabs s' h n of Some B \<Rightarrow> int (card B) | None \<Rightarrow> 0) \<and>
    m_find (getAllGroupsBuddyCount w) n = map_option (\<lambda>B. int (card B)) (gabs s' h n) \<and>
    (m_find (getAllGroupsBuddyCountData w) x = Some k \<longleftrightarrow>
       (\<exists>n. gid_of h (gdb s') n = Some x) \<and> k = int (card (members h (gdb s') x))) \<and>
    (to_int32 (max 0 bgn + lim) = max 0 bgn + lim \<longrightarrow>
       getBuddyList n bgn lim w = page bgn lim (sorted_list_of_set (group_or_empty (gabs s' h) n)))"
proof -
  have i: "ginv Z s'" using run_does [OF assms(3,1,2)] by blast
  note L = located_ok [OF i assms(2,4), folded assms(5)]
  have a: "gabs s' h = wabs w" using coh_abs [OF L(4)] L(2) by (simp add: gabs_def)
  note c = L(4) [unfolded L(2)]
  have wf: "m_wf (gvalue w)" and ss: "\<forall>e \<in> set (gvalue w). s_wf (buddyIds (snd e))"
    using coh_value [OF c] coh_entries(3) [OF c] by blast+
  note g = gid_of_rows [OF coh_db [OF c]]
  have 1: "s_wf (getGroupList w)" using wf by (simp add: getGroupList_def m_wf_def)
  have 2: "set (getGroupList w) = dom (gabs s' h)" unfolding a by (auto simp: getGroupList_def wabs_def dom_def m_find_in [OF wf]) force
  have 3: "s_wf (getBuddyGroups b w)" unfolding getBuddyGroups_def groups_with_def by (rule sorted_names [OF wf])
  have 4: "set (getBuddyGroups b w) = {n. \<exists>B. gabs s' h n = Some B \<and> b \<in> B}"
    unfolding a getBuddyGroups_def by (rule groups_with_set [OF wf])
  have 5: "m_find (getBuddiedGroupsMap w) b = (if getBuddyGroups b w = [] then None else Some (getBuddyGroups b w))"
    unfolding getBuddyGroups_def by (rule getBuddiedGroupsMap_exact [OF wf ss])
  have 6: "m_find (getBuddyGroupsMap w) b = (if getBuddyGroups b w = [] then None else Some (getBuddyGroupsData b w))"
    unfolding getBuddyGroups_def by (rule getBuddyGroupsMap_exact [OF ss])
  have 7: "m_find (getBuddyGroupsData b w) x = Some n \<longleftrightarrow> gid_of h (gdb s') n = Some x \<and> (b, x) \<in> items h (gdb s')"
    unfolding g by (rule getBuddyGroupsData_exact [OF c])
  have 8: "m_find (getGroupListData w) x = Some n \<longleftrightarrow> gid_of h (gdb s') n = Some x"
    unfolding g by (rule getGroupListData_exact [OF c])
  have 9: "m_find (getAllGroupsBuddyCountData w) x = Some k \<longleftrightarrow>
      (\<exists>n. gid_of h (gdb s') n = Some x) \<and> k = int (card (members h (gdb s') x))"
    unfolding g by (rule countData_exact [OF c])
  have "getBuddyList n bgn lim w = page bgn lim (sorted_list_of_set (group_or_empty (gabs s' h) n))"
    if "to_int32 (max 0 bgn + lim) = max 0 bgn + lim"
  proof (cases "m_find (gvalue w) n")
    case None
    then show ?thesis by (simp add: a wabs_def getBuddyList_def page_def Let_def)
  next
    case (Some g)
    have "sorted_list_of_set (set (buddyIds g)) = buddyIds g"
      using coh_found(2) [OF c Some] by (simp add: strict_sorted_iff sorted_list_of_set.idem_if_sorted_distinct)
    then show ?thesis using getBuddyList_page [OF that Some] Some by (simp add: a wabs_def)
  qed
  with 1 2 3 4 5 6 7 8 9 counts_exact [OF c, folded a] show ?thesis by blast
qed

theorem group_answers_exact_witness:
  "getCountByGroup ''home'' (getBP no_gzip 5 demo_final) = (case gabs demo_final 5 ''home'' of Some B \<Rightarrow> int (card B) | None \<Rightarrow> 0)"
proof -
  have "locateObject no_gzip 5 demo_final = Some demo_final" using demo_cached by (auto simp: locateObject_def)
  from group_answers_exact [OF empty_initial no_gzip_ok demo_run this refl] show ?thesis by blast
qed

text \<open>C32. A change of the groups of a friend by ids, with ids that are all known, takes the friend out of every group, whatever
  the ids are: the names they stand for are never collected.
\<close>

theorem change_by_ids_clears:
  assumes "ginv Z s" "gz_ok Z" "locateObject Z h s = Some t" "\<forall>i \<in> set ids. m_find (idmap (getBP Z h t)) i \<noteq> None"
    and "changeBuddyGroupsWithGid Z Friend from h b ids s = Some (r, s')" "ids_fit (gdb s')" "legal_buddy b"
  shows "gabs s' = (gabs s)(h := change_spec b {} (gabs s h)) \<and> (\<forall>n B. gabs s' h n = Some B \<longrightarrow> b \<notin> B)"
proof -
  have "\<not> list_ex (\<lambda>i. m_find (idmap (getBP Z h t)) i = None) ids" using assms(4) by (auto simp: list_ex_iff)
  then obtain ch where "change_groups Z from h b [] t = Some (ch, s')"
    using assms(3,5) by (auto simp: changeBuddyGroupsWithGid_def bind_eq_Some_conv)
  then have "does Z h (change_spec b (set [])) s s'"
    using change_located [OF assms(1-3,7), of "[]" "from" ch s'] assms(6) by simp
  then show ?thesis by (auto simp: does_def change_spec_def split: option.splits if_splits)
qed

definition change_demo :: "(int \<times> BGServer) option" where
  "change_demo = changeBuddyGroupsWithGid no_gzip Friend False 5 9 [1] demo_final"

lemma demo_ids: "list_all (\<lambda>i. m_find (idmap (getBP no_gzip 5 demo_final)) i \<noteq> None) [1] \<and>
    (case change_demo of None \<Rightarrow> False | Some (r, s) \<Rightarrow> ids_fit (gdb s))"
  by code_simp

theorem change_by_ids_clears_witness:
  "gabs (snd (the change_demo)) = (gabs demo_final)(5 := change_spec 9 {} (gabs demo_final 5))"
proof -
  have i: "ginv no_gzip demo_final" using run_does [OF demo_run empty_initial no_gzip_ok] by blast
  have l: "locateObject no_gzip 5 demo_final = Some demo_final" using demo_cached by (auto simp: locateObject_def)
  obtain r s where s: "change_demo = Some (r, s)" "ids_fit (gdb s)" using demo_ids by (auto split: option.splits)
  have "\<forall>j \<in> set [1]. m_find (idmap (getBP no_gzip 5 demo_final)) j \<noteq> None" using demo_ids by simp
  from change_by_ids_clears [OF i no_gzip_ok l this s(1) [unfolded change_demo_def] s(2)]
  show ?thesis by (simp add: s(1) legal_buddy_def)
qed

lemma cleanGroup'_rows: "cleanGroup' Z h n s = Some s' \<Longrightarrow> rows h' (gdb s') = rows h' (gdb s)"
  by (auto simp: cleanGroup'_def bind_eq_Some_conv Let_def rows_db dest!: setBP_gdb split: option.splits if_splits)

text \<open>Setting the buddies of a group by id leaves the old ones in the cached object, where the tables hold the new ones
  only: the object is unpacked before the group is cleaned and packed again after.
\<close>

lemma set_by_id_keeps_old:
  assumes "ginv Z s" "gz_ok Z" "bg_cache s h = Some p" "m_find (idmap (getBP Z h s)) i = Some n"
    and "m_find (gvalue (getBP Z h s)) n = Some g" "bs \<noteq> []" "\<forall>b \<in> set bs. legal_buddy b"
    and "setBuddiesToGroupWithGid Z h i bs s = Some s'" "ids_fit (gdb s')"
  shows "wabs (getBP Z h s') n = Some (set (buddyIds g) \<union> set bs) \<and> gabs s' h n = Some (set bs)"
proof -
  let ?w = "getBP Z h s"
  have l: "locateObject Z h s = Some s" using assms(3) by (simp add: locateObject_def)
  note L = located_ok [OF assms(1,2) l]
  have n: "legal n" by (rule coh_found(6) [OF L(4) assms(5)])
  obtain s1 where c: "cleanGroup' Z h n s = Some s1"
    and p: "setBP Z h (put_buddies n g bs ?w)
      (notify_im Z h bs (on_db (db_insert_items (map (\<lambda>b. (h, b, groupId g)) bs)) s1)) = Some s'"
    using assms(4-6,8) l by (auto simp: setBuddiesToGroupWithGid_def name_of_def bind_eq_Some_conv Let_def)
  note C = cleanGroup'_ok [OF assms(1,2) c n L(4)]
  have d: "gdb s' = db_insert_items (map (\<lambda>b. (h, b, groupId g)) bs) (gdb s1)" using setBP_gdb [OF p] by simp
  have "ids_fit (db_insert_items (map (\<lambda>b. (h, b, groupId g)) bs) (gdb s))"
    using ginvD(1) [OF assms(1)] by (simp add: ids_fit_def next_db)
  then have "w_wf (put_buddies n g bs ?w)" by (rule coh_wf [OF coh_join(1) [OF L(4) assms(5,7)]])
  moreover obtain q where q: "serialize Z (put_buddies n g bs ?w) = Some q" "bg_cache s' h = Some q"
    using p by (auto simp: setBP_def bind_eq_Some_conv)
  ultimately have "getBP Z h s' = put_buddies n g bs ?w" using unSerialize_enc [OF assms(2)] by (simp add: getBP_def)
  then have 1: "wabs (getBP Z h s') n = Some (set (buddyIds g) \<union> set bs)" using coh_join(2) [OF L(4) assms(5,7)] by simp
  have r: "(groupId g, n) \<in> rows h (gdb s1)" using coh_found(1) [OF L(4) assms(5)] cleanGroup'_rows [OF c] by simp
  then obtain g1 where g1: "m_find (gvalue (getBP Z h s1)) n = Some g1" using coh_not_found [OF C(3)] by blast
  have i1: "groupId g1 = groupId g" using db_ok_one [OF coh_db [OF C(3)] coh_found(1) [OF C(3) g1] r] by simp
  have "set (buddyIds g1) = {}"
    using gabs_wabs [OF C(3)] wabs_found [OF g1] C(2) clean_spec_at [of n "gabs s h"] by simp
  then have "gabs s' h n = Some (set bs)"
    using coh_abs [OF coh_join(1) [OF C(3) g1 assms(7)]] coh_join(2) [OF C(3) g1 assms(7)] by (simp add: gabs_def d i1)
  with 1 show ?thesis by blast
qed

definition set_demo :: BGServer where
  "set_demo = (case setBuddiesToGroupWithGid no_gzip 5 1 [4] demo_final of Some s \<Rightarrow> s | None \<Rightarrow> empty_server)"

lemma set_demo_runs:
  "case setBuddiesToGroupWithGid no_gzip 5 1 [4] demo_final of None \<Rightarrow> False | Some s \<Rightarrow> ids_fit (gdb s)"
  by code_simp

lemma set_by_id_keeps_old_witness:
  "wabs (getBP no_gzip 5 set_demo) ''work'' = Some {9, 4} \<and> gabs set_demo 5 ''work'' = Some {4}"
proof -
  have i: "ginv no_gzip demo_final" using run_does [OF demo_run empty_initial no_gzip_ok] by blast
  obtain p where p: "bg_cache demo_final 5 = Some p" using demo_cached by blast
  have s: "setBuddiesToGroupWithGid no_gzip 5 1 [4] demo_final = Some set_demo" "ids_fit (gdb set_demo)"
    using set_demo_runs by (auto simp: set_demo_def split: option.splits)
  from set_by_id_keeps_old [OF i no_gzip_ok p _ _ _ _ s(1,2), of "''work''" "\<lparr>groupId = 1, buddyIds = [9]\<rparr>"] demo_group
  show ?thesis by (simp add: legal_buddy_def insert_commute)
qed

text \<open>A group that comes into being when a buddy is added under a new name has an id that the map of ids does not
  hold: counted by name it has one member, counted by id it is unknown, until the object is loaded again.
\<close>

lemma new_group_unknown_by_id:
  assumes "ginv Z s" "gz_ok Z" "bg_cache s h = Some p" "legal n" "legal_buddy b"
    and "m_find (gvalue (getBP Z h s)) n = None" "m_find (idmap (getBP Z h s)) (next_gid h (gdb s)) = None"
    and "addBuddyToGroup Z h n b s = Some s1" "ids_fit (gdb s1)" "load_groups Z h s1 = Some s2"
  shows "getCountByGroup n (getBP Z h s1) = 1 \<and> getCountByGroupId (next_gid h (gdb s)) (getBP Z h s1) = -1 \<and>
    getCountByGroupId (next_gid h (gdb s)) (getBP Z h s2) = 1"
proof -
  let ?w = "getBP Z h s" and ?x = "next_gid h (gdb s)"
  have l: "locateObject Z h s = Some s" using assms(3) by (simp add: locateObject_def)
  note L = located_ok [OF assms(1,2) l]
  obtain w t where a: "add_new_group h n [b] ?w s = (w, t)" by fastforce
  have p: "setBP Z h w (notify_im Z h [b] t) = Some s1"
    using assms(4,6,8) l a by (simp add: addBuddyToGroup_def add_to_named_def legal_utf8 Let_def)
  have f: "ids_fit (gdb t)" using setBP_gdb [OF p] assms(9) by simp
  note N = add_new_group_ok [OF L(4) ginvD(1) [OF assms(1)] f assms(6,4) _ a]
  have ginv1: "ginv Z s1" and w1: "getBP Z h s1 = w" and c1: "coh h w (gdb s1)"
    using setBP_ok [OF assms(1,2) p] N assms(5,9) setBP_gdb [OF p] by simp_all
  have wi: "idmap w = idmap ?w" using a by (auto simp: add_new_group_def Let_def split: prod.splits)
  obtain g where g: "m_find (gvalue w) n = Some g" "set (buddyIds g) = {b}"
    using fun_cong [OF N(2), of n] assms(5) by (auto simp: wabs_def)
  have "(?x, n) \<in> rows h (gdb s1)"
  proof -
    have "?x < 2 ^ 31"
    proof -
      have "next_groupid (gdb t) = (next_groupid (gdb s))(getTableNo h := ?x + 1)"
        using a next_db(6) [of h "[n]" "gdb s"] by (auto simp: add_new_group_def Let_def next_db(1) split: prod.splits)
      then show ?thesis using ids_fit_gid(2) [OF f, of h] by simp
    qed
    then have "gdb t = with_group h n [b] (gdb s)"
      using a first_id [OF ginvD(1) [OF assms(1)], of h "[n]"] by (auto simp: add_new_group_def with_group_def Let_def split: prod.splits)
    then show ?thesis using setBP_gdb [OF p] by (simp add: with_group_db)
  qed
  then have x: "groupId g = ?x" using db_ok_one [OF coh_db [OF c1] coh_found(1) [OF c1 g(1)]] by blast
  let ?s = "s1\<lparr>bg_cache := (bg_cache s1)(h := None)\<rparr>"
  have l2: "locateObject Z h ?s = Some s2"
    using assms(10) by (auto simp: load_groups_def locateObject_def create_def bind_eq_Some_conv Let_def split: if_splits)
  note L2 = located_ok [OF evicted_ok [OF ginv1] assms(2) l2]
  have c2: "coh h (getBP Z h s2) (gdb s1)" using L2(2,4) by simp
  have "wabs (getBP Z h s2) n = wabs w n" using coh_abs [OF c2] coh_abs [OF c1] by simp
  then obtain g2 where g2: "m_find (gvalue (getBP Z h s2)) n = Some g2" "set (buddyIds g2) = {b}"
    using g by (auto simp: wabs_def)
  have "groupId g2 = ?x" using db_ok_one [OF coh_db [OF c2] coh_found(1) [OF c2 g2(1)]] \<open>(?x, n) \<in> rows h (gdb s1)\<close> by blast
  moreover have "knows_ids (getBP Z h s2)" using L2(5) by simp
  ultimately have "m_find (idmap (getBP Z h s2)) ?x = Some n" using g2(1) unfolding knows_ids_def by metis
  moreover have "getCountByGroup n w = 1" using counts_exact(1) [OF c1, of n] g by (simp add: wabs_def)
  moreover have "getCountByGroup n (getBP Z h s2) = 1" using counts_exact(1) [OF c2, of n] g2 by (simp add: wabs_def)
  ultimately show ?thesis using assms(7) by (simp add: getCountByGroupId_def w1 wi)
qed

definition add_demo :: "BGServer option" where
  "add_demo = addBuddyToGroup no_gzip 5 ''new'' 8 demo_final"

definition load_demo :: "BGServer option" where
  "load_demo = (case add_demo of Some s \<Rightarrow> load_groups no_gzip 5 s | None \<Rightarrow> None)"

lemma add_demo_runs:
  "(case add_demo of None \<Rightarrow> False | Some s \<Rightarrow> ids_fit (gdb s)) \<and> (case load_demo of None \<Rightarrow> False | Some s \<Rightarrow> True) \<and>
   m_find (gvalue (getBP no_gzip 5 demo_final)) ''new'' = None \<and> next_gid 5 (gdb demo_final) = 4 \<and>
   m_find (idmap (getBP no_gzip 5 demo_final)) 4 = None \<and> isUtf8 ''new'' = Some True"
  by code_simp

lemma new_group_unknown_by_id_witness:
  "getCountByGroupId 4 (getBP no_gzip 5 (the add_demo)) = -1 \<and> getCountByGroupId 4 (getBP no_gzip 5 (the load_demo)) = 1"
proof -
  have i: "ginv no_gzip demo_final" using run_does [OF demo_run empty_initial no_gzip_ok] by blast
  obtain p where p: "bg_cache demo_final 5 = Some p" using demo_cached by blast
  obtain s1 where s1: "add_demo = Some s1" "ids_fit (gdb s1)" using add_demo_runs by (auto split: option.splits)
  obtain s2 where s2: "load_demo = Some s2" using add_demo_runs by (auto split: option.splits)
  have l: "load_groups no_gzip 5 s1 = Some s2" using s2 [unfolded load_demo_def s1(1)] by simp
  have x: "next_gid 5 (gdb demo_final) = 4" using add_demo_runs by blast
  have "legal ''new''" "legal_buddy 8" using add_demo_runs by (simp_all add: legal_def legal_buddy_def)
  from new_group_unknown_by_id [OF i no_gzip_ok p this _ _ s1(1) [unfolded add_demo_def] s1(2) l, unfolded x] add_demo_runs
  show ?thesis by (simp add: s1(1) s2)
qed

end
