(* ===== verification/NewsFeed.thy ===== *)
theory NewsFeed
  imports StdMap
begin

text \<open>
  The data of the news feed server, \<^verbatim>\<open>feed/FeedNewsN/src\<close>: the feeds of the shared pool (\<^verbatim>\<open>ItemCache.h\<close>,
  \<^verbatim>\<open>ItemCache.cpp\<close>), which are counted by their handles, the table that says which types of feeds are comments on which
  (\<^verbatim>\<open>NewsUtil.h\<close>), and the entry of a user's ring with its packed flags (\<^verbatim>\<open>LiveFeedCache.h\<close>).
\<close>

section \<open>Feeds\<close>

record FeedItem =
  it_feed :: int
  it_merge :: int
  it_type :: int
  it_time :: int
  it_weight :: int
  it_actor :: int

record Feed =
  f_id :: int
  f_merge :: int
  f_type :: int
  f_time :: int
  f_actor :: int
  f_click_count :: int
  f_reply_count :: int
  f_ref_count :: int
  f_range :: int

definition new_feed :: "FeedItem \<Rightarrow> Feed" where
  "new_feed item = \<lparr>f_id = it_feed item, f_merge = it_merge item, f_type = it_type item, f_time = it_time item,
     f_actor = it_actor item, f_click_count = 0, f_reply_count = 0, f_ref_count = 0, f_range = 0\<rparr>"

definition SmallType :: "Feed \<Rightarrow> int" where
  "SmallType f = f_type f AND 0xFFFF"

definition BigType :: "Feed \<Rightarrow> int" where
  "BigType f = (f_type f AND 0xFFFF) div 100 * 100"

definition Ver :: "Feed \<Rightarrow> int" where
  "Ver f = drop_bit 16 (f_type f AND 0xFF0000)"

definition NewsMergeType :: "Feed \<Rightarrow> int" where
  "NewsMergeType f = drop_bit 30 (take_bit 32 (f_type f))"

definition GatherKey :: "Feed \<Rightarrow> int \<times> int" where
  "GatherKey f = (if SmallType f = 2002 \<or> SmallType f = 3707 then (0, SmallType f) else (f_actor f, SmallType f))"

section \<open>The pool\<close>

text \<open>
  The feeds in memory by their ids. A handle (\<open>FeedPtr\<close>) is the id; copying one increments the count of its feed, dropping
  one decrements it, and the last one deletes the feed. The buckets of the pool are one map: an id has one bucket.
  A handle whose feed is not in the pool would dangle.
\<close>

type_synonym FeedPool = "int \<rightharpoonup> Feed"

definition add_ref :: "int \<Rightarrow> int \<Rightarrow> FeedPool \<Rightarrow> FeedPool" where
  "add_ref n i p = (case p i of None \<Rightarrow> p | Some f \<Rightarrow> p(i \<mapsto> f\<lparr>f_ref_count := f_ref_count f + n\<rparr>))"

definition Inc :: "int \<Rightarrow> FeedPool \<Rightarrow> FeedPool" where
  "Inc i p = add_ref 1 i p"

definition Release :: "int \<Rightarrow> FeedPool \<Rightarrow> FeedPool" where
  "Release i p = (case p i of None \<Rightarrow> p
     | Some f \<Rightarrow> if f_ref_count f - 1 = 0 then p(i := None) else p(i \<mapsto> f\<lparr>f_ref_count := f_ref_count f - 1\<rparr>))"

text \<open>The count is raised before the lock is given up and lowered once the handle exists.\<close>

definition pool_Add :: "FeedItem \<Rightarrow> FeedPool \<Rightarrow> int \<times> FeedPool" where
  "pool_Add item p =
     (let i = it_feed item;
          p = (case p i of None \<Rightarrow> p(i \<mapsto> new_feed item) | Some _ \<Rightarrow> p)
      in (i, add_ref (- 1) i (Inc i (add_ref 1 i p))))"

definition pool_Get :: "int \<Rightarrow> FeedPool \<Rightarrow> int option \<times> FeedPool" where
  "pool_Get i p = (case p i of None \<Rightarrow> (None, p) | Some _ \<Rightarrow> (Some i, add_ref (- 1) i (Inc i (add_ref 1 i p))))"

section \<open>Comments and what they comment on\<close>

definition main2comment :: "(int \<times> int) list" where
  "main2comment = [(601, 2901), (701, 2902), (709, 2906), (712, 2905)]"

definition comment2main :: "(int \<times> int) list" where
  "comment2main = map (\<lambda>(m, c). (c, m)) main2comment"

definition IsMain :: "int \<Rightarrow> bool" where
  "IsMain stype \<longleftrightarrow> stype \<in> set (map fst main2comment)"

definition IsComment :: "int \<Rightarrow> bool" where
  "IsComment stype \<longleftrightarrow> stype \<in> set (map snd main2comment)"

definition Main2Comment :: "int \<Rightarrow> int" where
  "Main2Comment stype = (case map_of main2comment stype of Some c \<Rightarrow> c | None \<Rightarrow> stype)"

definition Comment2Main :: "int \<Rightarrow> int" where
  "Comment2Main stype = (case map_of comment2main stype of Some m \<Rightarrow> m | None \<Rightarrow> stype)"

text \<open>The first loop of \<open>Sort\<close>: it stops at a comment, and gives up at a feed that is neither.\<close>

datatype SortScan = NotMerged | Scanned bool int int int

fun sort_scan :: "int \<Rightarrow> int \<Rightarrow> int \<Rightarrow> Feed list \<Rightarrow> SortScan" where
  "sort_scan i pos main_cnt [] = Scanned False pos main_cnt 0"
| "sort_scan i pos main_cnt (f # fv) =
     (if IsComment (SmallType f) then Scanned True pos main_cnt 1
      else if IsMain (SmallType f) then sort_scan (i + 1) i (main_cnt + 1) fv
      else NotMerged)"

text \<open>The second loop: takes the mains out of the vector.\<close>

fun take_mains :: "Feed list \<Rightarrow> Feed list \<times> Feed list" where
  "take_mains [] = ([], [])"
| "take_mains (f # fv) =
     (let (mains, rest) = take_mains fv in if IsMain (SmallType f) then (f # mains, rest) else (mains, f # rest))"

text \<open>The result, the flag \<open>main_with_comment\<close> and the vector.\<close>

definition Sort :: "Feed list \<Rightarrow> bool \<times> bool \<times> Feed list" where
  "Sort fv =
     (if length fv = 1 then (False, False, fv)
      else case sort_scan 0 (2 ^ 64 - 1) 0 fv of
        NotMerged \<Rightarrow> (False, False, fv)
      | Scanned main_with_comment pos main_cnt comment_cnt \<Rightarrow>
          if comment_cnt = 0 \<or> main_cnt = 1 \<and> pos = int (length fv) - 1 then (True, main_with_comment, fv)
          else let (mains, fv') = take_mains fv
               in if mains = [] then (False, main_with_comment, fv') else (True, main_with_comment, fv' @ mains))"

section \<open>The entries of a ring\<close>

record LiveFeedItem =
  l_feed :: "int option"
  l_weight :: u32
  l_time :: int

definition new_item :: "int option \<Rightarrow> int \<Rightarrow> int \<Rightarrow> LiveFeedItem" where
  "new_item feed weight time = \<lparr>l_feed = feed, l_weight = word_of_int weight AND 0xFFFF0000, l_time = time\<rparr>"

definition no_item :: LiveFeedItem where
  "no_item = \<lparr>l_feed = None, l_weight = 0, l_time = 0\<rparr>"

definition SetUpdateTime :: "bool \<Rightarrow> LiveFeedItem \<Rightarrow> LiveFeedItem" where
  "SetUpdateTime up x = x\<lparr>l_weight := (if up then l_weight x OR 0x02 else l_weight x AND 0xFFFFFFFD)\<rparr>"

definition IsUpdateTime :: "LiveFeedItem \<Rightarrow> bool" where
  "IsUpdateTime x \<longleftrightarrow> l_weight x AND 0x02 \<noteq> 0"

definition IsRandomed :: "LiveFeedItem \<Rightarrow> bool" where
  "IsRandomed x \<longleftrightarrow> l_weight x AND 0x04 \<noteq> 0"

definition SetRandomed :: "LiveFeedItem \<Rightarrow> LiveFeedItem" where
  "SetRandomed x = x\<lparr>l_weight := l_weight x OR 0x04\<rparr>"

definition ClearRandomed :: "LiveFeedItem \<Rightarrow> LiveFeedItem" where
  "ClearRandomed x = x\<lparr>l_weight := l_weight x AND 0xFFFFFFFB\<rparr>"

definition GetViewedCount :: "LiveFeedItem \<Rightarrow> int" where
  "GetViewedCount x = uint (drop_bit 8 (l_weight x AND 0xFF00))"

definition IncViewedCount :: "LiveFeedItem \<Rightarrow> LiveFeedItem" where
  "IncViewedCount x =
     (let tmp = drop_bit 8 (l_weight x AND 0xFF00) + 1; tmp = (if tmp > 0xFF then 0xFF else tmp)
      in x\<lparr>l_weight := (l_weight x AND 0xFFFF00FF) OR push_bit 8 tmp\<rparr>)"

definition inc_viewed :: "nat \<Rightarrow> LiveFeedItem \<Rightarrow> LiveFeedItem" where
  "inc_viewed n x = (IncViewedCount ^^ n) x"

section \<open>Facts on types, flags and sorting\<close>

lemma SmallType_nonneg: "0 \<le> SmallType f"
  by (simp add: SmallType_def)

text \<open>The masks of the flags as ranges of bits.\<close>

lemma flag_masks:
  "(0xFF00 :: u32) = push_bit 8 (mask 8)" "(0xFFFF00FF :: u32) = NOT (push_bit 8 (mask 8))"
  "(0xFFFFFFFB :: u32) = NOT (push_bit 2 1)" "(0xFFFFFFFD :: u32) = NOT (push_bit 1 1)"
  "(0x04 :: u32) = push_bit 2 1" "(0x02 :: u32) = push_bit 1 1" "(0xFFFF0000 :: u32) = NOT (mask 16)" "(0xFF :: u32) = mask 8"
  by (simp_all add: mask_eq_decr_exp)

lemma viewed_bits: "drop_bit 8 (w AND 0xFF00) = take_bit 8 (drop_bit 8 (w :: u32))"
  unfolding flag_masks by (rule bit_word_eqI) (auto simp: bit_simps)

lemma viewed_put:
  assumes "take_bit 8 t = (t :: u32)"
  shows "take_bit 8 (drop_bit 8 ((w AND 0xFFFF00FF) OR push_bit 8 t)) = t"
proof -
  have "bit t n \<Longrightarrow> n < 8" for n using assms by (metis bit_take_bit_iff)
  then show ?thesis unfolding flag_masks by (intro bit_word_eqI) (fastforce simp: bit_simps)
qed

lemma bit_and_flag: "(w AND push_bit n 1 \<noteq> 0) = (n < 32 \<and> bit (w :: u32) n)"
proof -
  have "w AND push_bit n 1 = (if bit w n then push_bit n 1 else 0)" by (rule bit_word_eqI) (auto simp: bit_simps)
  moreover have "push_bit n (1 :: u32) \<noteq> 0 \<longleftrightarrow> n < 32" by (simp add: push_bit_eq_mult exp_eq_zero_iff not_le)
  ultimately show ?thesis by (auto dest: bit_imp_le_length)
qed

lemma viewed_uint: "GetViewedCount x = take_bit 8 (uint (drop_bit 8 (l_weight x)))"
  by (simp only: GetViewedCount_def viewed_bits unsigned_take_bit_eq)

lemma exp_eval: "(2 :: int) ^ 8 = 256"
  by simp

lemma GetViewedCount_range: "0 \<le> GetViewedCount x" "GetViewedCount x \<le> 255"
  using take_bit_int_less_exp [of 8 "uint (drop_bit 8 (l_weight x))"] take_bit_nonnegative [of 8 "uint (drop_bit 8 (l_weight x))"]
  unfolding viewed_uint by (simp_all only: exp_eval)

lemma flag_bits:
  "IsRandomed x = bit (l_weight x) 2" "IsUpdateTime x = bit (l_weight x) 1"
  unfolding IsRandomed_def IsUpdateTime_def flag_masks(5,6) bit_and_flag by simp_all

lemma viewed_low_bits: "n < 8 \<Longrightarrow> bit ((w AND 0xFFFF00FF) OR push_bit 8 t) n = bit (w :: u32) n"
  unfolding flag_masks by (simp add: bit_simps)

definition next_viewed :: "u32 \<Rightarrow> u32" where
  "next_viewed w = (let tmp = drop_bit 8 (w AND 0xFF00) + 1 in if tmp > 0xFF then 0xFF else tmp)"

lemma IncViewedCount_next: "IncViewedCount x = x\<lparr>l_weight := (l_weight x AND 0xFFFF00FF) OR push_bit 8 (next_viewed (l_weight x))\<rparr>"
  unfolding IncViewedCount_def next_viewed_def Let_def ..

lemma IncViewedCount_flags [simp]:
  "l_feed (IncViewedCount x) = l_feed x" "l_time (IncViewedCount x) = l_time x"
  "IsRandomed (IncViewedCount x) = IsRandomed x" "IsUpdateTime (IncViewedCount x) = IsUpdateTime x"
  unfolding flag_bits IncViewedCount_next using viewed_low_bits [of 2] viewed_low_bits [of 1]
  by simp_all

lemma next_viewed_value: "uint (next_viewed (l_weight x)) = min 255 (GetViewedCount x + 1)"
proof -
  let ?v = "drop_bit 8 (l_weight x AND 0xFF00)"
  have v: "uint ?v = GetViewedCount x" by (simp only: GetViewedCount_def)
  have "uint (?v + 1) = uint ?v + uint (1 :: u32)"
    by (rule uint_add_lem [THEN iffD1], unfold v) (use GetViewedCount_range [of x] in simp)
  then have v1: "uint (?v + 1) = GetViewedCount x + 1" using v by simp
  show ?thesis unfolding next_viewed_def Let_def if_distrib [of uint] word_less_def v1 by simp
qed

lemma IncViewedCount_count: "GetViewedCount (IncViewedCount x) = min 255 (GetViewedCount x + 1)"
proof -
  let ?t = "next_viewed (l_weight x)"
  have "uint (take_bit 8 ?t) = uint ?t"
    unfolding unsigned_take_bit_eq next_viewed_value
    by (rule take_bit_int_eq_self) (use GetViewedCount_range [of x] in simp_all)
  then have "take_bit 8 ?t = ?t" by (simp only: word_uint_eq_iff)
  then have "take_bit 8 (drop_bit 8 (l_weight (IncViewedCount x))) = ?t"
    unfolding IncViewedCount_next using viewed_put by simp
  then have "GetViewedCount (IncViewedCount x) = uint ?t" by (simp only: GetViewedCount_def viewed_bits)
  then show ?thesis by (simp only: next_viewed_value)
qed

end
