(* ===== verification/NewsRing.thy ===== *)
theory NewsRing
  imports NewsFeed "HOL-Library.Monad_Syntax" "HOL-Library.Multiset"
begin

text \<open>
  The ring that keeps the newest feeds of a user, \<^verbatim>\<open>feed/FeedNewsN/src/LiveFeedCache.{h,cpp}\<close>: its operations on the 250
  slots and on the handles they hold, and what they do to the list of entries, newest first. A null handle that is
  followed has no value. Handles that live inside one statement only are left out.
\<close>

section \<open>Operations\<close>

definition COUNT :: int where "COUNT = 250"
definition KEY_COUNT :: int where "KEY_COUNT = 30"
definition INIT_VIEWED_COUNT :: int where "INIT_VIEWED_COUNT = 2"

record LiveFeed =
  lf_feeds :: "LiveFeedItem list"
  lf_size :: int
  lf_end :: int
  lf_part_size :: "int list"

definition new_ring :: LiveFeed where
  "new_ring = \<lparr>lf_feeds = replicate (nat COUNT) no_item, lf_size = 0, lf_end = 0, lf_part_size = replicate 6 0\<rparr>"

definition Mod :: "int \<Rightarrow> int" where
  "Mod i = (i + COUNT) mod COUNT"

definition slot :: "LiveFeed \<Rightarrow> int \<Rightarrow> LiveFeedItem" where
  "slot r i = lf_feeds r ! nat i"

definition deref :: "FeedPool \<Rightarrow> LiveFeedItem \<Rightarrow> Feed option" where
  "deref p x = Option.bind (l_feed x) p"

text \<open>An assignment to a slot takes the new handle and drops the old one.\<close>

type_synonym Ring = "FeedPool \<times> LiveFeed"

definition hold :: "int option \<Rightarrow> FeedPool \<Rightarrow> FeedPool" where
  "hold h p = (case h of None \<Rightarrow> p | Some i \<Rightarrow> Inc i p)"

definition drop_handle :: "int option \<Rightarrow> FeedPool \<Rightarrow> FeedPool" where
  "drop_handle h p = (case h of None \<Rightarrow> p | Some i \<Rightarrow> Release i p)"

definition set_slot :: "int \<Rightarrow> LiveFeedItem \<Rightarrow> Ring \<Rightarrow> Ring" where
  "set_slot i x s =
     (let (p, r) = s
      in (drop_handle (l_feed (slot r i)) (hold (l_feed x) p), r\<lparr>lf_feeds := (lf_feeds r)[nat i := x]\<rparr>))"

definition null_slot :: "int \<Rightarrow> Ring \<Rightarrow> Ring" where
  "null_slot i s = set_slot i ((slot (snd s) i)\<lparr>l_feed := None\<rparr>) s"

text \<open>Changes the flags or the time of a slot.\<close>

definition on_slot :: "int \<Rightarrow> (LiveFeedItem \<Rightarrow> LiveFeedItem) \<Rightarrow> LiveFeed \<Rightarrow> LiveFeed" where
  "on_slot i f r = r\<lparr>lf_feeds := (lf_feeds r)[nat i := f (slot r i)]\<rparr>"

definition GetIndex :: "int \<Rightarrow> int" where
  "GetIndex stype =
     (let type = stype div 100 * 100
      in if type = 100 then 1 else if type = 500 then 2 else if type = 600 then 3 else if type = 700 then 4
         else if type = 2000 then 5 else 0)"

definition GetSize :: "int \<Rightarrow> LiveFeed \<Rightarrow> int" where
  "GetSize index r = (if index < 0 \<or> index \<ge> int (length (lf_part_size r)) then -1 else lf_part_size r ! nat index)"

definition inc_part :: "int \<Rightarrow> int \<Rightarrow> LiveFeed \<Rightarrow> LiveFeed" where
  "inc_part index step r = r\<lparr>lf_part_size := (lf_part_size r)[nat index := lf_part_size r ! nat index + step]\<rparr>"

definition IncPartSize :: "int \<Rightarrow> int \<Rightarrow> LiveFeed \<Rightarrow> LiveFeed" where
  "IncPartSize stype step r = inc_part (GetIndex stype) step r"

definition dec_size :: "LiveFeed \<Rightarrow> LiveFeed" where
  "dec_size r = r\<lparr>lf_size := lf_size r - 1\<rparr>"

text \<open>An entry with this feed leaves the ring.\<close>

definition lose :: "Feed \<Rightarrow> Ring \<Rightarrow> Ring" where
  "lose f s = (fst s, IncPartSize (SmallType f) (- 1) (dec_size (snd s)))"

text \<open>The loop of \<open>ShiftItems\<close>, which goes round once at most.\<close>

fun shift_loop :: "nat \<Rightarrow> int \<Rightarrow> int \<Rightarrow> Ring \<Rightarrow> Ring" where
  "shift_loop 0 i begin_idx s = s"
| "shift_loop (Suc n) i begin_idx s =
     (if i = begin_idx then s
      else shift_loop n (Mod (i - 1)) begin_idx (set_slot (Mod i) (slot (snd s) (Mod (i - 1))) s))"

definition ShiftItems :: "int \<Rightarrow> int \<Rightarrow> Ring \<Rightarrow> Ring" where
  "ShiftItems del_idx begin_idx s = shift_loop (nat COUNT) (Mod del_idx) (Mod begin_idx) s"

text \<open>Looks from the oldest entry on for one of no key type, or of a key type that has more than its share.\<close>

fun oldest_loop :: "nat \<Rightarrow> int \<Rightarrow> int \<Rightarrow> int \<Rightarrow> Ring \<Rightarrow> (bool \<times> Ring) option" where
  "oldest_loop 0 consumed cur begin_idx s = Some (False, s)"
| "oldest_loop (Suc n) consumed cur begin_idx s =
     do { f \<leftarrow> deref (fst s) (slot (snd s) cur);
          let cur_index = GetIndex (SmallType f);
          if cur_index = 0 \<or> GetSize cur_index (snd s) > KEY_COUNT
          then let s = lose f s
               in Some (True, if consumed > 0 then ShiftItems cur begin_idx s else s)
          else oldest_loop n (consumed + 1) (Mod (cur + 1)) begin_idx s }"

definition RemoveOldest :: "Ring \<Rightarrow> Ring option" where
  "RemoveOldest s =
     (let begin_idx = Mod (lf_end (snd s) - lf_size (snd s))
      in do { (shift, s) \<leftarrow> oldest_loop (nat (lf_size (snd s))) 0 begin_idx begin_idx s;
              if shift then Some s
              else do {
                f \<leftarrow> deref (fst s) (slot (snd s) begin_idx);
                Some (lose f s) } })"

definition Add2 :: "LiveFeedItem \<Rightarrow> bool \<Rightarrow> bool \<Rightarrow> Ring \<Rightarrow> Ring option" where
  "Add2 item updatetime checkenter s =
     do { f \<leftarrow> deref (fst s) item;
          let index = GetIndex (SmallType f);
          s \<leftarrow> (if lf_size (snd s) \<ge> COUNT then RemoveOldest s else Some s);
          let e = lf_end (snd s);
          let (p, r) = set_slot e item s;
          let r = on_slot e (SetUpdateTime updatetime) r;
          let r = (if checkenter then r else on_slot e (inc_viewed (nat INIT_VIEWED_COUNT)) r);
          Some (p, inc_part index 1 (r\<lparr>lf_size := lf_size r + 1, lf_end := Mod (e + 1)\<rparr>)) }"

definition Add :: "FeedItem \<Rightarrow> bool \<Rightarrow> bool \<Rightarrow> Ring \<Rightarrow> Ring option" where
  "Add item updatetime checkenter s =
     (let (h, p) = pool_Add item (fst s); p = Inc h p
      in do { (p, r) \<leftarrow> Add2 (new_item (Some h) (it_weight item) (it_time item)) updatetime checkenter (p, snd s);
              Some (Release h (Release h p), r) })"

text \<open>
  The loop of \<open>Remove\<close> and \<open>RemoveExactly\<close>, from the newest entry to the oldest: entries that are not removed move
  towards the newest end, into the places that became free. \<open>b\<close> is the place to fill, \<open>-1\<close> before the first removal.
\<close>

fun remove_loop :: "(Feed \<Rightarrow> bool) \<Rightarrow> nat \<Rightarrow> int \<Rightarrow> int \<Rightarrow> int list \<Rightarrow> Ring \<Rightarrow> (int list \<times> Ring) option" where
  "remove_loop sel 0 i b feedids s = Some (feedids, s)"
| "remove_loop sel (Suc n) i b feedids s =
     (if i < lf_end (snd s) then Some (feedids, s)
      else do {
        let j = i mod COUNT;
        f \<leftarrow> deref (fst s) (slot (snd s) j);
        if b > 0 then
          if sel f then remove_loop sel n (i - 1) b (feedids @ [f_id f]) (lose f (null_slot j s))
          else remove_loop sel n (i - 1) (b - 1) feedids (null_slot j (set_slot (b mod COUNT) (slot (snd s) j) s))
        else if sel f then remove_loop sel n (i - 1) i (feedids @ [f_id f]) (lose f s)
        else remove_loop sel n (i - 1) b feedids s })"

definition remove_where :: "(Feed \<Rightarrow> bool) \<Rightarrow> Ring \<Rightarrow> (int list \<times> Ring) option" where
  "remove_where sel s = remove_loop sel (nat (lf_size (snd s))) (lf_end (snd s) + COUNT - 1) (- 1) [] s"

definition other_type :: "int \<Rightarrow> int" where
  "other_type stype =
     (if IsComment stype then Comment2Main stype else if IsMain stype then Main2Comment stype else stype)"

definition Remove :: "int \<Rightarrow> int \<Rightarrow> Ring \<Rightarrow> (int list \<times> Ring) option" where
  "Remove stype merge s =
     remove_where (\<lambda>f. (SmallType f = stype \<or> SmallType f = other_type stype) \<and> f_merge f = merge) s"

text \<open>The feed is looked up in the pool, and the handle is given up at the end.\<close>

definition RemoveById :: "int \<Rightarrow> Ring \<Rightarrow> (int list \<times> Ring) option" where
  "RemoveById feed_id s =
     (case pool_Get feed_id (fst s) of
        (None, p) \<Rightarrow> Some ([], p, snd s)
      | (Some h, p) \<Rightarrow> do {
          f \<leftarrow> p h;
          (feedids, p, r) \<leftarrow> Remove (SmallType f) (f_merge f) (p, snd s);
          Some (feedids, Release h p, r) })"

definition RemoveExactly :: "int list \<Rightarrow> Ring \<Rightarrow> Ring option" where
  "RemoveExactly fids s = do { (_, s) \<leftarrow> remove_where (\<lambda>f. f_id f \<in> set fids) s; Some s }"

definition RemoveAll :: "LiveFeed \<Rightarrow> LiveFeed" where
  "RemoveAll r = r\<lparr>lf_size := 0, lf_end := 0, lf_part_size := map (\<lambda>_. 0) (lf_part_size r)\<rparr>"

text \<open>The walk over the entries from the newest on, as positions of slots.\<close>

definition positions :: "LiveFeed \<Rightarrow> int list" where
  "positions r = map (\<lambda>c. (lf_end r + COUNT - 1 - int c) mod COUNT) [0..<nat (lf_size r)]"

primrec feed_items :: "int list \<Rightarrow> Ring \<Rightarrow> FeedItem list option" where
  "feed_items [] s = Some []"
| "feed_items (i # is) s =
     do { f \<leftarrow> deref (fst s) (slot (snd s) i);
          items \<leftarrow> feed_items is s;
          Some (\<lparr>it_feed = f_id f, it_merge = f_merge f, it_type = f_type f, it_time = to_int32 (f_time f),
             it_weight = sint (l_weight (slot (snd s) i)), it_actor = f_actor f\<rparr> # items) }"

definition GetFeedItem :: "Ring \<Rightarrow> FeedItem list option" where
  "GetFeedItem s = feed_items (positions (snd s)) s"

end
