(* ===== verification/NewsMerge.thy ===== *)
theory NewsMerge
  imports NewsRing
begin

text \<open>
  What a page of news is made of, \<^verbatim>\<open>LiveFeed::MergeFeed\<close>, \<^verbatim>\<open>GetGatheredFeed\<close>, \<^verbatim>\<open>GetFeedByType\<close> and \<^verbatim>\<open>GetFeedByStype\<close> of
  \<^verbatim>\<open>feed/FeedNewsN/src/LiveFeedCache.cpp\<close>: the entries of the ring are merged into groups, a feed with its comments, the groups are
  ordered by weight or time, and groups of one actor that are close in time are gathered. A pointer into the ring is the
  number of its slot. The weight of an entry is floating-point arithmetic and is the argument \<open>weigh\<close>; \<open>now\<close> is the clock, which
  is read once.
\<close>

section \<open>Merging\<close>

definition RANDOM_VIEWED_COUNT :: int where "RANDOM_VIEWED_COUNT = 2"

definition ResetEdmTime :: "int \<Rightarrow> int \<Rightarrow> int" where
  "ResetEdmTime now t = (if t = - 1 then to_int32 (now + 480) else if t < 0 then to_int32 (now - t) else t)"

text \<open>The entries at one index of the vectors \<open>merge_feeds\<close>, \<open>weights\<close>, \<open>viewed_count\<close>, \<open>update_times\<close>, \<open>update_bool\<close> and \<open>comment_bool\<close>.\<close>

record MergeGroup =
  g_items :: "int list"
  g_weight :: int
  g_viewed :: int
  g_time :: int
  g_update :: bool
  g_comment :: bool

record MergeState =
  m_groups :: "MergeGroup list"
  m_index :: "int \<times> int \<Rightarrow> nat option"
  m_get_edm :: bool
  m_edm_count :: int
  m_ring :: LiveFeed

type_synonym weigher = "LiveFeedItem \<Rightarrow> Feed \<Rightarrow> int"

definition merge_key :: "Feed \<Rightarrow> int \<times> int" where
  "merge_key f = (push_bit 16 (Ver f) OR Main2Comment (SmallType f), f_merge f)"

definition TOP_WEIGHT :: int where "TOP_WEIGHT = 0x0FFFFFFF"

definition is_edm :: "int \<Rightarrow> LiveFeedItem \<Rightarrow> bool" where
  "is_edm now x \<longleftrightarrow> l_time x < 0 \<or> l_time x > now"

text \<open>An advertisement that is shown for the first time gets a time at which it moves down, and a weight id of nine.\<close>

definition show_edm :: "int \<Rightarrow> LiveFeedItem \<Rightarrow> LiveFeedItem" where
  "show_edm t x = x\<lparr>l_time := t, l_weight := push_bit 16 9 OR (l_weight x AND 0xFF00FFFF)\<rparr>"

text \<open>The entry joins a group.\<close>

definition join_group :: "weigher \<Rightarrow> int \<Rightarrow> int \<Rightarrow> Feed \<Rightarrow> nat \<Rightarrow> MergeState \<Rightarrow> MergeState" where
  "join_group weigh now i f n m =
     (let x = slot (m_ring m) i; g = m_groups m ! n; stype = SmallType f;
          g = g\<lparr>g_items := g_items g @ [i]\<rparr>;
          later = (\<not> g_update g \<and> (\<not> IsMain stype \<or> \<not> g_comment g));
          g = (if later then g\<lparr>g_time := l_time x, g_weight := (if is_edm now x then TOP_WEIGHT else weigh x f)\<rparr> else g);
          r = (if later \<and> l_time x < 0 then on_slot i (show_edm (ResetEdmTime now (l_time x))) (m_ring m) else m_ring m);
          g = (if GetViewedCount (slot r i) > g_viewed g then g\<lparr>g_viewed := GetViewedCount (slot r i)\<rparr> else g);
          g = (if IsComment stype then g\<lparr>g_comment := True\<rparr> else g)
      in m\<lparr>m_groups := (m_groups m)[n := g], m_ring := r\<rparr>)"

definition push_group :: "int \<Rightarrow> Feed \<Rightarrow> int \<Rightarrow> MergeState \<Rightarrow> MergeState" where
  "push_group i f weight m =
     (let x = slot (m_ring m) i
      in m\<lparr>m_groups := m_groups m @ [\<lparr>g_items = [i], g_weight = weight, g_viewed = GetViewedCount x, g_time = l_time x,
              g_update = IsUpdateTime x, g_comment = IsComment (SmallType f)\<rparr>],
           m_index := (m_index m)(merge_key f \<mapsto> length (m_groups m))\<rparr>)"

text \<open>The entry is the first of its key. Of several advertisements only the first gets a group.\<close>

definition new_group :: "weigher \<Rightarrow> int \<Rightarrow> int \<Rightarrow> Feed \<Rightarrow> MergeState \<Rightarrow> MergeState" where
  "new_group weigh now i f m =
     (let x = slot (m_ring m) i
      in if is_edm now x then
           let r = (if l_time x < 0
                    then on_slot i (show_edm (if m_get_edm m then to_int32 now else ResetEdmTime now (l_time x))) (m_ring m)
                    else m_ring m);
               tmp_edm_count = (if l_time x < 0 then - 1 else 1);
               m = m\<lparr>m_ring := r\<rparr>
           in if m_get_edm m then m
              else (push_group i f TOP_WEIGHT m)\<lparr>m_get_edm := True, m_edm_count := tmp_edm_count\<rparr>
         else push_group i f (weigh x f) m)"

definition merge_entry :: "weigher \<Rightarrow> int \<Rightarrow> int \<Rightarrow> bool \<Rightarrow> FeedPool \<Rightarrow> int \<Rightarrow> MergeState \<Rightarrow> MergeState option" where
  "merge_entry weigh now bgn getcomment p i m =
     (let m = (if bgn = 0 then m\<lparr>m_ring := on_slot i ClearRandomed (m_ring m)\<rparr> else m)
      in if IsRandomed (slot (m_ring m) i) then Some m
         else do {
           f \<leftarrow> deref p (slot (m_ring m) i);
           if \<not> getcomment \<and> IsComment (SmallType f) then Some m
           else Some (case m_index m (merge_key f) of
             Some n \<Rightarrow> join_group weigh now i f n m
           | None \<Rightarrow> new_group weigh now i f m) })"

primrec merge_loop :: "weigher \<Rightarrow> int \<Rightarrow> int \<Rightarrow> bool \<Rightarrow> FeedPool \<Rightarrow> int list \<Rightarrow> MergeState \<Rightarrow> MergeState option" where
  "merge_loop weigh now bgn getcomment p [] m = Some m"
| "merge_loop weigh now bgn getcomment p (i # is) m =
     do { m \<leftarrow> merge_entry weigh now bgn getcomment p i m; merge_loop weigh now bgn getcomment p is m }"

text \<open>The multimap \<open>order_by_time\<close>, read backwards: equal keys stay in the order of their insertion in the map.\<close>

definition order_desc :: "bool \<Rightarrow> MergeGroup list \<Rightarrow> nat list" where
  "order_desc by_weight gs = map snd (rev (sort_key fst (zip (map (if by_weight then g_weight else g_time) gs) [0..<length gs])))"

definition MergeFeed :: "weigher \<Rightarrow> int \<Rightarrow> int \<Rightarrow> bool \<Rightarrow> int \<Rightarrow> bool \<Rightarrow> Ring \<Rightarrow> (MergeState \<times> nat list) option" where
  "MergeFeed weigh now bgn by_weight edm_count getcomment s =
     (let m = \<lparr>m_groups = [], m_index = Map.empty, m_get_edm = False, m_edm_count = edm_count, m_ring = snd s\<rparr>
      in do { m \<leftarrow> merge_loop weigh now bgn getcomment (fst s) (positions (snd s)) m;
              Some (m, order_desc by_weight (m_groups m)) })"

section \<open>Pages by type\<close>

text \<open>The groups as vectors of handles.\<close>

type_synonym gathered = "int option list list"

definition handles_at :: "LiveFeed \<Rightarrow> int list \<Rightarrow> int option list" where
  "handles_at r is = map (\<lambda>i. l_feed (slot r i)) is"

primrec by_type :: "(Feed \<Rightarrow> bool) \<Rightarrow> FeedPool \<Rightarrow> MergeState \<Rightarrow> nat list \<Rightarrow> gathered list option" where
  "by_type wanted p m [] = Some []"
| "by_type wanted p m (n # ns) =
     do { f \<leftarrow> deref p (slot (m_ring m) (hd (g_items (m_groups m ! n))));
          res \<leftarrow> by_type wanted p m ns;
          Some (if wanted f then [handles_at (m_ring m) (g_items (m_groups m ! n))] # res else res) }"

definition get_by :: "(Feed \<Rightarrow> bool) \<Rightarrow> weigher \<Rightarrow> int \<Rightarrow> int \<Rightarrow> bool \<Rightarrow> Ring \<Rightarrow> (gathered list \<times> Ring) option" where
  "get_by wanted weigh now bgn hot s =
     do { (m, order) \<leftarrow> MergeFeed weigh now bgn hot 0 False s;
          res \<leftarrow> by_type wanted (fst s) m order;
          Some (res, fst s, m_ring m) }"

definition GetFeedByType :: "weigher \<Rightarrow> int \<Rightarrow> int list \<Rightarrow> int \<Rightarrow> bool \<Rightarrow> Ring \<Rightarrow> (gathered list \<times> Ring) option" where
  "GetFeedByType weigh now types bgn hot s = get_by (\<lambda>f. BigType f \<in> set types) weigh now bgn hot s"

definition GetFeedByStype :: "weigher \<Rightarrow> int \<Rightarrow> int list \<Rightarrow> int \<Rightarrow> bool \<Rightarrow> Ring \<Rightarrow> (gathered list \<times> Ring) option" where
  "GetFeedByStype weigh now types bgn hot s = get_by (\<lambda>f. SmallType f \<in> set types) weigh now bgn hot s"

section \<open>The gathered page\<close>

record GatherState =
  gs_res :: "gathered list"
  gs_flags :: "int \<times> int \<Rightarrow> (int \<times> nat) option"
  gs_unviewed :: int
  gs_least :: "nat list"
  gs_least_count :: int
  gs_ring :: LiveFeed

text \<open>The newest feed of a group that is no comment.\<close>

primrec first_main :: "FeedPool \<Rightarrow> LiveFeed \<Rightarrow> int list \<Rightarrow> Feed option option" where
  "first_main p r [] = Some None"
| "first_main p r (i # is) =
     do { f \<leftarrow> deref p (slot r i); if \<not> IsComment (SmallType f) then Some (Some f) else first_main p r is }"

definition on_slots :: "int list \<Rightarrow> (LiveFeedItem \<Rightarrow> LiveFeedItem) \<Rightarrow> LiveFeed \<Rightarrow> LiveFeed" where
  "on_slots is f r = fold (\<lambda>i. on_slot i f) is r"

text \<open>What a page that shows a group does to its entries.\<close>

definition mark_viewed :: "int \<Rightarrow> int \<Rightarrow> int \<Rightarrow> LiveFeedItem \<Rightarrow> LiveFeedItem" where
  "mark_viewed bgn limit len x =
     (let x = (if limit > 0 \<and> GetViewedCount x = 0 then IncViewedCount x else x)
      in if limit > 0 \<and> len \<ge> bgn \<and> len < to_int32 (bgn + limit) then IncViewedCount x else x)"

definition GATHER_TIME :: "Feed \<Rightarrow> int" where
  "GATHER_TIME f = (if SmallType f = 2002 \<or> SmallType f = 3707 then 60 * 60 * 24 else 60 * 5)"

definition gather_group :: "int \<Rightarrow> int \<Rightarrow> bool \<Rightarrow> nat \<Rightarrow> MergeGroup \<Rightarrow> Feed \<Rightarrow> GatherState \<Rightarrow> GatherState" where
  "gather_group bgn limit hot n g f s =
     (let stype = SmallType f;
          s = (if bgn = 0 \<and> hot \<and> stype = 601 \<and> g_viewed g < gs_least_count s \<and> length (gs_res s) > 20
               then s\<lparr>gs_least := [n], gs_least_count := g_viewed g\<rparr> else s);
          s = (if g_viewed g = 0 then s\<lparr>gs_unviewed := gs_unviewed s + 1\<rparr> else s);
          hs = handles_at (gs_ring s) (g_items g)
      in case gs_flags s (GatherKey f) of
           Some (t, k) \<Rightarrow>
             if stype \<noteq> 2901 \<and> \<bar>t - f_time f\<bar> < GATHER_TIME f
             then s\<lparr>gs_res := (gs_res s)[k := gs_res s ! k @ [hs]],
                    gs_ring := on_slots (g_items g) (mark_viewed bgn limit (int (length (gs_res s)))) (gs_ring s)\<rparr>
             else s\<lparr>gs_res := gs_res s @ [[hs]],
                    gs_ring := on_slots (g_items g) (mark_viewed bgn limit (int (length (gs_res s)) + 1)) (gs_ring s),
                    gs_flags := (gs_flags s)(GatherKey f \<mapsto> (to_int32 (f_time f), length (gs_res s)))\<rparr>
         | None \<Rightarrow>
             s\<lparr>gs_res := gs_res s @ [[hs]],
               gs_ring := on_slots (g_items g) (mark_viewed bgn limit (int (length (gs_res s)) + 1)) (gs_ring s),
               gs_flags := (gs_flags s)(GatherKey f \<mapsto> (to_int32 (f_time f), length (gs_res s)))\<rparr>)"

primrec gather_loop :: "FeedPool \<Rightarrow> int \<Rightarrow> int \<Rightarrow> bool \<Rightarrow> MergeGroup list \<Rightarrow> nat list \<Rightarrow> GatherState \<Rightarrow> GatherState option" where
  "gather_loop p bgn limit hot gs [] s = Some s"
| "gather_loop p bgn limit hot gs (n # ns) s =
     do { fo \<leftarrow> first_main p (gs_ring s) (g_items (gs ! n));
          gather_loop p bgn limit hot gs ns
            (case fo of None \<Rightarrow> s | Some f \<Rightarrow> gather_group bgn limit hot n (gs ! n) f s) }"

definition mark_random :: "LiveFeedItem \<Rightarrow> LiveFeedItem" where
  "mark_random x = SetRandomed (IncViewedCount (inc_viewed (nat (INIT_VIEWED_COUNT - GetViewedCount x)) x))"

text \<open>The page, the group shown in addition, the counts of groups not viewed and of advertisements, and the ring.\<close>

definition GetGatheredFeed :: "weigher \<Rightarrow> int \<Rightarrow> int \<Rightarrow> int \<Rightarrow> bool \<Rightarrow> int \<Rightarrow> Ring \<Rightarrow> (gathered list \<times> gathered list \<times> int \<times> int \<times> Ring) option" where
  "GetGatheredFeed weigh now bgn limit hot edm_count s =
     do { (m, order) \<leftarrow> MergeFeed weigh now bgn hot edm_count True s;
          g \<leftarrow> gather_loop (fst s) bgn limit hot (m_groups m) order
            \<lparr>gs_res = [], gs_flags = Map.empty, gs_unviewed = 0, gs_least = [], gs_least_count = RANDOM_VIEWED_COUNT, gs_ring = m_ring m\<rparr>;
          Some (case gs_least g of
            [] \<Rightarrow> (gs_res g, [], gs_unviewed g, m_edm_count m, fst s, gs_ring g)
          | n # _ \<Rightarrow>
              let is = g_items (m_groups m ! n)
              in (gs_res g, [[handles_at (gs_ring g) is]], gs_unviewed g, m_edm_count m, fst s, on_slots is mark_random (gs_ring g))) }"

end
