(* ===== verification/NewsServer.thy ===== *)
theory NewsServer
  imports NewsMerge
begin

text \<open>
  The news server, \<^verbatim>\<open>feed/FeedNewsN/src/FeedItemI.{h,cpp}\<close> and \<^verbatim>\<open>EDMFeed.h\<close>: the rings of the users in memory, at most a hundred in each of
  ten thousand buckets, the advertisements by user in memory and in the database, and the requests that load, add and
  remove feeds. Requests run one after the other; each holds the lock of its bucket while it works on a ring. The feed cache is
  another service: the items it has for a user are the argument \<open>cache\<close>, where \<open>None\<close> is an exception, and the calls that change
  it are recorded in the state. The statements on the database succeed.
\<close>

section \<open>Advertisements\<close>

record EdmRow =
  er_user :: int
  er_feed :: int
  er_merge :: int
  er_type :: int
  er_weight :: int

record EDM =
  edm_inited :: bool
  edm_index :: int
  edm_pool :: "int \<Rightarrow> FeedItem list option"
  edm_rows :: "EdmRow list"

definition edm_item :: "EdmRow \<Rightarrow> FeedItem" where
  "edm_item row = \<lparr>it_feed = er_feed row, it_merge = er_merge row, it_type = er_type row, it_time = - 1,
     it_weight = er_weight row, it_actor = er_user row\<rparr>"

definition edm_push :: "int \<Rightarrow> FeedItem \<Rightarrow> EDM \<Rightarrow> EDM" where
  "edm_push uid item e =
     e\<lparr>edm_pool := (edm_pool e)(uid \<mapsto> (case edm_pool e uid of None \<Rightarrow> [] | Some items \<Rightarrow> items) @ [item])\<rparr>"

definition getEDMFeed :: "int \<Rightarrow> EDM \<Rightarrow> FeedItem list" where
  "getEDMFeed uid e =
     (if \<not> edm_inited e then map edm_item (filter (\<lambda>row. er_user row = uid) (edm_rows e))
      else case edm_pool e uid of Some items \<Rightarrow> items | None \<Rightarrow> [])"

definition addEDMFeed :: "FeedItem \<Rightarrow> int \<Rightarrow> EDM \<Rightarrow> EDM" where
  "addEDMFeed item uid e =
     edm_push uid item (e\<lparr>edm_rows := edm_rows e @ [\<lparr>er_user = uid, er_feed = it_feed item, er_merge = it_merge item,
       er_type = it_type item, er_weight = it_weight item\<rparr>]\<rparr>)"

text \<open>Loads the table of this server.\<close>

definition edm_load :: "EDM \<Rightarrow> EDM" where
  "edm_load e =
     (if edm_index e \<ge> 0 \<and> edm_index e < 20
      then (fold (\<lambda>row. edm_push (er_user row) (edm_item row)) (filter (\<lambda>row. er_user row mod 20 = edm_index e) (edm_rows e)) e)
             \<lparr>edm_inited := True\<rparr>
      else e)"

definition removeUser :: "int \<Rightarrow> EDM \<Rightarrow> EDM" where
  "removeUser uid e = e\<lparr>edm_pool := (edm_pool e)(uid := None), edm_rows := filter (\<lambda>row. er_user row \<noteq> uid) (edm_rows e)\<rparr>"

section \<open>The users in memory\<close>

text \<open>Calls to the feed cache and to the loader of contents.\<close>

datatype CacheCall = CacheRemove int int | CacheRemoveAll int | LoadFeedSeq "int list"

record News =
  n_pool :: FeedPool
  n_users :: "int \<Rightarrow> (int \<times> LiveFeed) list"
  n_edm :: EDM
  n_calls :: "CacheCall list"

definition POOL_SIZE :: int where "POOL_SIZE = 10000"
definition MAX_USER_COUNT :: int where "MAX_USER_COUNT = 100"

text \<open>Division in C++ truncates; a negative index is outside of the array and has no value.\<close>

definition user_index :: "int \<Rightarrow> int option" where
  "user_index uid = (let i = sgn uid * (\<bar>uid\<bar> div 20 mod POOL_SIZE) in if i < 0 then None else Some i)"

definition GetUserFeed :: "int \<Rightarrow> bool \<Rightarrow> (int \<times> LiveFeed) list \<Rightarrow> LiveFeed option \<times> (int \<times> LiveFeed) list" where
  "GetUserFeed uid relocate us =
     (case map_of us uid of
        None \<Rightarrow> (None, us)
      | Some r \<Rightarrow> (Some r, if relocate then (uid, r) # filter (\<lambda>u. fst u \<noteq> uid) us else us))"

definition set_user :: "int \<Rightarrow> LiveFeed \<Rightarrow> (int \<times> LiveFeed) list \<Rightarrow> (int \<times> LiveFeed) list" where
  "set_user uid r us = map (\<lambda>u. if fst u = uid then (uid, r) else u) us"

text \<open>The destructor of a ring gives up the handles of its slots.\<close>

definition destroy :: "LiveFeed \<Rightarrow> FeedPool \<Rightarrow> FeedPool" where
  "destroy r p = foldr (\<lambda>x. drop_handle (l_feed x)) (lf_feeds r) p"

definition on_bucket :: "int \<Rightarrow> (int \<times> LiveFeed) list \<Rightarrow> News \<Rightarrow> News" where
  "on_bucket i us s = s\<lparr>n_users := (n_users s)(i := us)\<rparr>"

text \<open>Works on the ring of a user, if it is in memory.\<close>

definition with_user :: "int \<Rightarrow> (Ring \<Rightarrow> ('a \<times> Ring) option) \<Rightarrow> News \<Rightarrow> ('a option \<times> News) option" where
  "with_user uid f s =
     do { i \<leftarrow> user_index uid;
          case GetUserFeed uid False (n_users s i) of
            (None, us) \<Rightarrow> Some (None, on_bucket i us s)
          | (Some r, us) \<Rightarrow> do {
              (a, p, r) \<leftarrow> f (n_pool s, r);
              Some (Some a, on_bucket i (set_user uid r us) (s\<lparr>n_pool := p\<rparr>)) } }"

definition EraseUser :: "int \<Rightarrow> News \<Rightarrow> News option" where
  "EraseUser uid s =
     (if uid < 0 then Some s
      else do {
        i \<leftarrow> user_index uid;
        Some (case map_of (n_users s i) uid of
          None \<Rightarrow> s
        | Some r \<Rightarrow> on_bucket i (filter (\<lambda>u. fst u \<noteq> uid) (n_users s i)) (s\<lparr>n_pool := destroy r (n_pool s)\<rparr>)) })"

text \<open>
  The ring is copied into the bucket and the local one is destroyed, so the handles stay as they are; a user that is there
  already keeps its ring and moves to the front.
\<close>

definition AddUserFeed :: "int \<Rightarrow> LiveFeed \<Rightarrow> News \<Rightarrow> News option" where
  "AddUserFeed uid r s =
     do { i \<leftarrow> user_index uid;
          let us = n_users s i;
          Some (case map_of us uid of
            Some q \<Rightarrow> on_bucket i ((uid, q) # filter (\<lambda>u. fst u \<noteq> uid) us) (s\<lparr>n_pool := destroy r (n_pool s)\<rparr>)
          | None \<Rightarrow>
              let us = (uid, r) # us
              in if int (length us) > MAX_USER_COUNT
                 then on_bucket i (butlast us) (s\<lparr>n_pool := destroy (snd (last us)) (n_pool s)\<rparr>)
                 else on_bucket i us s) }"

section \<open>Requests that change rings\<close>

primrec add_items :: "FeedItem list \<Rightarrow> Ring \<Rightarrow> Ring option" where
  "add_items [] s = Some s"
| "add_items (item # items) s = do { s \<leftarrow> Add item True False s; add_items items s }"

definition LoadFeed :: "(int \<Rightarrow> FeedItem list option) \<Rightarrow> int \<Rightarrow> News \<Rightarrow> (bool \<times> News) option" where
  "LoadFeed cache uid s =
     (case cache uid of
        None \<Rightarrow> Some (False, s)
      | Some items \<Rightarrow> do {
          i \<leftarrow> user_index uid;
          if fst (GetUserFeed uid False (n_users s i)) \<noteq> None then Some (True, s)
          else do {
            (p, r) \<leftarrow> add_items (rev items) (n_pool s, new_ring);
            (p, r) \<leftarrow> add_items (getEDMFeed uid (n_edm s)) (p, r);
            s \<leftarrow> AddUserFeed uid r (s\<lparr>n_pool := p\<rparr>);
            Some (True, s) } })"

text \<open>The loop over the users and their weights. The weight is written into the item once a ring was found.\<close>

fun add_feed_loop :: "bool \<Rightarrow> (int \<times> int) list \<Rightarrow> FeedItem \<Rightarrow> News \<Rightarrow> News option" where
  "add_feed_loop updateTime [] item s = Some s"
| "add_feed_loop updateTime ((uid, weight) # id2weight) item s =
     (let s = (if it_time item < 0 then s\<lparr>n_edm := addEDMFeed item uid (n_edm s)\<rparr> else s)
      in do { (found, s) \<leftarrow> with_user uid (\<lambda>ring. do { ring \<leftarrow> Add (item\<lparr>it_weight := weight\<rparr>) updateTime True ring; Some ((), ring) }) s;
              add_feed_loop updateTime id2weight (if found = None then item else item\<lparr>it_weight := weight\<rparr>) s })"

definition AddFeed :: "FeedItem \<Rightarrow> bool \<Rightarrow> (int, int) stdmap \<Rightarrow> News \<Rightarrow> News option" where
  "AddFeed item updateTime id2weight s = add_feed_loop updateTime id2weight item s"

definition cache_removes :: "int \<Rightarrow> int list \<Rightarrow> News \<Rightarrow> News" where
  "cache_removes uid feedids s = s\<lparr>n_calls := n_calls s @ map (CacheRemove uid) feedids\<rparr>"

definition SetRead :: "int \<Rightarrow> int \<Rightarrow> int \<Rightarrow> News \<Rightarrow> News option" where
  "SetRead uid stype merge s =
     (if uid < 0 then Some s
      else do {
        (feedids, s) \<leftarrow> with_user uid (Remove stype merge) s;
        Some (cache_removes uid (case feedids of None \<Rightarrow> [] | Some ids \<Rightarrow> ids) s) })"

definition SetReadById :: "int \<Rightarrow> int \<Rightarrow> News \<Rightarrow> News option" where
  "SetReadById uid feedId s =
     (if uid < 0 then Some s
      else do {
        (feedids, s) \<leftarrow> with_user uid (RemoveById feedId) s;
        Some (cache_removes uid (case feedids of None \<Rightarrow> [] | Some ids \<Rightarrow> ids) s) })"

definition SetReadAll :: "int \<Rightarrow> News \<Rightarrow> News option" where
  "SetReadAll uid s =
     (if uid < 0 then Some s
      else do {
        (_, s) \<leftarrow> with_user uid (\<lambda>(p, r). Some ((), p, RemoveAll r)) s;
        Some (s\<lparr>n_calls := n_calls s @ [CacheRemoveAll uid]\<rparr>) })"

section \<open>Requests that only read\<close>

definition GetOriginalFeedData :: "int \<Rightarrow> News \<Rightarrow> (FeedItem list \<times> News) option" where
  "GetOriginalFeedData uid s =
     (if uid < 0 then Some ([], s)
      else do {
        (seq, s) \<leftarrow> with_user uid (\<lambda>ring. do { items \<leftarrow> GetFeedItem ring; Some (items, ring) }) s;
        Some (case seq of None \<Rightarrow> [] | Some items \<Rightarrow> items, s) })"

text \<open>The count of news the user has not viewed, by way of a page of no length.\<close>

definition GetUnviewedCount :: "weigher \<Rightarrow> int \<Rightarrow> int \<Rightarrow> News \<Rightarrow> (int \<times> News) option" where
  "GetUnviewedCount weigh now uid s =
     (if uid < 0 then Some (0, s)
      else do {
        (n, s) \<leftarrow> with_user uid (\<lambda>ring. do {
            (_, _, unviewed, _, ring) \<leftarrow> GetGatheredFeed weigh now 0 0 False 0 ring; Some (unviewed, ring) }) s;
        Some (case n of None \<Rightarrow> 0 | Some k \<Rightarrow> k, s) })"

end
