(* ===== verification/NewsBuild.thy ===== *)
theory NewsBuild
  imports NewsServer
begin

text \<open>
  Pages as data, the building part of \<^verbatim>\<open>feed/FeedNewsN/src/FeedItemI.cpp\<close>: \<open>BuildAFeed\<close> makes one piece of data out of the
  groups of a row, \<open>BuildBasicFeedData\<close> the data of a page, and the requests for pages. The contents of feeds are held by other services: \<open>e_content\<close>
  is the dictionary that the content service has for a list of ids, \<open>e_loader\<close> that of the loader, both \<open>None\<close> for an exception.
  The entries of a dictionary share no object. The data in an answer are pointers into the dictionary, whose texts are overwritten
  while the page is built; they are read when the answer is complete. A null pointer that is followed throws; then the answer is \<open>None\<close>, and
  the state is what it was at that point.
\<close>

section \<open>Contents\<close>

record FeedReply =
  rp_old_id :: int
  rp_old :: string
  rp_new_id :: int
  rp_new :: string
  rp_count :: int

record FeedData =
  fd_feed :: int
  fd_source :: int
  fd_actor :: int
  fd_type :: int
  fd_xml :: string
  fd_time :: int
  fd_weight :: int

record FeedContent =
  fc_data :: "FeedData option"
  fc_reply :: "FeedReply option"

type_synonym FeedContentDict = "(int, FeedContent option) stdmap"

text \<open>Decimal numbers and elements as the streams print them.\<close>

fun show_nat :: "nat \<Rightarrow> string" where
  "show_nat n = (if n < 10 then [char_of (48 + n)] else show_nat (n div 10) @ [char_of (48 + n mod 10)])"

declare show_nat.simps [simp del]

definition show_int :: "int \<Rightarrow> string" where
  "show_int i = (if i < 0 then CHR ''-'' # show_nat (nat (- i)) else show_nat (nat i))"

definition element :: "string \<Rightarrow> string \<Rightarrow> string" where
  "element name body = ''<'' @ name @ ''>'' @ body @ ''</'' @ name @ ''>''"

definition reply_xml :: "FeedReply \<Rightarrow> string" where
  "reply_xml r = rp_old r @ rp_new r @ element ''reply_count'' (show_int (rp_count r))"

section \<open>One row of a page\<close>

definition FeedMergeReplace :: int where "FeedMergeReplace = 1"
definition FeedMergeAppend :: int where "FeedMergeAppend = 2"

text \<open>The variables of \<open>BuildAFeed\<close>; \<open>bd_data\<close> is the key whose data it points to. The last three start anew with each group.\<close>

record Builder =
  bd_data :: "int option"
  bd_reply :: "FeedReply option"
  bd_xml :: string
  bd_valid :: "int list"
  bd_remove :: "int list"
  bd_gather :: int
  bd_commenters :: "int list"
  bd_getid :: bool
  bd_merge_count :: int
  bd_main_count :: int

definition new_builder :: Builder where
  "new_builder = \<lparr>bd_data = None, bd_reply = None, bd_xml = [], bd_valid = [], bd_remove = [], bd_gather = 0, bd_commenters = [],
     bd_getid = False, bd_merge_count = 0, bd_main_count = 0\<rparr>"

text \<open>The data and the reply come from the first content; a reply can also come from a feed that is commented on.\<close>

definition choose_data :: "bool \<Rightarrow> Feed \<Rightarrow> FeedContent \<Rightarrow> Builder \<Rightarrow> Builder" where
  "choose_data main_with_comment f c b =
     (let b = (if bd_gather b = 0 \<and> bd_data b = None then b\<lparr>bd_data := Some (f_id f), bd_reply := fc_reply c\<rparr> else b)
      in if bd_gather b = 0 \<and> IsMain (SmallType f) \<and> main_with_comment \<and> bd_reply b = None then b\<lparr>bd_reply := fc_reply c\<rparr> else b)"

text \<open>A comment is shown if it is by one of the first five commenters.\<close>

definition choose_comment :: "Feed \<Rightarrow> Builder \<Rightarrow> bool \<times> Builder" where
  "choose_comment f b =
     (if bd_gather b = 0 \<and> IsComment (SmallType f) then
        let size = length (bd_commenters b)
        in if size < 5 then (True, b\<lparr>bd_commenters := s_insert (f_actor f) (bd_commenters b)\<rparr>)
           else if size = 5 \<and> f_actor f \<in> set (bd_commenters b) then (True, b)
           else (False, b\<lparr>bd_remove := bd_remove b @ [f_id f]\<rparr>)
      else (False, b))"

definition choose_add :: "bool \<Rightarrow> bool \<Rightarrow> Feed \<Rightarrow> Builder \<Rightarrow> bool \<times> Builder" where
  "choose_add main_with_comment comment_ok f b =
     (let is_main = IsMain (SmallType f); is_comment = IsComment (SmallType f)
      in if comment_ok then (True, b)
         else if is_main \<and> main_with_comment \<and> bd_main_count b < 5 then (True, b\<lparr>bd_main_count := bd_main_count b + 1\<rparr>)
         else if \<not> is_main \<and> \<not> is_comment \<or> is_main \<and> \<not> main_with_comment
         then (bd_merge_count b = 0 \<and> NewsMergeType f = FeedMergeReplace \<or> bd_merge_count b < 5 \<and> NewsMergeType f = FeedMergeAppend, b)
         else (False, b))"

definition take_content :: "bool \<Rightarrow> Feed \<Rightarrow> FeedContent \<Rightarrow> Builder \<Rightarrow> Builder option" where
  "take_content main_with_comment f c b =
     (case fc_data c of
        None \<Rightarrow> None
      | Some d \<Rightarrow>
          (let b = choose_data main_with_comment f c b;
               (comment_ok, b) = choose_comment f b;
               b = (if bd_gather b = 0 \<and> bd_data b \<noteq> None then
                      let (add, b) = choose_add main_with_comment comment_ok f b
                      in if add then b\<lparr>bd_xml := bd_xml b @ fd_xml d, bd_merge_count := bd_merge_count b + 1\<rparr> else b
                    else b)
           in Some (if bd_gather b > 0 \<and> \<not> bd_getid b then b\<lparr>bd_valid := bd_valid b @ [f_id f], bd_getid := True\<rparr> else b)))"

text \<open>The loop over a group. An id without a content is skipped, one with a null content is removed.\<close>

fun build_group :: "FeedContentDict \<Rightarrow> bool \<Rightarrow> int \<Rightarrow> Feed list \<Rightarrow> Builder \<Rightarrow> Builder option" where
  "build_group dict main_with_comment k [] b = Some b"
| "build_group dict main_with_comment k (f # fs) b =
     do { b \<leftarrow> (case m_find dict (f_id f) of
              None \<Rightarrow> Some b
            | Some None \<Rightarrow> Some (b\<lparr>bd_remove := bd_remove b @ [f_id f]\<rparr>)
            | Some (Some c) \<Rightarrow> take_content main_with_comment f c b);
          if IsComment (SmallType f) \<or> IsMain (SmallType f) then build_group dict main_with_comment (k + 1) fs b
          else if NewsMergeType f = FeedMergeReplace then Some b
          else if NewsMergeType f = FeedMergeAppend \<and> k \<ge> 5 then Some b
          else build_group dict main_with_comment (k + 1) fs b }"

fun build_groups :: "FeedContentDict \<Rightarrow> Feed list list \<Rightarrow> Builder \<Rightarrow> Builder option" where
  "build_groups dict [] b = Some b"
| "build_groups dict (g # gs) b =
     (let (_, main_with_comment, g) = Sort g
      in do { b \<leftarrow> build_group dict main_with_comment 0 g (b\<lparr>bd_getid := False, bd_merge_count := 0, bd_main_count := 0\<rparr>);
              build_groups dict gs (if bd_data b \<noteq> None then b\<lparr>bd_gather := bd_gather b + 1\<rparr> else b) })"

definition data_at :: "FeedContentDict \<Rightarrow> int \<Rightarrow> FeedData option" where
  "data_at dict k = (case m_find dict k of Some (Some c) \<Rightarrow> fc_data c | _ \<Rightarrow> None)"

definition put_xml :: "int \<Rightarrow> string \<Rightarrow> FeedContentDict \<Rightarrow> FeedContentDict" where
  "put_xml k xml dict =
     map (\<lambda>e. if fst e = k then (k, map_option (\<lambda>c. c\<lparr>fc_data := map_option (\<lambda>d. d\<lparr>fd_xml := xml\<rparr>) (fc_data c)\<rparr>) (snd e)) else e) dict"

text \<open>What follows the contents in the text: the replies, the ids of the gathered groups, and for some types the reader.\<close>

definition end_xml :: "int \<Rightarrow> FeedContentDict \<Rightarrow> Builder \<Rightarrow> string" where
  "end_xml uid dict b =
     (case bd_reply b of None \<Rightarrow> [] | Some r \<Rightarrow> reply_xml r) @
     (if bd_valid b = [] then []
      else element ''merge_feed'' (element ''count'' (show_nat (length (bd_valid b))) @ concat (map (\<lambda>i. element ''fid'' (show_int i)) (bd_valid b)))) @
     (case Option.bind (bd_data b) (data_at dict) of
        None \<Rightarrow> []
      | Some d \<Rightarrow> if fd_type d AND 0xFFFF \<in> {8001..8005} then element ''user'' (element ''uID'' (show_int uid)) else [])"

text \<open>The key of the data, the ids to be removed, and the dictionary with the new text.\<close>

definition build_row :: "int \<Rightarrow> FeedContentDict \<Rightarrow> Feed list list \<Rightarrow> (int option \<times> int list \<times> FeedContentDict) option" where
  "build_row uid dict gs =
     do { b \<leftarrow> build_groups dict gs new_builder;
          Some (bd_data b, bd_remove b,
            case bd_data b of None \<Rightarrow> dict | Some k \<Rightarrow> put_xml k (bd_xml b @ end_xml uid dict b) dict) }"

text \<open>The feeds that the handles of a row or a page refer to.\<close>

definition deref_handle :: "FeedPool \<Rightarrow> int option \<Rightarrow> Feed option" where
  "deref_handle p h = Option.bind h p"

definition deref_row :: "FeedPool \<Rightarrow> gathered \<Rightarrow> Feed list list option" where
  "deref_row p row = those (map (\<lambda>g. those (map (deref_handle p) g)) row)"

definition deref_page :: "FeedPool \<Rightarrow> gathered list \<Rightarrow> Feed list list list option" where
  "deref_page p page = those (map (deref_row p) page)"

definition remove_feeds :: "int \<Rightarrow> int list \<Rightarrow> News \<Rightarrow> News option" where
  "remove_feeds uid fids s =
     (if fids = [] then Some s
      else do { (_, s) \<leftarrow> with_user uid (\<lambda>ring. do { ring \<leftarrow> RemoveExactly fids ring; Some ((), ring) }) s;
                Some (cache_removes uid fids s) })"

definition BuildAFeed :: "int \<Rightarrow> gathered \<Rightarrow> FeedContentDict \<Rightarrow> News \<Rightarrow> ((int option \<times> FeedContentDict) option \<times> News) option" where
  "BuildAFeed uid row dict s =
     do { fs \<leftarrow> deref_row (n_pool s) row;
          case build_row uid dict fs of
            None \<Rightarrow> Some (None, s)
          | Some (d, fids, dict) \<Rightarrow> do { s \<leftarrow> remove_feeds uid fids s; Some (Some (d, dict), s) } }"

section \<open>A page\<close>

definition insert_all :: "FeedContentDict \<Rightarrow> FeedContentDict \<Rightarrow> FeedContentDict" where
  "insert_all dict new = foldl (\<lambda>m e. if m_find m (fst e) = None then m_put (fst e) (snd e) m else m) dict new"

definition CheckLoad :: "(int list \<Rightarrow> FeedContentDict option) \<Rightarrow> int list \<Rightarrow> FeedContentDict \<Rightarrow> News \<Rightarrow> FeedContentDict \<times> News" where
  "CheckLoad loader fids dict s =
     (let miss_ids = filter (\<lambda>i. m_find dict i = None) fids
      in if miss_ids = [] then (dict, s)
         else if dict \<noteq> [] then (dict, s\<lparr>n_calls := n_calls s @ [LoadFeedSeq miss_ids]\<rparr>)
         else (case loader miss_ids of None \<Rightarrow> (dict, s) | Some dict_loader \<Rightarrow> (insert_all dict dict_loader, s)))"

text \<open>Builds rows one after the other; the keys of their data, in order.\<close>

primrec build_rows :: "int \<Rightarrow> gathered list \<Rightarrow> FeedContentDict \<Rightarrow> News \<Rightarrow> ((int option list \<times> FeedContentDict) option \<times> News) option" where
  "build_rows uid [] dict s = Some (Some ([], dict), s)"
| "build_rows uid (row # rows) dict s =
     do { (built, s) \<leftarrow> BuildAFeed uid row dict s;
          case built of
            None \<Rightarrow> Some (None, s)
          | Some (d, dict) \<Rightarrow> do {
              (rest, s) \<leftarrow> build_rows uid rows dict s;
              Some (map_option (\<lambda>(ds, dict). (d # ds, dict)) rest, s) } }"

text \<open>
  The loop over the rows from number \<open>i\<close> on that skips those before the begin of the page and ends at the first one from \<open>stop\<close> on.
\<close>

fun rows_loop :: "int \<Rightarrow> int \<Rightarrow> int \<Rightarrow> 'a list \<Rightarrow> 'a list" where
  "rows_loop i begin stop [] = []"
| "rows_loop i begin stop (row # rows) =
     (if i < begin then rows_loop (i + 1) begin stop rows
      else if i \<ge> stop then []
      else row # rows_loop (i + 1) begin stop rows)"

text \<open>
  The rows that are built: the advertisements and the random ones, each of which lowers the limit, and then those of the loop, whose end is
  an \<open>int\<close>. There is one advertisement at most, and some row, when this is called.
\<close>

definition page_rows :: "gathered list \<Rightarrow> int \<Rightarrow> int \<Rightarrow> gathered list \<Rightarrow> int \<Rightarrow> gathered list" where
  "page_rows feeds begin limit random edm_count =
     (let edm = take (nat edm_count) feeds;
          limit = to_int32 (limit - int (length edm));
          limit = to_int32 (limit - int (length random))
      in edm @ random @ rows_loop edm_count begin (to_int32 (begin + limit)) (drop (nat edm_count) feeds))"

type_synonym FeedDataSeq = "FeedData option list"

definition BuildBasicFeedData ::
  "(int list \<Rightarrow> FeedContentDict option) \<Rightarrow> (int list \<Rightarrow> FeedContentDict option) \<Rightarrow> int \<Rightarrow> gathered list \<Rightarrow> int \<Rightarrow> int \<Rightarrow> gathered list \<Rightarrow> int \<Rightarrow>
   News \<Rightarrow> (FeedDataSeq option \<times> News) option" where
  "BuildBasicFeedData content loader uid feeds begin limit random edm_count s =
     do { fs \<leftarrow> deref_page (n_pool s) (random @ rows_loop 0 begin (to_int32 (begin + limit)) feeds);
          let feed_ids = map f_id (concat (concat fs));
          case content feed_ids of
            None \<Rightarrow> Some (Some [], s)
          | Some fdict \<Rightarrow>
              (let (fdict, s) = (if length fdict < length feed_ids then CheckLoad loader feed_ids fdict s else (fdict, s));
                   s = (if edm_count < 0 then s\<lparr>n_edm := removeUser uid (n_edm s)\<rparr> else s)
               in do { (built, s) \<leftarrow> build_rows uid (page_rows feeds begin limit random \<bar>edm_count\<bar>) fdict s;
                       Some (map_option (\<lambda>(ds, fdict). map (data_at fdict) (List.map_filter id ds)) built, s) }) }"

section \<open>Requests for pages\<close>

text \<open>What a request gets from outside: the other services, the weights and the clock.\<close>

record NewsEnv =
  e_cache :: "int \<Rightarrow> FeedItem list option"
  e_content :: "int list \<Rightarrow> FeedContentDict option"
  e_loader :: "int list \<Rightarrow> FeedContentDict option"
  e_weigh :: weigher
  e_now :: int

definition hold_page :: "gathered list \<Rightarrow> News \<Rightarrow> News" where
  "hold_page page s = s\<lparr>n_pool := fold hold (concat (concat page)) (n_pool s)\<rparr>"

definition drop_page :: "gathered list \<Rightarrow> News \<Rightarrow> News" where
  "drop_page page s = s\<lparr>n_pool := fold drop_handle (concat (concat page)) (n_pool s)\<rparr>"

text \<open>Loads the ring of a user who is not in memory.\<close>

definition ensure_loaded :: "NewsEnv \<Rightarrow> int \<Rightarrow> News \<Rightarrow> News option" where
  "ensure_loaded env uid s =
     do { i \<leftarrow> user_index uid;
          if fst (GetUserFeed uid False (n_users s i)) \<noteq> None then Some s else map_option snd (LoadFeed (e_cache env) uid s) }"

text \<open>The rows, the random ones, the count of news not viewed and of advertisements.\<close>

type_synonym FoundPage = "gathered list \<times> gathered list \<times> int \<times> int"

definition find_page :: "NewsEnv \<Rightarrow> int list \<Rightarrow> bool \<Rightarrow> int \<Rightarrow> int \<Rightarrow> bool \<Rightarrow> Ring \<Rightarrow> (FoundPage \<times> Ring) option" where
  "find_page env types stype begin limit hot ring =
     (if types = [] then do {
        (feeds, random, unviewed_count, edm_count, ring) \<leftarrow> GetGatheredFeed (e_weigh env) (e_now env) begin limit hot 0 ring;
        Some ((feeds, random, unviewed_count, edm_count), ring) }
      else do {
        (feeds, ring) \<leftarrow> (if stype then GetFeedByStype (e_weigh env) (e_now env) types begin hot ring
                           else GetFeedByType (e_weigh env) (e_now env) types begin hot ring);
        Some ((feeds, [], 0, 0), ring) })"

text \<open>The answer is the count of news not viewed and the data, or an exception.\<close>

definition GetFeedDataImpl :: "NewsEnv \<Rightarrow> int \<Rightarrow> int list \<Rightarrow> bool \<Rightarrow> int \<Rightarrow> int \<Rightarrow> bool \<Rightarrow> News \<Rightarrow> ((int \<times> FeedDataSeq) option \<times> News) option" where
  "GetFeedDataImpl env uid types stype begin limit hot s =
     (if uid < 0 \<or> begin < 0 \<or> limit < 0 then Some (Some (0, []), s)
      else do {
        s \<leftarrow> ensure_loaded env uid s;
        (found, s) \<leftarrow> with_user uid (find_page env types stype begin limit hot) s;
        let (feeds, random, unviewed_count, edm_count) = (case found of None \<Rightarrow> ([], [], 0, 0) | Some page \<Rightarrow> page);
        (seq, s) \<leftarrow> (if feeds = [] then Some (Some [], s)
                      else BuildBasicFeedData (e_content env) (e_loader env) uid feeds begin limit random edm_count (hold_page (feeds @ random) s));
        Some (map_option (Pair unviewed_count) seq, if feeds = [] then s else drop_page (feeds @ random) s) })"

definition GetLiveFeedData :: "NewsEnv \<Rightarrow> int \<Rightarrow> int \<Rightarrow> int \<Rightarrow> News \<Rightarrow> ((int \<times> FeedDataSeq) option \<times> News) option" where
  "GetLiveFeedData env uid begin limit = GetFeedDataImpl env uid [] True begin limit False"
definition GetLiveFeedDataByStype :: "NewsEnv \<Rightarrow> int \<Rightarrow> int list \<Rightarrow> int \<Rightarrow> int \<Rightarrow> News \<Rightarrow> ((int \<times> FeedDataSeq) option \<times> News) option" where
  "GetLiveFeedDataByStype env uid stypes begin limit = GetFeedDataImpl env uid stypes True begin limit False"
definition GetLiveFeedDataByType :: "NewsEnv \<Rightarrow> int \<Rightarrow> int list \<Rightarrow> int \<Rightarrow> int \<Rightarrow> News \<Rightarrow> ((int \<times> FeedDataSeq) option \<times> News) option" where
  "GetLiveFeedDataByType env uid types begin limit = GetFeedDataImpl env uid types False begin limit False"
definition GetHotFeedData :: "NewsEnv \<Rightarrow> int \<Rightarrow> int \<Rightarrow> int \<Rightarrow> News \<Rightarrow> ((int \<times> FeedDataSeq) option \<times> News) option" where
  "GetHotFeedData env uid begin limit = GetFeedDataImpl env uid [] True begin limit True"
definition GetHotFeedDataByStype :: "NewsEnv \<Rightarrow> int \<Rightarrow> int list \<Rightarrow> int \<Rightarrow> int \<Rightarrow> News \<Rightarrow> ((int \<times> FeedDataSeq) option \<times> News) option" where
  "GetHotFeedDataByStype env uid stypes begin limit = GetFeedDataImpl env uid stypes True begin limit True"
definition GetHotFeedDataByType :: "NewsEnv \<Rightarrow> int \<Rightarrow> int list \<Rightarrow> int \<Rightarrow> int \<Rightarrow> News \<Rightarrow> ((int \<times> FeedDataSeq) option \<times> News) option" where
  "GetHotFeedDataByType env uid types begin limit = GetFeedDataImpl env uid types False begin limit True"

text \<open>The test request for load: a small id sets the level, some users get their page as many times as the level says.\<close>

primrec hot_times :: "(nat \<Rightarrow> NewsEnv) \<Rightarrow> int \<Rightarrow> nat \<Rightarrow> News \<Rightarrow> News option" where
  "hot_times envs uid 0 s = Some s"
| "hot_times envs uid (Suc n) s =
     do { (answer, s) \<leftarrow> GetHotFeedData (envs n) uid 0 20 s;
          if answer = None then Some s else hot_times envs uid n s }"

definition load :: "(nat \<Rightarrow> NewsEnv) \<Rightarrow> int \<Rightarrow> int \<times> News \<Rightarrow> (int \<times> News) option" where
  "load envs uid st =
     (let (level, s) = st
      in if uid > - 100 \<and> uid \<le> 0 then Some (- uid, s)
         else if uid mod 20 \<noteq> 0 then Some st
         else map_option (Pair level) (hot_times envs uid (nat level) s))"

section \<open>Feeds by their ids\<close>

fun contents_seq :: "FeedContentDict \<Rightarrow> FeedDataSeq option" where
  "contents_seq [] = Some []"
| "contents_seq ((i, None) # dict) = contents_seq dict"
| "contents_seq ((i, Some c) # dict) =
     (case fc_reply c of
        None \<Rightarrow> map_option ((#) (fc_data c)) (contents_seq dict)
      | Some r \<Rightarrow> do { d \<leftarrow> fc_data c; map_option ((#) (Some (d\<lparr>fd_xml := fd_xml d @ reply_xml r\<rparr>))) (contents_seq dict) })"

definition GetFeedDataByIds :: "(int list \<Rightarrow> FeedContentDict option) \<Rightarrow> int list \<Rightarrow> FeedDataSeq option" where
  "GetFeedDataByIds content fids = contents_seq (case content fids of None \<Rightarrow> [] | Some dict \<Rightarrow> dict)"

text \<open>The groups of the first row that has one of the feeds, each for itself, but not the group of the feed \<open>first\<close>.\<close>

definition show_groups :: "NewsEnv \<Rightarrow> int \<Rightarrow> int list \<Rightarrow> int \<Rightarrow> gathered list \<Rightarrow> News \<Rightarrow> (FeedDataSeq option \<times> News) option" where
  "show_groups env uid fids first feeds s =
     do { fs \<leftarrow> deref_page (n_pool s) feeds;
          case find (\<lambda>(row, _). \<exists>f \<in> set (concat row). f_id f \<in> set fids) (zip fs feeds) of
            None \<Rightarrow> Some (Some [], s)
          | Some (row, hs) \<Rightarrow>
              (let chosen = filter (\<lambda>(g, _). first \<notin> f_id ` set g) (zip row hs)
               in case e_content env (map f_id (concat (map fst chosen))) of
                    None \<Rightarrow> Some (Some [], s)
                  | Some fdict \<Rightarrow> do {
                      (built, s) \<leftarrow> build_rows uid (map (\<lambda>(_, h). [h]) chosen) fdict s;
                      Some (map_option (\<lambda>(ds, fdict). map (\<lambda>d. Option.bind d (data_at fdict)) ds) built, s) }) }"

definition GetFeedDataByIdsWithUid :: "NewsEnv \<Rightarrow> int \<Rightarrow> int list \<Rightarrow> int \<Rightarrow> int \<Rightarrow> News \<Rightarrow> (FeedDataSeq option \<times> News) option" where
  "GetFeedDataByIdsWithUid env uid fids first stype s =
     (if uid < 0 then Some (Some [], s)
      else if \<not> IsComment stype \<and> \<not> IsMain stype then Some (GetFeedDataByIds (e_content env) fids, s)
      else do {
        s \<leftarrow> ensure_loaded env uid s;
        (found, s) \<leftarrow> with_user uid (find_page env [] True 0 250 True) s;
        let feeds = (case found of None \<Rightarrow> [] | Some page \<Rightarrow> fst page);
        (seq, s) \<leftarrow> show_groups env uid fids first feeds (hold_page feeds s);
        Some (seq, drop_page feeds s) })"

end
