(* ===== verification/NewsRingInv.thy ===== *)
theory NewsRingInv
  imports NewsRing
begin

text \<open>
  The ring as a list of entries, newest first, and the counts of the feeds as a multiset of handles. Every operation
  of \<open>NewsRing\<close> is shown to keep the counts exact and to act on the list as its name says.
\<close>

section \<open>Counting handles\<close>

definition opt_ms :: "int option \<Rightarrow> int multiset" where
  "opt_ms h = (case h of None \<Rightarrow> {#} | Some i \<Rightarrow> {#i#})"

lemma opt_ms_simps [simp]: "opt_ms None = {#}" "opt_ms (Some i) = {#i#}"
  by (simp_all add: opt_ms_def)

text \<open>Every feed in the pool has the count of its handles, and no handle dangles.\<close>

definition counted :: "int multiset \<Rightarrow> FeedPool \<Rightarrow> bool" where
  "counted H p \<longleftrightarrow> (\<forall>i. p i = None \<longleftrightarrow> i \<notin># H) \<and> (\<forall>i f. p i = Some f \<longrightarrow> f_id f = i \<and> f_ref_count f = int (count H i))"

lemma countedI:
  assumes "\<And>i. p i = None \<longleftrightarrow> i \<notin># H" "\<And>i f. p i = Some f \<Longrightarrow> f_id f = i \<and> f_ref_count f = int (count H i)"
  shows "counted H p"
  using assms by (simp add: counted_def)

text \<open>The part of a feed that its handles do not change.\<close>

definition core :: "Feed \<Rightarrow> Feed" where
  "core f = f\<lparr>f_ref_count := 0\<rparr>"

lemma core_simps [simp]:
  "core (f\<lparr>f_ref_count := n\<rparr>) = core f" "core (core f) = core f" "f_id (core f) = f_id f" "f_merge (core f) = f_merge f"
  "f_type (core f) = f_type f" "f_time (core f) = f_time f" "f_actor (core f) = f_actor f"
  by (simp_all add: core_def)

lemma core_types [simp]: "SmallType (core f) = SmallType f" "BigType (core f) = BigType f" "Ver (core f) = Ver f"
  "NewsMergeType (core f) = NewsMergeType f" "GatherKey (core f) = GatherKey f"
  by (simp_all add: SmallType_def BigType_def Ver_def NewsMergeType_def GatherKey_def)

definition data :: "FeedPool \<Rightarrow> int \<Rightarrow> Feed option" where
  "data p i = map_option core (p i)"

lemma counted_found:
  assumes "counted H p" "i \<in># H"
  shows "\<exists>f. p i = Some f \<and> f_id f = i \<and> f_ref_count f = int (count H i)"
proof (cases "p i")
  case None
  then show ?thesis using assms unfolding counted_def by blast
next
  case (Some f)
  then show ?thesis using assms(1) unfolding counted_def by blast
qed

lemma counted_dom: "counted H p \<Longrightarrow> i \<in># H \<longleftrightarrow> p i \<noteq> None"
  unfolding counted_def by (elim conjE) (drule spec [of _ i], simp)

lemma counted_at:
  assumes "counted H p" "\<And>j. j \<noteq> i \<Longrightarrow> count H' j = count H j" "\<And>j. j \<noteq> i \<Longrightarrow> p' j = p j"
    and "p' i = None \<longleftrightarrow> i \<notin># H'" "\<And>f. p' i = Some f \<Longrightarrow> f_id f = i \<and> f_ref_count f = int (count H' i)"
  shows "counted H' p'"
proof (rule countedI)
  fix j
  have m: "j \<noteq> i \<Longrightarrow> j \<in># H' \<longleftrightarrow> j \<in># H" using assms(2) [of j] by (simp flip: count_greater_zero_iff)
  show "p' j = None \<longleftrightarrow> j \<notin># H'"
  proof (cases "j = i")
    case False
    then show ?thesis using m counted_dom [OF assms(1), of j] assms(3) by simp
  qed (simp add: assms(4))
  show "f_id f = j \<and> f_ref_count f = int (count H' j)" if "p' j = Some f" for f
  proof (cases "j = i")
    case False
    then have "p j = Some f" using that assms(3) by simp
    then show ?thesis using assms(1) assms(2) [OF False] by (simp add: counted_def)
  next
    case True
    then show ?thesis using that assms(5) by simp
  qed
qed

lemma Inc_counted:
  assumes "counted H p" "i \<in># H"
  shows "counted (add_mset i H) (Inc i p)"
proof -
  obtain f where f: "p i = Some f" "f_id f = i" "f_ref_count f = int (count H i)" using counted_found [OF assms] by blast
  show ?thesis by (rule counted_at [OF assms(1)]) (use f in \<open>auto simp: Inc_def add_ref_def\<close>)
qed

lemma Inc_data [simp]: "data (Inc i p) = data p"
  by (auto simp: data_def Inc_def add_ref_def fun_eq_iff split: option.splits)

lemma Release_counted:
  assumes "counted (add_mset i H) p"
  shows "counted H (Release i p)"
proof -
  obtain f where f: "p i = Some f" "f_id f = i" "f_ref_count f = int (count H i) + 1"
    using counted_found [OF assms, of i] by auto
  show ?thesis
    by (rule counted_at [OF assms]) (use f in \<open>auto simp: Release_def count_eq_zero_iff split: if_splits\<close>)
qed

lemma Release_data:
  assumes "counted (add_mset i H) p" "j \<in># H"
  shows "data (Release i p) j = data p j"
proof (cases "j = i")
  case True
  obtain f where f: "p i = Some f" "f_ref_count f = int (count H i) + 1" using counted_found [OF assms(1), of i] by auto
  moreover have "count H i \<noteq> 0" using assms(2) True by simp
  ultimately show ?thesis using True by (simp add: data_def Release_def)
qed (simp add: data_def Release_def split: option.splits)

lemma hold_counted: "counted H p \<Longrightarrow> set_mset (opt_ms h) \<subseteq> set_mset H \<Longrightarrow> counted (opt_ms h + H) (hold h p)"
  by (cases h) (auto simp: hold_def Inc_counted)

lemma hold_data [simp]: "data (hold h p) = data p"
  by (cases h) (auto simp: hold_def)

lemma drop_counted: "counted (opt_ms h + H) p \<Longrightarrow> counted H (drop_handle h p)"
  by (cases h) (auto simp: drop_handle_def Release_counted)

lemma drop_data: "counted (opt_ms h + H) p \<Longrightarrow> j \<in># H \<Longrightarrow> data (drop_handle h p) j = data p j"
  by (cases h) (auto simp: drop_handle_def Release_data)

text \<open>What the pool holds after an item is added: the feed with its id stays as it is, if there is one.\<close>

definition pooled :: "FeedPool \<Rightarrow> FeedItem \<Rightarrow> Feed" where
  "pooled p item = (case data p (it_feed item) of Some f \<Rightarrow> f | None \<Rightarrow> new_feed item)"

lemma pool_Add_result:
  assumes "counted H p" "pool_Add item p = (h, p')"
  shows "h = it_feed item" "counted (add_mset h H) p'" "data p' = (data p)(it_feed item \<mapsto> pooled p item)"
proof -
  let ?i = "it_feed item"
  show h: "h = ?i" using assms(2) by (simp add: pool_Add_def Let_def)
  have c: "core (new_feed item) = new_feed item" by (simp add: core_def new_feed_def)
  have "counted (add_mset ?i H) p' \<and> data p' = (data p)(?i \<mapsto> pooled p item)"
  proof (cases "p ?i")
    case None
    then have p': "p' = p(?i \<mapsto> (new_feed item)\<lparr>f_ref_count := 1\<rparr>)"
      using assms(2) by (auto simp: pool_Add_def Inc_def add_ref_def Let_def new_feed_def)
    have n: "?i \<notin># H" using None counted_dom [OF assms(1)] by blast
    have "counted (add_mset ?i H) p'"
      by (rule counted_at [OF assms(1)]) (use n in \<open>auto simp: p' new_feed_def not_in_iff\<close>)
    then show ?thesis using None c by (auto simp: p' data_def pooled_def fun_eq_iff)
  next
    case (Some f)
    then have p': "p' = p(?i \<mapsto> f\<lparr>f_ref_count := f_ref_count f + 1\<rparr>)"
      using assms(2) by (auto simp: pool_Add_def Inc_def add_ref_def Let_def)
    have n: "?i \<in># H" using Some counted_dom [OF assms(1)] by blast
    have "counted (add_mset ?i H) p'"
      by (rule counted_at [OF assms(1)]) (use n counted_found [OF assms(1) n] Some in \<open>auto simp: p'\<close>)
    then show ?thesis using Some by (auto simp: p' data_def pooled_def fun_eq_iff)
  qed
  then show "counted (add_mset h H) p'" "data p' = (data p)(?i \<mapsto> pooled p item)" by (simp_all add: h)
qed

lemma pool_Get_result:
  assumes "counted H p" "pool_Get i p = (h, p')"
  shows "h = (if i \<in># H then Some i else None)" "counted (opt_ms h + H) p'" "data p' = data p"
proof -
  have "h = (if i \<in># H then Some i else None) \<and> counted (opt_ms h + H) p' \<and> data p' = data p"
  proof (cases "p i")
    case None
    then show ?thesis using assms counted_dom [OF assms(1), of i] by (simp add: pool_Get_def)
  next
    case (Some f)
    then have p': "h = Some i" "p' = p(i \<mapsto> f\<lparr>f_ref_count := f_ref_count f + 1\<rparr>)"
      using assms(2) by (auto simp: pool_Get_def Inc_def add_ref_def)
    have n: "i \<in># H" using Some counted_dom [OF assms(1)] by blast
    have "counted (opt_ms h + H) p'"
      by (rule counted_at [OF assms(1)]) (use n counted_found [OF assms(1) n] Some p'(1) in \<open>auto simp: p'(2)\<close>)
    moreover have "data p' = data p" unfolding p'(2) data_def using Some by (simp add: fun_eq_iff)
    ultimately show ?thesis using n p'(1) by simp
  qed
  then show "h = (if i \<in># H then Some i else None)" "counted (opt_ms h + H) p'" "data p' = data p" by blast+
qed

section \<open>The view of a ring\<close>

text \<open>The place of the \<open>c\<close>-th entry, counted from the newest, and the entries in this order with their feeds.\<close>

definition pos :: "LiveFeed \<Rightarrow> nat \<Rightarrow> nat" where
  "pos r c = nat ((lf_end r + COUNT - 1 - int c) mod COUNT)"

definition resolve :: "FeedPool \<Rightarrow> LiveFeedItem \<Rightarrow> Feed option" where
  "resolve p x = Option.bind (l_feed x) (data p)"

type_synonym entry = "LiveFeedItem \<times> Feed option"

definition view :: "Ring \<Rightarrow> entry list" where
  "view s = map (\<lambda>c. let x = lf_feeds (snd s) ! pos (snd s) c in (x, resolve (fst s) x)) [0..<250]"

definition window :: "Ring \<Rightarrow> entry list" where
  "window s = take (nat (lf_size (snd s))) (view s)"

definition handles :: "LiveFeed \<Rightarrow> int multiset" where
  "handles r = sum_list (map (\<lambda>x. opt_ms (l_feed x)) (lf_feeds r))"

text \<open>The slots of the ring and the handles \<open>E\<close> held elsewhere are counted in the pool.\<close>

definition ring_mem :: "int multiset \<Rightarrow> Ring \<Rightarrow> bool" where
  "ring_mem E s \<longleftrightarrow> counted (handles (snd s) + E) (fst s) \<and> length (lf_feeds (snd s)) = 250 \<and> 0 \<le> lf_end (snd s) \<and> lf_end (snd s) < 250"

lemma view_length [simp]: "length (view s) = 250"
  by (simp add: view_def)

lemma view_nth: "c < 250 \<Longrightarrow> view s ! c = (lf_feeds (snd s) ! pos (snd s) c, resolve (fst s) (lf_feeds (snd s) ! pos (snd s) c))"
  by (simp add: view_def Let_def)

lemma pos_less: "pos r c < 250"
  by (simp add: pos_def COUNT_def nat_less_iff)

lemma pos_inj: "c < 250 \<Longrightarrow> d < 250 \<Longrightarrow> pos r c = pos r d \<Longrightarrow> c = d"
proof -
  assume a: "c < 250" "d < 250" "pos r c = pos r d"
  have "(249 + lf_end r - int c) mod 250 = (249 + lf_end r - int d) mod 250"
    using a(3) by (simp add: pos_def COUNT_def eq_nat_nat_iff)
  then have "250 dvd (int d - int c)" by (simp add: mod_eq_dvd_iff)
  then have "int d - int c = 0" using dvd_imp_le_int [of "int d - int c" 250] a(1,2) by (cases "int d - int c = 0") auto
  then show "c = d" by simp
qed

lemma pos_feeds [simp]: "pos (r\<lparr>lf_feeds := fs\<rparr>) c = pos r c"
  by (simp add: pos_def)

lemma sum_list_swap: "k < length xs \<Longrightarrow> sum_list (map f (xs[k := x])) + f (xs ! k) = sum_list (map f xs) + (f x :: 'a multiset)"
proof (induction xs arbitrary: k)
  case (Cons a xs)
  then show ?case by (cases k) (auto simp: ac_simps)
qed simp

lemma handles_update: "k < length (lf_feeds r) \<Longrightarrow>
   opt_ms (l_feed (lf_feeds r ! k)) + handles (r\<lparr>lf_feeds := (lf_feeds r)[k := x]\<rparr>) = opt_ms (l_feed x) + handles r"
  using sum_list_swap [of k "lf_feeds r" "\<lambda>x. opt_ms (l_feed x)" x] by (simp add: handles_def ac_simps)

lemma handle_in_slot: "k < length (lf_feeds r) \<Longrightarrow> l_feed (lf_feeds r ! k) = Some h \<Longrightarrow> h \<in># handles r"
proof -
  assume a: "k < length (lf_feeds r)" "l_feed (lf_feeds r ! k) = Some h"
  then obtain xs ys where "lf_feeds r = xs @ lf_feeds r ! k # ys" by (metis id_take_nth_drop)
  then have "handles r = sum_list (map (\<lambda>x. opt_ms (l_feed x)) xs) + ({#h#} + sum_list (map (\<lambda>x. opt_ms (l_feed x)) ys))"
    unfolding handles_def using a(2) by (metis (no_types, lifting) list.simps(9) map_append opt_ms_simps(2) sum_list.Cons sum_list_append)
  then show "h \<in># handles r" by simp
qed

lemma resolve_same:
  assumes "\<And>j. j \<in># H \<Longrightarrow> data p' j = data p j" "set_mset (opt_ms (l_feed x)) \<subseteq> set_mset H"
  shows "resolve p' x = resolve p x"
  using assms by (cases "l_feed x") (auto simp: resolve_def)

lemma slot_ms: "k < length (lf_feeds r) \<Longrightarrow> set_mset (opt_ms (l_feed (lf_feeds r ! k))) \<subseteq> set_mset (handles r)"
  using handle_in_slot by (cases "l_feed (lf_feeds r ! k)") auto

text \<open>Feeds with a handle elsewhere stay as they are.\<close>

definition held_kept :: "int multiset \<Rightarrow> Ring \<Rightarrow> Ring \<Rightarrow> bool" where
  "held_kept E s s' \<longleftrightarrow> (\<forall>j. j \<in># E \<longrightarrow> data (fst s') j = data (fst s) j)"

lemma held_kept_refl [simp]: "held_kept E s s"
  by (simp add: held_kept_def)

lemma held_kept_trans: "held_kept E s t \<Longrightarrow> held_kept E t u \<Longrightarrow> held_kept E s u"
  by (simp add: held_kept_def)

text \<open>The one lemma on assignments: the other entries keep their feeds, and the counts stay exact.\<close>

lemma set_slot_view:
  assumes m: "ring_mem E s" and c: "c < 250" and i: "nat i = pos (snd s) c"
    and h: "set_mset (opt_ms (l_feed x)) \<subseteq> set_mset (handles (snd s) + E)"
  shows "ring_mem E (set_slot i x s)" "view (set_slot i x s) = (view s)[c := (x, resolve (fst s) x)]"
    and "lf_size (snd (set_slot i x s)) = lf_size (snd s)" "lf_end (snd (set_slot i x s)) = lf_end (snd s)"
    and "lf_part_size (snd (set_slot i x s)) = lf_part_size (snd s)" "held_kept E s (set_slot i x s)"
proof -
  obtain p r where s: "s = (p, r)" by (cases s)
  let ?k = "pos r c" and ?r = "r\<lparr>lf_feeds := (lf_feeds r)[pos r c := x]\<rparr>"
  let ?old = "l_feed (lf_feeds r ! ?k)"
  let ?p = "drop_handle ?old (hold (l_feed x) p)"
  have k: "?k < length (lf_feeds r)" using m pos_less by (simp add: s ring_mem_def)
  have e: "set_slot i x (p, r) = (?p, ?r)" using i by (simp add: s set_slot_def slot_def)
  have "counted (opt_ms (l_feed x) + (handles r + E)) (hold (l_feed x) p)"
    using hold_counted [of "handles r + E" p "l_feed x"] m h by (simp add: s ring_mem_def)
  then have old: "counted (opt_ms ?old + (handles ?r + E)) (hold (l_feed x) p)"
    using handles_update [OF k, of x] by (simp add: add.assoc [symmetric])
  then show "ring_mem E (set_slot i x s)"
    using m drop_counted [OF old] by (simp add: e s ring_mem_def)
  have d: "j \<in># handles ?r + E \<Longrightarrow> data ?p j = data p j" for j using drop_data [OF old, of j] by simp
  then show "held_kept E s (set_slot i x s)" by (simp add: held_kept_def s e)
  show "view (set_slot i x s) = (view s)[c := (x, resolve (fst s) x)]"
  proof (rule nth_equalityI)
    fix d' assume "d' < length (view (set_slot i x s))"
    then have d': "d' < 250" by simp
    have "resolve ?p (lf_feeds ?r ! pos r d') = resolve p (lf_feeds ?r ! pos r d')"
      by (rule resolve_same [OF d]) (use slot_ms [of "pos r d'" ?r] k pos_less [of r d'] m in \<open>auto simp: s ring_mem_def\<close>)
    then show "view (set_slot i x s) ! d' = (view s)[c := (x, resolve (fst s) x)] ! d'"
      using d' c k pos_inj [OF d' c, of r] by (cases "d' = c") (auto simp: e s view_nth nth_list_update)
  qed simp
qed (simp_all add: set_slot_def split: prod.splits)

end
