(* ===== verification/NewsRingOps.thy ===== *)
theory NewsRingOps
  imports NewsRingInv
begin

text \<open>
  What the operations of the ring do to the list of its entries: a removal is a filter, a shift closes the gap of one
  entry, and an addition puts the new entry in front after the oldest entry that may go has gone.
\<close>

section \<open>Well-formed rings\<close>

definition part_of :: "Feed \<Rightarrow> int" where
  "part_of f = GetIndex (SmallType f)"

definition in_part :: "int \<Rightarrow> Feed list \<Rightarrow> int" where
  "in_part k fs = int (length (filter (\<lambda>f. part_of f = k) fs))"

definition feed_of :: "entry \<Rightarrow> Feed" where
  "feed_of e = the (snd e)"

definition parts_ok :: "LiveFeed \<Rightarrow> Feed list \<Rightarrow> bool" where
  "parts_ok r fs \<longleftrightarrow> length (lf_part_size r) = 6 \<and> (\<forall>k. 0 \<le> k \<longrightarrow> k < 6 \<longrightarrow> lf_part_size r ! nat k = in_part k fs)"

definition ring_ok :: "int multiset \<Rightarrow> Ring \<Rightarrow> bool" where
  "ring_ok E s \<longleftrightarrow> ring_mem E s \<and> 0 \<le> lf_size (snd s) \<and> lf_size (snd s) \<le> 250 \<and>
     (\<forall>e \<in> set (window s). snd e \<noteq> None) \<and> parts_ok (snd s) (map feed_of (window s))"

lemma GetIndex_range: "0 \<le> GetIndex t" "GetIndex t < 6"
  by (simp_all add: GetIndex_def Let_def)

lemma part_of_core [simp]: "part_of (core f) = part_of f"
  by (simp add: part_of_def)

lemma part_of_range: "0 \<le> part_of f" "part_of f < 6"
  unfolding part_of_def by (rule GetIndex_range)+

lemma in_part_simps [simp]: "in_part k [] = 0" "in_part k (f # fs) = (if part_of f = k then 1 else 0) + in_part k fs"
  "in_part k (fs @ gs) = in_part k fs + in_part k gs"
  by (simp_all add: in_part_def)

lemma inc_part_nth: "length (lf_part_size r) = 6 \<Longrightarrow> 0 \<le> j \<Longrightarrow> j < 6 \<Longrightarrow> 0 \<le> k \<Longrightarrow> k < 6 \<Longrightarrow>
   lf_part_size (inc_part j d r) ! nat k = lf_part_size r ! nat k + (if k = j then d else 0)"
  by (auto simp: inc_part_def nth_list_update nat_eq_iff)

lemma inc_part_fields [simp]: "lf_feeds (inc_part j d r) = lf_feeds r" "lf_size (inc_part j d r) = lf_size r"
  "lf_end (inc_part j d r) = lf_end r" "length (lf_part_size (inc_part j d r)) = length (lf_part_size r)"
  by (simp_all add: inc_part_def)

lemma dec_size_fields [simp]: "lf_feeds (dec_size r) = lf_feeds r" "lf_size (dec_size r) = lf_size r - 1"
  "lf_end (dec_size r) = lf_end r" "lf_part_size (dec_size r) = lf_part_size r"
  by (simp_all add: dec_size_def)

text \<open>Size and parts do not matter for the memory and the view.\<close>

lemma ring_mem_cong: "lf_feeds r' = lf_feeds r \<Longrightarrow> lf_end r' = lf_end r \<Longrightarrow> ring_mem E (p, r') = ring_mem E (p, r)"
  by (simp add: ring_mem_def handles_def)

lemma view_cong: "lf_feeds r' = lf_feeds r \<Longrightarrow> lf_end r' = lf_end r \<Longrightarrow> view (p, r') = view (p, r)"
  by (simp add: view_def pos_def)

lemma slot_at: "nat i = pos (snd s) c \<Longrightarrow> c < 250 \<Longrightarrow> slot (snd s) i = fst (view s ! c)"
  by (simp add: slot_def view_nth)

lemma deref_at:
  assumes "nat i = pos (snd s) c" "c < 250" "snd (view s ! c) = Some g"
  obtains f where "deref (fst s) (slot (snd s) i) = Some f" "core f = g"
  using assms by (auto simp: slot_def view_nth resolve_def deref_def data_def Option.bind_eq_Some_conv)

lemma slot_handle: "ring_mem E s \<Longrightarrow> nat i = pos (snd s) c \<Longrightarrow>
   set_mset (opt_ms (l_feed (slot (snd s) i))) \<subseteq> set_mset (handles (snd s) + E)"
  using slot_ms [of "pos (snd s) c" "snd s"] pos_less [of "snd s" c] by (auto simp: ring_mem_def slot_def)

section \<open>Removing\<close>

lemma null_slot_view:
  assumes m: "ring_mem E s" and c: "c < 250" and i: "nat i = pos (snd s) c"
  shows "ring_mem E (null_slot i s)" "\<exists>x. view (null_slot i s) = (view s)[c := x]"
    and "lf_size (snd (null_slot i s)) = lf_size (snd s)" "lf_end (snd (null_slot i s)) = lf_end (snd s)"
    and "lf_part_size (snd (null_slot i s)) = lf_part_size (snd s)" "held_kept E s (null_slot i s)"
proof -
  let ?x = "(slot (snd s) i)\<lparr>l_feed := None\<rparr>"
  have h: "set_mset (opt_ms (l_feed ?x)) \<subseteq> set_mset (handles (snd s) + E)" by simp
  show "ring_mem E (null_slot i s)" "\<exists>x. view (null_slot i s) = (view s)[c := x]"
    "lf_size (snd (null_slot i s)) = lf_size (snd s)" "lf_end (snd (null_slot i s)) = lf_end (snd s)"
    "lf_part_size (snd (null_slot i s)) = lf_part_size (snd s)" "held_kept E s (null_slot i s)"
    unfolding null_slot_def using set_slot_view [OF m c i h] by auto
qed

text \<open>A copy of a slot to another one copies the entry of the view.\<close>

lemma copy_slot_view:
  assumes m: "ring_mem E s" and c: "c < 250" "d < 250" and i: "nat i = pos (snd s) c" "nat j = pos (snd s) d"
  shows "ring_mem E (set_slot j (slot (snd s) i) s)" "view (set_slot j (slot (snd s) i) s) = (view s)[d := view s ! c]"
    and "lf_size (snd (set_slot j (slot (snd s) i) s)) = lf_size (snd s)"
    and "lf_end (snd (set_slot j (slot (snd s) i) s)) = lf_end (snd s)"
    and "lf_part_size (snd (set_slot j (slot (snd s) i) s)) = lf_part_size (snd s)" "held_kept E s (set_slot j (slot (snd s) i) s)"
  using set_slot_view [OF m c(2) i(2) slot_handle [OF m i(1)]] i(1) c(1) by (simp_all add: view_nth slot_def)

text \<open>Entries that have left the count of their part.\<close>

definition parts_less :: "LiveFeed \<Rightarrow> LiveFeed \<Rightarrow> Feed list \<Rightarrow> bool" where
  "parts_less r' r fs \<longleftrightarrow> length (lf_part_size r') = 6 \<and>
     (\<forall>k. 0 \<le> k \<longrightarrow> k < 6 \<longrightarrow> lf_part_size r' ! nat k = lf_part_size r ! nat k - in_part k fs)"

lemma parts_less_nil: "length (lf_part_size r) = 6 \<Longrightarrow> lf_part_size r' = lf_part_size r \<Longrightarrow> parts_less r' r []"
  by (simp add: parts_less_def)

lemma parts_less_step:
  assumes "parts_less r' (IncPartSize (SmallType f) (- 1) (dec_size r)) fs" "length (lf_part_size r) = 6"
  shows "parts_less r' r (core f # fs)"
  using assms GetIndex_range [of "SmallType f"]
  by (auto simp: parts_less_def IncPartSize_def inc_part_nth part_of_def)

lemma parts_less_cong: "parts_less r' r fs \<Longrightarrow> lf_part_size r = lf_part_size q \<Longrightarrow> parts_less r' q fs"
  by (simp add: parts_less_def)

lemma pos_of: "0 \<le> lf_end r \<Longrightarrow> c < 250 \<Longrightarrow> nat ((lf_end r + 249 - int c) mod COUNT) = pos r c"
  by (simp add: pos_def COUNT_def algebra_simps)

lemma lose_simps [simp]:
  "ring_mem E (lose f s) = ring_mem E s" "view (lose f s) = view s" "lf_end (snd (lose f s)) = lf_end (snd s)" "held_kept E s (lose f s)"
  "lf_size (snd (lose f s)) = lf_size (snd s) - 1" "length (lf_part_size (snd (lose f s))) = length (lf_part_size (snd s))"
  by (simp_all add: lose_def held_kept_def IncPartSize_def ring_mem_def handles_def view_def pos_def)

text \<open>The result of the loop over the entries \<open>rest\<close>, when \<open>k\<close> of the newer ones were kept.\<close>

definition removed :: "(Feed \<Rightarrow> bool) \<Rightarrow> int multiset \<Rightarrow> nat \<Rightarrow> entry list \<Rightarrow> Ring \<Rightarrow> Ring \<Rightarrow> bool" where
  "removed sel E k rest s s' \<longleftrightarrow> held_kept E s s' \<and> ring_mem E s' \<and> lf_end (snd s') = lf_end (snd s) \<and>
     take (k + length (filter (\<lambda>e. \<not> sel (feed_of e)) rest)) (view s') = take k (view s) @ filter (\<lambda>e. \<not> sel (feed_of e)) rest \<and>
     lf_size (snd s') = lf_size (snd s) - int (length (filter (\<lambda>e. sel (feed_of e)) rest)) \<and>
     parts_less (snd s') (snd s) (map feed_of (filter (\<lambda>e. sel (feed_of e)) rest))"

lemma removed_nil: "ring_mem E s \<Longrightarrow> length (lf_part_size (snd s)) = 6 \<Longrightarrow> removed sel E k [] s s"
  by (simp add: removed_def parts_less_nil)

lemma removed_keep:
  assumes "removed sel E (Suc k) rest s1 s'" "\<not> sel (feed_of x)" "take (Suc k) (view s1) = take k (view s) @ [x]"
    and "lf_end (snd s1) = lf_end (snd s)" "lf_size (snd s1) = lf_size (snd s)" "lf_part_size (snd s1) = lf_part_size (snd s)"
    and "held_kept E s s1"
  shows "removed sel E k (x # rest) s s'"
  using assms parts_less_cong held_kept_trans by (auto simp: removed_def)

lemma removed_lose:
  assumes "removed sel E k rest (lose f s1) s'" "sel (feed_of x)" "snd x = Some (core f)" "take k (view s1) = take k (view s)"
    and "lf_end (snd s1) = lf_end (snd s)" "lf_size (snd s1) = lf_size (snd s)" "lf_part_size (snd s1) = lf_part_size (snd s)"
    and "length (lf_part_size (snd s)) = 6" "held_kept E s s1"
  shows "removed sel E k (x # rest) s s'"
proof -
  have "parts_less (snd s') (snd s1) (core f # map feed_of (filter (\<lambda>e. sel (feed_of e)) rest))"
    by (rule parts_less_step) (use assms in \<open>auto simp: removed_def lose_def\<close>)
  then have "parts_less (snd s') (snd s) (core f # map feed_of (filter (\<lambda>e. sel (feed_of e)) rest))"
    by (rule parts_less_cong) (rule assms(7))
  moreover have "feed_of x = core f" using assms(3) by (simp add: feed_of_def)
  moreover have "held_kept E s s'" using assms(1,9) unfolding removed_def by (meson held_kept_trans lose_simps(4))
  ultimately show ?thesis using assms(1,2,4-6) by (simp add: removed_def)
qed

lemma take_drop_Cons: "take (Suc n) (drop c xs) = x # rest \<Longrightarrow> xs ! c = x \<and> take n (drop (Suc c) xs) = rest \<and> c < length xs"
  by (cases "c < length xs") (auto simp: Cons_nth_drop_Suc [symmetric])

lemma remove_loop_ok:
  assumes sel: "\<And>f. sel (core f) = sel f"
  shows "ring_mem E s \<Longrightarrow> k \<le> c \<Longrightarrow> c + length rest \<le> 250 \<Longrightarrow> take (length rest) (drop c (view s)) = rest \<Longrightarrow>
    (\<And>x. x \<in> set rest \<Longrightarrow> snd x \<noteq> None) \<Longrightarrow> length (lf_part_size (snd s)) = 6 \<Longrightarrow>
    b = (if k = c then -1 else lf_end (snd s) + 249 - int k) \<Longrightarrow> i = lf_end (snd s) + 249 - int c \<Longrightarrow>
    \<exists>s'. remove_loop sel (length rest) i b ids s = Some (ids @ map (f_id \<circ> feed_of) (filter (\<lambda>e. sel (feed_of e)) rest), s') \<and>
      removed sel E k rest s s'"
proof (induction rest arbitrary: s k c b i ids)
  case Nil
  then show ?case by (simp add: removed_nil)
next
  case (Cons x rest)
  let ?r = "snd s" and ?e = "lf_end (snd s)"
  have c: "c < 250" and e: "0 \<le> ?e" "?e < 250" using Cons.prems(1,3) by (auto simp: ring_mem_def)
  have x: "view s ! c = x" "take (length rest) (drop (Suc c) (view s)) = rest"
    using take_drop_Cons [of "length rest" c "view s" x rest] Cons.prems(4) by simp_all
  have j: "nat (i mod COUNT) = pos ?r c" using pos_of [OF e(1) c] Cons.prems(8) by simp
  obtain g where "snd x = Some g" using Cons.prems(5) [of x] by auto
  then obtain f where f: "deref (fst s) (slot ?r (i mod COUNT)) = Some f" "snd x = Some (core f)"
    using deref_at [OF j c, of g] x(1) by auto
  have sf: "sel (feed_of x) = sel f" using f(2) sel by (simp add: feed_of_def)
  have guard: "\<not> i < ?e" using Cons.prems(8) c by simp
  have i': "i - 1 = ?e + 249 - int (Suc c)" using Cons.prems(8) by simp
  have len: "Suc c + length rest \<le> 250" using Cons.prems(3) by simp
  have all: "\<And>y. y \<in> set rest \<Longrightarrow> snd y \<noteq> None" using Cons.prems(5) by simp
  note lp = Cons.prems(6)
  show ?case
  proof (cases "k = c")
    case True
    then have b: "b = -1" using Cons.prems(7) by simp
    show ?thesis
    proof (cases "sel f")
      case False
      have k: "take (Suc k) (view s) = take k (view s) @ [x]" using x(1) c True by (simp add: take_Suc_conv_app_nth)
      have b': "b = (if Suc k = Suc c then -1 else ?e + 249 - int (Suc k))" using b True by simp
      from Cons.IH [OF Cons.prems(1) _ len x(2) all lp b' i', of ids] True
      obtain s' where "remove_loop sel (length rest) (i - 1) b ids s =
          Some (ids @ map (f_id \<circ> feed_of) (filter (\<lambda>e. sel (feed_of e)) rest), s')" "removed sel E (Suc k) rest s s'" by blast
      then show ?thesis using removed_keep [of sel E k rest s s' x s] k False sf guard f(1) b
        by (simp add: Let_def)
    next
      case s: True
      have m: "ring_mem E (lose f s)" using Cons.prems(1) by simp
      have v: "take (length rest) (drop (Suc c) (view (lose f s))) = rest" using x(2) by simp
      have l: "length (lf_part_size (snd (lose f s))) = 6" using lp by simp
      have i2: "i = (if k = Suc c then -1 else lf_end (snd (lose f s)) + 249 - int k)"
        using Cons.prems(8) True by simp
      have i3: "i - 1 = lf_end (snd (lose f s)) + 249 - int (Suc c)" using i' by simp
      from Cons.IH [OF m _ len v all l i2 i3, of "ids @ [f_id f]"] True
      obtain s' where "remove_loop sel (length rest) (i - 1) i (ids @ [f_id f]) (lose f s) =
          Some ((ids @ [f_id f]) @ map (f_id \<circ> feed_of) (filter (\<lambda>e. sel (feed_of e)) rest), s')" "removed sel E k rest (lose f s) s'"
        by (metis le_SucI order_refl)
      then show ?thesis using removed_lose [of sel E k rest f s s' x s] s sf guard f b lp
        by (auto simp: Let_def feed_of_def)
    qed
  next
    case False
    then have k: "k < c" and b: "b = ?e + 249 - int k" using Cons.prems(2,7) by auto
    then have bk: "b > 0" "nat (b mod COUNT) = pos ?r k" using c e pos_of [OF e(1), of k] by auto
    show ?thesis
    proof (cases "sel f")
      case s: True
      let ?s1 = "null_slot (i mod COUNT) s"
      note N = null_slot_view [OF Cons.prems(1) c j]
      obtain y where y: "view ?s1 = (view s)[c := y]" using N(2) by blast
      have m: "ring_mem E (lose f ?s1)" using N(1) by simp
      have v: "take (length rest) (drop (Suc c) (view (lose f ?s1))) = rest" using x(2) y by simp
      have l: "length (lf_part_size (snd (lose f ?s1))) = 6" using lp N(5) by simp
      have b2: "b = (if k = Suc c then -1 else lf_end (snd (lose f ?s1)) + 249 - int k)"
        using b k N(4) by simp
      have i2: "i - 1 = lf_end (snd (lose f ?s1)) + 249 - int (Suc c)" using i' N(4) by simp
      from Cons.IH [OF m _ len v all l b2 i2, of "ids @ [f_id f]"] k
      obtain s' where "remove_loop sel (length rest) (i - 1) b (ids @ [f_id f]) (lose f ?s1) =
          Some ((ids @ [f_id f]) @ map (f_id \<circ> feed_of) (filter (\<lambda>e. sel (feed_of e)) rest), s')" "removed sel E k rest (lose f ?s1) s'"
        by (metis less_imp_le less_SucI)
      moreover have "take k (view ?s1) = take k (view s)" using y k by simp
      ultimately show ?thesis using removed_lose [of sel E k rest f ?s1 s' x s] s sf guard f bk(1) lp N(3-6)
        by (auto simp: Let_def feed_of_def)
    next
      case s: False
      have k2: "k < 250" using k c by simp
      let ?s0 = "set_slot (b mod COUNT) (slot ?r (i mod COUNT)) s"
      note C = copy_slot_view [OF Cons.prems(1) c k2 j bk(2)]
      have j0: "nat (i mod COUNT) = pos (snd ?s0) c" using j C(4) by (simp add: pos_def)
      have same: "slot (snd ?s0) (i mod COUNT) = slot ?r (i mod COUNT)"
        using slot_at [OF j0 c] slot_at [OF j c] C(2) k by simp
      let ?s1 = "null_slot (i mod COUNT) ?s0"
      note N = null_slot_view [OF C(1) c j0]
      obtain y where y: "view ?s1 = (view s)[k := x, c := y]" using N(2) C(2) x(1) by auto
      have v: "take (length rest) (drop (Suc c) (view ?s1)) = rest" using x(2) y k by simp
      have l: "length (lf_part_size (snd ?s1)) = 6" using lp N(5) C(5) by simp
      have b2: "b - 1 = (if Suc k = Suc c then -1 else lf_end (snd ?s1) + 249 - int (Suc k))"
        using b k N(4) C(4) by simp
      have i2: "i - 1 = lf_end (snd ?s1) + 249 - int (Suc c)" using i' N(4) C(4) by simp
      from Cons.IH [OF N(1) _ len v all l b2 i2, of ids] k
      obtain s' where "remove_loop sel (length rest) (i - 1) (b - 1) ids ?s1 =
          Some (ids @ map (f_id \<circ> feed_of) (filter (\<lambda>e. sel (feed_of e)) rest), s')" "removed sel E (Suc k) rest ?s1 s'"
        by (metis Suc_le_mono less_imp_le)
      moreover have "take (Suc k) (view ?s1) = take k (view s) @ [x]"
        using y k k2 by (simp add: take_Suc_conv_app_nth)
      ultimately show ?thesis using removed_keep [of sel E k rest ?s1 s' x s] s sf guard f(1) bk(1) N(3-5) C(3-5) held_kept_trans [OF C(6) N(6)]
        by (simp add: Let_def)
    qed
  qed
qed

text \<open>The feeds of a ring, newest first.\<close>

definition feeds :: "Ring \<Rightarrow> Feed list" where
  "feeds s = map feed_of (window s)"

lemma length_window: "ring_ok E s \<Longrightarrow> length (window s) = nat (lf_size (snd s))"
  by (auto simp: window_def ring_ok_def min_def)

lemma in_part_filter: "in_part k (filter P fs) = in_part k fs - in_part k (filter (\<lambda>f. \<not> P f) fs)"
  by (induction fs) auto

text \<open>Keeps the handles held elsewhere, and is a ring of the given entries.\<close>

lemma ring_okI:
  assumes "ring_mem E s'" "take (length W) (view s') = W" "lf_size (snd s') = int (length W)" "length W \<le> 250"
    and "\<forall>e \<in> set W. snd e \<noteq> None" "parts_ok (snd s') (map feed_of W)"
  shows "ring_ok E s' \<and> window s' = W"
proof -
  have "window s' = W" using assms(2,3) by (simp add: window_def)
  then show ?thesis using assms by (simp add: ring_ok_def)
qed

lemma remove_where_ok:
  assumes ok: "ring_ok E s" and sel: "\<And>f. sel (core f) = sel f"
  obtains s' where "remove_where sel s = Some (map f_id (filter sel (feeds s)), s')" "ring_ok E s'"
    "window s' = filter (\<lambda>e. \<not> sel (feed_of e)) (window s)" "held_kept E s s'" "lf_end (snd s') = lf_end (snd s)"
proof -
  let ?W = "window s" and ?K = "filter (\<lambda>e. \<not> sel (feed_of e)) (window s)"
  have m: "ring_mem E s" and l: "length ?W \<le> 250" "int (length ?W) = lf_size (snd s)"
    and v: "take (length ?W) (drop 0 (view s)) = ?W" and so: "\<And>x. x \<in> set ?W \<Longrightarrow> snd x \<noteq> None"
    and p: "parts_ok (snd s) (map feed_of ?W)"
    using ok length_window [OF ok] by (auto simp: ring_ok_def window_def)
  have lp: "length (lf_part_size (snd s)) = 6" using p by (simp add: parts_ok_def)
  obtain s' where s': "remove_where sel s = Some (map (f_id \<circ> feed_of) (filter (\<lambda>e. sel (feed_of e)) ?W), s')"
      "removed sel E 0 ?W s s'"
    using remove_loop_ok [of sel E s 0 0 ?W "- 1" "lf_end (snd s) + COUNT - 1" "[]"] sel m l(1) v so lp l(2) [symmetric]
    by (auto simp: remove_where_def COUNT_def)
  have size: "length (filter (\<lambda>e. sel (feed_of e)) ?W) + length ?K = length ?W" by (rule sum_length_filter_compl)
  have "parts_ok (snd s') (map feed_of ?K)"
    using s'(2) p in_part_filter [of _ "\<lambda>f. \<not> sel f" "map feed_of ?W"]
    by (simp add: removed_def parts_ok_def parts_less_def filter_map comp_def)
  moreover have "lf_size (snd s') = int (length ?K)" using s'(2) l(2) size by (simp add: removed_def)
  moreover have "take (length ?K) (view s') = ?K" "ring_mem E s'" using s'(2) by (simp_all add: removed_def)
  ultimately have r: "ring_ok E s' \<and> window s' = ?K"
    using l(1) so by (intro ring_okI) (auto intro: order_trans [OF length_filter_le])
  have "map (f_id \<circ> feed_of) (filter (\<lambda>e. sel (feed_of e)) ?W) = map f_id (filter sel (feeds s))"
    by (simp add: feeds_def filter_map comp_def)
  then show ?thesis using that s' r by (simp add: removed_def)
qed

end
