(* ===== verification/NewsRingAdd.thy ===== *)
theory NewsRingAdd
  imports NewsRingOps
begin

text \<open>
  Additions to the ring: a full ring first gives up its oldest entry of no key type, or of a key type that has more than
  its share of thirty; the entries older than it move by one place.
\<close>

section \<open>Shifting\<close>

lemma pos_next: "c + 1 < 250 \<Longrightarrow> Mod (int (pos r c) - 1) = int (pos r (Suc c))"
  by (simp add: Mod_def pos_def COUNT_def mod_simps algebra_simps) (simp add: mod_eq_dvd_iff)

lemma pos_prev: "Mod (int (pos r (Suc c)) + 1) = int (pos r c)"
  by (simp add: Mod_def pos_def COUNT_def mod_simps algebra_simps) (simp add: mod_eq_dvd_iff)

lemma Mod_pos [simp]: "Mod (int (pos r c)) = int (pos r c)"
  by (simp add: Mod_def pos_def COUNT_def mod_simps)

text \<open>The entry at \<open>c\<close> is gone, and the older ones up to \<open>m\<close> have moved.\<close>

definition shifted :: "int multiset \<Rightarrow> nat \<Rightarrow> nat \<Rightarrow> Ring \<Rightarrow> Ring \<Rightarrow> bool" where
  "shifted E c m s s' \<longleftrightarrow> held_kept E s s' \<and> ring_mem E s' \<and> lf_end (snd s') = lf_end (snd s) \<and>
     lf_size (snd s') = lf_size (snd s) \<and> lf_part_size (snd s') = lf_part_size (snd s) \<and>
     take m (view s') = take c (view s) @ take (m - c) (drop (Suc c) (view s))"

lemma shifted_refl: "ring_mem E s \<Longrightarrow> shifted E m m s s"
  by (simp add: shifted_def)

lemma shift_loop_ok:
  "ring_mem E s \<Longrightarrow> c \<le> m \<Longrightarrow> m < 250 \<Longrightarrow> m \<le> c + n \<Longrightarrow>
     shifted E c m s (shift_loop n (int (pos (snd s) c)) (int (pos (snd s) m)) s)"
proof (induction n arbitrary: c s)
  case 0
  then show ?case by (simp add: shifted_refl)
next
  case (Suc n)
  let ?r = "snd s"
  show ?case
  proof (cases "c = m")
    case True
    then show ?thesis using Suc.prems(1) by (simp add: shifted_refl)
  next
    case False
    then have c: "c < m" "Suc c < 250" "c < 250" using Suc.prems(2,3) by simp_all
    let ?s1 = "set_slot (int (pos ?r c)) (slot ?r (int (pos ?r (Suc c)))) s"
    note C = copy_slot_view [OF Suc.prems(1) c(2,3), of "int (pos ?r (Suc c))" "int (pos ?r c)", simplified]
    have p: "pos (snd ?s1) d = pos ?r d" for d using C(4) by (simp add: pos_def)
    have ne: "pos ?r c \<noteq> pos ?r m" using pos_inj [of c m ?r] False c Suc.prems(3) by blast
    have sh: "shifted E (Suc c) m ?s1 (shift_loop n (int (pos ?r (Suc c))) (int (pos ?r m)) ?s1)"
      using Suc.IH [OF C(1), of "Suc c"] c Suc.prems(3,4) p by simp
    have "take (Suc c) (view ?s1) = take c (view s) @ [view s ! Suc c]"
      using C(2) c by (simp add: take_Suc_conv_app_nth)
    moreover have "view s ! Suc c # take (m - Suc c) (drop (Suc (Suc c)) (view s)) = take (m - c) (drop (Suc c) (view s))"
      using c by (simp add: Cons_nth_drop_Suc [of "Suc c" "view s", symmetric] Suc_diff_Suc [of c m, symmetric] del: Suc_diff_Suc)
    ultimately have "shifted E c m s (shift_loop n (int (pos ?r (Suc c))) (int (pos ?r m)) ?s1)"
      using sh C(2,3,4,5) held_kept_trans [OF C(6)] by (simp add: shifted_def)
    then show ?thesis using ne pos_next [of c ?r] c by simp
  qed
qed

lemma ShiftItems_ok: "ring_mem E s \<Longrightarrow> c \<le> m \<Longrightarrow> m < 250 \<Longrightarrow>
   shifted E c m s (ShiftItems (int (pos (snd s) c)) (int (pos (snd s) m)) s)"
  using shift_loop_ok [of E s c m 250] by (simp add: ShiftItems_def COUNT_def)

section \<open>Giving up an entry\<close>

definition may_go :: "Feed list \<Rightarrow> Feed \<Rightarrow> bool" where
  "may_go fs f \<longleftrightarrow> part_of f = 0 \<or> in_part (part_of f) fs > 30"

fun drop_first :: "('a \<Rightarrow> bool) \<Rightarrow> 'a list \<Rightarrow> 'a list" where
  "drop_first P [] = []"
| "drop_first P (x # xs) = (if P x then xs else x # drop_first P xs)"

definition evict :: "entry list \<Rightarrow> entry list" where
  "evict W = rev (drop_first (\<lambda>e. may_go (map feed_of W) (feed_of e)) (rev W))"

lemma drop_first_append: "(\<And>x. x \<in> set xs \<Longrightarrow> \<not> P x) \<Longrightarrow> P y \<Longrightarrow> drop_first P (xs @ y # ys) = xs @ ys"
  by (induction xs) auto

lemma evict_at:
  assumes "W = xs @ e # ys" "may_go (map feed_of W) (feed_of e)" "\<And>y. y \<in> set ys \<Longrightarrow> \<not> may_go (map feed_of W) (feed_of y)"
  shows "evict W = xs @ ys"
proof -
  have "drop_first (\<lambda>e. may_go (map feed_of W) (feed_of e)) (rev ys @ e # rev xs) = rev ys @ rev xs"
    by (rule drop_first_append) (use assms in auto)
  then show ?thesis unfolding evict_def using assms(1) by simp
qed

lemma length_parts: "int (length fs) = in_part 0 fs + in_part 1 fs + in_part 2 fs + in_part 3 fs + in_part 4 fs + in_part 5 fs"
proof (induction fs)
  case (Cons f fs)
  then show ?case using part_of_range [of f] by auto
qed simp

text \<open>The shares of the five key types do not fill the ring.\<close>

lemma some_may_go:
  assumes "length fs = 250"
  shows "\<exists>f \<in> set fs. may_go fs f"
proof (rule ccontr)
  assume "\<not> ?thesis"
  then have n: "f \<in> set fs \<Longrightarrow> part_of f \<noteq> 0 \<and> in_part (part_of f) fs \<le> 30" for f by (auto simp: may_go_def)
  have "in_part k fs \<le> 30" for k
  proof (cases "\<exists>f \<in> set fs. part_of f = k")
    case True
    then show ?thesis using n by blast
  next
    case False
    then show ?thesis by (simp add: in_part_def filter_empty_conv)
  qed
  note this [of 1] this [of 2] this [of 3] this [of 4] this [of 5]
  moreover have "in_part 0 fs = 0" using n by (simp add: in_part_def filter_empty_conv)
  ultimately show False using length_parts [of fs] assms by simp
qed

text \<open>The entry \<open>c\<close> has gone from the entries up to \<open>m\<close>, and its feed from the counts.\<close>

definition gone :: "int multiset \<Rightarrow> nat \<Rightarrow> nat \<Rightarrow> Ring \<Rightarrow> Ring \<Rightarrow> bool" where
  "gone E c m s s' \<longleftrightarrow> held_kept E s s' \<and> ring_mem E s' \<and> lf_end (snd s') = lf_end (snd s) \<and>
     lf_size (snd s') = lf_size (snd s) - 1 \<and> parts_less (snd s') (snd s) [feed_of (view s ! c)] \<and>
     take m (view s') = take c (view s) @ take (m - c) (drop (Suc c) (view s))"

lemma goneI:
  assumes "shifted E c m (lose f s) s'" "snd (view s ! c) = Some (core f)" "length (lf_part_size (snd s)) = 6"
  shows "gone E c m s s'"
proof -
  have "parts_less (snd s') (IncPartSize (SmallType f) (- 1) (dec_size (snd s))) []"
    by (rule parts_less_nil) (use assms in \<open>simp_all add: shifted_def lose_def IncPartSize_def\<close>)
  then have "parts_less (snd s') (snd s) [core f]" by (rule parts_less_step) (rule assms(3))
  moreover have "held_kept E s s'" using assms(1) by (simp add: shifted_def held_kept_def lose_def)
  ultimately show ?thesis using assms(1,2) by (simp add: gone_def shifted_def feed_of_def)
qed

lemma GetSize_part: "parts_ok r fs \<Longrightarrow> GetSize (part_of f) r = in_part (part_of f) fs"
  using part_of_range [of f] by (simp add: GetSize_def parts_ok_def)

lemma oldest_entry:
  assumes m: "ring_mem E s" "c \<le> m" "m < 250" and p: "parts_ok (snd s) fs" and so: "snd (view s ! c) \<noteq> None"
    and co: "consumed = int m - int c"
  shows "may_go fs (feed_of (view s ! c)) \<Longrightarrow>
      \<exists>s'. oldest_loop (Suc n) consumed (int (pos (snd s) c)) (int (pos (snd s) m)) s = Some (True, s') \<and> gone E c m s s'"
    and "\<not> may_go fs (feed_of (view s ! c)) \<Longrightarrow> oldest_loop (Suc n) consumed (int (pos (snd s) c)) b s =
      oldest_loop n (consumed + 1) (Mod (int (pos (snd s) c) + 1)) b s"
proof -
  have c: "c < 250" using m(2,3) by simp
  obtain g where "snd (view s ! c) = Some g" using so by auto
  then obtain f where f: "deref (fst s) (slot (snd s) (int (pos (snd s) c))) = Some f" "snd (view s ! c) = Some (core f)"
    using deref_at [of "int (pos (snd s) c)" s c g] c by auto
  have part: "GetIndex (SmallType f) = part_of (feed_of (view s ! c))" using f(2) by (simp add: feed_of_def part_of_def)
  have go: "GetIndex (SmallType f) = 0 \<or> GetSize (GetIndex (SmallType f)) (snd s) > KEY_COUNT \<longleftrightarrow> may_go fs (feed_of (view s ! c))"
    unfolding part may_go_def using GetSize_part [OF p] by (simp add: KEY_COUNT_def)
  show "oldest_loop (Suc n) consumed (int (pos (snd s) c)) b s =
      oldest_loop n (consumed + 1) (Mod (int (pos (snd s) c) + 1)) b s" if "\<not> may_go fs (feed_of (view s ! c))"
    using that go f(1) by (simp add: Let_def)
  let ?s' = "if consumed > 0 then ShiftItems (int (pos (snd s) c)) (int (pos (snd s) m)) (lose f s) else lose f s"
  have q: "pos (snd (lose f s)) d = pos (snd s) d" for d by (simp add: pos_def)
  have "shifted E c m (lose f s) ?s'"
    using ShiftItems_ok [of E "lose f s" c m] shifted_refl [of E "lose f s" m] m co by (cases "c = m") (auto simp: q)
  then have g: "gone E c m s ?s'" by (rule goneI) (use f p in \<open>simp_all add: parts_ok_def\<close>)
  show "\<exists>s'. oldest_loop (Suc n) consumed (int (pos (snd s) c)) (int (pos (snd s) m)) s = Some (True, s') \<and> gone E c m s s'"
    if "may_go fs (feed_of (view s ! c))"
    by (rule exI [of _ ?s']) (use that go f(1) g in \<open>simp add: Let_def\<close>)
qed

lemma oldest_loop_ok:
  assumes m: "ring_mem E s" "m < 250" and p: "parts_ok (snd s) fs"
    and so: "\<And>d. d \<le> m \<Longrightarrow> snd (view s ! d) \<noteq> None"
  shows "c \<le> m \<Longrightarrow> consumed = int m - int c \<Longrightarrow> \<exists>d \<le> c. may_go fs (feed_of (view s ! d)) \<Longrightarrow>
    \<exists>d s'. d \<le> c \<and> may_go fs (feed_of (view s ! d)) \<and> (\<forall>e. d < e \<longrightarrow> e \<le> c \<longrightarrow> \<not> may_go fs (feed_of (view s ! e))) \<and>
      oldest_loop (Suc c) consumed (int (pos (snd s) c)) (int (pos (snd s) m)) s = Some (True, s') \<and> gone E d m s s'"
proof (induction c arbitrary: consumed)
  case (0 consumed)
  then show ?case using oldest_entry(1) [OF m(1) _ m(2) p so, of 0 consumed 0] by simp
next
  case (Suc c)
  note entry = oldest_entry [OF m(1) Suc.prems(1) m(2) p so [OF Suc.prems(1)] Suc.prems(2)]
  show ?case
  proof (cases "may_go fs (feed_of (view s ! Suc c))")
    case True
    from entry(1) [OF this, of "Suc c"] True show ?thesis by (intro exI [of _ "Suc c"]) (simp del: oldest_loop.simps)
  next
    case False
    have "\<exists>d \<le> c. may_go fs (feed_of (view s ! d))" using Suc.prems(3) False by (metis le_Suc_eq)
    then obtain d s' where d: "d \<le> c" "may_go fs (feed_of (view s ! d))"
        "\<And>e. d < e \<Longrightarrow> e \<le> c \<Longrightarrow> \<not> may_go fs (feed_of (view s ! e))" "gone E d m s s'"
        "oldest_loop (Suc c) (consumed + 1) (int (pos (snd s) c)) (int (pos (snd s) m)) s = Some (True, s')"
      using Suc.IH [of "consumed + 1"] Suc.prems(1,2) by (auto simp del: oldest_loop.simps)
    then have "oldest_loop (Suc (Suc c)) consumed (int (pos (snd s) (Suc c))) (int (pos (snd s) m)) s = Some (True, s')"
      unfolding entry(2) [OF False] pos_prev by simp
    moreover have "\<And>e. d < e \<Longrightarrow> e \<le> Suc c \<Longrightarrow> \<not> may_go fs (feed_of (view s ! e))" using d(3) False le_Suc_eq by metis
    ultimately show ?thesis using d(1,2,4) by (intro exI [of _ d] exI [of _ s']) (simp del: oldest_loop.simps)
  qed
qed

lemma parts_less_ok:
  assumes "parts_ok r (xs @ f # ys)" "parts_less r' r [f]"
  shows "parts_ok r' (xs @ ys)"
  using assms by (auto simp: parts_ok_def parts_less_def)

lemma RemoveOldest_ok:
  assumes ok: "ring_ok E s" and full: "lf_size (snd s) = 250"
  obtains s' where "RemoveOldest s = Some s'" "ring_ok E s'" "window s' = evict (window s)" "length (window s') = 249"
    "held_kept E s s'" "lf_end (snd s') = lf_end (snd s)"
proof -
  let ?W = "view s"
  have w: "window s = ?W" using full by (simp add: window_def)
  have m: "ring_mem E s" and so: "\<And>e. e \<in> set ?W \<Longrightarrow> snd e \<noteq> None" and p: "parts_ok (snd s) (map feed_of ?W)"
    using ok by (auto simp: ring_ok_def w)
  have e: "0 \<le> lf_end (snd s)" "lf_end (snd s) < 250" using m by (simp_all add: ring_mem_def)
  have b: "Mod (lf_end (snd s) - 250) = int (pos (snd s) 249)" using e by (simp add: Mod_def pos_def COUNT_def)
  have "\<exists>f \<in> set (map feed_of ?W). may_go (map feed_of ?W) f" by (rule some_may_go) simp
  then have "\<exists>d \<le> 249. may_go (map feed_of ?W) (feed_of (?W ! d))" by (auto simp: in_set_conv_nth) (metis less_Suc_eq_le numeral_nat)
  then obtain d s' where d: "d \<le> 249" "may_go (map feed_of ?W) (feed_of (?W ! d))"
      "\<And>e. d < e \<Longrightarrow> e \<le> 249 \<Longrightarrow> \<not> may_go (map feed_of ?W) (feed_of (?W ! e))" "gone E d 249 s s'"
      "oldest_loop (Suc 249) 0 (int (pos (snd s) 249)) (int (pos (snd s) 249)) s = Some (True, s')"
    using oldest_loop_ok [OF m, of 249 "map feed_of ?W" 249 0] p so by (auto simp del: oldest_loop.simps)
  let ?V = "take d ?W @ drop (Suc d) ?W"
  have W: "?W = take d ?W @ ?W ! d # drop (Suc d) ?W" using d(1) by (intro id_take_nth_drop) simp
  have ev: "evict ?W = ?V"
  proof (rule evict_at [OF W d(2)])
    fix y assume "y \<in> set (drop (Suc d) ?W)"
    then obtain i where "y = ?W ! (Suc d + i)" "Suc d + i \<le> 249" by (auto simp: in_set_conv_nth)
    then show "\<not> may_go (map feed_of ?W) (feed_of y)" using d(3) [of "Suc d + i"] by simp
  qed
  have l: "length ?V = 249" using d(1) by simp
  have "ring_ok E s' \<and> window s' = ?V"
  proof (rule ring_okI)
    have "map feed_of ?W = map feed_of (take d ?W) @ feed_of (?W ! d) # map feed_of (drop (Suc d) ?W)"
      using arg_cong [OF W, of "map feed_of"] by simp
    then have "parts_ok (snd s) (map feed_of (take d ?W) @ feed_of (?W ! d) # map feed_of (drop (Suc d) ?W))" using p by argo
    moreover have "parts_less (snd s') (snd s) [feed_of (?W ! d)]" using d(4) by (simp add: gone_def)
    ultimately show "parts_ok (snd s') (map feed_of ?V)" using parts_less_ok by simp
    show "\<forall>e \<in> set ?V. snd e \<noteq> None" using so by (auto dest: in_set_takeD in_set_dropD)
  qed (use d(1,4) l full in \<open>simp_all add: gone_def\<close>)
  moreover have "RemoveOldest s = Some s'" using d(5) full by (simp add: RemoveOldest_def b Let_def numeral_nat del: oldest_loop.simps)
  ultimately show ?thesis using that d(4) l ev w by (simp add: gone_def)
qed

section \<open>Adding\<close>

text \<open>A change of flags or times leaves the handles alone.\<close>

lemma on_slot_fields [simp]: "lf_size (on_slot i f r) = lf_size r" "lf_end (on_slot i f r) = lf_end r"
  "lf_part_size (on_slot i f r) = lf_part_size r" "length (lf_feeds (on_slot i f r)) = length (lf_feeds r)"
  by (simp_all add: on_slot_def)

lemma on_slot_view:
  assumes m: "ring_mem E (p, r)" and c: "c < 250" and i: "nat i = pos r c" and f: "\<And>x. l_feed (f x) = l_feed x"
  shows "ring_mem E (p, on_slot i f r)"
    and "view (p, on_slot i f r) = (view (p, r))[c := (f (fst (view (p, r) ! c)), snd (view (p, r) ! c))]"
proof -
  have k: "pos r c < length (lf_feeds r)" using m pos_less by (simp add: ring_mem_def)
  have "handles (on_slot i f r) = handles r"
    using handles_update [OF k, of "f (lf_feeds r ! pos r c)"] f by (simp add: on_slot_def slot_def i)
  then show "ring_mem E (p, on_slot i f r)" using m by (simp add: ring_mem_def)
  show "view (p, on_slot i f r) = (view (p, r))[c := (f (fst (view (p, r) ! c)), snd (view (p, r) ! c))]"
  proof (rule nth_equalityI)
    fix d assume "d < length (view (p, on_slot i f r))"
    then have d: "d < 250" by simp
    show "view (p, on_slot i f r) ! d = (view (p, r))[c := (f (fst (view (p, r) ! c)), snd (view (p, r) ! c))] ! d"
      using d c k f pos_inj [OF d c, of r]
      by (cases "d = c") (auto simp: view_nth on_slot_def slot_def i nth_list_update resolve_def)
  qed simp
qed

text \<open>The end moves by one: the place after the newest entry becomes the newest.\<close>

lemma pos_rotated:
  assumes "0 \<le> lf_end r" "lf_end r' = Mod (lf_end r + 1)"
  shows "pos r' 0 = pos r 249" "pos r' (Suc c) = pos r c"
proof -
  have key: "(lf_end r' + (249 - x)) mod 250 = (lf_end r + (250 - x)) mod 250" for x
  proof -
    have "(lf_end r' + (249 - x)) mod 250 = (lf_end r + 251 + (249 - x)) mod 250"
      unfolding assms(2) Mod_def COUNT_def mod_add_left_eq by simp
    also have "\<dots> = (lf_end r + (250 - x)) mod 250" by (simp add: mod_eq_dvd_iff)
    finally show ?thesis .
  qed
  show "pos r' 0 = pos r 249" "pos r' (Suc c) = pos r c"
    using key [of 0] key [of "1 + int c"] by (simp_all add: pos_def COUNT_def algebra_simps)
qed

lemma view_rotated:
  assumes "0 \<le> lf_end r" "lf_end r' = Mod (lf_end r + 1)" "lf_feeds r' = lf_feeds r"
  shows "view (p, r') = view (p, r) ! 249 # take 249 (view (p, r))"
proof (rule nth_equalityI)
  fix d assume "d < length (view (p, r'))"
  then have d: "d < 250" by simp
  then show "view (p, r') ! d = (view (p, r) ! 249 # take 249 (view (p, r))) ! d"
    using pos_rotated [OF assms(1,2)] assms(3) by (cases d) (simp_all add: view_nth)
qed simp

lemma flags_handle [simp]: "l_feed (SetUpdateTime up x) = l_feed x" "l_feed (inc_viewed n x) = l_feed x"
proof -
  show "l_feed (inc_viewed n x) = l_feed x" unfolding inc_viewed_def by (induction n) simp_all
qed (simp add: SetUpdateTime_def)

definition marked :: "bool \<Rightarrow> bool \<Rightarrow> LiveFeedItem \<Rightarrow> LiveFeedItem" where
  "marked updatetime checkenter x =
     (let x = SetUpdateTime updatetime x in if checkenter then x else inc_viewed (nat INIT_VIEWED_COUNT) x)"

definition make_room :: "entry list \<Rightarrow> entry list" where
  "make_room W = (if length W \<ge> 250 then evict W else W)"


lemma make_room_ok:
  assumes "ring_ok E s"
  obtains s' where "(if lf_size (snd s) \<ge> COUNT then RemoveOldest s else Some s) = Some s'" "ring_ok E s'"
    "window s' = make_room (window s)" "length (window s') < 250" "held_kept E s s'" "lf_end (snd s') = lf_end (snd s)"
proof (cases "lf_size (snd s) \<ge> COUNT")
  case True
  then have full: "lf_size (snd s) = 250" using assms by (simp add: ring_ok_def COUNT_def)
  have r: "make_room (window s) = evict (window s)" using length_window [OF assms] full by (simp add: make_room_def)
  obtain s' where "RemoveOldest s = Some s'" "ring_ok E s'" "window s' = evict (window s)" "length (window s') = 249"
      "held_kept E s s'" "lf_end (snd s') = lf_end (snd s)" by (rule RemoveOldest_ok [OF assms full])
  then show ?thesis using that [of s'] True r by simp
next
  case False
  then show ?thesis using that [of s] assms length_window [OF assms] by (simp add: make_room_def COUNT_def ring_ok_def)
qed

lemma parts_ok_add:
  assumes "parts_ok r fs" "lf_part_size r' = lf_part_size r"
  shows "parts_ok (inc_part (part_of f) 1 r') (f # fs)"
  using assms part_of_range [of f] by (auto simp: parts_ok_def inc_part_nth)

lemma Add2_ok:
  assumes ok: "ring_ok E s" and h: "l_feed x = Some h" "h \<in># E" and f: "data (fst s) h = Some f"
  obtains s' where "Add2 x updatetime checkenter s = Some s'" "ring_ok E s'"
    "window s' = (marked updatetime checkenter x, Some f) # make_room (window s)" "held_kept E s s'"
    "lf_end (snd s') = Mod (lf_end (snd s) + 1)"
proof -
  obtain g where g: "deref (fst s) x = Some g" "GetIndex (SmallType g) = part_of f" using f h(1) by (auto simp: data_def deref_def part_of_def)
  obtain s1 where s1: "(if lf_size (snd s) \<ge> COUNT then RemoveOldest s else Some s) = Some s1" "ring_ok E s1"
      "window s1 = make_room (window s)" "length (window s1) < 250" "held_kept E s s1" "lf_end (snd s1) = lf_end (snd s)"
    using make_room_ok [OF ok] by blast
  let ?e = "lf_end (snd s1)"
  have m1: "ring_mem E s1" and e: "0 \<le> ?e" "?e < 250" using s1(2) by (simp_all add: ring_ok_def ring_mem_def)
  have pe: "nat ?e = pos (snd s1) 249" using e by (simp add: pos_def COUNT_def)
  have re: "resolve (fst s1) x = Some f" using s1(5) h f by (simp add: resolve_def held_kept_def)
  obtain p r where pr: "set_slot ?e x s1 = (p, r)" by (cases "set_slot ?e x s1")
  have S: "ring_mem E (p, r)" "view (p, r) = (view s1)[249 := (x, Some f)]" "lf_size r = lf_size (snd s1)"
      "lf_end r = ?e" "lf_part_size r = lf_part_size (snd s1)" "held_kept E s1 (p, r)"
    using set_slot_view [OF m1 _ pe, of x] h re unfolding pr by auto
  let ?F = "marked updatetime checkenter"
  let ?r2 = "if checkenter then on_slot ?e (SetUpdateTime updatetime) r
       else on_slot ?e (inc_viewed (nat INIT_VIEWED_COUNT)) (on_slot ?e (SetUpdateTime updatetime) r)"
  have k: "pos r 249 = nat ?e" "pos r 249 < length (lf_feeds r)" using pe S(1,4) pos_less [of r 249] by (simp_all add: pos_def ring_mem_def)
  have r2: "?r2 = on_slot ?e ?F r" using k by (auto simp: on_slot_def slot_def marked_def Let_def)
  have O: "ring_mem E (p, ?r2)" "view (p, ?r2) = (view s1)[249 := (?F x, Some f)]"
    using on_slot_view [OF S(1), of 249 ?e ?F] k S(2) by (simp_all add: r2 marked_def Let_def)
  let ?r3 = "inc_part (part_of f) 1 (?r2\<lparr>lf_size := lf_size ?r2 + 1, lf_end := Mod (?e + 1)\<rparr>)"
  have V: "view (p, ?r3) = (?F x, Some f) # take 249 (view s1)"
    using view_rotated [of ?r2 ?r3 p] e(1) S(4) O(2) by (simp add: r2)
  have "ring_mem E (p, ?r3)" using O(1) e by (simp add: ring_mem_def handles_def Mod_def COUNT_def)
  moreover have "take (length (window s1)) (take 249 (view s1)) = window s1"
    using s1(4) by (simp add: window_def min_def)
  moreover have "lf_size ?r3 = int (length (window s1)) + 1"
    using length_window [OF s1(2)] s1(2) S(3) by (simp add: r2 ring_ok_def)
  moreover have "parts_ok ?r3 (f # map feed_of (window s1))"
    by (rule parts_ok_add [of "snd s1"]) (use s1(2) S(5) in \<open>simp_all add: ring_ok_def r2\<close>)
  ultimately have "ring_ok E (p, ?r3) \<and> window (p, ?r3) = (?F x, Some f) # window s1"
    using s1(2,4) V by (intro ring_okI) (auto simp: ring_ok_def feed_of_def)
  moreover have "Add2 x updatetime checkenter s = Some (p, ?r3)"
    using g s1(1) pr by (simp add: Add2_def Let_def)
  moreover have "held_kept E s (p, ?r3)" using held_kept_trans [OF s1(5) S(6)] by (simp add: held_kept_def)
  ultimately show ?thesis using that s1(3,6) by simp
qed

end
