(* ===== verification/NewsRingSpec.thy ===== *)
theory NewsRingSpec
  imports NewsRingAdd
begin

text \<open>
  The operations of the ring on its list of entries and the pool they share, and the properties that follow: the ring is a
  list of at most 250 entries, the counts in the pool are those of the handles, and the newest thirty feeds of a key type
  are not pushed out.
\<close>

section \<open>Changes of the pool\<close>

lemma view_pool:
  assumes "\<And>j. j \<in># handles r \<Longrightarrow> data p' j = data p j" "length (lf_feeds r) = 250"
  shows "view (p', r) = view (p, r)"
proof (rule nth_equalityI)
  fix d assume "d < length (view (p', r))"
  then have "d < 250" by simp
  moreover have "resolve p' (lf_feeds r ! pos r d) = resolve p (lf_feeds r ! pos r d)"
    by (rule resolve_same [OF assms(1)]) (use slot_ms [of "pos r d" r] pos_less [of r d] assms(2) in auto)
  ultimately show "view (p', r) ! d = view (p, r) ! d" by (simp add: view_nth)
qed simp

lemma pool_change:
  assumes ok: "ring_ok E (p, r)" and c: "counted (handles r + E') p'" and d: "\<And>j. j \<in># handles r \<Longrightarrow> data p' j = data p j"
  shows "ring_ok E' (p', r)" "window (p', r) = window (p, r)"
proof -
  have "view (p', r) = view (p, r)" by (rule view_pool) (use d ok in \<open>auto simp: ring_ok_def ring_mem_def\<close>)
  then show w: "window (p', r) = window (p, r)" by (simp add: window_def)
  show "ring_ok E' (p', r)" using ok c w by (simp add: ring_ok_def ring_mem_def)
qed

lemma release_ring:
  assumes "ring_ok (add_mset h E) (p, r)"
  shows "ring_ok E (Release h p, r)" "window (Release h p, r) = window (p, r)"
    and "j \<in># E \<Longrightarrow> data (Release h p) j = data p j"
proof -
  have c: "counted (add_mset h (handles r + E)) p" using assms by (simp add: ring_ok_def ring_mem_def)
  have d: "j \<in># handles r + E \<Longrightarrow> data (Release h p) j = data p j" for j by (rule Release_data [OF c])
  show "j \<in># E \<Longrightarrow> data (Release h p) j = data p j" using d by simp
  show "ring_ok E (Release h p, r)" "window (Release h p, r) = window (p, r)"
    by (rule pool_change [OF assms]; use Release_counted [OF c] d in simp)+
qed

section \<open>The operations\<close>

text \<open>The entry of a new item, as a list operation.\<close>

definition added :: "FeedPool \<Rightarrow> FeedItem \<Rightarrow> bool \<Rightarrow> bool \<Rightarrow> entry" where
  "added p item updatetime checkenter =
     (marked updatetime checkenter (new_item (Some (it_feed item)) (it_weight item) (it_time item)), Some (pooled p item))"

lemma Add_ok:
  assumes ok: "ring_ok E s"
  obtains s' where "Add item updatetime checkenter s = Some s'" "ring_ok E s'"
    "window s' = added (fst s) item updatetime checkenter # make_room (window s)" "held_kept E s s'"
proof -
  obtain p r where s: "s = (p, r)" by (cases s)
  obtain h p1 where a: "pool_Add item p = (h, p1)" by (cases "pool_Add item p")
  let ?E = "add_mset h (add_mset h E)" and ?p = "Inc h p1" and ?i = "it_feed item"
  have c: "counted (handles r + E) p" using ok by (simp add: s ring_ok_def ring_mem_def)
  note A = pool_Add_result [OF c a]
  have "counted (add_mset h (add_mset h (handles r + E))) ?p" by (rule Inc_counted [OF A(2)]) simp
  moreover have dp: "data ?p = (data p)(?i \<mapsto> pooled p item)" using A(3) by simp
  have same: "data ?p j = data p j" if "j \<in># handles r + E" for j
    unfolding dp using counted_dom [OF c, of j] that by (auto simp: pooled_def data_def)
  ultimately have R: "ring_ok ?E (?p, r)" "window (?p, r) = window (p, r)"
    using pool_change [of E p r ?E ?p] ok s by simp_all
  let ?x = "new_item (Some h) (it_weight item) (it_time item)"
  obtain p2 r2 where B: "Add2 ?x updatetime checkenter (?p, r) = Some (p2, r2)" "ring_ok ?E (p2, r2)"
      "window (p2, r2) = (marked updatetime checkenter ?x, Some (pooled p item)) # make_room (window (?p, r))"
      "held_kept ?E (?p, r) (p2, r2)"
    by (rule Add2_ok [OF R(1), of ?x h "pooled p item" updatetime checkenter]) (use A(1) dp in \<open>auto simp: new_item_def\<close>)
  note r1 = release_ring [OF B(2)]
  note r2 = release_ring [OF r1(1)]
  let ?s' = "(Release h (Release h p2), r2)"
  have "Add item updatetime checkenter s = Some ?s'" using a B(1) by (simp add: Add_def s Let_def)
  moreover have "window ?s' = added (fst s) item updatetime checkenter # make_room (window s)"
    using r1(2) r2(2) B(3) R(2) A(1) by (simp add: s added_def)
  moreover have "held_kept E s ?s'" using r2(3) r1(3) B(4) same by (simp add: held_kept_def s)
  ultimately show ?thesis using that r2(1) by blast
qed

definition same_news :: "int \<Rightarrow> int \<Rightarrow> Feed \<Rightarrow> bool" where
  "same_news stype merge f \<longleftrightarrow> (SmallType f = stype \<or> SmallType f = other_type stype) \<and> f_merge f = merge"

lemma Remove_ok:
  assumes "ring_ok E s"
  obtains s' where "Remove stype merge s = Some (map f_id (filter (same_news stype merge) (feeds s)), s')" "ring_ok E s'"
    "window s' = filter (\<lambda>e. \<not> same_news stype merge (feed_of e)) (window s)" "held_kept E s s'"
proof -
  have "Remove stype merge s = remove_where (same_news stype merge) s"
    unfolding Remove_def by (rule arg_cong [where f = "\<lambda>g. remove_where g s"]) (simp add: fun_eq_iff same_news_def)
  then show ?thesis by (metis (no_types, lifting) that remove_where_ok [OF assms, of "same_news stype merge"]
      same_news_def core_types(1) core_simps(4))
qed

lemma RemoveById_ok:
  assumes ok: "ring_ok E s"
  obtains ids s' where "RemoveById i s = Some (ids, s')" "ring_ok E s'" "held_kept E s s'"
    "ids = (case data (fst s) i of None \<Rightarrow> [] | Some f \<Rightarrow> map f_id (filter (same_news (SmallType f) (f_merge f)) (feeds s)))"
    "window s' = (case data (fst s) i of None \<Rightarrow> window s
       | Some f \<Rightarrow> filter (\<lambda>e. \<not> same_news (SmallType f) (f_merge f) (feed_of e)) (window s))"
proof -
  obtain p r where s: "s = (p, r)" by (cases s)
  obtain h p1 where g: "pool_Get i p = (h, p1)" by (cases "pool_Get i p")
  have c: "counted (handles r + E) p" using ok by (simp add: s ring_ok_def ring_mem_def)
  note G = pool_Get_result [OF c g]
  show ?thesis
  proof (cases h)
    case None
    then have "data p i = None" "p1 = p" using g by (auto simp: pool_Get_def data_def split: option.splits)
    then show ?thesis using that [of "[]" s] ok g None by (simp add: RemoveById_def s)
  next
    case (Some k)
    then have k: "k = i" using g by (auto simp: pool_Get_def split: option.splits)
    then obtain f where f: "p1 i = Some f"
      using counted_dom [OF G(2), of i] Some by auto
    have df: "data p i = Some (core f)" using G(3) f by (metis data_def option.simps(9))
    have R: "ring_ok (add_mset i E) (p1, r)" "window (p1, r) = window (p, r)"
      using pool_change [of E p r "add_mset i E" p1] ok s G(2,3) Some k by simp_all
    obtain p2 r2 where B: "Remove (SmallType f) (f_merge f) (p1, r) =
          Some (map f_id (filter (same_news (SmallType f) (f_merge f)) (feeds (p1, r))), p2, r2)" "ring_ok (add_mset i E) (p2, r2)"
        "window (p2, r2) = filter (\<lambda>e. \<not> same_news (SmallType f) (f_merge f) (feed_of e)) (window (p1, r))" "held_kept (add_mset i E) (p1, r) (p2, r2)"
      by (rule Remove_ok [OF R(1), of "SmallType f" "f_merge f"]) (auto split: prod.splits)
    note L = release_ring [OF B(2)]
    have "held_kept E s (Release i p2, r2)" using L(3) B(4) G(3) by (simp add: held_kept_def s)
    then show ?thesis using that [OF _ L(1)] B(1,3) L(2) R(2) g Some k f df by (simp add: RemoveById_def s feeds_def)
  qed
qed

lemma RemoveExactly_ok:
  assumes "ring_ok E s"
  obtains s' where "RemoveExactly fids s = Some s'" "ring_ok E s'"
    "window s' = filter (\<lambda>e. f_id (feed_of e) \<notin> set fids) (window s)" "held_kept E s s'"
  by (rule remove_where_ok [OF assms, of "\<lambda>f. f_id f \<in> set fids"]) (auto simp: RemoveExactly_def)

lemma RemoveAll_ok:
  assumes "ring_ok E (p, r)"
  shows "ring_ok E (p, RemoveAll r)" "window (p, RemoveAll r) = []"
  using assms by (simp_all add: ring_ok_def ring_mem_def RemoveAll_def handles_def window_def parts_ok_def)

text \<open>The answer of \<open>GetFeedItem\<close>, from the entries.\<close>

definition item_of :: "entry \<Rightarrow> FeedItem" where
  "item_of e = (let f = feed_of e in \<lparr>it_feed = f_id f, it_merge = f_merge f, it_type = f_type f, it_time = to_int32 (f_time f),
     it_weight = sint (l_weight (fst e)), it_actor = f_actor f\<rparr>)"

lemma feed_items_map:
  assumes "\<And>i. i \<in> set is \<Longrightarrow> deref (fst s) (slot (snd s) i) \<noteq> None"
  shows "feed_items is s = Some (map (\<lambda>i. item_of (slot (snd s) i, deref (fst s) (slot (snd s) i))) is)"
  using assms
proof (induction "is")
  case (Cons i "is")
  then obtain f where "deref (fst s) (slot (snd s) i) = Some f" by fastforce
  then show ?case using Cons by (simp add: item_of_def feed_of_def Let_def)
qed simp

lemma item_of_core: "x \<noteq> None \<Longrightarrow> item_of (y, map_option core x) = item_of (y, x)"
  by (auto simp: item_of_def feed_of_def)

lemma GetFeedItem_ok:
  assumes ok: "ring_ok E s"
  shows "GetFeedItem s = Some (map item_of (window s))"
proof -
  let ?n = "nat (lf_size (snd s))" and ?i = "\<lambda>c. (lf_end (snd s) + COUNT - 1 - int c) mod COUNT"
  have n: "?n \<le> 250" using ok by (simp add: ring_ok_def nat_le_iff)
  have w: "window s = map (\<lambda>c. view s ! c) [0..<?n]" using n by (intro nth_equalityI) (simp_all add: window_def)
  have v: "view s ! c = (slot (snd s) (?i c), map_option core (deref (fst s) (slot (snd s) (?i c))))" if "c < ?n" for c
    using that n by (auto simp: view_nth slot_def pos_def resolve_def deref_def data_def split: Option.bind_splits)
  have so: "deref (fst s) (slot (snd s) (?i c)) \<noteq> None" if "c < ?n" for c
  proof -
    have "view s ! c \<in> set (window s)" using that by (simp add: w)
    then have "snd (view s ! c) \<noteq> None" using ok by (simp add: ring_ok_def)
    then show ?thesis using v [OF that] by simp
  qed
  then have "GetFeedItem s = Some (map (\<lambda>i. item_of (slot (snd s) i, deref (fst s) (slot (snd s) i))) (positions (snd s)))"
    unfolding GetFeedItem_def by (intro feed_items_map) (auto simp: positions_def)
  then show ?thesis using v so by (simp add: w positions_def item_of_core)
qed

end
