(* ===== verification/NewsRingTheorems.thy ===== *)
theory NewsRingTheorems
  imports NewsRingSpec
begin

text \<open>
  The ring as a machine: sequences of its operations, which always succeed, keep the counts of the pool exact and are
  those of a list, and the properties of the ring, of the flags of an entry and of \<open>Sort\<close>.
\<close>

section \<open>Sequences of operations\<close>

fun run :: "('o \<Rightarrow> 's \<Rightarrow> 's option) \<Rightarrow> 'o list \<Rightarrow> 's \<Rightarrow> 's option" where
  "run step [] s = Some s"
| "run step (op # ops) s = do { s \<leftarrow> step op s; run step ops s }"

text \<open>A step function that succeeds in every good state for every proper operation.\<close>

locale total_machine =
  fixes ok :: "'s \<Rightarrow> bool" and proper :: "'o \<Rightarrow> bool" and step :: "'o \<Rightarrow> 's \<Rightarrow> 's option" and rel :: "'s \<Rightarrow> 's \<Rightarrow> bool"
  assumes total: "ok s \<Longrightarrow> proper op \<Longrightarrow> \<exists>s'. step op s = Some s' \<and> ok s' \<and> rel s s'"
    and rel_refl: "rel s s"
    and rel_trans: "rel s t \<Longrightarrow> rel t u \<Longrightarrow> rel s u"
begin

lemma run_total: "ok s \<Longrightarrow> list_all proper ops \<Longrightarrow> \<exists>s'. run step ops s = Some s' \<and> ok s' \<and> rel s s'"
proof (induction ops arbitrary: s)
  case Nil
  then show ?case by (simp add: rel_refl)
next
  case (Cons op ops)
  obtain t where t: "step op s = Some t" "ok t" "rel s t" using total [OF Cons.prems(1)] Cons.prems(2) by auto
  obtain u where "run step ops t = Some u" "ok u" "rel t u" using Cons.IH [OF t(2)] Cons.prems(2) by auto
  then show ?case using t(1) rel_trans [OF t(3)] by auto
qed

end

datatype RingOp = OpAdd FeedItem bool bool | OpRemove int int | OpRemoveById int | OpRemoveExactly "int list" | OpRemoveAll

fun ring_step :: "RingOp \<Rightarrow> Ring \<Rightarrow> Ring option" where
  "ring_step (OpAdd item updatetime checkenter) s = Add item updatetime checkenter s"
| "ring_step (OpRemove stype merge) s = map_option snd (Remove stype merge s)"
| "ring_step (OpRemoveById i) s = map_option snd (RemoveById i s)"
| "ring_step (OpRemoveExactly fids) s = RemoveExactly fids s"
| "ring_step OpRemoveAll s = Some (fst s, RemoveAll (snd s))"

text \<open>The same operations on the list of entries; the pool says which feed an id has.\<close>

fun list_step :: "FeedPool \<Rightarrow> RingOp \<Rightarrow> entry list \<Rightarrow> entry list" where
  "list_step p (OpAdd item updatetime checkenter) W = added p item updatetime checkenter # make_room W"
| "list_step p (OpRemove stype merge) W = filter (\<lambda>e. \<not> same_news stype merge (feed_of e)) W"
| "list_step p (OpRemoveById i) W =
     (case p i of None \<Rightarrow> W | Some f \<Rightarrow> filter (\<lambda>e. \<not> same_news (SmallType f) (f_merge f) (feed_of e)) W)"
| "list_step p (OpRemoveExactly fids) W = filter (\<lambda>e. f_id (feed_of e) \<notin> set fids) W"
| "list_step p OpRemoveAll W = []"

lemma ring_step_ok:
  assumes ok: "ring_ok E s"
  shows "\<exists>s'. ring_step op s = Some s' \<and> ring_ok E s' \<and> held_kept E s s' \<and> window s' = list_step (fst s) op (window s)"
proof (cases op)
  case (OpAdd item u c)
  then show ?thesis by (metis Add_ok [OF ok] ring_step.simps(1) list_step.simps(1))
next
  case (OpRemove t m)
  obtain s' where "Remove t m s = Some (map f_id (filter (same_news t m) (feeds s)), s')" "ring_ok E s'"
    "window s' = filter (\<lambda>e. \<not> same_news t m (feed_of e)) (window s)" "held_kept E s s'" by (rule Remove_ok [OF ok])
  then show ?thesis using OpRemove by simp
next
  case (OpRemoveById i)
  obtain ids s' where "RemoveById i s = Some (ids, s')" "ring_ok E s'" "held_kept E s s'"
    "window s' = (case data (fst s) i of None \<Rightarrow> window s
       | Some f \<Rightarrow> filter (\<lambda>e. \<not> same_news (SmallType f) (f_merge f) (feed_of e)) (window s))" by (rule RemoveById_ok [OF ok])
  then show ?thesis using OpRemoveById by (auto simp: data_def split: option.splits)
next
  case (OpRemoveExactly fids)
  then show ?thesis by (metis RemoveExactly_ok [OF ok] ring_step.simps(4) list_step.simps(4))
next
  case OpRemoveAll
  then show ?thesis using RemoveAll_ok [of E "fst s" "snd s"] ok by (simp add: held_kept_def)
qed

lemma ring_held_kept: "held_kept E s s" "held_kept E s t \<Longrightarrow> held_kept E t u \<Longrightarrow> held_kept E s u"
  by (auto intro: held_kept_trans)

interpretation ring: total_machine "ring_ok E" "\<lambda>_. True" ring_step "held_kept E" for E
  by unfold_locales (use ring_step_ok ring_held_kept in blast)+

lemma new_ring_ok: "ring_ok {#} (Map.empty, new_ring)"
proof -
  have "sum_list (map (\<lambda>x. opt_ms (l_feed x)) (replicate n no_item)) = {#}" for n
    by (induction n) (simp_all add: no_item_def)
  then show ?thesis
    by (simp add: ring_ok_def ring_mem_def new_ring_def handles_def window_def parts_ok_def counted_def COUNT_def)
qed

lemma window_new [simp]: "window (p, new_ring) = []" "feeds (p, new_ring) = []"
  by (simp_all add: window_def feeds_def new_ring_def)

lemma handles_count: "count (handles r) i = length (filter (\<lambda>x. l_feed x = Some i) (lf_feeds r))"
proof -
  have "count (sum_list (map (\<lambda>x. opt_ms (l_feed x)) xs)) i = length (filter (\<lambda>x. l_feed x = Some i) xs)" for xs
    by (induction xs) (auto simp: opt_ms_def split: option.splits)
  then show ?thesis by (simp add: handles_def)
qed

section \<open>Feeds of key types\<close>

lemma drop_first_none: "(\<And>x. x \<in> set xs \<Longrightarrow> \<not> P x) \<Longrightarrow> drop_first P xs = xs"
  by (induction xs) auto

lemma evict_newest:
  assumes k: "k \<noteq> 0"
  shows "take 30 (filter (\<lambda>f. part_of f = k) (map feed_of (evict W))) = take 30 (filter (\<lambda>f. part_of f = k) (map feed_of W))"
proof (cases "\<exists>e \<in> set W. may_go (map feed_of W) (feed_of e)")
  case False
  then have "evict W = W" unfolding evict_def by (subst drop_first_none) auto
  then show ?thesis by simp
next
  case True
  obtain xs e ys where W: "W = xs @ e # ys" "may_go (map feed_of W) (feed_of e)"
      "\<forall>y \<in> set ys. \<not> may_go (map feed_of W) (feed_of y)" 
    using split_list_last_prop [OF True] by blast
  then have ev: "evict W = xs @ ys" using evict_at by blast
  let ?F = "\<lambda>es. filter (\<lambda>f. part_of f = k) (map feed_of es)"
  show ?thesis
  proof (cases "part_of (feed_of e) = k")
    case True
    then have many: "length (?F W) > 30" using W(2) k by (simp add: may_go_def in_part_def)
    have "?F ys = []" using W(2,3) True k by (auto simp: filter_empty_conv may_go_def)
    then show ?thesis unfolding ev using many True by (simp add: W(1) filter_map)
  qed (unfold ev, simp add: W(1))
qed

lemma make_room_newest: "k \<noteq> 0 \<Longrightarrow>
  take 30 (filter (\<lambda>f. part_of f = k) (map feed_of (make_room W))) = take 30 (filter (\<lambda>f. part_of f = k) (map feed_of W))"
  by (simp add: make_room_def evict_newest)

lemma pooled_id: "counted H p \<Longrightarrow> f_id (pooled p item) = it_feed item"
  unfolding counted_def pooled_def data_def by (simp add: new_feed_def split: option.split)

lemma take_append_take: "take n (xs @ take n ys) = take n (xs @ ys)"
  by simp

lemma adds_newest:
  "ring_ok E s \<Longrightarrow> \<exists>new s'. run ring_step (map (\<lambda>(item, u, c). OpAdd item u c) adds) s = Some s' \<and> ring_ok E s' \<and>
     map f_id new = map (\<lambda>(item, u, c). it_feed item) adds \<and>
     (\<forall>k. k \<noteq> 0 \<longrightarrow> take 30 (filter (\<lambda>f. part_of f = k) (feeds s')) = take 30 (filter (\<lambda>f. part_of f = k) (rev new @ feeds s)))"
proof (induction adds arbitrary: s)
  case Nil
  then show ?case by simp
next
  case (Cons a adds)
  obtain item u c where a: "a = (item, u, c)" by (cases a)
  obtain t where t: "ring_step (OpAdd item u c) s = Some t" "ring_ok E t" "window t = added (fst s) item u c # make_room (window s)"
    using ring_step_ok [OF Cons.prems, of "OpAdd item u c"] by auto
  let ?f = "pooled (fst s) item"
  have id: "f_id ?f = it_feed item" using Cons.prems by (auto simp: ring_ok_def ring_mem_def intro: pooled_id)
  have ft: "feeds t = ?f # map feed_of (make_room (window s))" by (simp add: feeds_def t(3) added_def feed_of_def)
  obtain new s' where s': "run ring_step (map (\<lambda>(item, u, c). OpAdd item u c) adds) t = Some s'" "ring_ok E s'"
     "map f_id new = map (\<lambda>(item, u, c). it_feed item) adds"
     "\<And>k. k \<noteq> 0 \<Longrightarrow> take 30 (filter (\<lambda>f. part_of f = k) (feeds s')) = take 30 (filter (\<lambda>f. part_of f = k) (rev new @ feeds t))"
    using Cons.IH [OF t(2)] by blast
  have "take 30 (filter (\<lambda>f. part_of f = k) (feeds s')) = take 30 (filter (\<lambda>f. part_of f = k) (rev (?f # new) @ feeds s))" if k: "k \<noteq> 0" for k
  proof -
    let ?F = "filter (\<lambda>f. part_of f = k)"
    have "?F (rev new @ feeds t) = ?F (rev new @ [?f]) @ ?F (map feed_of (make_room (window s)))" by (simp add: ft)
    then have "take 30 (?F (feeds s')) = take 30 (?F (rev new @ [?f]) @ take 30 (?F (map feed_of (make_room (window s)))))"
      using s'(4) [OF k] by (simp only: take_append_take)
    also have "\<dots> = take 30 (?F (rev new @ [?f]) @ ?F (feeds s))"
      unfolding make_room_newest [OF k] take_append_take feeds_def ..
    finally show ?thesis by (simp only: rev.simps filter_append append_assoc)
  qed
  then show ?case using t(1) s'(1-3) id a by (intro exI [of _ "?f # new"] exI [of _ s']) auto
qed

section \<open>Flags and sorting\<close>

lemma inc_viewed_Suc: "inc_viewed (Suc n) x = IncViewedCount (inc_viewed n x)"
  by (simp add: inc_viewed_def)

lemma inc_viewed_all:
  "GetViewedCount (inc_viewed n x) = min 255 (GetViewedCount x + int n)"
  "IsRandomed (inc_viewed n x) = IsRandomed x" "IsUpdateTime (inc_viewed n x) = IsUpdateTime x" "l_time (inc_viewed n x) = l_time x"
proof (induction n)
  case (Suc n)
  show "GetViewedCount (inc_viewed (Suc n) x) = min 255 (GetViewedCount x + int (Suc n))"
    using Suc.IH(1) by (simp add: inc_viewed_Suc IncViewedCount_count)
  show "IsRandomed (inc_viewed (Suc n) x) = IsRandomed x" "IsUpdateTime (inc_viewed (Suc n) x) = IsUpdateTime x"
    "l_time (inc_viewed (Suc n) x) = l_time x" using Suc.IH(2-4) by (simp_all add: inc_viewed_Suc)
qed (use GetViewedCount_range [of x] in \<open>simp_all add: inc_viewed_def\<close>)

lemma take_mains_filter: "take_mains fv = (filter (\<lambda>f. IsMain (SmallType f)) fv, filter (\<lambda>f. \<not> IsMain (SmallType f)) fv)"
  by (induction fv) auto

lemma main_comment_disjoint: "IsMain t \<Longrightarrow> \<not> IsComment t"
  by (auto simp: IsMain_def IsComment_def main2comment_def)

text \<open>The scan over feeds that are mains up to the first comment.\<close>

lemma sort_scan_cases:
  "sort_scan i at n fv =
     (let ms = takeWhile (\<lambda>f. IsMain (SmallType f)) fv; rest = dropWhile (\<lambda>f. IsMain (SmallType f)) fv;
          at' = (if ms = [] then at else i + int (length ms) - 1); n' = n + int (length ms)
      in case rest of [] \<Rightarrow> Scanned False at' n' 0
         | f # _ \<Rightarrow> if IsComment (SmallType f) then Scanned True at' n' 1 else NotMerged)"
proof (induction fv arbitrary: i at n)
  case (Cons f fv)
  show ?case
  proof (cases "IsMain (SmallType f)")
    case True
    then show ?thesis using Cons.IH [of "i + 1" i "n + 1"] main_comment_disjoint [OF True]
      by (cases "dropWhile (\<lambda>f. IsMain (SmallType f)) fv") (simp_all add: Let_def algebra_simps del: dropWhile_eq_Nil_conv)
  qed (simp add: Let_def)
qed simp

lemma Sort_value:
  "Sort fv = (let mains = filter (\<lambda>f. IsMain (SmallType f)) fv; others = filter (\<lambda>f. \<not> IsMain (SmallType f)) fv;
       rest = dropWhile (\<lambda>f. IsMain (SmallType f)) fv
     in if length fv = 1 then (False, False, fv)
        else case rest of [] \<Rightarrow> (True, False, fv)
        | f # _ \<Rightarrow> if IsComment (SmallType f) then (mains \<noteq> [], True, others @ mains) else (False, False, fv))"
proof -
  let ?ms = "takeWhile (\<lambda>f. IsMain (SmallType f)) fv" and ?rest = "dropWhile (\<lambda>f. IsMain (SmallType f)) fv"
  have l: "length fv = length ?ms + length ?rest" by (metis length_append takeWhile_dropWhile_id)
  show ?thesis
  proof (cases ?rest)
    case Nil
    then show ?thesis by (simp add: Sort_def sort_scan_cases Let_def del: dropWhile_eq_Nil_conv)
  next
    case (Cons f fv')
    then have "int (length ?ms) - 1 \<noteq> int (length fv) - 1" using l by simp
    then show ?thesis using Cons by (auto simp: Sort_def sort_scan_cases Let_def take_mains_filter filter_empty_conv)
  qed
qed

section \<open>Properties\<close>

text \<open>C8. Every operation of the ring succeeds in every well-formed ring, whatever other handles \<open>E\<close> exist: it never follows
  a null or dangling handle, it leaves a well-formed ring whose list of entries is the list operation of the
  specification (the new entry in front of what is left of the list, the entries without the matching ones in the same order, or
  nothing), it does not change the feeds that are held elsewhere, and \<open>GetFeedItem\<close> then returns the list.\<close>
theorem ring_refines_list:
  assumes "ring_ok E s"
  shows "\<exists>s'. ring_step op s = Some s' \<and> ring_ok E s' \<and> window s' = list_step (fst s) op (window s) \<and>
    (\<forall>i. i \<in># E \<longrightarrow> data (fst s') i = data (fst s) i) \<and> GetFeedItem s' = Some (map item_of (window s'))"
proof -
  obtain s' where "ring_step op s = Some s'" "ring_ok E s'" "held_kept E s s'" "window s' = list_step (fst s) op (window s)"
    using ring_step_ok [OF assms] by blast
  then show ?thesis using GetFeedItem_ok by (auto simp: held_kept_def)
qed

theorem ring_refines_list_witness:
  "\<exists>s'. ring_step (OpAdd \<lparr>it_feed = 7, it_merge = 1, it_type = 601, it_time = 100, it_weight = 0, it_actor = 5\<rparr> True True) (Map.empty, new_ring) = Some s' \<and>
     ring_ok {#} s' \<and> length (window s') = 1"
  using ring_refines_list [OF new_ring_ok, of "OpAdd \<lparr>it_feed = 7, it_merge = 1, it_type = 601, it_time = 100, it_weight = 0, it_actor = 5\<rparr> True True"]
  by (auto simp: make_room_def)

text \<open>From the empty ring and the empty pool on, every sequence of additions and removals runs to its end, and then a feed is in
  the pool exactly if a slot of the ring refers to it, and its count is the number of these slots: no feed leaks, none is
  freed while it is referred to, and no handle dangles.\<close>
lemma ring_counts_exact:
  "\<exists>p r. run ring_step ops (Map.empty, new_ring) = Some (p, r) \<and>
     (\<forall>i. let n = length (filter (\<lambda>x. l_feed x = Some i) (lf_feeds r))
          in case p i of None \<Rightarrow> n = 0 | Some f \<Rightarrow> 0 < n \<and> f_id f = i \<and> f_ref_count f = int n)"
proof -
  obtain p r where r: "run ring_step ops (Map.empty, new_ring) = Some (p, r)" "ring_ok {#} (p, r)"
    using ring.run_total [OF new_ring_ok, of ops] by (auto simp: list_all_iff)
  then have c: "counted (handles r) p" by (simp add: ring_ok_def ring_mem_def)
  have "case p i of None \<Rightarrow> count (handles r) i = 0
      | Some f \<Rightarrow> 0 < count (handles r) i \<and> f_id f = i \<and> f_ref_count f = int (count (handles r) i)" for i
    using counted_dom [OF c, of i] counted_found [OF c, of i] by (cases "p i") (simp_all add: not_in_iff)
  then show ?thesis unfolding Let_def handles_count [symmetric] using r(1) by blast
qed

text \<open>C12. Additions never push the newest thirty feeds of a key type (status, share, photo, album and 2000 families, \<open>GetIndex\<close> 1 to 5)
  out of a ring, however many other feeds arrive: after any sequence of additions the newest thirty feeds of the type in the
  ring are the newest thirty among the added feeds and those that were there.\<close>
theorem key_feeds_survive:
  assumes "ring_ok E s"
  shows "\<exists>new s'. run ring_step (map (\<lambda>(item, updatetime, checkenter). OpAdd item updatetime checkenter) adds) s = Some s' \<and>
     map f_id new = map (\<lambda>(item, updatetime, checkenter). it_feed item) adds \<and>
     (\<forall>k \<in> {1..5}. take 30 (filter (\<lambda>f. GetIndex (SmallType f) = k) (feeds s')) =
        take 30 (filter (\<lambda>f. GetIndex (SmallType f) = k) (rev new @ feeds s)))"
proof -
  obtain new s' where "run ring_step (map (\<lambda>(item, u, c). OpAdd item u c) adds) s = Some s'"
    "map f_id new = map (\<lambda>(item, u, c). it_feed item) adds"
    "\<And>k. k \<noteq> 0 \<Longrightarrow> take 30 (filter (\<lambda>f. part_of f = k) (feeds s')) = take 30 (filter (\<lambda>f. part_of f = k) (rev new @ feeds s))"
    using adds_newest [OF assms, of adds] by blast
  then show ?thesis unfolding part_of_def by (intro exI [of _ new] exI [of _ s']) simp
qed

theorem key_feeds_survive_witness:
  "\<exists>new s'. run ring_step (map (\<lambda>(item, updatetime, checkenter). OpAdd item updatetime checkenter)
       [(\<lparr>it_feed = 7, it_merge = 1, it_type = 601, it_time = 100, it_weight = 0, it_actor = 5\<rparr>, True, True)]) (Map.empty, new_ring) = Some s' \<and>
     map f_id new = [7] \<and> take 30 (filter (\<lambda>f. GetIndex (SmallType f) = 3) (feeds s')) =
        take 30 (filter (\<lambda>f. GetIndex (SmallType f) = 3) (rev new))"
proof -
  obtain new s' where "run ring_step (map (\<lambda>(item, updatetime, checkenter). OpAdd item updatetime checkenter)
       [(\<lparr>it_feed = 7, it_merge = 1, it_type = 601, it_time = 100, it_weight = 0, it_actor = 5\<rparr>, True, True)]) (Map.empty, new_ring) = Some s'"
     "map f_id new = [7]" "take 30 (filter (\<lambda>f. GetIndex (SmallType f) = 3) (feeds s')) =
        take 30 (filter (\<lambda>f. GetIndex (SmallType f) = 3) (rev new @ feeds (Map.empty, new_ring)))"
    using key_feeds_survive [OF new_ring_ok, of
      "[(\<lparr>it_feed = 7, it_merge = 1, it_type = 601, it_time = 100, it_weight = 0, it_actor = 5\<rparr>, True, True)]"] by force
  then show ?thesis unfolding window_new append_Nil2 by (intro exI conjI)
qed

text \<open>Removing a feed by its id removes from the ring all feeds of the same news, that is with the same merge key and with the
  type of the feed or the type of its comments (or of what it comments on), returns their ids, newest first, and keeps
  the others in their order; an id that the pool does not know removes nothing.\<close>
lemma remove_takes_the_news:
  assumes "ring_ok E s"
  shows "\<exists>s'. RemoveById i s = Some
      (case fst s i of None \<Rightarrow> []
       | Some f \<Rightarrow> map f_id (filter (\<lambda>g. f_merge g = f_merge f \<and> SmallType g \<in> {SmallType f, other_type (SmallType f)}) (feeds s)), s') \<and>
    feeds s' = (case fst s i of None \<Rightarrow> feeds s
       | Some f \<Rightarrow> filter (\<lambda>g. \<not> (f_merge g = f_merge f \<and> SmallType g \<in> {SmallType f, other_type (SmallType f)})) (feeds s))"
proof -
  have same: "same_news t m = (\<lambda>g. f_merge g = m \<and> SmallType g \<in> {t, other_type t})" for t m
    by (auto simp: same_news_def fun_eq_iff)
  obtain ids s' where "RemoveById i s = Some (ids, s')"
    "ids = (case data (fst s) i of None \<Rightarrow> [] | Some f \<Rightarrow> map f_id (filter (same_news (SmallType f) (f_merge f)) (feeds s)))"
    "window s' = (case data (fst s) i of None \<Rightarrow> window s
       | Some f \<Rightarrow> filter (\<lambda>e. \<not> same_news (SmallType f) (f_merge f) (feed_of e)) (window s))" by (rule RemoveById_ok [OF assms])
  then show ?thesis
    by (cases "fst s i") (simp_all add: data_def feeds_def same filter_map comp_def)
qed

lemma remove_takes_the_news_witness: "\<exists>s'. RemoveById 7 (Map.empty, new_ring) = Some ([], s') \<and> feeds s' = []"
  using remove_takes_the_news [OF new_ring_ok, of 7] by simp

text \<open>The count of views of an entry, eight bits between the flags and the weight, saturates: after \<open>n\<close> increments it is the
  former count plus \<open>n\<close> or 255, whichever is less, and the flags beside it, the handle and the time are as they were.\<close>
lemma viewed_count_saturates:
  "GetViewedCount (inc_viewed n x) = min 255 (GetViewedCount x + int n) \<and>
   IsRandomed (inc_viewed n x) = IsRandomed x \<and> IsUpdateTime (inc_viewed n x) = IsUpdateTime x \<and>
   l_feed (inc_viewed n x) = l_feed x \<and> l_time (inc_viewed n x) = l_time x"
  by (simp add: inc_viewed_all)

text \<open>\<open>Sort\<close> puts what is commented on behind its comments: a vector of mains followed by a comment is partitioned, with
  both parts in their order; a vector of mains only, or one whose first feed that is no main is no comment either, stays as it is.
  Whatever it returns, the vector is a permutation of what it was.\<close>
lemma Sort_mains_last:
  "Sort fv = (let mains = filter (\<lambda>f. IsMain (SmallType f)) fv; others = filter (\<lambda>f. \<not> IsMain (SmallType f)) fv;
       rest = dropWhile (\<lambda>f. IsMain (SmallType f)) fv
     in if length fv = 1 then (False, False, fv)
        else case rest of [] \<Rightarrow> (True, False, fv)
        | f # _ \<Rightarrow> if IsComment (SmallType f) then (mains \<noteq> [], True, others @ mains) else (False, False, fv)) \<and>
   mset (snd (snd (Sort fv))) = mset fv"
proof -
  have "mset (filter (\<lambda>f. \<not> IsMain (SmallType f)) fv @ filter (\<lambda>f. IsMain (SmallType f)) fv) = mset fv"
    by (simp add: union_commute flip: multiset_partition)
  then show ?thesis by (simp add: Sort_value Let_def split: list.split)
qed

end
