(* ===== verification/NewsRows.thy ===== *)
theory NewsRows
  imports NewsBuild NewsRingTheorems
begin

text \<open>
  What building one row does, apart from the state: which feeds it removes, which content becomes the data, the text of a row of feeds
  that are neither comments nor commented on, and the rows that a page shows.
\<close>

section \<open>Removed feeds\<close>

definition nulls :: "FeedContentDict \<Rightarrow> int set" where
  "nulls dict = {i. m_find dict i = Some None}"

text \<open>What holds of the builder while the feeds in \<open>F\<close> are gone through.\<close>

definition builder_ok :: "FeedContentDict \<Rightarrow> Feed set \<Rightarrow> Builder \<Rightarrow> bool" where
  "builder_ok dict F b \<longleftrightarrow>
     (\<forall>i \<in> set (bd_remove b). \<exists>f \<in> F. f_id f = i \<and> (i \<in> nulls dict \<or> IsComment (SmallType f))) \<and>
     (\<forall>k. bd_data b = Some k \<longrightarrow> (\<exists>f \<in> F. f_id f = k) \<and> data_at dict k \<noteq> None) \<and> length (bd_commenters b) \<le> 5"

lemma s_insert_length: "length (s_insert x xs) \<le> Suc (length xs)"
  by (induction xs) auto

lemma choose_data_ok:
  assumes "builder_ok dict F b" "f \<in> F" "m_find dict (f_id f) = Some (Some c)" "fc_data c = Some d"
  shows "builder_ok dict F (choose_data mc f c b)"
  using assms by (auto simp: builder_ok_def choose_data_def Let_def data_at_def)

lemma choose_comment_ok:
  assumes "builder_ok dict F b" "f \<in> F" "choose_comment f b = (ok, b')"
  shows "builder_ok dict F b'"
  using assms s_insert_length [of "f_actor f" "bd_commenters b"]
  by (auto simp: builder_ok_def choose_comment_def Let_def split: if_splits)

lemma choose_add_ok: "builder_ok dict F b \<Longrightarrow> choose_add mc ok f b = (add, b') \<Longrightarrow> builder_ok dict F b'"
  by (auto simp: builder_ok_def choose_add_def Let_def split: if_splits)

lemma take_content_ok:
  assumes "builder_ok dict F b" "f \<in> F" "m_find dict (f_id f) = Some (Some c)" "take_content mc f c b = Some b'"
  shows "builder_ok dict F b'"
proof -
  obtain d where d: "fc_data c = Some d" using assms(4) by (cases "fc_data c") (simp_all add: take_content_def)
  obtain ok b1 where b1: "choose_comment f (choose_data mc f c b) = (ok, b1)" by fastforce
  obtain add b2 where b2: "choose_add mc ok f b1 = (add, b2)" by fastforce
  have k1: "builder_ok dict F b1" by (rule choose_comment_ok [OF choose_data_ok [OF assms(1-3) d] assms(2) b1])
  have k2: "builder_ok dict F b2" by (rule choose_add_ok [OF k1 b2])
  show ?thesis using assms(4) k1 k2
    by (auto simp: take_content_def d b1 b2 Let_def builder_ok_def split: if_splits)
qed

lemma build_group_ok:
  "build_group dict mc k fs b = Some b' \<Longrightarrow> set fs \<subseteq> F \<Longrightarrow> builder_ok dict F b \<Longrightarrow> builder_ok dict F b'"
proof (induction fs arbitrary: k b)
  case (Cons f fs)
  have f: "f \<in> F" "set fs \<subseteq> F" using Cons.prems(2) by auto
  obtain b1 where b1: "(case m_find dict (f_id f) of None \<Rightarrow> Some b | Some None \<Rightarrow> Some (b\<lparr>bd_remove := bd_remove b @ [f_id f]\<rparr>)
        | Some (Some c) \<Rightarrow> take_content mc f c b) = Some b1"
    using Cons.prems(1) by (auto simp: Option.bind_eq_Some_conv)
  have ok: "builder_ok dict F b1"
    using b1 Cons.prems(3) f(1) take_content_ok [OF Cons.prems(3) f(1)]
    by (auto simp: builder_ok_def nulls_def split: option.splits)
  have "b1 = b' \<or> build_group dict mc (k + 1) fs b1 = Some b'"
    using Cons.prems(1) unfolding build_group.simps b1 by (simp split: if_splits)
  then show ?case
  proof
    show "build_group dict mc (k + 1) fs b1 = Some b' \<Longrightarrow> ?case" by (rule Cons.IH [OF _ f(2) ok])
  qed (use ok in simp)
qed simp

lemma Sort_set: "Sort g = (a, b, g') \<Longrightarrow> set g' = set g"
  using Sort_mains_last [of g] by (metis set_mset_mset snd_conv)

lemma build_groups_ok:
  "build_groups dict gs b = Some b' \<Longrightarrow> set (concat gs) \<subseteq> F \<Longrightarrow> builder_ok dict F b \<Longrightarrow> builder_ok dict F b'"
proof (induction gs arbitrary: b)
  case (Cons g gs)
  obtain x mc g' where g: "Sort g = (x, mc, g')" by (cases "Sort g")
  obtain b1 where b1: "build_group dict mc 0 g' (b\<lparr>bd_getid := False, bd_merge_count := 0, bd_main_count := 0\<rparr>) = Some b1"
    "build_groups dict gs (if bd_data b1 \<noteq> None then b1\<lparr>bd_gather := bd_gather b1 + 1\<rparr> else b1) = Some b'"
    using Cons.prems(1) unfolding build_groups.simps g Let_def prod.case Option.bind_eq_Some_conv by blast
  have "builder_ok dict F b1"
    by (rule build_group_ok [OF b1(1)]) (use Cons.prems(2,3) Sort_set [OF g] in \<open>auto simp: builder_ok_def\<close>)
  then have "builder_ok dict F (if bd_data b1 \<noteq> None then b1\<lparr>bd_gather := bd_gather b1 + 1\<rparr> else b1)" by (simp add: builder_ok_def)
  moreover have "set (concat gs) \<subseteq> F" using Cons.prems(2) by simp
  ultimately show ?case by (rule Cons.IH [OF b1(2), rotated])
qed simp

lemma m_find_put_xml: "m_find (put_xml k xml dict) i =
    (if i = k then map_option (map_option (\<lambda>c. c\<lparr>fc_data := map_option (\<lambda>d. d\<lparr>fd_xml := xml\<rparr>) (fc_data c)\<rparr>)) (m_find dict i) else m_find dict i)"
  by (induction dict) (auto simp: m_find_def put_xml_def)

lemma nulls_put_xml [simp]: "nulls (put_xml k xml dict) = nulls dict"
  by (auto simp: nulls_def m_find_put_xml)

text \<open>
  A row removes only ids of its feeds: those whose content is null, and comments. Its data are those of one of its feeds, and
  nothing of the dictionary changes but their text.
\<close>

lemma build_row_ok:
  assumes "build_row uid dict gs = Some (d, fids, dict')"
  shows "\<forall>i \<in> set fids. \<exists>f \<in> set (concat gs). f_id f = i \<and> (i \<in> nulls dict \<or> IsComment (SmallType f))"
    "\<forall>k. d = Some k \<longrightarrow> (\<exists>f \<in> set (concat gs). f_id f = k) \<and> data_at dict k \<noteq> None"
    "\<exists>xml. dict' = (case d of None \<Rightarrow> dict | Some k \<Rightarrow> put_xml k xml dict)" "nulls dict' = nulls dict"
proof -
  obtain b where b: "build_groups dict gs new_builder = Some b" "d = bd_data b" "fids = bd_remove b"
    "dict' = (case bd_data b of None \<Rightarrow> dict | Some k \<Rightarrow> put_xml k (bd_xml b @ end_xml uid dict b) dict)"
    using assms by (auto simp: build_row_def Option.bind_eq_Some_conv)
  have "builder_ok dict (set (concat gs)) b"
    by (rule build_groups_ok [OF b(1)]) (simp_all add: builder_ok_def new_builder_def)
  then show "\<forall>i \<in> set fids. \<exists>f \<in> set (concat gs). f_id f = i \<and> (i \<in> nulls dict \<or> IsComment (SmallType f))"
    "\<forall>k. d = Some k \<longrightarrow> (\<exists>f \<in> set (concat gs). f_id f = k) \<and> data_at dict k \<noteq> None"
    unfolding builder_ok_def b(2,3) by blast+
  show "\<exists>xml. dict' = (case d of None \<Rightarrow> dict | Some k \<Rightarrow> put_xml k xml dict)" unfolding b(2,4) by (cases "bd_data b") auto
  show "nulls dict' = nulls dict" unfolding b(4) by (simp split: option.split)
qed

section \<open>Rows of plain feeds\<close>

text \<open>Feeds that are neither comments nor commented on, all of one way of merging.\<close>

definition plain :: "int \<Rightarrow> Feed list \<Rightarrow> bool" where
  "plain t fs \<longleftrightarrow> (\<forall>f \<in> set fs. \<not> IsMain (SmallType f) \<and> \<not> IsComment (SmallType f) \<and> NewsMergeType f = t)"

definition text_of :: "FeedContentDict \<Rightarrow> Feed \<Rightarrow> string" where
  "text_of dict f = (case data_at dict (f_id f) of None \<Rightarrow> [] | Some d \<Rightarrow> fd_xml d)"

text \<open>Feeds with data, and feeds with a content that is null; any other content would throw.\<close>

definition present :: "FeedContentDict \<Rightarrow> Feed \<Rightarrow> bool" where
  "present dict f \<longleftrightarrow> data_at dict (f_id f) \<noteq> None"

definition sound :: "FeedContentDict \<Rightarrow> Feed list \<Rightarrow> bool" where
  "sound dict fs \<longleftrightarrow> (\<forall>f \<in> set fs. \<forall>c. m_find dict (f_id f) = Some (Some c) \<longrightarrow> fc_data c \<noteq> None)"

lemma Sort_plain: "plain t fs \<Longrightarrow> Sort fs = (fs = [] , False, fs)"
  by (cases fs) (auto simp: plain_def Sort_def)

text \<open>One feed of the first group.\<close>

definition plain_step :: "FeedContentDict \<Rightarrow> Feed \<Rightarrow> Builder \<Rightarrow> Builder" where
  "plain_step dict f b =
     (case m_find dict (f_id f) of
        None \<Rightarrow> b
      | Some None \<Rightarrow> b\<lparr>bd_remove := bd_remove b @ [f_id f]\<rparr>
      | Some (Some c) \<Rightarrow>
          let b = (if bd_data b = None then b\<lparr>bd_data := Some (f_id f), bd_reply := fc_reply c\<rparr> else b)
          in if bd_merge_count b = 0 \<or> bd_merge_count b < 5 \<and> NewsMergeType f = FeedMergeAppend
             then b\<lparr>bd_xml := bd_xml b @ text_of dict f, bd_merge_count := bd_merge_count b + 1\<rparr> else b)"

text \<open>One feed of a later group.\<close>

definition later_step :: "FeedContentDict \<Rightarrow> Feed \<Rightarrow> Builder \<Rightarrow> Builder" where
  "later_step dict f b =
     (case m_find dict (f_id f) of
        None \<Rightarrow> b
      | Some None \<Rightarrow> b\<lparr>bd_remove := bd_remove b @ [f_id f]\<rparr>
      | Some (Some c) \<Rightarrow> if bd_getid b then b else b\<lparr>bd_valid := bd_valid b @ [f_id f], bd_getid := True\<rparr>)"

definition any_step :: "FeedContentDict \<Rightarrow> Feed \<Rightarrow> Builder \<Rightarrow> Builder" where
  "any_step dict f b = (if bd_gather b = 0 then plain_step dict f b else later_step dict f b)"

lemma any_step_take:
  assumes "plain t [f]" "t = FeedMergeReplace \<or> t = FeedMergeAppend" "0 \<le> bd_gather b" "sound dict [f]"
  shows "(case m_find dict (f_id f) of None \<Rightarrow> Some b | Some None \<Rightarrow> Some (b\<lparr>bd_remove := bd_remove b @ [f_id f]\<rparr>)
        | Some (Some c) \<Rightarrow> take_content False f c b) = Some (any_step dict f b)"
  using assms
  by (auto simp: plain_def sound_def any_step_def plain_step_def later_step_def take_content_def choose_data_def choose_comment_def choose_add_def Let_def
      text_of_def data_at_def FeedMergeReplace_def FeedMergeAppend_def split: option.split)

lemma plain_Cons: "plain t (f # fs) \<longleftrightarrow> plain t [f] \<and> plain t fs" "sound dict (f # fs) \<longleftrightarrow> sound dict [f] \<and> sound dict fs"
  by (auto simp: plain_def sound_def)

lemma step_gather [simp]: "bd_gather (plain_step dict f b) = bd_gather b" "bd_gather (later_step dict f b) = bd_gather b"
    "bd_gather (any_step dict f b) = bd_gather b"
  by (simp_all add: plain_step_def later_step_def any_step_def Let_def split: option.split)

lemma build_group_plain:
  "plain t fs \<Longrightarrow> t = FeedMergeReplace \<or> t = FeedMergeAppend \<Longrightarrow> 0 \<le> bd_gather b \<Longrightarrow> sound dict fs \<Longrightarrow> 0 \<le> k \<Longrightarrow> k \<le> 5 \<Longrightarrow>
     build_group dict False k fs b = Some (fold (any_step dict) (take (if t = FeedMergeReplace then 1 else nat (6 - k)) fs) b)"
proof (induction fs arbitrary: k b)
  case (Cons f fs)
  have p: "plain t [f]" "plain t fs" "sound dict [f]" "sound dict fs" using Cons.prems(1,4) plain_Cons by blast+
  have f: "\<not> IsMain (SmallType f)" "\<not> IsComment (SmallType f)" "NewsMergeType f = t" using p(1) by (simp_all add: plain_def)
  have B: "build_group dict False k (f # fs) b =
      (if t = FeedMergeReplace then Some (any_step dict f b)
       else if t = FeedMergeAppend \<and> k \<ge> 5 then Some (any_step dict f b)
       else build_group dict False (k + 1) fs (any_step dict f b))"
    unfolding build_group.simps any_step_take [OF p(1) Cons.prems(2,3) p(3)] using f by simp
  show ?case
  proof (cases "t = FeedMergeReplace \<or> k = 5")
    case True
    then show ?thesis using B Cons.prems(2) by (auto simp: FeedMergeReplace_def FeedMergeAppend_def)
  next
    case False
    then have n: "nat (6 - k) = Suc (nat (6 - (k + 1)))" using Cons.prems(6) by linarith
    have "build_group dict False (k + 1) fs (any_step dict f b) =
        Some (fold (any_step dict) (take (nat (6 - (k + 1))) fs) (any_step dict f b))"
      using Cons.IH [of "any_step dict f b" "k + 1"] Cons.prems(2-6) p(2,4) False by simp
    then show ?thesis using B False Cons.prems(6) by (simp add: n)
  qed
qed simp

lemma fold_any:
  "bd_gather b = 0 \<Longrightarrow> fold (any_step dict) fs b = fold (plain_step dict) fs b"
  "bd_gather b \<noteq> 0 \<Longrightarrow> fold (any_step dict) fs b = fold (later_step dict) fs b"
  by (induction fs arbitrary: b) (simp_all add: any_step_def)

text \<open>The builder after feeds of one group.\<close>

definition reply_at :: "FeedContentDict \<Rightarrow> int \<Rightarrow> FeedReply option" where
  "reply_at dict k = (case m_find dict k of Some (Some c) \<Rightarrow> fc_reply c | _ \<Rightarrow> None)"

definition plain_built :: "FeedContentDict \<Rightarrow> Feed list \<Rightarrow> Builder" where
  "plain_built dict fs =
     (let ps = filter (present dict) fs
      in new_builder\<lparr>bd_data := (if ps = [] then None else Some (f_id (hd ps))), bd_reply := (if ps = [] then None else reply_at dict (f_id (hd ps))),
           bd_xml := concat (map (text_of dict) (take 5 ps)), bd_remove := map f_id (filter (\<lambda>f. f_id f \<in> nulls dict) fs),
           bd_merge_count := int (min 5 (length ps))\<rparr>)"

lemma plain_built_step:
  assumes "plain FeedMergeAppend [f] \<or> fs = []" "sound dict [f]"
  shows "plain_step dict f (plain_built dict fs) = plain_built dict (fs @ [f])"
proof (cases "m_find dict (f_id f)")
  case None
  then show ?thesis by (simp add: plain_step_def plain_built_def present_def data_at_def nulls_def)
next
  case (Some x)
  show ?thesis
  proof (cases x)
    case None
    then show ?thesis using Some by (simp add: plain_step_def plain_built_def present_def data_at_def nulls_def Let_def)
  next
    case c: (Some c)
    obtain d where d: "fc_data c = Some d" using assms(2) Some c by (auto simp: sound_def)
    have p: "present dict f" "f_id f \<notin> nulls dict" "reply_at dict (f_id f) = fc_reply c"
      using Some c d by (simp_all add: present_def data_at_def nulls_def reply_at_def)
    let ?ps = "filter (present dict) fs"
    have S: "plain_step dict f b =
        (let b = (if bd_data b = None then b\<lparr>bd_data := Some (f_id f), bd_reply := fc_reply c\<rparr> else b)
         in if bd_merge_count b = 0 \<or> bd_merge_count b < 5 \<and> NewsMergeType f = FeedMergeAppend
            then b\<lparr>bd_xml := bd_xml b @ text_of dict f, bd_merge_count := bd_merge_count b + 1\<rparr> else b)" for b
      using Some c by (simp add: plain_step_def)
    consider (empty) "?ps = []" | (few) "?ps \<noteq> []" "length ?ps < 5" | (many) "?ps \<noteq> []" "length ?ps \<ge> 5" by linarith
    then show ?thesis
    proof cases
      case empty
      then show ?thesis unfolding S using p by (simp add: plain_built_def Let_def new_builder_def)
    next
      case few
      then have "NewsMergeType f = FeedMergeAppend" using assms(1) by (auto simp: plain_def)
      then show ?thesis unfolding S using p few by (simp add: plain_built_def Let_def new_builder_def min_def)
    next
      case many
      then show ?thesis unfolding S using p by (simp add: plain_built_def Let_def new_builder_def min_def)
    qed
  qed
qed

lemma fold_plain:
  "plain FeedMergeAppend fs \<or> length fs \<le> 1 \<Longrightarrow> sound dict fs \<Longrightarrow> fold (plain_step dict) fs new_builder = plain_built dict fs"
proof (induction fs rule: rev_induct)
  case Nil
  then show ?case by (simp add: plain_built_def new_builder_def)
next
  case (snoc f fs)
  have "plain FeedMergeAppend fs \<or> length fs \<le> 1" "sound dict fs" using snoc.prems by (auto simp: plain_def sound_def)
  moreover have "plain FeedMergeAppend [f] \<or> fs = []" "sound dict [f]" using snoc.prems by (auto simp: plain_def sound_def)
  ultimately show ?case using snoc.IH plain_built_step by simp
qed

text \<open>What is added for the reader.\<close>

definition reader_xml :: "int \<Rightarrow> FeedContentDict \<Rightarrow> int \<Rightarrow> string" where
  "reader_xml uid dict k = (case data_at dict k of None \<Rightarrow> []
     | Some d \<Rightarrow> if fd_type d AND 0xFFFF \<in> {8001..8005} then element ''user'' (element ''uID'' (show_int uid)) else [])"

text \<open>The feeds of a group that are looked at: the first one of a kind that replaces, the first six of one that appends.\<close>

definition looked_at :: "Feed list \<Rightarrow> Feed list" where
  "looked_at g = take (if g \<noteq> [] \<and> NewsMergeType (hd g) = FeedMergeReplace then 1 else 6) g"

definition plain_group :: "FeedContentDict \<Rightarrow> Feed list \<Rightarrow> bool" where
  "plain_group dict g \<longleftrightarrow> (plain FeedMergeReplace g \<or> plain FeedMergeAppend g) \<and> sound dict g"

lemma build_group_looked:
  assumes "plain_group dict g" "0 \<le> bd_gather b"
  shows "build_group dict False 0 g b = Some (fold (any_step dict) (looked_at g) b)"
proof -
  obtain t where t: "plain t g" "t = FeedMergeReplace \<or> t = FeedMergeAppend" "sound dict g"
    using assms(1) unfolding plain_group_def by blast
  have "g \<noteq> [] \<Longrightarrow> NewsMergeType (hd g) = t" using t(1) by (simp add: plain_def)
  then show ?thesis using build_group_plain [OF t(1,2) assms(2) t(3), of 0]
    by (cases "g = []") (simp_all add: looked_at_def)
qed

lemma looked_at_plain:
  assumes "plain_group dict g"
  shows "plain FeedMergeAppend (looked_at g) \<or> length (looked_at g) \<le> 1" "sound dict (looked_at g)"
proof -
  have "plain FeedMergeReplace g \<Longrightarrow> length (looked_at g) \<le> 1" by (cases g) (simp_all add: looked_at_def plain_def)
  then show "plain FeedMergeAppend (looked_at g) \<or> length (looked_at g) \<le> 1"
    using assms by (auto simp: plain_group_def plain_def looked_at_def dest: in_set_takeD)
  show "sound dict (looked_at g)" using assms by (auto simp: plain_group_def sound_def looked_at_def dest: in_set_takeD)
qed

lemma Sort_plain_group: "plain_group dict g \<Longrightarrow> Sort g = (g = [], False, g)"
  using Sort_plain by (auto simp: plain_group_def)

text \<open>The ids of the feeds with a null content, and of the first feed with data.\<close>

definition null_ids :: "FeedContentDict \<Rightarrow> Feed list \<Rightarrow> int list" where
  "null_ids dict fs = map f_id (filter (\<lambda>f. f_id f \<in> nulls dict) fs)"

definition first_id :: "FeedContentDict \<Rightarrow> Feed list \<Rightarrow> int list" where
  "first_id dict fs = (case filter (present dict) fs of [] \<Rightarrow> [] | f # _ \<Rightarrow> [f_id f])"

lemma fold_later:
  assumes "sound dict fs"
  shows "fold (later_step dict) fs b = b\<lparr>bd_valid := bd_valid b @ (if bd_getid b then [] else first_id dict fs),
    bd_getid := bd_getid b \<or> first_id dict fs \<noteq> [], bd_remove := bd_remove b @ null_ids dict fs\<rparr>"
  using assms
proof (induction fs arbitrary: b)
  case (Cons f fs)
  have s: "sound dict fs" using Cons.prems plain_Cons(2) by blast
  have st: "fold (later_step dict) (f # fs) b = fold (later_step dict) fs (later_step dict f b)" by simp
  consider "m_find dict (f_id f) = None" | "m_find dict (f_id f) = Some None" | c d where "m_find dict (f_id f) = Some (Some c)" "fc_data c = Some d"
    using Cons.prems unfolding sound_def by (metis list.set_intros(1) not_None_eq)
  then show ?case
  proof cases
    case 1
    then have "later_step dict f b = b" "first_id dict (f # fs) = first_id dict fs" "null_ids dict (f # fs) = null_ids dict fs"
      by (simp_all add: later_step_def first_id_def null_ids_def present_def data_at_def nulls_def)
    then show ?thesis unfolding st by (simp only: Cons.IH [OF s])
  next
    case 2
    then have "later_step dict f b = b\<lparr>bd_remove := bd_remove b @ [f_id f]\<rparr>" "first_id dict (f # fs) = first_id dict fs"
      "null_ids dict (f # fs) = f_id f # null_ids dict fs"
      by (simp_all add: later_step_def first_id_def null_ids_def present_def data_at_def nulls_def)
    then show ?thesis unfolding st by (simp add: Cons.IH [OF s])
  next
    case (3 c d)
    then have "later_step dict f b = (if bd_getid b then b else b\<lparr>bd_valid := bd_valid b @ [f_id f], bd_getid := True\<rparr>)"
      "first_id dict (f # fs) = [f_id f]" "null_ids dict (f # fs) = null_ids dict fs"
      by (simp_all add: later_step_def first_id_def null_ids_def present_def data_at_def nulls_def)
    then show ?thesis unfolding st by (simp add: Cons.IH [OF s])
  qed
qed (simp add: first_id_def null_ids_def)

text \<open>The groups after the one that gave the data.\<close>

lemma build_groups_later:
  "\<forall>g \<in> set gs. plain_group dict g \<Longrightarrow> 0 < bd_gather b \<Longrightarrow> \<exists>b'. build_groups dict gs b = Some b' \<and>
     bd_data b' = bd_data b \<and> bd_reply b' = bd_reply b \<and> bd_xml b' = bd_xml b \<and>
     bd_valid b' = bd_valid b @ concat (map (first_id dict \<circ> looked_at) gs) \<and>
     bd_remove b' = bd_remove b @ concat (map (null_ids dict \<circ> looked_at) gs)"
proof (induction gs arbitrary: b)
  case (Cons g gs)
  have g: "plain_group dict g" using Cons.prems(1) by simp
  let ?b = "b\<lparr>bd_getid := False, bd_merge_count := 0, bd_main_count := 0\<rparr>"
  have "build_group dict False 0 g ?b = Some (fold (later_step dict) (looked_at g) ?b)"
    using build_group_looked [OF g, of ?b] fold_any(2) [of ?b] Cons.prems(2) by simp
  then obtain b1 where b1: "build_group dict False 0 g ?b = Some b1" "bd_data b1 = bd_data b" "bd_reply b1 = bd_reply b" "bd_xml b1 = bd_xml b"
    "bd_valid b1 = bd_valid b @ first_id dict (looked_at g)" "bd_remove b1 = bd_remove b @ null_ids dict (looked_at g)" "bd_gather b1 = bd_gather b"
    using fold_later [OF looked_at_plain(2) [OF g], of ?b] by simp
  let ?c = "if bd_data b1 \<noteq> None then b1\<lparr>bd_gather := bd_gather b1 + 1\<rparr> else b1"
  have gs: "\<forall>g \<in> set gs. plain_group dict g" and c: "0 < bd_gather ?c" using Cons.prems b1(7) by simp_all
  obtain b' where "build_groups dict gs ?c = Some b'" "bd_data b' = bd_data ?c" "bd_reply b' = bd_reply ?c" "bd_xml b' = bd_xml ?c"
      "bd_valid b' = bd_valid ?c @ concat (map (first_id dict \<circ> looked_at) gs)"
      "bd_remove b' = bd_remove ?c @ concat (map (null_ids dict \<circ> looked_at) gs)"
    using Cons.IH [of ?c, OF gs c] by blast
  moreover have "build_groups dict (g # gs) b = build_groups dict gs ?c" using Sort_plain_group [OF g] b1(1) by simp
  ultimately show ?case using b1 by (cases "bd_data b = None") (simp_all add: comp_def)
qed simp

lemma plain_step_remove:
  "plain_step dict f (b\<lparr>bd_remove := R @ bd_remove b\<rparr>) = (plain_step dict f b)\<lparr>bd_remove := R @ bd_remove (plain_step dict f b)\<rparr>"
  by (simp add: plain_step_def Let_def split: option.split)

lemma fold_plain_remove:
  "fold (plain_step dict) fs (b\<lparr>bd_remove := R @ bd_remove b\<rparr>) =
     (fold (plain_step dict) fs b)\<lparr>bd_remove := R @ bd_remove (fold (plain_step dict) fs b)\<rparr>"
  by (induction fs arbitrary: b) (simp_all add: plain_step_remove)

text \<open>The ids of the gathered groups.\<close>

definition gathered_xml :: "int list \<Rightarrow> string" where
  "gathered_xml valid =
     (if valid = [] then []
      else element ''merge_feed'' (element ''count'' (show_nat (length valid)) @ concat (map (\<lambda>i. element ''fid'' (show_int i)) valid)))"

text \<open>The row of plain groups: which feeds are looked at, which ids go, which groups have data, and the text of the first of them.\<close>

definition row_of :: "int \<Rightarrow> FeedContentDict \<Rightarrow> Feed list list \<Rightarrow> int option \<times> int list \<times> FeedContentDict" where
  "row_of uid dict gs =
     (let seen = map looked_at gs; gone = concat (map (null_ids dict) seen)
      in case dropWhile (\<lambda>fs. first_id dict fs = []) seen of
           [] \<Rightarrow> (None, gone, dict)
         | fs # later \<Rightarrow>
             (let ps = filter (present dict) fs; k = f_id (hd ps)
              in (Some k, gone, put_xml k (concat (map (text_of dict) (take 5 ps)) @
                   (case reply_at dict k of None \<Rightarrow> [] | Some r \<Rightarrow> reply_xml r) @
                   gathered_xml (concat (map (first_id dict) later)) @ reader_xml uid dict k) dict)))"

lemma build_groups_plain:
  "\<forall>g \<in> set gs. plain_group dict g \<Longrightarrow> \<exists>b. build_groups dict gs (new_builder\<lparr>bd_remove := R\<rparr>) = Some b \<and>
     bd_remove b = R @ concat (map (null_ids dict \<circ> looked_at) gs) \<and>
     (case dropWhile (\<lambda>fs. first_id dict fs = []) (map looked_at gs) of
        [] \<Rightarrow> bd_data b = None
      | fs # later \<Rightarrow> bd_data b = bd_data (plain_built dict fs) \<and> bd_reply b = bd_reply (plain_built dict fs) \<and>
          bd_xml b = bd_xml (plain_built dict fs) \<and> bd_valid b = concat (map (first_id dict) later))"
proof (induction gs arbitrary: R)
  case (Cons g gs)
  have g: "plain_group dict g" "\<forall>g \<in> set gs. plain_group dict g" using Cons.prems by simp_all
  let ?b = "new_builder\<lparr>bd_remove := R\<rparr>" and ?fs = "looked_at g"
  let ?p = "(plain_built dict ?fs)\<lparr>bd_remove := R @ null_ids dict ?fs\<rparr>"
  have n: "?b\<lparr>bd_getid := False, bd_merge_count := 0, bd_main_count := 0\<rparr> = ?b" "bd_gather ?b = 0" by (simp_all add: new_builder_def)
  have "fold (plain_step dict) ?fs ?b = ?p"
    using fold_plain_remove [where dict = dict and fs = ?fs and b = new_builder and R = R] fold_plain [OF looked_at_plain [OF g(1)]]
    by (simp add: new_builder_def plain_built_def null_ids_def Let_def)
  then have bg: "build_group dict False 0 g ?b = Some ?p" using build_group_looked [OF g(1), of ?b] fold_any(1) [of ?b] n(2) by simp
  show ?case
  proof (cases "first_id dict ?fs = []")
    case True
    then have e: "filter (present dict) ?fs = []" by (simp add: first_id_def split: list.splits)
    then have "?p = new_builder\<lparr>bd_remove := R @ null_ids dict ?fs\<rparr>" "bd_data ?p = None" by (simp_all add: plain_built_def new_builder_def)
    then show ?thesis using Cons.IH [OF g(2), of "R @ null_ids dict ?fs"] Sort_plain_group [OF g(1)] bg n(1) True by simp
  next
    case False
    then have d: "bd_data ?p \<noteq> None" "0 < bd_gather (?p\<lparr>bd_gather := bd_gather ?p + 1\<rparr>)"
      by (auto simp: first_id_def plain_built_def new_builder_def Let_def split: list.splits)
    obtain b where "build_groups dict gs (?p\<lparr>bd_gather := bd_gather ?p + 1\<rparr>) = Some b" "bd_data b = bd_data ?p" "bd_reply b = bd_reply ?p"
      "bd_xml b = bd_xml ?p" "bd_valid b = bd_valid ?p @ concat (map (first_id dict \<circ> looked_at) gs)"
      "bd_remove b = bd_remove ?p @ concat (map (null_ids dict \<circ> looked_at) gs)"
      using build_groups_later [OF g(2) d(2)] by auto
    moreover have "bd_valid ?p = []" by (simp add: plain_built_def new_builder_def Let_def)
    ultimately show ?thesis using Sort_plain_group [OF g(1)] bg n(1) d(1) False by (simp add: comp_def)
  qed
qed (simp add: new_builder_def)

lemma plain_row:
  assumes "\<forall>g \<in> set gs. plain_group dict g"
  shows "build_row uid dict gs = Some (row_of uid dict gs)"
proof -
  have n: "new_builder\<lparr>bd_remove := []\<rparr> = new_builder" by (simp add: new_builder_def)
  obtain b where b: "build_groups dict gs new_builder = Some b" "bd_remove b = concat (map (null_ids dict \<circ> looked_at) gs)"
    "case dropWhile (\<lambda>fs. first_id dict fs = []) (map looked_at gs) of
        [] \<Rightarrow> bd_data b = None
      | fs # later \<Rightarrow> bd_data b = bd_data (plain_built dict fs) \<and> bd_reply b = bd_reply (plain_built dict fs) \<and>
          bd_xml b = bd_xml (plain_built dict fs) \<and> bd_valid b = concat (map (first_id dict) later)"
    using build_groups_plain [OF assms, of "[]"] unfolding n append_Nil by blast
  show ?thesis
  proof (cases "dropWhile (\<lambda>fs. first_id dict fs = []) (map looked_at gs)")
    case Nil
    then have "bd_data b = None" using b(3) unfolding Nil list.case by blast
    then show ?thesis using b(1,2) unfolding row_of_def Let_def Nil list.case by (simp add: build_row_def comp_def)
  next
    case (Cons fs later)
    have "first_id dict fs \<noteq> []" using hd_dropWhile [of "\<lambda>fs. first_id dict fs = []" "map looked_at gs"] unfolding Cons by simp
    then have "filter (present dict) fs \<noteq> []" unfolding first_id_def by force
    then obtain f ps where p: "filter (present dict) fs = f # ps" unfolding neq_Nil_conv by blast
    have "bd_data b = bd_data (plain_built dict fs)" "bd_reply b = bd_reply (plain_built dict fs)"
        "bd_xml b = bd_xml (plain_built dict fs)" "bd_valid b = concat (map (first_id dict) later)"
      using b(3) unfolding Cons list.case by blast+
    then show ?thesis using b(1,2) p unfolding row_of_def Let_def Cons list.case
      by (simp add: build_row_def comp_def plain_built_def end_xml_def gathered_xml_def reader_xml_def)
  qed
qed

section \<open>The rows of a page\<close>

lemma rows_loop_value: "rows_loop i lo hi rows = take (nat (hi - max lo i)) (drop (nat (lo - i)) rows)"
proof (induction i lo hi rows rule: rows_loop.induct)
  case (2 i lo hi row rows)
  show ?case
  proof (cases "i < lo")
    case True
    then have "nat (lo - i) = Suc (nat (lo - (i + 1)))" "max lo i = max lo (i + 1)" by linarith+
    then show ?thesis using 2(1) True by simp
  next
    case l: False
    show ?thesis
    proof (cases "hi \<le> i")
      case False
      then have "nat (hi - i) = Suc (nat (hi - (i + 1)))" by linarith
      then show ?thesis using 2(2) l False by (simp add: max_def)
    qed (use l in \<open>simp add: max_def\<close>)
  qed
qed simp

text \<open>The three loops, when the end of the page fits an \<open>int\<close>.\<close>

lemma page_rows_value:
  assumes "0 \<le> k" "k \<le> int (length rows)" "0 \<le> bgn" "0 \<le> limit" "limit < 2 ^ 31"
    "bgn + limit - k - int (length random) < 2 ^ 31" "k + int (length random) \<le> 2 ^ 31"
  shows "page_rows rows bgn limit random k = take (nat k) rows @ random @
    take (nat (bgn + limit - k - int (length random) - max k bgn)) (drop (nat (max k bgn)) rows)"
proof -
  have n: "nat k + nat (bgn - k) = nat (max k bgn)" using assms(1,3) by linarith
  have "int (length (take (nat k) rows)) = k" using assms(1,2) by simp
  moreover have "to_int32 (limit - k) = limit - k" "to_int32 (limit - k - int (length random)) = limit - k - int (length random)"
    "to_int32 (bgn + (limit - k - int (length random))) = bgn + (limit - k - int (length random))"
    by (rule to_int32_id; use assms in simp)+
  ultimately have "page_rows rows bgn limit random k = take (nat k) rows @ random @
      rows_loop k bgn (bgn + (limit - k - int (length random))) (drop (nat k) rows)"
    by (simp only: page_rows_def Let_def)
  moreover have "bgn + (limit - k - int (length random)) - max bgn k = bgn + limit - k - int (length random) - max k bgn" by linarith
  ultimately show ?thesis by (simp add: rows_loop_value n [symmetric] add.commute)
qed

text \<open>When it does not, the loop shows nothing.\<close>

lemma page_rows_overflow:
  assumes "0 \<le> k" "k \<le> int (length rows)" "0 \<le> bgn" "bgn < 2 ^ 31" "limit < 2 ^ 31" "2 ^ 31 \<le> bgn + limit - k - int (length random)"
  shows "page_rows rows bgn limit random k = take (nat k) rows @ random"
proof -
  let ?l = "limit - k - int (length random)"
  have "int (length (take (nat k) rows)) = k" using assms(1,2) by simp
  moreover have "to_int32 (limit - k) = limit - k" "to_int32 ?l = ?l" by (rule to_int32_id; use assms in simp)+
  moreover have "to_int32 (bgn + ?l) < 0"
  proof -
    have "bgn + ?l + 2 ^ 31 = bgn + ?l - 2 ^ 31 + 2 ^ 32" by simp
    then have "(bgn + ?l + 2 ^ 31) mod 2 ^ 32 = (bgn + ?l - 2 ^ 31) mod 2 ^ 32" by (metis mod_add_self2)
    also have "\<dots> = bgn + ?l - 2 ^ 31" using assms by (intro mod_pos_pos_trivial) simp_all
    finally show ?thesis using assms by (simp add: to_int32_def)
  qed
  ultimately have "page_rows rows bgn limit random k = take (nat k) rows @ random @ rows_loop k bgn (to_int32 (bgn + ?l)) (drop (nat k) rows)"
    by (simp only: page_rows_def Let_def)
  then show ?thesis using \<open>to_int32 (bgn + ?l) < 0\<close> assms(1,3) by (simp add: rows_loop_value)
qed

lemma pages_tile:
  assumes "0 \<le> limit" "int m * limit < 2 ^ 31"
  shows "concat (map (\<lambda>n. page_rows rows (int n * limit) limit [] 0) [0..<m]) = take (m * nat limit) rows"
  using assms(2)
proof (induction m)
  case (Suc m)
  have e: "int (Suc m) * limit = int m * limit + limit" by (simp add: algebra_simps)
  have "0 \<le> int m * limit" using assms(1) by simp
  then have "limit < 2 ^ 31" using Suc.prems e by linarith
  then have "page_rows rows (int m * limit) limit [] 0 = take (nat limit) (drop (m * nat limit) rows)"
    using page_rows_value [of 0 rows "int m * limit" limit "[]"] assms(1) Suc.prems e by (simp add: nat_mult_distrib)
  moreover have "take (Suc m * nat limit) rows = take (m * nat limit) rows @ take (nat limit) (drop (m * nat limit) rows)"
    by (metis mult_Suc add.commute take_add)
  moreover have "int m * limit < 2 ^ 31" using Suc.prems e assms(1) by linarith
  ultimately show ?case using Suc.IH by (simp del: mult_Suc)
qed simp

end
