(* ===== verification/NewsMergeInv.thy ===== *)
theory NewsMergeInv
  imports NewsMerge NewsRingSpec
begin

text \<open>
  Merging as grouping by key: the groups are the classes of the visible entries with the same key, in the order in which
  the keys first occur; of the entries nothing but flags, times and weights change.
\<close>

section \<open>Rings with the same feeds\<close>

definition same_slots :: "LiveFeed \<Rightarrow> LiveFeed \<Rightarrow> bool" where
  "same_slots r r' \<longleftrightarrow> map l_feed (lf_feeds r') = map l_feed (lf_feeds r) \<and> lf_size r' = lf_size r \<and> lf_end r' = lf_end r \<and>
     lf_part_size r' = lf_part_size r"

lemma same_slots_refl [simp]: "same_slots r r"
  by (simp add: same_slots_def)

lemma same_slots_trans: "same_slots r t \<Longrightarrow> same_slots t u \<Longrightarrow> same_slots r u"
  by (simp add: same_slots_def)

lemma same_slots_length: "same_slots r r' \<Longrightarrow> length (lf_feeds r') = length (lf_feeds r)"
  unfolding same_slots_def by (metis length_map)

lemma same_slots_on: "(\<And>x. l_feed (f x) = l_feed x) \<Longrightarrow> same_slots r (on_slot i f r)"
  by (cases "nat i < length (lf_feeds r)") (auto simp: same_slots_def on_slot_def slot_def map_update list_update_beyond list_update_same_conv)

lemma same_slots_slot: "same_slots r r' \<Longrightarrow> nat i < length (lf_feeds r) \<Longrightarrow> l_feed (slot r' i) = l_feed (slot r i)"
  using same_slots_length [of r r'] unfolding same_slots_def slot_def by (metis nth_map)

lemma same_slots_deref: "same_slots r r' \<Longrightarrow> nat i < length (lf_feeds r) \<Longrightarrow> deref p (slot r' i) = deref p (slot r i)"
  by (simp add: deref_def same_slots_slot)

lemma same_slots_handles: "same_slots r r' \<Longrightarrow> handles r' = handles r"
proof -
  assume "same_slots r r'"
  then have "map opt_ms (map l_feed (lf_feeds r')) = map opt_ms (map l_feed (lf_feeds r))" by (simp only: same_slots_def)
  then show ?thesis by (simp add: handles_def comp_def)
qed

lemma same_slots_view:
  assumes "same_slots r r'" "length (lf_feeds r) = 250" "c < 250"
  shows "snd (view (p, r') ! c) = snd (view (p, r) ! c)"
proof -
  have q: "pos r' c = pos r c" using assms(1) by (simp add: pos_def same_slots_def)
  have "l_feed (lf_feeds r' ! pos r c) = l_feed (lf_feeds r ! pos r c)"
    using same_slots_slot [OF assms(1), of "int (pos r c)"] pos_less [of r c] assms(2) by (simp add: slot_def)
  then show ?thesis using assms(3) q by (simp add: view_nth resolve_def)
qed

lemma same_slots_ok:
  assumes "ring_ok E (p, r)" "same_slots r r'"
  shows "ring_ok E (p, r')" "feeds (p, r') = feeds (p, r)"
proof -
  have l: "length (lf_feeds r) = 250" using assms(1) by (simp add: ring_ok_def ring_mem_def)
  have f: "lf_size r' = lf_size r" "lf_end r' = lf_end r" "lf_part_size r' = lf_part_size r" using assms(2) by (simp_all add: same_slots_def)
  have "map snd (view (p, r')) = map snd (view (p, r))"
    by (rule nth_equalityI) (use same_slots_view [OF assms(2) l] in simp_all)
  then have w: "map snd (window (p, r')) = map snd (window (p, r))" using f(1) by (simp add: window_def flip: take_map)
  then show fs: "feeds (p, r') = feeds (p, r)"
    unfolding feeds_def feed_of_def by (metis (no_types, lifting) comp_def map_map map_eq_conv)
  have "snd ` set (window (p, r')) = snd ` set (window (p, r))" using w by (metis set_map)
  then have "(\<forall>e \<in> set (window (p, r')). snd e \<noteq> None) = (\<forall>e \<in> set (window (p, r)). snd e \<noteq> None)"
    by (metis (no_types, opaque_lifting) image_iff)
  moreover have "map feed_of (window (p, r')) = map feed_of (window (p, r))" using fs by (simp only: feeds_def)
  ultimately show "ring_ok E (p, r')"
    using assms(1) f same_slots_handles [OF assms(2)] same_slots_length [OF assms(2)]
    unfolding ring_ok_def ring_mem_def by (simp add: parts_ok_def)
qed

section \<open>Grouping\<close>

definition firsts :: "'a list \<Rightarrow> 'a list" where
  "firsts xs = rev (remdups (rev xs))"

definition grouped :: "('a \<Rightarrow> 'k) \<Rightarrow> 'a list \<Rightarrow> 'a list list" where
  "grouped key xs = map (\<lambda>k. filter (\<lambda>x. key x = k) xs) (firsts (map key xs))"

lemma firsts_simps [simp]: "firsts [] = []" "firsts (xs @ [x]) = (if x \<in> set xs then firsts xs else firsts xs @ [x])"
  "set (firsts xs) = set xs" "distinct (firsts xs)"
  by (simp_all add: firsts_def)

lemma grouped_nil [simp]: "grouped key [] = []"
  by (simp add: grouped_def)

lemma length_grouped: "length (grouped key xs) = length (firsts (map key xs))"
  by (simp add: grouped_def)

lemma grouped_new: "key x \<notin> key ` set xs \<Longrightarrow> grouped key (xs @ [x]) = grouped key xs @ [[x]]"
  by (auto simp: grouped_def filter_empty_conv intro!: map_cong) (metis image_eqI)

lemma grouped_join:
  assumes "n < length (firsts (map key xs))" "firsts (map key xs) ! n = key x"
  shows "grouped key (xs @ [x]) = (grouped key xs)[n := grouped key xs ! n @ [x]]"
proof -
  let ?ks = "firsts (map key xs)"
  have "key x \<in> set ?ks" using assms by (metis nth_mem)
  then have ks: "firsts (map key (xs @ [x])) = ?ks" by simp
  show ?thesis
  proof (rule nth_equalityI)
    fix j assume "j < length (grouped key (xs @ [x]))"
    then have j: "j < length ?ks" by (simp add: length_grouped ks del: map_append)
    have "?ks ! j = key x \<longleftrightarrow> j = n" using assms j by (metis firsts_simps(4) nth_eq_iff_index_eq)
    then show "grouped key (xs @ [x]) ! j = (grouped key xs)[n := grouped key xs ! n @ [x]] ! j"
      using j assms ks by (auto simp: grouped_def nth_list_update)
  qed (use ks in \<open>simp add: length_grouped del: map_append\<close>)
qed

lemma concat_grouped_mset: "mset (concat (grouped key xs)) = mset xs"
proof (induction xs rule: rev_induct)
  case (snoc x xs)
  show ?case
  proof (cases "key x \<in> key ` set xs")
    case True
    then obtain n where n: "n < length (firsts (map key xs))" "firsts (map key xs) ! n = key x"
      by (metis firsts_simps(3) in_set_conv_nth set_map)
    have "mset (concat (ys[m := ys ! m @ [x]])) = add_mset x (mset (concat ys))" if "m < length ys" for ys m
      using that by (induction ys arbitrary: m) (auto simp: less_Suc_eq_0_disj split: nat.split)
    then show ?thesis using snoc grouped_join [of n key xs x] n by (simp add: length_grouped)
  qed (simp add: grouped_new snoc)
qed simp

lemma grouped_members:
  assumes "g \<in> set (grouped key xs)"
  shows "g \<noteq> []" "set g \<subseteq> set xs" "x \<in> set g \<Longrightarrow> y \<in> set g \<Longrightarrow> key x = key y"
  using assms by (auto simp: grouped_def filter_empty_conv)

section \<open>Flags\<close>

lemma viewed_field:
  assumes "\<And>k. 8 \<le> k \<Longrightarrow> k < 16 \<Longrightarrow> bit w k = bit (v :: u32) k"
  shows "take_bit 8 (drop_bit 8 w) = take_bit 8 (drop_bit 8 v)"
  by (rule bit_word_eqI) (use assms in \<open>auto simp only: bit_take_bit_iff bit_drop_bit_eq o_apply\<close>)

lemma ClearRandomed_flags [simp]: "\<not> IsRandomed (ClearRandomed x)" "IsUpdateTime (ClearRandomed x) = IsUpdateTime x"
  "l_feed (ClearRandomed x) = l_feed x" "l_time (ClearRandomed x) = l_time x" "GetViewedCount (ClearRandomed x) = GetViewedCount x"
proof -
  have "take_bit 8 (drop_bit 8 (w AND 0xFFFFFFFB)) = take_bit 8 (drop_bit 8 (w :: u32))" for w
    by (rule viewed_field) (simp only: flag_masks(3) bit_simps, auto)
  then show "GetViewedCount (ClearRandomed x) = GetViewedCount x"
    unfolding GetViewedCount_def viewed_bits ClearRandomed_def by simp
  show "\<not> IsRandomed (ClearRandomed x)" "IsUpdateTime (ClearRandomed x) = IsUpdateTime x"
    unfolding flag_bits ClearRandomed_def flag_masks(3) by (simp_all add: bit_simps)
qed (simp_all add: ClearRandomed_def)

lemma show_edm_flags [simp]: "l_feed (show_edm t x) = l_feed x" "GetViewedCount (show_edm t x) = GetViewedCount x"
proof -
  have m: "(0xFF00FFFF :: u32) = NOT (push_bit 16 (mask 8))" by (simp add: mask_eq_decr_exp)
  have h: "take_bit 8 (drop_bit 8 (push_bit 16 y OR (w AND 0xFF00FFFF))) = take_bit 8 (drop_bit 8 (w :: u32))" for w y
    by (rule viewed_field) (simp only: m bit_simps, auto)
  show "GetViewedCount (show_edm t x) = GetViewedCount x"
    unfolding GetViewedCount_def viewed_bits show_edm_def by (cases x) (simp only: LiveFeedItem.simps h)
qed (simp add: show_edm_def)

section \<open>The merging loop\<close>

text \<open>What the loop sees of the ring \<open>r\<close> at its start.\<close>

definition seen :: "FeedPool \<Rightarrow> LiveFeed \<Rightarrow> int \<Rightarrow> Feed" where
  "seen p r i = the (deref p (slot r i))"

definition slot_key :: "FeedPool \<Rightarrow> LiveFeed \<Rightarrow> int \<Rightarrow> int \<times> int" where
  "slot_key p r i = merge_key (seen p r i)"

definition visible :: "int \<Rightarrow> bool \<Rightarrow> FeedPool \<Rightarrow> LiveFeed \<Rightarrow> int \<Rightarrow> bool" where
  "visible bgn getcomment p r i \<longleftrightarrow>
     (bgn = 0 \<or> \<not> IsRandomed (slot r i)) \<and> (getcomment \<or> \<not> IsComment (SmallType (seen p r i)))"

definition most_viewed :: "LiveFeed \<Rightarrow> int list \<Rightarrow> int" where
  "most_viewed r is = Max ((\<lambda>i. GetViewedCount (slot r i)) ` set is)"

definition indexes :: "'k list \<Rightarrow> ('k \<Rightarrow> nat option) \<Rightarrow> bool" where
  "indexes ks ix \<longleftrightarrow> distinct ks \<and> (\<forall>k n. ix k = Some n \<longleftrightarrow> n < length ks \<and> ks ! n = k)"

lemma indexes_none: "indexes ks ix \<Longrightarrow> ix k = None \<longleftrightarrow> k \<notin> set ks"
  unfolding indexes_def by (metis in_set_conv_nth not_Some_eq)

lemma indexes_some: "indexes ks ix \<Longrightarrow> ix k = Some n \<Longrightarrow> n < length ks \<and> ks ! n = k"
  by (simp add: indexes_def)

lemma indexes_nil: "indexes [] Map.empty"
  by (simp add: indexes_def)

lemma indexes_snoc:
  assumes "indexes ks ix" "ix k = None"
  shows "indexes (ks @ [k]) (ix(k \<mapsto> length ks))"
proof -
  have k: "k \<notin> set ks" using indexes_none [OF assms(1)] assms(2) by blast
  have "(ix(k \<mapsto> length ks)) j = Some n \<longleftrightarrow> n < length (ks @ [k]) \<and> (ks @ [k]) ! n = j" for j n
    using assms k by (cases "n < length ks") (auto simp: indexes_def nth_append)
  then show ?thesis using assms(1) k by (simp add: indexes_def)
qed

text \<open>The state after the visible entries \<open>vs\<close> have been grouped; \<open>left\<close> are the slots still to come.\<close>

definition merged :: "FeedPool \<Rightarrow> LiveFeed \<Rightarrow> int list \<Rightarrow> int list \<Rightarrow> MergeState \<Rightarrow> bool" where
  "merged p r vs left m \<longleftrightarrow> same_slots r (m_ring m) \<and> (\<forall>i \<in> set left. slot (m_ring m) i = slot r i) \<and>
     map g_items (m_groups m) = grouped (slot_key p r) vs \<and>
     (\<forall>g \<in> set (m_groups m). g_viewed g = most_viewed r (g_items g)) \<and>
     indexes (firsts (map (slot_key p r) vs)) (m_index m)"

lemma on_slot_same: "nat i < length (lf_feeds r) \<Longrightarrow> slot (on_slot i f r) i = f (slot r i)"
  by (simp add: on_slot_def slot_def)

lemma on_slot_other: "0 \<le> i \<Longrightarrow> 0 \<le> j \<Longrightarrow> i \<noteq> j \<Longrightarrow> slot (on_slot i f r) j = slot r j"
  by (simp add: on_slot_def slot_def nth_list_update eq_nat_nat_iff)

lemma merged_ring:
  assumes m: "merged p r vs left m" and l: "\<forall>j \<in> set left. 0 \<le> j" "0 \<le> i" "i \<notin> set left" and f: "\<And>x. l_feed (f x) = l_feed x"
  shows "merged p r vs left (m\<lparr>m_ring := on_slot i f (m_ring m)\<rparr>)"
proof -
  have "slot (on_slot i f (m_ring m)) j = slot r j" if "j \<in> set left" for j
    using on_slot_other [of i j f "m_ring m"] l that m by (auto simp: merged_def)
  moreover have "same_slots r (on_slot i f (m_ring m))" using m same_slots_on [OF f] same_slots_trans by (auto simp: merged_def)
  ultimately show ?thesis using m by (simp add: merged_def)
qed

lemma merged_skip: "merged p r vs (i # left) m \<Longrightarrow> merged p r vs left m"
  by (simp add: merged_def)

lemma most_viewed_simps: "most_viewed r [i] = GetViewedCount (slot r i)"
  "is \<noteq> [] \<Longrightarrow> most_viewed r (is @ [i]) = max (most_viewed r is) (GetViewedCount (slot r i))"
  by (simp_all add: most_viewed_def max.commute)

lemma merged_length: "merged p r vs left m \<Longrightarrow> length (firsts (map (slot_key p r) vs)) = length (m_groups m)"
  unfolding merged_def by (metis length_grouped length_map)

lemma merged_push:
  assumes m: "merged p r vs left m" and n: "m_index m (slot_key p r i) = None" and f: "seen p r i = f"
    and v: "GetViewedCount (slot (m_ring m) i) = GetViewedCount (slot r i)"
  shows "merged p r (vs @ [i]) left (push_group i f w m)"
proof -
  let ?ks = "firsts (map (slot_key p r) vs)"
  have ix: "indexes ?ks (m_index m)" using m by (simp add: merged_def)
  then have new: "slot_key p r i \<notin> slot_key p r ` set vs" using indexes_none [OF ix] n by auto
  then have ks: "firsts (map (slot_key p r) vs @ [slot_key p r i]) = ?ks @ [slot_key p r i]" by simp
  have "indexes (?ks @ [slot_key p r i]) ((m_index m)(merge_key f \<mapsto> length (m_groups m)))"
    using indexes_snoc [OF ix n] merged_length [OF m] f by (simp add: slot_key_def)
  then show ?thesis using m grouped_new [OF new] v ks
    by (simp add: merged_def push_group_def Let_def most_viewed_simps)
qed

lemma merged_join:
  assumes m: "merged p r vs left m" and n: "m_index m (slot_key p r i) = Some n" and l: "\<forall>j \<in> set left. 0 \<le> j" "0 \<le> i" "i \<notin> set left"
    and i: "nat i < length (lf_feeds r)" and v: "GetViewedCount (slot (m_ring m) i) = GetViewedCount (slot r i)"
  shows "merged p r (vs @ [i]) left (join_group weigh now i f n m)"
proof -
  let ?ks = "firsts (map (slot_key p r) vs)"
  have ix: "indexes ?ks (m_index m)" using m by (simp add: merged_def)
  have k: "n < length ?ks" "?ks ! n = slot_key p r i" using indexes_some [OF ix n] by simp_all
  then have ng: "n < length (m_groups m)" using merged_length [OF m] by simp
  have "slot_key p r i \<in> set ?ks" using k by (metis nth_mem)
  then have ks: "firsts (map (slot_key p r) vs @ [slot_key p r i]) = ?ks" by simp
  let ?g = "m_groups m ! n"
  obtain g' r' where j: "join_group weigh now i f n m = m\<lparr>m_groups := (m_groups m)[n := g'], m_ring := r'\<rparr>"
      "g_items g' = g_items ?g @ [i]" "g_viewed g' = max (g_viewed ?g) (GetViewedCount (slot r' i))"
      "r' = m_ring m \<or> (\<exists>t. r' = on_slot i (show_edm t) (m_ring m))"
    by (rule that [OF join_group_def [unfolded Let_def]]) (auto simp: max_def)
  have r': "merged p r vs left (m\<lparr>m_ring := r'\<rparr>)" using j(4) merged_ring [OF m l] m by auto
  have "nat i < length (lf_feeds (m_ring m))" using i m same_slots_length by (auto simp: merged_def)
  then have v': "GetViewedCount (slot r' i) = GetViewedCount (slot r i)" using j(4) v by (auto simp: on_slot_same)
  have it: "map g_items (m_groups m) ! n = g_items ?g" using ng by simp
  have ne: "g_items ?g \<noteq> []" using m ng grouped_members(1) by (metis it length_map merged_def nth_mem)
  have "map g_items ((m_groups m)[n := g']) = grouped (slot_key p r) (vs @ [i])"
    using grouped_join [OF k] m it j(2) by (simp add: map_update merged_def)
  moreover have "\<forall>g \<in> set ((m_groups m)[n := g']). g_viewed g = most_viewed r (g_items g)"
    using m j(2,3) v' ne most_viewed_simps(2) ng nth_mem [OF ng] set_update_subset_insert [of "m_groups m" n g'] by (auto simp: merged_def)
  ultimately show ?thesis using r' ix ks unfolding j(1) by (simp add: merged_def del: firsts_simps(2))
qed

lemma merge_entry_ok:
  assumes m: "merged p r vs (i # left) m" and f: "deref p (slot r i) \<noteq> None"
    and l: "\<forall>j \<in> set left. 0 \<le> j" "0 \<le> i" "i \<notin> set left" and i: "nat i < length (lf_feeds r)"
  shows "\<exists>m' vs'. merge_entry weigh now bgn getcomment p i m = Some m' \<and> merged p r vs' left m' \<and>
    (vs' = vs \<and> (visible bgn getcomment p r i \<longrightarrow> is_edm now (slot r i)) \<or> vs' = vs @ [i] \<and> visible bgn getcomment p r i) \<and>
    (\<not> is_edm now (slot r i) \<longrightarrow> m_edm_count m' = m_edm_count m)"
proof -
  obtain g where g: "deref p (slot r i) = Some g" using f by auto
  then have sg: "seen p r i = g" by (simp add: seen_def)
  define m1 where "m1 = (if bgn = 0 then m\<lparr>m_ring := on_slot i ClearRandomed (m_ring m)\<rparr> else m)"
  have m1: "merged p r vs left m1"
    unfolding m1_def using merged_ring [OF merged_skip [OF m] l] merged_skip [OF m] by simp
  have si: "slot (m_ring m) i = slot r i" using m by (simp add: merged_def)
  have "nat i < length (lf_feeds (m_ring m))" using i m same_slots_length by (auto simp: merged_def)
  then have x: "slot (m_ring m1) i = (if bgn = 0 then ClearRandomed (slot r i) else slot r i)"
    unfolding m1_def by (simp add: on_slot_same si)
  have e: "m_edm_count m1 = m_edm_count m" "m_get_edm m1 = m_get_edm m" by (simp_all add: m1_def)
  have v: "GetViewedCount (slot (m_ring m1) i) = GetViewedCount (slot r i)" by (simp add: x)
  have ed: "is_edm now (slot (m_ring m1) i) = is_edm now (slot r i)" by (simp add: x is_edm_def)
  have d: "deref p (slot (m_ring m1) i) = Some g" using g by (simp add: x deref_def)
  have E: "merge_entry weigh now bgn getcomment p i m =
      (if IsRandomed (slot (m_ring m1) i) then Some m1
       else if \<not> getcomment \<and> IsComment (SmallType g) then Some m1
       else Some (case m_index m1 (slot_key p r i) of Some n \<Rightarrow> join_group weigh now i g n m1 | None \<Rightarrow> new_group weigh now i g m1))"
    unfolding merge_entry_def Let_def m1_def [symmetric] using d by (simp add: slot_key_def sg)
  have V: "visible bgn getcomment p r i \<longleftrightarrow> \<not> IsRandomed (slot (m_ring m1) i) \<and> (getcomment \<or> \<not> IsComment (SmallType g))"
    by (simp add: visible_def x sg)
  show ?thesis
  proof (cases "visible bgn getcomment p r i")
    case False
    then show ?thesis using E V m1 e by auto
  next
    case True
    show ?thesis
    proof (cases "m_index m1 (slot_key p r i)")
      case (Some n)
      have "m_edm_count (join_group weigh now i g n m1) = m_edm_count m" using e by (simp add: join_group_def Let_def)
      then show ?thesis using E V True Some merged_join [OF m1 Some l i v, of weigh now g] by auto
    next
      case None
      have push: "merged p r (vs @ [i]) left (push_group i g w m1)" for w by (rule merged_push [OF m1 None sg v])
      show ?thesis
      proof (cases "is_edm now (slot r i)")
        case False
        then have "new_group weigh now i g m1 = push_group i g (weigh (slot (m_ring m1) i) g) m1"
          by (simp add: new_group_def Let_def ed)
        then show ?thesis using E V True None push e by (auto simp: push_group_def Let_def)
      next
        case edm: True
        define m2 where "m2 = (if l_time (slot (m_ring m1) i) < 0
            then m1\<lparr>m_ring := on_slot i (show_edm (if m_get_edm m1 then to_int32 now else ResetEdmTime now (l_time (slot (m_ring m1) i)))) (m_ring m1)\<rparr>
            else m1)"
        have m2: "merged p r vs left m2" unfolding m2_def using m1 merged_ring [OF m1 l] by simp
        have "nat i < length (lf_feeds (m_ring m1))" using i m1 same_slots_length by (auto simp: merged_def)
        then have v2: "GetViewedCount (slot (m_ring m2) i) = GetViewedCount (slot r i)" by (simp add: m2_def on_slot_same v)
        have n2: "m_index m2 (slot_key p r i) = None" using None by (simp add: m2_def)
        have N: "new_group weigh now i g m1 = (if m_get_edm m1 then m2 else (push_group i g TOP_WEIGHT m2)\<lparr>m_get_edm := True,
            m_edm_count := (if l_time (slot (m_ring m1) i) < 0 then - 1 else 1)\<rparr>)"
          using edm by (auto simp: new_group_def Let_def ed m2_def)
        have "merged p r (vs @ [i]) left ((push_group i g TOP_WEIGHT m2)\<lparr>m_get_edm := True, m_edm_count := k\<rparr>)" for k
          using merged_push [OF m2 n2 sg v2, of TOP_WEIGHT] by (simp add: merged_def)
        then show ?thesis using E V True None N m2 edm by auto
      qed
    qed
  qed
qed

text \<open>All visible entries are grouped, but some advertisements may be left out.\<close>

lemma merge_loop_ok:
  "merged p r vs is m \<Longrightarrow> \<forall>i \<in> set is. 0 \<le> i \<and> nat i < length (lf_feeds r) \<and> deref p (slot r i) \<noteq> None \<Longrightarrow> distinct is \<Longrightarrow>
    \<exists>m' D. merge_loop weigh now bgn getcomment p is m = Some m' \<and>
      merged p r (vs @ filter (\<lambda>i. visible bgn getcomment p r i \<and> i \<notin> D) is) [] m' \<and>
      D \<subseteq> {i \<in> set is. is_edm now (slot r i)} \<and>
      ((\<forall>i \<in> set is. \<not> is_edm now (slot r i)) \<longrightarrow> m_edm_count m' = m_edm_count m)"
proof (induction "is" arbitrary: vs m)
  case Nil
  then show ?case by auto
next
  case (Cons i "is")
  obtain m1 vs1 where m1: "merge_entry weigh now bgn getcomment p i m = Some m1" "merged p r vs1 is m1"
      "vs1 = vs \<and> (visible bgn getcomment p r i \<longrightarrow> is_edm now (slot r i)) \<or> vs1 = vs @ [i] \<and> visible bgn getcomment p r i"
      "\<not> is_edm now (slot r i) \<longrightarrow> m_edm_count m1 = m_edm_count m"
    using merge_entry_ok [OF Cons.prems(1), of weigh now bgn getcomment] Cons.prems(2,3) by auto
  obtain m' D where m': "merge_loop weigh now bgn getcomment p is m1 = Some m'"
      "merged p r (vs1 @ filter (\<lambda>i. visible bgn getcomment p r i \<and> i \<notin> D) is) [] m'" "D \<subseteq> {i \<in> set is. is_edm now (slot r i)}"
      "(\<forall>i \<in> set is. \<not> is_edm now (slot r i)) \<longrightarrow> m_edm_count m' = m_edm_count m1"
    using Cons.IH [OF m1(2)] Cons.prems(2,3) by auto
  have iD: "i \<notin> D" using m'(3) Cons.prems(3) by auto
  define D' where "D' = (if vs1 = vs then insert i D else D)"
  have same: "filter (\<lambda>j. visible bgn getcomment p r j \<and> j \<notin> D') is = filter (\<lambda>j. visible bgn getcomment p r j \<and> j \<notin> D) is"
    using Cons.prems(3) by (intro filter_cong) (auto simp: D'_def)
  show ?case
  proof (cases "vs1 = vs \<and> visible bgn getcomment p r i")
    case True
    then show ?thesis using m1 m' same iD Cons.prems(3) by (intro exI [of _ m'] exI [of _ D']) (auto simp: D'_def)
  next
    case False
    then show ?thesis using m1 m' iD by (intro exI [of _ m'] exI [of _ D]) auto
  qed
qed

end
