(* ===== verification/NewsOrder.thy ===== *)
theory NewsOrder
  imports NewsMergeInv
begin

text \<open>
  The groups of a merged ring as classes of its entries, and the order of the groups: each group has the time and the weight of
  one of its entries, its decider.
\<close>

section \<open>Slots and entries\<close>

definition entry_at :: "FeedPool \<Rightarrow> LiveFeed \<Rightarrow> int \<Rightarrow> entry" where
  "entry_at p r i = (slot r i, Some (core (seen p r i)))"

lemma positions_ok:
  assumes ok: "ring_ok E (p, r)"
  shows "window (p, r) = map (entry_at p r) (positions r)" "distinct (positions r)"
    and "\<forall>i \<in> set (positions r). 0 \<le> i \<and> nat i < length (lf_feeds r) \<and> deref p (slot r i) \<noteq> None"
proof -
  let ?n = "nat (lf_size r)"
  have n: "?n \<le> 250" and l: "length (lf_feeds r) = 250" using ok by (simp_all add: ring_ok_def ring_mem_def nat_le_iff)
  have P: "positions r = map (\<lambda>c. int (pos r c)) [0..<?n]" by (simp add: positions_def pos_def COUNT_def)
  have w: "window (p, r) = map (\<lambda>c. view (p, r) ! c) [0..<?n]" using n by (intro nth_equalityI) (simp_all add: window_def)
  have d: "deref p (slot r (int (pos r c))) \<noteq> None \<and> view (p, r) ! c = entry_at p r (int (pos r c))" if "c < ?n" for c
  proof -
    have "view (p, r) ! c \<in> set (window (p, r))" using that by (simp add: w)
    then have "snd (view (p, r) ! c) \<noteq> None" using ok by (simp add: ring_ok_def)
    then show ?thesis using that n
      by (auto simp: view_nth resolve_def data_def deref_def slot_def entry_at_def seen_def Option.bind_eq_None_conv split: Option.bind_splits)
  qed
  show "window (p, r) = map (entry_at p r) (positions r)" using d by (simp add: w P)
  show "distinct (positions r)" unfolding P using pos_inj [of _ _ r] n by (auto simp: distinct_map inj_on_def)
  show "\<forall>i \<in> set (positions r). 0 \<le> i \<and> nat i < length (lf_feeds r) \<and> deref p (slot r i) \<noteq> None"
    using d pos_less [of r] l by (auto simp: P)
qed

lemma grouped_map: "grouped key (map f xs) = map (map f) (grouped (\<lambda>x. key (f x)) xs)"
  by (simp add: grouped_def filter_map comp_def)

lemma merge_key_core [simp]: "merge_key (core f) = merge_key f"
  by (simp add: merge_key_def)

text \<open>What a page can show, as entries.\<close>

definition shown :: "int \<Rightarrow> bool \<Rightarrow> entry \<Rightarrow> bool" where
  "shown bgn getcomment e \<longleftrightarrow> (bgn = 0 \<or> \<not> IsRandomed (fst e)) \<and> (getcomment \<or> \<not> IsComment (SmallType (feed_of e)))"

definition news_of :: "int \<Rightarrow> bool \<Rightarrow> entry list \<Rightarrow> entry list list" where
  "news_of bgn getcomment W = grouped (\<lambda>e. merge_key (feed_of e)) (filter (shown bgn getcomment) W)"

definition no_ads :: "int \<Rightarrow> entry list \<Rightarrow> bool" where
  "no_ads now W \<longleftrightarrow> (\<forall>e \<in> set W. 0 \<le> l_time (fst e) \<and> l_time (fst e) \<le> now)"

lemma merged_start: "merged p r [] is \<lparr>m_groups = [], m_index = Map.empty, m_get_edm = False, m_edm_count = k, m_ring = r\<rparr>"
  by (simp add: merged_def indexes_nil)

lemma MergeFeed_ok:
  assumes ok: "ring_ok E (p, r)"
  obtains m D where "MergeFeed weigh now bgn by_weight k getcomment (p, r) = Some (m, order_desc by_weight (m_groups m))"
    "merged p r (filter (\<lambda>i. visible bgn getcomment p r i \<and> i \<notin> D) (positions r)) [] m"
    "D \<subseteq> {i \<in> set (positions r). is_edm now (slot r i)}"
    "(\<forall>i \<in> set (positions r). \<not> is_edm now (slot r i)) \<longrightarrow> m_edm_count m = k"
proof -
  obtain m D where m: "merge_loop weigh now bgn getcomment p (positions r)
        \<lparr>m_groups = [], m_index = Map.empty, m_get_edm = False, m_edm_count = k, m_ring = r\<rparr> = Some m"
      "merged p r (filter (\<lambda>i. visible bgn getcomment p r i \<and> i \<notin> D) (positions r)) [] m"
      "D \<subseteq> {i \<in> set (positions r). is_edm now (slot r i)}"
      "(\<forall>i \<in> set (positions r). \<not> is_edm now (slot r i)) \<longrightarrow> m_edm_count m = k"
    using merge_loop_ok [OF merged_start [where k = k] positions_ok(3,2) [OF ok], of weigh now bgn getcomment] by auto
  then have "MergeFeed weigh now bgn by_weight k getcomment (p, r) = Some (m, order_desc by_weight (m_groups m))"
    by (simp add: MergeFeed_def Let_def)
  then show ?thesis using m(2-4) by (rule that)
qed

lemma no_ads_slots: "ring_ok E (p, r) \<Longrightarrow> no_ads now (window (p, r)) \<Longrightarrow> i \<in> set (positions r) \<Longrightarrow> \<not> is_edm now (slot r i)"
  using positions_ok(1) [of E p r] by (auto simp: no_ads_def entry_at_def is_edm_def)

text \<open>Without advertisements the groups are the classes of the entries.\<close>

lemma MergeFeed_exact:
  assumes ok: "ring_ok E (p, r)" and na: "no_ads now (window (p, r))"
  obtains m where "MergeFeed weigh now bgn by_weight k getcomment (p, r) = Some (m, order_desc by_weight (m_groups m))"
    "same_slots r (m_ring m)" "m_edm_count m = k" "\<forall>g \<in> set (m_groups m). g_viewed g = most_viewed r (g_items g)"
    "\<forall>g \<in> set (m_groups m). g_items g \<noteq> [] \<and> set (g_items g) \<subseteq> set (positions r)"
    "map (\<lambda>g. map (entry_at p r) (g_items g)) (m_groups m) = news_of bgn getcomment (window (p, r))"
proof -
  obtain m D where m: "MergeFeed weigh now bgn by_weight k getcomment (p, r) = Some (m, order_desc by_weight (m_groups m))"
      "merged p r (filter (\<lambda>i. visible bgn getcomment p r i \<and> i \<notin> D) (positions r)) [] m"
      "D \<subseteq> {i \<in> set (positions r). is_edm now (slot r i)}"
      "(\<forall>i \<in> set (positions r). \<not> is_edm now (slot r i)) \<longrightarrow> m_edm_count m = k" by (rule MergeFeed_ok [OF ok])
  then have D: "D = {}" "m_edm_count m = k" using no_ads_slots [OF ok na] by auto
  let ?V = "filter (visible bgn getcomment p r) (positions r)"
  have g: "map g_items (m_groups m) = grouped (slot_key p r) ?V" using m(2) D by (simp add: merged_def)
  have key: "(\<lambda>i. merge_key (feed_of (entry_at p r i))) = slot_key p r"
    by (simp add: fun_eq_iff entry_at_def feed_of_def slot_key_def)
  have "filter (shown bgn getcomment) (window (p, r)) = map (entry_at p r) ?V"
  proof -
    have "shown bgn getcomment \<circ> entry_at p r = visible bgn getcomment p r"
      by (simp add: fun_eq_iff shown_def visible_def entry_at_def feed_of_def)
    then show ?thesis by (simp add: positions_ok(1) [OF ok] filter_map)
  qed
  then have "map (map (entry_at p r)) (map g_items (m_groups m)) = news_of bgn getcomment (window (p, r))"
    unfolding news_of_def by (simp only: g grouped_map key)
  then have "map (\<lambda>g. map (entry_at p r) (g_items g)) (m_groups m) = news_of bgn getcomment (window (p, r))" by (simp add: comp_def)
  moreover have "g_items h \<noteq> [] \<and> set (g_items h) \<subseteq> set (positions r)" if "h \<in> set (m_groups m)" for h
  proof -
    have "g_items h \<in> set (grouped (slot_key p r) ?V)" unfolding g [symmetric] using that by simp
    then show ?thesis using grouped_members(1,2) by fastforce
  qed
  ultimately show ?thesis using that m(1,2) D(2) by (simp add: merged_def)
qed

section \<open>Order\<close>

definition order_key :: "bool \<Rightarrow> MergeGroup \<Rightarrow> int" where
  "order_key by_weight g = (if by_weight then g_weight g else g_time g)"

lemma order_desc_perm: "mset (order_desc b gs) = mset [0..<length gs]"
  unfolding order_desc_def mset_map mset_rev mset_sort by (simp flip: mset_map)

lemma order_desc_sorted: "sorted_wrt (\<lambda>x y. order_key b (gs ! x) \<ge> order_key b (gs ! y)) (order_desc b gs)"
proof -
  let ?z = "zip (map (if b then g_weight else g_time) gs) [0..<length gs]"
  have k: "fst e = order_key b (gs ! snd e)" if "e \<in> set (sort_key fst ?z)" for e
    using that by (auto simp: set_zip order_key_def)
  have "sorted (map fst (sort_key fst ?z))" by simp
  then have "sorted_wrt (\<lambda>x y. fst x \<ge> fst y) (rev (sort_key fst ?z))" by (simp add: sorted_wrt_rev sorted_map)
  then have "sorted_wrt (\<lambda>x y. order_key b (gs ! snd x) \<ge> order_key b (gs ! snd y)) (rev (sort_key fst ?z))"
    by (rule sorted_wrt_mono_rel [rotated]) (use k in auto)
  then show ?thesis by (simp add: order_desc_def sorted_wrt_map)
qed

section \<open>The entry that decides\<close>

text \<open>
  An entry that joins a group takes over its time and weight, unless the group has been marked as updated by its first entry, or
  the entry is commented on and the group has a comment.
\<close>

definition decide :: "entry \<times> bool \<times> bool \<Rightarrow> entry \<Rightarrow> entry \<times> bool \<times> bool" where
  "decide d x = (case d of (e, update, comment) \<Rightarrow>
     (if \<not> update \<and> (\<not> IsMain (SmallType (feed_of x)) \<or> \<not> comment) then x else e, update, comment \<or> IsComment (SmallType (feed_of x))))"

definition decider :: "entry list \<Rightarrow> entry \<times> bool \<times> bool" where
  "decider g = foldl decide (hd g, IsUpdateTime (fst (hd g)), IsComment (SmallType (feed_of (hd g)))) (tl g)"

definition news_rank :: "weigher \<Rightarrow> int \<Rightarrow> bool \<Rightarrow> entry list \<Rightarrow> int" where
  "news_rank weigh bgn hot g = (let e = fst (decider g)
     in if hot then weigh (if bgn = 0 then ClearRandomed (fst e) else fst e) (feed_of e) else l_time (fst e))"

lemma decider_simps: "decider [x] = (x, IsUpdateTime (fst x), IsComment (SmallType (feed_of x)))"
  "g \<noteq> [] \<Longrightarrow> decider (g @ [x]) = decide (decider g) x"
  by (simp_all add: decider_def)

definition group_ranked :: "weigher \<Rightarrow> int \<Rightarrow> FeedPool \<Rightarrow> LiveFeed \<Rightarrow> MergeGroup \<Rightarrow> bool" where
  "group_ranked weigh bgn p r g \<longleftrightarrow> g_items g \<noteq> [] \<and>
     decider (map (entry_at p r) (g_items g)) = (fst (decider (map (entry_at p r) (g_items g))), g_update g, g_comment g) \<and>
     g_time g = news_rank weigh bgn False (map (entry_at p r) (g_items g)) \<and> g_weight g = news_rank weigh bgn True (map (entry_at p r) (g_items g))"

lemma ranked_order: "group_ranked weigh bgn p r g \<Longrightarrow> order_key hot g = news_rank weigh bgn hot (map (entry_at p r) (g_items g))"
  by (cases hot) (simp_all add: group_ranked_def order_key_def)

lemma ranked_push:
  assumes x: "slot (m_ring m) i = (if bgn = 0 then ClearRandomed (slot r i) else slot r i)" and f: "seen p r i = f"
    and c: "\<forall>x f. weigh x (core f) = weigh x f" and m: "\<forall>g \<in> set (m_groups m). group_ranked weigh bgn p r g"
  shows "\<forall>g \<in> set (m_groups (push_group i f (weigh (slot (m_ring m) i) f) m)). group_ranked weigh bgn p r g"
  using assms by (auto simp: push_group_def Let_def group_ranked_def decider_simps entry_at_def feed_of_def news_rank_def)

lemma ranked_join:
  assumes x: "slot (m_ring m) i = (if bgn = 0 then ClearRandomed (slot r i) else slot r i)" and f: "seen p r i = f"
    and c: "\<forall>x f. weigh x (core f) = weigh x f" and m: "\<forall>g \<in> set (m_groups m). group_ranked weigh bgn p r g"
    and n: "n < length (m_groups m)" and e: "\<not> is_edm now (slot r i)"
  shows "\<forall>g \<in> set (m_groups (join_group weigh now i f n m)). group_ranked weigh bgn p r g"
proof -
  let ?g = "m_groups m ! n" and ?E = "entry_at p r"
  obtain d where d: "decider (map ?E (g_items ?g)) = (d, g_update ?g, g_comment ?g)" "g_items ?g \<noteq> []"
      "g_time ?g = news_rank weigh bgn False (map ?E (g_items ?g))" "g_weight ?g = news_rank weigh bgn True (map ?E (g_items ?g))"
    by (rule that [of "fst (decider (map ?E (g_items ?g)))"]) (use m n in \<open>auto simp: group_ranked_def\<close>)
  have t: "l_time (slot (m_ring m) i) = l_time (slot r i)" by (simp add: x)
  have nt: "\<not> l_time (slot r i) < 0" "is_edm now (slot (m_ring m) i) = False" using e by (simp_all add: is_edm_def t)
  have D: "decider (map ?E (g_items ?g @ [i])) = decide (d, g_update ?g, g_comment ?g) (?E i)"
    using decider_simps(2) [of "map ?E (g_items ?g)" "?E i"] d(1,2) by simp
  have "set (m_groups (join_group weigh now i f n m)) \<subseteq> insert (m_groups (join_group weigh now i f n m) ! n) (set (m_groups m))"
    using n by (simp add: join_group_def Let_def set_update_subset_insert)
  moreover have "group_ranked weigh bgn p r (m_groups (join_group weigh now i f n m) ! n)"
    using d D n nt t f c x by (simp add: group_ranked_def join_group_def Let_def news_rank_def decide_def entry_at_def feed_of_def)
  ultimately show ?thesis using m by auto
qed

lemma ranked_entry:
  assumes m: "merged p r vs (i # left) m" and g: "deref p (slot r i) = Some f" and i: "nat i < length (lf_feeds r)"
    and e: "\<not> is_edm now (slot r i)" and c: "\<forall>x f. weigh x (core f) = weigh x f"
    and k: "\<forall>g \<in> set (m_groups m). group_ranked weigh bgn p r g" and o: "merge_entry weigh now bgn getcomment p i m = Some m'"
  shows "\<forall>g \<in> set (m_groups m'). group_ranked weigh bgn p r g"
proof -
  define m1 where "m1 = (if bgn = 0 then m\<lparr>m_ring := on_slot i ClearRandomed (m_ring m)\<rparr> else m)"
  have si: "slot (m_ring m) i = slot r i" using m by (simp add: merged_def)
  have "nat i < length (lf_feeds (m_ring m))" using i m same_slots_length by (auto simp: merged_def)
  then have x: "slot (m_ring m1) i = (if bgn = 0 then ClearRandomed (slot r i) else slot r i)"
    unfolding m1_def by (simp add: on_slot_same si)
  have m1: "m_groups m1 = m_groups m" "m_index m1 = m_index m" by (simp_all add: m1_def)
  have sg: "seen p r i = f" using g by (simp add: seen_def)
  have d: "deref p (slot (m_ring m1) i) = Some f" using g by (simp add: x deref_def)
  have ed: "is_edm now (slot (m_ring m1) i) = False" using e by (simp add: x is_edm_def)
  have ix: "indexes (firsts (map (slot_key p r) vs)) (m_index m)" using m by (simp add: merged_def)
  have j: "\<forall>g \<in> set (m_groups (join_group weigh now i f n m1)). group_ranked weigh bgn p r g" if "m_index m1 (merge_key f) = Some n" for n
    by (rule ranked_join [OF x sg c _ _ e]) (use k m1 that indexes_some [OF ix] merged_length [OF m] in auto)
  have p: "\<forall>g \<in> set (m_groups (new_group weigh now i f m1)). group_ranked weigh bgn p r g"
    using ranked_push [of m1 i bgn r p f weigh, OF x sg c] k m1 ed by (simp add: new_group_def Let_def)
  show ?thesis using o j p k m1 unfolding merge_entry_def Let_def m1_def [symmetric] d
    by (auto split: if_splits option.splits)
qed

lemma ranked_loop:
  "merged p r vs is m \<Longrightarrow> \<forall>i \<in> set is. 0 \<le> i \<and> nat i < length (lf_feeds r) \<and> deref p (slot r i) \<noteq> None \<and> \<not> is_edm now (slot r i) \<Longrightarrow>
    distinct is \<Longrightarrow> \<forall>x f. weigh x (core f) = weigh x f \<Longrightarrow> \<forall>g \<in> set (m_groups m). group_ranked weigh bgn p r g \<Longrightarrow>
    merge_loop weigh now bgn getcomment p is m = Some m' \<Longrightarrow> \<forall>g \<in> set (m_groups m'). group_ranked weigh bgn p r g"
proof (induction "is" arbitrary: vs m)
  case (Cons i "is")
  obtain f where f: "deref p (slot r i) = Some f" using Cons.prems(2) by auto
  obtain m1 vs1 where m1: "merge_entry weigh now bgn getcomment p i m = Some m1" "merged p r vs1 is m1"
    using merge_entry_ok [OF Cons.prems(1), of weigh now bgn getcomment] Cons.prems(2,3) by auto
  have k: "\<forall>g \<in> set (m_groups m1). group_ranked weigh bgn p r g"
    by (rule ranked_entry [OF Cons.prems(1) f _ _ Cons.prems(4,5) m1(1)]) (use Cons.prems(2) in auto)
  show ?case by (rule Cons.IH [OF m1(2) _ _ Cons.prems(4) k]) (use Cons.prems(2,3,6) m1(1) in auto)
qed simp

text \<open>Without advertisements the groups come in descending order of their deciders.\<close>

lemma MergeFeed_ranked:
  assumes ok: "ring_ok E (p, r)" and na: "no_ads now (window (p, r))" and c: "\<forall>x f. weigh x (core f) = weigh x f"
    and m: "MergeFeed weigh now bgn hot k getcomment (p, r) = Some (m, ns)"
  shows "sorted_wrt (\<lambda>g h. news_rank weigh bgn hot g \<ge> news_rank weigh bgn hot h) (map (\<lambda>n. map (entry_at p r) (g_items (m_groups m ! n))) ns)"
proof -
  let ?m0 = "\<lparr>m_groups = [], m_index = Map.empty, m_get_edm = False, m_edm_count = k, m_ring = r\<rparr>"
  have l: "merge_loop weigh now bgn getcomment p (positions r) ?m0 = Some m" and ns: "ns = order_desc hot (m_groups m)"
    using m by (auto simp: MergeFeed_def Let_def Option.bind_eq_Some_conv)
  have "\<forall>g \<in> set (m_groups m). group_ranked weigh bgn p r g"
    by (rule ranked_loop [OF merged_start _ positions_ok(2) [OF ok] c _ l]) (use positions_ok(3) [OF ok] no_ads_slots [OF ok na] in auto)
  then have k: "order_key hot (m_groups m ! n) = news_rank weigh bgn hot (map (entry_at p r) (g_items (m_groups m ! n)))" if "n < length (m_groups m)" for n
    using ranked_order that by auto
  have "set ns = {0..<length (m_groups m)}" using ns order_desc_perm by (metis set_mset_mset set_upt)
  then have "sorted_wrt (\<lambda>x y. news_rank weigh bgn hot (map (entry_at p r) (g_items (m_groups m ! x))) \<ge>
      news_rank weigh bgn hot (map (entry_at p r) (g_items (m_groups m ! y)))) ns"
    using sorted_wrt_mono_rel [OF _ order_desc_sorted [of hot "m_groups m"]] k ns by auto
  then show ?thesis by (simp add: sorted_wrt_map)
qed

end
