(* ===== verification/NewsPages.thy ===== *)
theory NewsPages
  imports NewsOrder
begin

text \<open>
  The pages made from a well-formed ring: which feeds they show, in which groups and order, and that making a page changes
  nothing of the ring but flags, times and weights.
\<close>

section \<open>Pages by type\<close>

definition ids_of :: "entry list \<Rightarrow> int option list" where
  "ids_of es = map (\<lambda>e. Some (f_id (feed_of e))) es"

lemma slot_id:
  assumes "ring_ok E (p, r)" "i \<in> set (positions r)"
  shows "l_feed (slot r i) = Some (f_id (feed_of (entry_at p r i)))"
proof -
  obtain f where f: "deref p (slot r i) = Some f" using positions_ok(3) [OF assms(1)] assms(2) by auto
  then obtain h where h: "l_feed (slot r i) = Some h" "p h = Some f" by (auto simp: deref_def Option.bind_eq_Some_conv)
  then have "f_id f = h" using assms(1) by (simp add: ring_ok_def ring_mem_def counted_def)
  then show ?thesis using h f by (simp add: entry_at_def feed_of_def seen_def)
qed

lemma handles_at_ids:
  assumes "ring_ok E (p, r)" "same_slots r r'" "set is \<subseteq> set (positions r)"
  shows "handles_at r' is = ids_of (map (entry_at p r) is)"
proof -
  have "l_feed (slot r' i) = Some (f_id (feed_of (entry_at p r i)))" if "i \<in> set is" for i
    using slot_id [OF assms(1), of i] same_slots_slot [OF assms(2), of i] positions_ok(3) [OF assms(1)] assms(3) that by auto
  then show ?thesis by (simp add: handles_at_def ids_of_def)
qed

lemma first_feed:
  assumes "ring_ok E (p, r)" "same_slots r r'" "i \<in> set (positions r)"
  shows "deref p (slot r' i) = Some (seen p r i)"
  using positions_ok(3) [OF assms(1)] assms same_slots_deref [OF assms(2), of i p] by (auto simp: seen_def)

lemma by_type_ok:
  assumes ok: "ring_ok E (p, r)" and ss: "same_slots r (m_ring m)"
    and it: "\<forall>g \<in> set (m_groups m). g_items g \<noteq> [] \<and> set (g_items g) \<subseteq> set (positions r)"
    and w: "\<And>f. wanted (core f) = wanted f"
  shows "\<forall>n \<in> set ns. n < length (m_groups m) \<Longrightarrow>
    by_type wanted p m ns = Some (map (\<lambda>g. [ids_of g])
      (filter (\<lambda>g. wanted (feed_of (hd g))) (map (\<lambda>n. map (entry_at p r) (g_items (m_groups m ! n))) ns)))"
proof (induction ns)
  case (Cons n ns)
  let ?g = "m_groups m ! n"
  have g: "g_items ?g \<noteq> []" "set (g_items ?g) \<subseteq> set (positions r)" using it Cons.prems by auto
  then have "deref p (slot (m_ring m) (hd (g_items ?g))) = Some (seen p r (hd (g_items ?g)))"
    using first_feed [OF ok ss] by (metis hd_in_set subsetD)
  moreover have "wanted (feed_of (hd (map (entry_at p r) (g_items ?g)))) = wanted (seen p r (hd (g_items ?g)))"
    using g(1) w by (simp add: hd_map entry_at_def feed_of_def)
  ultimately show ?case using Cons handles_at_ids [OF ok ss g(2)] by simp
qed simp

lemma BigType_core: "(BigType (core f) \<in> T) = (BigType f \<in> T)" "(SmallType (core f) \<in> T) = (SmallType f \<in> T)"
  by simp_all

text \<open>Feeds that are no comments and have the same key have the same type.\<close>

lemma SmallType_range: "take_bit 16 (SmallType f) = SmallType f"
proof -
  have "SmallType f = take_bit 16 (f_type f)" by (simp add: SmallType_def take_bit_eq_mask mask_eq_exp_minus_1)
  then show ?thesis by simp
qed

lemma Main2Comment_cases: "Main2Comment t = (if t = 601 then 2901 else if t = 701 then 2902 else if t = 709 then 2906
    else if t = 712 then 2905 else t)"
  by (simp add: Main2Comment_def main2comment_def)

lemma IsComment_cases: "IsComment t \<longleftrightarrow> t = 2901 \<or> t = 2902 \<or> t = 2906 \<or> t = 2905"
  by (simp add: IsComment_def main2comment_def)

lemma Main2Comment_inj: "Main2Comment a = Main2Comment b \<Longrightarrow> \<not> IsComment a \<Longrightarrow> \<not> IsComment b \<Longrightarrow> a = b"
  unfolding Main2Comment_cases IsComment_cases by presburger

lemma merge_key_type: "take_bit 16 (fst (merge_key f)) = Main2Comment (SmallType f)"
proof -
  have "take_bit 16 (Main2Comment (SmallType f)) = Main2Comment (SmallType f)"
    using SmallType_range [of f] by (simp add: Main2Comment_cases)
  then show ?thesis by (simp add: merge_key_def take_bit_or take_bit_push_bit)
qed

lemma same_key_same_type:
  assumes "merge_key f = merge_key g" "\<not> IsComment (SmallType f)" "\<not> IsComment (SmallType g)"
  shows "SmallType f = SmallType g"
proof -
  have "Main2Comment (SmallType f) = Main2Comment (SmallType g)" using merge_key_type assms(1) by metis
  then show ?thesis using assms(2,3) by (rule Main2Comment_inj)
qed

lemma news_groups:
  assumes "g \<in> set (news_of bgn getcomment W)"
  shows "g \<noteq> []" "e \<in> set g \<Longrightarrow> e \<in> set W \<and> shown bgn getcomment e"
    "e \<in> set g \<Longrightarrow> d \<in> set g \<Longrightarrow> merge_key (feed_of e) = merge_key (feed_of d)"
proof -
  note G = grouped_members [OF assms [unfolded news_of_def]]
  show "g \<noteq> []" by (rule G(1))
  show "e \<in> set g \<Longrightarrow> e \<in> set W \<and> shown bgn getcomment e" using G(2) by auto
  show "e \<in> set g \<Longrightarrow> d \<in> set g \<Longrightarrow> merge_key (feed_of e) = merge_key (feed_of d)" by (rule G(3))
qed

lemma news_mset: "mset (concat (news_of bgn getcomment W)) = mset (filter (shown bgn getcomment) W)"
  by (simp add: news_of_def concat_grouped_mset)

lemma filter_groups:
  assumes "\<And>g e. g \<in> set gs \<Longrightarrow> e \<in> set g \<Longrightarrow> P e = Q g"
  shows "concat (filter Q gs) = filter P (concat gs)"
  using assms
proof (induction gs)
  case (Cons g gs)
  have "filter P g = (if Q g then g else [])" using Cons.prems [of g] by (auto simp: filter_id_conv filter_empty_conv)
  then show ?case using Cons by auto
qed simp

lemma concat_singles: "concat (concat (map (\<lambda>g. [f g]) gs)) = concat (map f gs)"
  by (induction gs) simp_all

lemma concat_ids: "concat (map ids_of gs) = ids_of (concat gs)"
  by (induction gs) (simp_all add: ids_of_def)

lemma ids_mset: "mset xs = mset ys \<Longrightarrow> mset (ids_of xs) = mset (ids_of ys)"
  by (simp add: ids_of_def)

lemma mset_order:
  assumes "mset ns = mset [0..<length xs]"
  shows "mset (map (\<lambda>n. f (xs ! n)) ns) = mset (map f xs)"
proof -
  have "mset (map (\<lambda>n. f (xs ! n)) ns) = mset (map (\<lambda>n. f (xs ! n)) [0..<length xs])" using assms by (simp only: mset_map)
  also have "map (\<lambda>n. f (xs ! n)) [0..<length xs] = map f xs" by (rule nth_equalityI) simp_all
  finally show ?thesis .
qed

lemma mset_concat_eq: "mset xs = mset ys \<Longrightarrow> mset (concat xs) = mset (concat ys)"
  by (metis mset_concat mset_map sum_mset_sum_list)

lemma get_by_ok:
  assumes ok: "ring_ok E (p, r)" and na: "no_ads now (window (p, r))" and w: "\<forall>f. wanted (core f) = wanted f"
    and t: "\<forall>f g. SmallType f = SmallType g \<longrightarrow> wanted f = wanted g" and c: "\<forall>x f. weigh x (core f) = weigh x f"
  shows "\<exists>page r' gs. get_by wanted weigh now bgn hot (p, r) = Some (page, p, r') \<and> ring_ok E (p, r') \<and> feeds (p, r') = feeds (p, r) \<and>
    page = map (\<lambda>g. [ids_of g]) gs \<and> sorted_wrt (\<lambda>g h. news_rank weigh bgn hot g \<ge> news_rank weigh bgn hot h) gs \<and>
    mset gs = mset (filter (\<lambda>g. wanted (feed_of (hd g))) (news_of bgn False (window (p, r)))) \<and>
    mset (concat gs) = mset (filter (\<lambda>e. wanted (feed_of e)) (filter (shown bgn False) (window (p, r))))"
proof -
  obtain m where m: "MergeFeed weigh now bgn hot 0 False (p, r) = Some (m, order_desc hot (m_groups m))" "same_slots r (m_ring m)"
    "m_edm_count m = 0" "\<forall>g \<in> set (m_groups m). g_viewed g = most_viewed r (g_items g)"
    "\<forall>g \<in> set (m_groups m). g_items g \<noteq> [] \<and> set (g_items g) \<subseteq> set (positions r)"
    "map (\<lambda>g. map (entry_at p r) (g_items g)) (m_groups m) = news_of bgn False (window (p, r))"
    by (rule MergeFeed_exact [OF ok na, of weigh bgn hot 0 False])
  let ?ns = "order_desc hot (m_groups m)" and ?N = "news_of bgn False (window (p, r))"
  let ?all = "map (\<lambda>n. map (entry_at p r) (g_items (m_groups m ! n))) ?ns"
  let ?gs = "filter (\<lambda>g. wanted (feed_of (hd g))) ?all" and ?page = "map (\<lambda>g. [ids_of g]) (filter (\<lambda>g. wanted (feed_of (hd g))) (map (\<lambda>n. map (entry_at p r) (g_items (m_groups m ! n))) (order_desc hot (m_groups m))))"
  have perm: "mset ?ns = mset [0..<length (m_groups m)]" by (rule order_desc_perm)
  then have "\<forall>n \<in> set ?ns. n < length (m_groups m)" by (metis atLeastLessThan_iff set_mset_mset set_upt)
  then have "get_by wanted weigh now bgn hot (p, r) = Some (?page, p, m_ring m)"
    using by_type_ok [OF ok m(2,5), of wanted "order_desc hot (m_groups m)"] w m(1) by (simp add: get_by_def)
  moreover have all: "mset ?all = mset ?N" using mset_order [OF perm, of "\<lambda>g. map (entry_at p r) (g_items g)"] m(6) by simp
  then have gs: "mset ?gs = mset (filter (\<lambda>g. wanted (feed_of (hd g))) ?N)" by (simp only: mset_filter)
  moreover have "wanted (feed_of e) = wanted (feed_of (hd g))" if g: "g \<in> set ?N" "e \<in> set g" for g e
  proof (rule t [rule_format], rule same_key_same_type)
    have h: "hd g \<in> set g" using news_groups(1) [OF g(1)] by simp
    show "merge_key (feed_of e) = merge_key (feed_of (hd g))" by (rule news_groups(3) [OF g h])
    show "\<not> IsComment (SmallType (feed_of e))" "\<not> IsComment (SmallType (feed_of (hd g)))"
      using news_groups(2) [OF g] news_groups(2) [OF g(1) h] by (simp_all add: shown_def)
  qed
  then have cf: "concat (filter (\<lambda>g. wanted (feed_of (hd g))) ?N) = filter (\<lambda>e. wanted (feed_of e)) (concat ?N)"
    by (rule filter_groups)
  moreover have "mset (concat ?gs) = mset (filter (\<lambda>e. wanted (feed_of e)) (filter (shown bgn False) (window (p, r))))"
    unfolding mset_concat_eq [OF gs] cf mset_filter news_mset ..
  moreover have "sorted_wrt (\<lambda>g h. news_rank weigh bgn hot g \<ge> news_rank weigh bgn hot h) ?gs"
    by (rule sorted_wrt_filter, rule MergeFeed_ranked [OF ok na c m(1)])
  ultimately show ?thesis using same_slots_ok [OF ok m(2)] by blast
qed

section \<open>Gathered pages\<close>

lemma on_slots_same: "(\<And>x. l_feed (f x) = l_feed x) \<Longrightarrow> same_slots r (on_slots is f r)"
proof (induction "is" arbitrary: r)
  case (Cons i "is")
  then show ?case using same_slots_trans [OF same_slots_on [of f r i]] by (simp add: on_slots_def)
qed (simp add: on_slots_def)

lemma marks_handle [simp]: "l_feed (mark_viewed b l n x) = l_feed x" "l_feed (mark_random x) = l_feed x"
  by (simp_all add: mark_viewed_def mark_random_def SetRandomed_def Let_def)

lemma first_main_ok:
  assumes "ring_ok E (p, r)" "same_slots r r'"
  shows "set is \<subseteq> set (positions r) \<Longrightarrow> first_main p r' is = Some (find (\<lambda>f. \<not> IsComment (SmallType f)) (map (seen p r) is))"
  by (induction "is") (use first_feed [OF assms] in auto)

definition has_main :: "entry list \<Rightarrow> bool" where
  "has_main g \<longleftrightarrow> (\<exists>e \<in> set g. \<not> IsComment (SmallType (feed_of e)))"

lemma first_main_found: "find (\<lambda>f. \<not> IsComment (SmallType f)) (map (seen p r) is) = None \<longleftrightarrow> \<not> has_main (map (entry_at p r) is)"
  by (auto simp: find_None_iff has_main_def entry_at_def feed_of_def)

definition flags_ok :: "gathered list \<Rightarrow> (int \<times> int \<Rightarrow> (int \<times> nat) option) \<Rightarrow> bool" where
  "flags_ok res fl \<longleftrightarrow> (\<forall>k x. fl k = Some x \<longrightarrow> snd x < length res)"

lemma flags_ok_put: "flags_ok res fl \<Longrightarrow> flags_ok (res @ [g]) (fl(k \<mapsto> (t, length res)))"
  unfolding flags_ok_def by (auto simp: less_SucI)

lemma mset_put: "k < length res \<Longrightarrow> mset (concat (concat (res[k := res ! k @ [hs]]))) = mset (concat (concat res)) + mset hs"
proof (induction res arbitrary: k)
  case (Cons x res)
  then show ?case by (cases k) (simp_all add: ac_simps)
qed simp

lemma gather_group_ok:
  assumes "same_slots r (gs_ring s)" "flags_ok (gs_res s) (gs_flags s)"
  shows "same_slots r (gs_ring (gather_group bgn limit hot n g f s))"
    "flags_ok (gs_res (gather_group bgn limit hot n g f s)) (gs_flags (gather_group bgn limit hot n g f s))"
    "mset (concat (concat (gs_res (gather_group bgn limit hot n g f s)))) =
       mset (concat (concat (gs_res s))) + mset (handles_at (gs_ring s) (g_items g))"
    "gs_unviewed (gather_group bgn limit hot n g f s) = gs_unviewed s + (if g_viewed g = 0 then 1 else 0)"
    "set (gs_least (gather_group bgn limit hot n g f s)) \<subseteq> insert n (set (gs_least s))"
proof -
  have k: "gs_flags s (GatherKey f) = Some (t, j) \<Longrightarrow> j < length (gs_res s)" for t j
    using assms(2) unfolding flags_ok_def by (metis snd_conv)
  have on: "same_slots r (on_slots is (mark_viewed b limit l) (gs_ring s))" for "is" b l
    by (rule same_slots_trans [OF assms(1) on_slots_same]) simp
  show "same_slots r (gs_ring (gather_group bgn limit hot n g f s))"
    using on by (simp add: gather_group_def Let_def split: option.split prod.split)
  show "flags_ok (gs_res (gather_group bgn limit hot n g f s)) (gs_flags (gather_group bgn limit hot n g f s))"
    using assms(2) flags_ok_put by (auto simp: gather_group_def Let_def flags_ok_def split: option.split prod.split)
  show "mset (concat (concat (gs_res (gather_group bgn limit hot n g f s)))) =
       mset (concat (concat (gs_res s))) + mset (handles_at (gs_ring s) (g_items g))"
    using k mset_put by (auto simp: gather_group_def Let_def split: option.split prod.split)
  show "gs_unviewed (gather_group bgn limit hot n g f s) = gs_unviewed s + (if g_viewed g = 0 then 1 else 0)"
    "set (gs_least (gather_group bgn limit hot n g f s)) \<subseteq> insert n (set (gs_least s))"
    by (auto simp: gather_group_def Let_def split: option.split prod.split)
qed

lemma gather_loop_ok:
  assumes ok: "ring_ok E (p, r)" and it: "\<forall>g \<in> set gs. set (g_items g) \<subseteq> set (positions r)"
  shows "same_slots r (gs_ring s) \<Longrightarrow> flags_ok (gs_res s) (gs_flags s) \<Longrightarrow> \<forall>n \<in> set ns. n < length gs \<Longrightarrow>
    \<exists>s'. gather_loop p bgn limit hot gs ns s = Some s' \<and> same_slots r (gs_ring s') \<and>
      mset (concat (concat (gs_res s'))) = mset (concat (concat (gs_res s))) +
        mset (ids_of (concat (filter has_main (map (\<lambda>n. map (entry_at p r) (g_items (gs ! n))) ns)))) \<and>
      gs_unviewed s' = gs_unviewed s +
        int (length (filter (\<lambda>n. has_main (map (entry_at p r) (g_items (gs ! n))) \<and> g_viewed (gs ! n) = 0) ns)) \<and>
      set (gs_least s') \<subseteq> set (gs_least s) \<union> set ns"
proof (induction ns arbitrary: s)
  case Nil
  then show ?case by (simp add: ids_of_def)
next
  case (Cons n ns)
  let ?g = "gs ! n" and ?G = "map (entry_at p r) (g_items (gs ! n))"
  have g: "set (g_items ?g) \<subseteq> set (positions r)" using it Cons.prems(3) by simp
  have fm: "first_main p (gs_ring s) (g_items ?g) = Some (find (\<lambda>f. \<not> IsComment (SmallType f)) (map (seen p r) (g_items ?g)))"
    by (rule first_main_ok [OF ok Cons.prems(1) g])
  show ?case
  proof (cases "find (\<lambda>f. \<not> IsComment (SmallType f)) (map (seen p r) (g_items ?g))")
    case None
    then have "\<not> has_main ?G" using first_main_found by blast
    then show ?thesis using Cons.IH [OF Cons.prems(1,2)] Cons.prems(3) fm None by auto
  next
    case (Some f)
    then have hm: "has_main ?G" using first_main_found [of p r "g_items ?g"] by auto
    let ?s = "gather_group bgn limit hot n ?g f s"
    note G = gather_group_ok [OF Cons.prems(1,2), of bgn limit hot n ?g f]
    obtain s' where s': "gather_loop p bgn limit hot gs ns ?s = Some s'" "same_slots r (gs_ring s')"
      "mset (concat (concat (gs_res s'))) = mset (concat (concat (gs_res ?s))) +
        mset (ids_of (concat (filter has_main (map (\<lambda>n. map (entry_at p r) (g_items (gs ! n))) ns))))"
      "gs_unviewed s' = gs_unviewed ?s +
        int (length (filter (\<lambda>n. has_main (map (entry_at p r) (g_items (gs ! n))) \<and> g_viewed (gs ! n) = 0) ns))"
      "set (gs_least s') \<subseteq> set (gs_least ?s) \<union> set ns"
      using Cons.IH [OF G(1,2)] Cons.prems(3) by auto
    have "handles_at (gs_ring s) (g_items ?g) = ids_of ?G" by (rule handles_at_ids [OF ok Cons.prems(1) g])
    then have "mset (concat (concat (gs_res s'))) = mset (concat (concat (gs_res s))) +
        mset (ids_of (concat (filter has_main (map (\<lambda>n. map (entry_at p r) (g_items (gs ! n))) (n # ns)))))"
      using s'(3) G(3) hm by (simp add: ids_of_def ac_simps)
    then show ?thesis using s' G(4,5) hm fm Some by auto
  qed
qed

text \<open>The number of views of a group of entries.\<close>

definition views :: "entry list \<Rightarrow> int" where
  "views g = Max ((\<lambda>e. GetViewedCount (fst e)) ` set g)"

lemma views_slots: "views (map (entry_at p r) is) = most_viewed r is"
  by (simp add: views_def most_viewed_def image_image entry_at_def)

lemma length_filter_order:
  assumes "mset ns = mset [0..<length xs]"
  shows "length (filter (\<lambda>n. P (xs ! n)) ns) = length (filter P xs)"
proof -
  have "length (filter (\<lambda>n. P (xs ! n)) ns) = length (filter id (map (\<lambda>n. P (xs ! n)) ns))"
    by (simp add: filter_map comp_def)
  also have "\<dots> = length (filter id (map P xs))"
    using mset_order [OF assms, of P] by (metis mset_filter size_mset)
  finally show ?thesis by (simp add: filter_map comp_def)
qed

lemma GetGatheredFeed_ok:
  assumes ok: "ring_ok E (p, r)" and na: "no_ads now (window (p, r))"
  shows "\<exists>page random r'. GetGatheredFeed weigh now bgn limit hot k (p, r) =
      Some (page, random, int (length (filter (\<lambda>g. has_main g \<and> views g = 0) (news_of bgn True (window (p, r))))), k, p, r') \<and>
    same_slots r r' \<and> mset (concat (concat page)) = mset (ids_of (concat (filter has_main (news_of bgn True (window (p, r)))))) \<and>
    (random = [] \<or> (\<exists>g \<in> set (news_of bgn True (window (p, r))). random = [[ids_of g]]))"
proof -
  let ?N = "news_of bgn True (window (p, r))"
  obtain m where m: "MergeFeed weigh now bgn hot k True (p, r) = Some (m, order_desc hot (m_groups m))" "same_slots r (m_ring m)"
    "m_edm_count m = k" "\<forall>g \<in> set (m_groups m). g_viewed g = most_viewed r (g_items g)"
    "\<forall>g \<in> set (m_groups m). g_items g \<noteq> [] \<and> set (g_items g) \<subseteq> set (positions r)"
    "map (\<lambda>g. map (entry_at p r) (g_items g)) (m_groups m) = ?N"
    by (rule MergeFeed_exact [OF ok na, of weigh bgn hot k True])
  let ?ns = "order_desc hot (m_groups m)"
  let ?s0 = "\<lparr>gs_res = [], gs_flags = Map.empty, gs_unviewed = 0, gs_least = [], gs_least_count = RANDOM_VIEWED_COUNT, gs_ring = m_ring m\<rparr>"
  have perm: "mset ?ns = mset [0..<length (m_groups m)]" by (rule order_desc_perm)
  then have b: "\<forall>n \<in> set ?ns. n < length (m_groups m)" by (metis atLeastLessThan_iff set_mset_mset set_upt)
  have it: "\<forall>g \<in> set (m_groups m). set (g_items g) \<subseteq> set (positions r)" using m(5) by blast
  obtain s where s: "gather_loop p bgn limit hot (m_groups m) ?ns ?s0 = Some s" "same_slots r (gs_ring s)"
      "mset (concat (concat (gs_res s))) = mset (ids_of (concat (filter has_main (map (\<lambda>n. map (entry_at p r) (g_items (m_groups m ! n))) ?ns))))"
      "gs_unviewed s = int (length (filter (\<lambda>n. has_main (map (entry_at p r) (g_items (m_groups m ! n))) \<and> g_viewed (m_groups m ! n) = 0) ?ns))"
      "set (gs_least s) \<subseteq> set ?ns"
    using gather_loop_ok [OF ok it, of ?s0 ?ns bgn limit hot] m(2) b by (auto simp: flags_ok_def)
  have all: "mset (map (\<lambda>n. map (entry_at p r) (g_items (m_groups m ! n))) ?ns) = mset ?N"
    using mset_order [OF perm, of "\<lambda>g. map (entry_at p r) (g_items g)"] m(6) by simp
  have page: "mset (concat (concat (gs_res s))) = mset (ids_of (concat (filter has_main ?N)))"
    unfolding s(3) by (rule ids_mset, rule mset_concat_eq) (simp only: mset_filter all)
  have "filter (\<lambda>g. has_main (map (entry_at p r) (g_items g)) \<and> g_viewed g = 0) (m_groups m) =
      filter (\<lambda>g. has_main (map (entry_at p r) (g_items g)) \<and> views (map (entry_at p r) (g_items g)) = 0) (m_groups m)"
    using m(4) by (intro filter_cong) (simp_all add: views_slots)
  then have unv: "gs_unviewed s = int (length (filter (\<lambda>g. has_main g \<and> views g = 0) ?N))"
    unfolding s(4) m(6) [symmetric] length_filter_order [OF perm, of "\<lambda>g. has_main (map (entry_at p r) (g_items g)) \<and> g_viewed g = 0"]
    by (simp add: filter_map comp_def)
  show ?thesis
  proof (cases "gs_least s")
    case Nil
    then show ?thesis using m(1,3) s(1,2) page unv by (auto simp: GetGatheredFeed_def)
  next
    case (Cons n rest)
    let ?is = "g_items (m_groups m ! n)"
    have n: "n < length (m_groups m)" using s(5) b Cons by auto
    have r': "same_slots r (on_slots ?is mark_random (gs_ring s))" by (rule same_slots_trans [OF s(2) on_slots_same]) simp
    have "handles_at (gs_ring s) ?is = ids_of (map (entry_at p r) ?is)" by (rule handles_at_ids [OF ok s(2)]) (use it n in simp)
    moreover have "map (entry_at p r) ?is \<in> set ?N" unfolding m(6) [symmetric] using n by auto
    ultimately show ?thesis using m(1,3) s(1) page unv r' Cons by (auto simp: GetGatheredFeed_def Let_def)
  qed
qed

section \<open>Pages of any ring\<close>

text \<open>With advertisements too the pages show feeds of the ring only, and the ring keeps its feeds.\<close>

definition from_ring :: "FeedPool \<Rightarrow> LiveFeed \<Rightarrow> gathered list \<Rightarrow> bool" where
  "from_ring p r page \<longleftrightarrow> set (concat (concat page)) \<subseteq> set (ids_of (window (p, r)))"

lemma MergeFeed_any:
  assumes ok: "ring_ok E (p, r)"
  obtains m where "MergeFeed weigh now bgn by_weight k getcomment (p, r) = Some (m, order_desc by_weight (m_groups m))"
    "same_slots r (m_ring m)" "\<forall>g \<in> set (m_groups m). g_items g \<noteq> [] \<and> set (g_items g) \<subseteq> set (positions r)"
proof -
  obtain m D where m: "MergeFeed weigh now bgn by_weight k getcomment (p, r) = Some (m, order_desc by_weight (m_groups m))"
      "merged p r (filter (\<lambda>i. visible bgn getcomment p r i \<and> i \<notin> D) (positions r)) [] m"
      "D \<subseteq> {i \<in> set (positions r). is_edm now (slot r i)}"
      "(\<forall>i \<in> set (positions r). \<not> is_edm now (slot r i)) \<longrightarrow> m_edm_count m = k" by (rule MergeFeed_ok [OF ok])
  have "g_items h \<noteq> [] \<and> set (g_items h) \<subseteq> set (positions r)" if "h \<in> set (m_groups m)" for h
  proof -
    have "g_items h \<in> set (grouped (slot_key p r) (filter (\<lambda>i. visible bgn getcomment p r i \<and> i \<notin> D) (positions r)))"
      using m(2) that unfolding merged_def by (metis image_eqI set_map)
    then show ?thesis using grouped_members(1,2) by fastforce
  qed
  then show ?thesis using that m(1,2) by (simp add: merged_def)
qed

lemma ids_at: "ring_ok E (p, r) \<Longrightarrow> set is \<subseteq> set (positions r) \<Longrightarrow> set (ids_of (map (entry_at p r) is)) \<subseteq> set (ids_of (window (p, r)))"
  using positions_ok(1) by (fastforce simp: ids_of_def)

lemma set_concat_filter: "\<forall>g \<in> set gs. set g \<subseteq> X \<Longrightarrow> set (concat (filter Q gs)) \<subseteq> X"
  by (induction gs) auto

lemma from_groups:
  assumes "ring_ok E (p, r)" "\<forall>g \<in> set gs. set (g_items g) \<subseteq> set (positions r)" "\<forall>n \<in> set ns. n < length gs"
  shows "set (ids_of (concat (filter Q (map (\<lambda>n. map (entry_at p r) (g_items (gs ! n))) ns)))) \<subseteq> set (ids_of (window (p, r)))"
proof -
  have "set (map (entry_at p r) (g_items (gs ! n))) \<subseteq> set (window (p, r))" if "n \<in> set ns" for n
  proof -
    have "set (g_items (gs ! n)) \<subseteq> set (positions r)" using assms(2,3) that by simp
    then show ?thesis unfolding positions_ok(1) [OF assms(1)] set_map by (rule image_mono)
  qed
  then have "set (concat (filter Q (map (\<lambda>n. map (entry_at p r) (g_items (gs ! n))) ns))) \<subseteq> set (window (p, r))"
    by (intro set_concat_filter) simp
  then show ?thesis unfolding ids_of_def set_map by (rule image_mono)
qed

lemma order_desc_bound: "\<forall>n \<in> set (order_desc b gs). n < length gs"
  using order_desc_perm [of b gs] by (metis atLeastLessThan_iff set_mset_mset set_upt)

lemma get_by_any:
  assumes ok: "ring_ok E (p, r)" and w: "\<And>f. wanted (core f) = wanted f"
  obtains page r' where "get_by wanted weigh now bgn hot (p, r) = Some (page, p, r')" "same_slots r r'" "from_ring p r page"
proof -
  obtain m where m: "MergeFeed weigh now bgn hot 0 False (p, r) = Some (m, order_desc hot (m_groups m))" "same_slots r (m_ring m)"
    "\<forall>g \<in> set (m_groups m). g_items g \<noteq> [] \<and> set (g_items g) \<subseteq> set (positions r)"
    by (rule MergeFeed_any [OF ok, of weigh now bgn hot 0 False])
  let ?ns = "order_desc hot (m_groups m)"
  let ?gs = "filter (\<lambda>g. wanted (feed_of (hd g))) (map (\<lambda>n. map (entry_at p r) (g_items (m_groups m ! n))) ?ns)"
  have "get_by wanted weigh now bgn hot (p, r) = Some (map (\<lambda>g. [ids_of g]) ?gs, p, m_ring m)"
    using by_type_ok [OF ok m(2,3), of wanted ?ns] w m(1) order_desc_bound by (simp add: get_by_def)
  moreover have "from_ring p r (map (\<lambda>g. [ids_of g]) ?gs)"
    unfolding from_ring_def concat_singles concat_ids by (rule from_groups [OF ok _ order_desc_bound]) (use m(3) in simp)
  ultimately show ?thesis using that m(2) by blast
qed

lemma GetGatheredFeed_any:
  assumes ok: "ring_ok E (p, r)"
  obtains page random n k' r' where "GetGatheredFeed weigh now bgn limit hot k (p, r) = Some (page, random, n, k', p, r')"
    "same_slots r r'" "from_ring p r page" "from_ring p r random"
proof -
  obtain m where m: "MergeFeed weigh now bgn hot k True (p, r) = Some (m, order_desc hot (m_groups m))" "same_slots r (m_ring m)"
    "\<forall>g \<in> set (m_groups m). g_items g \<noteq> [] \<and> set (g_items g) \<subseteq> set (positions r)"
    by (rule MergeFeed_any [OF ok, of weigh now bgn hot k True])
  let ?ns = "order_desc hot (m_groups m)"
  let ?s0 = "\<lparr>gs_res = [], gs_flags = Map.empty, gs_unviewed = 0, gs_least = [], gs_least_count = RANDOM_VIEWED_COUNT, gs_ring = m_ring m\<rparr>"
  have it: "\<forall>g \<in> set (m_groups m). set (g_items g) \<subseteq> set (positions r)" using m(3) by blast
  obtain s where s: "gather_loop p bgn limit hot (m_groups m) ?ns ?s0 = Some s" "same_slots r (gs_ring s)"
      "mset (concat (concat (gs_res s))) = mset (ids_of (concat (filter has_main (map (\<lambda>n. map (entry_at p r) (g_items (m_groups m ! n))) ?ns))))"
      "set (gs_least s) \<subseteq> set ?ns"
    using gather_loop_ok [OF ok it, of ?s0 ?ns bgn limit hot] m(2) order_desc_bound by (auto simp: flags_ok_def)
  have page: "from_ring p r (gs_res s)"
    using from_groups [OF ok it order_desc_bound, of has_main] mset_eq_setD [OF s(3)] unfolding from_ring_def by blast
  show ?thesis
  proof (cases "gs_least s")
    case Nil
    show ?thesis by (rule that [OF _ s(2) page, of "[]"]) (use m(1) s(1) Nil in \<open>simp_all add: GetGatheredFeed_def from_ring_def\<close>)
  next
    case (Cons n rest)
    let ?is = "g_items (m_groups m ! n)"
    have n: "n < length (m_groups m)" using s(4) order_desc_bound [of hot "m_groups m"] Cons by auto
    have i: "set ?is \<subseteq> set (positions r)" using it n by simp
    have r': "same_slots r (on_slots ?is mark_random (gs_ring s))" by (rule same_slots_trans [OF s(2) on_slots_same]) simp
    have h: "handles_at (gs_ring s) ?is = ids_of (map (entry_at p r) ?is)" by (rule handles_at_ids [OF ok s(2) i])
    show ?thesis by (rule that [OF _ r' page, of "[[handles_at (gs_ring s) ?is]]"])
        (use m(1) s(1) Cons ids_at [OF ok i] in \<open>simp_all add: GetGatheredFeed_def from_ring_def h Let_def\<close>)
  qed
qed

end
