(* ===== verification/NewsServerInv.thy ===== *)
theory NewsServerInv
  imports NewsServer NewsPages
begin

text \<open>
  The invariant of the news server: the counts in the pool are those of the handles of all rings and of the handles \<open>H\<close> that
  a request holds, and every ring is well formed. The users are a multiset; a request changes the rings of one or two of them and leaves the feeds of the
  others alone.
\<close>

section \<open>Rings and the users\<close>

definition ring_wf :: "Ring \<Rightarrow> bool" where
  "ring_wf s \<longleftrightarrow> length (lf_feeds (snd s)) = 250 \<and> 0 \<le> lf_end (snd s) \<and> lf_end (snd s) < 250 \<and> 0 \<le> lf_size (snd s) \<and>
     lf_size (snd s) \<le> 250 \<and> (\<forall>e \<in> set (window s). snd e \<noteq> None) \<and> parts_ok (snd s) (map feed_of (window s))"

lemma ring_ok_split: "ring_ok E (p, r) \<longleftrightarrow> counted (handles r + E) p \<and> ring_wf (p, r)"
  by (auto simp: ring_ok_def ring_mem_def ring_wf_def)

definition users_ms :: "News \<Rightarrow> (int \<times> LiveFeed) multiset" where
  "users_ms s = (\<Sum>i \<in> {0..<POOL_SIZE}. mset (n_users s i))"

definition handles_ms :: "(int \<times> LiveFeed) multiset \<Rightarrow> int multiset" where
  "handles_ms U = \<Sum>\<^sub># (image_mset (\<lambda>u. handles (snd u)) U)"

lemma handles_ms_simps [simp]: "handles_ms {#} = {#}" "handles_ms (add_mset u U) = handles (snd u) + handles_ms U"
  "handles_ms (U + V) = handles_ms U + handles_ms V"
  by (simp_all add: handles_ms_def)

definition bucket_ok :: "int \<Rightarrow> (int \<times> LiveFeed) list \<Rightarrow> bool" where
  "bucket_ok i us \<longleftrightarrow> distinct (map fst us) \<and> int (length us) \<le> MAX_USER_COUNT \<and> (\<forall>u \<in> set us. user_index (fst u) = Some i)"

definition server_ok :: "int multiset \<Rightarrow> News \<Rightarrow> bool" where
  "server_ok H s \<longleftrightarrow> counted (handles_ms (users_ms s) + H) (n_pool s) \<and> (\<forall>u \<in># users_ms s. ring_wf (n_pool s, snd u)) \<and>
     (\<forall>i. bucket_ok i (n_users s i))"

lemma user_index_range: "user_index uid = Some i \<Longrightarrow> i \<in> {0..<POOL_SIZE}"
proof -
  assume a: "user_index uid = Some i"
  have m: "0 \<le> \<bar>uid\<bar> div 20 mod POOL_SIZE" "\<bar>uid\<bar> div 20 mod POOL_SIZE < POOL_SIZE" by (simp_all add: POOL_SIZE_def)
  consider "uid > 0" | "uid = 0" | "uid < 0" by linarith
  then show ?thesis using a m by cases (auto simp: user_index_def Let_def POOL_SIZE_def split: if_splits)
qed

lemma user_index_nonneg: "0 \<le> uid \<Longrightarrow> user_index uid = Some (uid div 20 mod POOL_SIZE)"
  by (cases "uid = 0") (auto simp: user_index_def Let_def POOL_SIZE_def not_less)

lemma user_index_some: "0 \<le> uid \<Longrightarrow> user_index uid \<noteq> None"
  by (simp add: user_index_nonneg)

text \<open>The users outside of one bucket.\<close>

definition others_ms :: "int \<Rightarrow> News \<Rightarrow> (int \<times> LiveFeed) multiset" where
  "others_ms i s = (\<Sum>j \<in> {0..<POOL_SIZE} - {i}. mset (n_users s j))"

lemma users_ms_split: "i \<in> {0..<POOL_SIZE} \<Longrightarrow> users_ms s = mset (n_users s i) + others_ms i s"
  by (simp add: users_ms_def others_ms_def sum.remove)

lemma others_ms_bucket [simp]: "others_ms i (on_bucket i us s) = others_ms i s"
  unfolding others_ms_def by (rule sum.cong) (auto simp: on_bucket_def)

lemma on_bucket_fields [simp]: "n_users (on_bucket i us s) = (n_users s)(i := us)" "n_pool (on_bucket i us s) = n_pool s"
  "n_edm (on_bucket i us s) = n_edm s" "n_calls (on_bucket i us s) = n_calls s"
  by (simp_all add: on_bucket_def)

lemma users_ms_cong: "n_users s = n_users t \<Longrightarrow> users_ms s = users_ms t" "n_users s = n_users t \<Longrightarrow> others_ms i s = others_ms i t"
  by (simp_all add: users_ms_def others_ms_def)

lemma users_ms_bucket: "i \<in> {0..<POOL_SIZE} \<Longrightarrow> users_ms (on_bucket i us s) = mset us + others_ms i s"
  using users_ms_split [of i "on_bucket i us s"] by simp

section \<open>Other rings\<close>

lemma ring_wf_pool:
  assumes "ring_wf (p, r)" "\<And>j. j \<in># handles r \<Longrightarrow> data p' j = data p j"
  shows "ring_wf (p', r)" "window (p', r) = window (p, r)"
proof -
  have "view (p', r) = view (p, r)" by (rule view_pool) (use assms in \<open>auto simp: ring_wf_def\<close>)
  then show w: "window (p', r) = window (p, r)" by (simp add: window_def)
  show "ring_wf (p', r)" using assms(1) w by (simp add: ring_wf_def)
qed

lemma handles_in: "u \<in># U \<Longrightarrow> j \<in># handles (snd u) \<Longrightarrow> j \<in># handles_ms U"
  by (auto simp: handles_ms_def)

lemma server_change:
  assumes ok: "server_ok H s" and a: "users_ms s = A + R" and b: "users_ms s' = A' + R"
    and c: "counted (handles_ms A' + handles_ms R + H) (n_pool s')" and w: "\<forall>u \<in># A'. ring_wf (n_pool s', snd u)"
    and d: "\<And>j. j \<in># handles_ms R + H \<Longrightarrow> data (n_pool s') j = data (n_pool s) j" and bk: "\<forall>i. bucket_ok i (n_users s' i)"
  shows "server_ok H s'"
proof -
  have "ring_wf (n_pool s', snd u)" if u: "u \<in># R" for u
  proof (rule ring_wf_pool(1))
    show "ring_wf (n_pool s, snd u)" using ok u by (simp add: server_ok_def a)
    show "j \<in># handles (snd u) \<Longrightarrow> data (n_pool s') j = data (n_pool s) j" for j using d [of j] handles_in [OF u, of j] by simp
  qed
  then show ?thesis using c w bk by (auto simp: server_ok_def b)
qed

lemma map_of_mset: "map_of us uid = Some r \<Longrightarrow> mset us = add_mset (uid, r) (mset us - {#(uid, r)#})"
  by (auto dest: map_of_SomeD)

lemma user_found:
  assumes ok: "server_ok H s" and i: "user_index uid = Some i" and r: "map_of (n_users s i) uid = Some r"
  obtains R where "users_ms s = add_mset (uid, r) R" "ring_ok (handles_ms R + H) (n_pool s, r)"
    "mset (n_users s i) + others_ms i s = add_mset (uid, r) R" "R = (mset (n_users s i) - {#(uid, r)#}) + others_ms i s"
proof -
  let ?R = "(mset (n_users s i) - {#(uid, r)#}) + others_ms i s"
  have u: "users_ms s = add_mset (uid, r) ?R" using users_ms_split [OF user_index_range [OF i]] map_of_mset [OF r] by (metis union_mset_add_mset_left)
  then have "ring_ok (handles_ms ?R + H) (n_pool s, r)" using ok by (simp add: server_ok_def ring_ok_split add.assoc)
  then show ?thesis using that u users_ms_split [OF user_index_range [OF i], of s] by simp
qed

lemma set_user_mset:
  assumes "distinct (map fst us)" "map_of us uid = Some r"
  shows "mset (set_user uid r' us) = add_mset (uid, r') (mset us - {#(uid, r)#})"
  using assms
proof (induction us)
  case (Cons u us)
  show ?case
  proof (cases "fst u = uid")
    case True
    then have u: "u = (uid, r)" and n: "uid \<notin> fst ` set us" using Cons.prems by (cases u; auto)+
    have "set_user uid r' us = us" unfolding set_user_def by (rule map_idI) (use n in auto)
    then show ?thesis using u by (simp add: set_user_def)
  next
    case False
    then have "map_of us uid = Some r" using Cons.prems(2) by (cases u) simp
    then have "mset us = add_mset (uid, r) (mset us - {#(uid, r)#})" by (rule map_of_mset)
    then show ?thesis using Cons False by (auto simp: set_user_def)
  qed
qed simp

lemma set_user_fst [simp]: "map fst (set_user uid r us) = map fst us"
  by (simp add: set_user_def)

lemma bucket_set_user: "bucket_ok i us \<Longrightarrow> bucket_ok i (set_user uid r us)"
proof -
  assume "bucket_ok i us"
  moreover have "length (set_user uid r us) = length us" by (simp add: set_user_def)
  moreover have "fst ` set (set_user uid r us) = fst ` set us" by (metis set_map set_user_fst)
  ultimately show ?thesis unfolding bucket_ok_def by (metis (no_types, lifting) image_iff set_user_fst)
qed

section \<open>Work on the ring of one user\<close>

definition ring_of :: "News \<Rightarrow> int \<Rightarrow> LiveFeed option" where
  "ring_of s uid = Option.bind (user_index uid) (\<lambda>i. map_of (n_users s i) uid)"

definition news :: "News \<Rightarrow> int \<Rightarrow> entry list option" where
  "news s uid = map_option (\<lambda>r. window (n_pool s, r)) (ring_of s uid)"

lemma map_of_set_user: "map_of us uid \<noteq> None \<Longrightarrow> map_of (set_user uid r us) = (map_of us)(uid \<mapsto> r)"
proof -
  have "map_of (set_user uid r us) v = (if v = uid then map_option (\<lambda>_. r) (map_of us uid) else map_of us v)" for v
    by (induction us) (auto simp: set_user_def)
  then show "map_of us uid \<noteq> None \<Longrightarrow> map_of (set_user uid r us) = (map_of us)(uid \<mapsto> r)" by (auto simp: fun_eq_iff)
qed

lemma ring_in_users:
  assumes "ring_of s v = Some q"
  shows "(v, q) \<in># users_ms s"
proof -
  obtain j where j: "user_index v = Some j" "map_of (n_users s j) v = Some q" using assms by (auto simp: ring_of_def Option.bind_eq_Some_conv)
  then have "(v, q) \<in> set (n_users s j)" by (simp add: map_of_SomeD)
  then show ?thesis using users_ms_split [OF user_index_range [OF j(1)], of s] by simp
qed

lemma ring_of_fields [simp]: "ring_of (s\<lparr>n_pool := p\<rparr>) = ring_of s" "ring_of (s\<lparr>n_edm := e\<rparr>) = ring_of s"
  "ring_of (s\<lparr>n_calls := c\<rparr>) = ring_of s"
  by (simp_all add: ring_of_def fun_eq_iff)

lemma users_ms_fields [simp]: "users_ms (s\<lparr>n_pool := p\<rparr>) = users_ms s" "users_ms (s\<lparr>n_edm := e\<rparr>) = users_ms s"
  "users_ms (s\<lparr>n_calls := c\<rparr>) = users_ms s" "others_ms i (s\<lparr>n_pool := p\<rparr>) = others_ms i s"
  by (simp_all add: users_ms_def others_ms_def)

lemma other_fields [simp]: "server_ok H (s\<lparr>n_edm := e\<rparr>) = server_ok H s" "server_ok H (s\<lparr>n_calls := c\<rparr>) = server_ok H s"
  "news (s\<lparr>n_edm := e\<rparr>) = news s" "news (s\<lparr>n_calls := c\<rparr>) = news s"
  by (simp_all add: server_ok_def news_def fun_eq_iff)

lemma ring_of_bucket: "user_index uid = Some i \<Longrightarrow> map_of us = (map_of (n_users s i))(uid := x) \<Longrightarrow>
   ring_of (on_bucket i us s) = (ring_of s)(uid := x)"
  by (auto simp: ring_of_def fun_eq_iff split: Option.bind_splits)

lemma news_others:
  assumes ok: "server_ok H s" and a: "users_ms s = add_mset (uid, r) R" and v: "v \<noteq> uid" "ring_of s v = Some q"
    and d: "\<And>j. j \<in># handles_ms R + H \<Longrightarrow> data p' j = data (n_pool s) j"
  shows "window (p', q) = window (n_pool s, q)"
proof (rule ring_wf_pool(2))
  have "(v, q) \<in># users_ms s" by (rule ring_in_users [OF v(2)])
  then have "(v, q) \<in># R" using a v(1) by auto
  then show "j \<in># handles q \<Longrightarrow> data p' j = data (n_pool s) j" for j using d handles_in [of "(v, q)" R j] by simp
  show "ring_wf (n_pool s, q)" using ok ring_in_users [OF v(2)] by (auto simp: server_ok_def)
qed

lemma with_user_none: "user_index uid \<noteq> None \<Longrightarrow> ring_of s uid = None \<Longrightarrow> with_user uid f s = Some (None, s)"
  by (auto simp: with_user_def ring_of_def GetUserFeed_def on_bucket_def)

text \<open>The feeds that are held outside of the rings stay as they are.\<close>

definition held_same :: "int multiset \<Rightarrow> News \<Rightarrow> News \<Rightarrow> bool" where
  "held_same H s s' \<longleftrightarrow> (\<forall>j. j \<in># H \<longrightarrow> data (n_pool s') j = data (n_pool s) j)"

lemma held_same_refl [simp]: "held_same H s s"
  by (simp add: held_same_def)

lemma with_user_some:
  assumes ok: "server_ok H s" and r: "ring_of s uid = Some r"
    and f: "\<And>E. ring_ok E (n_pool s, r) \<Longrightarrow> ring_ok E (p', r') \<and> held_kept E (n_pool s, r) (p', r')" and a: "f (n_pool s, r) = Some (a, p', r')"
  obtains s' where "with_user uid f s = Some (Some a, s')" "server_ok H s'" "n_pool s' = p'" "n_edm s' = n_edm s" "n_calls s' = n_calls s"
    "news s' = (news s)(uid \<mapsto> window (p', r'))" "ring_of s' = (ring_of s)(uid \<mapsto> r')"
    "held_same H s s'"
proof -
  obtain i where i: "user_index uid = Some i" "map_of (n_users s i) uid = Some r" using r by (auto simp: ring_of_def Option.bind_eq_Some_conv)
  note I = user_index_range [OF i(1)]
  obtain R where R: "users_ms s = add_mset (uid, r) R" "ring_ok (handles_ms R + H) (n_pool s, r)"
      "R = (mset (n_users s i) - {#(uid, r)#}) + others_ms i s" by (rule user_found [OF ok i])
  have F: "ring_ok (handles_ms R + H) (p', r')" "\<And>j. j \<in># handles_ms R + H \<Longrightarrow> data p' j = data (n_pool s) j"
    using f [OF R(2)] by (auto simp: held_kept_def)
  let ?us = "set_user uid r' (n_users s i)" and ?t = "s\<lparr>n_pool := p'\<rparr>"
  let ?s' = "on_bucket i ?us ?t"
  have "distinct (map fst (n_users s i))" using ok by (simp add: server_ok_def bucket_ok_def)
  then have m: "mset ?us = add_mset (uid, r') (mset (n_users s i) - {#(uid, r)#})" by (rule set_user_mset [OF _ i(2)])
  have U: "users_ms ?s' = {#(uid, r')#} + R" using users_ms_bucket [OF I, of ?us ?t] m users_ms_cong(2) [of ?t s i] by (simp add: R(3))
  have "server_ok H ?s'"
  proof (rule server_change [OF ok _ U])
    show "users_ms s = {#(uid, r)#} + R" using R(1) by simp
    show "\<forall>j. bucket_ok j (n_users ?s' j)" using ok bucket_set_user by (auto simp: server_ok_def)
  qed (use F in \<open>simp_all add: ring_ok_split add.assoc\<close>)
  moreover have ro: "ring_of ?s' = (ring_of s)(uid \<mapsto> r')"
    using ring_of_bucket [OF i(1), of ?us ?t "Some r'"] map_of_set_user [of "n_users s i" uid r'] i(2) by simp
  moreover have "news ?s' = (news s)(uid \<mapsto> window (p', r'))"
  proof (rule ext)
    fix v
    show "news ?s' v = ((news s)(uid \<mapsto> window (p', r'))) v"
      using news_others [OF ok R(1) _ _ F(2), of v] ro by (cases "v = uid"; cases "ring_of s v") (auto simp: news_def)
  qed
  moreover have "with_user uid f s = Some (Some a, ?s')" using i a by (simp add: with_user_def GetUserFeed_def)
  moreover have "held_same H s ?s'" using F(2) by (simp add: held_same_def)
  ultimately show ?thesis using that [of ?s'] by simp
qed

section \<open>Rings that come and go\<close>

lemma foldr_drop:
  "counted (sum_list (map (\<lambda>x. opt_ms (l_feed x)) xs) + E) p \<Longrightarrow>
     counted E (foldr (\<lambda>x. drop_handle (l_feed x)) xs p) \<and> (\<forall>j. j \<in># E \<longrightarrow> data (foldr (\<lambda>x. drop_handle (l_feed x)) xs p) j = data p j)"
proof (induction xs arbitrary: E)
  case (Cons x xs)
  have c: "counted (opt_ms (l_feed x) + E) (foldr (\<lambda>x. drop_handle (l_feed x)) xs p)"
    and d: "\<And>j. j \<in># opt_ms (l_feed x) + E \<Longrightarrow> data (foldr (\<lambda>x. drop_handle (l_feed x)) xs p) j = data p j"
    using Cons.IH [of "opt_ms (l_feed x) + E"] Cons.prems by (auto simp: ac_simps)
  then show ?case using drop_counted [OF c] drop_data [OF c] by simp
qed simp

lemma destroy_ok: "counted (handles r + E) p \<Longrightarrow> counted E (destroy r p)"
  "counted (handles r + E) p \<Longrightarrow> j \<in># E \<Longrightarrow> data (destroy r p) j = data p j"
  using foldr_drop [of "lf_feeds r" E p] by (simp_all add: destroy_def handles_def)

text \<open>A user leaves.\<close>

lemma drop_user:
  assumes ok: "server_ok H s" and i: "user_index uid = Some i" "map_of (n_users s i) uid = Some r"
    and us: "mset us = mset (n_users s i) - {#(uid, r)#}" "map_of us = (map_of (n_users s i))(uid := None)" "bucket_ok i us"
  shows "server_ok H (on_bucket i us (s\<lparr>n_pool := destroy r (n_pool s)\<rparr>))" "news (on_bucket i us (s\<lparr>n_pool := destroy r (n_pool s)\<rparr>)) = (news s)(uid := None)"
proof -
  note I = user_index_range [OF i(1)]
  obtain R where R: "users_ms s = add_mset (uid, r) R" "ring_ok (handles_ms R + H) (n_pool s, r)"
      "R = (mset (n_users s i) - {#(uid, r)#}) + others_ms i s" by (rule user_found [OF ok i])
  have c: "counted (handles r + (handles_ms R + H)) (n_pool s)" using R(2) by (simp add: ring_ok_split)
  let ?t = "s\<lparr>n_pool := destroy r (n_pool s)\<rparr>"
  let ?s' = "on_bucket i us ?t"
  have U: "users_ms ?s' = {#} + R" using users_ms_bucket [OF I, of us ?t] us(1) by (simp add: R(3))
  show "server_ok H ?s'"
  proof (rule server_change [OF ok _ U])
    show "users_ms s = {#(uid, r)#} + R" using R(1) by simp
    show "\<forall>j. bucket_ok j (n_users ?s' j)" using ok us(3) by (auto simp: server_ok_def)
  qed (use destroy_ok [OF c] in simp_all)
  have ro: "ring_of ?s' = (ring_of s)(uid := None)" using ring_of_bucket [OF i(1), of us ?t None] us(2) by simp
  show "news ?s' = (news s)(uid := None)"
  proof (rule ext)
    fix v
    show "news ?s' v = ((news s)(uid := None)) v"
      using news_others [OF ok R(1) _ _ destroy_ok(2) [OF c], of v] ro by (cases "v = uid"; cases "ring_of s v") (auto simp: news_def)
  qed
qed

lemma filter_user: "distinct (map fst us) \<Longrightarrow> map_of us uid = Some r \<Longrightarrow> mset (filter (\<lambda>u. fst u \<noteq> uid) us) = mset us - {#(uid, r)#}"
proof (induction us)
  case (Cons u us)
  show ?case
  proof (cases "fst u = uid")
    case True
    then have u: "u = (uid, r)" and n: "uid \<notin> fst ` set us" using Cons.prems by (cases u; auto)+
    have "filter (\<lambda>u. fst u \<noteq> uid) us = us" by (rule filter_True) (use n in auto)
    then show ?thesis using u by simp
  next
    case False
    then have "map_of us uid = Some r" using Cons.prems(2) by (cases u) simp
    then have "mset us = add_mset (uid, r) (mset us - {#(uid, r)#})" by (rule map_of_mset)
    then show ?thesis using Cons False by auto
  qed
qed simp

lemma map_of_filter_user: "map_of (filter (\<lambda>u. fst u \<noteq> uid) us) = (map_of us)(uid := None)"
  by (induction us) (auto simp: fun_eq_iff)

lemma bucket_filter: "bucket_ok i us \<Longrightarrow> bucket_ok i (filter P us)"
  unfolding bucket_ok_def using length_filter_le [of P us] 
  by (auto simp: distinct_map_filter intro: order_trans [of _ "int (length us)"])

lemma EraseUser_ok:
  assumes ok: "server_ok H s" and i: "user_index uid \<noteq> None"
  obtains s' where "EraseUser uid s = Some s'" "server_ok H s'" "news s' = (if uid < 0 then news s else (news s)(uid := None))"
proof (cases "uid < 0")
  case False
  obtain k where k: "user_index uid = Some k" using i by auto
  have b: "bucket_ok k (n_users s k)" using ok by (simp add: server_ok_def)
  show ?thesis
  proof (cases "map_of (n_users s k) uid")
    case None
    then have "news s uid = None" using k by (simp add: news_def ring_of_def)
    then show ?thesis using that [of s] ok k None False by (auto simp: EraseUser_def fun_eq_iff)
  next
    case (Some r)
    let ?us = "filter (\<lambda>u. fst u \<noteq> uid) (n_users s k)"
    have "mset ?us = mset (n_users s k) - {#(uid, r)#}" by (rule filter_user) (use b Some in \<open>auto simp: bucket_ok_def\<close>)
    note D = drop_user [OF ok k Some this map_of_filter_user bucket_filter [OF b]]
    show ?thesis by (rule that [OF _ D(1)]) (use D(2) k Some False in \<open>simp_all add: EraseUser_def\<close>)
  qed
qed (use that [of s] ok in \<open>simp add: EraseUser_def\<close>)

text \<open>A user comes; the one that came first leaves a full bucket.\<close>

definition crowded_out :: "int \<Rightarrow> News \<Rightarrow> int option" where
  "crowded_out i s = (if int (length (n_users s i)) \<ge> MAX_USER_COUNT then Some (fst (last (n_users s i))) else None)"

lemma bucket_cons: "bucket_ok i us \<Longrightarrow> user_index uid = Some i \<Longrightarrow> map_of us uid = None \<Longrightarrow> int (length us) < MAX_USER_COUNT \<Longrightarrow>
   bucket_ok i ((uid, r) # us)"
  by (auto simp: bucket_ok_def map_of_eq_None_iff)

lemma last_user:
  assumes "bucket_ok i us" "us \<noteq> []"
  shows "map_of us (fst (last us)) = Some (snd (last us))" "mset (butlast us) = mset us - {#(fst (last us), snd (last us))#}"
    "map_of (butlast us) = (map_of us)(fst (last us) := None)" "bucket_ok i (butlast us)"
proof -
  have d: "distinct (map fst us)" using assms(1) by (simp add: bucket_ok_def)
  have us: "us = butlast us @ [last us]" using assms(2) by simp
  show l: "map_of us (fst (last us)) = Some (snd (last us))" by (rule map_of_is_SomeI [OF d]) (use assms(2) in simp)
  show "mset (butlast us) = mset us - {#(fst (last us), snd (last us))#}"
    using arg_cong [OF us, of mset] by (simp only: mset_append prod.collapse) simp
  have n: "fst (last us) \<notin> fst ` set (butlast us)"
    using d us by (metis disjoint_iff distinct_append list.set_map list.set_intros(1) map_append list.simps(9))
  have "map_of us v = map_of (butlast us @ [last us]) v" for v using us by simp
  then have m: "map_of us v = (case map_of (butlast us) v of Some q \<Rightarrow> Some q | None \<Rightarrow> map_of [last us] v)" for v
    by (simp add: map_add_def split: option.split)
  show "map_of (butlast us) = (map_of us)(fst (last us) := None)"
  proof (rule ext)
    fix v
    have "map_of (butlast us) (fst (last us)) = None" using n by (simp add: map_of_eq_None_iff)
    then show "map_of (butlast us) v = ((map_of us)(fst (last us) := None)) v"
      using m [of v] by (cases "last us") (auto split: option.splits)
  qed
  show "bucket_ok i (butlast us)" using assms(1) unfolding bucket_ok_def
    by (auto simp: map_butlast distinct_butlast dest: in_set_butlastD)
qed

lemma put_user:
  assumes ok: "server_ok H s" and i: "user_index uid = Some i" and n: "ring_of s uid = None"
    and r: "ring_ok (handles_ms (users_ms s) + H) (p, r)" and h: "\<And>j. j \<in># handles_ms (users_ms s) + H \<Longrightarrow> data p j = data (n_pool s) j"
  obtains s' where "AddUserFeed uid r (s\<lparr>n_pool := p\<rparr>) = Some s'" "server_ok H s'" "n_edm s' = n_edm s" "n_calls s' = n_calls s"
    "news s' = (case crowded_out i s of None \<Rightarrow> news s | Some v \<Rightarrow> (news s)(v := None))(uid \<mapsto> window (p, r))"
proof -
  note I = user_index_range [OF i]
  let ?us = "n_users s i" and ?t = "s\<lparr>n_pool := p\<rparr>"
  have nu: "map_of ?us uid = None" using n i by (simp add: ring_of_def)
  have b: "bucket_ok i ?us" using ok by (simp add: server_ok_def)
  have cw: "counted (handles r + handles_ms (users_ms s) + H) p" "ring_wf (p, r)" using r by (simp_all add: ring_ok_split add.assoc)
  have old: "window (p, q) = window (n_pool s, q)" if "ring_of s v = Some q" for v q
  proof (rule ring_wf_pool(2))
    show "ring_wf (n_pool s, q)" using ok ring_in_users [OF that] by (auto simp: server_ok_def)
    show "j \<in># handles q \<Longrightarrow> data p j = data (n_pool s) j" for j using h handles_in [OF ring_in_users [OF that]] by simp
  qed
  show ?thesis
  proof (cases "int (length ?us) \<ge> MAX_USER_COUNT")
    case False
    let ?s' = "on_bucket i ((uid, r) # ?us) ?t"
    have U: "users_ms ?s' = {#(uid, r)#} + users_ms s" using users_ms_bucket [OF I, of _ ?t] users_ms_split [OF I, of s] by simp
    have "server_ok H ?s'"
    proof (rule server_change [OF ok _ U])
      show "\<forall>j. bucket_ok j (n_users ?s' j)" using ok bucket_cons [OF b i nu] False by (auto simp: server_ok_def)
    qed (use cw h in \<open>simp_all add: add.assoc\<close>)
    moreover have ro: "ring_of ?s' = (ring_of s)(uid \<mapsto> r)" using ring_of_bucket [OF i, of "(uid, r) # ?us" ?t "Some r"] by simp
    then have "news ?s' = (news s)(uid \<mapsto> window (p, r))" using old by (auto simp: news_def fun_eq_iff intro!: map_option_cong)
    moreover have "AddUserFeed uid r ?t = Some ?s'" using i nu False by (simp add: AddUserFeed_def Let_def)
    ultimately show ?thesis using that [of ?s'] False by (simp add: crowded_out_def)
  next
    case True
    then have ne: "?us \<noteq> []" by (auto simp: MAX_USER_COUNT_def)
    let ?v = "fst (last ?us)" and ?q = "snd (last ?us)"
    note L = last_user [OF b ne]
    have vi: "user_index ?v = Some i" using b ne by (simp add: bucket_ok_def)
    have vu: "?v \<noteq> uid" using L(1) nu by auto
    obtain R where R: "users_ms s = add_mset (?v, ?q) R" "R = (mset ?us - {#(?v, ?q)#}) + others_ms i s"
      by (rule user_found [OF ok vi L(1)])
    let ?p = "destroy ?q p" and ?bu = "(uid, r) # butlast ?us"
    let ?s' = "on_bucket i ?bu (?t\<lparr>n_pool := ?p\<rparr>)"
    have c: "counted (handles ?q + (handles r + handles_ms R + H)) p" using cw(1) by (simp add: R(1) ac_simps)
    have U: "users_ms ?s' = {#(uid, r)#} + R" using users_ms_bucket [OF I, of ?bu "?t\<lparr>n_pool := ?p\<rparr>"] L(2) by (simp add: R(2))
    have d: "data ?p j = data (n_pool s) j" if "j \<in># handles_ms R + H" for j
      using destroy_ok(2) [OF c, of j] h [of j] that by (simp add: R(1))
    have wr: "ring_wf (?p, r)" "window (?p, r) = window (p, r)"
      using ring_wf_pool [OF cw(2), of ?p] destroy_ok(2) [OF c] by auto
    have "int (length (butlast ?us)) < MAX_USER_COUNT" using b ne by (cases ?us rule: rev_cases) (auto simp: bucket_ok_def)
    then have bb: "bucket_ok i ?bu" using bucket_cons [OF L(4) i] L(3) nu by simp
    have "server_ok H ?s'"
    proof (rule server_change [OF ok _ U])
      show "users_ms s = {#(?v, ?q)#} + R" using R(1) by simp
      show "\<forall>j. bucket_ok j (n_users ?s' j)" using ok bb by (auto simp: server_ok_def)
    qed (use destroy_ok(1) [OF c] wr(1) d in \<open>simp_all add: add.assoc\<close>)
    moreover have ro: "ring_of ?s' = (ring_of s)(?v := None, uid \<mapsto> r)"
      using i vi vu L(3) by (auto simp: ring_of_def fun_eq_iff split: Option.bind_splits)
    have "news ?s' w = ((news s)(?v := None, uid \<mapsto> window (p, r))) w" for w
      using news_others [OF ok R(1) _ _ d, of w] ro wr(2) by (cases "w = uid"; cases "w = ?v"; cases "ring_of s w") (auto simp: news_def)
    then have "news ?s' = (news s)(?v := None, uid \<mapsto> window (p, r))" by blast
    moreover have "AddUserFeed uid r ?t = Some ?s'" using i nu True ne by (simp add: AddUserFeed_def Let_def)
    ultimately show ?thesis using that [of ?s'] True by (simp add: crowded_out_def)
  qed
qed

section \<open>Loading\<close>

definition ids :: "entry list \<Rightarrow> int list" where
  "ids W = map (\<lambda>e. f_id (feed_of e)) W"

lemma add_items_ok:
  "ring_ok E s \<Longrightarrow> \<exists>s'. add_items items s = Some s' \<and> ring_ok E s' \<and> held_kept E s s' \<and>
     (length (window s) + length items \<le> 250 \<longrightarrow> ids (window s') = rev (map it_feed items) @ ids (window s))"
proof (induction items arbitrary: s)
  case Nil
  then show ?case by simp
next
  case (Cons item items)
  obtain t where t: "Add item True False s = Some t" "ring_ok E t"
      "window t = added (fst s) item True False # make_room (window s)" "held_kept E s t"
    by (rule Add_ok [OF Cons.prems])
  obtain s' where s': "add_items items t = Some s'" "ring_ok E s'" "held_kept E t s'"
      "length (window t) + length items \<le> 250 \<longrightarrow> ids (window s') = rev (map it_feed items) @ ids (window t)"
    using Cons.IH [OF t(2)] by blast
  have "f_id (pooled (fst s) item) = it_feed item"
    using Cons.prems unfolding ring_ok_def ring_mem_def counted_def pooled_def data_def by (simp add: new_feed_def split: option.split)
  then have "ids (window t) = it_feed item # ids (make_room (window s))" by (simp add: t(3) added_def ids_def feed_of_def)
  moreover have "make_room (window s) = window s" if "length (window s) < 250" using that by (simp add: make_room_def)
  ultimately have "ids (window s') = rev (map it_feed (item # items)) @ ids (window s)" if "length (window s) + length (item # items) \<le> 250"
    using s'(4) t(3) that by simp
  then show ?case using t(1) s'(1,2) held_kept_trans [OF t(4) s'(3)] by auto
qed

end
