(* ===== verification/NewsRequests.thy ===== *)
theory NewsRequests
  imports NewsServerInv NewsRingTheorems
begin

text \<open>
  What the requests of the news server do to the lists of the users, and the invariant over all sequences of requests.
\<close>

section \<open>Loading and adding\<close>

lemma new_ring_window [simp]: "window (p, new_ring) = []" "handles new_ring = {#}"
proof -
  have "sum_list (map (\<lambda>x. opt_ms (l_feed x)) (replicate n no_item)) = {#}" for n
    by (induction n) (simp_all add: no_item_def)
  then show "handles new_ring = {#}" by (simp add: handles_def new_ring_def)
qed (simp add: window_def new_ring_def)

lemma empty_ring_ok: "counted E p \<Longrightarrow> ring_ok E (p, new_ring)"
  by (simp add: ring_ok_split ring_wf_def) (simp add: new_ring_def COUNT_def parts_ok_def)

lemma LoadFeed_ok:
  assumes ok: "server_ok H s" and i: "user_index uid = Some i"
  obtains s' where "LoadFeed cache uid s = Some (cache uid \<noteq> None, s')" "server_ok H s'" "n_edm s' = n_edm s" "n_calls s' = n_calls s"
    "cache uid = None \<or> news s uid \<noteq> None \<longrightarrow> s' = s"
    "\<forall>items. cache uid = Some items \<longrightarrow> news s uid = None \<longrightarrow> (\<exists>W. news s' = (case crowded_out i s of None \<Rightarrow> news s | Some v \<Rightarrow> (news s)(v := None))(uid \<mapsto> W) \<and>
       (length (getEDMFeed uid (n_edm s)) + length items \<le> 250 \<longrightarrow> ids W = rev (map it_feed (getEDMFeed uid (n_edm s))) @ map it_feed items))"
proof (cases "cache uid = None \<or> news s uid \<noteq> None")
  case True
  then have "LoadFeed cache uid s = Some (cache uid \<noteq> None, s)"
    using i by (auto simp: LoadFeed_def news_def ring_of_def GetUserFeed_def split: option.split)
  then show ?thesis using that [of s] ok True by auto
next
  case False
  then obtain items where c: "cache uid = Some items" and n: "ring_of s uid = None" by (auto simp: news_def)
  then have gu: "fst (GetUserFeed uid False (n_users s i)) = None" using i by (simp add: ring_of_def GetUserFeed_def)
  let ?E = "handles_ms (users_ms s) + H" and ?edm = "getEDMFeed uid (n_edm s)"
  have r0: "ring_ok ?E (n_pool s, new_ring)" by (rule empty_ring_ok) (use ok in \<open>simp add: server_ok_def\<close>)
  obtain p1 r1 where a1: "add_items (rev items) (n_pool s, new_ring) = Some (p1, r1)" "ring_ok ?E (p1, r1)"
      "held_kept ?E (n_pool s, new_ring) (p1, r1)" "length items \<le> 250 \<longrightarrow> ids (window (p1, r1)) = map it_feed items"
    using add_items_ok [OF r0, of "rev items"] by (auto simp: ids_def rev_map)
  obtain p r where a2: "add_items ?edm (p1, r1) = Some (p, r)" "ring_ok ?E (p, r)" "held_kept ?E (p1, r1) (p, r)"
      "length (window (p1, r1)) + length ?edm \<le> 250 \<longrightarrow> ids (window (p, r)) = rev (map it_feed ?edm) @ ids (window (p1, r1))"
    using add_items_ok [OF a1(2), of ?edm] by auto
  have h: "j \<in># ?E \<Longrightarrow> data p j = data (n_pool s) j" for j using a1(3) a2(3) by (auto simp: held_kept_def)
  obtain s' where s': "AddUserFeed uid r (s\<lparr>n_pool := p\<rparr>) = Some s'" "server_ok H s'" "n_edm s' = n_edm s" "n_calls s' = n_calls s"
    "news s' = (case crowded_out i s of None \<Rightarrow> news s | Some v \<Rightarrow> (news s)(v := None))(uid \<mapsto> window (p, r))"
    by (rule put_user [OF ok i n a2(2) h])
  have "LoadFeed cache uid s = Some (cache uid \<noteq> None, s')" using c i gu a1(1) a2(1) s'(1) by (simp add: LoadFeed_def)
  moreover have "ids (window (p, r)) = rev (map it_feed ?edm) @ map it_feed items" if "length ?edm + length items \<le> 250"
  proof -
    have "ids (window (p1, r1)) = map it_feed items" using a1(4) that by simp
    moreover from this have "length (window (p1, r1)) = length items" by (metis ids_def length_map)
    ultimately show ?thesis using a2(4) that by simp
  qed
  ultimately show ?thesis using that [of s'] s' c False by auto
qed

text \<open>An item reaches one user, if the ring is in memory.\<close>

lemma pooled_weight [simp]: "pooled p (item\<lparr>it_weight := w\<rparr>) = pooled p item"
  by (simp add: pooled_def new_feed_def split: option.split)

definition delivered :: "FeedPool \<Rightarrow> FeedItem \<Rightarrow> bool \<Rightarrow> int \<Rightarrow> entry list \<Rightarrow> entry list" where
  "delivered p item updateTime weight W = added p (item\<lparr>it_weight := weight\<rparr>) updateTime True # make_room W"

lemma deliver_ok:
  assumes ok: "server_ok H s" and r: "ring_of s uid = Some r"
  obtains s' where "with_user uid (\<lambda>ring. do { ring \<leftarrow> Add (item\<lparr>it_weight := w\<rparr>) u True ring; Some ((), ring) }) s = Some (Some (), s')"
    "server_ok H s'" "n_edm s' = n_edm s" "n_calls s' = n_calls s"
    "news s' = (news s)(uid \<mapsto> delivered (n_pool s) item u w (window (n_pool s, r)))" "pooled (n_pool s') item = pooled (n_pool s) item"
    "ring_of s' v = None \<longleftrightarrow> ring_of s v = None"
proof -
  let ?f = "\<lambda>ring. do { ring \<leftarrow> Add (item\<lparr>it_weight := w\<rparr>) u True ring; Some ((), ring) }"
  have F: "\<exists>p' r'. ?f (n_pool s, r) = Some ((), p', r') \<and> ring_ok E (p', r') \<and> held_kept E (n_pool s, r) (p', r') \<and>
      window (p', r') = delivered (n_pool s) item u w (window (n_pool s, r))" if E: "ring_ok E (n_pool s, r)" for E
  proof -
    obtain t where "Add (item\<lparr>it_weight := w\<rparr>) u True (n_pool s, r) = Some t" "ring_ok E t"
      "window t = added (fst (n_pool s, r)) (item\<lparr>it_weight := w\<rparr>) u True # make_room (window (n_pool s, r))" "held_kept E (n_pool s, r) t"
      by (rule Add_ok [OF E])
    then show ?thesis by (cases t) (simp add: delivered_def)
  qed
  obtain k where "user_index uid = Some k" "map_of (n_users s k) uid = Some r" using r by (auto simp: ring_of_def Option.bind_eq_Some_conv)
  then obtain R where "ring_ok R (n_pool s, r)" using user_found [OF ok] by blast
  from F [OF this] obtain p' r' where p': "?f (n_pool s, r) = Some ((), p', r')"
      "window (p', r') = delivered (n_pool s) item u w (window (n_pool s, r))" "ring_ok R (p', r')" by blast
  have f: "ring_ok E (p', r') \<and> held_kept E (n_pool s, r) (p', r')" if "ring_ok E (n_pool s, r)" for E using F [OF that] p'(1) by auto
  obtain s' where s': "with_user uid ?f s = Some (Some (), s')" "server_ok H s'" "n_pool s' = p'" "n_edm s' = n_edm s" "n_calls s' = n_calls s"
    "news s' = (news s)(uid \<mapsto> window (p', r'))" "ring_of s' = (ring_of s)(uid \<mapsto> r')"
    using with_user_some [OF ok r, of p' r' ?f "()"] f p'(1) by blast
  have "hd (window (p', r')) \<in> set (window (p', r'))" using p'(2) by (simp add: delivered_def)
  then obtain i where i: "i \<in> set (positions r')" "hd (window (p', r')) = entry_at p' r' i"
    using positions_ok(1) [OF p'(3)] by auto
  have "hd (window (p', r')) = added (n_pool s) (item\<lparr>it_weight := w\<rparr>) u True" using p'(2) by (simp add: delivered_def)
  then have e: "l_feed (slot r' i) = Some (it_feed item)" "core (seen p' r' i) = pooled (n_pool s) item"
    using i(2) by (simp_all add: added_def entry_at_def marked_def new_item_def Let_def)
  obtain g where "deref p' (slot r' i) = Some g" using positions_ok(3) [OF p'(3)] i(1) by auto
  then have "data p' (it_feed item) = Some (pooled (n_pool s) item)" using e by (simp add: deref_def data_def seen_def)
  then have "pooled p' item = pooled (n_pool s) item" by (simp add: pooled_def)
  then show ?thesis using that [of s'] s' p'(2) r by auto
qed

lemma delivered_same: "pooled p item = pooled q item \<Longrightarrow> delivered p (item\<lparr>it_weight := x\<rparr>) u w W = delivered q item u w W"
  "pooled p item = pooled q item \<Longrightarrow> delivered p item u w W = delivered q item u w W"
  by (simp_all add: delivered_def added_def)

lemma add_feed_loop_ok:
  "server_ok H s \<Longrightarrow> \<forall>x \<in> set id2weight. user_index (fst x) \<noteq> None \<Longrightarrow> distinct (map fst id2weight) \<Longrightarrow>
    \<exists>s'. add_feed_loop u id2weight item s = Some s' \<and> server_ok H s' \<and> n_calls s' = n_calls s \<and>
      (\<forall>v. news s' v = (case map_of id2weight v of None \<Rightarrow> news s v | Some w \<Rightarrow> map_option (delivered (n_pool s) item u w) (news s v)))"
proof (induction id2weight arbitrary: item s)
  case Nil
  then show ?case by simp
next
  case (Cons x id2weight)
  obtain uid w where x: "x = (uid, w)" by (cases x)
  define t where "t = (if it_time item < 0 then s\<lparr>n_edm := addEDMFeed item uid (n_edm s)\<rparr> else s)"
  have t: "server_ok H t" "news t = news s" "n_pool t = n_pool s" "n_calls t = n_calls s" using Cons.prems(1) by (simp_all add: t_def)
  let ?f = "\<lambda>ring. do { ring \<leftarrow> Add (item\<lparr>it_weight := w\<rparr>) u True ring; Some ((), ring) }"
  have n: "uid \<notin> fst ` set id2weight" "distinct (map fst id2weight)" "\<forall>x \<in> set id2weight. user_index (fst x) \<noteq> None"
    using Cons.prems(2,3) x by auto
  have mn: "map_of id2weight uid = None" using n(1) by (simp add: map_of_eq_None_iff)
  show ?case
  proof (cases "ring_of t uid")
    case None
    then have "news s uid = None" using t(2) by (metis news_def option.simps(8))
    moreover have "with_user uid ?f t = Some (None, t)" by (rule with_user_none) (use Cons.prems(2) x None in auto)
    moreover obtain s' where "add_feed_loop u id2weight item t = Some s'" "server_ok H s'" "n_calls s' = n_calls s"
      "\<And>v. news s' v = (case map_of id2weight v of None \<Rightarrow> news s v | Some w \<Rightarrow> map_option (delivered (n_pool s) item u w) (news s v))"
      using Cons.IH [OF t(1) n(3,2), of item] unfolding t(2-4) by blast
    ultimately show ?thesis using x mn by (auto simp: t_def [symmetric] Let_def)
  next
    case (Some r)
    obtain s1 where s1: "with_user uid ?f t = Some (Some (), s1)" "server_ok H s1" "n_edm s1 = n_edm t" "n_calls s1 = n_calls t"
      "news s1 = (news t)(uid \<mapsto> delivered (n_pool t) item u w (window (n_pool t, r)))" "pooled (n_pool s1) item = pooled (n_pool t) item"
      by (rule deliver_ok [OF t(1) Some])
    have wd: "news s uid = Some (window (n_pool t, r))" using Some t(2) by (metis news_def option.simps(9))
    obtain s' where s': "add_feed_loop u id2weight (item\<lparr>it_weight := w\<rparr>) s1 = Some s'" "server_ok H s'" "n_calls s' = n_calls s1"
      "\<And>v. news s' v = (case map_of id2weight v of None \<Rightarrow> news s1 v
         | Some y \<Rightarrow> map_option (delivered (n_pool s1) (item\<lparr>it_weight := w\<rparr>) u y) (news s1 v))"
      using Cons.IH [OF s1(2) n(3,2), of "item\<lparr>it_weight := w\<rparr>"] by blast
    have same: "delivered (n_pool s1) (item\<lparr>it_weight := w\<rparr>) u y = delivered (n_pool s) item u y" for y
      using delivered_same(1) [of "n_pool s1" item "n_pool s"] s1(6) t(3) by auto
    have "news s' v = (case map_of (x # id2weight) v of None \<Rightarrow> news s v | Some y \<Rightarrow> map_option (delivered (n_pool s) item u y) (news s v))" for v
      using s'(4) [of v] s1(5) t(2,3) mn wd x by (cases "v = uid") (simp_all add: same split: option.split)
    then show ?thesis using s'(1-3) s1(1,4) t(4) x by (auto simp: t_def [symmetric] Let_def)
  qed
qed

section \<open>Removing and reading\<close>

text \<open>A request on the ring of one user, with what it answers and what it leaves of the list.\<close>

lemma user_op:
  assumes ok: "server_ok H s" and i: "user_index uid \<noteq> None"
    and F: "\<And>r E. ring_ok E (n_pool s, r) \<Longrightarrow> \<exists>p' r'. f (n_pool s, r) = Some (g r, p', r') \<and> ring_ok E (p', r') \<and>
      held_kept E (n_pool s, r) (p', r') \<and> window (p', r') = W r"
  obtains s' where "with_user uid f s = Some (map_option g (ring_of s uid), s')" "server_ok H s'" "n_edm s' = n_edm s" "n_calls s' = n_calls s"
    "news s' = (news s)(uid := map_option W (ring_of s uid))" "held_same H s s'"
proof (cases "ring_of s uid")
  case None
  then have "news s uid = None" by (simp add: news_def)
  then show ?thesis using that [of s] with_user_none [OF i None, of f] ok None by (auto simp: fun_eq_iff)
next
  case (Some r)
  obtain k where "user_index uid = Some k" "map_of (n_users s k) uid = Some r" using Some by (auto simp: ring_of_def Option.bind_eq_Some_conv)
  then obtain R where "ring_ok R (n_pool s, r)" using user_found [OF ok] by blast
  then obtain p' r' where p': "f (n_pool s, r) = Some (g r, p', r')" "window (p', r') = W r" using F by blast
  have "ring_ok E (p', r') \<and> held_kept E (n_pool s, r) (p', r')" if "ring_ok E (n_pool s, r)" for E using F [OF that] p'(1) by auto
  then obtain s' where "with_user uid f s = Some (Some (g r), s')" "server_ok H s'" "n_edm s' = n_edm s" "n_calls s' = n_calls s"
    "news s' = (news s)(uid \<mapsto> window (p', r'))" "held_same H s s'"
    using with_user_some [OF ok Some, of p' r' f "g r"] p'(1) by blast
  then show ?thesis using that [of s'] Some p'(2) by simp
qed

definition listed :: "News \<Rightarrow> int \<Rightarrow> entry list" where
  "listed s uid = (case news s uid of None \<Rightarrow> [] | Some W \<Rightarrow> W)"

lemma SetRead_ok:
  assumes ok: "server_ok H s" and i: "0 \<le> uid" "user_index uid \<noteq> None"
  obtains s' where "SetRead uid stype merge s = Some s'" "server_ok H s'" "n_edm s' = n_edm s"
    "n_calls s' = n_calls s @ map (CacheRemove uid) (ids (filter (\<lambda>e. same_news stype merge (feed_of e)) (listed s uid)))"
    "news s' = (news s)(uid := map_option (filter (\<lambda>e. \<not> same_news stype merge (feed_of e))) (news s uid))"
proof -
  let ?g = "\<lambda>r. ids (filter (\<lambda>e. same_news stype merge (feed_of e)) (window (n_pool s, r)))"
  let ?W = "\<lambda>r. filter (\<lambda>e. \<not> same_news stype merge (feed_of e)) (window (n_pool s, r))"
  have F: "\<exists>p' r'. Remove stype merge (n_pool s, r) = Some (?g r, p', r') \<and> ring_ok E (p', r') \<and>
      held_kept E (n_pool s, r) (p', r') \<and> window (p', r') = ?W r" if E: "ring_ok E (n_pool s, r)" for r E
  proof -
    obtain t where "Remove stype merge (n_pool s, r) = Some (map f_id (filter (same_news stype merge) (feeds (n_pool s, r))), t)" "ring_ok E t"
      "window t = ?W r" "held_kept E (n_pool s, r) t" by (rule Remove_ok [OF E])
    moreover have "map f_id (filter (same_news stype merge) (feeds (n_pool s, r))) = ?g r" by (simp add: feeds_def ids_def filter_map comp_def)
    ultimately show ?thesis by (cases t) simp
  qed
  obtain s' where s': "with_user uid (Remove stype merge) s = Some (map_option ?g (ring_of s uid), s')" "server_ok H s'" "n_edm s' = n_edm s"
      "n_calls s' = n_calls s" "news s' = (news s)(uid := map_option ?W (ring_of s uid))" "held_same H s s'"
    by (rule user_op [OF ok i(2), of "Remove stype merge" ?g ?W, OF F])
  have "(case map_option ?g (ring_of s uid) of None \<Rightarrow> [] | Some l \<Rightarrow> l) = ids (filter (\<lambda>e. same_news stype merge (feed_of e)) (listed s uid))"
    by (cases "ring_of s uid") (simp_all add: listed_def news_def ids_def)
  moreover have "map_option ?W (ring_of s uid) = map_option (filter (\<lambda>e. \<not> same_news stype merge (feed_of e))) (news s uid)"
    by (cases "ring_of s uid") (simp_all add: news_def)
  ultimately show ?thesis using that [of "cache_removes uid (ids (filter (\<lambda>e. same_news stype merge (feed_of e)) (listed s uid))) s'"] s' i(1)
    by (simp add: SetRead_def cache_removes_def)
qed

text \<open>The news that the feed with an id belongs to; an id that no ring refers to belongs to none.\<close>

definition news_at :: "News \<Rightarrow> int \<Rightarrow> Feed \<Rightarrow> bool" where
  "news_at s i g \<longleftrightarrow> (\<exists>f. data (n_pool s) i = Some f \<and> same_news (SmallType f) (f_merge f) g)"

lemma SetReadById_ok:
  assumes ok: "server_ok H s" and i: "0 \<le> uid" "user_index uid \<noteq> None"
  obtains s' where "SetReadById uid fid s = Some s'" "server_ok H s'" "n_edm s' = n_edm s"
    "n_calls s' = n_calls s @ map (CacheRemove uid) (ids (filter (\<lambda>e. news_at s fid (feed_of e)) (listed s uid)))"
    "news s' = (news s)(uid := map_option (filter (\<lambda>e. \<not> news_at s fid (feed_of e))) (news s uid))"
proof -
  let ?g = "\<lambda>r. ids (filter (\<lambda>e. news_at s fid (feed_of e)) (window (n_pool s, r)))"
  let ?W = "\<lambda>r. filter (\<lambda>e. \<not> news_at s fid (feed_of e)) (window (n_pool s, r))"
  have F: "\<exists>p' r'. RemoveById fid (n_pool s, r) = Some (?g r, p', r') \<and> ring_ok E (p', r') \<and>
      held_kept E (n_pool s, r) (p', r') \<and> window (p', r') = ?W r" if E: "ring_ok E (n_pool s, r)" for r E
  proof -
    obtain l t where t: "RemoveById fid (n_pool s, r) = Some (l, t)" "ring_ok E t" "held_kept E (n_pool s, r) t"
      "l = (case data (fst (n_pool s, r)) fid of None \<Rightarrow> []
         | Some f \<Rightarrow> map f_id (filter (same_news (SmallType f) (f_merge f)) (feeds (n_pool s, r))))"
      "window t = (case data (fst (n_pool s, r)) fid of None \<Rightarrow> window (n_pool s, r)
         | Some f \<Rightarrow> filter (\<lambda>e. \<not> same_news (SmallType f) (f_merge f) (feed_of e)) (window (n_pool s, r)))"
      by (rule RemoveById_ok [OF E])
    have "l = ?g r" "window t = ?W r"
      using t(4,5) by (cases "data (n_pool s) fid"; simp add: news_at_def feeds_def ids_def filter_map comp_def)+
    then show ?thesis using t(1-3) by (cases t) simp
  qed
  obtain s' where s': "with_user uid (RemoveById fid) s = Some (map_option ?g (ring_of s uid), s')" "server_ok H s'" "n_edm s' = n_edm s"
      "n_calls s' = n_calls s" "news s' = (news s)(uid := map_option ?W (ring_of s uid))" "held_same H s s'"
    by (rule user_op [OF ok i(2), of "RemoveById fid" ?g ?W, OF F])
  have "(case map_option ?g (ring_of s uid) of None \<Rightarrow> [] | Some l \<Rightarrow> l) = ids (filter (\<lambda>e. news_at s fid (feed_of e)) (listed s uid))"
    by (cases "ring_of s uid") (simp_all add: listed_def news_def ids_def)
  moreover have "map_option ?W (ring_of s uid) = map_option (filter (\<lambda>e. \<not> news_at s fid (feed_of e))) (news s uid)"
    by (cases "ring_of s uid") (simp_all add: news_def)
  ultimately show ?thesis using that [of "cache_removes uid (ids (filter (\<lambda>e. news_at s fid (feed_of e)) (listed s uid))) s'"] s' i(1)
    by (simp add: SetReadById_def cache_removes_def)
qed

lemma SetReadAll_ok:
  assumes ok: "server_ok H s" and i: "0 \<le> uid" "user_index uid \<noteq> None"
  obtains s' where "SetReadAll uid s = Some s'" "server_ok H s'" "n_edm s' = n_edm s" "n_calls s' = n_calls s @ [CacheRemoveAll uid]"
    "news s' = (news s)(uid := map_option (\<lambda>_. []) (news s uid))"
proof -
  let ?f = "\<lambda>(p, r). Some ((), p, RemoveAll r)"
  have F: "\<exists>p' r'. ?f (n_pool s, r) = Some ((), p', r') \<and> ring_ok E (p', r') \<and>
      held_kept E (n_pool s, r) (p', r') \<and> window (p', r') = []" if E: "ring_ok E (n_pool s, r)" for r E
    using RemoveAll_ok [OF E] by (simp add: held_kept_def)
  obtain s' where s': "with_user uid ?f s = Some (map_option (\<lambda>_. ()) (ring_of s uid), s')" "server_ok H s'" "n_edm s' = n_edm s"
      "n_calls s' = n_calls s" "news s' = (news s)(uid := map_option (\<lambda>_. []) (ring_of s uid))" "held_same H s s'"
    by (rule user_op [OF ok i(2), of ?f "\<lambda>_. ()" "\<lambda>_. []", OF F])
  have "map_option (\<lambda>_. [] :: entry list) (ring_of s uid) = map_option (\<lambda>_. []) (news s uid)" by (cases "ring_of s uid") (simp_all add: news_def)
  then show ?thesis using that [of "s'\<lparr>n_calls := n_calls s' @ [CacheRemoveAll uid]\<rparr>"] s' i(1) by (simp add: SetReadAll_def)
qed

lemma GetOriginalFeedData_ok:
  assumes ok: "server_ok H s" and i: "0 \<le> uid" "user_index uid \<noteq> None"
  obtains s' where "GetOriginalFeedData uid s = Some (map item_of (listed s uid), s')" "server_ok H s'" "n_edm s' = n_edm s"
    "n_calls s' = n_calls s" "news s' = news s"
proof -
  let ?f = "\<lambda>ring. do { items \<leftarrow> GetFeedItem ring; Some (items, ring) }"
  let ?g = "\<lambda>r. map item_of (window (n_pool s, r))" and ?W = "\<lambda>r. window (n_pool s, r)"
  have F: "\<exists>p' r'. ?f (n_pool s, r) = Some (?g r, p', r') \<and> ring_ok E (p', r') \<and>
      held_kept E (n_pool s, r) (p', r') \<and> window (p', r') = ?W r" if E: "ring_ok E (n_pool s, r)" for r E
    using GetFeedItem_ok [OF E] E by simp
  obtain s' where s': "with_user uid ?f s = Some (map_option ?g (ring_of s uid), s')" "server_ok H s'" "n_edm s' = n_edm s"
      "n_calls s' = n_calls s" "news s' = (news s)(uid := map_option ?W (ring_of s uid))" "held_same H s s'"
    by (rule user_op [OF ok i(2), of ?f ?g ?W, OF F])
  have "(case map_option ?g (ring_of s uid) of None \<Rightarrow> [] | Some items \<Rightarrow> items) = map item_of (listed s uid)"
    by (cases "ring_of s uid") (simp_all add: listed_def news_def)
  moreover have "news s' = news s" using s'(5) by (auto simp: news_def fun_eq_iff)
  ultimately show ?thesis using that [of s'] s' i(1) by (simp add: GetOriginalFeedData_def)
qed

end
