(* ===== verification/NewsBuildInv.thy ===== *)
theory NewsBuildInv
  imports NewsRows NewsRequests
begin

text \<open>
  Building pages keeps the server well formed: the request holds the feeds of its page while it removes feeds from the ring, and gives
  them up at the end. What leaves the ring is what the feed cache is told to remove.
\<close>

section \<open>Handles of a page\<close>

definition page_ms :: "gathered list \<Rightarrow> int multiset" where
  "page_ms page = sum_list (map opt_ms (concat (concat page)))"

lemma page_ms_simps [simp]: "page_ms [] = {#}" "page_ms (a @ b) = page_ms a + page_ms b"
  by (simp_all add: page_ms_def)

lemma in_page_ms: "i \<in># page_ms page \<longleftrightarrow> Some i \<in> set (concat (concat page))"
proof -
  have "i \<in># sum_list (map opt_ms hs) \<longleftrightarrow> Some i \<in> set hs" for hs
    by (induction hs) (auto simp: opt_ms_def split: option.split)
  then show ?thesis by (simp add: page_ms_def)
qed

text \<open>A page with handles that are not null.\<close>

definition solid :: "int multiset \<Rightarrow> gathered list \<Rightarrow> bool" where
  "solid H page \<longleftrightarrow> (\<forall>h \<in> set (concat (concat page)). \<exists>i. h = Some i \<and> i \<in># H)"

lemma solid_simps: "solid H []" "solid H (a @ b) \<longleftrightarrow> solid H a \<and> solid H b" "solid H (row # page) \<longleftrightarrow> solid H [row] \<and> solid H page"
  by (auto simp: solid_def)

lemma solid_mono: "solid H page \<Longrightarrow> set b \<subseteq> set page \<Longrightarrow> solid H b"
  by (auto simp: solid_def)

lemma solid_pick:
  assumes "solid H page" "hs \<in> set page" "snd ` set chosen \<subseteq> set hs"
  shows "solid H (map (\<lambda>(_, h). [h]) chosen)"
proof -
  have "concat (concat (map (\<lambda>(_, h). [h]) chosen)) = concat (map snd chosen)" by (induction chosen) auto
  moreover have "h \<in> set (concat (concat page))" if "h \<in> set (concat (map snd chosen))" for h using assms(2,3) that by auto
  ultimately show ?thesis using assms(1) unfolding solid_def by metis
qed

lemma solid_held: "\<forall>h \<in> set (concat (concat page)). h \<noteq> None \<Longrightarrow> solid (page_ms page + H) page"
  unfolding solid_def using in_page_ms [of _ page] by (auto simp del: set_concat)

text \<open>The pool changes, but not the feeds that the rings refer to.\<close>

lemma server_pool:
  assumes ok: "server_ok H s" and c: "counted (handles_ms (users_ms s) + H') p" and d: "\<And>j. j \<in># handles_ms (users_ms s) \<Longrightarrow> data p j = data (n_pool s) j"
  shows "server_ok H' (s\<lparr>n_pool := p\<rparr>)" "news (s\<lparr>n_pool := p\<rparr>) = news s"
proof -
  have w: "ring_wf (p, q)" "window (p, q) = window (n_pool s, q)" if u: "(v, q) \<in># users_ms s" for v q
  proof -
    have q: "ring_wf (n_pool s, q)" using ok u by (auto simp: server_ok_def)
    have "data p j = data (n_pool s) j" if "j \<in># handles q" for j using d handles_in [OF u, of j] that by simp
    then show "ring_wf (p, q)" "window (p, q) = window (n_pool s, q)" using ring_wf_pool [OF q] by blast+
  qed
  show "server_ok H' (s\<lparr>n_pool := p\<rparr>)" using ok c w(1) by (auto simp: server_ok_def)
  show "news (s\<lparr>n_pool := p\<rparr>) = news s" using w(2) [OF ring_in_users] by (auto simp: news_def fun_eq_iff intro!: map_option_cong)
qed

lemma fold_hold:
  "counted H p \<Longrightarrow> \<forall>h \<in> set hs. set_mset (opt_ms h) \<subseteq> set_mset H \<Longrightarrow>
     counted (sum_list (map opt_ms hs) + H) (fold hold hs p) \<and> data (fold hold hs p) = data p"
proof (induction hs arbitrary: H p)
  case (Cons h hs)
  have c: "counted (opt_ms h + H) (hold h p)" by (rule hold_counted [OF Cons.prems(1)]) (use Cons.prems(2) in simp)
  have "counted (sum_list (map opt_ms hs) + (opt_ms h + H)) (fold hold hs (hold h p)) \<and> data (fold hold hs (hold h p)) = data (hold h p)"
    by (rule Cons.IH [OF c]) (use Cons.prems(2) in auto)
  then show ?case by (simp add: ac_simps)
qed simp

lemma fold_drop:
  "counted (sum_list (map opt_ms hs) + H) p \<Longrightarrow>
     counted H (fold drop_handle hs p) \<and> (\<forall>j. j \<in># H \<longrightarrow> data (fold drop_handle hs p) j = data p j)"
proof (induction hs arbitrary: p)
  case (Cons h hs)
  then have c: "counted (opt_ms h + (sum_list (map opt_ms hs) + H)) p" by (simp add: ac_simps)
  show ?case using Cons.IH [OF drop_counted [OF c]] drop_data [OF c] by simp
qed simp

lemma hold_page_ok:
  assumes ok: "server_ok H s" and p: "solid (handles_ms (users_ms s)) page"
  shows "server_ok (page_ms page + H) (hold_page page s)" "news (hold_page page s) = news s"
proof -
  have "counted (handles_ms (users_ms s) + H) (n_pool s)" using ok by (simp add: server_ok_def)
  moreover have "\<forall>h \<in> set (concat (concat page)). set_mset (opt_ms h) \<subseteq> set_mset (handles_ms (users_ms s) + H)"
    using p unfolding solid_def by (auto simp del: set_concat)
  ultimately have f: "counted (page_ms page + (handles_ms (users_ms s) + H)) (fold hold (concat (concat page)) (n_pool s))"
    "data (fold hold (concat (concat page)) (n_pool s)) = data (n_pool s)"
    using fold_hold [of "handles_ms (users_ms s) + H" "n_pool s" "concat (concat page)"] by (simp_all only: page_ms_def)
  have c: "counted (handles_ms (users_ms s) + (page_ms page + H)) (fold hold (concat (concat page)) (n_pool s))"
    using f(1) by (simp add: ac_simps)
  show "server_ok (page_ms page + H) (hold_page page s)" "news (hold_page page s) = news s"
    unfolding hold_page_def using server_pool [OF ok c] f(2) by simp_all
qed

lemma drop_page_ok:
  assumes ok: "server_ok (page_ms page + H) s"
  shows "server_ok H (drop_page page s)" "news (drop_page page s) = news s"
proof -
  have "counted (page_ms page + (handles_ms (users_ms s) + H)) (n_pool s)" using ok by (simp add: server_ok_def ac_simps)
  then have f: "counted (handles_ms (users_ms s) + H) (fold drop_handle (concat (concat page)) (n_pool s))"
    "\<And>j. j \<in># handles_ms (users_ms s) \<Longrightarrow> data (fold drop_handle (concat (concat page)) (n_pool s)) j = data (n_pool s) j"
    using fold_drop [of "concat (concat page)" "handles_ms (users_ms s) + H" "n_pool s"] by (auto simp: page_ms_def)
  show "server_ok H (drop_page page s)" "news (drop_page page s) = news s"
    unfolding drop_page_def using server_pool [OF ok f] by simp_all
qed

lemma page_fields [simp]: "n_calls (hold_page page s) = n_calls s" "n_calls (drop_page page s) = n_calls s"
  "n_edm (hold_page page s) = n_edm s" "n_edm (drop_page page s) = n_edm s"
  by (simp_all add: hold_page_def drop_page_def)

text \<open>Handles that the request holds can be followed.\<close>

definition feed_at :: "FeedPool \<Rightarrow> int option \<Rightarrow> Feed" where
  "feed_at p h = the (p (the h))"

lemma those_some: "\<forall>x \<in> set xs. f x = Some (g x) \<Longrightarrow> those (map f xs) = Some (map g xs)"
  by (induction xs) simp_all

lemma deref_ok:
  assumes ok: "server_ok H s" and p: "solid H page"
  shows "deref_page (n_pool s) page = Some (map (map (map (feed_at (n_pool s)))) page)"
    "h \<in> set (concat (concat page)) \<Longrightarrow> Some (f_id (feed_at (n_pool s) h)) = h"
proof -
  have c: "counted (handles_ms (users_ms s) + H) (n_pool s)" using ok by (simp add: server_ok_def)
  have h: "deref_handle (n_pool s) h = Some (feed_at (n_pool s) h) \<and> Some (f_id (feed_at (n_pool s) h)) = h" if m: "h \<in> set (concat (concat page))" for h
  proof -
    obtain i where "h = Some i" "i \<in># H" using p m by (auto simp: solid_def simp del: set_concat)
    then show ?thesis using counted_found [OF c, of i] by (auto simp: deref_handle_def feed_at_def)
  qed
  then show "h \<in> set (concat (concat page)) \<Longrightarrow> Some (f_id (feed_at (n_pool s) h)) = h" by blast
  have "deref_row (n_pool s) row = Some (map (map (feed_at (n_pool s))) row)" if r: "row \<in> set page" for row
    unfolding deref_row_def
  proof (rule those_some, intro ballI)
    show "those (map (deref_handle (n_pool s)) g) = Some (map (feed_at (n_pool s)) g)" if "g \<in> set row" for g
      by (rule those_some) (use h r that in auto)
  qed
  then show "deref_page (n_pool s) page = Some (map (map (map (feed_at (n_pool s)))) page)"
    unfolding deref_page_def by (intro those_some) blast
qed

lemma deref_row_ok:
  assumes "server_ok H s" "solid H [row]"
  shows "deref_row (n_pool s) row = Some (map (map (feed_at (n_pool s))) row)"
  using deref_ok(1) [OF assms] by (cases "deref_row (n_pool s) row") (simp_all add: deref_page_def)

section \<open>What a page removes\<close>

definition listed_feeds :: "News \<Rightarrow> int \<Rightarrow> Feed list option" where
  "listed_feeds s v = map_option (map feed_of) (news s v)"

definition removals :: "int \<Rightarrow> CacheCall list \<Rightarrow> int list" where
  "removals uid calls = concat (map (\<lambda>c. case c of CacheRemove v i \<Rightarrow> if v = uid then [i] else [] | _ \<Rightarrow> []) calls)"

lemma removals_simps [simp]: "removals uid [] = []" "removals uid (a @ b) = removals uid a @ removals uid b"
  "removals v (map (CacheRemove uid) fids) = (if v = uid then fids else [])" "removals uid [LoadFeedSeq fids] = []"
  by (simp_all add: removals_def comp_def)

text \<open>
  The ring of the user loses the feeds with the ids \<open>fids\<close>, and the feed cache is told the same ids; nothing else changes but flags
  of the user's entries.
\<close>

definition purged :: "int \<Rightarrow> int list \<Rightarrow> News \<Rightarrow> News \<Rightarrow> bool" where
  "purged uid fids s s' \<longleftrightarrow>
     (\<forall>v. listed_feeds s' v = (if v = uid then map_option (filter (\<lambda>f. f_id f \<notin> set fids)) (listed_feeds s v) else listed_feeds s v)) \<and>
     (\<exists>calls. n_calls s' = n_calls s @ calls \<and> (\<forall>v. removals v calls = (if v = uid then fids else [])))"

lemma purged_same: "news s' = news s \<Longrightarrow> n_calls s' = n_calls s \<Longrightarrow> purged uid [] s s'"
  by (cases "news s uid") (simp_all add: purged_def listed_feeds_def)

lemma purged_refl [simp]: "purged uid [] s s"
  by (rule purged_same) simp_all

lemma purged_trans: "purged uid a s t \<Longrightarrow> purged uid b t u \<Longrightarrow> purged uid (a @ b) s u"
  unfolding purged_def by (auto simp: option.map_comp comp_def conj_commute)

lemma purged_left: "news t = news s \<Longrightarrow> n_calls t = n_calls s \<Longrightarrow> purged uid fids t u = purged uid fids s u"
  "news t = news u \<Longrightarrow> n_calls t = n_calls u \<Longrightarrow> purged uid fids s t = purged uid fids s u"
  by (simp_all add: purged_def listed_feeds_def)

lemma remove_feeds_ok:
  assumes ok: "server_ok H s" and i: "user_index uid \<noteq> None"
  obtains s' where "remove_feeds uid fids s = Some s'" "server_ok H s'" "n_edm s' = n_edm s" "purged uid fids s s'" "held_same H s s'"
proof (cases "fids = []")
  case True
  then show ?thesis using that [of s] ok by (simp add: remove_feeds_def)
next
  case False
  let ?f = "\<lambda>ring. do { ring \<leftarrow> RemoveExactly fids ring; Some ((), ring) }"
  let ?W = "\<lambda>r. filter (\<lambda>e. f_id (feed_of e) \<notin> set fids) (window (n_pool s, r))"
  have F: "\<exists>p' r'. ?f (n_pool s, r) = Some ((), p', r') \<and> ring_ok E (p', r') \<and>
      held_kept E (n_pool s, r) (p', r') \<and> window (p', r') = ?W r" if E: "ring_ok E (n_pool s, r)" for r E
  proof -
    obtain t where "RemoveExactly fids (n_pool s, r) = Some t" "ring_ok E t" "window t = ?W r" "held_kept E (n_pool s, r) t"
      by (rule RemoveExactly_ok [OF E])
    then show ?thesis by (cases t) simp
  qed
  obtain s' where s': "with_user uid ?f s = Some (map_option (\<lambda>_. ()) (ring_of s uid), s')" "server_ok H s'" "n_edm s' = n_edm s"
      "n_calls s' = n_calls s" "news s' = (news s)(uid := map_option ?W (ring_of s uid))" "held_same H s s'"
    by (rule user_op [OF ok i, of ?f "\<lambda>_. ()" ?W, OF F])
  have "listed_feeds s' v = (if v = uid then map_option (filter (\<lambda>f. f_id f \<notin> set fids)) (listed_feeds s v) else listed_feeds s v)" for v
    using s'(5) by (cases "ring_of s uid") (auto simp: listed_feeds_def news_def filter_map comp_def)
  then have "purged uid fids s (cache_removes uid fids s')"
    using s'(4) by (simp add: purged_def cache_removes_def listed_feeds_def)
  then show ?thesis using that [of "cache_removes uid fids s'"] s' False
    by (simp add: remove_feeds_def cache_removes_def held_same_def)
qed

text \<open>What a row with the feeds \<open>gs\<close> removes.\<close>

definition row_removes :: "int \<Rightarrow> FeedContentDict \<Rightarrow> Feed list list \<Rightarrow> int list" where
  "row_removes uid dict gs = (case build_row uid dict gs of None \<Rightarrow> [] | Some (_, fids, _) \<Rightarrow> fids)"

lemma held_same_trans: "held_same H s t \<Longrightarrow> held_same H t u \<Longrightarrow> held_same H s u"
  by (simp add: held_same_def)

lemma BuildAFeed_ok:
  assumes ok: "server_ok H s" and i: "user_index uid \<noteq> None" and p: "solid H [row]"
  obtains s' where "BuildAFeed uid row dict s =
      Some (map_option (\<lambda>(d, _, dict). (d, dict)) (build_row uid dict (map (map (feed_at (n_pool s))) row)), s')"
    "server_ok H s'" "n_edm s' = n_edm s" "purged uid (row_removes uid dict (map (map (feed_at (n_pool s))) row)) s s'" "held_same H s s'"
proof (cases "build_row uid dict (map (map (feed_at (n_pool s))) row)")
  case None
  then show ?thesis using that [of s] ok deref_row_ok [OF ok p] by (simp add: BuildAFeed_def row_removes_def)
next
  case (Some x)
  obtain d fids dict' where x: "x = (d, fids, dict')" by (cases x)
  obtain s' where "remove_feeds uid fids s = Some s'" "server_ok H s'" "n_edm s' = n_edm s" "purged uid fids s s'" "held_same H s s'"
    by (rule remove_feeds_ok [OF ok i])
  then show ?thesis using that [of s'] deref_row_ok [OF ok p] Some x by (simp add: BuildAFeed_def row_removes_def)
qed

text \<open>
  What may go when rows are built: feeds of the rows whose content is null, and comments. \<open>nulled\<close> are the ids for which the
  content service, or the loader, can answer null.
\<close>

definition may_go :: "FeedPool \<Rightarrow> int set \<Rightarrow> gathered list \<Rightarrow> int set" where
  "may_go p N page = {i. Some i \<in> set (concat (concat page)) \<and> (i \<in> N \<or> IsComment (SmallType (the (data p i))))}"

definition nulled :: "(int list \<Rightarrow> FeedContentDict option) \<Rightarrow> (int list \<Rightarrow> FeedContentDict option) \<Rightarrow> int set" where
  "nulled content loader = {i. \<exists>q d. (content q = Some d \<or> loader q = Some d) \<and> (i, None) \<in> set d}"

lemma may_go_mono: "N \<subseteq> N' \<Longrightarrow> set (concat (concat a)) \<subseteq> set (concat (concat b)) \<Longrightarrow> may_go p N a \<subseteq> may_go p N' b"
  unfolding may_go_def by blast

lemma concats_mono: "set a \<subseteq> set b \<Longrightarrow> set (concat (concat a)) \<subseteq> set (concat (concat b))"
  by auto

lemma may_go_held: "held_same H s t \<Longrightarrow> solid H page \<Longrightarrow> may_go (n_pool t) N page = may_go (n_pool s) N page"
  unfolding may_go_def held_same_def solid_def by (auto simp del: set_concat)

lemma row_removes_may_go:
  assumes ok: "server_ok H s" and p: "solid H [row]"
  shows "set (row_removes uid dict (map (map (feed_at (n_pool s))) row)) \<subseteq> may_go (n_pool s) (nulls dict) [row]"
proof
  fix i
  assume i: "i \<in> set (row_removes uid dict (map (map (feed_at (n_pool s))) row))"
  then obtain d fids dict' where b: "build_row uid dict (map (map (feed_at (n_pool s))) row) = Some (d, fids, dict')" "i \<in> set fids"
    unfolding row_removes_def by (cases "build_row uid dict (map (map (feed_at (n_pool s))) row)") auto
  then obtain f where f: "f \<in> set (concat (map (map (feed_at (n_pool s))) row))" "f_id f = i" "i \<in> nulls dict \<or> IsComment (SmallType f)"
    using build_row_ok(1) [OF b(1)] by blast
  then obtain h where h: "h \<in> set (concat row)" "f = feed_at (n_pool s) h" by auto
  then have e: "h = Some i" using deref_ok(2) [OF ok p, of h] f(2) by simp
  obtain j where j: "h = Some j" "j \<in># H" using p h(1) by (auto simp: solid_def simp del: set_concat)
  have "n_pool s i \<noteq> None" using counted_found [of "handles_ms (users_ms s) + H" "n_pool s" i] ok j e by (auto simp: server_ok_def)
  then have "SmallType (the (data (n_pool s) i)) = SmallType f" by (auto simp: data_def h(2) e feed_at_def)
  then show "i \<in> may_go (n_pool s) (nulls dict) [row]" using f(3) h(1) e by (simp add: may_go_def)
qed

lemma build_rows_ok:
  "server_ok H s \<Longrightarrow> user_index uid \<noteq> None \<Longrightarrow> solid H rows \<Longrightarrow>
     \<exists>built s' fids. build_rows uid rows dict s = Some (built, s') \<and> server_ok H s' \<and> n_edm s' = n_edm s \<and> purged uid fids s s' \<and> held_same H s s' \<and>
       set fids \<subseteq> may_go (n_pool s) (nulls dict) rows"
proof (induction rows arbitrary: dict s)
  case Nil
  then show ?case by (auto intro: exI [of _ "[]"])
next
  case (Cons row rows)
  have p: "solid H [row]" "solid H rows" using Cons.prems(3) solid_simps(3) by blast+
  obtain s1 where s1: "BuildAFeed uid row dict s =
      Some (map_option (\<lambda>(d, _, dict). (d, dict)) (build_row uid dict (map (map (feed_at (n_pool s))) row)), s1)"
    "server_ok H s1" "n_edm s1 = n_edm s" "purged uid (row_removes uid dict (map (map (feed_at (n_pool s))) row)) s s1" "held_same H s s1"
    by (rule BuildAFeed_ok [OF Cons.prems(1,2) p(1)])
  have g1: "set (row_removes uid dict (map (map (feed_at (n_pool s))) row)) \<subseteq> may_go (n_pool s) (nulls dict) (row # rows)"
    using row_removes_may_go [OF Cons.prems(1) p(1), of uid dict] by (auto simp: may_go_def)
  show ?case
  proof (cases "build_row uid dict (map (map (feed_at (n_pool s))) row)")
    case None
    then show ?thesis using s1 g1 by (intro exI [of _ None] exI [of _ s1] exI) (auto intro!: exI)
  next
    case (Some x)
    obtain d fids dict' where x: "x = (d, fids, dict')" by (cases x)
    obtain built s' fids' where t: "build_rows uid rows dict' s1 = Some (built, s')" "server_ok H s'" "n_edm s' = n_edm s1" "purged uid fids' s1 s'" "held_same H s1 s'"
      "set fids' \<subseteq> may_go (n_pool s1) (nulls dict') rows"
      using Cons.IH [OF s1(2) Cons.prems(2) p(2)] by blast
    have "may_go (n_pool s1) (nulls dict') rows \<subseteq> may_go (n_pool s) (nulls dict) (row # rows)"
      using build_row_ok(4) [OF Some [unfolded x]] may_go_held [OF s1(5) p(2)] by (auto simp: may_go_def)
    then have "set (row_removes uid dict (map (map (feed_at (n_pool s))) row) @ fids') \<subseteq> may_go (n_pool s) (nulls dict) (row # rows)"
      using g1 t(6) by auto
    moreover have "n_edm s' = n_edm s" using t(3) s1(3) by simp
    moreover have "build_rows uid (row # rows) dict s = Some (map_option (\<lambda>(ds, dict). (d # ds, dict)) built, s')" using s1(1) Some x t(1) by simp
    ultimately show ?thesis using t(2) purged_trans [OF s1(4) t(4)] held_same_trans [OF s1(5) t(5)] by blast
  qed
qed

section \<open>Pages\<close>

lemma rows_loop_set: "set (rows_loop i lo hi rows) \<subseteq> set rows"
  by (induction i lo hi rows rule: rows_loop.induct) auto

lemma page_rows_set: "set (page_rows page bgn limit random k) \<subseteq> set (page @ random)"
proof -
  have "set (rows_loop k bgn h (drop (nat k) page)) \<subseteq> set page" for h
    using rows_loop_set set_drop_subset by (rule subset_trans)
  then show ?thesis unfolding page_rows_def Let_def set_append using set_take_subset [of "nat k" page] by blast
qed

lemma CheckLoad_state: "CheckLoad loader fids dict s = (dict', s') \<Longrightarrow> s' = s \<or> s' = s\<lparr>n_calls := n_calls s @ [LoadFeedSeq (filter (\<lambda>i. m_find dict i = None) fids)]\<rparr>"
  by (auto simp: CheckLoad_def Let_def split: if_splits option.splits)

lemma insert_all_set: "set (insert_all dict new) \<subseteq> set dict \<union> set new"
proof (induction new arbitrary: dict)
  case (Cons e new)
  have p: "set (m_put k v m) \<subseteq> insert (k, v) (set m)" for k v and m :: FeedContentDict
    by (induction k v m rule: m_put.induct) auto
  show ?case using Cons [of "m_put (fst e) (snd e) dict"] Cons [of dict] p [of "fst e" "snd e" dict]
    by (auto simp: insert_all_def)
qed (simp add: insert_all_def)

lemma CheckLoad_nulls:
  assumes "content q = Some dict"
  shows "nulls dict \<subseteq> nulled content loader" "CheckLoad loader fids dict s = (dict', s') \<Longrightarrow> nulls dict' \<subseteq> nulled content loader"
proof -
  have n: "i \<in> nulls d \<Longrightarrow> (i, None) \<in> set d" for i d by (simp add: nulls_def m_find_def map_of_SomeD)
  have c: "(i, None) \<in> set dict \<Longrightarrow> i \<in> nulled content loader" for i using assms unfolding nulled_def by blast
  show "nulls dict \<subseteq> nulled content loader" using n c by blast
  assume l: "CheckLoad loader fids dict s = (dict', s')"
  then consider "dict' = dict" | d q where "loader q = Some d" "dict' = insert_all dict d"
    by (auto simp: CheckLoad_def Let_def split: if_splits option.splits)
  then show "nulls dict' \<subseteq> nulled content loader"
  proof cases
    case 1
    then show ?thesis using n c by blast
  next
    case 2
    then have "(i, None) \<in> set d \<Longrightarrow> i \<in> nulled content loader" for i unfolding nulled_def by blast
    then show ?thesis using n c insert_all_set [of dict d] 2(2) by blast
  qed
qed

lemma BuildBasicFeedData_ok:
  assumes ok: "server_ok H s" and i: "user_index uid \<noteq> None" and p: "solid H (page @ random)"
  shows "\<exists>seq s' fids. BuildBasicFeedData content loader uid page bgn limit random edm_count s = Some (seq, s') \<and>
    server_ok H s' \<and> purged uid fids s s' \<and> held_same H s s' \<and>
    set fids \<subseteq> may_go (n_pool s) (nulled content loader) (page @ random)"
proof -
  let ?shown = "random @ rows_loop 0 bgn (to_int32 (bgn + limit)) page" and ?rows = "page_rows page bgn limit random \<bar>edm_count\<bar>"
  have sub: "solid H ?shown" "solid H ?rows"
    by (rule solid_mono [OF p], use rows_loop_set [of 0 bgn "to_int32 (bgn + limit)" page] page_rows_set in fastforce)+
  obtain fs where d: "deref_page (n_pool s) ?shown = Some fs" using deref_ok(1) [OF ok sub(1)] by blast
  define fids where "fids = map f_id (concat (concat fs))"
  show ?thesis
  proof (cases "content fids")
    case None
    then show ?thesis using d ok by (intro exI [of _ "Some []"] exI [of _ s] exI [of _ "[]"]) (simp add: BuildBasicFeedData_def fids_def)
  next
    case (Some fdict)
    obtain fdict' t where t: "(if length fdict < length fids then CheckLoad loader fids fdict s else (fdict, s)) = (fdict', t)" by fastforce
    have "CheckLoad loader fids fdict s = (fdict', t) \<or> fdict' = fdict" using t by (auto split: if_splits)
    then have nl: "nulls fdict' \<subseteq> nulled content loader" using CheckLoad_nulls [where content = content and q = fids, OF Some] by blast
    from t have t': "t = s \<or> (\<exists>l. t = s\<lparr>n_calls := n_calls s @ [LoadFeedSeq l]\<rparr>)" using CheckLoad_state by (fastforce split: if_splits)
    define u where "u = (if edm_count < 0 then t\<lparr>n_edm := removeUser uid (n_edm t)\<rparr> else t)"
    have u: "server_ok H u" "news u = news s" "n_pool u = n_pool s" "\<exists>c. n_calls u = n_calls s @ c \<and> (\<forall>v. removals v c = [])"
      using ok t' by (auto simp: u_def intro: exI [of _ "[]"])
    then have pu: "purged uid [] s u" by (cases "news s uid") (simp_all add: purged_def listed_feeds_def)
    obtain built s' gone where b: "build_rows uid ?rows fdict' u = Some (built, s')" "server_ok H s'" "purged uid gone u s'" "held_same H u s'"
      "set gone \<subseteq> may_go (n_pool u) (nulls fdict') ?rows"
      using build_rows_ok [OF u(1) i sub(2)] by blast
    have "may_go (n_pool s) (nulls fdict') ?rows \<subseteq> may_go (n_pool s) (nulled content loader) (page @ random)"
      by (rule may_go_mono [OF nl concats_mono [OF page_rows_set]])
    then have gone: "set ([] @ gone) \<subseteq> may_go (n_pool s) (nulled content loader) (page @ random)" using b(5) u(3) by simp
    have "BuildBasicFeedData content loader uid page bgn limit random edm_count s =
        Some (map_option (\<lambda>(ds, fdict). map (data_at fdict) (List.map_filter id ds)) built, s')"
      using d Some t b(1) by (simp add: BuildBasicFeedData_def fids_def [symmetric] u_def [symmetric] Let_def split del: if_split cong: if_cong)
    moreover have "purged uid ([] @ gone) s s'" by (rule purged_trans [OF pu b(3)])
    moreover have "held_same H s s'" using b(4) u(3) by (simp add: held_same_def)
    ultimately show ?thesis using b(2) gone by blast
  qed
qed

lemma find_page_ok:
  assumes "ring_ok E (p, r)"
  obtains page random unviewed edm r' where "find_page env types stype bgn limit hot (p, r) = Some ((page, random, unviewed, edm), p, r')"
    "same_slots r r'" "from_ring p r page" "from_ring p r random"
proof (cases "types = []")
  case True
  obtain page1 random n k' r' where "GetGatheredFeed (e_weigh env) (e_now env) bgn limit hot 0 (p, r) = Some (page1, random, n, k', p, r')"
    "same_slots r r'" "from_ring p r page1" "from_ring p r random" by (rule GetGatheredFeed_any [OF assms])
  then show ?thesis using that [of page1 random n k' r'] True by (simp add: find_page_def)
next
  case False
  have w: "\<And>f. (BigType (core f) \<in> set types) = (BigType f \<in> set types)" "\<And>f. (SmallType (core f) \<in> set types) = (SmallType f \<in> set types)"
    by (simp_all add: BigType_core)
  have e: "from_ring p r []" by (simp add: from_ring_def)
  obtain page1 r1 where a: "get_by (\<lambda>f. SmallType f \<in> set types) (e_weigh env) (e_now env) bgn hot (p, r) = Some (page1, p, r1)"
    "same_slots r r1" "from_ring p r page1" by (rule get_by_any [where wanted = "\<lambda>f. SmallType f \<in> set types", OF assms w(2)])
  obtain page' r2 where b: "get_by (\<lambda>f. BigType f \<in> set types) (e_weigh env) (e_now env) bgn hot (p, r) = Some (page', p, r2)"
    "same_slots r r2" "from_ring p r page'" by (rule get_by_any [where wanted = "\<lambda>f. BigType f \<in> set types", OF assms w(1)])
  show ?thesis
    using that [of page1 "[]" 0 0 r1] that [of page' "[]" 0 0 r2] a b e False
    by (cases stype) (simp_all add: find_page_def GetFeedByType_def GetFeedByStype_def)
qed

text \<open>The handles of a page are those of slots.\<close>

lemma from_ring_solid:
  assumes "ring_ok E (p, r)" "from_ring p r page"
  shows "solid (handles r) page"
proof -
  have "\<exists>i. h = Some i \<and> i \<in># handles r" if h: "h \<in> set (concat (concat page))" for h
  proof -
    obtain e where e: "e \<in> set (window (p, r))" "h = Some (f_id (feed_of e))"
      using assms(2) h unfolding from_ring_def ids_of_def set_map by blast
    then obtain k where k: "k \<in> set (positions r)" "e = entry_at p r k" using positions_ok(1) [OF assms(1)] by auto
    have "l_feed (slot r k) = Some (f_id (feed_of e))" using slot_id [OF assms(1) k(1)] k(2) by simp
    moreover have "nat k < length (lf_feeds r)" using positions_ok(3) [OF assms(1)] k(1) by blast
    ultimately show ?thesis using e(2) handle_in_slot [of "nat k" r] by (simp add: slot_def)
  qed
  then show ?thesis unfolding solid_def by blast
qed

lemma from_ring_handles: "ring_of s uid = Some r \<Longrightarrow> solid (handles r) page \<Longrightarrow> solid (handles_ms (users_ms s)) page"
  unfolding solid_def using handles_in [OF ring_in_users] by (metis snd_conv)

lemma ensure_loaded_ok:
  assumes ok: "server_ok H s" and i: "user_index uid = Some i"
  obtains s' where "ensure_loaded env uid s = Some s'" "server_ok H s'" "n_calls s' = n_calls s" "n_edm s' = n_edm s"
    "news s uid \<noteq> None \<or> e_cache env uid = None \<longrightarrow> s' = s"
    "\<And>v. v \<noteq> uid \<Longrightarrow> news s' v = news s v \<or> news s' v = None \<and> crowded_out i s = Some v"
proof -
  obtain s1 where l: "LoadFeed (e_cache env) uid s = Some (e_cache env uid \<noteq> None, s1)" "server_ok H s1" "n_edm s1 = n_edm s" "n_calls s1 = n_calls s"
    "e_cache env uid = None \<or> news s uid \<noteq> None \<longrightarrow> s1 = s"
    "\<forall>items. e_cache env uid = Some items \<longrightarrow> news s uid = None \<longrightarrow> (\<exists>W. news s1 = (case crowded_out i s of None \<Rightarrow> news s | Some v \<Rightarrow> (news s)(v := None))(uid \<mapsto> W) \<and>
       (length (getEDMFeed uid (n_edm s)) + length items \<le> 250 \<longrightarrow> ids W = rev (map it_feed (getEDMFeed uid (n_edm s))) @ map it_feed items))"
    by (rule LoadFeed_ok [OF ok i, of "e_cache env"])
  have gu: "fst (GetUserFeed uid False (n_users s i)) \<noteq> None \<longleftrightarrow> news s uid \<noteq> None"
    using i by (simp add: GetUserFeed_def news_def ring_of_def split: option.split)
  have e: "ensure_loaded env uid s = Some s1" using l(1,5) gu i by (simp add: ensure_loaded_def)
  have "news s1 v = news s v \<or> news s1 v = None \<and> crowded_out i s = Some v" if "v \<noteq> uid" for v
    using l(5,6) that by (cases "e_cache env uid"; cases "news s uid"; cases "crowded_out i s") (auto split: if_splits)
  then show ?thesis using that [OF e l(2) l(4) l(3)] l(5) by blast
qed

text \<open>The feeds \<open>fs\<close> of a user that may go: those whose content is null, and comments.\<close>

definition rightly_gone :: "int set \<Rightarrow> Feed list \<Rightarrow> int set" where
  "rightly_gone N fs = {i. \<exists>f \<in> set fs. f_id f = i \<and> (i \<in> N \<or> IsComment (SmallType f))}"

lemma from_ring_gone:
  assumes "ring_ok E (p, r)" "from_ring p r page"
  shows "may_go p N page \<subseteq> rightly_gone N (map feed_of (window (p, r)))"
proof
  fix i
  assume i: "i \<in> may_go p N page"
  then have "Some i \<in> set (ids_of (window (p, r)))" using assms(2) unfolding from_ring_def may_go_def by blast
  then obtain k where k: "k \<in> set (positions r)" "f_id (feed_of (entry_at p r k)) = i"
    using positions_ok(1) [OF assms(1)] by (auto simp: ids_of_def)
  have "l_feed (slot r k) = Some i" using slot_id [OF assms(1) k(1)] k(2) by simp
  moreover obtain f where "deref p (slot r k) = Some f" using positions_ok(3) [OF assms(1)] k(1) by auto
  ultimately have "feed_of (entry_at p r k) = the (data p i)"
    by (simp add: entry_at_def feed_of_def seen_def deref_def data_def)
  then have "i \<in> N \<or> IsComment (SmallType (feed_of (entry_at p r k)))" using i by (simp add: may_go_def)
  then show "i \<in> rightly_gone N (map feed_of (window (p, r)))" unfolding rightly_gone_def positions_ok(1) [OF assms(1)] using k by auto
qed

text \<open>A request finds a page of a ring in memory and holds its feeds.\<close>

lemma found_page:
  assumes ok: "server_ok H s" and i: "user_index uid \<noteq> None"
  obtains page random unviewed edm t where
    "with_user uid (find_page env types stype bgn limit hot) s =
       Some (if news s uid = None then None else Some (page, random, unviewed, edm), t)"
    "server_ok H t" "n_calls t = n_calls s" "\<forall>v. listed_feeds t v = listed_feeds s v"
    "solid (handles_ms (users_ms t)) (page @ random)" "news s uid = None \<longrightarrow> page = [] \<and> random = [] \<and> unviewed = 0 \<and> edm = 0"
    "may_go (n_pool t) N (page @ random) \<subseteq> rightly_gone N (case listed_feeds s uid of None \<Rightarrow> [] | Some fs \<Rightarrow> fs)"
proof (cases "ring_of s uid")
  case None
  then have "news s uid = None" by (simp add: news_def)
  then show ?thesis using that [of "[]" "[]" 0 0 s] with_user_none [OF i None, of "find_page env types stype bgn limit hot"] ok
    by (simp add: solid_simps may_go_def)
next
  case (Some r)
  let ?p = "n_pool s"
  obtain k where "user_index uid = Some k" "map_of (n_users s k) uid = Some r" using Some by (auto simp: ring_of_def Option.bind_eq_Some_conv)
  then obtain R where R: "ring_ok R (?p, r)" using user_found [OF ok] by blast
  obtain page random unviewed edm r' where g: "find_page env types stype bgn limit hot (?p, r) = Some ((page, random, unviewed, edm), ?p, r')"
    "same_slots r r'" "from_ring ?p r page" "from_ring ?p r random" by (rule find_page_ok [OF R])
  have f: "ring_ok E (?p, r') \<and> held_kept E (?p, r) (?p, r')" if "ring_ok E (?p, r)" for E
    using same_slots_ok [OF that g(2)] by (simp add: held_kept_def)
  obtain t where t: "with_user uid (find_page env types stype bgn limit hot) s = Some (Some (page, random, unviewed, edm), t)"
    "server_ok H t" "n_calls t = n_calls s" "news t = (news s)(uid \<mapsto> window (?p, r'))" "ring_of t = (ring_of s)(uid \<mapsto> r')" "n_pool t = ?p"
    using with_user_some [OF ok Some, of ?p r' "find_page env types stype bgn limit hot" "(page, random, unviewed, edm)"] f g(1) by blast
  have nw: "news s uid = Some (window (?p, r))" using Some by (simp add: news_def)
  have "map feed_of (window (?p, r')) = map feed_of (window (?p, r))" using same_slots_ok(2) [OF R g(2)] by (simp add: feeds_def)
  then have "listed_feeds t v = listed_feeds s v" for v using t(4) nw by (simp add: listed_feeds_def)
  moreover have "solid (handles r') (page @ random)"
    using from_ring_solid [OF R] g(3,4) same_slots_handles [OF g(2)] by (simp add: solid_simps)
  then have "solid (handles_ms (users_ms t)) (page @ random)" by (rule from_ring_handles [of t uid r', rotated]) (simp add: t(5))
  moreover have "may_go (n_pool t) N (page @ random) \<subseteq> rightly_gone N (map feed_of (window (?p, r)))"
    using from_ring_gone [OF R, of "page @ random" N] g(3,4) t(6) by (simp add: from_ring_def)
  ultimately show ?thesis using that [of page random unviewed edm t] t(1-3) nw by (simp add: listed_feeds_def)
qed

lemma solid_not_null: "solid H page \<Longrightarrow> solid (page_ms page + H') page"
  by (rule solid_held) (auto simp: solid_def simp del: set_concat)

abbreviation feeds_listed :: "News \<Rightarrow> int \<Rightarrow> Feed list" where
  "feeds_listed s uid \<equiv> case listed_feeds s uid of None \<Rightarrow> [] | Some fs \<Rightarrow> fs"

text \<open>The held page has the same feeds as the page.\<close>

lemma hold_page_may_go:
  assumes ok: "server_ok H s" and p: "solid (handles_ms (users_ms s)) page"
  shows "may_go (n_pool (hold_page page s)) N rows = may_go (n_pool s) N rows"
proof -
  have "counted (handles_ms (users_ms s) + H) (n_pool s)" using ok by (simp add: server_ok_def)
  moreover have "\<forall>h \<in> set (concat (concat page)). set_mset (opt_ms h) \<subseteq> set_mset (handles_ms (users_ms s) + H)"
    using p unfolding solid_def by (auto simp del: set_concat)
  ultimately have "data (n_pool (hold_page page s)) = data (n_pool s)"
    using fold_hold [of "handles_ms (users_ms s) + H" "n_pool s" "concat (concat page)"] by (simp add: hold_page_def del: set_concat)
  then show ?thesis by (simp add: may_go_def)
qed

lemma GetFeedDataImpl_ok:
  assumes ok: "server_ok H s" and i: "0 \<le> uid"
  shows "\<exists>t answer s' fids. ensure_loaded env uid s = Some t \<and> server_ok H s' \<and> purged uid fids t s' \<and>
    set fids \<subseteq> rightly_gone (nulled (e_content env) (e_loader env)) (feeds_listed t uid) \<and>
    (0 \<le> bgn \<longrightarrow> 0 \<le> limit \<longrightarrow> GetFeedDataImpl env uid types stype bgn limit hot s = Some (answer, s'))"
proof -
  obtain k where k: "user_index uid = Some k" using user_index_nonneg [OF i] by blast
  then have ui: "user_index uid \<noteq> None" by simp
  obtain t where t: "ensure_loaded env uid s = Some t" "server_ok H t" by (rule ensure_loaded_ok [OF ok k])
  obtain page random unviewed edm t1 where p: "with_user uid (find_page env types stype bgn limit hot) t =
       Some (if news t uid = None then None else Some (page, random, unviewed, edm), t1)"
    "server_ok H t1" "n_calls t1 = n_calls t" "\<forall>v. listed_feeds t1 v = listed_feeds t v"
    "solid (handles_ms (users_ms t1)) (page @ random)" "news t uid = None \<longrightarrow> page = [] \<and> random = [] \<and> unviewed = 0 \<and> edm = 0"
    "may_go (n_pool t1) (nulled (e_content env) (e_loader env)) (page @ random) \<subseteq> rightly_gone (nulled (e_content env) (e_loader env)) (feeds_listed t uid)"
    by (rule found_page [OF t(2) ui])
  have pt: "purged uid [] t t1" using p(3,4) by (cases "listed_feeds t uid") (simp_all add: purged_def)
  let ?found = "if news t uid = None then None else Some (page, random, unviewed, edm)"
  have c: "(case ?found of None \<Rightarrow> ([], [], 0, 0) | Some page \<Rightarrow> page) = (page, random, unviewed, edm)" using p(6) by simp
  show ?thesis
  proof (cases "page = []")
    case True
    have "GetFeedDataImpl env uid types stype bgn limit hot s = Some (Some (unviewed, []), t1)" if "0 \<le> bgn" "0 \<le> limit"
      using t(1) p(1) c True i that unfolding GetFeedDataImpl_def by simp
    then show ?thesis using t(1) p(2) pt by (intro exI [of _ t] exI [of _ "Some (unviewed, [])"] exI [of _ t1] exI [of _ "[]"]) simp
  next
    case False
    let ?H = "page_ms (page @ random) + H" and ?u = "hold_page (page @ random) t1"
    note h = hold_page_ok [OF p(2,5)]
    obtain seq s2 fids where b: "BuildBasicFeedData (e_content env) (e_loader env) uid page bgn limit random edm ?u = Some (seq, s2)"
      "server_ok ?H s2" "purged uid fids ?u s2"
      "set fids \<subseteq> may_go (n_pool ?u) (nulled (e_content env) (e_loader env)) (page @ random)"
      using BuildBasicFeedData_ok [OF h(1) ui solid_not_null [OF p(5)]] by blast
    note d = drop_page_ok [OF b(2)]
    have "purged uid fids t1 s2" using b(3) purged_left(1) [OF h(2)] by simp
    then have "purged uid fids t1 (drop_page (page @ random) s2)" using purged_left(2) [OF d(2)] by simp
    then have "purged uid ([] @ fids) t (drop_page (page @ random) s2)" by (rule purged_trans [OF pt])
    moreover have "GetFeedDataImpl env uid types stype bgn limit hot s =
        Some (map_option (Pair unviewed) seq, drop_page (page @ random) s2)" if "0 \<le> bgn" "0 \<le> limit"
      using t(1) p(1) c b(1) False i that unfolding GetFeedDataImpl_def by simp
    moreover have "set ([] @ fids) \<subseteq> rightly_gone (nulled (e_content env) (e_loader env)) (feeds_listed t uid)" using b(4) p(7) hold_page_may_go [OF p(2,5)] by auto
    ultimately show ?thesis using t(1) d(1) by blast
  qed
qed

lemma show_groups_ok:
  assumes ok: "server_ok H s" and i: "user_index uid \<noteq> None" and so: "solid H page"
  shows "\<exists>seq s' fids. show_groups env uid wanted first page s = Some (seq, s') \<and> server_ok H s' \<and> purged uid fids s s' \<and>
    set fids \<subseteq> may_go (n_pool s) (nulled (e_content env) (e_loader env)) page"
proof -
  obtain fs where fs: "deref_page (n_pool s) page = Some fs" using deref_ok(1) [OF ok so] by blast
  show ?thesis
  proof (cases "find (\<lambda>(row, _). \<exists>f \<in> set (concat row). f_id f \<in> set wanted) (zip fs page)")
    case None
    then show ?thesis using fs ok by (intro exI [of _ "Some []"] exI [of _ s] exI [of _ "[]"]) (simp add: show_groups_def)
  next
    case found: (Some x)
    obtain row hs where x: "x = (row, hs)" by (cases x)
    define chosen where "chosen = filter (\<lambda>(g, _). first \<notin> f_id ` set g) (zip row hs)"
    have "(row, hs) \<in> set (zip fs page)" using found x by (auto simp: find_Some_iff in_set_conv_nth)
    then have "hs \<in> set page" by (rule set_zip_rightD)
    moreover have "snd ` set chosen \<subseteq> set hs" by (auto simp: chosen_def dest: set_zip_rightD)
    ultimately have sub: "hs \<in> set page" "snd ` set chosen \<subseteq> set hs" by blast+
    then have "solid H (map (\<lambda>(_, h). [h]) chosen)" using solid_pick [OF so] by blast
    note B = build_rows_ok [OF ok i this]
    show ?thesis
    proof (cases "e_content env (map f_id (concat (map fst chosen)))")
      case None
      then show ?thesis using fs found x ok
        by (intro exI [of _ "Some []"] exI [of _ s] exI [of _ "[]"]) (simp add: show_groups_def chosen_def [symmetric] Let_def)
    next
      case (Some fdict)
      obtain built s' fids where b: "build_rows uid (map (\<lambda>(_, h). [h]) chosen) fdict s = Some (built, s')" "server_ok H s'" "purged uid fids s s'"
        "set fids \<subseteq> may_go (n_pool s) (nulls fdict) (map (\<lambda>(_, h). [h]) chosen)"
        using B [of fdict] by blast
      have "set (concat (concat (map (\<lambda>(_, h). [h]) chosen))) \<subseteq> set (concat (concat page))"
        using sub by fastforce
      then have "set fids \<subseteq> may_go (n_pool s) (nulled (e_content env) (e_loader env)) page"
        using b(4) may_go_mono [OF CheckLoad_nulls(1) [where content = "e_content env", OF Some]] by blast
      moreover have "show_groups env uid wanted first page s = Some (map_option (\<lambda>(ds, fdict). map (\<lambda>d. Option.bind d (data_at fdict)) ds) built, s')"
        using fs found x Some b(1) by (simp add: show_groups_def chosen_def [symmetric] Let_def)
      ultimately show ?thesis using b(2,3) by blast
    qed
  qed
qed

lemma GetFeedDataByIdsWithUid_ok:
  assumes ok: "server_ok H s" and i: "0 \<le> uid"
  shows "\<exists>t answer s' fids. ensure_loaded env uid s = Some t \<and> server_ok H s' \<and> purged uid fids t s' \<and>
    set fids \<subseteq> rightly_gone (nulled (e_content env) (e_loader env)) (feeds_listed t uid) \<and>
    (IsComment stype \<or> IsMain stype \<longrightarrow> GetFeedDataByIdsWithUid env uid wanted first stype s = Some (answer, s'))"
proof -
  obtain k where k: "user_index uid = Some k" using user_index_nonneg [OF i] by blast
  then have ui: "user_index uid \<noteq> None" by simp
  obtain t where t: "ensure_loaded env uid s = Some t" "server_ok H t" by (rule ensure_loaded_ok [OF ok k])
  obtain page random unviewed edm t1 where p: "with_user uid (find_page env [] True 0 250 True) t =
       Some (if news t uid = None then None else Some (page, random, unviewed, edm), t1)"
    "server_ok H t1" "n_calls t1 = n_calls t" "\<forall>v. listed_feeds t1 v = listed_feeds t v"
    "solid (handles_ms (users_ms t1)) (page @ random)" "news t uid = None \<longrightarrow> page = [] \<and> random = [] \<and> unviewed = 0 \<and> edm = 0"
    "may_go (n_pool t1) (nulled (e_content env) (e_loader env)) (page @ random) \<subseteq> rightly_gone (nulled (e_content env) (e_loader env)) (feeds_listed t uid)"
    by (rule found_page [OF t(2) ui])
  have pt: "purged uid [] t t1" using p(3,4) by (cases "listed_feeds t uid") (simp_all add: purged_def)
  have c: "(case if news t uid = None then None else Some (page, random, unviewed, edm) of None \<Rightarrow> [] | Some page \<Rightarrow> fst page) = page"
    using p(6) by simp
  let ?H = "page_ms page + H" and ?u = "hold_page page t1"
  have sp: "solid (handles_ms (users_ms t1)) page" using p(5) by (simp add: solid_simps)
  note h = hold_page_ok [OF p(2) sp]
  obtain seq s2 fids where b: "show_groups env uid wanted first page ?u = Some (seq, s2)" "server_ok ?H s2" "purged uid fids ?u s2"
    "set fids \<subseteq> may_go (n_pool ?u) (nulled (e_content env) (e_loader env)) page"
    using show_groups_ok [OF h(1) ui solid_not_null [OF sp]] by blast
  note d = drop_page_ok [OF b(2)]
  have "purged uid fids t1 s2" using b(3) purged_left(1) [OF h(2)] by simp
  then have "purged uid fids t1 (drop_page page s2)" using purged_left(2) [OF d(2)] by simp
  then have "purged uid ([] @ fids) t (drop_page page s2)" by (rule purged_trans [OF pt])
  moreover have "GetFeedDataByIdsWithUid env uid wanted first stype s = Some (seq, drop_page page s2)" if "IsComment stype \<or> IsMain stype"
  proof -
    have "(\<not> IsComment stype \<and> \<not> IsMain stype) = False" "(uid < 0) = False" using that i by auto
    then show ?thesis using t(1) p(1) c b(1) unfolding GetFeedDataByIdsWithUid_def Let_def by (simp only: if_False) (simp split del: if_split)
  qed
  moreover have "may_go (n_pool t1) (nulled (e_content env) (e_loader env)) page \<subseteq> may_go (n_pool t1) (nulled (e_content env) (e_loader env)) (page @ random)" by (rule may_go_mono) auto
  then have "set ([] @ fids) \<subseteq> rightly_gone (nulled (e_content env) (e_loader env)) (feeds_listed t uid)" using b(4) p(7) hold_page_may_go [OF p(2) sp] by auto
  ultimately show ?thesis using t(1) d(1) by blast
qed

end
