(* ===== verification/NewsTheorems.thy ===== *)
theory NewsTheorems
  imports NewsBuildInv
begin

text \<open>
  The news server as a machine of requests, and its properties: the invariant over every sequence of requests, what loading,
  adding and removing do to the lists of the users, and the exact contents of pages.
\<close>

section \<open>The machine\<close>

lemma GetUnviewedCount_ok:
  assumes ok: "server_ok H s" and i: "0 \<le> uid" "user_index uid \<noteq> None"
  obtains n s' where "GetUnviewedCount weigh now uid s = Some (n, s')" "server_ok H s'" "n_edm s' = n_edm s" "n_calls s' = n_calls s"
    "\<And>v. map_option (map feed_of) (news s' v) = map_option (map feed_of) (news s v)"
proof (cases "ring_of s uid")
  case None
  have "GetUnviewedCount weigh now uid s = Some (0, s)" using i(1) by (simp add: GetUnviewedCount_def with_user_none [OF i(2) None])
  then show ?thesis using that [of 0 s] ok by simp
next
  case (Some r)
  let ?f = "\<lambda>ring. do { (_, _, unviewed, _, ring) \<leftarrow> GetGatheredFeed weigh now 0 0 False 0 ring; Some (unviewed, ring) }"
  obtain k where "user_index uid = Some k" "map_of (n_users s k) uid = Some r" using Some by (auto simp: ring_of_def Option.bind_eq_Some_conv)
  then obtain R where R: "ring_ok R (n_pool s, r)" using user_found [OF ok] by blast
  obtain page random n k' r' where g: "GetGatheredFeed weigh now 0 0 False 0 (n_pool s, r) = Some (page, random, n, k', n_pool s, r')"
    "same_slots r r'" by (rule GetGatheredFeed_any [OF R])
  have f: "ring_ok E (n_pool s, r') \<and> held_kept E (n_pool s, r) (n_pool s, r')" if "ring_ok E (n_pool s, r)" for E
    using same_slots_ok [OF that g(2)] by (simp add: held_kept_def)
  obtain s' where s': "with_user uid ?f s = Some (Some n, s')" "server_ok H s'" "n_edm s' = n_edm s" "n_calls s' = n_calls s"
    "news s' = (news s)(uid \<mapsto> window (n_pool s, r'))"
    using with_user_some [OF ok Some, of "n_pool s" r' ?f n] f g(1) by auto
  have "map feed_of (window (n_pool s, r')) = map feed_of (window (n_pool s, r))"
    using same_slots_ok [OF R g(2)] by (simp add: feeds_def)
  then have "map_option (map feed_of) (news s' v) = map_option (map feed_of) (news s v)" for v
    using Some s'(5) by (simp add: news_def)
  then show ?thesis using that [of n s'] s' i(1) by (simp add: GetUnviewedCount_def)
qed

text \<open>The argument \<open>cache\<close> of a load is what the feed cache answers at that time.\<close>

datatype NewsRequest =
    ReqLoad "int \<Rightarrow> FeedItem list option" int
  | ReqAdd FeedItem bool "(int, int) stdmap"
  | ReqErase int
  | ReqSetRead int int int
  | ReqSetReadById int int
  | ReqSetReadAll int
  | ReqOriginal int
  | ReqUnviewed weigher int int
  | ReqPage NewsEnv int "int list" bool int int bool
  | ReqByIds NewsEnv int "int list" int int
  | ReqEdmLoad

fun news_step :: "NewsRequest \<Rightarrow> News \<Rightarrow> News option" where
  "news_step (ReqLoad cache uid) s = map_option snd (LoadFeed cache uid s)"
| "news_step (ReqAdd item updateTime id2weight) s = AddFeed item updateTime id2weight s"
| "news_step (ReqErase uid) s = EraseUser uid s"
| "news_step (ReqSetRead uid stype merge) s = SetRead uid stype merge s"
| "news_step (ReqSetReadById uid feedId) s = SetReadById uid feedId s"
| "news_step (ReqSetReadAll uid) s = SetReadAll uid s"
| "news_step (ReqOriginal uid) s = map_option snd (GetOriginalFeedData uid s)"
| "news_step (ReqUnviewed weigh now uid) s = map_option snd (GetUnviewedCount weigh now uid s)"
| "news_step (ReqPage env uid types stype bgn limit hot) s = map_option snd (GetFeedDataImpl env uid types stype bgn limit hot s)"
| "news_step (ReqByIds env uid fids first stype) s = map_option snd (GetFeedDataByIdsWithUid env uid fids first stype s)"
| "news_step ReqEdmLoad s = Some (s\<lparr>n_edm := edm_load (n_edm s)\<rparr>)"

text \<open>
  Requests for users whose bucket exists. The requests without a check of the user must not be called with a negative id whose
  index is negative; the others answer such an id at once.
\<close>

fun proper_request :: "NewsRequest \<Rightarrow> bool" where
  "proper_request (ReqLoad cache uid) \<longleftrightarrow> user_index uid \<noteq> None"
| "proper_request (ReqAdd item updateTime id2weight) \<longleftrightarrow>
     (\<forall>x \<in> set id2weight. user_index (fst x) \<noteq> None) \<and> distinct (map fst id2weight)"
| "proper_request _ \<longleftrightarrow> True"

text \<open>What requests keep: the calls to the feed cache, and the feeds that are held outside of the rings.\<close>

definition only_calls :: "News \<Rightarrow> News \<Rightarrow> bool" where
  "only_calls s s' \<longleftrightarrow> (\<exists>calls. n_calls s' = n_calls s @ calls)"

lemma only_calls_refl: "only_calls s s" "n_calls s' = n_calls s \<Longrightarrow> only_calls s s'" "n_calls s' = n_calls s @ c \<Longrightarrow> only_calls s s'"
  by (auto simp: only_calls_def)

lemma only_calls_trans: "only_calls s t \<Longrightarrow> only_calls t u \<Longrightarrow> only_calls s u"
  by (auto simp: only_calls_def)

lemma EraseUser_calls: "EraseUser uid s = Some s' \<Longrightarrow> n_calls s' = n_calls s"
  by (auto simp: EraseUser_def Option.bind_eq_Some_conv split: if_splits option.splits)

lemma ensured:
  assumes "server_ok H s" "0 \<le> uid" "ensure_loaded env uid s = Some t"
  shows "server_ok H t" "n_calls t = n_calls s"
  using ensure_loaded_ok [OF assms(1) user_index_nonneg [OF assms(2)], of env] assms(3) by (metis option.inject)+

lemma purged_calls: "purged uid fids t s' \<Longrightarrow> n_calls t = n_calls s \<Longrightarrow> only_calls s s'"
  by (auto simp: purged_def only_calls_def)

lemma page_step:
  assumes ok: "server_ok H s"
  shows "\<exists>answer s'. GetFeedDataImpl env uid types stype bgn limit hot s = Some (answer, s') \<and> server_ok H s' \<and> only_calls s s'"
proof (cases "uid < 0 \<or> bgn < 0 \<or> limit < 0")
  case True
  then have "GetFeedDataImpl env uid types stype bgn limit hot s = Some (Some (0, []), s)" by (simp add: GetFeedDataImpl_def)
  then show ?thesis using ok only_calls_refl(1) by blast
next
  case False
  then have u: "0 \<le> uid" "0 \<le> bgn" "0 \<le> limit" by simp_all
  obtain t answer s' fids where "ensure_loaded env uid s = Some t" "server_ok H s'" "purged uid fids t s'"
    "GetFeedDataImpl env uid types stype bgn limit hot s = Some (answer, s')"
    using GetFeedDataImpl_ok [OF ok u(1)] u(2,3) by blast
  then show ?thesis using purged_calls ensured(2) [OF ok u(1)] by blast
qed

lemma by_ids_step:
  assumes ok: "server_ok H s"
  shows "\<exists>answer s'. GetFeedDataByIdsWithUid env uid wanted first stype s = Some (answer, s') \<and> server_ok H s' \<and> only_calls s s'"
proof (cases "uid < 0 \<or> \<not> IsComment stype \<and> \<not> IsMain stype")
  case True
  then have "\<exists>answer. GetFeedDataByIdsWithUid env uid wanted first stype s = Some (answer, s)" by (auto simp: GetFeedDataByIdsWithUid_def)
  then show ?thesis using ok only_calls_refl(1) by blast
next
  case False
  then have u: "0 \<le> uid" "IsComment stype \<or> IsMain stype" by auto
  obtain t answer s' fids where "ensure_loaded env uid s = Some t" "server_ok H s'" "purged uid fids t s'"
    "GetFeedDataByIdsWithUid env uid wanted first stype s = Some (answer, s')"
    using GetFeedDataByIdsWithUid_ok [OF ok u(1)] u(2) by blast
  then show ?thesis using purged_calls ensured(2) [OF ok u(1)] by blast
qed

lemma news_step_ok:
  assumes ok: "server_ok H s" and v: "proper_request q"
  shows "\<exists>s'. news_step q s = Some s' \<and> server_ok H s' \<and> only_calls s s'"
proof (cases q)
  case (ReqLoad cache uid)
  then obtain i where i: "user_index uid = Some i" using v by auto
  obtain s' where "LoadFeed cache uid s = Some (cache uid \<noteq> None, s')" "server_ok H s'" "n_calls s' = n_calls s"
    by (rule LoadFeed_ok [OF ok i, of cache])
  then show ?thesis using ReqLoad by (auto simp: only_calls_refl)
next
  case (ReqAdd item u id2weight)
  then show ?thesis using add_feed_loop_ok [OF ok, of id2weight u item] v by (auto simp: AddFeed_def only_calls_refl)
next
  case (ReqErase uid)
  show ?thesis
  proof (cases "uid < 0")
    case False
    then show ?thesis using EraseUser_ok [OF ok user_index_some, of uid] EraseUser_calls ReqErase
      by (metis news_step.simps(3) not_less only_calls_refl(2))
  qed (use ReqErase ok in \<open>simp add: EraseUser_def only_calls_refl\<close>)
next
  case (ReqSetRead uid t m)
  show ?thesis
  proof (cases "uid < 0")
    case False
    then show ?thesis using SetRead_ok [OF ok _ user_index_some, of uid t m] ReqSetRead
      by (metis news_step.simps(4) not_less only_calls_refl(3))
  qed (use ReqSetRead ok in \<open>simp add: SetRead_def only_calls_refl\<close>)
next
  case (ReqSetReadById uid i)
  show ?thesis
  proof (cases "uid < 0")
    case False
    then show ?thesis using SetReadById_ok [OF ok _ user_index_some, of uid i] ReqSetReadById
      by (metis news_step.simps(5) not_less only_calls_refl(3))
  qed (use ReqSetReadById ok in \<open>simp add: SetReadById_def only_calls_refl\<close>)
next
  case (ReqSetReadAll uid)
  show ?thesis
  proof (cases "uid < 0")
    case False
    then show ?thesis using SetReadAll_ok [OF ok _ user_index_some, of uid] ReqSetReadAll
      by (metis news_step.simps(6) not_less only_calls_refl(3))
  qed (use ReqSetReadAll ok in \<open>simp add: SetReadAll_def only_calls_refl\<close>)
next
  case (ReqOriginal uid)
  show ?thesis
  proof (cases "uid < 0")
    case False
    obtain s' where "GetOriginalFeedData uid s = Some (map item_of (listed s uid), s')" "server_ok H s'" "n_calls s' = n_calls s"
      by (rule GetOriginalFeedData_ok [OF ok _ user_index_some, of uid]) (use False in auto)
    then show ?thesis using ReqOriginal by (simp add: only_calls_refl)
  qed (use ReqOriginal ok in \<open>simp add: GetOriginalFeedData_def only_calls_refl\<close>)
next
  case (ReqUnviewed weigh now uid)
  show ?thesis
  proof (cases "uid < 0")
    case False
    obtain n s' where "GetUnviewedCount weigh now uid s = Some (n, s')" "server_ok H s'" "n_calls s' = n_calls s"
      by (rule GetUnviewedCount_ok [OF ok _ user_index_some, of uid weigh now]) (use False in auto)
    then show ?thesis using ReqUnviewed by (simp add: only_calls_refl)
  qed (use ReqUnviewed ok in \<open>simp add: GetUnviewedCount_def only_calls_refl\<close>)
next
  case (ReqPage env uid types stype bgn limit hot)
  then show ?thesis using page_step [OF ok, of env uid types stype bgn limit hot] by auto
next
  case (ReqByIds env uid fids first stype)
  then show ?thesis using by_ids_step [OF ok, of env uid fids first stype] by auto
qed (use ok in \<open>simp add: only_calls_refl\<close>)

interpretation news_server: total_machine "server_ok H" proper_request news_step only_calls for H
  by unfold_locales (use news_step_ok only_calls_refl(1) only_calls_trans in blast)+

definition empty_news :: "EDM \<Rightarrow> News" where
  "empty_news e = \<lparr>n_pool = Map.empty, n_users = \<lambda>_. [], n_edm = e, n_calls = []\<rparr>"

lemma empty_news_ok: "server_ok {#} (empty_news e)"
  by (simp add: server_ok_def empty_news_def users_ms_def counted_def bucket_ok_def MAX_USER_COUNT_def)

text \<open>The servers that requests lead to.\<close>

definition served :: "EDM \<Rightarrow> NewsRequest list \<Rightarrow> News \<Rightarrow> bool" where
  "served e requests s \<longleftrightarrow> list_all proper_request requests \<and> run news_step requests (empty_news e) = Some s"

lemma served_ok: "served e requests s \<Longrightarrow> server_ok {#} s"
  using news_server.run_total [OF empty_news_ok, of requests e] by (auto simp: served_def)

section \<open>Counts over all rings\<close>

text \<open>The slots of all rings that refer to a feed.\<close>

definition references :: "News \<Rightarrow> int \<Rightarrow> nat" where
  "references s k = (\<Sum>i \<in> {0..<POOL_SIZE}. \<Sum>u \<leftarrow> n_users s i. length (filter (\<lambda>x. l_feed x = Some k) (lf_feeds (snd u))))"

lemma references_count: "count (handles_ms (users_ms s)) k = references s k"
proof -
  have l: "count (handles_ms (mset us)) k = (\<Sum>u \<leftarrow> us. length (filter (\<lambda>x. l_feed x = Some k) (lf_feeds (snd u))))" for us
    by (induction us) (simp_all add: handles_count)
  have "count (handles_ms (\<Sum>i \<in> I. mset (n_users s i))) k = (\<Sum>i \<in> I. count (handles_ms (mset (n_users s i))) k)" if "finite I" for I :: "int set"
    using that by induction simp_all
  then show ?thesis by (simp add: users_ms_def references_def l)
qed

lemma news_length:
  assumes "server_ok H s" "news s uid = Some W"
  shows "length W \<le> 250"
proof -
  obtain r where r: "ring_of s uid = Some r" "W = window (n_pool s, r)" using assms(2) by (auto simp: news_def)
  obtain k where "user_index uid = Some k" "map_of (n_users s k) uid = Some r" using r(1) by (auto simp: ring_of_def Option.bind_eq_Some_conv)
  then obtain R where "ring_ok R (n_pool s, r)" using user_found [OF assms(1)] by blast
  then show ?thesis using length_window [of R "(n_pool s, r)"] r(2) by (auto simp: ring_ok_split ring_wf_def)
qed

lemma item_of_id [simp]: "it_feed (item_of e) = f_id (feed_of e)"
  by (simp add: item_of_def Let_def)

text \<open>
  A page that shows exactly the wanted news: one group of ids for each class of entries with the same merge key, in descending order of
  the entry that decides.
\<close>

definition news_page :: "(Feed \<Rightarrow> bool) \<Rightarrow> weigher \<Rightarrow> int \<Rightarrow> bool \<Rightarrow> entry list \<Rightarrow> gathered list \<Rightarrow> bool" where
  "news_page wanted weigh bgn hot W page \<longleftrightarrow> (\<exists>groups. page = map (\<lambda>g. [ids_of g]) groups \<and>
     mset groups = mset (filter (\<lambda>g. wanted (feed_of (hd g))) (news_of bgn False W)) \<and>
     mset (concat groups) = mset (filter (\<lambda>e. wanted (feed_of e)) (filter (shown bgn False) W)) \<and>
     sorted_wrt (\<lambda>g h. news_rank weigh bgn hot g \<ge> news_rank weigh bgn hot h) groups)"

lemma get_by_page:
  assumes "ring_ok E s" "no_ads now (window s)" "\<forall>x f. weigh x (f\<lparr>f_ref_count := 0\<rparr>) = weigh x f"
    and "\<forall>f. wanted (core f) = wanted f" "\<forall>f g. SmallType f = SmallType g \<longrightarrow> wanted f = wanted g"
  shows "\<exists>page s'. get_by wanted weigh now bgn hot s = Some (page, s') \<and> ring_ok E s' \<and> feeds s' = feeds s \<and>
    news_page wanted weigh bgn hot (window s) page"
proof -
  obtain p r where s: "s = (p, r)" by (cases s)
  have c: "\<forall>x f. weigh x (core f) = weigh x f" using assms(3) by (simp add: core_def)
  show ?thesis unfolding s news_page_def using get_by_ok [OF assms(1,2) [unfolded s] assms(4,5) c, of bgn hot] by blast
qed

text \<open>A ring with one entry.\<close>

definition status_item :: FeedItem where
  "status_item = \<lparr>it_feed = 7, it_merge = 1, it_type = 502, it_time = 100, it_weight = 0, it_actor = 3\<rparr>"

definition status_entry :: entry where
  "status_entry = (\<lparr>l_feed = Some 7, l_weight = 2, l_time = 100\<rparr>, Some (new_feed status_item))"

lemma one_entry: "\<exists>s. Add status_item True True (Map.empty, new_ring) = Some s \<and> ring_ok {#} s \<and> window s = [status_entry]"
proof -
  obtain s where "Add status_item True True (Map.empty, new_ring) = Some s" "ring_ok {#} s"
    "window s = added Map.empty status_item True True # make_room (window (Map.empty, new_ring))"
    using Add_ok [OF new_ring_ok, of status_item True True] by (metis fst_conv)
  then show ?thesis
    by (simp add: make_room_def added_def status_entry_def marked_def SetUpdateTime_def new_item_def status_item_def pooled_def data_def Let_def)
qed

lemma status_simps [simp]: "SmallType (feed_of status_entry) = 502" "f_id (feed_of status_entry) = 7" "l_time (fst status_entry) = 100"
  "\<not> IsComment 502" "GetViewedCount (fst status_entry) = 0"
  by (simp_all add: status_entry_def feed_of_def new_feed_def SmallType_def status_item_def IsComment_cases GetViewedCount_def)

text \<open>A server with one loaded user and no advertisements.\<close>

definition no_edm :: EDM where
  "no_edm = \<lparr>edm_inited = True, edm_index = 0, edm_pool = Map.empty, edm_rows = []\<rparr>"

lemma one_loaded: "\<exists>s. served no_edm [ReqLoad (\<lambda>_. Some []) 5] s \<and> news s = [5 \<mapsto> []] \<and> n_calls s = []"
proof -
  have i: "user_index 5 = Some 0" by (simp add: user_index_def POOL_SIZE_def)
  have n: "news (empty_news no_edm) = Map.empty" by (auto simp: news_def ring_of_def empty_news_def fun_eq_iff Option.bind_eq_None_conv)
  have c: "crowded_out 0 (empty_news no_edm) = None" "getEDMFeed 5 (n_edm (empty_news no_edm)) = []" "n_calls (empty_news no_edm) = []"
    by (simp_all add: crowded_out_def empty_news_def MAX_USER_COUNT_def getEDMFeed_def no_edm_def)
  obtain s where s: "LoadFeed (\<lambda>_. Some []) 5 (empty_news no_edm) = Some (True, s)" "n_calls s = []"
    "\<exists>W. news s = [5 \<mapsto> W] \<and> ids W = []"
    by (rule LoadFeed_ok [OF empty_news_ok [of no_edm] i, of "\<lambda>_. Some []"]) (use n c in auto)
  then have "news s = [5 \<mapsto> []]" by (auto simp: ids_def)
  then show ?thesis using s(1,2) i by (auto simp: served_def)
qed

section \<open>Properties\<close>

text \<open>C9. Every sequence of requests runs to its end. Then a feed is in the pool exactly if a slot of the ring of some user in memory
  refers to it, and its count is the number of these slots over all users: the one object of a feed is shared by all its
  readers, never leaks and is never freed early. Every user is in the bucket of its id, once; a bucket has at most a hundred
  users and a ring at most 250 feeds.\<close>
theorem news_server_exact:
  assumes "list_all proper_request requests"
  shows "\<exists>s. run news_step requests (empty_news e) = Some s \<and>
    (\<forall>k. case n_pool s k of None \<Rightarrow> references s k = 0 | Some f \<Rightarrow> 0 < references s k \<and> f_id f = k \<and> f_ref_count f = int (references s k)) \<and>
    (\<forall>i. distinct (map fst (n_users s i)) \<and> length (n_users s i) \<le> 100 \<and> (\<forall>u \<in> set (n_users s i). user_index (fst u) = Some i)) \<and>
    (\<forall>uid W. news s uid = Some W \<longrightarrow> length W \<le> 250)"
proof -
  obtain s where s: "run news_step requests (empty_news e) = Some s" "server_ok {#} s"
    using news_server.run_total [OF empty_news_ok assms] by blast
  then have c: "counted (handles_ms (users_ms s)) (n_pool s)" by (simp add: server_ok_def)
  have "case n_pool s k of None \<Rightarrow> references s k = 0 | Some f \<Rightarrow> 0 < references s k \<and> f_id f = k \<and> f_ref_count f = int (references s k)" for k
    using counted_dom [OF c, of k] counted_found [OF c, of k] references_count [of s k, symmetric] by (cases "n_pool s k") (simp_all add: not_in_iff)
  moreover have "bucket_ok i (n_users s i)" for i using s(2) by (simp add: server_ok_def)
  then have "\<forall>i. distinct (map fst (n_users s i)) \<and> length (n_users s i) \<le> 100 \<and> (\<forall>u \<in> set (n_users s i). user_index (fst u) = Some i)"
    by (simp add: bucket_ok_def MAX_USER_COUNT_def)
  ultimately show ?thesis using s news_length [OF s(2)] by blast
qed

theorem news_server_exact_witness:
  "\<exists>s. run news_step [ReqLoad (\<lambda>_. Some []) 5, ReqAdd \<lparr>it_feed = 7, it_merge = 1, it_type = 601, it_time = 100, it_weight = 0, it_actor = 3\<rparr> True [(5, 2)],
       ReqSetRead 5 601 1] (empty_news no_edm) = Some s \<and> (\<forall>i. length (n_users s i) \<le> 100)"
  using news_server_exact [of "[ReqLoad (\<lambda>_. Some []) 5,
     ReqAdd \<lparr>it_feed = 7, it_merge = 1, it_type = 601, it_time = 100, it_weight = 0, it_actor = 3\<rparr> True [(5, 2)], ReqSetRead 5 601 1]" no_edm]
  by (force simp: user_index_def POOL_SIZE_def)

text \<open>C10. A feed reaches exactly the recipients whose ring is in memory: the list of each of them becomes the new entry, with the weight
  that this recipient has in the request, in front of what its list was, less the one entry that \<open>RemoveOldest\<close> picks if the ring was full. The
  lists of all other users stay as they are, whatever the order of the recipients, and the feed cache is not called.\<close>
theorem AddFeed_delivers:
  assumes "served e requests s" "\<forall>x \<in> set id2weight. 0 \<le> fst x" "distinct (map fst id2weight)"
  shows "\<exists>s'. AddFeed item updateTime id2weight s = Some s' \<and> n_calls s' = n_calls s \<and>
    (\<forall>v. news s' v = (case map_of id2weight v of
        None \<Rightarrow> news s v
      | Some weight \<Rightarrow> map_option (\<lambda>W. added (n_pool s) (item\<lparr>it_weight := weight\<rparr>) updateTime True # make_room W) (news s v)))"
proof -
  obtain s' where "add_feed_loop updateTime id2weight item s = Some s'" "n_calls s' = n_calls s"
    "\<forall>v. news s' v = (case map_of id2weight v of None \<Rightarrow> news s v | Some w \<Rightarrow> map_option (delivered (n_pool s) item updateTime w) (news s v))"
    using add_feed_loop_ok [OF served_ok [OF assms(1)], of id2weight updateTime item] assms(2,3) user_index_some by blast
  then show ?thesis unfolding AddFeed_def delivered_def [abs_def] by blast
qed

theorem AddFeed_delivers_witness:
  "\<exists>s s' x. served no_edm [ReqLoad (\<lambda>_. Some []) 5] s \<and>
     AddFeed \<lparr>it_feed = 7, it_merge = 1, it_type = 601, it_time = 100, it_weight = 0, it_actor = 3\<rparr> True [(4, 1), (5, 2)] s = Some s' \<and>
     news s' 5 = Some [x] \<and> news s' 4 = None \<and> f_id (feed_of x) = 7"
proof -
  let ?item = "\<lparr>it_feed = 7, it_merge = 1, it_type = 601, it_time = 100, it_weight = 0, it_actor = 3\<rparr>"
  obtain s where s: "served no_edm [ReqLoad (\<lambda>_. Some []) 5] s" "news s = [5 \<mapsto> []]" using one_loaded by blast
  obtain s' where s': "AddFeed ?item True [(4, 1), (5, 2)] s = Some s'" "\<And>v. news s' v = (case map_of [(4, 1), (5, 2)] v of
        None \<Rightarrow> news s v
      | Some weight \<Rightarrow> map_option (\<lambda>W. added (n_pool s) (?item\<lparr>it_weight := weight\<rparr>) True True # make_room W) (news s v))"
    using AddFeed_delivers [OF s(1), of "[(4, 1), (5, 2)]" ?item True] by auto
  have n: "news s' 5 = Some [added (n_pool s) (?item\<lparr>it_weight := 2\<rparr>) True True]" "news s' 4 = None"
    using s'(2) [of 5] s'(2) [of 4] s(2) by (simp_all add: make_room_def)
  have "f_id (feed_of (added (n_pool s) (?item\<lparr>it_weight := 2\<rparr>) True True)) = 7"
    using served_ok [OF s(1)] pooled_id [of _ "n_pool s" "?item\<lparr>it_weight := 2\<rparr>"] by (auto simp: server_ok_def added_def feed_of_def)
  then show ?thesis using s(1) s'(1) n by blast
qed

text \<open>C11. The first request for a user loads the ring from the feed cache: if the feeds there and the advertisements of the user are at most
  250, the ring then holds the ids of the advertisements, the last one first, and of the feeds in the order of the cache, and
  \<open>GetOriginalFeedData\<close> answers them. If the bucket was full, the user that came first leaves it; no other user is affected. When the
  cache fails, nothing changes, and a user who is in memory keeps the ring.\<close>
theorem LoadFeed_roundtrip:
  assumes "served e requests s" "0 \<le> uid"
  shows "\<exists>s'. LoadFeed cache uid s = Some (cache uid \<noteq> None, s') \<and>
    (case cache uid of None \<Rightarrow> s' = s
     | Some items \<Rightarrow> let ads = getEDMFeed uid (n_edm s); bucket = n_users s (uid div 20 mod 10000) in
         if news s uid \<noteq> None then s' = s
         else (length ads + length items \<le> 250 \<longrightarrow> (\<exists>answer s''. GetOriginalFeedData uid s' = Some (answer, s'') \<and>
                 map it_feed answer = rev (map it_feed ads) @ map it_feed items)) \<and>
              (\<forall>v. v \<noteq> uid \<longrightarrow> news s' v = (if length bucket \<ge> 100 \<and> v = fst (last bucket) then None else news s v)))"
proof -
  let ?i = "uid div 20 mod POOL_SIZE"
  note ok = served_ok [OF assms(1)] and i = user_index_nonneg [OF assms(2)]
  obtain s' where s': "LoadFeed cache uid s = Some (cache uid \<noteq> None, s')" "server_ok {#} s'" "cache uid = None \<or> news s uid \<noteq> None \<longrightarrow> s' = s"
    "\<forall>items. cache uid = Some items \<longrightarrow> news s uid = None \<longrightarrow> (\<exists>W. news s' = (case crowded_out ?i s of None \<Rightarrow> news s | Some v \<Rightarrow> (news s)(v := None))(uid \<mapsto> W) \<and>
       (length (getEDMFeed uid (n_edm s)) + length items \<le> 250 \<longrightarrow> ids W = rev (map it_feed (getEDMFeed uid (n_edm s))) @ map it_feed items))"
    by (rule LoadFeed_ok [OF ok i, of cache])
  obtain s'' where o: "GetOriginalFeedData uid s' = Some (map item_of (listed s' uid), s'')"
    by (rule GetOriginalFeedData_ok [OF s'(2) assms(2) user_index_some [OF assms(2)]])
  have "map it_feed (map item_of (listed s' uid)) = ids W" if "news s' uid = Some W" for W
    using that by (simp add: listed_def ids_def)
  then show ?thesis
    using s'(1,3,4) o by (cases "cache uid"; cases "news s uid") (auto simp: Let_def crowded_out_def POOL_SIZE_def MAX_USER_COUNT_def split: if_splits)
qed

text \<open>C18. Marking a feed as read takes the news it belongs to (the feeds with the same merge key and the same type or
  the type of its comments) out of the list of the user and no more, tells the feed cache to remove exactly the same ids, newest first, and
  leaves the other users alone; an id that is in no ring changes nothing and calls nobody.\<close>
theorem SetReadById_exact:
  assumes "served e requests s" "0 \<le> uid"
  shows "\<exists>s'. SetReadById uid i s = Some s' \<and>
    n_calls s' = n_calls s @ map (\<lambda>e. CacheRemove uid (f_id (feed_of e))) (filter (\<lambda>e. news_at s i (feed_of e)) (listed s uid)) \<and>
    listed s' uid = filter (\<lambda>e. \<not> news_at s i (feed_of e)) (listed s uid) \<and> (\<forall>v. v \<noteq> uid \<longrightarrow> news s' v = news s v)"
proof -
  obtain s' where "SetReadById uid i s = Some s'"
    "n_calls s' = n_calls s @ map (CacheRemove uid) (ids (filter (\<lambda>e. news_at s i (feed_of e)) (listed s uid)))"
    "news s' = (news s)(uid := map_option (filter (\<lambda>e. \<not> news_at s i (feed_of e))) (news s uid))"
    by (rule SetReadById_ok [OF served_ok [OF assms(1)] assms(2) user_index_some [OF assms(2)]])
  then show ?thesis by (cases "news s uid") (simp_all add: ids_def comp_def listed_def)
qed

theorem LoadFeed_roundtrip_witness:
  "\<exists>s' answer s''. LoadFeed (\<lambda>_. Some [\<lparr>it_feed = 7, it_merge = 1, it_type = 601, it_time = 100, it_weight = 0, it_actor = 3\<rparr>]) 5 (empty_news no_edm) = Some (True, s') \<and>
     GetOriginalFeedData 5 s' = Some (answer, s'') \<and> map it_feed answer = [7]"
proof -
  have "served no_edm [] (empty_news no_edm)" by (simp add: served_def)
  moreover have "getEDMFeed 5 (n_edm (empty_news no_edm)) = []" "news (empty_news no_edm) 5 = None"
    by (simp_all add: empty_news_def no_edm_def getEDMFeed_def news_def ring_of_def Option.bind_eq_None_conv)
  ultimately show ?thesis
    using LoadFeed_roundtrip [of no_edm "[]" "empty_news no_edm" 5
      "\<lambda>_. Some [\<lparr>it_feed = 7, it_merge = 1, it_type = 601, it_time = 100, it_weight = 0, it_actor = 3\<rparr>]"] by (auto simp: Let_def)
qed

theorem SetReadById_exact_witness:
  "\<exists>s s'. served no_edm [ReqLoad (\<lambda>_. Some []) 5] s \<and> SetReadById 5 7 s = Some s' \<and> n_calls s' = [] \<and> listed s' 5 = []"
proof -
  obtain s where s: "served no_edm [ReqLoad (\<lambda>_. Some []) 5] s" "news s = [5 \<mapsto> []]" "n_calls s = []" using one_loaded by blast
  then show ?thesis using SetReadById_exact [OF s(1), of 5 7] by (auto simp: listed_def)
qed

text \<open>C15. A page by type of a ring without advertisements shows exactly the news of the wanted types, once each: every class of entries with the same
  merge key (that are no comments, and not shown at random before unless the page is the first) is one group on the page, newest entry first,
  and the groups come in descending order of the weight, or the time, of the entry that decides. The
  weight function may not look at the count of a feed. The ring keeps its feeds.\<close>
theorem pages_by_type_exact:
  assumes "ring_ok E s" "no_ads now (window s)" "\<forall>x f. weigh x (f\<lparr>f_ref_count := 0\<rparr>) = weigh x f"
  shows "(\<exists>page s'. GetFeedByType weigh now types bgn hot s = Some (page, s') \<and> ring_ok E s' \<and> feeds s' = feeds s \<and>
      news_page (\<lambda>f. BigType f \<in> set types) weigh bgn hot (window s) page) \<and>
    (\<exists>page s'. GetFeedByStype weigh now types bgn hot s = Some (page, s') \<and> ring_ok E s' \<and> feeds s' = feeds s \<and>
      news_page (\<lambda>f. SmallType f \<in> set types) weigh bgn hot (window s) page)"
proof -
  have t: "BigType f = BigType g" if "SmallType f = SmallType g" for f g using that by (simp add: SmallType_def BigType_def)
  show ?thesis unfolding GetFeedByType_def GetFeedByStype_def
  proof (intro conjI)
    show "\<exists>page s'. get_by (\<lambda>f. BigType f \<in> set types) weigh now bgn hot s = Some (page, s') \<and> ring_ok E s' \<and> feeds s' = feeds s \<and>
        news_page (\<lambda>f. BigType f \<in> set types) weigh bgn hot (window s) page"
      by (rule get_by_page [OF assms]) (simp add: BigType_core, metis t)
    show "\<exists>page s'. get_by (\<lambda>f. SmallType f \<in> set types) weigh now bgn hot s = Some (page, s') \<and> ring_ok E s' \<and> feeds s' = feeds s \<and>
        news_page (\<lambda>f. SmallType f \<in> set types) weigh bgn hot (window s) page"
      by (rule get_by_page [OF assms]) (simp_all add: BigType_core)
  qed
qed

theorem pages_by_type_exact_witness:
  "\<exists>s. Add status_item True True (Map.empty, new_ring) = Some s \<and>
     (\<exists>page s'. GetFeedByStype (\<lambda>x _. l_time x) 100 [502] 0 True s = Some (page, s') \<and> page = [[[Some 7]]])"
proof -
  obtain s where s: "Add status_item True True (Map.empty, new_ring) = Some s" "ring_ok {#} s" "window s = [status_entry]"
    using one_entry by blast
  have na: "no_ads 100 (window s)" by (simp add: no_ads_def s(3))
  obtain page s' where p: "GetFeedByStype (\<lambda>x _. l_time x) 100 [502] 0 True s = Some (page, s')"
      "news_page (\<lambda>f. SmallType f \<in> set [502]) (\<lambda>x _. l_time x) 0 True (window s) page"
    using pages_by_type_exact [OF s(2) na, of "\<lambda>x _. l_time x" "[502]" 0 True] by auto
  have "news_of 0 False [status_entry] = [[status_entry]]" by (simp add: news_of_def shown_def grouped_def firsts_def)
  then have "page = [[[Some 7]]]" using p(2) s(3) by (auto simp: news_page_def ids_of_def)
  then show ?thesis using s(1) p(1) by blast
qed

text \<open>C13. The gathered page of a ring without advertisements shows every news that has an entry which is no comment, with all its entries, once each and in
  no more than the gathered groups; the count of news not viewed is exact, the group that is shown at random
  is one of the news, the advertisement count is passed through, and the ring keeps its feeds.\<close>
theorem gathered_page_exact:
  assumes "ring_ok E s" "no_ads now (window s)"
  shows "\<exists>page random s'. GetGatheredFeed weigh now bgn limit hot edm_count s = Some (page, random,
      int (length (filter (\<lambda>g. has_main g \<and> views g = 0) (news_of bgn True (window s)))), edm_count, s') \<and>
    ring_ok E s' \<and> feeds s' = feeds s \<and>
    mset (concat (concat page)) = mset (ids_of (concat (filter has_main (news_of bgn True (window s))))) \<and>
    (random = [] \<or> (\<exists>g \<in> set (news_of bgn True (window s)). random = [[ids_of g]]))"
proof -
  obtain p r where s: "s = (p, r)" by (cases s)
  obtain page random r' where g: "GetGatheredFeed weigh now bgn limit hot edm_count (p, r) =
      Some (page, random, int (length (filter (\<lambda>g. has_main g \<and> views g = 0) (news_of bgn True (window (p, r))))), edm_count, p, r')"
    "same_slots r r'" "mset (concat (concat page)) = mset (ids_of (concat (filter has_main (news_of bgn True (window (p, r))))))"
    "random = [] \<or> (\<exists>g \<in> set (news_of bgn True (window (p, r))). random = [[ids_of g]])"
    using GetGatheredFeed_ok [OF assms [unfolded s], of weigh bgn limit hot edm_count] by blast
  show ?thesis unfolding s by (intro exI conjI, rule g(1)) (use g(3,4) same_slots_ok [OF assms(1) [unfolded s] g(2)] in simp_all)
qed

theorem gathered_page_exact_witness:
  "\<exists>s. Add status_item True True (Map.empty, new_ring) = Some s \<and>
     (\<exists>page random s'. GetGatheredFeed (\<lambda>x _. l_time x) 100 0 20 True 0 s = Some (page, random, 1, 0, s') \<and> mset (concat (concat page)) = {#Some 7#})"
proof -
  obtain s where s: "Add status_item True True (Map.empty, new_ring) = Some s" "ring_ok {#} s" "window s = [status_entry]"
    using one_entry by blast
  have na: "no_ads 100 (window s)" by (simp add: no_ads_def s(3))
  have n: "news_of 0 True (window s) = [[status_entry]]" by (simp add: s(3) news_of_def shown_def grouped_def firsts_def)
  have h: "has_main [status_entry] = True" "views [status_entry] = 0" by (simp_all add: has_main_def views_def)
  show ?thesis using gathered_page_exact [OF s(2) na, of "\<lambda>x _. l_time x" 0 20 True 0] s(1) by (auto simp: n h ids_of_def)
qed

end
