(* ===== verification/NewsRowTheorems.thy ===== *)
theory NewsRowTheorems
  imports NewsTheorems
begin

text \<open>
  The properties of the pages that a request answers: the rows of a page, the text of a row, and what a page takes out of the list of its
  reader.
\<close>

section \<open>Examples\<close>

text \<open>A server with one loaded user, who has one status.\<close>

lemma one_status_loaded:
  "\<exists>s. served no_edm [ReqLoad (\<lambda>_. Some [status_item]) 5] s \<and> news s 5 \<noteq> None \<and> listed_feeds s 5 = Some [new_feed status_item]"
proof -
  have i: "user_index 5 = Some 0" by (simp add: user_index_def POOL_SIZE_def)
  obtain p r where a: "Add status_item True False (Map.empty, new_ring) = Some (p, r)"
    "window (p, r) = added Map.empty status_item True False # make_room (window (Map.empty, new_ring))"
    using Add_ok [OF new_ring_ok, of status_item True False] by (metis fst_conv surj_pair)
  let ?s = "on_bucket 0 [(5, r)] ((empty_news no_edm)\<lparr>n_pool := p\<rparr>)"
  have "LoadFeed (\<lambda>_. Some [status_item]) 5 (empty_news no_edm) = Some (True, ?s)"
    using a(1) i by (simp add: LoadFeed_def GetUserFeed_def empty_news_def getEDMFeed_def no_edm_def AddUserFeed_def MAX_USER_COUNT_def Let_def)
  then have v: "served no_edm [ReqLoad (\<lambda>_. Some [status_item]) 5] ?s" using i by (simp add: served_def)
  have "window (p, r) = [added Map.empty status_item True False]" using a(2) by (simp add: make_room_def)
  then have "news ?s 5 = Some [added Map.empty status_item True False]"
    using i by (simp add: news_def ring_of_def on_bucket_def empty_news_def)
  then show ?thesis using v by (intro exI [of _ ?s]) (simp add: listed_feeds_def added_def feed_of_def pooled_def data_def)
qed

text \<open>Contents with a text, for every feed.\<close>

definition text_content :: "int \<Rightarrow> string \<Rightarrow> int \<times> FeedContent option" where
  "text_content i xml = (i, Some \<lparr>fc_data = Some \<lparr>fd_feed = i, fd_source = 0, fd_actor = 3, fd_type = 502, fd_xml = xml, fd_time = 100, fd_weight = 0\<rparr>,
     fc_reply = None\<rparr>)"

definition full_env :: NewsEnv where
  "full_env = \<lparr>e_cache = (\<lambda>_. None), e_content = (\<lambda>q. Some (map (\<lambda>i. text_content i ''text'') q)),
     e_loader = (\<lambda>_. None), e_weigh = (\<lambda>x _. l_time x), e_now = 100\<rparr>"

text \<open>A feed of a kind that appends.\<close>

definition appended :: "int \<Rightarrow> Feed" where
  "appended i = new_feed (status_item\<lparr>it_feed := i, it_type := 2147484150\<rparr>)"

section \<open>Properties\<close>

text \<open>C14. A page request for a user in memory is answered, and whatever it takes out of the list of the user, building its rows, is what
  the feed cache is told to remove for this user, in this order: nothing is told of other users and no other list changes. Each feed that
  goes was in the list, and its content was null at the content service or the loader, or it is a comment.\<close>
theorem page_removes_dead_feeds:
  assumes "served e requests s" "news s uid \<noteq> None" "0 \<le> uid" "0 \<le> bgn" "0 \<le> limit"
  shows "\<exists>answer s' gone calls. GetFeedDataImpl env uid types stype bgn limit hot s = Some (answer, s') \<and>
    (\<forall>v. listed_feeds s' v = (if v = uid then map_option (filter (\<lambda>f. f_id f \<notin> set gone)) (listed_feeds s v) else listed_feeds s v)) \<and>
    n_calls s' = n_calls s @ calls \<and> (\<forall>v. removals v calls = (if v = uid then gone else [])) \<and>
    set gone \<subseteq> rightly_gone (nulled (e_content env) (e_loader env)) (feeds_listed s uid)"
proof -
  have ok: "server_ok {#} s" by (rule served_ok [OF assms(1)])
  have "ensure_loaded env uid s = Some s"
    using ensure_loaded_ok [OF ok user_index_nonneg [OF assms(3)], of env] assms(2) by metis
  then show ?thesis using GetFeedDataImpl_ok [where env = env and types = types and stype = stype and bgn = bgn and limit = limit and hot = hot, OF ok assms(3)]
      assms(4,5) unfolding purged_def by fastforce
qed

theorem page_removes_dead_feeds_witness:
  "\<exists>s answer s'. served no_edm [ReqLoad (\<lambda>_. Some [status_item]) 5] s \<and> GetLiveFeedData full_env 5 0 20 s = Some (answer, s') \<and>
     listed_feeds s' 5 = Some [new_feed status_item]"
proof -
  obtain s where s: "served no_edm [ReqLoad (\<lambda>_. Some [status_item]) 5] s" "news s 5 \<noteq> None" "listed_feeds s 5 = Some [new_feed status_item]"
    using one_status_loaded by blast
  have "nulled (e_content full_env) (e_loader full_env) = {}" by (auto simp: nulled_def full_env_def text_content_def)
  then have "rightly_gone (nulled (e_content full_env) (e_loader full_env)) (feeds_listed s 5) = {}"
    using s(3) by (simp add: rightly_gone_def new_feed_def SmallType_def status_item_def IsComment_cases)
  then show ?thesis
    using page_removes_dead_feeds [where env = full_env and types = "[]" and stype = True and bgn = 0 and limit = 20 and hot = False, OF s(1,2)] s(1,3) by (fastforce simp: GetLiveFeedData_def)
qed

text \<open>C17. Which rows a page builds: its advertisements, the random rows and then the rows from the begin of the page on, so many that the page
  has no more rows than the limit if the others fit in it. The end of the page is an \<open>int\<close>: when it overflows, which nothing checks, the page has the
  advertisements and the random rows only. Pages without these, one after the other, show every row once, as long as their
  ends do not overflow.\<close>
theorem page_rows_exact:
  assumes "0 \<le> k" "k \<le> int (length rows)" "0 \<le> bgn" "bgn < 2 ^ 31" "0 \<le> limit" "limit < 2 ^ 31" "k + int (length random) \<le> 2 ^ 31"
  shows "page_rows rows bgn limit random k = take (nat k) rows @ random @
      (if bgn + limit - k - int (length random) < 2 ^ 31
       then take (nat (bgn + limit - k - int (length random) - max k bgn)) (drop (nat (max k bgn)) rows) else []) \<and>
    int (length (page_rows rows bgn limit random k)) \<le> max limit (k + int (length random)) \<and>
    (int m * limit < 2 ^ 31 \<longrightarrow> concat (map (\<lambda>n. page_rows rows (int n * limit) limit [] 0) [0..<m]) = take (m * nat limit) rows)"
proof -
  have v: "page_rows rows bgn limit random k = take (nat k) rows @ random @
      (if bgn + limit - k - int (length random) < 2 ^ 31
       then take (nat (bgn + limit - k - int (length random) - max k bgn)) (drop (nat (max k bgn)) rows) else [])"
    using page_rows_value [OF assms(1-3,5,6) _ assms(7)] page_rows_overflow [OF assms(1-4,6)] by simp
  moreover have "int (length (page_rows rows bgn limit random k)) \<le> max limit (k + int (length random))"
  proof -
    let ?x = "bgn + limit - k - int (length random) - max k bgn"
    have "int (length (page_rows rows bgn limit random k)) \<le> k + int (length random) + int (nat ?x)" unfolding v using assms(1,2) by auto
    then show ?thesis by linarith
  qed
  ultimately show ?thesis using pages_tile [OF assms(5), of m rows] by blast
qed

theorem page_rows_exact_witness:
  "page_rows [[[Some 1]], [[Some 2]], [[Some 3]], [[Some 4]]] 0 3 [] 1 = [[[Some 1]], [[Some 2]]] \<and>
   page_rows [[[Some 1]], [[Some 2]]] 1 2147483647 [] 0 = []"
  using page_rows_exact [of 1 "[[[Some 1]], [[Some 2]], [[Some 3]], [[Some 4]]]" 0 3 "[]" 0]
    page_rows_exact [of 0 "[[[Some 1]], [[Some 2]]]" 1 2147483647 "[]" 0] by simp

text \<open>C16. The row of any number of gathered groups of feeds that are neither comments nor commented on, each group of a kind that
  replaces or of one that appends, with a dictionary whose contents have data or are null. Of each group the first feed is looked at, or the first six; of
  these, those with a null content are removed. The first group with data gives, by its first such feed, the data, the replies, and for some
  types the reader; its first five texts are put one after the other. Of each later group with data the id of the first such feed is listed.\<close>
theorem plain_row_text:
  assumes "\<forall>g \<in> set gs. plain_group dict g"
  shows "build_row uid dict gs = Some (
    let seen = map looked_at gs; gone = concat (map (null_ids dict) seen)
    in case dropWhile (\<lambda>fs. first_id dict fs = []) seen of
         [] \<Rightarrow> (None, gone, dict)
       | fs # later \<Rightarrow>
           (let ps = filter (present dict) fs; k = f_id (hd ps)
            in (Some k, gone, put_xml k (concat (map (text_of dict) (take 5 ps)) @
                 (case reply_at dict k of None \<Rightarrow> [] | Some r \<Rightarrow> reply_xml r) @
                 gathered_xml (concat (map (first_id dict) later)) @ reader_xml uid dict k) dict)))"
  unfolding plain_row [OF assms] row_of_def ..

lemma appended_simps [simp]: "SmallType (appended i) = 502" "NewsMergeType (appended i) = FeedMergeAppend" "f_id (appended i) = i"
  by (simp_all add: appended_def new_feed_def status_item_def SmallType_def NewsMergeType_def FeedMergeAppend_def)

theorem plain_row_text_witness:
  "build_row 5 [text_content 7 ''new'', text_content 8 ''old'', text_content 9 ''other''] [[appended 7, appended 8], [appended 9]] =
     Some (Some 7, [], [text_content 7 (''newold'' @ gathered_xml [9]), text_content 8 ''old'', text_content 9 ''other''])"
proof -
  let ?d = "[text_content 7 ''new'', text_content 8 ''old'', text_content 9 ''other'']" and ?gs = "[[appended 7, appended 8], [appended 9]]"
  have g: "\<forall>g \<in> set ?gs. plain_group ?d g"
    by (simp add: plain_group_def plain_def sound_def m_find_def IsComment_cases IsMain_def main2comment_def text_content_def)
  have c: "present ?d (appended 7)" "present ?d (appended 8)" "present ?d (appended 9)" "nulls ?d = {}"
    "text_of ?d (appended 7) = ''new''" "text_of ?d (appended 8) = ''old''" "reply_at ?d 7 = None" "reader_xml 5 ?d 7 = []"
    by (simp_all add: present_def data_at_def m_find_def nulls_def text_of_def reply_at_def reader_xml_def text_content_def)
  have l: "looked_at [appended 7, appended 8] = [appended 7, appended 8]" "looked_at [appended 9] = [appended 9]"
    by (simp_all add: looked_at_def FeedMergeReplace_def FeedMergeAppend_def)
  show ?thesis
    unfolding plain_row_text [OF g] using c
    by (simp add: l null_ids_def first_id_def Let_def put_xml_def) (simp add: text_content_def)
qed

end
