(* ===== verification/Spec2Isabelle.thy ===== *)
theory Spec2Isabelle
  imports BuddyServer Evictor FriendsCompare Gid IpArea FeedMachine FootprintMachine GroupTheorems NewsRowTheorems
begin

text \<open>
  Verification of the core logic of the OCE services, the C++ back end of a social network. The repository
  holds several hundred services that talk over ICE; this development models the ones that carry
  the logic of relations and feeds and the library code they share, and leaves the transport, the
  databases and the vendored code out. Paths below are relative to \<^verbatim>\<open>src/\<close>.

  \<^bold>\<open>Conventions.\<close> A C++ structure is a record or a datatype with the names of the source, a method is a
  function from the state to the result and the new state. Exceptions, undefined reads and failing
  remote calls are values (\<open>None\<close>, or the left side of a sum). Flags and masks are 32-bit words; other
  integers are \<open>int\<close>, with \<open>to_int32\<close> written where a value is stored in a narrower type. A \<open>std::map\<close>
  is the list of its entries in ascending order. Loops are recursive functions with a measure; a loop
  that need not end is a partial function with an option result, and that it ends is a theorem of its
  own. Mutexes are left out where every operation holds its lock throughout; where the code splits an
  operation into locked parts, the parts are steps of a machine.

  \<^bold>\<open>Theories.\<close>
  \<^item> \<open>OcePrelude\<close>: narrowing to 32 bits, \<open>std::lower_bound\<close> as the halving loop it is, partitioned lists,
    updates of a range of a vector.
  \<^item> \<open>BuddyEntry\<close> (\<^verbatim>\<open>OceCommon/src/BuddyEntry.{h,cpp}\<close>): the flags of a relation, the list of a user's
    relations sorted by user id, and its operations by binary search. The locale \<open>entry_store\<close> is the
    contract of such a store; it is interpreted on the sorted list.
  \<^item> \<open>BuddyDb\<close> (\<^verbatim>\<open>BuddyCore/src/BuddyCoreI.cpp\<close>, the database helper, the factory and the cleanup task): the
    tables, the list built from them, the removal of contradicting rows.
  \<^item> \<open>BuddyCore\<close> (\<^verbatim>\<open>BuddyCore/src/BuddyCoreI.cpp\<close>, \<^verbatim>\<open>BuddyCore/src/SyncAdapter.cpp\<close>): every request, query and
    synchronisation of the relation server, with the remote call that may fail as an oracle of the state.
  \<^item> \<open>BuddyInv\<close>, \<open>BuddyRefine\<close>, \<open>BuddyServer\<close>: the invariant of tables and caches, the abstract machine in
    which one request changes the relation of one pair, the simulation between the two, the step
    relation of the server and its reachable states.
  \<^item> \<open>Evictor\<close> (\<^verbatim>\<open>UtilCxx/src/Evictor.h\<close>): the cache limited by size and the one limited by time, with the list
    of nodes and the iterators into it; the locale \<open>cache\<close> is interpreted on both.
  \<^item> \<open>FriendsCompare\<close> (\<^verbatim>\<open>buddy/BuddyFriendsCache/share/FriendsCompute.h\<close>, \<^verbatim>\<open>buddy/BuddySixDegrees/src/CompareFriends.h\<close>):
    common friends and routes by leaping through sorted lists.
  \<^item> \<open>Gid\<close> (\<^verbatim>\<open>xiaonei-commons-gid/util/c/gid.h\<close>): unified identifiers.
  \<^item> \<open>IpArea\<close> (\<^verbatim>\<open>ad/gate/src/range_key.h\<close>, \<^verbatim>\<open>ad/gate/src/ip_area_cache.cpp\<close>): ranges as keys of a map whose comparison
    throws, and the cache of areas by address.
  \<^item> \<open>FeedCache\<close>, \<open>FeedServer\<close>, \<open>FeedMachine\<close> (\<^verbatim>\<open>feed/FeedItemCache\<close>): the streams of feeds, the queries for a segment
    of the newest feeds of many users, the eviction timer and the threads that load the history.
  \<^item> \<open>Footprint\<close>, \<open>HomeFootprint\<close>, \<open>RecentVisitors\<close>, \<open>FootprintMachine\<close> (\<^verbatim>\<open>app/FootprintUnite\<close>): the sets of visitors of a
    page and their bytes in the database; the server of home pages with its two caches, the queue of
    the evictor thread and the save threads; the one list per page they implement; their runs.

  \<^item> \<open>StdMap\<close>: \<open>std::map\<close> and \<open>std::set\<close> as ascending lists; the locale \<open>std_map\<close> is their contract.
  \<^item> \<open>GroupData\<close> (\<^verbatim>\<open>BuddyGroup/src/BinString.{h,cpp}\<close>, \<^verbatim>\<open>BuddyGroup/src/BuddyGroupWrapper.h\<close>): growing buffers, the groups of
    a user and their packed form, the check of names.
  \<^item> \<open>GroupServer\<close>, \<open>GroupMembers\<close> (\<^verbatim>\<open>BuddyGroup/src/BuddyGroupI.cpp\<close>): the tables of the friend groups, the cached
    packed object of a user, and every request and query of the group server.
  \<^item> \<open>GroupInv\<close>, \<open>GroupLoad\<close>, \<open>GroupChange\<close>, \<open>GroupRefine\<close>, \<open>GroupAnswers\<close>, \<open>GroupTheorems\<close>: the agreement of tables and
    cached object, the loading of the object, the merge that changes all groups of one buddy, the simulation of
    a user's map from names to sets of buddies, the answers of queries, and the properties with runs of requests.

  \<^item> \<open>NewsFeed\<close>, \<open>NewsRing\<close> (\<^verbatim>\<open>feed/FeedNewsN/src/LiveFeedCache.{h,cpp}\<close>, \<^verbatim>\<open>NewsUtil.h\<close>): the feeds of all users in one pool, counted by
    their handles; the news of one user as a ring of 250 slots in six parts, and its operations.
  \<^item> \<open>NewsRingInv\<close>, \<open>NewsRingOps\<close>, \<open>NewsRingAdd\<close>, \<open>NewsRingSpec\<close>, \<open>NewsRingTheorems\<close>: the invariant of ring, counts and pool, what each
    operation does to the window (the list of entries that the ring stands for), and the refinement to a list.
  \<^item> \<open>NewsMerge\<close> (\<^verbatim>\<open>feed/FeedNewsN/src/LiveFeedCache.cpp\<close>): \<open>MergeFeed\<close>, which forms the news out of the entries of one merge key, and
    the pages made from them; \<open>NewsMergeInv\<close>, \<open>NewsOrder\<close>, \<open>NewsPages\<close>: which groups it forms and in which order, what the
    pages contain, and that the ring keeps its feeds.
  \<^item> \<open>NewsServer\<close> (\<^verbatim>\<open>feed/FeedNewsN/src/FeedItemI.{h,cpp}\<close>, \<^verbatim>\<open>EDMFeed.h\<close>): the users in memory in buckets, the advertisements, loading,
    adding, reading; \<open>NewsServerInv\<close>, \<open>NewsRequests\<close>: the pool over all rings, and each request on the lists of the users.
  \<^item> \<open>NewsBuild\<close> (\<^verbatim>\<open>feed/FeedNewsN/src/FeedItemI.cpp\<close>): the requests that answer pages: a row becomes one content with the texts of
    its feeds, and feeds without content leave the ring and the feed cache; \<open>NewsRows\<close>, \<open>NewsBuildInv\<close>: what one row removes,
    the text of simple rows, the rows of a page, and that a request holds its feeds while it removes feeds from the ring.
  \<^item> \<open>NewsTheorems\<close>, \<open>NewsRowTheorems\<close>: the machine of requests (an interpretation of \<open>total_machine\<close>) and the properties.

  \<^bold>\<open>How the parts interact.\<close> A request of the relation server writes the tables, then its own cached
  list, then calls the server of the other user; a failing call leaves that server's list behind. The
  theorems of \<open>BuddyServer\<close> say that with the peer in reach each request refines one transition of the
  abstract machine, what exactly is out of date when it is not, that a reload repairs it, and that
  without a reload the tables can be corrupted. Its runs contain the outages of peers, with three restrictions
  that the code does not enforce: a request is one step, a user has one cached holder, and the reload follows
  a request that failed. The cached lists live in a cache of \<open>Evictor\<close>, which may
  drop any of them at any time: dropping is a step of the server's machine, and \<open>caches_never_stale\<close>
  justifies it: \<open>find\<close>, \<open>locate\<close> and \<open>remove\<close> answer the object last put under the key, or nothing. The six-degree service compares friend lists that the relation server returns in
  ascending order (\<open>queries_exact\<close>), which is the precondition of the theorems of \<open>FriendsCompare\<close>. In the
  feed service requests, loading threads and the timer share the streams; \<open>FeedMachine\<close> proves the count
  of feeds right under every interleaving and that the eviction loop ends. In the footprint service a
  request changes the head of a page and the evictor thread the body later; \<open>footprints_refine\<close> says that
  with the saves, loads and cache evictions in between the page is one list, and rests on the round
  trip of the bytes (\<open>footprint_roundtrip\<close>). Its runs exclude two situations that the code does not, in which it loses
  or repeats footprints: requests for a page while a fill of it is pending (\<open>pending_fills_duplicate\<close>), and cache evictions
  of what is not yet saved (\<open>evicted_body_saved_empty\<close>); requests and rounds of the evictor are steps as a whole. The group server asks the relation server
  whether two users are friends before it changes groups (an argument, the description it answers), writes its
  tables, and packs the changed groups into the cached object, which the next request unpacks again
  (\<open>group_data_roundtrip\<close>). \<open>groups_refine\<close> says that tables and object implement the map of groups that the request
  names, for all requests by name (one with an illegal name changes nothing, and a group is added under a name not in use)
  and the requests by a known id whose handlers keep both in step; the handlers that do not are the subject of
  \<open>change_by_ids_clears\<close>, \<open>set_by_id_keeps_old\<close> and \<open>new_group_unknown_by_id\<close>. The news server keeps, for the users in
  memory, the streams that the feed cache stores. Its rings share the feeds of one pool; a page holds handles of its own while the rings
  change, and \<open>news_server_exact\<close> says that after any requests the counts are the slots that refer to a feed. A new feed goes to
  the rings in memory only (\<open>AddFeed_delivers\<close>), a ring that is not there is loaded (\<open>LoadFeed_roundtrip\<close>), and reading
  (\<open>SetReadById_exact\<close>) or building a page (\<open>page_removes_dead_feeds\<close>) takes feeds out of the ring and the feed cache alike; the calls to
  it are a list in the state.

  \<^bold>\<open>Partial functions.\<close> \<open>has_loop\<close> and \<open>gallop\<close> of \<open>FriendsCompare\<close> end on sorted lists, \<open>runTimerTask\<close> ends in
  every reachable state with a limit that is not negative and is shown not to end otherwise,
  \<open>BuildUserMapThread_run\<close> ends when the windows have a positive width. No definition uses fuel.

  \<^bold>\<open>Library code as arguments.\<close> The \<open>sort\<close> and \<open>nth_element\<close> of the feed service, the splitting of strings and
  the casts of boost are fields of the record \<open>Lib\<close>; \<open>lib_ok\<close> states what the C++ standard promises of the
  first two, and \<open>list_lib\<close> is an instance. The circular buffer of boost is the record \<open>CB\<close> with the contract
  \<open>cb_ok\<close> and the instance \<open>list_cb\<close>. Compression is the record \<open>Gzip\<close>, with the contract
  \<open>gz_ok\<close> that uncompressing undoes compressing and the instance \<open>no_gzip\<close>. The clock of the caches, the rows of
  queries and the reachability of a peer are arguments too. A statement of the database of groups succeeds,
  compares names exactly and numbers new rows consecutively.
  The news server gets the weight of an entry (floating-point arithmetic), the clock, the streams of the feed cache and the
  contents of the content service and its loader as the record \<open>NewsEnv\<close> or as arguments; a service that throws answers \<open>None\<close>. The entries of a dictionary
  of contents share no object. The end of a page, begin plus limit, is an \<open>int\<close> that wraps (\<open>page_rows_exact\<close>).

  \<^bold>\<open>Not modelled.\<close> The ICE glue (\<^verbatim>\<open>OceCxxAdapter\<close>, \<^verbatim>\<open>IceExt\<close>), connection pools and SQL text, logging and timing,
  locks as such; in the news server the cache of results, which is compiled out, the timers that are never scheduled (so that the
  interaction counts of a feed stay zero) and the statistics; the building of the six-degree index, which asks remote services; the vendored
  libraries (pugixml, libfcgi, boost, protobuf and others), generated code, the Java clients, and the
  remaining services, which repeat the patterns above over other tables.
\<close>

end
